(* ===== verification/Prelude.thy ===== *)
theory Prelude
  imports Main "HOL-Library.Multiset"
begin

text \<open>
  Shared vocabulary of the development: Python exceptions as values of a sum type, the
  sequencing of computations that may raise, Python indexing, and generic list lemmas.
  A computation of the source that may raise has type \<open>'a result\<close>: \<open>Inl e\<close> for an
  exception of class \<open>e\<close>, \<open>Inr v\<close> for a normal return. Exception messages are not
  modelled; the class is.
\<close>

named_theorems result_simps \<open>rewriting of computations that may raise\<close>
named_theorems address_simps \<open>address enumeration of strided geometries\<close>
named_theorems layout_simps \<open>integer tuples and layouts\<close>
named_theorems rdzv_simps \<open>rendezvous state transitions\<close>
named_theorems schedule_simps \<open>pipeline actions and schedules\<close>

datatype py_error =
    AssertionError | IndexError | KeyError | TypeError | ValueError | RuntimeError
  | NotImplementedError | ZeroDivisionError | StopIteration | AttributeError
  | RecursionError | GraphCaptureError | PyException

type_synonym 'a result = "py_error + 'a"

abbreviation raise :: "py_error \<Rightarrow> 'a result" where "raise \<equiv> Inl"
abbreviation ret :: "'a \<Rightarrow> 'a result" where "ret \<equiv> Inr"

definition rbind :: "'a result \<Rightarrow> ('a \<Rightarrow> 'b result) \<Rightarrow> 'b result" where
  "rbind m f = (case m of Inl e \<Rightarrow> Inl e | Inr v \<Rightarrow> f v)"

text \<open>\<open>require b e\<close> is the statement \<open>if not b: raise e\<close>.\<close>

definition require :: "bool \<Rightarrow> py_error \<Rightarrow> unit result" where
  "require b e = (if b then Inr () else Inl e)"

text \<open>A Python comprehension whose element expression may raise: left to right, the first
  exception ends it.\<close>

fun traverse :: "('a \<Rightarrow> 'b result) \<Rightarrow> 'a list \<Rightarrow> 'b list result" where
  "traverse f [] = Inr []"
| "traverse f (x # xs) = rbind (f x) (\<lambda>y. rbind (traverse f xs) (\<lambda>ys. Inr (y # ys)))"

text \<open>A Python \<open>for\<close> loop over a list with a state and a body that may raise.\<close>

fun foldM :: "('s \<Rightarrow> 'a \<Rightarrow> 's result) \<Rightarrow> 's \<Rightarrow> 'a list \<Rightarrow> 's result" where
  "foldM f s [] = Inr s"
| "foldM f s (x # xs) = rbind (f s x) (\<lambda>s'. foldM f s' xs)"

text \<open>Python's \<open>xs[i]\<close>: a negative index counts from the end, any other index out of range
  raises IndexError.\<close>

definition py_nth :: "'a list \<Rightarrow> int \<Rightarrow> 'a result" where
  "py_nth xs i =
     (let n = int (length xs); j = (if i < 0 then i + n else i)
      in if 0 \<le> j \<and> j < n then Inr (xs ! nat j) else Inl IndexError)"

text \<open>Python's \<open>range(n)\<close> as a list.\<close>

definition py_range :: "int \<Rightarrow> int list" where
  "py_range n = [0..n - 1]"

definition is_ok :: "'a result \<Rightarrow> bool" where
  "is_ok m = (case m of Inl _ \<Rightarrow> False | Inr _ \<Rightarrow> True)"

text \<open>Python's \<open>str\<close> on non-negative integers.\<close>

fun nat_str :: "nat \<Rightarrow> string" where
  "nat_str n = (if n < 10 then [char_of (48 + n)] else nat_str (n div 10) @ [char_of (48 + n mod 10)])"

declare nat_str.simps [simp del]

lemma rbind_Inl [simp]: "rbind (Inl e) f = Inl e"
  by (simp add: rbind_def)

lemma rbind_Inr [simp]: "rbind (Inr v) f = f v"
  by (simp add: rbind_def)

lemma rbind_eq_Inr [result_simps]: "rbind m f = Inr y \<longleftrightarrow> (\<exists>x. m = Inr x \<and> f x = Inr y)"
  by (cases m) auto

lemma rbind_eq_Inl [result_simps]:
  "rbind m f = Inl e \<longleftrightarrow> m = Inl e \<or> (\<exists>x. m = Inr x \<and> f x = Inl e)"
  by (cases m) auto

lemma rbind_cong [fundef_cong]:
  "m = m' \<Longrightarrow> (\<And>x. m' = Inr x \<Longrightarrow> f x = f' x) \<Longrightarrow> rbind m f = rbind m' f'"
  by (cases m') auto

lemma rbind_assoc: "rbind (rbind m f) g = rbind m (\<lambda>x. rbind (f x) g)"
  by (cases m) auto

lemma require_eq_Inr [result_simps]: "require b e = Inr u \<longleftrightarrow> b"
  by (simp add: require_def)

lemma require_eq_Inl [result_simps]: "require b e = Inl e' \<longleftrightarrow> \<not> b \<and> e' = e"
  by (auto simp: require_def)

lemma require_True [simp]: "require True e = Inr ()"
  by (simp add: require_def)

lemma require_False [simp]: "require False e = Inl e"
  by (simp add: require_def)

lemma is_ok_simps [simp]: "is_ok (Inr x)" "\<not> is_ok (Inl e)"
  by (simp_all add: is_ok_def)

lemma is_ok_iff: "is_ok m \<longleftrightarrow> (\<exists>x. m = Inr x)"
  by (cases m) auto

lemma traverse_cong [fundef_cong]:
  "xs = ys \<Longrightarrow> (\<And>x. x \<in> set ys \<Longrightarrow> f x = g x) \<Longrightarrow> traverse f xs = traverse g ys"
proof (induction xs arbitrary: ys)
  case Nil
  then show ?case by simp
next
  case (Cons x xs)
  then obtain zs where ys: "ys = x # zs" "xs = zs" by auto
  then have "f x = g x" and "traverse f xs = traverse g zs"
    using Cons.prems Cons.IH[of zs] by auto
  then show ?case using ys by simp
qed

lemma traverse_Inr [result_simps]:
  "traverse f xs = Inr ys \<longleftrightarrow> list_all2 (\<lambda>x y. f x = Inr y) xs ys"
proof (induction xs arbitrary: ys)
  case Nil
  then show ?case by auto
next
  case (Cons x xs)
  then show ?case by (cases ys) (auto simp: rbind_eq_Inr)
qed

lemma traverse_total: "(\<And>x. x \<in> set xs \<Longrightarrow> f x = Inr (g x)) \<Longrightarrow> traverse f xs = Inr (map g xs)"
  by (induction xs) auto

lemma traverse_length: "traverse f xs = Inr ys \<Longrightarrow> length ys = length xs"
  by (auto simp: traverse_Inr dest: list_all2_lengthD)

lemma traverse_post: "traverse (\<lambda>x. rbind (f x) (\<lambda>y. Inr (g y))) xs = rbind (traverse f xs) (\<lambda>ys. Inr (map g ys))"
proof (induction xs)
  case (Cons x xs)
  then show ?case by (cases "f x"; cases "traverse f xs") auto
qed simp

lemma traverse_Inl: "traverse f xs = Inl e \<Longrightarrow> \<exists>x \<in> set xs. f x = Inl e"
  by (induction xs) (auto simp: rbind_eq_Inl)

lemma foldM_cong [fundef_cong]:
  "s = t \<Longrightarrow> xs = ys \<Longrightarrow> (\<And>u x. x \<in> set ys \<Longrightarrow> f u x = g u x) \<Longrightarrow> foldM f s xs = foldM g t ys"
  by (induction xs arbitrary: s t ys) (auto intro!: rbind_cong)

lemma foldM_append: "foldM f s (xs @ ys) = rbind (foldM f s xs) (\<lambda>t. foldM f t ys)"
  by (induction xs arbitrary: s) (auto simp: rbind_assoc)

lemma foldM_total: "(\<And>s x. f s x = Inr (g s x)) \<Longrightarrow> foldM f s xs = Inr (foldl g s xs)"
  by (induction xs arbitrary: s) auto

lemma foldM_invariant:
  assumes "foldM f s xs = Inr t" and "I s"
    and "\<And>s x s'. I s \<Longrightarrow> x \<in> set xs \<Longrightarrow> f s x = Inr s' \<Longrightarrow> I s'"
  shows "I t"
  using assms
proof (induction xs arbitrary: s)
  case Nil
  then show ?case by simp
next
  case (Cons x xs)
  from Cons.prems(1) obtain s' where s': "f s x = Inr s'" and rest: "foldM f s' xs = Inr t"
    by (auto simp: rbind_eq_Inr)
  have "I s'" by (rule Cons.prems(3)[OF Cons.prems(2) _ s']) simp
  then show ?case by (rule Cons.IH[OF rest]) (rule Cons.prems(3), auto)
qed

lemma py_nth_nonneg: "0 \<le> i \<Longrightarrow> i < int (length xs) \<Longrightarrow> py_nth xs i = Inr (xs ! nat i)"
  by (simp add: py_nth_def)

lemma py_nth_negative:
  "i < 0 \<Longrightarrow> - int (length xs) \<le> i \<Longrightarrow> py_nth xs i = Inr (xs ! nat (i + int (length xs)))"
  by (simp add: py_nth_def)

lemma py_nth_error: "i < - int (length xs) \<or> int (length xs) \<le> i \<Longrightarrow> py_nth xs i = Inl IndexError"
  by (auto simp: py_nth_def Let_def)

lemma set_py_range [simp]: "set (py_range n) = {0..<n}"
  by (auto simp: py_range_def)

lemma length_py_range [simp]: "length (py_range n) = nat n"
  by (simp add: py_range_def)

lemma distinct_py_range [simp]: "distinct (py_range n)"
  by (simp add: py_range_def)

lemma py_range_nth [simp]: "i < nat n \<Longrightarrow> py_range n ! i = int i"
  by (simp add: py_range_def)

lemma py_range_code: "py_range n = map int [0..<nat n]"
  by (rule nth_equalityI) auto

lemma prod_list_pos: "\<forall>x \<in> set xs. (0::int) < x \<Longrightarrow> 0 < prod_list xs"
  by (induction xs) auto

lemma prod_list_nonneg: "\<forall>x \<in> set xs. (0::int) \<le> x \<Longrightarrow> 0 \<le> prod_list xs"
  by (induction xs) auto

lemma prod_list_append_int: "prod_list (xs @ ys) = prod_list xs * (prod_list ys :: int)"
  by (induction xs) auto

lemma prod_list_rev_int: "prod_list (rev xs) = (prod_list xs :: int)"
  by (induction xs) (auto simp: prod_list_append_int)

lemma prod_list_mset_cong: "mset xs = mset ys \<Longrightarrow> prod_list xs = (prod_list ys :: int)"
  by (metis prod_mset_prod_list)

lemma foldl_mult_int: "foldl (*) a xs = a * (prod_list xs :: int)"
  by (induction xs arbitrary: a) (auto simp: mult.assoc)

lemma int_div_less:
  assumes "(0::int) < s" and "a < s * n"
  shows "a div s < n"
proof (rule ccontr)
  assume "\<not> a div s < n"
  then have "s * n \<le> s * (a div s)" using assms(1) by simp
  also have "\<dots> \<le> a" using mult_div_mod_eq[of s a] pos_mod_sign[OF assms(1), of a] by linarith
  finally show False using assms(2) by simp
qed

lemma int_mult_add_less:
  assumes "(0::int) \<le> x" and "x < s" and "b < n"
  shows "x + s * b < s * n"
proof -
  have "s * (b + 1) \<le> s * n" using assms by (intro mult_left_mono) auto
  then show ?thesis using assms by (simp add: distrib_left)
qed

text \<open>Recursion through \<open>zip\<close> of the children of two nodes terminates.\<close>

lemma zip_size_left [termination_simp]:
  "(a, b) \<in> set (zip as bs) \<Longrightarrow> size a < Suc (size_list size as)"
  by (auto dest!: set_zip_leftD simp: less_Suc_eq_le size_list_estimation')

lemma zip_size_right [termination_simp]:
  "(a, b) \<in> set (zip as bs) \<Longrightarrow> size b < Suc (size_list size bs)"
  by (auto dest!: set_zip_rightD simp: less_Suc_eq_le size_list_estimation')

lemma zip_size_left_context [termination_simp]:
  "(a, b) \<in> set (zip as bs) \<Longrightarrow> size a < Suc (k + size_list size as)"
  using zip_size_left[of a b as bs] by simp

lemma div_eq_iff_int:
  assumes "0 < (w::int)"
  shows "x div w = i \<longleftrightarrow> i * w \<le> x \<and> x < i * w + w"
proof
  assume "x div w = i"
  then show "i * w \<le> x \<and> x < i * w + w"
    using div_mult_mod_eq[of x w] pos_mod_bound[OF assms, of x] pos_mod_sign[OF assms, of x] by auto
next
  assume a: "i * w \<le> x \<and> x < i * w + w"
  have "x = w * i + (x - i * w)" by simp
  then show "x div w = i" by (rule int_div_pos_eq) (use a in auto)
qed

lemma ceil_div_mult:
  assumes "0 < (c::int)"
  shows "n \<le> ((n + c - 1) div c) * c"
  using div_mult_mod_eq[of "n + c - 1" c] pos_mod_bound[OF assms, of "n + c - 1"] by linarith

lemma set_enumerate_0: "set (enumerate 0 xs) = {(i, xs ! i) | i. i < length xs}"
  by (auto simp: in_set_enumerate_eq)

lemma traverse_enumerate_ok:
  assumes "\<And>i x. \<exists>y. f (i, x) = Inr y \<and> P i x y"
  shows "\<exists>ys. traverse f (enumerate k xs) = Inr ys \<and> length ys = length xs \<and> (\<forall>i < length xs. P (k + i) (xs ! i) (ys ! i))"
proof (induction xs arbitrary: k)
  case (Cons x xs)
  obtain y where y: "f (k, x) = Inr y" "P k x y" using assms by blast
  obtain ys where "traverse f (enumerate (Suc k) xs) = Inr ys" "length ys = length xs"
    "\<forall>i < length xs. P (Suc k + i) (xs ! i) (ys ! i)" using Cons by blast
  then show ?case using y by (auto simp: nth_Cons split: nat.splits)
qed simp

end
