(* ===== verification/Strided.thy ===== *)
theory Strided
  imports Prelude
begin

text \<open>
  Strided addressing, the memory model every shape and layout computation of the library
  refers to: a geometry is a list of \<open>(size, stride)\<close> pairs, outermost dimension first, and
  \<open>addresses\<close> lists the element offsets it visits in row-major order of the coordinates (the
  order of \<open>itertools.product\<close> over the ranges of the sizes). The lemmas say when a geometry
  hits every cell of an initial segment exactly once: the abstract meaning of
  non-overlapping and dense.
\<close>

fun addresses :: "(int \<times> int) list \<Rightarrow> int list" where
  "addresses [] = [0]"
| "addresses ((s, d) # ps) = concat (map (\<lambda>x. map (\<lambda>a. x * d + a) (addresses ps)) (py_range s))"

definition numel :: "(int \<times> int) list \<Rightarrow> int" where
  "numel ps = prod_list (map fst ps)"

text \<open>A coordinate tuple inside the given sizes, and the offset it denotes.\<close>

definition valid_coords :: "int list \<Rightarrow> int list \<Rightarrow> bool" where
  "valid_coords xs sizes = list_all2 (\<lambda>x s. 0 \<le> x \<and> x < s) xs sizes"

definition offset_of :: "int list \<Rightarrow> int list \<Rightarrow> int" where
  "offset_of xs strides = sum_list (map2 (*) xs strides)"

text \<open>The geometry visits each of the cells \<open>0, ..., numel - 1\<close> exactly once.\<close>

definition covers_once :: "(int \<times> int) list \<Rightarrow> bool" where
  "covers_once ps \<longleftrightarrow> mset (addresses ps) = mset (py_range (numel ps))"

text \<open>A chain of strides, innermost dimension first: each stride is the product of the sizes
  before it, starting from \<open>e\<close>.\<close>

fun stride_chain :: "int \<Rightarrow> (int \<times> int) list \<Rightarrow> bool" where
  "stride_chain e [] = True"
| "stride_chain e ((s, d) # ps) \<longleftrightarrow> d = e \<and> stride_chain (e * s) ps"

lemma numel_simps [simp]: "numel [] = 1" "numel (p # ps) = fst p * numel ps"
  by (simp_all add: numel_def)

lemma numel_pos: "\<forall>p \<in> set ps. 0 < fst p \<Longrightarrow> 0 < numel ps"
  by (simp add: numel_def prod_list_pos)

lemma numel_mset: "mset ps = mset qs \<Longrightarrow> numel ps = numel qs"
  by (simp add: numel_def prod_list_mset_cong)

lemma valid_coords_Cons [simp]:
  "valid_coords (x # xs) (s # ss) \<longleftrightarrow> 0 \<le> x \<and> x < s \<and> valid_coords xs ss"
  "valid_coords [] []" "\<not> valid_coords [] (s # ss)" "\<not> valid_coords (x # xs) []"
  by (simp_all add: valid_coords_def)

lemma offset_of_Cons [simp]:
  "offset_of (x # xs) (d # ds) = x * d + offset_of xs ds" "offset_of [] ds = 0"
  by (simp_all add: offset_of_def)

text \<open>The addresses are exactly the offsets of the valid coordinates.\<close>

lemma set_addresses:
  "set (addresses ps) = {offset_of xs (map snd ps) | xs. valid_coords xs (map fst ps)}"
proof (induction ps)
  case Nil
  have "valid_coords xs [] \<longleftrightarrow> xs = []" for xs by (cases xs) auto
  then show ?case by simp
next
  case (Cons p ps)
  obtain s d where p: "p = (s, d)" by (cases p)
  show ?case
  proof (intro set_eqI iffI)
    fix a
    assume "a \<in> set (addresses (p # ps))"
    then obtain x b where "0 \<le> x" "x < s" "b \<in> set (addresses ps)" "a = x * d + b"
      by (auto simp: p)
    moreover then obtain ys where "b = offset_of ys (map snd ps)" "valid_coords ys (map fst ps)"
      using Cons.IH by auto
    ultimately have "a = offset_of (x # ys) (map snd (p # ps))"
      and "valid_coords (x # ys) (map fst (p # ps))"
      by (simp_all add: p)
    then show "a \<in> {offset_of xs (map snd (p # ps)) | xs. valid_coords xs (map fst (p # ps))}"
      by blast
  next
    fix a
    assume "a \<in> {offset_of xs (map snd (p # ps)) | xs. valid_coords xs (map fst (p # ps))}"
    then obtain xs where a: "a = offset_of xs (map snd (p # ps))"
      and v: "valid_coords xs (map fst (p # ps))"
      by blast
    from v obtain x ys where xs: "xs = x # ys" by (cases xs) auto
    have "offset_of ys (map snd ps) \<in> set (addresses ps)"
      using v Cons.IH by (auto simp: xs p)
    then show "a \<in> set (addresses (p # ps))"
      using a v by (auto simp: xs p)
  qed
qed

lemma length_addresses: "\<forall>p \<in> set ps. 0 \<le> fst p \<Longrightarrow> int (length (addresses ps)) = numel ps"
proof (induction ps)
  case Nil
  then show ?case by simp
next
  case (Cons p ps)
  obtain s d where p: "p = (s, d)" by (cases p)
  have "length (addresses (p # ps)) = nat s * length (addresses ps)"
    by (simp add: p length_concat comp_def sum_list_triv)
  then show ?case using Cons by (simp add: p)
qed

text \<open>The multiset of addresses does not depend on the order of the dimensions.\<close>

definition spread :: "int \<times> int \<Rightarrow> int multiset \<Rightarrow> int multiset" where
  "spread p A = (\<Sum>x \<in># mset (py_range (fst p)). image_mset (\<lambda>a. x * snd p + a) A)"

lemma mset_addresses_Cons: "mset (addresses (p # ps)) = spread p (mset (addresses ps))"
  by (cases p) (simp add: spread_def mset_concat comp_def mset_map flip: sum_mset_sum_list)

lemma image_sum_mset: "image_mset f (\<Sum>x \<in># M. g x) = (\<Sum>x \<in># M. image_mset f (g x))"
  by (induction M) auto

lemma spread_commute: "spread p (spread q A) = spread q (spread p A)"
proof -
  have swap: "(\<Sum>x \<in># M. \<Sum>y \<in># N. f x y) = (\<Sum>y \<in># N. \<Sum>x \<in># M. f x y :: int multiset)"
    for M N :: "int multiset" and f
    by (rule sum_mset.swap)
  show ?thesis
    unfolding spread_def image_sum_mset multiset.map_comp comp_def
    by (subst swap) (simp add: add.left_commute)
qed

lemma mset_addresses: "mset (addresses ps) = foldr spread ps {#0#}"
  by (induction ps) (simp_all add: mset_addresses_Cons del: addresses.simps(2))

lemma addresses_mset_cong:
  assumes "mset ps = mset qs"
  shows "mset (addresses ps) = mset (addresses qs)"
proof -
  have "fold spread (rev ps) = fold spread (rev qs)"
    by (rule fold_multiset_equiv) (auto simp: fun_eq_iff spread_commute assms)
  then show ?thesis by (simp add: mset_addresses foldr_conv_fold)
qed

lemma covers_once_mset: "mset ps = mset qs \<Longrightarrow> covers_once ps \<longleftrightarrow> covers_once qs"
  using addresses_mset_cong[of ps qs] numel_mset[of ps qs] by (simp add: covers_once_def)

text \<open>Dimensions of size one do not matter.\<close>

lemma py_range_1 [simp]: "py_range 1 = [0]"
  by (simp add: py_range_def)

lemma spread_one [simp]: "spread (1, d) A = A"
proof -
  have "(+) (0::int) = id" by (simp add: fun_eq_iff)
  then show ?thesis by (simp add: spread_def)
qed

lemma mset_addresses_filter:
  "mset (addresses (filter (\<lambda>p. fst p \<noteq> 1) ps)) = mset (addresses ps)"
proof (induction ps)
  case Nil
  then show ?case by simp
next
  case (Cons p ps)
  then show ?case
    by (cases p) (auto simp: mset_addresses_Cons simp del: addresses.simps(2))
qed

lemma numel_filter: "numel (filter (\<lambda>p. fst p \<noteq> 1) ps) = numel ps"
  by (induction ps) auto

lemma covers_once_filter: "covers_once (filter (\<lambda>p. fst p \<noteq> 1) ps) \<longleftrightarrow> covers_once ps"
  by (simp add: covers_once_def mset_addresses_filter numel_filter)

text \<open>A chain of strides covers each cell once: the mixed-radix representation.\<close>

lemma mixed_radix_mset:
  assumes "0 < s" and "0 < n"
  shows "(\<Sum>x \<in># mset (py_range s). image_mset (\<lambda>b. x + s * b) (mset (py_range n)))
    = mset (py_range (s * n))"
proof -
  let ?L = "concat (map (\<lambda>x. map (\<lambda>b. x + s * b) (py_range n)) (py_range s))"
  have set: "set ?L = set (py_range (s * n))"
  proof (intro set_eqI iffI)
    fix a
    assume "a \<in> set ?L"
    then obtain x b where ab: "0 \<le> x" "x < s" "0 \<le> b" "b < n" "a = x + s * b" by auto
    with assms int_mult_add_less[of x s b n] show "a \<in> set (py_range (s * n))" by simp
  next
    fix a
    assume "a \<in> set (py_range (s * n))"
    then have a: "0 \<le> a" "a < s * n" by auto
    have "a div s < n"
      using a assms by (simp add: int_div_less)
    moreover have "a = a mod s + s * (a div s)" by simp
    moreover have "0 \<le> a div s" "0 \<le> a mod s" "a mod s < s"
      using a assms by (simp_all add: pos_imp_zdiv_nonneg_iff)
    ultimately show "a \<in> set ?L"
      by (auto intro!: bexI[of _ "a mod s"] image_eqI[of _ _ "a div s"])
  qed
  have "length ?L = nat s * nat n" by (simp add: length_concat comp_def sum_list_triv)
  also have "\<dots> = card (set ?L)"
    using assms unfolding set by (simp add: nat_mult_distrib)
  finally have "distinct ?L" by (simp add: card_distinct)
  then have "mset ?L = mset (py_range (s * n))"
    using set by (simp add: set_eq_iff_mset_eq_distinct[symmetric])
  then show ?thesis by (simp add: mset_concat comp_def mset_map flip: sum_mset_sum_list)
qed

lemma stride_chain_addresses:
  assumes "stride_chain e ps" and "\<forall>p \<in> set ps. 0 < fst p"
  shows "mset (addresses ps) = image_mset (\<lambda>a. e * a) (mset (py_range (numel ps)))"
  using assms
proof (induction e ps rule: stride_chain.induct)
  case (1 e)
  then show ?case by simp
next
  case (2 e s d ps)
  then have d: "d = e" and s: "0 < s" and pos: "\<forall>p \<in> set ps. 0 < fst p" by auto
  let ?n = "numel ps"
  have "mset (addresses ((s, d) # ps)) = spread (s, e) (mset (addresses ps))"
    by (simp only: d mset_addresses_Cons)
  also have "\<dots> = spread (s, e) (image_mset (\<lambda>a. e * s * a) (mset (py_range ?n)))"
    using 2 by simp
  also have "\<dots> = (\<Sum>x \<in># mset (py_range s).
      image_mset (\<lambda>a. e * a) (image_mset (\<lambda>b. x + s * b) (mset (py_range ?n))))"
    by (simp add: spread_def multiset.map_comp comp_def algebra_simps)
  also have "\<dots> = image_mset (\<lambda>a. e * a) (mset (py_range (s * ?n)))"
    using mixed_radix_mset[OF s numel_pos[OF pos]] by (simp flip: image_sum_mset)
  finally show ?case by simp
qed

lemma stride_chain_covers_once:
  assumes "stride_chain 1 ps" and "\<forall>p \<in> set ps. 0 < fst p"
  shows "covers_once ps"
  using stride_chain_addresses[OF assms] by (simp add: covers_once_def)

lemma covers_once_distinct: "covers_once ps \<Longrightarrow> distinct (addresses ps)"
  unfolding covers_once_def by (metis distinct_py_range mset_eq_imp_distinct_iff)

lemma covers_once_set: "covers_once ps \<Longrightarrow> set (addresses ps) = {0..<numel ps}"
  unfolding covers_once_def by (metis set_mset_mset set_py_range)

lemma stride_chain_append:
  "stride_chain e (ps @ qs) \<longleftrightarrow> stride_chain e ps \<and> stride_chain (e * numel ps) qs"
  by (induction e ps rule: stride_chain.induct) (auto simp: mult.assoc)

text \<open>An offset of valid coordinates is bounded by the offset of the last coordinates.\<close>

lemma offset_of_bounds:
  assumes "valid_coords xs sizes" and "length sizes = length strides"
    and "\<forall>d \<in> set strides. 0 \<le> d"
  shows "0 \<le> offset_of xs strides \<and>
    offset_of xs strides \<le> sum_list (map (\<lambda>(x, y). (x - 1) * y) (zip sizes strides))"
  using assms
proof (induction xs arbitrary: sizes strides)
  case Nil
  then show ?case by (cases sizes) auto
next
  case (Cons x xs)
  then obtain s ss d ds where eq: "sizes = s # ss" "strides = d # ds"
    by (cases sizes; cases strides) auto
  with Cons.prems have x: "0 \<le> x" "x \<le> s - 1" "0 \<le> d"
    and rest: "valid_coords xs ss" "length ss = length ds" "\<forall>d \<in> set ds. 0 \<le> d"
    by auto
  have "x * d \<le> (s - 1) * d" and "0 \<le> x * d"
    using x by (auto intro: mult_right_mono)
  with Cons.IH[OF rest] show ?case by (auto simp: eq)
qed

text \<open>The interface a provider of geometries offers to its clients: a well-formedness check and
  the geometry built from the checked value, with the promise that the geometry covers its
  segment once. The contiguous strides, the density check and the elementwise output strides
  each provide it; what follows from it is proved here once.\<close>

locale dense_geometry =
  fixes ok :: "'a \<Rightarrow> bool" and geometry :: "'a \<Rightarrow> (int \<times> int) list"
  assumes covers: "ok x \<Longrightarrow> covers_once (geometry x)"
begin

lemma no_overlap: "ok x \<Longrightarrow> distinct (addresses (geometry x))"
  by (rule covers_once_distinct) (rule covers)

lemma address_exists:
  assumes "ok x" and "0 \<le> a" and "a < numel (geometry x)"
  shows "\<exists>xs. valid_coords xs (map fst (geometry x)) \<and> offset_of xs (map snd (geometry x)) = a"
proof -
  have "a \<in> set (addresses (geometry x))" using covers_once_set[OF covers] assms by simp
  then show ?thesis unfolding set_addresses by blast
qed

lemma address_in_segment:
  assumes "ok x" and "valid_coords xs (map fst (geometry x))"
  shows "0 \<le> offset_of xs (map snd (geometry x))"
    and "offset_of xs (map snd (geometry x)) < numel (geometry x)"
proof -
  have "offset_of xs (map snd (geometry x)) \<in> set (addresses (geometry x))"
    using assms unfolding set_addresses by blast
  then show "0 \<le> offset_of xs (map snd (geometry x))"
    and "offset_of xs (map snd (geometry x)) < numel (geometry x)"
    using covers_once_set[OF covers] assms(1) by auto
qed

lemma addresses_sorted: "ok x \<Longrightarrow> sort (addresses (geometry x)) = py_range (numel (geometry x))"
proof -
  assume "ok x"
  then have "mset (addresses (geometry x)) = mset (py_range (numel (geometry x)))"
    using covers by (simp add: covers_once_def)
  moreover have "sorted (py_range (numel (geometry x)))" by (simp add: py_range_def)
  ultimately show ?thesis by (metis properties_for_sort mset_sort)
qed

end

end
