(* ===== verification/Dtypes.thy ===== *)
theory Dtypes
  imports Prelude
begin

text \<open>
  Dtypes, tensor metadata and the type-promotion rules of
  \<^verbatim>\<open>src/tensorplay/primitives/common/__init__.py\<close>. The dtype enumeration is the one the Python
  binding exports. Two things are not Python code and are parameters here: the default
  floating point dtype (\<open>dflt\<close>, the value of \<^verbatim>\<open>tensorplay.get_default_dtype()\<close>), and object
  identity of dtype objects (\<open>ident\<close>, the value of \<^verbatim>\<open>a is b\<close>), which depends on whether the
  binding hands out one object per enumeration value or a fresh one.
\<close>

datatype dtype =
    uint8 | int8 | int16 | int32 | int64 | uint16 | uint32 | uint64
  | float16 | bfloat16 | float32 | float64
  | complex32 | complex64 | complex128 | bcomplex32
  | float8_e4m3fn | float8_e4m3fnuz | float8_e5m2 | float8_e5m2fnuz | float8_e8m0fnu
  | qint8 | quint8 | qint32 | quint2x4 | quint4x2 | quint1x8
  | bool_dt | undefined_dt

datatype device = Device (dev_type: string) (dev_index: "int option")

record tensor_meta =
  t_shape :: "int list"
  t_stride :: "int list"
  t_storage_offset :: int
  t_dtype :: dtype
  t_device :: device
  t_is_conj :: bool
  t_is_neg :: bool

abbreviation t_ndim :: "tensor_meta \<Rightarrow> nat" where
  "t_ndim a \<equiv> length (t_shape a)"

text \<open>The Python number types, and the arguments an operation may receive. A symbolic
  expression carries what the code asks of it: whether it is a boolean, an integer, or neither.\<close>

datatype py_type = PyBool | PyInt | PyFloat | PyComplex

datatype sym_kind = SymBoolean | SymInteger | SymOther

datatype op_arg = ArgNumber py_type | ArgTensor tensor_meta | ArgSym sym_kind | ArgOther

subsection \<open>Dtype classes\<close>

definition integer_dtypes :: "dtype list" where
  "integer_dtypes = [uint8, uint16, uint32, uint64, int8, int16, int32, int64]"

definition low_precision_dtypes :: "dtype list" where
  "low_precision_dtypes = [float16, bfloat16, complex32, bcomplex32]"

definition complex_dtypes :: "dtype list" where
  "complex_dtypes = [complex32, bcomplex32, complex64, complex128]"

definition float_dtypes :: "dtype list" where
  "float_dtypes = [float16, bfloat16, float32, float64]"

definition boolean_dtypes :: "dtype list" where
  "boolean_dtypes = [bool_dt]"

definition ordered_dtypes :: "dtype list list" where
  "ordered_dtypes =
     [[bool_dt], [uint8, int8], [int16], [int32], [int64], [float16, bfloat16], [float32],
      [float64], [complex32, bcomplex32], [complex64], [complex128]]"

definition ordered_types :: "py_type list" where
  "ordered_types = [PyBool, PyInt, PyFloat, PyComplex]"

definition is_boolean_dtype :: "dtype \<Rightarrow> bool" where
  "is_boolean_dtype d \<longleftrightarrow> d \<in> set boolean_dtypes"

definition is_integer_dtype :: "dtype \<Rightarrow> bool" where
  "is_integer_dtype d \<longleftrightarrow> d \<in> set integer_dtypes"

definition is_low_precision_dtype :: "dtype \<Rightarrow> bool" where
  "is_low_precision_dtype d \<longleftrightarrow> d \<in> set low_precision_dtypes"

definition is_float_dtype :: "dtype \<Rightarrow> bool" where
  "is_float_dtype d \<longleftrightarrow> d \<in> set float_dtypes"

definition is_complex_dtype :: "dtype \<Rightarrow> bool" where
  "is_complex_dtype d \<longleftrightarrow> d \<in> set complex_dtypes"

definition is_grad_dtype :: "dtype \<Rightarrow> bool" where
  "is_grad_dtype d \<longleftrightarrow>
     is_float_dtype d \<or> is_complex_dtype d \<or> d \<in> {uint8, int8, int16, int32, int64, bool_dt}"

text \<open>The \<^verbatim>\<open>is_floating_point\<close> property of the binding (\<^verbatim>\<open>isFloatingType\<close> in
  \<^verbatim>\<open>p10/include/DType.h\<close>), which includes the 8-bit formats.\<close>

definition is_floating_point :: "dtype \<Rightarrow> bool" where
  "is_floating_point d \<longleftrightarrow>
     d \<in> {float32, float64, float16, bfloat16, float8_e4m3fn, float8_e5m2, float8_e4m3fnuz,
          float8_e5m2fnuz, float8_e8m0fnu}"

fun corresponding_real_dtype :: "dtype \<Rightarrow> dtype result" where
  "corresponding_real_dtype complex32 = Inr float16"
| "corresponding_real_dtype bcomplex32 = Inr bfloat16"
| "corresponding_real_dtype complex64 = Inr float32"
| "corresponding_real_dtype complex128 = Inr float64"
| "corresponding_real_dtype _ = Inl KeyError"

fun corresponding_complex_dtype :: "dtype \<Rightarrow> dtype result" where
  "corresponding_complex_dtype float16 = Inr complex32"
| "corresponding_complex_dtype bfloat16 = Inr bcomplex32"
| "corresponding_complex_dtype float32 = Inr complex64"
| "corresponding_complex_dtype float64 = Inr complex128"
| "corresponding_complex_dtype _ = Inl KeyError"

definition dtype_to_type :: "dtype \<Rightarrow> py_type result" where
  "dtype_to_type d =
     (if d = bool_dt then Inr PyBool
      else if d \<in> set integer_dtypes then Inr PyInt
      else if is_floating_point d then Inr PyFloat
      else if d \<in> set complex_dtypes then Inr PyComplex
      else Inl ValueError)"

definition dtype_to_type_ctor :: "dtype \<Rightarrow> py_type result" where
  "dtype_to_type_ctor d =
     (if d = bool_dt then Inr PyBool
      else if d \<in> set integer_dtypes then Inr PyInt
      else if is_floating_point d then Inr PyFloat
      else if d \<in> set complex_dtypes then Inr PyComplex
      else Inl ValueError)"

fun type_to_dtype :: "dtype \<Rightarrow> py_type \<Rightarrow> dtype result" where
  "type_to_dtype dflt PyBool = Inr bool_dt"
| "type_to_dtype dflt PyInt = Inr int64"
| "type_to_dtype dflt PyFloat = Inr dflt"
| "type_to_dtype dflt PyComplex = corresponding_complex_dtype dflt"

fun get_dtype :: "dtype \<Rightarrow> op_arg \<Rightarrow> dtype result" where
  "get_dtype dflt (ArgTensor t) = Inr (t_dtype t)"
| "get_dtype dflt (ArgNumber n) = type_to_dtype dflt n"
| "get_dtype dflt _ = Inl RuntimeError"

definition check_fp_or_complex :: "dtype \<Rightarrow> bool \<Rightarrow> unit result" where
  "check_fp_or_complex d allow_low_precision_dtypes =
     rbind (require (is_float_dtype d \<or> is_complex_dtype d) RuntimeError) (\<lambda>_.
     require (allow_low_precision_dtypes \<or> \<not> is_low_precision_dtype d) RuntimeError)"

subsection \<open>Ordering of types and dtypes\<close>

fun first_ordered_type :: "py_type \<Rightarrow> py_type \<Rightarrow> py_type list \<Rightarrow> py_type result" where
  "first_ordered_type a b [] = Inl ValueError"
| "first_ordered_type a b (typ # typs) =
     (if a = typ then Inr b else if b = typ then Inr a else first_ordered_type a b typs)"

definition get_higher_type :: "py_type \<Rightarrow> py_type \<Rightarrow> py_type result" where
  "get_higher_type a b =
     (if a \<notin> set ordered_types \<or> b \<notin> set ordered_types then Inl RuntimeError
      else if a = b then Inr a
      else first_ordered_type a b ordered_types)"

fun dtype_order_from :: "int \<Rightarrow> dtype list list \<Rightarrow> dtype \<Rightarrow> int result" where
  "dtype_order_from i [] dt = Inl ValueError"
| "dtype_order_from i (tier # tiers) dt =
     (if dt \<in> set tier then Inr i else dtype_order_from (i + 1) tiers dt)"

definition dtype_order :: "dtype \<Rightarrow> int result" where
  "dtype_order dt = dtype_order_from 0 ordered_dtypes dt"

datatype dtype_src = SrcNone | SrcDtype dtype | SrcArg op_arg

fun extract_dtype :: "dtype \<Rightarrow> dtype_src \<Rightarrow> dtype option result" where
  "extract_dtype dflt SrcNone = Inr None"
| "extract_dtype dflt (SrcDtype d) = Inr (Some d)"
| "extract_dtype dflt (SrcArg (ArgTensor t)) = Inr (Some (t_dtype t))"
| "extract_dtype dflt (SrcArg (ArgNumber n)) = rbind (type_to_dtype dflt n) (\<lambda>d. Inr (Some d))"
| "extract_dtype dflt (SrcArg _) = Inl RuntimeError"

text \<open>The comparison of two different dtype objects: first a tier that holds both, then the tier
  numbers. Both read the tier numbers, which raises for a dtype in no tier.\<close>

definition compare_dtypes :: "dtype \<Rightarrow> dtype \<Rightarrow> dtype result" where
  "compare_dtypes a b =
     (if list_ex (\<lambda>tier. a \<in> set tier \<and> b \<in> set tier) ordered_dtypes
      then rbind (dtype_order a) (\<lambda>oa. rbind (dtype_order b) (\<lambda>ob.
             Inr (if oa < ob then b else a)))
      else rbind (dtype_order a) (\<lambda>oa. rbind (dtype_order b) (\<lambda>ob.
             Inr (if oa > ob then a else b))))"

definition get_higher_dtype ::
  "(dtype \<Rightarrow> dtype \<Rightarrow> bool) \<Rightarrow> dtype \<Rightarrow> dtype_src \<Rightarrow> dtype_src \<Rightarrow> dtype option result" where
  "get_higher_dtype ident dflt a b =
     rbind (extract_dtype dflt a) (\<lambda>x. rbind (extract_dtype dflt b) (\<lambda>y.
       case (x, y) of
         (None, None) \<Rightarrow> Inr None
       | (None, Some d) \<Rightarrow> Inr (Some d)
       | (Some d, None) \<Rightarrow> Inr (Some d)
       | (Some d, Some e) \<Rightarrow>
           if ident d e then Inr (Some d) else rbind (compare_dtypes d e) (\<lambda>r. Inr (Some r))))"

fun is_weakly_lesser_type :: "py_type \<Rightarrow> py_type \<Rightarrow> bool" where
  "is_weakly_lesser_type x PyInt \<longleftrightarrow> x = PyInt \<or> x = PyBool"
| "is_weakly_lesser_type x PyFloat \<longleftrightarrow> x = PyFloat \<or> x = PyInt \<or> x = PyBool"
| "is_weakly_lesser_type x PyComplex \<longleftrightarrow> x = PyComplex \<or> x = PyFloat \<or> x = PyInt \<or> x = PyBool"
| "is_weakly_lesser_type x tier \<longleftrightarrow> x = tier"

fun safe_cast_loop :: "(dtype \<Rightarrow> bool) list \<Rightarrow> dtype \<Rightarrow> dtype \<Rightarrow> bool result" where
  "safe_cast_loop [] cast_to cast_from = Inl ValueError"
| "safe_cast_loop (fn # fns) cast_to cast_from =
     (if fn cast_to then Inr True else if fn cast_from then Inr False
      else safe_cast_loop fns cast_to cast_from)"

definition can_safe_cast_to :: "dtype \<Rightarrow> dtype \<Rightarrow> bool result" where
  "can_safe_cast_to cast_to cast_from =
     safe_cast_loop [is_complex_dtype, is_float_dtype, is_integer_dtype, is_boolean_dtype]
       cast_to cast_from"

fun arg_dtypes :: "op_arg list \<Rightarrow> dtype list" where
  "arg_dtypes [] = []"
| "arg_dtypes (ArgTensor t # as) = t_dtype t # arg_dtypes as"
| "arg_dtypes (_ # as) = arg_dtypes as"

definition check_same_dtype :: "op_arg list \<Rightarrow> unit result" where
  "check_same_dtype args =
     (case arg_dtypes args of
        [] \<Rightarrow> Inr ()
      | first # others \<Rightarrow>
          (if list_all (\<lambda>other. other = first) others then Inr () else Inl TypeError))"

fun get_computation_dtype :: "dtype \<Rightarrow> dtype" where
  "get_computation_dtype float16 = float32"
| "get_computation_dtype bfloat16 = float32"
| "get_computation_dtype complex32 = complex64"
| "get_computation_dtype bcomplex32 = complex64"
| "get_computation_dtype d = d"

fun cpu_acc_type_map :: "dtype \<Rightarrow> dtype option" where
  "cpu_acc_type_map float16 = Some float32"
| "cpu_acc_type_map bfloat16 = Some float32"
| "cpu_acc_type_map _ = None"

definition get_acc_type :: "dtype \<Rightarrow> device option \<Rightarrow> dtype" where
  "get_acc_type d dev_arg =
     (let dev = (case dev_arg of Some v \<Rightarrow> v | None \<Rightarrow> Device ''cpu'' None)
      in if dev_type dev = ''cpu''
         then (case cpu_acc_type_map d of Some v \<Rightarrow> v | None \<Rightarrow> d)
         else get_computation_dtype d)"

subsection \<open>Elementwise promotion\<close>

datatype promotion_kind =
    DEFAULT | NO_OPMATH | INT_TO_FLOAT | COMPLEX_TO_FLOAT | BOOL_TO_LONG | ALWAYS_BOOL

datatype reduction_kind =
    RED_SAME | RED_COMPLEX_TO_FLOAT | RED_KEEP_PROMOTED_TYPE | RED_ALWAYS_BOOL

fun sym_scalar_type :: "sym_kind \<Rightarrow> py_type" where
  "sym_scalar_type SymBoolean = PyBool"
| "sym_scalar_type SymInteger = PyInt"
| "sym_scalar_type SymOther = PyFloat"

fun arg_scalar_type :: "op_arg \<Rightarrow> py_type result" where
  "arg_scalar_type (ArgNumber n) = Inr n"
| "arg_scalar_type (ArgSym k) = Inr (sym_scalar_type k)"
| "arg_scalar_type (ArgTensor t) = dtype_to_type (t_dtype t)"
| "arg_scalar_type ArgOther = Inl ValueError"

definition highest_arg_type :: "op_arg list \<Rightarrow> py_type result" where
  "highest_arg_type args =
     foldM (\<lambda>h x. rbind (arg_scalar_type x) (\<lambda>t. get_higher_type h t)) PyBool args"

fun find_highest_step ::
  "(dtype \<Rightarrow> dtype \<Rightarrow> bool) \<Rightarrow> dtype \<Rightarrow> (dtype \<Rightarrow> bool) \<Rightarrow> bool \<Rightarrow>
   dtype option \<times> dtype option \<Rightarrow> op_arg \<Rightarrow> (dtype option \<times> dtype option) result" where
  "find_highest_step ident dflt flt float_as_complex (zero, one) (ArgTensor t) =
     (if \<not> flt (t_dtype t) then Inr (zero, one)
      else rbind (if float_as_complex \<and> is_float_dtype (t_dtype t)
                  then corresponding_complex_dtype (t_dtype t) else Inr (t_dtype t)) (\<lambda>d.
        if t_ndim t = 0
        then rbind (get_higher_dtype ident dflt
                      (case zero of None \<Rightarrow> SrcNone | Some z \<Rightarrow> SrcDtype z) (SrcDtype d))
               (\<lambda>z. Inr (z, one))
        else rbind (get_higher_dtype ident dflt
                      (case one of None \<Rightarrow> SrcNone | Some z \<Rightarrow> SrcDtype z) (SrcDtype d))
               (\<lambda>z. Inr (zero, z))))"
| "find_highest_step ident dflt flt float_as_complex acc _ = Inr acc"

definition find_highest_dtype_filtered ::
  "(dtype \<Rightarrow> dtype \<Rightarrow> bool) \<Rightarrow> dtype \<Rightarrow> op_arg list \<Rightarrow> (dtype \<Rightarrow> bool) \<Rightarrow> bool \<Rightarrow>
   dtype option result" where
  "find_highest_dtype_filtered ident dflt args flt float_as_complex =
     rbind (foldM (find_highest_step ident dflt flt float_as_complex) (None, None) args)
       (\<lambda>(zero, one). Inr (case one of Some d \<Rightarrow> Some d | None \<Rightarrow> zero))"

definition promoted_result_dtype ::
  "(dtype \<Rightarrow> dtype \<Rightarrow> bool) \<Rightarrow> dtype \<Rightarrow> op_arg list \<Rightarrow> py_type \<Rightarrow> dtype result" where
  "promoted_result_dtype ident dflt args highest =
     (case highest of
        PyFloat \<Rightarrow>
          rbind (find_highest_dtype_filtered ident dflt args is_float_dtype False)
            (\<lambda>r. Inr (case r of None \<Rightarrow> dflt | Some d \<Rightarrow> d))
      | PyComplex \<Rightarrow>
          rbind (find_highest_dtype_filtered ident dflt args
                   (\<lambda>x. is_float_dtype x \<or> is_complex_dtype x) True)
            (\<lambda>r. case r of None \<Rightarrow> corresponding_complex_dtype dflt | Some d \<Rightarrow> Inr d)
      | PyInt \<Rightarrow>
          rbind (find_highest_dtype_filtered ident dflt args is_integer_dtype False)
            (\<lambda>r. Inr (case r of None \<Rightarrow> int64 | Some d \<Rightarrow> d))
      | PyBool \<Rightarrow> Inr bool_dt)"

definition apply_promotion_kind ::
  "dtype \<Rightarrow> promotion_kind \<Rightarrow> dtype \<Rightarrow> (dtype \<times> dtype) result" where
  "apply_promotion_kind dflt kind result_dtype =
     (case kind of
        DEFAULT \<Rightarrow> Inr (get_computation_dtype result_dtype, result_dtype)
      | NO_OPMATH \<Rightarrow> Inr (result_dtype, result_dtype)
      | INT_TO_FLOAT \<Rightarrow>
          (let r = (if is_integer_dtype result_dtype \<or> is_boolean_dtype result_dtype
                    then dflt else result_dtype)
           in Inr (get_computation_dtype r, r))
      | COMPLEX_TO_FLOAT \<Rightarrow>
          (let c = get_computation_dtype result_dtype
           in if is_complex_dtype result_dtype
              then rbind (corresponding_real_dtype result_dtype) (\<lambda>r. Inr (c, r))
              else Inr (c, result_dtype))
      | BOOL_TO_LONG \<Rightarrow>
          (if is_boolean_dtype result_dtype then Inr (int64, int64)
           else Inr (get_computation_dtype result_dtype, result_dtype))
      | ALWAYS_BOOL \<Rightarrow> Inr (get_computation_dtype result_dtype, bool_dt))"

definition elementwise_dtypes ::
  "(dtype \<Rightarrow> dtype \<Rightarrow> bool) \<Rightarrow> dtype \<Rightarrow> op_arg list \<Rightarrow> promotion_kind \<Rightarrow>
   (dtype \<times> dtype) result" where
  "elementwise_dtypes ident dflt args kind =
     rbind (highest_arg_type args) (\<lambda>highest.
     rbind (promoted_result_dtype ident dflt args highest) (\<lambda>r.
     apply_promotion_kind dflt kind r))"

definition reduction_dtypes ::
  "dtype \<Rightarrow> reduction_kind \<Rightarrow> dtype option \<Rightarrow> (dtype \<times> dtype option) result" where
  "reduction_dtypes arg_dtype kind dt =
     (let inp_dtype = (case dt of Some d \<Rightarrow> d | None \<Rightarrow> arg_dtype);
          computation_dtype = get_computation_dtype inp_dtype
      in case kind of
           RED_SAME \<Rightarrow> Inr (computation_dtype, Some inp_dtype)
         | RED_COMPLEX_TO_FLOAT \<Rightarrow>
             (if is_complex_dtype inp_dtype
              then rbind (corresponding_real_dtype inp_dtype)
                     (\<lambda>r. Inr (computation_dtype, Some r))
              else Inr (computation_dtype, Some inp_dtype))
         | RED_KEEP_PROMOTED_TYPE \<Rightarrow> Inr (computation_dtype, None)
         | RED_ALWAYS_BOOL \<Rightarrow> Inr (computation_dtype, Some bool_dt))"

subsection \<open>Properties of the orderings\<close>

definition in_tiers :: "dtype \<Rightarrow> bool" where
  "in_tiers d \<longleftrightarrow> d \<in> set (concat ordered_dtypes)"

definition tier_no :: "dtype \<Rightarrow> int" where
  "tier_no d = (case dtype_order d of Inl _ \<Rightarrow> -1 | Inr i \<Rightarrow> i)"

lemmas dtype_classes =
  is_boolean_dtype_def is_integer_dtype_def is_low_precision_dtype_def is_float_dtype_def
  is_complex_dtype_def is_floating_point_def boolean_dtypes_def integer_dtypes_def
  low_precision_dtypes_def float_dtypes_def complex_dtypes_def

lemma dtype_order_table:
  "dtype_order bool_dt = Inr 0" "dtype_order uint8 = Inr 1" "dtype_order int8 = Inr 1"
  "dtype_order int16 = Inr 2" "dtype_order int32 = Inr 3" "dtype_order int64 = Inr 4"
  "dtype_order float16 = Inr 5" "dtype_order bfloat16 = Inr 5" "dtype_order float32 = Inr 6"
  "dtype_order float64 = Inr 7" "dtype_order complex32 = Inr 8" "dtype_order bcomplex32 = Inr 8"
  "dtype_order complex64 = Inr 9" "dtype_order complex128 = Inr 10"
  by (simp_all add: dtype_order_def ordered_dtypes_def)

lemma in_tiers_cases:
  assumes "in_tiers d"
  obtains "d = bool_dt" | "d = uint8" | "d = int8" | "d = int16" | "d = int32" | "d = int64"
    | "d = float16" | "d = bfloat16" | "d = float32" | "d = float64"
    | "d = complex32" | "d = bcomplex32" | "d = complex64" | "d = complex128"
  using assms by (auto simp: in_tiers_def ordered_dtypes_def)

lemma dtype_order_in_tiers: "in_tiers d \<Longrightarrow> dtype_order d = Inr (tier_no d)"
  by (erule in_tiers_cases) (simp_all add: tier_no_def dtype_order_table)

lemma dtype_order_outside: "\<not> in_tiers d \<Longrightarrow> dtype_order d = Inl ValueError"
  by (simp add: in_tiers_def dtype_order_def ordered_dtypes_def)

definition same_tier :: "dtype \<Rightarrow> dtype \<Rightarrow> bool" where
  "same_tier a b \<longleftrightarrow> list_ex (\<lambda>tier. a \<in> set tier \<and> b \<in> set tier) ordered_dtypes"

lemma same_tier_iff: "in_tiers a \<Longrightarrow> in_tiers b \<Longrightarrow> same_tier a b \<longleftrightarrow> tier_no a = tier_no b"
  by (erule in_tiers_cases; erule in_tiers_cases)
    (simp_all add: same_tier_def ordered_dtypes_def tier_no_def dtype_order_table)

text \<open>On tiered dtypes the comparison returns one of its arguments, the later one only when it is
  in a strictly higher tier: siblings of one tier resolve to the first argument.\<close>

lemma compare_dtypes_eq:
  assumes "in_tiers a" and "in_tiers b"
  shows "compare_dtypes a b = Inr (if tier_no a < tier_no b then b else a)"
proof (cases "same_tier a b")
  case True
  then have "tier_no a = tier_no b" using same_tier_iff assms by simp
  with True show ?thesis
    using assms by (simp add: compare_dtypes_def same_tier_def dtype_order_in_tiers)
next
  case False
  then have "tier_no a \<noteq> tier_no b" using same_tier_iff assms by simp
  with False show ?thesis
    using assms by (auto simp: compare_dtypes_def same_tier_def dtype_order_in_tiers)
qed

lemma get_higher_type_table [simp]:
  "get_higher_type PyBool t = Inr t" "get_higher_type t PyBool = Inr t"
  "get_higher_type t t = Inr t"
  "get_higher_type PyInt PyFloat = Inr PyFloat" "get_higher_type PyFloat PyInt = Inr PyFloat"
  "get_higher_type PyInt PyComplex = Inr PyComplex" "get_higher_type PyComplex PyInt = Inr PyComplex"
  "get_higher_type PyFloat PyComplex = Inr PyComplex"
  "get_higher_type PyComplex PyFloat = Inr PyComplex"
  by (cases t; simp add: get_higher_type_def ordered_types_def)+

text \<open>The numeric tower as a linear order, so that \<^const>\<open>get_higher_type\<close> is its maximum.\<close>

fun type_rank :: "py_type \<Rightarrow> nat" where
  "type_rank PyBool = 0" | "type_rank PyInt = 1" | "type_rank PyFloat = 2" | "type_rank PyComplex = 3"

lemma type_rank_inj [simp]: "type_rank a = type_rank b \<longleftrightarrow> a = b"
  by (cases a; cases b) simp_all

instantiation py_type :: linorder
begin

definition less_eq_py_type :: "py_type \<Rightarrow> py_type \<Rightarrow> bool" where
  "less_eq_py_type a b \<longleftrightarrow> type_rank a \<le> type_rank b"

definition less_py_type :: "py_type \<Rightarrow> py_type \<Rightarrow> bool" where
  "less_py_type a b \<longleftrightarrow> type_rank a < type_rank b"

instance
  by standard (auto simp: less_eq_py_type_def less_py_type_def)

end

lemma get_higher_type_max: "get_higher_type a b = Inr (max a b)"
  by (cases a; cases b) (simp_all add: max_def less_eq_py_type_def)

lemma is_weakly_lesser_type_le: "is_weakly_lesser_type a b \<longleftrightarrow> a \<le> b"
  by (cases a; cases b) (simp_all add: less_eq_py_type_def)

lemma PyBool_least [simp]: "PyBool \<le> t" "max PyBool t = t"
  by (simp_all add: less_eq_py_type_def max_def)

subsection \<open>Abstract view of the promotion\<close>

text \<open>Abstractly, the promotion takes the first of the highest-tier dtypes among the
  participating tensors of one dimensionality class.\<close>

definition higher :: "dtype \<Rightarrow> dtype \<Rightarrow> dtype" where
  "higher a b = (if tier_no a < tier_no b then b else a)"

fun highest :: "dtype list \<Rightarrow> dtype option" where
  "highest [] = None"
| "highest (d # ds) = Some (foldl higher d ds)"

definition as_complex :: "bool \<Rightarrow> dtype \<Rightarrow> dtype" where
  "as_complex float_as_complex d =
     (if float_as_complex \<and> is_float_dtype d
      then (case corresponding_complex_dtype d of Inr c \<Rightarrow> c | Inl _ \<Rightarrow> d) else d)"

fun participates :: "(dtype \<Rightarrow> bool) \<Rightarrow> bool \<Rightarrow> bool \<Rightarrow> op_arg \<Rightarrow> dtype list" where
  "participates flt fac zero_dim (ArgTensor t) =
     (if flt (t_dtype t) \<and> (t_ndim t = 0) = zero_dim then [as_complex fac (t_dtype t)] else [])"
| "participates flt fac zero_dim _ = []"

definition participating :: "(dtype \<Rightarrow> bool) \<Rightarrow> bool \<Rightarrow> bool \<Rightarrow> op_arg list \<Rightarrow> dtype list" where
  "participating flt fac zero_dim args = concat (map (participates flt fac zero_dim) args)"

text \<open>The tensors of the argument list have dtypes the tier table knows.\<close>

fun arg_tiered :: "op_arg \<Rightarrow> bool" where
  "arg_tiered (ArgTensor t) = in_tiers (t_dtype t)"
| "arg_tiered ArgOther = False"
| "arg_tiered _ = True"

fun arg_type :: "op_arg \<Rightarrow> py_type" where
  "arg_type (ArgNumber n) = n"
| "arg_type (ArgSym k) = sym_scalar_type k"
| "arg_type (ArgTensor t) = (case dtype_to_type (t_dtype t) of Inr p \<Rightarrow> p | Inl _ \<Rightarrow> PyBool)"
| "arg_type ArgOther = PyBool"

definition max_arg_type :: "op_arg list \<Rightarrow> py_type" where
  "max_arg_type args = foldl max PyBool (map arg_type args)"

lemma highest_snoc:
  "highest (xs @ [x]) = Some (case highest xs of None \<Rightarrow> x | Some d \<Rightarrow> higher d x)"
  by (cases xs) auto

lemma higher_upper: "tier_no a \<le> tier_no (higher a b)" "tier_no b \<le> tier_no (higher a b)"
  by (auto simp: higher_def)

lemma highest_member: "highest xs = Some d \<Longrightarrow> d \<in> set xs"
proof (induction xs arbitrary: d rule: rev_induct)
  case Nil
  then show ?case by simp
next
  case (snoc x xs)
  then show ?case
    by (cases "highest xs") (auto simp: highest_snoc higher_def split: if_splits)
qed

lemma highest_upper: "highest xs = Some d \<Longrightarrow> e \<in> set xs \<Longrightarrow> tier_no e \<le> tier_no d"
proof (induction xs arbitrary: d rule: rev_induct)
  case Nil
  then show ?case by simp
next
  case (snoc x xs)
  then show ?case
    by (cases "highest xs"; cases xs)
      (auto simp: highest_snoc intro: higher_upper order_trans[OF _ higher_upper(1)])
qed

lemma highest_None [simp]: "highest xs = None \<longleftrightarrow> xs = []"
  by (cases xs) auto

lemma as_complex_tiers: "in_tiers d \<Longrightarrow> in_tiers (as_complex fac d)"
  by (erule in_tiers_cases)
    (auto simp: as_complex_def in_tiers_def ordered_dtypes_def split: sum.splits)

lemma corresponding_complex_as_complex:
  "(if fac \<and> is_float_dtype d then corresponding_complex_dtype d else Inr d) = Inr (as_complex fac d)"
  by (cases d) (auto simp: as_complex_def dtype_classes)

lemma dtype_to_type_tiers: "in_tiers d \<Longrightarrow> \<exists>p. dtype_to_type d = Inr p"
  by (erule in_tiers_cases) (auto simp: dtype_to_type_def dtype_classes)

lemma arg_scalar_type_tiered: "arg_tiered a \<Longrightarrow> arg_scalar_type a = Inr (arg_type a)"
  using dtype_to_type_tiers by (cases a) (fastforce split: sum.splits)+

lemma highest_arg_type_eq:
  assumes "\<forall>a \<in> set args. arg_tiered a"
  shows "highest_arg_type args = Inr (max_arg_type args)"
proof -
  have "foldM (\<lambda>h x. rbind (arg_scalar_type x) (\<lambda>t. get_higher_type h t)) h args
      = Inr (foldl max h (map arg_type args))" for h
    using assms
    by (induction args arbitrary: h) (auto simp: arg_scalar_type_tiered get_higher_type_max)
  then show ?thesis by (simp add: highest_arg_type_def max_arg_type_def)
qed

text \<open>Object identity of dtype objects, as far as the code relies on it: identical objects are
  equal. Everything proved from this interface holds both when the binding interns its
  enumeration values and when it creates a fresh object per access.\<close>

locale dtype_identity =
  fixes ident :: "dtype \<Rightarrow> dtype \<Rightarrow> bool"
  assumes ident_eq: "ident a b \<Longrightarrow> a = b"
begin

lemma get_higher_dtype_tiers:
  "in_tiers d \<Longrightarrow> in_tiers e \<Longrightarrow>
   get_higher_dtype ident dflt (SrcDtype d) (SrcDtype e) = Inr (Some (higher d e))"
  using ident_eq by (auto simp: get_higher_dtype_def compare_dtypes_eq higher_def)

lemma get_higher_dtype_acc:
  assumes "\<forall>x \<in> set xs. in_tiers x" and "in_tiers e"
  shows "get_higher_dtype ident dflt
      (case highest xs of None \<Rightarrow> SrcNone | Some z \<Rightarrow> SrcDtype z) (SrcDtype e)
    = Inr (highest (xs @ [e]))"
proof (cases "highest xs")
  case None
  then show ?thesis by (simp add: get_higher_dtype_def)
next
  case (Some d)
  then have "in_tiers d" using highest_member assms by blast
  then show ?thesis using assms(2) Some by (simp add: highest_snoc get_higher_dtype_tiers)
qed

lemma find_highest_step_eq:
  assumes "\<forall>x \<in> set xs \<union> set ys. in_tiers x" and "arg_tiered a"
  shows "find_highest_step ident dflt flt fac (highest xs, highest ys) a
    = Inr (highest (xs @ participates flt fac True a), highest (ys @ participates flt fac False a))"
proof (cases a)
  case (ArgTensor t)
  then have "in_tiers (as_complex fac (t_dtype t))" using assms(2) as_complex_tiers by simp
  then show ?thesis
    using assms(1) get_higher_dtype_acc ArgTensor
    by (auto simp: corresponding_complex_as_complex)
qed (use assms in auto)

lemma find_highest_fold:
  assumes "\<forall>x \<in> set xs \<union> set ys. in_tiers x" and "\<forall>a \<in> set args. arg_tiered a"
  shows "foldM (find_highest_step ident dflt flt fac) (highest xs, highest ys) args
    = Inr (highest (xs @ participating flt fac True args),
           highest (ys @ participating flt fac False args))"
  using assms
proof (induction args arbitrary: xs ys)
  case Nil
  then show ?case by (simp add: participating_def)
next
  case (Cons a args)
  let ?xs = "xs @ participates flt fac True a" and ?ys = "ys @ participates flt fac False a"
  have "\<forall>x \<in> set ?xs \<union> set ?ys. in_tiers x"
    using Cons.prems by (cases a) (auto simp: as_complex_tiers)
  then show ?case
    using Cons.IH[of ?xs ?ys] Cons.prems by (simp add: find_highest_step_eq participating_def)
qed

lemma find_highest_refines:
  assumes "\<forall>a \<in> set args. arg_tiered a"
  shows "find_highest_dtype_filtered ident dflt args flt fac
    = Inr (case highest (participating flt fac False args) of
             Some d \<Rightarrow> Some d | None \<Rightarrow> highest (participating flt fac True args))"
  using find_highest_fold[of "[]" "[]" args dflt flt fac] assms
  by (simp add: find_highest_dtype_filtered_def)

end

interpretation interned: dtype_identity "(=)"
  by unfold_locales simp

interpretation fresh: dtype_identity "\<lambda>a b. False"
  by unfold_locales simp

subsection \<open>Correctness of the promotion\<close>

fun kind_type :: "promotion_kind \<Rightarrow> py_type \<Rightarrow> py_type" where
  "kind_type INT_TO_FLOAT t = max t PyFloat"
| "kind_type COMPLEX_TO_FLOAT t = min t PyFloat"
| "kind_type BOOL_TO_LONG t = max t PyInt"
| "kind_type ALWAYS_BOOL t = PyBool"
| "kind_type _ t = t"

lemma dtype_to_type_iff:
  "dtype_to_type d = Inr PyBool \<longleftrightarrow> is_boolean_dtype d"
  "dtype_to_type d = Inr PyInt \<longleftrightarrow> is_integer_dtype d"
  "dtype_to_type d = Inr PyFloat \<longleftrightarrow> is_floating_point d"
  "dtype_to_type d = Inr PyComplex \<longleftrightarrow> is_complex_dtype d"
  by (cases d; simp add: dtype_to_type_def dtype_classes)+

lemma is_float_floating_point: "is_float_dtype d \<Longrightarrow> is_floating_point d"
  by (cases d) (simp_all add: dtype_classes)

lemma as_complex_False [simp]: "as_complex False d = d"
  by (simp add: as_complex_def)

lemma participating_filter:
  "d \<in> set (participating flt fac zd args) \<Longrightarrow> \<exists>e. flt e \<and> d = as_complex fac e"
proof (induction args)
  case Nil
  then show ?case by (simp add: participating_def)
next
  case (Cons a args)
  then show ?case by (cases a) (auto simp: participating_def split: if_splits)
qed

lemma as_complex_is_complex:
  "is_float_dtype d \<or> is_complex_dtype d \<Longrightarrow> is_complex_dtype (as_complex True d)"
  by (cases d) (simp_all add: as_complex_def dtype_classes)

lemma corresponding_complex_float:
  "is_float_dtype d \<Longrightarrow> \<exists>c. corresponding_complex_dtype d = Inr c \<and> is_complex_dtype c"
  by (cases d) (simp_all add: dtype_classes)

lemma corresponding_real_complex:
  "is_complex_dtype d \<Longrightarrow> \<exists>c. corresponding_real_dtype d = Inr c \<and> is_float_dtype c"
  by (cases d) (simp_all add: dtype_classes)

context dtype_identity
begin

lemma find_highest_class:
  assumes "\<forall>a \<in> set args. arg_tiered a"
  shows "\<exists>r. find_highest_dtype_filtered ident dflt args flt fac = Inr r \<and>
    (\<forall>d. r = Some d \<longrightarrow> (\<exists>e. flt e \<and> d = as_complex fac e))"
  using find_highest_refines[OF assms, of dflt flt fac] highest_member participating_filter
  by (fastforce split: option.splits)

lemma promoted_result_class:
  assumes "\<forall>a \<in> set args. arg_tiered a" and "is_float_dtype dflt"
  shows "\<exists>r. promoted_result_dtype ident dflt args t = Inr r \<and> dtype_to_type r = Inr t"
proof (cases t)
  case PyBool
  then show ?thesis by (simp add: promoted_result_dtype_def dtype_to_type_iff dtype_classes)
next
  case PyInt
  then show ?thesis
    using find_highest_class[OF assms(1), of dflt is_integer_dtype False]
    by (auto simp: promoted_result_dtype_def dtype_to_type_iff split: option.splits)
      (auto simp: dtype_classes)
next
  case PyFloat
  then show ?thesis
    using find_highest_class[OF assms(1), of dflt is_float_dtype False] assms(2)
    by (auto simp: promoted_result_dtype_def dtype_to_type_iff is_float_floating_point
        split: option.splits)
next
  case PyComplex
  then show ?thesis
    using find_highest_class[OF assms(1), of dflt "\<lambda>x. is_float_dtype x \<or> is_complex_dtype x" True]
      corresponding_complex_float[OF assms(2)] as_complex_is_complex
    by (fastforce simp: promoted_result_dtype_def dtype_to_type_iff split: option.splits)
qed

end

lemma get_computation_not_low: "\<not> is_low_precision_dtype (get_computation_dtype d)"
  by (cases d) (simp_all add: dtype_classes)

lemma apply_promotion_kind_class:
  assumes t: "dtype_to_type r = Inr t" and dflt: "is_float_dtype dflt"
  shows "\<exists>c r'. apply_promotion_kind dflt kind r = Inr (c, r') \<and>
    dtype_to_type r' = Inr (kind_type kind t) \<and>
    (kind \<noteq> NO_OPMATH \<longrightarrow> \<not> is_low_precision_dtype c)"
proof (cases kind)
  case INT_TO_FLOAT
  have "dtype_to_type dflt = Inr PyFloat"
    using dflt by (simp add: dtype_to_type_iff is_float_floating_point)
  then show ?thesis
    using t INT_TO_FLOAT
    by (cases t) (auto simp: apply_promotion_kind_def get_computation_not_low max_def
        less_eq_py_type_def Let_def simp flip: dtype_to_type_iff)
next
  case COMPLEX_TO_FLOAT
  show ?thesis
  proof (cases "is_complex_dtype r")
    case True
    then obtain c where "corresponding_real_dtype r = Inr c" "is_float_dtype c"
      using corresponding_real_complex by blast
    moreover have "t = PyComplex" using True t by (simp flip: dtype_to_type_iff)
    ultimately show ?thesis
      using True COMPLEX_TO_FLOAT
      by (simp add: apply_promotion_kind_def get_computation_not_low min_def less_eq_py_type_def
          Let_def dtype_to_type_iff is_float_floating_point)
  next
    case False
    then have "min t PyFloat = t"
      using t by (cases t) (auto simp: min_def less_eq_py_type_def dtype_to_type_iff)
    then show ?thesis
      using False t COMPLEX_TO_FLOAT
      by (simp add: apply_promotion_kind_def get_computation_not_low Let_def)
  qed
next
  case BOOL_TO_LONG
  then show ?thesis
    using t by (cases t) (auto simp: apply_promotion_kind_def get_computation_not_low max_def
        less_eq_py_type_def dtype_to_type_iff simp: dtype_classes)
next
  case ALWAYS_BOOL
  then show ?thesis
    by (auto simp: apply_promotion_kind_def get_computation_not_low dtype_to_type_iff)
      (simp add: dtype_classes)
qed (use t in \<open>simp_all add: apply_promotion_kind_def get_computation_not_low\<close>)

text \<open>C29: elementwise promotion is total and lands in the right type class. For arguments whose
  tensors have tiered dtypes and a floating default dtype, \<open>elementwise_dtypes\<close> returns, and the
  Python type of the result dtype is the maximum of the argument types in the order
  bool, int, float, complex, with four exceptions by promotion kind: INT_TO_FLOAT gives at least float, COMPLEX_TO_FLOAT at
  most float, BOOL_TO_LONG at least int, and ALWAYS_BOOL gives bool. The computation dtype is never
  a half-precision one unless the kind disables op math.\<close>

theorem elementwise_dtypes_category:
  assumes ident: "\<And>a b. ident a b \<Longrightarrow> a = b"
    and dflt: "is_float_dtype dflt"
    and args: "\<forall>a \<in> set args. arg_tiered a"
  shows "\<exists>c r. elementwise_dtypes ident dflt args kind = Inr (c, r) \<and>
    dtype_to_type r = Inr (kind_type kind (max_arg_type args)) \<and>
    (kind \<noteq> NO_OPMATH \<longrightarrow> \<not> is_low_precision_dtype c)"
proof -
  obtain r where "promoted_result_dtype ident dflt args (max_arg_type args) = Inr r"
    and "dtype_to_type r = Inr (max_arg_type args)"
    using dtype_identity.promoted_result_class[OF dtype_identity.intro[OF ident] args dflt] by blast
  then show ?thesis
    using apply_promotion_kind_class[OF _ dflt, of r "max_arg_type args" kind]
    by (simp add: elementwise_dtypes_def highest_arg_type_eq[OF args])
qed

definition demo_tensor :: "int list \<Rightarrow> dtype \<Rightarrow> tensor_meta" where
  "demo_tensor sh d = \<lparr>t_shape = sh, t_stride = sh, t_storage_offset = 0, t_dtype = d,
     t_device = Device ''cpu'' None, t_is_conj = False, t_is_neg = False\<rparr>"

theorem elementwise_dtypes_category_witness:
  "\<exists>c r. elementwise_dtypes (=) float32
      [ArgTensor (demo_tensor [2] int32), ArgNumber PyFloat] DEFAULT = Inr (c, r) \<and>
    dtype_to_type r = Inr PyFloat \<and> \<not> is_low_precision_dtype c"
proof -
  let ?args = "[ArgTensor (demo_tensor [2] int32), ArgNumber PyFloat]"
  have dflt: "is_float_dtype float32" and args: "\<forall>a \<in> set ?args. arg_tiered a"
    by (simp_all add: dtype_classes demo_tensor_def in_tiers_def ordered_dtypes_def)
  have "kind_type DEFAULT (max_arg_type ?args) = PyFloat"
    by (simp add: max_arg_type_def demo_tensor_def dtype_to_type_def dtype_classes max_def
        less_eq_py_type_def)
  then show ?thesis
    using elementwise_dtypes_category[of "(=)", OF _ dflt args, of DEFAULT] by simp
qed

text \<open>the promoted dtype is an upper bound. With only tiered tensor dtypes, the dtype search
  of the promotion prefers tensors with at least one dimension: whenever one of them passes the
  filter, the search returns the (complex-adjusted) dtype of such a tensor and no other such
  tensor is in a higher tier; zero-dimensional tensors decide only when none of them does.\<close>

theorem find_highest_dtype_filtered_max:
  assumes ident: "\<And>a b. ident a b \<Longrightarrow> a = b" and args: "\<forall>a \<in> set args. arg_tiered a"
  shows "\<exists>r. find_highest_dtype_filtered ident dflt args flt fac = Inr r \<and>
    (let ds = (if participating flt fac False args \<noteq> [] then participating flt fac False args
               else participating flt fac True args)
     in case r of None \<Rightarrow> ds = []
        | Some d \<Rightarrow> d \<in> set ds \<and> (\<forall>e \<in> set ds. tier_no e \<le> tier_no d))"
proof -
  let ?P = "\<lambda>z. participating flt fac z args"
  have "find_highest_dtype_filtered ident dflt args flt fac
      = Inr (case highest (?P False) of Some d \<Rightarrow> Some d | None \<Rightarrow> highest (?P True))"
    by (rule dtype_identity.find_highest_refines[OF dtype_identity.intro[OF ident] args])
  then show ?thesis
    by (auto simp: Let_def highest_member highest_upper split: option.splits)
qed

theorem find_highest_dtype_filtered_max_witness:
  "\<exists>r. find_highest_dtype_filtered (\<lambda>a b. False) float32
      [ArgTensor (demo_tensor [] float64), ArgTensor (demo_tensor [3] float16)]
      is_float_dtype False = Inr r \<and> r = Some float16"
proof -
  let ?args = "[ArgTensor (demo_tensor [] float64), ArgTensor (demo_tensor [3] float16)]"
  have args: "\<forall>a \<in> set ?args. arg_tiered a"
    by (simp add: demo_tensor_def in_tiers_def ordered_dtypes_def)
  have "participating is_float_dtype False False ?args = [float16]"
    by (simp add: participating_def demo_tensor_def dtype_classes)
  then show ?thesis
    using find_highest_dtype_filtered_max[of "\<lambda>a b. False", OF _ args, of float32 is_float_dtype False]
    by (auto split: option.splits)
qed

text \<open>\<open>get_higher_dtype\<close> on tiered dtypes returns one of its arguments, in the higher of the
  two tiers; the result is independent of the argument order exactly when the dtypes are not
  different members of one tier (float16 and bfloat16, uint8 and int8, the two 32-bit complex
  formats), where the first argument wins.\<close>

theorem get_higher_dtype_join:
  assumes ident: "\<And>x y. ident x y \<Longrightarrow> x = y" and a: "in_tiers a" and b: "in_tiers b"
  shows "get_higher_dtype ident dflt (SrcDtype a) (SrcDtype b) = Inr (Some (higher a b)) \<and>
    tier_no (higher a b) = max (tier_no a) (tier_no b) \<and>
    (get_higher_dtype ident dflt (SrcDtype a) (SrcDtype b)
       = get_higher_dtype ident dflt (SrcDtype b) (SrcDtype a)
     \<longleftrightarrow> a = b \<or> tier_no a \<noteq> tier_no b)"
proof -
  have id: "dtype_identity ident" by (rule dtype_identity.intro) (rule ident)
  have "get_higher_dtype ident dflt (SrcDtype a) (SrcDtype b) = Inr (Some (higher a b))"
    and "get_higher_dtype ident dflt (SrcDtype b) (SrcDtype a) = Inr (Some (higher b a))"
    using dtype_identity.get_higher_dtype_tiers[OF id] a b by simp_all
  then show ?thesis by (auto simp: higher_def max_def)
qed

theorem get_higher_dtype_join_witness:
  "get_higher_dtype (=) float32 (SrcDtype float16) (SrcDtype bfloat16) = Inr (Some float16) \<and>
   get_higher_dtype (=) float32 (SrcDtype float16) (SrcDtype bfloat16)
     \<noteq> get_higher_dtype (=) float32 (SrcDtype bfloat16) (SrcDtype float16)"
proof -
  have "in_tiers float16" "in_tiers bfloat16" by (simp_all add: in_tiers_def ordered_dtypes_def)
  moreover have "higher float16 bfloat16 = float16" "tier_no float16 = tier_no bfloat16"
    by (simp_all add: higher_def tier_no_def dtype_order_table)
  ultimately show ?thesis
    using get_higher_dtype_join[of "(=)" float16 bfloat16 float32] by auto
qed

text \<open>the unsigned 16-, 32- and 64-bit dtypes count as integer dtypes but are in no tier, so
  promoting a tensor of such a dtype together with a tensor of another integer dtype raises
  ValueError instead of producing a result.\<close>

theorem elementwise_dtypes_untiered_integer:
  assumes ident: "\<And>x y. ident x y \<Longrightarrow> x = y"
    and a: "t_dtype a \<in> {uint16, uint32, uint64}" and b: "is_integer_dtype (t_dtype b)"
    and ne: "t_dtype a \<noteq> t_dtype b" and dims: "t_ndim a \<noteq> 0" "t_ndim b \<noteq> 0"
  shows "elementwise_dtypes ident dflt [ArgTensor a, ArgTensor b] kind = Inl ValueError"
proof -
  have ia: "is_integer_dtype (t_dtype a)" and ta: "\<not> in_tiers (t_dtype a)"
    using a by (auto simp: dtype_classes in_tiers_def ordered_dtypes_def)
  have "\<not> ident (t_dtype a) (t_dtype b)" using ident ne by blast
  moreover have "compare_dtypes (t_dtype a) (t_dtype b) = Inl ValueError"
    using ta by (simp add: compare_dtypes_def dtype_order_outside)
  ultimately have "find_highest_dtype_filtered ident dflt [ArgTensor a, ArgTensor b]
      is_integer_dtype False = Inl ValueError"
    using ia b dims by (simp add: find_highest_dtype_filtered_def get_higher_dtype_def)
  moreover have "highest_arg_type [ArgTensor a, ArgTensor b] = Inr PyInt"
    using ia b by (simp add: highest_arg_type_def flip: dtype_to_type_iff)
  ultimately show ?thesis
    by (simp add: elementwise_dtypes_def promoted_result_dtype_def)
qed

theorem elementwise_dtypes_untiered_integer_witness:
  "elementwise_dtypes (=) float32
     [ArgTensor (demo_tensor [2] uint16), ArgTensor (demo_tensor [2] int32)] DEFAULT
   = Inl ValueError"
  by (rule elementwise_dtypes_untiered_integer) (simp_all add: demo_tensor_def dtype_classes)

end
