(* ===== verification/Shapes.thy ===== *)
theory Shapes
  imports Strided Dtypes
begin

text \<open>
  Shapes, strides, dimensions and permutations: the layout half of
  \<^verbatim>\<open>src/tensorplay/primitives/common/__init__.py\<close>. Sizes, strides and dimension numbers are
  Python integers, hence \<open>int\<close>; a shape is an \<open>int list\<close>, outermost dimension first. The stride
  of a fresh \<^verbatim>\<open>tensorplay.empty_like\<close> tensor comes from the C++ allocator and is the parameter
  \<open>empty_like_stride\<close>.
\<close>

subsection \<open>Array writes\<close>

text \<open>Python's \<open>xs[i] = v\<close>.\<close>

definition py_set :: "'a list \<Rightarrow> int \<Rightarrow> 'a \<Rightarrow> 'a list result" where
  "py_set xs i v =
     (let n = int (length xs); j = (if i < 0 then i + n else i)
      in if 0 \<le> j \<and> j < n then Inr (xs[nat j := v]) else Inl IndexError)"

definition enumerate_int :: "'a list \<Rightarrow> (int \<times> 'a) list" where
  "enumerate_int xs = zip (py_range (int (length xs))) xs"

subsection \<open>Validation of shapes, strides and dimension numbers\<close>

definition check :: "bool \<Rightarrow> py_error \<Rightarrow> unit result" where
  "check b exc_type = (if \<not> b then Inl exc_type else Inr ())"

definition validate_dim_length :: "int \<Rightarrow> unit result" where
  "validate_dim_length n = (if n < 0 then Inl AssertionError else Inr ())"

definition validate_shape :: "int list \<Rightarrow> unit result" where
  "validate_shape shape = foldM (\<lambda>_ n. validate_dim_length n) () shape"

definition validate_strides :: "int list \<Rightarrow> unit result" where
  "validate_strides strides =
     foldM (\<lambda>_ stride. if stride < 0 then Inl AssertionError else Inr ()) () strides"

definition validate_idx :: "int \<Rightarrow> int \<Rightarrow> unit result" where
  "validate_idx rank idx = (if idx < - rank \<or> idx \<ge> rank then Inl IndexError else Inr ())"

definition validate_dimension_indices :: "int \<Rightarrow> int list \<Rightarrow> unit result" where
  "validate_dimension_indices rank indices = foldM (\<lambda>_ idx. validate_idx rank idx) () indices"

definition validate_exclusive_idx :: "int \<Rightarrow> int \<Rightarrow> unit result" where
  "validate_exclusive_idx rank ex_idx =
     (if \<not> (- rank \<le> ex_idx \<and> ex_idx < rank \<and> ex_idx \<noteq> 0) then Inl IndexError else Inr ())"

definition canonicalize_dim :: "int \<Rightarrow> int \<Rightarrow> bool \<Rightarrow> int result" where
  "canonicalize_dim rank idx wrap_scalar =
     (if rank < 0 then Inl IndexError
      else if rank = 0 \<and> \<not> wrap_scalar then Inl IndexError
      else
        let rank = (if rank = 0 then 1 else rank)
        in if 0 \<le> idx \<and> idx < rank then Inr idx
           else let i = (if idx < 0 then idx + rank else idx)
                in if i < 0 \<or> i \<ge> rank then Inl IndexError else Inr i)"

definition canonicalize_dims :: "int \<Rightarrow> int list \<Rightarrow> bool \<Rightarrow> int list result" where
  "canonicalize_dims rank indices wrap_scalar =
     traverse (\<lambda>x. canonicalize_dim rank x wrap_scalar) indices"

definition is_valid_permutation :: "int \<Rightarrow> int list \<Rightarrow> bool" where
  "is_valid_permutation rank perm \<longleftrightarrow>
     (if int (length perm) \<noteq> rank \<or> int (card (set perm)) \<noteq> rank then False
      else list_all (\<lambda>x. 0 \<le> x \<and> x < rank) perm)"

definition validate_no_repeating_dims :: "int list \<Rightarrow> unit result" where
  "validate_no_repeating_dims dims =
     (if card (set dims) \<noteq> length dims then Inl RuntimeError else Inr ())"

definition reduction_dims :: "int list \<Rightarrow> int list option \<Rightarrow> int list result" where
  "reduction_dims shape dims =
     (case dims of
        None \<Rightarrow> Inr (py_range (int (length shape)))
      | Some ds \<Rightarrow>
          rbind (traverse (\<lambda>idx. canonicalize_dim (int (length shape)) idx True) ds) (\<lambda>cs.
          rbind (validate_no_repeating_dims cs) (\<lambda>_. Inr cs)))"

definition compute_reduction_output_shape :: "int list \<Rightarrow> int list \<Rightarrow> int list result" where
  "compute_reduction_output_shape shape dimensions =
     rbind (validate_dimension_indices (int (length shape)) dimensions) (\<lambda>_.
     Inr (map (\<lambda>idx. shape ! nat idx)
            (filter (\<lambda>idx. idx \<notin> set dimensions) (py_range (int (length shape))))))"

fun extract_dims_from_varargs :: "int list option \<Rightarrow> int list \<Rightarrow> int list option result" where
  "extract_dims_from_varargs dim args =
     (if length args \<noteq> 0
      then (if dim \<noteq> None then Inl RuntimeError else Inr (Some args))
      else Inr dim)"

subsection \<open>Permutations\<close>

definition apply_perm :: "int list \<Rightarrow> int list \<Rightarrow> int list result" where
  "apply_perm inp perm =
     foldM (\<lambda>acc (idx, x). rbind (py_nth inp x) (\<lambda>v. py_set acc idx v))
       (replicate (length inp) (-1)) (enumerate_int perm)"

definition invert_perm :: "int list \<Rightarrow> int list result" where
  "invert_perm perm =
     foldM (\<lambda>acc (idx, x). py_set acc x idx) (replicate (length perm) (-1)) (enumerate_int perm)"

subsection \<open>Strides of the standard memory formats\<close>

fun contiguous_strides_loop :: "int \<Rightarrow> int list \<Rightarrow> int list" where
  "contiguous_strides_loop multiplier [] = []"
| "contiguous_strides_loop multiplier (n # ns) =
     multiplier # contiguous_strides_loop (multiplier * max n 1) ns"

definition make_contiguous_strides_for :: "int list \<Rightarrow> bool \<Rightarrow> int list result" where
  "make_contiguous_strides_for shape row_major =
     rbind (validate_shape shape) (\<lambda>_.
     if shape = [] then Inr []
     else
       let strides = rev (contiguous_strides_loop 1 (rev shape))
       in if row_major then Inr strides
          else if length shape < 2 then Inr strides
          else Inr (take (length strides - 2) strides @ [1, max (shape ! (length shape - 2)) 1]))"

definition make_channels_last_1d_strides_for :: "int list \<Rightarrow> int list result" where
  "make_channels_last_1d_strides_for shape =
     rbind (validate_shape shape) (\<lambda>_.
     case shape of
       [N, C, L] \<Rightarrow> Inr (if C \<noteq> 0 then [C * L, 1, C] else [C, 1, C * L])
     | _ \<Rightarrow> Inl RuntimeError)"

definition make_channels_last_2d_strides_for :: "int list \<Rightarrow> int list result" where
  "make_channels_last_2d_strides_for shape =
     rbind (validate_shape shape) (\<lambda>_.
     case shape of
       [N, C, H, W] \<Rightarrow>
         Inr (if C \<noteq> 0 then [H * W * C, 1, W * C, C] else [H * W * C, C, W * C, C])
     | _ \<Rightarrow> Inl RuntimeError)"

definition make_channels_last_3d_strides_for :: "int list \<Rightarrow> int list result" where
  "make_channels_last_3d_strides_for shape =
     rbind (validate_shape shape) (\<lambda>_.
     case shape of
       [N, C, D, H, W] \<Rightarrow>
         Inr (if C \<noteq> 0 then [D * H * W * C, 1, H * W * C, W * C, C]
              else [D * H * W * C, C, H * W * C, W * C, C])
     | _ \<Rightarrow> Inl RuntimeError)"

definition make_channels_last_strides_for :: "int list \<Rightarrow> int list result" where
  "make_channels_last_strides_for shape =
     (let ndim = length shape
      in if ndim = 3 then make_channels_last_1d_strides_for shape
         else if ndim = 4 then make_channels_last_2d_strides_for shape
         else if ndim = 5 then make_channels_last_3d_strides_for shape
         else Inl RuntimeError)"

subsection \<open>Contiguity and density checks\<close>

fun contiguous_loop :: "int \<Rightarrow> int \<Rightarrow> (int \<times> int) list \<Rightarrow> bool" where
  "contiguous_loop expected_stride expected_stride_max [] = True"
| "contiguous_loop expected_stride expected_stride_max ((x, y) # ps) =
     (if x = 1 then contiguous_loop expected_stride expected_stride_max ps
      else if y \<noteq> expected_stride \<and> y \<noteq> expected_stride_max then False
      else contiguous_loop (expected_stride * x) (expected_stride_max * max x 1) ps)"

definition check_contiguous_sizes_strides :: "int list \<Rightarrow> int list \<Rightarrow> bool" where
  "check_contiguous_sizes_strides sizes strides = contiguous_loop 1 1 (rev (zip sizes strides))"

text \<open>The \<^verbatim>\<open>is_contiguous\<close> flag of a tensor, as the C++ core computes it from sizes and strides.\<close>

fun expected_walk :: "int \<Rightarrow> (int \<times> int) list \<Rightarrow> bool" where
  "expected_walk expected [] = True"
| "expected_walk expected ((sz, stride) # ps) =
     (if stride \<noteq> expected \<and> sz \<noteq> 1 then False
      else expected_walk (if sz \<noteq> 1 then expected * sz else expected) ps)"

definition is_contiguous :: "tensor_meta \<Rightarrow> bool" where
  "is_contiguous a =
     (if t_shape a = [] then True
      else if 0 \<in> set (t_shape a) then True
      else expected_walk 1 (rev (zip (t_shape a) (t_stride a))))"

definition is_channels_last_contiguous_2d :: "tensor_meta \<Rightarrow> bool result" where
  "is_channels_last_contiguous_2d a =
     (if t_ndim a = 4
      then rbind (make_channels_last_2d_strides_for (t_shape a)) (\<lambda>s. Inr (t_stride a = s))
      else Inr False)"

definition is_channels_last_contiguous_3d :: "tensor_meta \<Rightarrow> bool result" where
  "is_channels_last_contiguous_3d a =
     (if t_ndim a = 5
      then rbind (make_channels_last_3d_strides_for (t_shape a)) (\<lambda>s. Inr (t_stride a = s))
      else Inr False)"

text \<open>Memory formats are given by their names; the format objects of the tensor library, which the code also accepts, are not modelled.\<close>

definition valid_memory_formats :: "string list" where
  "valid_memory_formats = [''contiguous'', ''channels_last'', ''channels_last_3d'', ''preserve_format'']"

definition validate_memory_format :: "string \<Rightarrow> unit result" where
  "validate_memory_format fmt =
     (if fmt \<notin> set valid_memory_formats then Inl ValueError else Inr ())"

definition is_contiguous_for_memory_format :: "tensor_meta \<Rightarrow> string \<Rightarrow> bool result" where
  "is_contiguous_for_memory_format a fmt =
     (if fmt = ''contiguous'' \<or> fmt = ''preserve_format'' then Inr (is_contiguous a)
      else if fmt = ''channels_last'' then is_channels_last_contiguous_2d a
      else if fmt = ''channels_last_3d'' then is_channels_last_contiguous_3d a
      else Inl NotImplementedError)"

definition is_contiguous_for_memory_format_or_false ::
  "tensor_meta \<Rightarrow> string \<Rightarrow> bool result" where
  "is_contiguous_for_memory_format_or_false a fmt =
     (case is_contiguous_for_memory_format a fmt of
        Inl e \<Rightarrow> if e = NotImplementedError \<or> e = ValueError then Inr False else Inl e
      | Inr b \<Rightarrow> Inr b)"

fun dense_loop :: "int \<Rightarrow> (int \<times> int) list \<Rightarrow> bool" where
  "dense_loop expected [] = True"
| "dense_loop expected ((sz, stride) # ps) =
     (if stride \<noteq> expected then False else dense_loop (expected * sz) ps)"

definition non_overlapping_and_dense_or_false :: "int list \<Rightarrow> int list \<Rightarrow> bool" where
  "non_overlapping_and_dense_or_false sizes strides =
     (if length sizes = 0 then True
      else if length sizes \<noteq> length strides then False
      else if list_ex (\<lambda>stride. stride < 1) strides then False
      else dense_loop 1 (sort_key snd (filter (\<lambda>(s, stride). s \<noteq> 1) (zip sizes strides))))"

definition is_non_overlapping_and_dense_or_false :: "tensor_meta \<Rightarrow> bool" where
  "is_non_overlapping_and_dense_or_false a =
     non_overlapping_and_dense_or_false (t_shape a) (t_stride a)"

definition are_strides_like_channels_last_or_false :: "int list \<Rightarrow> int list \<Rightarrow> bool result" where
  "are_strides_like_channels_last_or_false shape strides =
     (let ndim = length shape
      in if ndim = 4
         then rbind (make_channels_last_2d_strides_for shape) (\<lambda>s. Inr (strides = s \<and> shape ! 1 \<noteq> 0))
         else if ndim = 5
         then rbind (make_channels_last_3d_strides_for shape) (\<lambda>s. Inr (strides = s \<and> shape ! 1 \<noteq> 0))
         else Inr False)"

definition suggest_memory_format :: "tensor_meta \<Rightarrow> string option result" where
  "suggest_memory_format x =
     (if is_contiguous x then Inr (Some ''contiguous'')
      else rbind (are_strides_like_channels_last_or_false (t_shape x) (t_stride x)) (\<lambda>b.
        Inr (if b then Some ''channels_last'' else None)))"

subsection \<open>Comparing tensors\<close>

definition same_shape :: "int list \<Rightarrow> int list \<Rightarrow> bool" where
  "same_shape a b = (if length a \<noteq> length b then False else list_all (\<lambda>(x, y). x = y) (zip a b))"

definition is_same_shape :: "int list \<Rightarrow> int list \<Rightarrow> bool" where
  "is_same_shape a b \<longleftrightarrow> a = b"

definition is_cpu_scalar_tensor :: "op_arg \<Rightarrow> bool" where
  "is_cpu_scalar_tensor a =
     (case a of ArgTensor t \<Rightarrow> t_ndim t = 0 \<and> dev_type (t_device t) = ''cpu'' | _ \<Rightarrow> False)"

fun strides_differ_at ::
  "bool \<Rightarrow> tensor_meta \<Rightarrow> tensor_meta \<Rightarrow> int list \<Rightarrow> (bool \<times> int option) result" where
  "strides_differ_at significant_only a b [] = Inr (True, None)"
| "strides_differ_at significant_only a b (idx # idxs) =
     rbind (py_nth (t_shape a) idx) (\<lambda>sz.
     rbind (py_nth (t_stride a) idx) (\<lambda>sa.
     rbind (py_nth (t_stride b) idx) (\<lambda>sb.
       if sa \<noteq> sb \<and> (\<not> significant_only \<or> sz > 1) then Inr (False, Some idx)
       else strides_differ_at significant_only a b idxs)))"

definition check_strides_helper ::
  "tensor_meta \<Rightarrow> tensor_meta \<Rightarrow> bool \<Rightarrow> bool \<Rightarrow> (bool \<times> int option) result" where
  "check_strides_helper a b only_cuda significant_only =
     (if (\<not> only_cuda \<or> dev_type (t_device a) = ''cuda'' \<or> dev_type (t_device b) = ''cuda'')
         \<and> prod_list (t_shape a) > 0
      then strides_differ_at significant_only a b (py_range (int (t_ndim a)))
      else Inr (True, None))"

definition check_significant_strides ::
  "tensor_meta \<Rightarrow> tensor_meta \<Rightarrow> bool \<Rightarrow> (bool \<times> int option) result" where
  "check_significant_strides a b only_cuda = check_strides_helper a b only_cuda True"

definition check_all_strides ::
  "tensor_meta \<Rightarrow> tensor_meta \<Rightarrow> bool \<Rightarrow> (bool \<times> int option) result" where
  "check_all_strides a b only_cuda = check_strides_helper a b only_cuda False"

definition compare_tensor_meta ::
  "tensor_meta \<Rightarrow> tensor_meta \<Rightarrow> bool \<Rightarrow> bool \<Rightarrow> bool \<Rightarrow> unit result" where
  "compare_tensor_meta a b check_sizes check_strides check_conj =
     rbind (require (\<not> (check_sizes \<and> \<not> same_shape (t_shape a) (t_shape b))) AssertionError) (\<lambda>_.
     rbind (require (t_dtype a = t_dtype b) AssertionError) (\<lambda>_.
     rbind (require (t_device a = t_device b \<or>
              (dev_type (t_device a) = ''cuda'' \<and> dev_type (t_device b) = ''cuda''))
              AssertionError) (\<lambda>_.
     rbind (if check_strides
            then rbind (check_significant_strides a b False) (\<lambda>(same_strides, idx).
                 rbind (require same_strides AssertionError) (\<lambda>_.
                 require (t_storage_offset a = t_storage_offset b) AssertionError))
            else Inr ()) (\<lambda>_.
     rbind (require (\<not> (check_conj \<and> t_is_conj a \<noteq> t_is_conj b)) AssertionError) (\<lambda>_.
     require (t_is_neg a = t_is_neg b) AssertionError)))))"

fun check_same_device_step :: "bool \<Rightarrow> device option \<Rightarrow> op_arg \<Rightarrow> device option result" where
  "check_same_device_step allow dev (ArgNumber n) = Inr dev"
| "check_same_device_step allow dev (ArgTensor t) =
     (if allow \<and> is_cpu_scalar_tensor (ArgTensor t) then Inr dev
      else case dev of
             None \<Rightarrow> Inr (Some (t_device t))
           | Some d \<Rightarrow> if d \<noteq> t_device t then Inl RuntimeError else Inr dev)"
| "check_same_device_step allow dev _ = Inl RuntimeError"

definition check_same_device :: "bool \<Rightarrow> op_arg list \<Rightarrow> unit result" where
  "check_same_device allow args =
     rbind (foldM (check_same_device_step allow) None args) (\<lambda>_. Inr ())"

fun check_same_shape_step :: "bool \<Rightarrow> int list option \<Rightarrow> op_arg \<Rightarrow> int list option result" where
  "check_same_shape_step allow shape (ArgNumber n) = Inr shape"
| "check_same_shape_step allow shape (ArgTensor t) =
     (if allow \<and> is_cpu_scalar_tensor (ArgTensor t) then Inr shape
      else case shape of
             None \<Rightarrow> Inr (Some (t_shape t))
           | Some s \<Rightarrow> if \<not> is_same_shape s (t_shape t) then Inl RuntimeError else Inr shape)"
| "check_same_shape_step allow shape _ = Inl RuntimeError"

definition check_same_shape :: "bool \<Rightarrow> op_arg list \<Rightarrow> unit result" where
  "check_same_shape allow args =
     rbind (foldM (check_same_shape_step allow) None args) (\<lambda>_. Inr ())"

fun extract_shape_loop ::
  "bool \<Rightarrow> int list option \<Rightarrow> int list option \<Rightarrow> op_arg list \<Rightarrow> int list option" where
  "extract_shape_loop allow shape scalar_shape [] =
     (if shape \<noteq> None then shape else scalar_shape)"
| "extract_shape_loop allow shape scalar_shape (ArgNumber n # args) =
     extract_shape_loop allow shape scalar_shape args"
| "extract_shape_loop allow shape scalar_shape (ArgTensor t # args) =
     (if allow \<and> is_cpu_scalar_tensor (ArgTensor t)
      then extract_shape_loop allow shape (Some (t_shape t)) args
      else case shape of
             None \<Rightarrow> extract_shape_loop allow (Some (t_shape t)) scalar_shape args
           | Some s \<Rightarrow> if \<not> is_same_shape s (t_shape t) then None
                       else extract_shape_loop allow shape scalar_shape args)"
| "extract_shape_loop allow shape scalar_shape (_ # args) = None"

definition extract_shape :: "bool \<Rightarrow> op_arg list \<Rightarrow> int list option" where
  "extract_shape allow args = extract_shape_loop allow None None args"

subsection \<open>Broadcasting and size inference\<close>

text \<open>The loop of \<^verbatim>\<open>infer_size_shapes\<close> counts \<open>i\<close> down from \<open>ndim - 1\<close> to 0; the parameter of the
  recursion is \<open>i + 1\<close>.\<close>

fun infer_size_loop :: "int list \<Rightarrow> int list \<Rightarrow> nat \<Rightarrow> nat \<Rightarrow> int list \<Rightarrow> int list result" where
  "infer_size_loop a b ndim 0 expandedSizes = Inr expandedSizes"
| "infer_size_loop a b ndim (Suc i) expandedSizes =
     (let offset = int ndim - 1 - int i;
          dimA = int (length a) - 1 - offset;
          dimB = int (length b) - 1 - offset;
          sizeA = (if dimA \<ge> 0 then a ! nat dimA else 1);
          sizeB = (if dimB \<ge> 0 then b ! nat dimB else 1)
      in rbind (check (sizeA = sizeB \<or> sizeA = 1 \<or> sizeB = 1) RuntimeError) (\<lambda>_.
         infer_size_loop a b ndim i (expandedSizes[i := (if sizeA = 1 then sizeB else sizeA)])))"

definition infer_size_shapes :: "int list \<Rightarrow> int list \<Rightarrow> int list result" where
  "infer_size_shapes a b =
     (let ndim = max (length a) (length b)
      in infer_size_loop a b ndim ndim (replicate ndim 0))"

fun infer_size_scan :: "nat \<Rightarrow> nat option \<Rightarrow> int \<Rightarrow> int list \<Rightarrow> (nat option \<times> int) result" where
  "infer_size_scan i dim newsize [] = Inr (dim, newsize)"
| "infer_size_scan i dim newsize (d # ds) =
     (if d = -1
      then rbind (check (dim = None) RuntimeError) (\<lambda>_. infer_size_scan (Suc i) (Some i) newsize ds)
      else rbind (check (d \<ge> 0) RuntimeError) (\<lambda>_. infer_size_scan (Suc i) dim (newsize * d) ds))"

definition infer_size :: "int list \<Rightarrow> int \<Rightarrow> int list result" where
  "infer_size shape num =
     rbind (infer_size_scan 0 None 1 shape) (\<lambda>(dim, newsize).
     case dim of
       None \<Rightarrow> rbind (check (num = newsize) RuntimeError) (\<lambda>_. Inr shape)
     | Some k \<Rightarrow>
         rbind (check (newsize \<noteq> 0) RuntimeError) (\<lambda>_.
         rbind (check (num mod newsize = 0) RuntimeError) (\<lambda>_.
         rbind (check (num div newsize \<ge> 0) RuntimeError) (\<lambda>_.
         Inr (shape[k := num div newsize])))))"

definition is_expandable_to :: "int list \<Rightarrow> int list \<Rightarrow> bool" where
  "is_expandable_to shape desired =
     (if length shape > length desired then False
      else list_all (\<lambda>i. \<not> (rev shape ! i \<noteq> rev desired ! i \<and> rev shape ! i \<noteq> 1)) [0..<length shape])"

definition prod_py :: "int list \<Rightarrow> int" where
  "prod_py xs = foldl (*) 1 xs"

subsection \<open>Storage bounds\<close>

definition compute_required_storage_length :: "int list \<Rightarrow> int list \<Rightarrow> int \<Rightarrow> int" where
  "compute_required_storage_length shape strides storage_offset =
     (if foldl (*) 1 shape = 0 then 0
      else 1 + storage_offset + sum_list (map (\<lambda>(x, y). (x - 1) * y) (zip shape strides)))"

definition check_in_bounds_for_storage ::
  "int list \<Rightarrow> int list \<Rightarrow> int \<Rightarrow> int \<Rightarrow> unit result" where
  "check_in_bounds_for_storage shape strides storage_offset storage_size =
     (if length shape \<noteq> length strides then Inl RuntimeError
      else if compute_required_storage_length shape strides storage_offset > storage_size
      then Inl RuntimeError else Inr ())"

definition set_correction :: "bool \<Rightarrow> bool \<Rightarrow> dtype option \<Rightarrow> bool" where
  "set_correction math_mode use_deterministic_highest_precision scale_dtype =
     (if math_mode \<and> \<not> use_deterministic_highest_precision then False
      else case scale_dtype of None \<Rightarrow> True | Some d \<Rightarrow> \<not> is_float_dtype d)"

subsection \<open>Output layout of elementwise operations\<close>

definition stride_preference :: "tensor_meta list \<Rightarrow> int \<Rightarrow> nat" where
  "stride_preference tensors x = length (filter (\<lambda>t. t_stride t ! nat x = 1) tensors)"

definition should_swap :: "tensor_meta list \<Rightarrow> int \<Rightarrow> int \<Rightarrow> int" where
  "should_swap tensors x y =
     (let x_pref = stride_preference tensors x; y_pref = stride_preference tensors y
      in if x_pref \<noteq> y_pref then (if x_pref < y_pref then 1 else -1) else 0)"

text \<open>The inner while loop of the insertion sort; the recursion argument is \<open>j + 1\<close>.\<close>

fun insertion_shift :: "(int \<Rightarrow> int \<Rightarrow> int) \<Rightarrow> int \<Rightarrow> nat \<Rightarrow> int list \<Rightarrow> int list" where
  "insertion_shift swap key 0 perm = perm[0 := key]"
| "insertion_shift swap key (Suc j) perm =
     (if swap (perm ! j) key = 1 then insertion_shift swap key j (perm[Suc j := perm ! j])
      else perm[Suc j := key])"

fun insertion_passes :: "(int \<Rightarrow> int \<Rightarrow> int) \<Rightarrow> nat list \<Rightarrow> int list \<Rightarrow> int list" where
  "insertion_passes swap [] perm = perm"
| "insertion_passes swap (i # is) perm =
     insertion_passes swap is (insertion_shift swap (perm ! i) i perm)"

fun layout_tensors :: "op_arg list \<Rightarrow> tensor_meta list" where
  "layout_tensors [] = []"
| "layout_tensors (ArgTensor t # args) =
     (if is_cpu_scalar_tensor (ArgTensor t) then layout_tensors args
      else t # layout_tensors args)"
| "layout_tensors (_ # args) = layout_tensors args"

definition compute_elementwise_output_logical_to_physical_perm ::
  "bool \<Rightarrow> op_arg list \<Rightarrow> (int list \<times> bool) result" where
  "compute_elementwise_output_logical_to_physical_perm skip_checks args =
     rbind (if skip_checks then Inr () else check_same_shape True args) (\<lambda>_.
     case layout_tensors args of
       [] \<Rightarrow> Inr ([], False)
     | t # ts \<Rightarrow>
         (let ndim = t_ndim t
          in if ndim = 0 then Inr ([], False)
             else if ndim = 1 then Inr ([0], False)
             else
               let swap = should_swap (t # ts);
                   perm = insertion_passes swap [1..<ndim] (py_range (int ndim));
                   ambiguous = list_ex (\<lambda>i. swap (perm ! i) (perm ! Suc i) \<noteq> -1) [0..<ndim - 1]
               in Inr (rev perm, ambiguous)))"

definition compute_elementwise_output_strides ::
  "(tensor_meta \<Rightarrow> int list) \<Rightarrow> op_arg list \<Rightarrow> int list result" where
  "compute_elementwise_output_strides empty_like_stride args =
     (if length args = 0 then Inl ValueError
      else rbind (check_same_shape True args) (\<lambda>_.
        case layout_tensors args of
          [] \<Rightarrow> Inr []
        | t # ts \<Rightarrow>
            if t_ndim t = 0 then Inr []
            else if t_ndim t = 1 then Inr [1]
            else if ts = [] then
              (if is_non_overlapping_and_dense_or_false t then Inr (t_stride t)
               else Inr (empty_like_stride t))
            else
              rbind (compute_elementwise_output_logical_to_physical_perm True
                       (map ArgTensor (t # ts))) (\<lambda>(perm, _).
              rbind (apply_perm (t_shape t) perm) (\<lambda>permuted_shape.
              rbind (make_contiguous_strides_for permuted_shape True) (\<lambda>new_strides.
              rbind (invert_perm perm) (\<lambda>inv.
              apply_perm new_strides inv))))))"

subsection \<open>Broadcasting computes the least common expansion\<close>

text \<open>The size a shape contributes at position \<open>i\<close> of an \<open>n\<close>-dimensional result: shapes are
  aligned at the right, missing dimensions count as 1.\<close>

definition aligned :: "nat \<Rightarrow> int list \<Rightarrow> nat \<Rightarrow> int" where
  "aligned n a i = (if n \<le> i + length a then a ! (i + length a - n) else 1)"

definition compatible :: "int \<Rightarrow> int \<Rightarrow> bool" where
  "compatible x y \<longleftrightarrow> x = y \<or> x = 1 \<or> y = 1"

definition join_size :: "int \<Rightarrow> int \<Rightarrow> int" where
  "join_size x y = (if x = 1 then y else x)"

lemma check_eq_require: "check b e = require b e"
  by (simp add: check_def require_def)

lemma infer_size_loop_eq:
  assumes "m \<le> n" and "length E = n" and "length a \<le> n" and "length b \<le> n"
  shows "infer_size_loop a b n m E =
    (if \<forall>i<m. compatible (aligned n a i) (aligned n b i)
     then Inr (map (\<lambda>i. join_size (aligned n a i) (aligned n b i)) [0..<m] @ drop m E)
     else Inl RuntimeError)"
  using assms
proof (induction m arbitrary: E)
  case 0
  then show ?case by simp
next
  case (Suc m)
  have al: "(if int (length c) - 1 - (int n - 1 - int m) \<ge> 0
        then c ! nat (int (length c) - 1 - (int n - 1 - int m)) else 1) = aligned n c m"
    if "length c \<le> n" for c
    using that by (auto simp: aligned_def nat_diff_distrib' intro!: arg_cong[of _ _ "(!) c"])
  let ?x = "aligned n a m" and ?y = "aligned n b m"
  have step: "infer_size_loop a b n (Suc m) E =
      rbind (check (compatible ?x ?y) RuntimeError)
        (\<lambda>_. infer_size_loop a b n m (E[m := join_size ?x ?y]))"
    using Suc.prems by (simp only: infer_size_loop.simps Let_def al compatible_def join_size_def)
  show ?case
  proof (cases "compatible ?x ?y")
    case True
    have "drop m (E[m := join_size ?x ?y]) = join_size ?x ?y # drop (Suc m) E"
      using Suc.prems by (simp add: Cons_nth_drop_Suc[symmetric])
    then show ?thesis
      using True Suc.IH[of "E[m := join_size ?x ?y]"] Suc.prems
      by (simp add: step check_def less_Suc_eq del: infer_size_loop.simps(2))
  next
    case False
    then show ?thesis by (auto simp: step check_def simp del: infer_size_loop.simps(2))
  qed
qed

lemma infer_size_shapes_eq:
  "infer_size_shapes a b =
    (let n = max (length a) (length b)
     in if \<forall>i<n. compatible (aligned n a i) (aligned n b i)
        then Inr (map (\<lambda>i. join_size (aligned n a i) (aligned n b i)) [0..<n])
        else Inl RuntimeError)"
  by (simp add: infer_size_shapes_def infer_size_loop_eq Let_def)

lemma is_expandable_to_iff:
  "is_expandable_to a d \<longleftrightarrow> length a \<le> length d \<and>
     (\<forall>i<length d. aligned (length d) a i = d ! i \<or> aligned (length d) a i = 1)"
proof (cases "length a \<le> length d")
  case True
  let ?n = "length d" and ?k = "length d - length a"
  have pos: "rev a ! i = aligned ?n a (?n - Suc i)" "rev d ! i = d ! (?n - Suc i)"
    if "i < length a" for i
    using that True by (auto simp: rev_nth aligned_def intro!: arg_cong[of _ _ "(!) a"])
  have "(\<forall>i<length a. rev a ! i = rev d ! i \<or> rev a ! i = 1) \<longleftrightarrow>
        (\<forall>i<?n. aligned ?n a i = d ! i \<or> aligned ?n a i = 1)" (is "?L \<longleftrightarrow> ?R")
  proof
    assume L: ?L
    show ?R
    proof (intro allI impI)
      fix i assume i: "i < ?n"
      show "aligned ?n a i = d ! i \<or> aligned ?n a i = 1"
      proof (cases "i < ?k")
        case True
        then have "\<not> ?n \<le> i + length a" by linarith
        then show ?thesis by (simp add: aligned_def)
      next
        case False
        then have j: "?n - Suc i < length a" and "?n - Suc (?n - Suc i) = i" using i by auto
        then show ?thesis using L pos[OF j] by auto
      qed
    qed
  next
    assume R: ?R
    then show ?L using pos True by (auto simp: less_le_trans)
  qed
  with True show ?thesis by (auto simp: is_expandable_to_def list_all_iff)
next
  case False
  then show ?thesis by (simp add: is_expandable_to_def)
qed

lemma aligned_self [simp]: "i < length s \<Longrightarrow> aligned (length s) s i = s ! i"
  by (simp add: aligned_def)

lemma aligned_shift:
  "length a \<le> n \<Longrightarrow> n \<le> m \<Longrightarrow> i < m \<Longrightarrow>
   aligned m a i = (if m \<le> i + n then aligned n a (i + n - m) else 1)"
  by (auto simp: aligned_def intro!: arg_cong[of _ _ "(!) a"])

lemma is_expandable_to_refl: "is_expandable_to a a"
  by (simp add: is_expandable_to_iff)

lemma is_expandable_to_trans:
  assumes "is_expandable_to a b" and "is_expandable_to b c"
  shows "is_expandable_to a c"
proof -
  have ab: "length a \<le> length b" and bc: "length b \<le> length c"
    and sb: "\<And>i. i < length b \<Longrightarrow> aligned (length b) a i = b ! i \<or> aligned (length b) a i = 1"
    and sc: "\<And>i. i < length c \<Longrightarrow> aligned (length c) b i = c ! i \<or> aligned (length c) b i = 1"
    using assms by (auto simp: is_expandable_to_iff)
  have "aligned (length c) a i = c ! i \<or> aligned (length c) a i = 1" if i: "i < length c" for i
  proof (cases "length c \<le> i + length b")
    case True
    then have j: "i + length b - length c < length b" using i by linarith
    then show ?thesis
      using sb[OF j] sc[OF i] True aligned_shift[OF ab bc i] aligned_shift[OF order_refl bc i]
      by auto
  next
    case False
    then show ?thesis using aligned_shift[OF ab bc i] by simp
  qed
  then show ?thesis using ab bc by (simp add: is_expandable_to_iff)
qed

lemma expandable_aligned:
  assumes "is_expandable_to a d" and "length a \<le> n" and "n \<le> length d" and "i < n"
  shows "aligned n a i = d ! (i + (length d - n)) \<or> aligned n a i = 1"
proof -
  let ?j = "i + (length d - n)"
  have j: "?j < length d" and eq: "?j + n - length d = i" and le: "length d \<le> ?j + n"
    using assms(3,4) by linarith+
  have "aligned (length d) a ?j = aligned n a i"
    using aligned_shift[OF assms(2,3) j] le eq by simp
  then show ?thesis using assms(1) j by (auto simp: is_expandable_to_iff)
qed

lemma aligned_map:
  "i < m \<Longrightarrow> aligned m (map f [0..<n]) i = (if m \<le> i + n then f (i + n - m) else 1)"
  by (simp add: aligned_def)

text \<open>C3: broadcasting. \<open>infer_size_shapes\<close> succeeds exactly when the two shapes have a common
  expansion, and then returns the least one: both shapes expand to the result, and the result
  expands to every shape both expand to. Otherwise it raises RuntimeError.\<close>

theorem infer_size_shapes_least:
  "if \<exists>d. is_expandable_to a d \<and> is_expandable_to b d
   then \<exists>s. infer_size_shapes a b = Inr s \<and> is_expandable_to a s \<and> is_expandable_to b s \<and>
          (\<forall>d. is_expandable_to a d \<and> is_expandable_to b d \<longrightarrow> is_expandable_to s d)
   else infer_size_shapes a b = Inl RuntimeError"
proof -
  let ?n = "max (length a) (length b)"
  let ?c = "\<forall>i<?n. compatible (aligned ?n a i) (aligned ?n b i)"
  let ?s = "map (\<lambda>i. join_size (aligned ?n a i) (aligned ?n b i)) [0..<?n]"
  have sound: "is_expandable_to a ?s \<and> is_expandable_to b ?s" if ?c
    using that by (auto simp: is_expandable_to_iff join_size_def compatible_def)
  have least: "?c \<and> is_expandable_to ?s d" if "is_expandable_to a d" "is_expandable_to b d" for d
  proof -
    have n: "?n \<le> length d" using that by (auto simp: is_expandable_to_iff)
    have dims: "aligned ?n a i = d ! (i + (length d - ?n)) \<or> aligned ?n a i = 1"
        "aligned ?n b i = d ! (i + (length d - ?n)) \<or> aligned ?n b i = 1" if "i < ?n" for i
      using expandable_aligned[OF _ _ n that] \<open>is_expandable_to a d\<close> \<open>is_expandable_to b d\<close> by auto
    have "aligned (length d) ?s i = d ! i \<or> aligned (length d) ?s i = 1" if i: "i < length d" for i
    proof (cases "length d \<le> i + ?n")
      case True
      let ?j = "i + ?n - length d"
      have j: "?j < ?n" "?j + (length d - ?n) = i" using True i n by linarith+
      then have "aligned (length d) ?s i = join_size (aligned ?n a ?j) (aligned ?n b ?j)"
        using True aligned_map[OF i] by simp
      then show ?thesis using dims[OF j(1)] j(2) by (auto simp: join_size_def)
    next
      case False
      then show ?thesis using aligned_map[OF i] by simp
    qed
    then have "is_expandable_to ?s d" using n by (simp add: is_expandable_to_iff)
    moreover have ?c using dims by (fastforce simp: compatible_def)
    ultimately show ?thesis by blast
  qed
  show ?thesis using sound least by (auto simp: infer_size_shapes_eq Let_def)
qed

theorem infer_size_shapes_least_witness:
  "\<exists>s. infer_size_shapes [4, 1, 3] [5, 1] = Inr s \<and> is_expandable_to [4, 1, 3] s \<and>
     is_expandable_to s [4, 5, 3]"
proof -
  have c: "is_expandable_to [4, 1, 3] [4, 5, 3]" "is_expandable_to [5, 1] [4, 5, 3]"
    by (simp_all add: is_expandable_to_def upt_rec)
  then have "\<exists>d. is_expandable_to [4, 1, 3] d \<and> is_expandable_to [5, 1] d" by blast
  then show ?thesis using infer_size_shapes_least[of "[4, 1, 3]" "[5, 1]"] c by auto
qed

subsection \<open>Size inference solves the element count\<close>

definition nonneg :: "int list \<Rightarrow> bool" where
  "nonneg xs \<longleftrightarrow> (\<forall>x \<in> set xs. 0 \<le> x)"

lemma infer_size_scan_known:
  "infer_size_scan i (Some k) ns ds =
     (if nonneg ds then Inr (Some k, ns * prod_list ds) else Inl RuntimeError)"
  by (induction ds arbitrary: i ns) (auto simp: nonneg_def check_def mult.assoc)

text \<open>A shape without \<open>-1\<close>, or with one at position \<open>length xs\<close>.\<close>

lemma infer_size_scan_plain:
  "-1 \<notin> set ds \<Longrightarrow> infer_size_scan i None ns ds =
     (if nonneg ds then Inr (None, ns * prod_list ds) else Inl RuntimeError)"
  by (induction ds arbitrary: i ns) (auto simp: nonneg_def check_def mult.assoc)

lemma infer_size_scan_hole:
  "-1 \<notin> set xs \<Longrightarrow> infer_size_scan i None ns (xs @ -1 # ys) =
     (if nonneg xs \<and> nonneg ys then Inr (Some (i + length xs), ns * prod_list xs * prod_list ys)
      else Inl RuntimeError)"
  by (induction xs arbitrary: i ns)
    (auto simp: nonneg_def check_def mult.assoc infer_size_scan_known)

lemma infer_size_plain:
  assumes "-1 \<notin> set shape"
  shows "infer_size shape num =
    (if nonneg shape \<and> num = prod_list shape then Inr shape else Inl RuntimeError)"
  using assms by (simp add: infer_size_def infer_size_scan_plain check_def)

lemma infer_size_hole:
  assumes "-1 \<notin> set xs"
  shows "infer_size (xs @ -1 # ys) num =
    (let p = prod_list xs * prod_list ys
     in if nonneg xs \<and> nonneg ys \<and> p \<noteq> 0 \<and> num mod p = 0 \<and> 0 \<le> num div p
        then Inr (xs @ (num div p) # ys) else Inl RuntimeError)"
  using assms by (simp add: infer_size_def infer_size_scan_hole check_def Let_def)

text \<open>A completion of a requested shape: the same sizes where they are given, non-negative
  everywhere, and the right number of elements.\<close>

definition completes :: "int list \<Rightarrow> int \<Rightarrow> int list \<Rightarrow> bool" where
  "completes shape num s \<longleftrightarrow> length s = length shape \<and> nonneg s \<and> prod_list s = num \<and>
     (\<forall>i<length shape. shape ! i \<noteq> -1 \<longrightarrow> s ! i = shape ! i)"

lemma completes_hole:
  "completes (xs @ -1 # ys) num s \<longleftrightarrow>
     (\<exists>m us vs. s = us @ m # vs \<and> completes xs (prod_list us) us \<and> completes ys (prod_list vs) vs \<and>
        0 \<le> m \<and> prod_list us * m * prod_list vs = num)"
proof
  assume c: "completes (xs @ -1 # ys) num s"
  let ?us = "take (length xs) s" and ?vs = "drop (Suc (length xs)) s"
  have len: "length s = length xs + Suc (length ys)" using c by (simp add: completes_def)
  then have s: "s = ?us @ s ! length xs # ?vs" by (simp add: id_take_nth_drop)
  have keep: "(xs @ -1 # ys) ! i \<noteq> -1 \<Longrightarrow> s ! i = (xs @ -1 # ys) ! i"
    if "i < length xs + Suc (length ys)" for i
    using c that by (simp add: completes_def)
  have us: "completes xs (prod_list ?us) ?us"
    using c len keep unfolding completes_def nonneg_def
    by (force simp: nth_append dest: in_set_takeD)
  have vs: "completes ys (prod_list ?vs) ?vs"
    using c len keep[of "Suc (length xs + i)" for i] unfolding completes_def nonneg_def
    by (force simp: nth_append dest: in_set_dropD)
  have "0 \<le> s ! length xs" using c len by (simp add: completes_def nonneg_def)
  moreover have "prod_list ?us * s ! length xs * prod_list ?vs = num"
    using c s unfolding completes_def by (metis mult.assoc prod_list.Cons prod_list_append_int)
  ultimately show "\<exists>m us vs. s = us @ m # vs \<and> completes xs (prod_list us) us \<and>
      completes ys (prod_list vs) vs \<and> 0 \<le> m \<and> prod_list us * m * prod_list vs = num"
    using s us vs by blast
next
  assume "\<exists>m us vs. s = us @ m # vs \<and> completes xs (prod_list us) us \<and>
      completes ys (prod_list vs) vs \<and> 0 \<le> m \<and> prod_list us * m * prod_list vs = num"
  then show "completes (xs @ -1 # ys) num s"
    by (auto simp: completes_def nonneg_def prod_list_append_int nth_append nth_Cons' mult.assoc)
qed

lemma completes_plain:
  assumes "-1 \<notin> set xs"
  shows "completes xs num us \<longleftrightarrow> us = xs \<and> nonneg xs \<and> num = prod_list xs"
proof -
  have "\<forall>i<length xs. xs ! i \<noteq> -1" using assms by (metis nth_mem)
  then have "length us = length xs \<and> (\<forall>i<length xs. xs ! i \<noteq> -1 \<longrightarrow> us ! i = xs ! i) \<longleftrightarrow> us = xs"
    by (auto simp: list_eq_iff_nth_eq)
  then show ?thesis by (auto simp: completes_def)
qed

lemma completes_one_hole:
  assumes "-1 \<notin> set xs" and "-1 \<notin> set ys"
  shows "completes (xs @ -1 # ys) num s \<longleftrightarrow>
    nonneg xs \<and> nonneg ys \<and>
    (\<exists>m. s = xs @ m # ys \<and> 0 \<le> m \<and> prod_list xs * prod_list ys * m = num)"
  unfolding completes_hole completes_plain[OF assms(1)] completes_plain[OF assms(2)]
  by (auto simp: algebra_simps)

lemma count_hole_split:
  assumes "-1 \<in> set (shape :: int list)"
  obtains xs ys where "shape = xs @ -1 # ys" and "-1 \<notin> set xs"
    and "count_list shape (-1) \<le> 1 \<longleftrightarrow> -1 \<notin> set ys"
proof -
  obtain xs ys where s: "shape = xs @ -1 # ys" and x: "-1 \<notin> set xs"
    using assms by (metis split_list_first)
  have "count_list shape (-1) = Suc (count_list ys (-1))" using x by (simp add: s)
  then have "count_list shape (-1) \<le> 1 \<longleftrightarrow> -1 \<notin> set ys"
    by (simp add: count_list_0_iff)
  with s x that show ?thesis by blast
qed

lemma unique_multiple:
  "(p * m = num \<and> 0 \<le> m \<and> (\<forall>m'. p * m' = num \<and> 0 \<le> m' \<longrightarrow> m' = m)) \<longleftrightarrow>
   (p \<noteq> 0 \<and> num mod p = 0 \<and> 0 \<le> num div p \<and> m = num div p)" for p m num :: int
proof (cases "p = 0")
  case True
  have "\<not> (\<forall>m'. 0 \<le> m' \<longrightarrow> m' = m)" by (metis add.commute add_increasing zero_le_one add_cancel_right_left zero_neq_one)
  with True show ?thesis by auto
next
  case False
  then show ?thesis by auto
qed

text \<open>size inference. \<open>infer_size\<close> returns a shape exactly when at most one size is requested
  as \<open>-1\<close> and the shape returned is the one and only completion of the request with the given
  element count: same sizes where given, non-negative, product equal to the element count. In
  every other case it raises RuntimeError (in particular for the ambiguous zero-element
  request).\<close>

theorem infer_size_unique_completion:
  "(infer_size shape num = Inr s \<longleftrightarrow>
      count_list shape (-1) \<le> 1 \<and> completes shape num s \<and>
      (\<forall>s'. completes shape num s' \<longrightarrow> s' = s)) \<and>
   (\<forall>e. infer_size shape num = Inl e \<longrightarrow> e = RuntimeError)"
proof (cases "-1 \<in> set shape")
  case False
  then show ?thesis by (auto simp: infer_size_plain completes_plain count_list_0_iff)
next
  case True
  then obtain xs ys where sh: "shape = xs @ -1 # ys" and x: "-1 \<notin> set xs"
    and cnt: "count_list shape (-1) \<le> 1 \<longleftrightarrow> -1 \<notin> set ys"
    by (rule count_hole_split)
  show ?thesis
  proof (cases "-1 \<in> set ys")
    case True
    then have "\<not> nonneg ys" by (force simp: nonneg_def)
    then have "infer_size shape num = Inl RuntimeError"
      by (simp add: sh infer_size_hole[OF x] Let_def)
    moreover have "\<not> count_list shape (-1) \<le> 1" using cnt True by blast
    ultimately show ?thesis by simp
  next
    case False
    let ?p = "prod_list xs * prod_list ys"
    have "completes shape num s \<and> (\<forall>s'. completes shape num s' \<longrightarrow> s' = s) \<longleftrightarrow>
        nonneg xs \<and> nonneg ys \<and> (\<exists>m. s = xs @ m # ys \<and> ?p * m = num \<and> 0 \<le> m \<and>
          (\<forall>m'. ?p * m' = num \<and> 0 \<le> m' \<longrightarrow> m' = m))"
      unfolding sh completes_one_hole[OF x False] by auto
    then show ?thesis
      using cnt False by (auto simp: sh infer_size_hole[OF x] Let_def unique_multiple)
  qed
qed

theorem infer_size_unique_completion_witness:
  "infer_size [2, -1] 6 = Inr [2, 3] \<and> completes [2, -1] 6 [2, 3]"
proof -
  have "infer_size [2, -1] 6 = Inr [2, 3]" by (simp add: infer_size_def check_def)
  then show ?thesis using infer_size_unique_completion[of "[2, -1]" 6 "[2, 3]"] by blast
qed

subsection \<open>Contiguous strides, density and storage bounds\<close>

definition positive :: "int list \<Rightarrow> bool" where
  "positive xs \<longleftrightarrow> (\<forall>x \<in> set xs. 0 < x)"

definition contiguous_strides :: "int list \<Rightarrow> int list" where
  "contiguous_strides shape = rev (contiguous_strides_loop 1 (rev shape))"

lemma length_contiguous_strides_loop [simp]: "length (contiguous_strides_loop m ns) = length ns"
  by (induction ns arbitrary: m) auto

lemma length_contiguous_strides [simp]: "length (contiguous_strides shape) = length shape"
  by (simp add: contiguous_strides_def)

lemma validate_shape_eq: "validate_shape shape = (if nonneg shape then Inr () else Inl AssertionError)"
  unfolding validate_shape_def
  by (induction shape) (auto simp: nonneg_def validate_dim_length_def)

lemma make_contiguous_strides_row_major:
  "nonneg shape \<Longrightarrow> make_contiguous_strides_for shape True = Inr (contiguous_strides shape)"
  by (simp add: make_contiguous_strides_for_def validate_shape_eq contiguous_strides_def Let_def)

lemma positive_nonneg: "positive xs \<Longrightarrow> nonneg xs"
  by (force simp: positive_def nonneg_def)

lemma contiguous_loop_chain:
  "positive ns \<Longrightarrow> stride_chain m (zip ns (contiguous_strides_loop m ns))"
  by (induction ns arbitrary: m) (auto simp: positive_def max_absorb1)

lemma zip_contiguous_strides:
  "zip shape (contiguous_strides shape)
   = rev (zip (rev shape) (contiguous_strides_loop 1 (rev shape)))"
  using zip_rev[of "rev shape" "contiguous_strides_loop 1 (rev shape)"]
  by (simp add: contiguous_strides_def)

lemma positive_zip: "positive xs \<Longrightarrow> \<forall>p \<in> set (zip xs ys). 0 < fst p"
  by (auto simp: positive_def dest: set_zip_leftD)

lemma contiguous_covers_once:
  assumes "positive shape"
  shows "covers_once (zip shape (contiguous_strides shape))"
proof -
  have pos: "positive (rev shape)" using assms by (simp add: positive_def)
  let ?z = "zip (rev shape) (contiguous_strides_loop 1 (rev shape))"
  have "covers_once ?z"
    by (rule stride_chain_covers_once[OF contiguous_loop_chain[OF pos] positive_zip[OF pos]])
  then show ?thesis
    using covers_once_mset[of "rev ?z" ?z] by (simp add: zip_contiguous_strides)
qed

text \<open>The contiguous strides are a provider of dense geometries.\<close>

interpretation contiguous: dense_geometry positive "\<lambda>shape. zip shape (contiguous_strides shape)"
  by unfold_locales (rule contiguous_covers_once)

lemma dense_loop_chain: "dense_loop e ps \<longleftrightarrow> stride_chain e ps"
  by (induction e ps rule: stride_chain.induct) auto

lemma dense_check_sound:
  assumes "positive sizes" and "non_overlapping_and_dense_or_false sizes strides"
  shows "covers_once (zip sizes strides)"
proof (cases "sizes = []")
  case True
  then show ?thesis by (simp add: covers_once_def)
next
  case False
  let ?ps = "filter (\<lambda>p. fst p \<noteq> 1) (zip sizes strides)"
  have f: "filter (\<lambda>(s, stride). s \<noteq> 1) (zip sizes strides) = ?ps" by (rule filter_cong) auto
  have "dense_loop 1 (sort_key snd ?ps)"
    using assms(2) False
    by (simp add: non_overlapping_and_dense_or_false_def f split: if_splits)
  then have "stride_chain 1 (sort_key snd ?ps)" by (simp add: dense_loop_chain)
  moreover have "\<forall>p \<in> set (sort_key snd ?ps). 0 < fst p"
    using positive_zip[OF assms(1), of strides] by auto
  ultimately have "covers_once (sort_key snd ?ps)" by (rule stride_chain_covers_once)
  then show ?thesis
    using covers_once_mset[of "sort_key snd ?ps" ?ps] by (simp add: covers_once_filter)
qed

interpretation dense: dense_geometry
  "\<lambda>(sizes, strides). positive sizes \<and> non_overlapping_and_dense_or_false sizes strides"
  "\<lambda>(sizes, strides). zip sizes strides"
  by unfold_locales (auto intro: dense_check_sound)

text \<open>C27: the density check is sound. When \<open>_is_non_overlapping_and_dense_or_false\<close> accepts sizes
  (all positive) and strides, the element offsets the geometry visits, sorted, are exactly
  0, 1, ..., numel - 1: no two coordinates share an offset and no cell is skipped.\<close>

theorem non_overlapping_and_dense_sound:
  assumes "positive sizes" and "length sizes = length strides"
    and "non_overlapping_and_dense_or_false sizes strides"
  shows "sort (addresses (zip sizes strides)) = py_range (prod_list sizes)"
  using dense.addresses_sorted[of "(sizes, strides)"] assms by (simp add: numel_def)

theorem non_overlapping_and_dense_sound_witness:
  "sort (addresses (zip [2, 3] [1, 2])) = py_range 6"
  using non_overlapping_and_dense_sound[of "[2, 3]" "[1, 2]"]
  by (simp add: positive_def non_overlapping_and_dense_or_false_def)

lemma stride_chain_filter: "stride_chain e ps \<Longrightarrow> stride_chain e (filter (\<lambda>p. fst p \<noteq> 1) ps)"
  by (induction e ps rule: stride_chain.induct) auto

lemma stride_chain_lower:
  assumes "stride_chain e ps" and "0 < e" and "\<forall>p \<in> set ps. 0 < fst p"
  shows "\<forall>p \<in> set ps. e \<le> snd p"
  using assms
proof (induction e ps rule: stride_chain.induct)
  case (2 e s d ps)
  then have "e \<le> e * s" by simp
  moreover have "\<forall>p \<in> set ps. e * s \<le> snd p" using 2 by simp
  ultimately have "\<forall>p \<in> set ps. e \<le> snd p" by (meson order_trans)
  then show ?case using 2 by auto
qed simp

lemma stride_chain_increasing:
  assumes "stride_chain e ps" and "0 < e" and "\<forall>p \<in> set ps. 1 < fst p"
  shows "sorted_wrt (<) (map snd ps)"
  using assms
proof (induction e ps rule: stride_chain.induct)
  case (2 e s d ps)
  then have "e < e * s" by simp
  moreover have "\<forall>p \<in> set ps. e * s \<le> snd p"
    using 2 stride_chain_lower[of "e * s" ps] by force
  ultimately have "\<forall>p \<in> set ps. e < snd p" by (meson less_le_trans)
  then show ?case using 2 by auto
qed simp

lemma filter_key_distinct:
  "distinct (map f xs) \<Longrightarrow> k \<in> set xs \<Longrightarrow> filter (\<lambda>x. f k = f x) xs = [k]"
proof (induction xs)
  case (Cons x xs)
  show ?case
  proof (cases "k = x")
    case True
    then show ?thesis using Cons.prems by (auto simp: filter_empty_conv)
  next
    case False
    then show ?thesis using Cons by (auto simp: image_iff)
  qed
qed simp

lemma sort_key_rev:
  fixes f :: "'a \<Rightarrow> int"
  assumes "sorted_wrt (<) (map f (rev xs))"
  shows "sort_key f xs = rev xs"
proof (rule properties_for_sort_key)
  have d: "distinct (map f (rev xs))" using assms by (simp add: strict_sorted_iff)
  show "filter (\<lambda>x. f k = f x) (rev xs) = filter (\<lambda>x. f k = f x) xs" if "k \<in> set (rev xs)" for k
    using filter_key_distinct[OF d that] filter_key_distinct[of f xs k] that d
    by (simp add: rev_map[symmetric])
  show "sorted (map f (rev xs))" using assms by (simp add: strict_sorted_imp_sorted)
qed simp

lemma contiguous_chain:
  assumes "positive shape"
  shows "stride_chain 1 (rev (zip shape (contiguous_strides shape)))"
proof -
  have "positive (rev shape)" using assms by (simp add: positive_def)
  then show ?thesis by (simp add: zip_contiguous_strides contiguous_loop_chain)
qed

lemma contiguous_dense:
  assumes "positive shape"
  shows "non_overlapping_and_dense_or_false shape (contiguous_strides shape)"
proof -
  let ?z = "zip shape (contiguous_strides shape)"
  let ?ps = "filter (\<lambda>p. fst p \<noteq> 1) ?z"
  have f: "filter (\<lambda>(s, stride). s \<noteq> 1) ?z = ?ps" by (rule filter_cong) auto
  have pos: "\<forall>p \<in> set ?z. 0 < fst p" by (rule positive_zip[OF assms])
  have chain: "stride_chain 1 (rev ?ps)"
    using stride_chain_filter[OF contiguous_chain[OF assms]] by (simp add: rev_filter)
  have big: "\<forall>p \<in> set (rev ?ps). 1 < fst p" using pos by fastforce
  have "sort_key snd ?ps = rev ?ps"
    by (rule sort_key_rev) (use stride_chain_increasing[OF chain _ big] in simp)
  moreover have "\<not> list_ex (\<lambda>stride. stride < 1) (contiguous_strides shape)"
  proof -
    have "\<forall>p \<in> set ?z. 1 \<le> snd p"
      using stride_chain_lower[OF contiguous_chain[OF assms]] pos by simp
    then have "\<forall>d \<in> set (map snd ?z). 1 \<le> d" unfolding set_map by blast
    then show ?thesis by (auto simp: list_ex_iff)
  qed
  ultimately show ?thesis
    using chain by (simp add: non_overlapping_and_dense_or_false_def f dense_loop_chain)
qed

lemma chain_contiguous_loop:
  "stride_chain e ps \<Longrightarrow> \<forall>p \<in> set ps. 0 < fst p \<Longrightarrow> contiguous_loop e e ps"
  by (induction e ps rule: stride_chain.induct) (auto simp: max_absorb1)

lemma contiguous_strides_loop_snoc:
  "positive ns \<Longrightarrow> contiguous_strides_loop m (ns @ [x]) = contiguous_strides_loop m ns @ [m * prod_list ns]"
  by (induction ns arbitrary: m) (auto simp: positive_def max_absorb1 mult.assoc)

lemma contiguous_strides_Cons:
  "positive ns \<Longrightarrow> contiguous_strides (n # ns) = prod_list ns # contiguous_strides ns"
  using contiguous_strides_loop_snoc[of "rev ns" 1 n]
  by (simp add: contiguous_strides_def positive_def prod_list_rev_int)

lemma concat_blocks:
  assumes "0 \<le> m"
  shows "concat (map (\<lambda>x. map (\<lambda>a. x * m + a) (py_range m)) (map int [0..<k])) = py_range (int k * m)"
proof (induction k)
  case 0
  then show ?case by (simp add: py_range_def)
next
  case (Suc k)
  have "0 \<le> int k * m" using assms by simp
  then have "py_range (int (Suc k) * m) = py_range (int k * m) @ map (\<lambda>a. int k * m + a) (py_range m)"
    using assms by (intro nth_equalityI) (auto simp: nth_append nat_add_distrib algebra_simps)
  then show ?case using Suc by simp
qed

lemma contiguous_addresses:
  "positive shape \<Longrightarrow> addresses (zip shape (contiguous_strides shape)) = py_range (prod_list shape)"
proof (induction shape)
  case Nil
  then show ?case by (simp add: contiguous_strides_def)
next
  case (Cons n ns)
  then have n: "0 < n" and ns: "positive ns" by (auto simp: positive_def)
  have "0 < prod_list ns" using ns by (simp add: positive_def prod_list_pos)
  then have "0 \<le> prod_list ns" by simp
  from concat_blocks[OF this, of "nat n"] show ?case
    using Cons.IH[OF ns] n by (simp add: contiguous_strides_Cons[OF ns] py_range_code[of n])
qed

text \<open>C30: the contiguous strides of a shape with positive sizes address the cells
  0, 1, ..., numel - 1 in row-major order, and both the contiguity check and the density check
  accept them.\<close>

theorem contiguous_strides_correct:
  assumes "positive shape"
  shows "\<exists>strides. make_contiguous_strides_for shape True = Inr strides \<and>
    length strides = length shape \<and>
    addresses (zip shape strides) = py_range (prod_list shape) \<and>
    check_contiguous_sizes_strides shape strides \<and>
    non_overlapping_and_dense_or_false shape strides"
proof -
  let ?z = "zip shape (contiguous_strides shape)"
  have "contiguous_loop 1 1 (rev ?z)"
    by (rule chain_contiguous_loop[OF contiguous_chain[OF assms]])
      (use positive_zip[OF assms, of "contiguous_strides shape"] in simp)
  then show ?thesis
    using make_contiguous_strides_row_major[OF positive_nonneg[OF assms]] contiguous_addresses[OF assms]
      contiguous_dense[OF assms]
    by (simp add: check_contiguous_sizes_strides_def)
qed

theorem contiguous_strides_correct_witness:
  "\<exists>strides. make_contiguous_strides_for [2, 3] True = Inr strides \<and>
     addresses (zip [2, 3] strides) = py_range 6"
  using contiguous_strides_correct[of "[2, 3]"] by (auto simp: positive_def)

lemma required_storage_nonempty:
  "positive shape \<Longrightarrow> compute_required_storage_length shape strides off
     = 1 + off + sum_list (map (\<lambda>(x, y). (x - 1) * y) (zip shape strides))"
  using prod_list_pos[of shape]
  by (simp add: compute_required_storage_length_def foldl_mult_int positive_def)

lemma last_coords:
  assumes "positive shape" and "length shape = length strides"
  shows "valid_coords (map (\<lambda>n. n - 1) shape) shape"
    and "offset_of (map (\<lambda>n. n - 1) shape) strides
      = sum_list (map (\<lambda>(x, y). (x - 1) * y) (zip shape strides))"
  using assms(2,1)
  by (induction shape strides rule: list_induct2) (auto simp: positive_def)

text \<open>C31: storage bounds are safe and tight. When \<open>check_in_bounds_for_storage\<close> accepts a
  non-empty geometry with non-negative strides and offset, every coordinate inside the shape
  addresses a cell inside the storage; and the storage length it demands is the least one, since
  the last coordinate addresses its last cell.\<close>

theorem storage_bounds_safe_and_tight:
  assumes ok: "check_in_bounds_for_storage shape strides off storage_size = Inr ()"
    and pos: "positive shape" and str: "nonneg strides" and off: "0 \<le> off"
  shows "(\<forall>xs. valid_coords xs shape \<longrightarrow>
           0 \<le> off + offset_of xs strides \<and> off + offset_of xs strides < storage_size) \<and>
         (\<exists>xs. valid_coords xs shape \<and>
           off + offset_of xs strides = compute_required_storage_length shape strides off - 1)"
proof -
  have len: "length shape = length strides"
    and req: "compute_required_storage_length shape strides off \<le> storage_size"
    using ok by (auto simp: check_in_bounds_for_storage_def split: if_splits)
  have "\<forall>xs. valid_coords xs shape \<longrightarrow>
      0 \<le> off + offset_of xs strides \<and> off + offset_of xs strides < storage_size"
    using offset_of_bounds[OF _ len] str off req
    by (fastforce simp: required_storage_nonempty[OF pos] nonneg_def)
  moreover have "\<exists>xs. valid_coords xs shape \<and>
      off + offset_of xs strides = compute_required_storage_length shape strides off - 1"
    using last_coords[OF pos len]
    by (intro exI[of _ "map (\<lambda>n. n - 1) shape"]) (simp add: required_storage_nonempty[OF pos])
  ultimately show ?thesis ..
qed

theorem storage_bounds_safe_and_tight_witness:
  "\<exists>xs. valid_coords xs [2, 3] \<and> 1 + offset_of xs [3, 1] = 6"
  using storage_bounds_safe_and_tight[of "[2, 3]" "[3, 1]" 1 7]
  by (simp add: check_in_bounds_for_storage_def compute_required_storage_length_def positive_def
      nonneg_def)

subsection \<open>Permutations and the elementwise output layout\<close>

lemma py_set_nat [simp]: "i < length xs \<Longrightarrow> py_set xs (int i) v = Inr (xs[i := v])"
  by (simp add: py_set_def)

lemma py_set_range: "0 \<le> i \<Longrightarrow> i < int (length xs) \<Longrightarrow> py_set xs i v = Inr (xs[nat i := v])"
  by (simp add: py_set_def)

lemma zip_upt_Cons:
  "zip (map int [k..<k + length (x # xs)]) (x # xs)
   = (int k, x) # zip (map int [Suc k..<Suc k + length xs]) xs"
proof -
  have "[k..<k + length (x # xs)] = k # [Suc k..<Suc k + length xs]"
    by (subst upt_conv_Cons) auto
  then show ?thesis by simp
qed

lemma enumerate_int_eq: "enumerate_int xs = zip (map int [0..<0 + length xs]) xs"
  by (simp add: enumerate_int_def py_range_code)

lemma apply_perm_fold:
  assumes "k + length xs \<le> length acc" and "\<forall>x \<in> set xs. f x = Inr (g x)"
  shows "foldM (\<lambda>acc (idx, x). rbind (f x) (\<lambda>v. py_set acc idx v)) acc
      (zip (map int [k..<k + length xs]) xs) = Inr (take k acc @ map g xs @ drop (k + length xs) acc)"
  using assms
proof (induction xs arbitrary: k acc)
  case Nil
  then show ?case by simp
next
  case (Cons x xs)
  have "take (Suc k) (acc[k := g x]) = take k acc @ [g x]"
    using Cons.prems by (simp add: take_Suc_conv_app_nth)
  then show ?case
    using Cons.IH[of "Suc k" "acc[k := g x]"] Cons.prems
    by (simp only: zip_upt_Cons) simp
qed

lemma apply_perm_eq:
  assumes "length perm = length inp" and "\<forall>x \<in> set perm. 0 \<le> x \<and> x < int (length inp)"
  shows "apply_perm inp perm = Inr (map (\<lambda>x. inp ! nat x) perm)"
  using apply_perm_fold[of 0 perm "replicate (length inp) (-1)" "py_nth inp" "\<lambda>x. inp ! nat x"] assms
  by (simp add: apply_perm_def enumerate_int_eq py_nth_nonneg)

lemma invert_perm_fold:
  assumes "distinct xs" and "\<forall>x \<in> set xs. 0 \<le> x \<and> x < int (length acc)"
  shows "\<exists>r. foldM (\<lambda>acc (idx, x). py_set acc x idx) acc (zip (map int [k..<k + length xs]) xs) = Inr r
    \<and> length r = length acc \<and> (\<forall>i<length xs. r ! nat (xs ! i) = int (k + i))
    \<and> (\<forall>j<length acc. int j \<notin> set xs \<longrightarrow> r ! j = acc ! j)"
  using assms
proof (induction xs arbitrary: k acc)
  case Nil
  then show ?case by simp
next
  case (Cons x xs)
  let ?acc = "acc[nat x := int k]"
  obtain r where r: "foldM (\<lambda>acc (idx, x). py_set acc x idx) ?acc
        (zip (map int [Suc k..<Suc k + length xs]) xs) = Inr r"
      and len: "length r = length acc"
      and inv: "\<forall>i<length xs. r ! nat (xs ! i) = int (Suc k + i)"
      and keep: "\<forall>j<length acc. int j \<notin> set xs \<longrightarrow> r ! j = ?acc ! j"
    using Cons.IH[of ?acc "Suc k"] Cons.prems by auto
  have x: "0 \<le> x" "nat x < length acc" "x \<notin> set xs" using Cons.prems by auto
  then have "r ! nat x = int k" using keep by simp
  then have "\<forall>i<length (x # xs). r ! nat ((x # xs) ! i) = int (k + i)"
    using inv by (auto simp: nth_Cons split: nat.splits)
  moreover have "\<forall>j<length acc. int j \<notin> set (x # xs) \<longrightarrow> r ! j = acc ! j"
    using keep x by auto
  ultimately show ?case
    using r len x by (simp only: zip_upt_Cons) (auto simp: py_set_range)
qed

lemma is_valid_permutation_iff:
  "is_valid_permutation (int n) perm \<longleftrightarrow> length perm = n \<and> distinct perm \<and> set perm = {0..<int n}"
proof
  assume v: "is_valid_permutation (int n) perm"
  then have len: "length perm = n" and card: "card (set perm) = n"
    and sub: "set perm \<subseteq> {0..<int n}"
    by (auto simp: is_valid_permutation_def list_all_iff split: if_splits)
  moreover have "distinct perm" using len card by (simp add: card_distinct)
  moreover have "set perm = {0..<int n}" using sub card by (intro card_subset_eq) auto
  ultimately show "length perm = n \<and> distinct perm \<and> set perm = {0..<int n}" by blast
next
  assume "length perm = n \<and> distinct perm \<and> set perm = {0..<int n}"
  then show "is_valid_permutation (int n) perm"
    by (auto simp: is_valid_permutation_def list_all_iff distinct_card)
qed

lemma invert_perm_correct:
  assumes "is_valid_permutation (int n) perm"
  shows "\<exists>q. invert_perm perm = Inr q \<and> is_valid_permutation (int n) q \<and>
    (\<forall>i<n. q ! nat (perm ! i) = int i) \<and> (\<forall>j<n. perm ! nat (q ! j) = int j)"
proof -
  from assms have len: "length perm = n" and d: "distinct perm" and st: "set perm = {0..<int n}"
    by (auto simp: is_valid_permutation_iff)
  obtain q where q: "invert_perm perm = Inr q" and lq: "length q = n"
    and inv: "\<forall>i<n. q ! nat (perm ! i) = int i"
    using invert_perm_fold[OF d, of "replicate (length perm) (-1)" 0] st len
    by (auto simp: invert_perm_def enumerate_int_eq)
  have inv': "perm ! nat (q ! j) = int j \<and> q ! j \<in> {0..<int n}" if "j < n" for j
  proof -
    have "int j \<in> set perm" using st that by simp
    then obtain i where "i < n" "perm ! i = int j" using len by (auto simp: in_set_conv_nth)
    then show ?thesis using inv by force
  qed
  have "inj_on ((!) q) {..<n}"
    by (rule inj_onI) (metis inv' lessThan_iff of_nat_eq_iff)
  then have dq: "distinct q" using lq by (simp add: distinct_conv_nth inj_on_def) blast
  moreover have "set q \<subseteq> {0..<int n}" using inv' lq by (auto simp: in_set_conv_nth)
  ultimately have "set q = {0..<int n}"
    using lq by (intro card_subset_eq) (auto simp: distinct_card)
  then show ?thesis using q lq dq inv inv' by (auto simp: is_valid_permutation_iff)
qed

text \<open>Permuting and unpermuting. For a valid permutation of the dimensions of a shape,
  \<open>apply_perm\<close> and \<open>invert_perm\<close> succeed, the inverse is a valid permutation again, and applying
  it to the permuted shape gives the shape back.\<close>

theorem apply_invert_perm_roundtrip:
  assumes "is_valid_permutation (int (length inp)) perm"
  shows "\<exists>ys q. apply_perm inp perm = Inr ys \<and> invert_perm perm = Inr q \<and>
    is_valid_permutation (int (length inp)) q \<and> apply_perm ys q = Inr inp"
proof -
  from assms have len: "length perm = length inp" and st: "set perm = {0..<int (length inp)}"
    by (auto simp: is_valid_permutation_iff)
  let ?ys = "map (\<lambda>x. inp ! nat x) perm"
  obtain q where q: "invert_perm perm = Inr q" "is_valid_permutation (int (length inp)) q"
    and inv: "\<forall>j<length inp. perm ! nat (q ! j) = int j"
    using invert_perm_correct[OF assms] by blast
  have lq: "length q = length inp" and sq: "set q = {0..<int (length inp)}"
    using q(2) by (auto simp: is_valid_permutation_iff)
  have "apply_perm ?ys q = Inr (map (\<lambda>x. ?ys ! nat x) q)"
    using lq sq len by (intro apply_perm_eq) auto
  moreover have "map (\<lambda>x. ?ys ! nat x) q = inp"
  proof (rule nth_equalityI)
    fix i assume "i < length (map (\<lambda>x. ?ys ! nat x) q)"
    then have i: "i < length inp" using lq by simp
    then have "q ! i \<in> set q" using lq by simp
    then have "nat (q ! i) < length perm" using sq len by auto
    then show "map (\<lambda>x. ?ys ! nat x) q ! i = inp ! i" using i lq inv by simp
  qed (use lq in simp)
  moreover have "apply_perm inp perm = Inr ?ys" using len st by (intro apply_perm_eq) auto
  ultimately show ?thesis using q by auto
qed

theorem apply_invert_perm_roundtrip_witness:
  "\<exists>ys q. apply_perm [7, 8, 9] [2, 0, 1] = Inr ys \<and> invert_perm [2, 0, 1] = Inr q \<and>
     apply_perm ys q = Inr [7, 8, 9]"
  using apply_invert_perm_roundtrip[of "[7, 8, 9]" "[2, 0, 1]"]
  by (auto simp: is_valid_permutation_def)

lemma mset_insertion_shift:
  "m < length perm \<Longrightarrow> mset (insertion_shift swap key m perm) = mset (perm[m := key])"
proof (induction m arbitrary: perm)
  case 0
  then show ?case by simp
next
  case (Suc m)
  let ?p = "perm[Suc m := key]"
  have "perm[Suc m := perm ! m, m := key] = ?p[Suc m := ?p ! m, m := ?p ! Suc m]"
    using Suc.prems by (simp add: list_update_swap)
  moreover have "mset (?p[Suc m := ?p ! m, m := ?p ! Suc m]) = mset ?p"
    using mset_swap[of m ?p "Suc m"] Suc.prems by simp
  ultimately show ?case using Suc by simp
qed

lemma mset_insertion_passes:
  "\<forall>i \<in> set is. i < length perm \<Longrightarrow> mset (insertion_passes swap is perm) = mset perm"
proof (induction "is" arbitrary: perm)
  case (Cons i "is")
  have m: "mset (insertion_shift swap (perm ! i) i perm) = mset perm"
    using Cons.prems by (simp add: mset_insertion_shift)
  then have "length (insertion_shift swap (perm ! i) i perm) = length perm"
    by (metis size_mset)
  then show ?case using Cons m by simp
qed simp

lemma output_perm_valid:
  "is_valid_permutation (int n) (rev (insertion_passes swap [1..<n] (py_range (int n))))"
proof -
  have m: "mset (insertion_passes swap [1..<n] (py_range (int n))) = mset (py_range (int n))"
    by (rule mset_insertion_passes) simp
  then show ?thesis
    unfolding is_valid_permutation_iff
    by (metis distinct_py_range distinct_rev length_py_range length_rev mset_eq_imp_distinct_iff
        mset_eq_setD nat_int set_py_range set_rev size_mset)
qed

text \<open>Strides laid out contiguously along a permutation of the dimensions.\<close>

definition permuted_strides :: "int list \<Rightarrow> int list \<Rightarrow> int list result" where
  "permuted_strides shape perm =
     rbind (apply_perm shape perm) (\<lambda>permuted_shape.
     rbind (make_contiguous_strides_for permuted_shape True) (\<lambda>new_strides.
     rbind (invert_perm perm) (\<lambda>inv. apply_perm new_strides inv)))"

lemma mset_map_permutation:
  assumes "is_valid_permutation (int n) perm"
  shows "mset (map f perm) = mset (map (\<lambda>i. f (int i)) [0..<n])"
proof -
  have "mset perm = mset (map int [0..<n])"
    using assms unfolding is_valid_permutation_iff
    by (subst set_eq_iff_mset_eq_distinct[symmetric])
      (auto simp: distinct_map image_int_atLeastLessThan)
  then have "image_mset f (mset perm) = image_mset f (mset (map int [0..<n]))" by simp
  then show ?thesis by (simp add: multiset.map_comp comp_def)
qed

lemma permuted_strides_cover:
  assumes "positive shape" and v: "is_valid_permutation (int (length shape)) perm"
  shows "\<exists>strides. permuted_strides shape perm = Inr strides \<and> length strides = length shape \<and>
    covers_once (zip shape strides)"
proof -
  let ?n = "length shape"
  from v have len: "length perm = ?n" and st: "set perm = {0..<int ?n}"
    by (auto simp: is_valid_permutation_iff)
  let ?ps = "map (\<lambda>x. shape ! nat x) perm"
  have pos: "positive ?ps" using assms(1) st by (auto simp: positive_def)
  let ?ns = "contiguous_strides ?ps"
  obtain q where q: "invert_perm perm = Inr q" "is_valid_permutation (int ?n) q"
    and inv: "\<forall>i<?n. q ! nat (perm ! i) = int i"
    using invert_perm_correct[OF v] by blast
  have lq: "length q = ?n" and sq: "set q = {0..<int ?n}"
    using q(2) by (auto simp: is_valid_permutation_iff)
  let ?out = "map (\<lambda>x. ?ns ! nat x) q"
  have "apply_perm shape perm = Inr ?ps" and "apply_perm ?ns q = Inr ?out"
    using len st lq sq by (auto intro!: apply_perm_eq)
  then have res: "permuted_strides shape perm = Inr ?out"
    using q(1) make_contiguous_strides_row_major[OF positive_nonneg[OF pos]]
    by (simp add: permuted_strides_def)
  have "zip ?ps ?ns = map (\<lambda>x. (shape ! nat x, ?out ! nat x)) perm"
  proof (rule nth_equalityI)
    fix i assume "i < length (zip ?ps ?ns)"
    then have i: "i < ?n" using len by simp
    then have "perm ! i \<in> set perm" using len by simp
    then have "nat (perm ! i) < ?n" using st by auto
    then show "zip ?ps ?ns ! i = map (\<lambda>x. (shape ! nat x, ?out ! nat x)) perm ! i"
      using i len lq inv by simp
  qed (use len in simp)
  then have "mset (zip ?ps ?ns) = mset (map (\<lambda>x. (shape ! nat x, ?out ! nat x)) perm)"
    by (simp only:)
  also have "\<dots> = mset (map (\<lambda>i. (shape ! nat (int i), ?out ! nat (int i))) [0..<?n])"
    by (rule mset_map_permutation[OF v])
  also have "map (\<lambda>i. (shape ! nat (int i), ?out ! nat (int i))) [0..<?n] = zip shape ?out"
    using lq by (intro nth_equalityI) auto
  finally have "covers_once (zip shape ?out)"
    using covers_once_mset contiguous_covers_once[OF pos] by blast
  then show ?thesis using res lq by simp
qed

lemma layout_tensors_ArgTensor:
  "\<forall>t \<in> set ts. \<not> is_cpu_scalar_tensor (ArgTensor t) \<Longrightarrow> layout_tensors (map ArgTensor ts) = ts"
  by (induction ts) auto

lemma layout_tensors_not_scalar:
  "t \<in> set (layout_tensors args) \<Longrightarrow> \<not> is_cpu_scalar_tensor (ArgTensor t)"
  by (induction args rule: layout_tensors.induct) (auto split: if_splits)

lemma elementwise_strides_many:
  assumes "layout_tensors args = t # ts" and "ts \<noteq> []" and "2 \<le> t_ndim t"
    and "check_same_shape True args = Inr ()"
  shows "compute_elementwise_output_strides els args = permuted_strides (t_shape t)
    (rev (insertion_passes (should_swap (t # ts)) [1..<t_ndim t] (py_range (int (t_ndim t)))))"
proof -
  have "args \<noteq> []" using assms(1) by auto
  moreover have "t_shape t \<noteq> []" "t_ndim t \<noteq> Suc 0" using assms(3) by auto
  moreover have "layout_tensors (map ArgTensor (t # ts)) = t # ts"
    using layout_tensors_not_scalar[of _ args] assms(1)
    by (intro layout_tensors_ArgTensor) auto
  ultimately show ?thesis
    using assms
    by (simp del: list.map layout_tensors.simps
        add: compute_elementwise_output_strides_def permuted_strides_def
        compute_elementwise_output_logical_to_physical_perm_def Let_def)
qed

text \<open>C35: the output strides of an elementwise operation over several tensors of one shape
  (at least two of them, two or more dimensions, positive sizes) exist and are a dense,
  non-overlapping layout of that shape: the output buffer has exactly one cell per element.\<close>

theorem elementwise_output_strides_dense:
  assumes "layout_tensors args = t # ts" and "ts \<noteq> []" and "2 \<le> t_ndim t"
    and "check_same_shape True args = Inr ()" and "positive (t_shape t)"
  shows "\<exists>strides. compute_elementwise_output_strides els args = Inr strides \<and>
    length strides = t_ndim t \<and>
    sort (addresses (zip (t_shape t) strides)) = py_range (prod_list (t_shape t))"
proof -
  obtain strides where s: "compute_elementwise_output_strides els args = Inr strides"
    and len: "length strides = t_ndim t" and c: "covers_once (zip (t_shape t) strides)"
    using permuted_strides_cover[OF assms(5) output_perm_valid] elementwise_strides_many[OF assms(1-4)]
    by metis
  have "sort (addresses (zip (t_shape t) strides)) = py_range (numel (zip (t_shape t) strides))"
    using c by (metis covers_once_def properties_for_sort py_range_def sorted_upto)
  then show ?thesis using s len by (simp add: numel_def)
qed

definition contiguous_tensor :: "int list \<Rightarrow> tensor_meta" where
  "contiguous_tensor sh = (demo_tensor sh float32)\<lparr>t_stride := contiguous_strides sh\<rparr>"

theorem elementwise_output_strides_dense_witness:
  "\<exists>strides. compute_elementwise_output_strides (\<lambda>_. [])
      [ArgTensor (contiguous_tensor [2, 3]), ArgTensor (contiguous_tensor [2, 3])] = Inr strides \<and>
    sort (addresses (zip [2, 3] strides)) = py_range 6"
proof -
  let ?t = "contiguous_tensor [2, 3]"
  have "layout_tensors [ArgTensor ?t, ArgTensor ?t] = [?t, ?t]"
    "check_same_shape True [ArgTensor ?t, ArgTensor ?t] = Inr ()"
    "t_shape ?t = [2, 3]"
    by (simp_all add: contiguous_tensor_def demo_tensor_def is_cpu_scalar_tensor_def
        check_same_shape_def is_same_shape_def)
  then show ?thesis
    using elementwise_output_strides_dense[of "[ArgTensor ?t, ArgTensor ?t]" ?t "[?t]" "\<lambda>_. []"]
    by (auto simp: positive_def)
qed

text \<open>The elementwise output layout does not preserve contiguity. For two contiguous
  three-dimensional inputs the computed permutation exchanges the two outer dimensions, so the
  output strides differ from the (common) strides of the inputs.\<close>

theorem elementwise_output_strides_swap_outer:
  "compute_elementwise_output_strides els
     [ArgTensor (contiguous_tensor [2, 3, 4]), ArgTensor (contiguous_tensor [2, 3, 4])]
     = Inr [4, 8, 1] \<and>
   t_stride (contiguous_tensor [2, 3, 4]) = [12, 4, 1]"
proof -
  let ?t = "contiguous_tensor [2, 3, 4]"
  have st: "t_stride ?t = [12, 4, 1]"
    by (simp add: contiguous_tensor_def demo_tensor_def contiguous_strides_def)
  have sh: "t_shape ?t = [2, 3, 4]" by (simp add: contiguous_tensor_def demo_tensor_def)
  have p: "py_range 3 = [0, 1, 2]" by (simp add: py_range_def upto_rec1)
  have sw: "should_swap [?t, ?t] 0 1 = 0" "should_swap [?t, ?t] 1 2 = 1"
      "should_swap [?t, ?t] 0 2 = 1"
    by (simp_all add: should_swap_def stride_preference_def st)
  have perm: "rev (insertion_passes (should_swap [?t, ?t]) [1..<3] [0, 1, 2]) = [1, 0, 2]"
    by (simp add: upt_rec sw)
  have "permuted_strides [2, 3, 4] [1, 0, 2] = Inr [4, 8, 1]"
    by (simp add: permuted_strides_def apply_perm_def invert_perm_def enumerate_int_def p
        py_nth_def py_set_def make_contiguous_strides_for_def validate_shape_eq nonneg_def Let_def)
  moreover have "compute_elementwise_output_strides els [ArgTensor ?t, ArgTensor ?t]
      = permuted_strides (t_shape ?t)
          (rev (insertion_passes (should_swap [?t, ?t]) [1..<t_ndim ?t] (py_range (int (t_ndim ?t)))))"
    by (rule elementwise_strides_many)
      (simp_all add: sh is_cpu_scalar_tensor_def check_same_shape_def is_same_shape_def)
  moreover have "t_ndim ?t = 3" "int 3 = 3" using sh by simp_all
  ultimately show ?thesis using st perm by (simp only: sh p simp_thms)
qed

end
