(* ===== verification/IntTuple.thy ===== *)
theory IntTuple
  imports Strided
begin

text \<open>
  Nested integer tuples and the coordinate arithmetic on them,
  \<^verbatim>\<open>src/tensorplay/distributed/_pycute/int_tuple.py\<close>. An \<open>IntTuple\<close> is an integer or a tuple of
  \<open>IntTuple\<close>s; a coordinate may in addition contain \<open>None\<close>. Every assertion of the source is an
  \<open>AssertionError\<close> branch here, and \<open>//\<close> and \<open>%\<close> raise ZeroDivisionError on a zero divisor.
\<close>

datatype int_tuple = I int | T "int_tuple list"

datatype coord = CNone | CI int | CT "coord list"

fun is_int :: "int_tuple \<Rightarrow> bool" where
  "is_int (I _) = True" | "is_int (T _) = False"

definition is_tuple :: "int_tuple \<Rightarrow> bool" where
  "is_tuple x = (\<not> is_int x)"

fun as_tuple :: "int_tuple \<Rightarrow> int_tuple list" where
  "as_tuple (I n) = [I n]" | "as_tuple (T ts) = ts"

fun match_structure :: "int_tuple \<Rightarrow> int_tuple \<Rightarrow> bool" where
  "match_structure (I a) (I b) = True"
| "match_structure (T as) (T bs) =
     (length as = length bs \<and> list_all (\<lambda>(a, b). match_structure a b) (zip as bs))"
| "match_structure _ _ = False"

fun flatten :: "int_tuple \<Rightarrow> int list" where
  "flatten (I n) = [n]"
| "flatten (T ts) = concat (map flatten ts)"

definition signum :: "int \<Rightarrow> int" where
  "signum v = (if v > 0 then 1 else 0) - (if v < 0 then 1 else 0)"

fun product :: "int_tuple \<Rightarrow> int" where
  "product (I n) = n"
| "product (T ts) = foldl (\<lambda>r t. r * product t) 1 ts"

fun inner_product :: "int_tuple \<Rightarrow> int_tuple \<Rightarrow> int result" where
  "inner_product (T as) (T bs) =
     (if length as \<noteq> length bs then Inl AssertionError
      else rbind (traverse (\<lambda>(a, b). inner_product a b) (zip as bs)) (\<lambda>xs. Inr (sum_list xs)))"
| "inner_product (I a) (I b) = Inr (a * b)"
| "inner_product _ _ = Inl AssertionError"

text \<open>Python's \<open>max\<close> over an empty sequence raises ValueError.\<close>

fun py_max :: "int list \<Rightarrow> int result" where
  "py_max [] = Inl ValueError"
| "py_max (x # xs) = Inr (foldl max x xs)"

fun tuple_max :: "int_tuple \<Rightarrow> int result" where
  "tuple_max (I n) = Inr n"
| "tuple_max (T ts) = rbind (traverse tuple_max ts) py_max"

fun elem_scale :: "int_tuple \<Rightarrow> int_tuple \<Rightarrow> int_tuple result" where
  "elem_scale (T as) (T bs) =
     (if length as \<noteq> length bs then Inl AssertionError
      else rbind (traverse (\<lambda>(a, b). elem_scale a b) (zip as bs)) (\<lambda>xs. Inr (T xs)))"
| "elem_scale (T as) (I b) = Inl AssertionError"
| "elem_scale (I a) (T bs) = Inr (I (a * product (T bs)))"
| "elem_scale (I a) (I b) = Inr (I (a * b))"

text \<open>The integer case of \<open>shape_div\<close>: the disjunction evaluates \<open>right % left\<close> only when
  \<open>left % right\<close> is not zero, in which case \<open>left\<close> is not zero either.\<close>

definition shape_div_int :: "int \<Rightarrow> int \<Rightarrow> int result" where
  "shape_div_int left right =
     (if right = 0 then Inl ZeroDivisionError
      else if left mod right = 0 \<or> right mod left = 0 then Inr ((left + right - 1) div right)
      else Inl AssertionError)"

function shape_div :: "int_tuple \<Rightarrow> int_tuple \<Rightarrow> int_tuple result"
  and shape_div_loop :: "int_tuple list \<Rightarrow> int \<Rightarrow> int_tuple list result" where
  "shape_div (T as) (T bs) =
     (if length as \<noteq> length bs then Inl AssertionError
      else rbind (traverse (\<lambda>(a, b). shape_div a b) (zip as bs)) (\<lambda>xs. Inr (T xs)))"
| "shape_div (T as) (I b) = rbind (shape_div_loop as b) (\<lambda>xs. Inr (T xs))"
| "shape_div (I a) (T bs) = rbind (shape_div_int a (product (T bs))) (\<lambda>n. Inr (I n))"
| "shape_div (I a) (I b) = rbind (shape_div_int a b) (\<lambda>n. Inr (I n))"
| "shape_div_loop [] divisor = Inr []"
| "shape_div_loop (item # items) divisor =
     rbind (shape_div item (I divisor)) (\<lambda>x.
     rbind (shape_div_int divisor (product item)) (\<lambda>divisor'.
     rbind (shape_div_loop items divisor') (\<lambda>xs. Inr (x # xs))))"
  by pat_completeness auto
termination
  by (relation "measure (\<lambda>x. case x of Inl (a, b) \<Rightarrow> size a | Inr (as, d) \<Rightarrow> size_list size as)")
    (auto simp: zip_size_left)

text \<open>The right-to-left loop of \<open>suffix_product\<close> returns the strides of the items and the running
  product after the leftmost of them.\<close>

function suffix_product :: "int_tuple \<Rightarrow> int_tuple \<Rightarrow> int_tuple result"
  and suffix_product_loop :: "int_tuple list \<Rightarrow> int \<Rightarrow> (int_tuple list \<times> int) result" where
  "suffix_product (T vs) (T is) =
     (if length vs \<noteq> length is then Inl AssertionError
      else rbind (traverse (\<lambda>(a, b). suffix_product a b) (zip vs is)) (\<lambda>xs. Inr (T xs)))"
| "suffix_product (T vs) (I init) = rbind (suffix_product_loop vs init) (\<lambda>(xs, r). Inr (T xs))"
| "suffix_product (I v) (T is) = Inl AssertionError"
| "suffix_product (I v) (I init) = Inr (I init)"
| "suffix_product_loop [] running = Inr ([], running)"
| "suffix_product_loop (item # items) running =
     rbind (suffix_product_loop items running) (\<lambda>(xs, r).
     rbind (suffix_product item (I r)) (\<lambda>x. Inr (x # xs, r * product item)))"
  by pat_completeness auto
termination
  by (relation "measure (\<lambda>x. case x of Inl (a, b) \<Rightarrow> size a | Inr (as, d) \<Rightarrow> size_list size as)")
    (auto simp: zip_size_left)

text \<open>\<open>idx2crd\<close> once the stride is known; \<open>zip\<close> stops at the shortest of its three arguments.\<close>

fun idx2crd_with :: "int_tuple \<Rightarrow> int_tuple \<Rightarrow> int_tuple \<Rightarrow> int_tuple result" where
  "idx2crd_with (T is) (T ss) (T ds) =
     (if length is \<noteq> length ss then Inl AssertionError
      else rbind (traverse (\<lambda>(i, s, d). idx2crd_with i s d) (zip is (zip ss ds))) (\<lambda>xs. Inr (T xs)))"
| "idx2crd_with (T is) _ _ = Inl AssertionError"
| "idx2crd_with (I i) (T ss) (T ds) =
     (if length ss \<noteq> length ds then Inl AssertionError
      else rbind (traverse (\<lambda>(s, d). idx2crd_with (I i) s d) (zip ss ds)) (\<lambda>xs. Inr (T xs)))"
| "idx2crd_with (I i) (I s) (I d) =
     (if d = 0 \<or> s = 0 then Inl ZeroDivisionError else Inr (I ((i div d) mod s)))"
| "idx2crd_with (I i) _ _ = Inl AssertionError"

definition idx2crd :: "int_tuple \<Rightarrow> int_tuple \<Rightarrow> int_tuple option \<Rightarrow> int_tuple result" where
  "idx2crd idx shape stride =
     rbind (case stride of None \<Rightarrow> suffix_product shape (I 1) | Some d \<Rightarrow> Inr d) (idx2crd_with idx shape)"

text \<open>The integer case of \<open>crd2idx\<close>. The loop over the indices \<open>len(shape) - 1, ..., 1\<close> is
  \<open>crd2idx_tail\<close>: it returns the accumulated index and the remaining coordinate, which the first
  mode takes whole.\<close>

function crd2idx_int :: "int \<Rightarrow> int_tuple \<Rightarrow> int_tuple \<Rightarrow> int result"
  and crd2idx_tail :: "int \<Rightarrow> int_tuple list \<Rightarrow> int_tuple list \<Rightarrow> (int \<times> int) result" where
  "crd2idx_int c (T []) (T []) = Inr 0"
| "crd2idx_int c (T (s # ss)) (T (d # ds)) =
     (if length ss \<noteq> length ds then Inl AssertionError
      else rbind (crd2idx_tail c ss ds) (\<lambda>(res, remaining).
           rbind (crd2idx_int remaining s d) (\<lambda>x. Inr (res + x))))"
| "crd2idx_int c (T []) (T (d # ds)) = Inl AssertionError"
| "crd2idx_int c (T (s # ss)) (T []) = Inl AssertionError"
| "crd2idx_int c (I s) (I d) = Inr (c * d)"
| "crd2idx_int c (I s) (T ds) = Inl AssertionError"
| "crd2idx_int c (T ss) (I d) = Inl AssertionError"
| "crd2idx_tail c (s # ss) (d # ds) =
     rbind (crd2idx_tail c ss ds) (\<lambda>(res, remaining).
     if product s = 0 then Inl ZeroDivisionError
     else rbind (crd2idx_int (remaining mod product s) s d) (\<lambda>x.
          Inr (res + x, remaining div product s)))"
| "crd2idx_tail c [] ds = Inr (0, c)"
| "crd2idx_tail c (s # ss) [] = Inr (0, c)"
  by pat_completeness auto
termination
  by (relation "measure (\<lambda>x. case x of Inl (c, s, d) \<Rightarrow> size s | Inr (c, ss, ds) \<Rightarrow> size_list size ss)")
    auto

fun crd2idx_with :: "coord \<Rightarrow> int_tuple \<Rightarrow> int_tuple \<Rightarrow> int result" where
  "crd2idx_with (CT cs) (T ss) (T ds) =
     (if length cs \<noteq> length ss then Inl AssertionError
      else rbind (traverse (\<lambda>(c, s, d). crd2idx_with c s d) (zip cs (zip ss ds))) (\<lambda>xs. Inr (sum_list xs)))"
| "crd2idx_with (CT cs) _ _ = Inl AssertionError"
| "crd2idx_with CNone shape stride = crd2idx_int 0 shape stride"
| "crd2idx_with (CI c) shape stride = crd2idx_int c shape stride"

definition crd2idx :: "coord \<Rightarrow> int_tuple \<Rightarrow> int_tuple option \<Rightarrow> int result" where
  "crd2idx crd shape stride =
     rbind (case stride of None \<Rightarrow> suffix_product shape (I 1) | Some d \<Rightarrow> Inr d) (crd2idx_with crd shape)"

text \<open>An index tuple read as a coordinate.\<close>

fun coord_of :: "int_tuple \<Rightarrow> coord" where
  "coord_of (I n) = CI n"
| "coord_of (T ts) = CT (map coord_of ts)"

fun crd2crd :: "int_tuple \<Rightarrow> int_tuple \<Rightarrow> int_tuple option \<Rightarrow> int_tuple result" where
  "crd2crd (T cs) (T ss) src =
     (if length cs \<noteq> length ss then Inl AssertionError
      else rbind (traverse (\<lambda>(a, b). crd2crd a b None) (zip cs ss)) (\<lambda>xs. Inr (T xs)))"
| "crd2crd (T cs) (I s) src =
     (case src of None \<Rightarrow> Inl AssertionError
      | Some src_shape \<Rightarrow> rbind (crd2idx (coord_of (T cs)) src_shape None) (\<lambda>n. Inr (I n)))"
| "crd2crd (I c) (T ss) src = idx2crd (I c) (T ss) None"
| "crd2crd (I c) (I s) src = (if c \<ge> s then Inl AssertionError else Inr (I c))"

text \<open>\<open>slice_\<close> always returns a tuple; empty results are skipped, the others spliced.\<close>

fun slice_tuple :: "coord \<Rightarrow> int_tuple \<Rightarrow> int_tuple list result" where
  "slice_tuple (CT cs) (T ts) =
     (if length cs \<noteq> length ts then Inl AssertionError
      else rbind (traverse (\<lambda>(c, v). slice_tuple c v) (zip cs ts))
             (\<lambda>items. Inr (concat (filter (\<lambda>item. item \<noteq> []) items))))"
| "slice_tuple (CT cs) (I n) = Inl AssertionError"
| "slice_tuple CNone target = Inr [target]"
| "slice_tuple (CI c) target = Inr []"

fun has_none :: "coord \<Rightarrow> bool" where
  "has_none (CT cs) = list_ex has_none cs"
| "has_none CNone = True"
| "has_none (CI c) = False"


subsection \<open>Products, congruence and the default strides\<close>

definition positive :: "int_tuple \<Rightarrow> bool" where
  "positive t = list_all (\<lambda>x. 0 < x) (flatten t)"

lemma product_flatten [layout_simps]: "product t = prod_list (flatten t)"
proof (induction t)
  case (I n)
  then show ?case by simp
next
  case (T ts)
  have "foldl (\<lambda>r t. r * product t) a ts = a * prod_list (concat (map flatten ts))" for a
    using T.IH by (induction ts arbitrary: a) (auto simp: prod_list_append_int)
  then show ?case by simp
qed

lemma positive_T [layout_simps]: "positive (T ts) \<longleftrightarrow> (\<forall>t \<in> set ts. positive t)"
  by (auto simp: positive_def list_all_iff)

lemma positive_I [layout_simps]: "positive (I n) \<longleftrightarrow> 0 < n"
  by (simp add: positive_def)

lemma positive_product: "positive t \<Longrightarrow> 0 < product t"
  by (auto simp: positive_def product_flatten list_all_iff intro: prod_list_pos)

lemma positive_concat: "\<forall>s \<in> set ss. positive s \<Longrightarrow> 0 < prod_list (concat (map flatten ss))"
  by (rule prod_list_pos) (auto simp: positive_def list_all_iff)

lemma match_structure_T [layout_simps]:
  "match_structure (T as) (T bs) \<longleftrightarrow> list_all2 match_structure as bs"
  by (auto simp: list_all2_iff list_all_iff)

lemma match_structure_I [simp]: "match_structure (I a) b \<longleftrightarrow> (\<exists>n. b = I n)"
  by (cases b) auto

lemma match_structure_TE:
  assumes "match_structure (T as) b"
  obtains bs where "b = T bs" "list_all2 match_structure as bs"
  using assms by (cases b) (auto simp: list_all2_iff list_all_iff)

lemma match_structure_flatten: "match_structure a b \<Longrightarrow> length (flatten a) = length (flatten b)"
proof (induction a arbitrary: b)
  case (I n)
  then show ?case by auto
next
  case (T as)
  from T.prems obtain bs where b: "b = T bs" and all: "list_all2 match_structure as bs"
    by (rule match_structure_TE)
  from all have "length (concat (map flatten as)) = length (concat (map flatten bs))"
    using T.IH by (induction) auto
  then show ?case by (simp add: b)
qed

lemma match_structure_concat:
  "list_all2 match_structure as bs \<Longrightarrow>
   length (concat (map flatten as)) = length (concat (map flatten bs))"
  by (induction rule: list_all2_induct) (auto dest: match_structure_flatten)

text \<open>The right-to-left running products that \<open>suffix_product\<close> computes, on flat lists.\<close>

fun suffixes :: "int list \<Rightarrow> int \<Rightarrow> int list" where
  "suffixes [] r = []"
| "suffixes (x # xs) r = prod_list xs * r # suffixes xs r"

lemma length_suffixes [simp]: "length (suffixes xs r) = length xs"
  by (induction xs) auto

lemma suffixes_append: "suffixes (xs @ ys) r = suffixes xs (prod_list ys * r) @ suffixes ys r"
  by (induction xs) (auto simp: prod_list_append_int algebra_simps)

lemma suffix_product_total:
  "\<exists>d. suffix_product t (I r) = Inr d \<and> match_structure t d \<and> flatten d = suffixes (flatten t) r"
proof (induction t arbitrary: r)
  case (I n)
  then show ?case by simp
next
  case (T ts)
  have "\<exists>ds. suffix_product_loop ts r = Inr (ds, prod_list (concat (map flatten ts)) * r) \<and>
    list_all2 match_structure ts ds \<and> concat (map flatten ds) = suffixes (concat (map flatten ts)) r"
    using T.IH
  proof (induction ts)
    case Nil
    then show ?case by simp
  next
    case (Cons t ts)
    then obtain ds where ds: "suffix_product_loop ts r = Inr (ds, prod_list (concat (map flatten ts)) * r)"
        "list_all2 match_structure ts ds" "concat (map flatten ds) = suffixes (concat (map flatten ts)) r"
      by fastforce
    obtain d where "suffix_product t (I (prod_list (concat (map flatten ts)) * r)) = Inr d"
        "match_structure t d" "flatten d = suffixes (flatten t) (prod_list (concat (map flatten ts)) * r)"
      using Cons.prems[of t] by auto
    then show ?case using ds
      by (auto simp: suffixes_append product_flatten prod_list_append_int algebra_simps)
  qed
  then show ?case by (auto simp: match_structure_T simp del: match_structure.simps)
qed

subsection \<open>The index function of a nested shape\<close>

text \<open>The index of an integer coordinate on flat modes, the fastest mode first.\<close>

fun linm :: "(int \<times> int) list \<Rightarrow> int \<Rightarrow> int" where
  "linm [] c = 0"
| "linm ((s, d) # ps) c = (c mod s) * d + linm ps (c div s)"

definition modes :: "int_tuple \<Rightarrow> int_tuple \<Rightarrow> (int \<times> int) list" where
  "modes shape stride = rev (zip (flatten shape) (flatten stride))"

definition modes_list :: "int_tuple list \<Rightarrow> int_tuple list \<Rightarrow> (int \<times> int) list" where
  "modes_list ss ds = rev (zip (concat (map flatten ss)) (concat (map flatten ds)))"

lemma modes_T [layout_simps]: "modes (T ss) (T ds) = modes_list ss ds"
  by (simp add: modes_def modes_list_def)

lemma modes_I [layout_simps]: "modes (I s) (I d) = [(s, d)]"
  by (simp add: modes_def)

lemma modes_list_Nil [layout_simps]: "modes_list [] ds = []"
  by (simp add: modes_list_def)

lemma modes_list_Cons [layout_simps]:
  "match_structure s d \<Longrightarrow> modes_list (s # ss) (d # ds) = modes_list ss ds @ modes s d"
  by (simp add: modes_list_def modes_def match_structure_flatten)

lemma linm_append:
  assumes "\<forall>(s, d) \<in> set ps. 0 < s"
  shows "linm (ps @ qs) c = linm ps c + linm qs (c div prod_list (map fst ps))"
  using assms
proof (induction ps arbitrary: c)
  case Nil
  then show ?case by simp
next
  case (Cons p ps)
  then show ?case
    by (cases p) (auto simp: zdiv_zmult2_eq prod_list_nonneg less_imp_le prod_list_pos split_beta)
qed

lemma modes_prod_pos: "\<forall>(s, d) \<in> set ps. (0::int) < s \<Longrightarrow> 0 < prod_list (map fst ps)"
  by (rule prod_list_pos) auto

lemma linm_mod:
  assumes "\<forall>(s, d) \<in> set ps. 0 < s"
  shows "linm ps (c mod prod_list (map fst ps)) = linm ps c"
  using assms
proof (induction ps arbitrary: c)
  case Nil
  then show ?case by simp
next
  case (Cons p ps)
  obtain s d where p: "p = (s, d)" by (cases p)
  let ?P = "prod_list (map fst ps)"
  have pos: "0 < s" "0 < ?P" using Cons.prems p by (fastforce intro!: prod_list_pos)+
  have "c mod (s * ?P) = s * (c div s mod ?P) + c mod s"
    using pos by (simp add: zmod_zmult2_eq)
  then have "c mod (s * ?P) mod s = c mod s" "c mod (s * ?P) div s = c div s mod ?P"
    using pos by (auto simp: )
  moreover have "linm ps (c div s mod ?P) = linm ps (c div s)"
    by (rule Cons.IH) (use Cons.prems in auto)
  ultimately show ?case by (simp add: p)
qed

lemma modes_list_fst:
  "list_all2 match_structure ss ds \<Longrightarrow>
   prod_list (map fst (modes_list ss ds)) = prod_list (concat (map flatten ss))"
  by (simp add: modes_list_def rev_map[symmetric] prod_list_rev_int match_structure_concat)

lemma modes_fst: "match_structure s d \<Longrightarrow> prod_list (map fst (modes s d)) = product s"
  by (simp add: modes_def rev_map[symmetric] prod_list_rev_int match_structure_flatten product_flatten)

lemma modes_list_pos:
  "\<forall>s \<in> set ss. positive s \<Longrightarrow> \<forall>(s, d) \<in> set (modes_list ss ds). 0 < s"
  by (auto simp: modes_list_def positive_def list_all_iff dest!: set_zip_leftD)

lemma modes_pos: "positive s \<Longrightarrow> \<forall>(s, d) \<in> set (modes s d). 0 < s"
  by (auto simp: modes_def positive_def list_all_iff dest!: set_zip_leftD)

lemma crd2idx_int_linm:
  "match_structure shape stride \<Longrightarrow> positive shape \<Longrightarrow> 0 \<le> c \<Longrightarrow> c < product shape \<Longrightarrow>
   crd2idx_int c shape stride = Inr (linm (modes shape stride) c)"
  and crd2idx_tail_linm:
  "list_all2 match_structure ss ds \<Longrightarrow> \<forall>s \<in> set ss. positive s \<Longrightarrow>
   crd2idx_tail c' ss ds = Inr (linm (modes_list ss ds) c', c' div prod_list (concat (map flatten ss)))"
proof (induction c shape stride and c' ss ds rule: crd2idx_int_crd2idx_tail.induct)
  case (2 c s ss d ds)
  let ?P = "prod_list (concat (map flatten ss))"
  have m: "match_structure s d" "list_all2 match_structure ss ds"
    using "2.prems"(1) by (auto simp: match_structure_T simp del: match_structure.simps)
  have p: "positive s" "\<forall>s \<in> set ss. positive s" using "2.prems"(2) by (auto simp: positive_T)
  have len: "length ss = length ds" using m(2) by (rule list_all2_lengthD)
  have tail: "crd2idx_tail c ss ds = Inr (linm (modes_list ss ds) c, c div ?P)"
    using "2.IH"(1) len m p by simp
  have P: "0 < ?P" using p(2) by (rule positive_concat)
  have "c div ?P < product s"
    using "2.prems"(4) P by (intro int_div_less) (auto simp: product_flatten prod_list_append_int mult.commute)
  then have "crd2idx_int (c div ?P) s d = Inr (linm (modes s d) (c div ?P))"
    using "2.IH"(2) len tail m(1) p(1) "2.prems"(3) P by (simp add: pos_imp_zdiv_nonneg_iff)
  then show ?case using len tail m
    by (simp add: modes_T modes_list_Cons linm_append[OF modes_list_pos[OF p(2)]] modes_list_fst)
next
  case (8 c s ss d ds)
  let ?P = "prod_list (concat (map flatten ss))"
  have m: "match_structure s d" "list_all2 match_structure ss ds" using "8.prems"(1) by auto
  have p: "positive s" "\<forall>s \<in> set ss. positive s" using "8.prems"(2) by auto
  have tail: "crd2idx_tail c ss ds = Inr (linm (modes_list ss ds) c, c div ?P)"
    using "8.IH"(1) m p by simp
  have P: "0 < product s" using p(1) by (rule positive_product)
  have "crd2idx_int (c div ?P mod product s) s d = Inr (linm (modes s d) (c div ?P mod product s))"
    using "8.IH"(2)[OF tail refl] P m(1) p(1) by simp
  also have "linm (modes s d) (c div ?P mod product s) = linm (modes s d) (c div ?P)"
    using linm_mod[OF modes_pos[OF p(1)], of d] by (simp add: modes_fst[OF m(1)])
  finally have leaf: "crd2idx_int (c div ?P mod product s) s d = Inr (linm (modes s d) (c div ?P))" .
  have "c div (product s * ?P) = c div ?P div product s"
    by (subst mult.commute) (rule zdiv_zmult2_eq[OF less_imp_le[OF P]])
  then have "c div ?P div product s = c div prod_list (concat (map flatten (s # ss)))"
    by (simp add: prod_list_append_int product_flatten)
  moreover have "crd2idx_tail c (s # ss) (d # ds) =
      Inr (linm (modes_list ss ds) c + linm (modes s d) (c div ?P), c div ?P div product s)"
    using tail leaf P by simp
  ultimately show ?case
    by (simp only: modes_list_Cons[OF m(1)] linm_append[OF modes_list_pos[OF p(2)]] modes_list_fst[OF m(2)])
qed (auto simp: modes_T modes_I modes_list_Nil)


text \<open>With the default strides the index function is the identity, leaf by leaf.\<close>

lemma linm_suffixes:
  assumes "\<forall>x \<in> set xs. 0 < x" and "0 \<le> c" and "c < prod_list xs"
  shows "linm (rev (zip xs (suffixes xs r))) c = c * r"
  using assms
proof (induction xs arbitrary: c)
  case Nil
  then show ?case by simp
next
  case (Cons x xs)
  let ?P = "prod_list xs"
  let ?ps = "rev (zip xs (suffixes xs r))"
  have P: "0 < ?P" using Cons.prems(1) by (auto intro: prod_list_pos)
  have pos: "\<forall>(s, d) \<in> set ?ps. 0 < s" using Cons.prems(1) by (auto dest!: set_zip_leftD)
  have fst: "prod_list (map fst ?ps) = ?P" by (simp add: rev_map[symmetric] prod_list_rev_int)
  have "linm ?ps c = linm ?ps (c mod ?P)" using linm_mod[OF pos] fst by metis
  also have "\<dots> = (c mod ?P) * r" using Cons P by simp
  finally have 1: "linm ?ps c = (c mod ?P) * r" .
  have "c div ?P < x" using Cons.prems(3) P by (intro int_div_less) (auto simp: mult.commute)
  moreover have "0 \<le> c div ?P" using Cons.prems(2) P by (simp add: pos_imp_zdiv_nonneg_iff)
  ultimately have "linm (rev (zip (x # xs) (suffixes (x # xs) r))) c = (c mod ?P) * r + (c div ?P) * (?P * r)"
    by (simp add: linm_append[OF pos] fst 1)
  also have "\<dots> = (c mod ?P + ?P * (c div ?P)) * r" by (simp only: distrib_right mult.assoc mult.left_commute)
  also have "c mod ?P + ?P * (c div ?P) = c" by simp
  finally show ?case .
qed

lemma idx2crd_with_leaves:
  assumes "match_structure shape stride" and "positive shape" and "positive stride"
  shows "\<exists>x. idx2crd_with (I i) shape stride = Inr x \<and> match_structure shape x \<and>
    flatten x = map2 (\<lambda>s d. (i div d) mod s) (flatten shape) (flatten stride)"
  using assms
proof (induction shape arbitrary: stride)
  case (I n)
  then show ?case by (auto simp: positive_I)
next
  case (T ss)
  from T.prems(1) obtain ds where b: "stride = T ds" and all: "list_all2 match_structure ss ds"
    by (rule match_structure_TE)
  from all T.prems(2,3) T.IH
  have "\<exists>xs. traverse (\<lambda>(s, d). idx2crd_with (I i) s d) (zip ss ds) = Inr xs \<and>
    list_all2 match_structure ss xs \<and> concat (map flatten xs) =
      map2 (\<lambda>s d. (i div d) mod s) (concat (map flatten ss)) (concat (map flatten ds))"
    unfolding b
  proof (induction rule: list_all2_induct)
    case Nil
    then show ?case by simp
  next
    case (Cons s ss d ds)
    obtain x where "idx2crd_with (I i) s d = Inr x" "match_structure s x"
        "flatten x = map2 (\<lambda>s d. (i div d) mod s) (flatten s) (flatten d)"
      using Cons.prems Cons.hyps(1) by (force simp: positive_T)
    moreover obtain xs where "traverse (\<lambda>(s, d). idx2crd_with (I i) s d) (zip ss ds) = Inr xs"
        "list_all2 match_structure ss xs" "concat (map flatten xs) =
          map2 (\<lambda>s d. (i div d) mod s) (concat (map flatten ss)) (concat (map flatten ds))"
      using Cons.IH Cons.prems by (force simp: positive_T)
    ultimately show ?case
      by (intro exI[of _ "x # xs"]) (simp add: match_structure_flatten[OF Cons.hyps(1)])
  qed
  then show ?case using list_all2_lengthD[OF all]
    by (auto simp: b match_structure_T simp del: match_structure.simps)
qed

lemma crd2idx_with_leaves:
  assumes "match_structure shape x" and "match_structure shape stride"
  shows "crd2idx_with (coord_of x) shape stride = Inr (sum_list (map2 (*) (flatten x) (flatten stride)))"
  using assms
proof (induction shape arbitrary: x stride)
  case (I n)
  then show ?case by auto
next
  case (T ss)
  from T.prems(1) obtain xs where x: "x = T xs" and ax: "list_all2 match_structure ss xs"
    by (rule match_structure_TE)
  from T.prems(2) obtain ds where d: "stride = T ds" and ad: "list_all2 match_structure ss ds"
    by (rule match_structure_TE)
  have "\<exists>ys. traverse (\<lambda>(c, s, d). crd2idx_with c s d) (zip (map coord_of xs) (zip ss ds)) = Inr ys \<and>
      sum_list ys = sum_list (map2 (*) (concat (map flatten xs)) (concat (map flatten ds)))"
    using ax ad T.IH
  proof (induction ss arbitrary: xs ds)
    case Nil
    then show ?case by simp
  next
    case (Cons s ss)
    then obtain y xs' e ds' where xs: "xs = y # xs'" "match_structure s y" "list_all2 match_structure ss xs'"
        and ds: "ds = e # ds'" "match_structure s e" "list_all2 match_structure ss ds'"
      by (auto simp: list_all2_Cons1)
    have h: "crd2idx_with (coord_of y) s e = Inr (sum_list (map2 (*) (flatten y) (flatten e)))"
      using Cons.prems(3)[of s] xs ds by simp
    obtain ys where ys: "traverse (\<lambda>(c, s, d). crd2idx_with c s d) (zip (map coord_of xs') (zip ss ds')) = Inr ys"
      "sum_list ys = sum_list (map2 (*) (concat (map flatten xs')) (concat (map flatten ds')))"
      using Cons.IH[OF xs(3) ds(3)] Cons.prems(3) by auto
    have "length (flatten y) = length (flatten e)"
      using match_structure_flatten[OF xs(2)] match_structure_flatten[OF ds(2)] by simp
    then show ?case using xs ds h ys by simp
  qed
  then show ?case using list_all2_lengthD[OF ax] by (auto simp: x d)
qed

lemma sum_map2_suffixes:
  assumes "\<forall>x \<in> set xs. 0 < x" and "0 < r"
  shows "sum_list (map2 (*) (map2 (\<lambda>s d. (i div d) mod s) xs (suffixes xs r)) (suffixes xs r)) =
    r * ((i div r) mod prod_list xs)"
  using assms
proof (induction xs)
  case Nil
  then show ?case by simp
next
  case (Cons x xs)
  let ?P = "prod_list xs"
  have P: "0 < ?P" using Cons.prems(1) by (auto intro: prod_list_pos)
  have "i div (?P * r) = i div r div ?P" using P Cons.prems(2)
    by (metis mult.commute zdiv_zmult2_eq less_imp_le)
  then have "(i div (?P * r)) mod x * (?P * r) + r * ((i div r) mod ?P) =
      r * (?P * ((i div r div ?P) mod x) + (i div r) mod ?P)" by (simp add: algebra_simps)
  also have "\<dots> = r * ((i div r) mod (?P * x))"
    using Cons.prems(1) by (simp add: zmod_zmult2_eq)
  finally show ?case using Cons by (simp add: mult.commute)
qed

text \<open>for a nested shape of positive extents and an index below its size, \<open>idx2crd\<close> with the
  default strides returns a coordinate of the structure of the shape, and \<open>crd2idx\<close> maps both that
  coordinate and the index itself, taken as a coordinate, back to the index.\<close>

theorem idx2crd_crd2idx_roundtrip:
  assumes "positive shape" and "0 \<le> i" and "i < product shape"
  shows "\<exists>x. idx2crd (I i) shape None = Inr x \<and> match_structure shape x \<and>
    crd2idx (coord_of x) shape None = Inr i \<and> crd2idx (CI i) shape None = Inr i"
proof -
  obtain d where d: "suffix_product shape (I 1) = Inr d" "match_structure shape d"
      "flatten d = suffixes (flatten shape) 1" using suffix_product_total by blast
  have pos: "\<forall>x \<in> set (flatten shape). 0 < x" using assms(1) by (simp add: positive_def list_all_iff)
  have "\<forall>x \<in> set (suffixes xs 1). 0 < x" if "\<forall>x \<in> set xs. 0 < x" for xs
    using that by (induction xs) (auto intro: prod_list_pos)
  then have "positive d" using pos d(3) by (simp add: positive_def list_all_iff)
  then obtain x where x: "idx2crd_with (I i) shape d = Inr x" "match_structure shape x"
      "flatten x = map2 (\<lambda>s d. (i div d) mod s) (flatten shape) (flatten d)"
    using idx2crd_with_leaves[OF d(2) assms(1)] by blast
  have "crd2idx_with (coord_of x) shape d = Inr i"
    using crd2idx_with_leaves[OF x(2) d(2)] sum_map2_suffixes[OF pos, of 1 i] assms(2,3)
    by (simp add: x(3) d(3) product_flatten)
  moreover have "crd2idx_int i shape d = Inr i"
    using crd2idx_int_linm[OF d(2) assms] linm_suffixes[OF pos assms(2), of 1] assms(3)
    by (simp add: modes_def d(3) product_flatten)
  ultimately show ?thesis using d x by (auto simp: idx2crd_def crd2idx_def)
qed

theorem idx2crd_crd2idx_roundtrip_witness:
  "\<exists>x. idx2crd (I 17) (T [I 3, T [I 2, I 4]]) None = Inr x \<and>
    match_structure (T [I 3, T [I 2, I 4]]) x \<and>
    crd2idx (coord_of x) (T [I 3, T [I 2, I 4]]) None = Inr 17 \<and>
    crd2idx (CI 17) (T [I 3, T [I 2, I 4]]) None = Inr 17"
  by (rule idx2crd_crd2idx_roundtrip) (simp_all add: positive_def)

end
