(* ===== verification/CuteLayout.thy ===== *)
theory CuteLayout
  imports IntTuple "HOL-Library.Product_Lexorder"
begin

text \<open>
  Layouts, functions from coordinates to indices given by a nested shape and a congruent nested
  stride, and their algebra, \<^verbatim>\<open>src/tensorplay/distributed/_pycute/layout.py\<close>. The arguments that
  the code dispatches on dynamically (\<open>None\<close>, an integer, a tuple, a layout) are the datatype
  \<open>layout_input\<close>. A layout whose shape is an integer and whose stride is a tuple is outside the
  domain of the code (tuples are multiplied by integers there); the model raises TypeError.
\<close>

record layout =
  l_shape :: int_tuple
  l_stride :: int_tuple

datatype layout_input = LNone | LInt int | LTuple "layout_input list" | LLayout layout

datatype call_result = CallLayout layout | CallIndex int

definition mk_layout :: "int_tuple \<Rightarrow> int_tuple \<Rightarrow> layout" where
  "mk_layout shape stride = \<lparr>l_shape = shape, l_stride = stride\<rparr>"

text \<open>\<open>Layout(shape)\<close> and \<open>Layout(shape, stride)\<close>.\<close>

definition layout_init :: "int_tuple \<Rightarrow> int_tuple option \<Rightarrow> layout result" where
  "layout_init shape stride =
     (case stride of
        None \<Rightarrow> rbind (suffix_product shape (I 1)) (\<lambda>d. Inr (mk_layout shape d))
      | Some d \<Rightarrow> Inr (mk_layout shape d))"

definition layout_eq :: "layout \<Rightarrow> layout \<Rightarrow> bool" where
  "layout_eq l m \<longleftrightarrow> (l_shape l, l_stride l) = (l_shape m, l_stride m)"

fun layout_len :: "layout \<Rightarrow> nat" where
  "layout_len l = (case l_shape l of T ss \<Rightarrow> length ss | I _ \<Rightarrow> 1)"

definition layout_call :: "layout \<Rightarrow> coord list \<Rightarrow> call_result result" where
  "layout_call l args =
     (let arg = (if length args = 1 then hd args else CT args) in
      if has_none (CT args)
      then rbind (slice_tuple arg (l_shape l)) (\<lambda>ss.
           rbind (slice_tuple arg (l_stride l)) (\<lambda>ds.
           Inr (CallLayout (mk_layout (T ss) (T ds)))))
      else rbind (crd2idx arg (l_shape l) (Some (l_stride l))) (\<lambda>n. Inr (CallIndex n)))"

text \<open>A call with one integer coordinate.\<close>

definition layout_at :: "layout \<Rightarrow> int \<Rightarrow> int result" where
  "layout_at l c = crd2idx (CI c) (l_shape l) (Some (l_stride l))"

definition layout_getitem :: "layout \<Rightarrow> int \<Rightarrow> layout result" where
  "layout_getitem l index =
     (case l_shape l of
        T ss \<Rightarrow> rbind (py_nth ss index) (\<lambda>s.
               case l_stride l of
                 T ds \<Rightarrow> rbind (py_nth ds index) (\<lambda>d. Inr (mk_layout s d))
               | I _ \<Rightarrow> Inl TypeError)
      | I _ \<Rightarrow> if index \<noteq> 0 then Inl AssertionError else Inr l)"

definition layout_size :: "layout \<Rightarrow> int" where
  "layout_size l = product (l_shape l)"

definition layout_cosize :: "layout \<Rightarrow> int result" where
  "layout_cosize l = rbind (layout_at l (layout_size l - 1)) (\<lambda>n. Inr (n + 1))"

text \<open>\<open>make_layout\<close>: transposing no layouts at all leaves nothing to unpack, a ValueError.\<close>

definition make_layout :: "layout list \<Rightarrow> layout result" where
  "make_layout ls =
     (if ls = [] then Inl ValueError
      else Inr (mk_layout (T (map l_shape ls)) (T (map l_stride ls))))"

text \<open>The layouts \<open>layout[n], ..., layout[len(layout) - 1]\<close> that a by-mode operation keeps.\<close>

definition rest_modes :: "layout \<Rightarrow> nat \<Rightarrow> layout list result" where
  "rest_modes l n = traverse (\<lambda>i. layout_getitem l (int i)) [n..<layout_len l]"

text \<open>The by-mode case shared by \<open>coalesce\<close>, \<open>filter\<close>, \<open>composition\<close>, \<open>logical_divide\<close> and
  \<open>logical_product\<close>: \<open>op\<close> on the leading modes, paired with the entries of the tuple.\<close>

definition by_mode :: "(layout \<Rightarrow> layout_input \<Rightarrow> layout result) \<Rightarrow> layout \<Rightarrow> layout_input list \<Rightarrow> layout result" where
  "by_mode op l ps =
     (if layout_len l < length ps then Inl AssertionError
      else rbind (traverse (\<lambda>(i, p). rbind (layout_getitem l (int i)) (\<lambda>x. op x p)) (enumerate 0 ps)) (\<lambda>xs.
           rbind (rest_modes l (length ps)) (\<lambda>ys. make_layout (xs @ ys))))"

lemma by_mode_cong [fundef_cong]:
  assumes "l = l'" and "ps = ps'" and "\<And>x p. p \<in> set ps' \<Longrightarrow> op x p = op' x p"
  shows "by_mode op l ps = by_mode op' l' ps'"
proof -
  have "traverse (\<lambda>(i, p). rbind (layout_getitem l (int i)) (\<lambda>x. op x p)) (enumerate 0 ps) =
        traverse (\<lambda>(i, p). rbind (layout_getitem l (int i)) (\<lambda>x. op' x p)) (enumerate 0 ps)"
    using assms(2,3) by (intro traverse_cong refl rbind_cong)
      (auto simp: in_set_enumerate_eq split: prod.splits intro!: rbind_cong)
  then show ?thesis using assms(1,2) by (simp add: by_mode_def)
qed

lemma enumerate_size [termination_simp]:
  "(i, x) \<in> set (enumerate n xs) \<Longrightarrow> size x < Suc (size_list size xs)"
proof -
  assume "(i, x) \<in> set (enumerate n xs)"
  then have "x \<in> set xs" by (metis enumerate_eq_zip set_zip_rightD)
  then show ?thesis by (simp add: less_Suc_eq_le size_list_estimation')
qed

text \<open>The loop of \<open>coalesce\<close>: the accumulator is the pair of lists \<open>result_shape\<close>,
  \<open>result_stride\<close> with the last entry first.\<close>

fun coalesce_step :: "(int \<times> int) list \<Rightarrow> int \<times> int \<Rightarrow> (int \<times> int) list" where
  "coalesce_step [] p = [p]"
| "coalesce_step ((s, d) # acc) (shape, stride) =
     (if shape = 1 then (s, d) # acc
      else if s = 1 then (shape, stride) # acc
      else if s * d = stride then (s * shape, d) # acc
      else (shape, stride) # (s, d) # acc)"

definition coalesce_modes :: "int_tuple \<Rightarrow> int_tuple \<Rightarrow> (int \<times> int) list" where
  "coalesce_modes shape stride =
     foldl coalesce_step [(1, 0)] (zip (rev (flatten shape)) (rev (flatten stride)))"

text \<open>A list of modes as a layout: a single mode is not wrapped in a tuple.\<close>

fun layout_of_modes :: "(int \<times> int) list \<Rightarrow> layout" where
  "layout_of_modes [(s, d)] = mk_layout (I s) (I d)"
| "layout_of_modes ps = mk_layout (T (map (\<lambda>(s, d). I s) ps)) (T (map (\<lambda>(s, d). I d) ps))"

definition coalesce_flat :: "layout \<Rightarrow> layout" where
  "coalesce_flat l = layout_of_modes (coalesce_modes (l_shape l) (l_stride l))"

fun coalesce :: "layout \<Rightarrow> layout_input \<Rightarrow> layout result" where
  "coalesce l (LTuple ps) = by_mode (\<lambda>x p. coalesce x p) l ps"
| "coalesce l _ = Inr (coalesce_flat l)"

definition filter_flat :: "layout \<Rightarrow> layout" where
  "filter_flat l =
     (let ps = filter (\<lambda>(shape, stride). shape \<noteq> 1 \<and> stride \<noteq> 0) (zip (flatten (l_shape l)) (flatten (l_stride l)))
      in if ps = [] then mk_layout (I 1) (I 0)
         else coalesce_flat (mk_layout (T (map (\<lambda>(s, d). I s) ps)) (T (map (\<lambda>(s, d). I d) ps))))"

fun layout_filter :: "layout \<Rightarrow> layout_input \<Rightarrow> layout result" where
  "layout_filter l (LTuple ps) = by_mode (\<lambda>x p. layout_filter x p) l ps"
| "layout_filter l _ = Inr (filter_flat l)"

text \<open>The loop of \<open>composition\<close> over the modes of the coalesced first layout, fastest first, all but
  the slowest. It returns the modes of the result, fastest first, with the final \<open>rest_shape\<close> and
  \<open>rest_stride\<close>.\<close>

fun composition_loop :: "(int \<times> int) list \<Rightarrow> int \<Rightarrow> int \<Rightarrow> ((int \<times> int) list \<times> int \<times> int) result" where
  "composition_loop [] rest_shape rest_stride = Inr ([], rest_shape, rest_stride)"
| "composition_loop ((current_shape, current_stride) # ps) rest_shape rest_stride =
     (if rest_stride = 0 then Inl ZeroDivisionError
      else if \<not> (current_shape mod rest_stride = 0 \<or> rest_stride mod current_shape = 0) then Inl AssertionError
      else let new_shape = min (max 1 (current_shape div rest_stride)) rest_shape in
        if new_shape = 0 \<or> current_shape = 0 then Inl ZeroDivisionError
        else rbind (composition_loop ps (rest_shape div new_shape) (- (- rest_stride div current_shape)))
          (\<lambda>(modes, rs, rd).
             Inr ((if new_shape \<noteq> 1 then [(new_shape, rest_stride * current_stride)] else []) @ modes, rs, rd)))"

text \<open>\<open>composition\<close> with a second layout \<open>shape:stride\<close> of integers.\<close>

definition composition_leaf :: "layout \<Rightarrow> int \<Rightarrow> int \<Rightarrow> layout result" where
  "composition_leaf a shape stride =
     (if stride = 0 then Inr (mk_layout (I shape) (I 0))
      else let flat_a = coalesce_flat a;
               flat_shapes = flatten (l_shape flat_a);
               flat_strides = flatten (l_stride flat_a)
           in rbind (composition_loop (zip (rev (tl flat_shapes)) (rev (tl flat_strides))) shape stride)
                (\<lambda>(modes, rest_shape, rest_stride).
                   if rest_shape \<noteq> 1 \<or> modes = []
                   then rbind (py_nth flat_strides 0) (\<lambda>d0.
                        Inr (layout_of_modes (rev (modes @ [(rest_shape, rest_stride * d0)]))))
                   else Inr (layout_of_modes (rev modes))))"

text \<open>\<open>composition\<close> with a layout: a tuple shape is iterated with \<open>__getitem__\<close>, which ends at the
  first index out of range of the shape or the stride.\<close>

fun composition_layout :: "layout \<Rightarrow> int_tuple \<Rightarrow> int_tuple \<Rightarrow> layout result" where
  "composition_layout a (T ss) (T ds) =
     rbind (traverse (\<lambda>(s, d). composition_layout a s d) (zip ss ds)) make_layout"
| "composition_layout a (T []) (I d) = Inl ValueError"
| "composition_layout a (T (s # ss)) (I d) = Inl TypeError"
| "composition_layout a (I s) (I d) = composition_leaf a s d"
| "composition_layout a (I s) (T ds) = Inl TypeError"

fun composition :: "layout \<Rightarrow> layout_input \<Rightarrow> layout result" where
  "composition a LNone = Inr a"
| "composition a (LInt n) = rbind (layout_init (I n) None) (\<lambda>b. composition_layout a (l_shape b) (l_stride b))"
| "composition a (LTuple bs) = by_mode (\<lambda>x b. composition x b) a bs"
| "composition a (LLayout b) = composition_layout a (l_shape b) (l_stride b)"

text \<open>The loop of \<open>complement\<close>; \<open>current\<close> starts at 1 and only grows, so the division is safe. The
  modes are accumulated slowest first, the order after the final reversal.\<close>

definition complement_step :: "(int \<times> int) list \<times> int \<Rightarrow> int \<times> int \<Rightarrow> ((int \<times> int) list \<times> int) result" where
  "complement_step st p =
     (case st of (acc, current) \<Rightarrow> case p of (stride, shape) \<Rightarrow>
        if stride = 0 \<or> shape = 1 then Inr (acc, current)
        else if current > shape * stride then Inl AssertionError
        else Inr ((stride div current, current) # acc, shape * stride))"

definition layout_of_pairs :: "(int \<times> int) list \<Rightarrow> layout" where
  "layout_of_pairs ps = mk_layout (T (map (\<lambda>(s, d). I s) ps)) (T (map (\<lambda>(s, d). I d) ps))"

definition complement_layout :: "layout \<Rightarrow> int \<Rightarrow> layout result" where
  "complement_layout l max_idx =
     rbind (foldM complement_step ([], 1) (sort (zip (flatten (l_stride l)) (flatten (l_shape l)))))
       (\<lambda>(acc, current).
          Inr (coalesce_flat (layout_of_pairs (((max_idx + current - 1) div current, current) # acc))))"

text \<open>\<open>complement\<close> of an integer does not pass \<open>max_idx\<close> on.\<close>

fun complement :: "layout_input \<Rightarrow> int \<Rightarrow> layout result" where
  "complement (LInt n) max_idx = rbind (layout_init (I n) None) (\<lambda>l. complement_layout l 1)"
| "complement (LLayout l) max_idx = complement_layout l max_idx"
| "complement _ max_idx = Inl AttributeError"

fun right_inverse_loop :: "(int \<times> int \<times> int) list \<Rightarrow> int \<Rightarrow> (int \<times> int) list" where
  "right_inverse_loop [] current = []"
| "right_inverse_loop ((stride, shape, rstride) # ps) current =
     (if shape = 1 then right_inverse_loop ps current
      else if current \<noteq> stride then []
      else (shape, rstride) # right_inverse_loop ps (shape * stride))"

fun right_inverse :: "layout_input \<Rightarrow> layout option result" where
  "right_inverse LNone = Inr None"
| "right_inverse (LInt n) = rbind (layout_init (I n) None) (\<lambda>l. Inr (Some l))"
| "right_inverse (LLayout l) =
     (let flat_shape = flatten (l_shape l); flat_stride = flatten (l_stride l) in
      rbind (suffix_product (T (map I flat_shape)) (I 1)) (\<lambda>rs.
      Inr (Some (coalesce_flat (layout_of_pairs (rev (right_inverse_loop
        (sort (zip flat_stride (zip flat_shape (flatten rs)))) 1)))))))"
| "right_inverse (LTuple _) = Inl AttributeError"

fun left_inverse :: "layout_input \<Rightarrow> layout option result" where
  "left_inverse LNone = Inr None"
| "left_inverse (LInt n) = rbind (layout_init (I n) None) (\<lambda>l. Inr (Some l))"
| "left_inverse (LLayout l) =
     rbind (complement (LLayout l) 1) (\<lambda>c. rbind (make_layout [c, l]) (\<lambda>m. right_inverse (LLayout m)))"
| "left_inverse (LTuple _) = Inl AttributeError"

definition logical_divide_layout :: "layout \<Rightarrow> layout \<Rightarrow> layout result" where
  "logical_divide_layout a b =
     rbind (complement (LLayout b) (layout_size a)) (\<lambda>c.
     rbind (make_layout [b, c]) (\<lambda>m. composition a (LLayout m)))"

fun logical_divide :: "layout \<Rightarrow> layout_input \<Rightarrow> layout result" where
  "logical_divide a LNone = Inr a"
| "logical_divide a (LInt n) = rbind (layout_init (I n) None) (logical_divide_layout a)"
| "logical_divide a (LTuple bs) = by_mode (\<lambda>x b. logical_divide x b) a bs"
| "logical_divide a (LLayout b) = logical_divide_layout a b"

text \<open>The integer case of \<open>logical_product\<close> calls \<open>logical_divide\<close>.\<close>

fun logical_product :: "layout \<Rightarrow> layout_input \<Rightarrow> layout result" where
  "logical_product a LNone = Inr a"
| "logical_product a (LInt n) = rbind (layout_init (I n) None) (\<lambda>b. logical_divide a (LLayout b))"
| "logical_product a (LTuple bs) = by_mode (\<lambda>x b. logical_product x b) a bs"
| "logical_product a (LLayout b) =
     rbind (layout_cosize b) (\<lambda>n.
     rbind (complement (LLayout a) (layout_size a * n)) (\<lambda>c.
     rbind (composition c (LLayout b)) (\<lambda>d. make_layout [a, d])))"

fun hier_unzip :: "(layout \<Rightarrow> layout_input \<Rightarrow> layout result) \<Rightarrow> layout \<Rightarrow> layout_input \<Rightarrow> layout result" where
  "hier_unzip splitter a LNone = make_layout [mk_layout (I 1) (I 0), a]"
| "hier_unzip splitter a (LTuple bs) =
     (if layout_len a < length bs then Inl AssertionError
      else rbind (traverse (\<lambda>(i, b). rbind (layout_getitem a (int i)) (\<lambda>x. hier_unzip splitter x b)) (enumerate 0 bs)) (\<lambda>xs.
           rbind (make_layout xs) (\<lambda>split.
           rbind (traverse (\<lambda>i. rbind (layout_getitem split (int i)) (\<lambda>y. layout_getitem y 0)) [0..<length bs]) (\<lambda>fs.
           rbind (make_layout fs) (\<lambda>first.
           rbind (traverse (\<lambda>i. rbind (layout_getitem split (int i)) (\<lambda>y. layout_getitem y 1)) [0..<length bs]) (\<lambda>ss.
           rbind (rest_modes a (length bs)) (\<lambda>rest.
           rbind (make_layout (ss @ rest)) (\<lambda>second. make_layout [first, second]))))))))"
| "hier_unzip splitter a b = splitter a b"

definition zipped_divide :: "layout \<Rightarrow> layout_input \<Rightarrow> layout result" where
  "zipped_divide = hier_unzip logical_divide"

definition zipped_product :: "layout \<Rightarrow> layout_input \<Rightarrow> layout result" where
  "zipped_product = hier_unzip logical_product"

text \<open>The tail of \<open>tiled_divide\<close> and \<open>tiled_product\<close>.\<close>

definition tile :: "layout \<Rightarrow> layout result" where
  "tile l =
     rbind (layout_getitem l 0) (\<lambda>x. rbind (layout_getitem l 1) (\<lambda>y.
     rbind (rest_modes y 0) (\<lambda>ys. make_layout (x # ys))))"

definition tiled_divide :: "layout \<Rightarrow> layout_input \<Rightarrow> layout result" where
  "tiled_divide a b = rbind (zipped_divide a b) tile"

definition tiled_product :: "layout \<Rightarrow> layout_input \<Rightarrow> layout result" where
  "tiled_product a b = rbind (zipped_product a b) tile"

definition slice_and_offset :: "coord \<Rightarrow> layout \<Rightarrow> (layout \<times> int) result" where
  "slice_and_offset c l =
     rbind (slice_tuple c (l_shape l)) (\<lambda>ss. rbind (slice_tuple c (l_stride l)) (\<lambda>ds.
     rbind (crd2idx c (l_shape l) (Some (l_stride l))) (\<lambda>n. Inr (mk_layout (T ss) (T ds), n))))"


subsection \<open>The function of a layout\<close>

text \<open>A well-formed layout: positive extents and a stride of the structure of the shape.\<close>

definition wf_layout :: "layout \<Rightarrow> bool" where
  "wf_layout l \<longleftrightarrow> positive (l_shape l) \<and> match_structure (l_shape l) (l_stride l)"

definition layout_modes :: "layout \<Rightarrow> (int \<times> int) list" where
  "layout_modes l = modes (l_shape l) (l_stride l)"

lemma wf_layoutD [dest]:
  "wf_layout l \<Longrightarrow> positive (l_shape l)" "wf_layout l \<Longrightarrow> match_structure (l_shape l) (l_stride l)"
  by (simp_all add: wf_layout_def)

lemma layout_at_linm:
  "wf_layout l \<Longrightarrow> 0 \<le> c \<Longrightarrow> c < layout_size l \<Longrightarrow> layout_at l c = Inr (linm (layout_modes l) c)"
  by (simp add: layout_at_def crd2idx_def layout_size_def layout_modes_def crd2idx_int_linm wf_layout_def)

lemma layout_size_modes: "wf_layout l \<Longrightarrow> layout_size l = prod_list (map fst (layout_modes l))"
  by (auto simp: layout_size_def layout_modes_def modes_fst)

lemma layout_modes_pos: "wf_layout l \<Longrightarrow> \<forall>(s, d) \<in> set (layout_modes l). 0 < s"
  by (auto simp: layout_modes_def dest!: modes_pos[of "l_shape l"])

lemma mk_layout_sel [simp]: "l_shape (mk_layout s d) = s" "l_stride (mk_layout s d) = d"
  by (simp_all add: mk_layout_def)

lemma match_structure_map_I:
  "match_structure (T (map (\<lambda>(s, d). I s) ps)) (T (map (\<lambda>(s, d). I d) ps))"
  by (auto simp: match_structure_T list_all2_conv_all_nth split: prod.splits simp del: match_structure.simps)

lemma flatten_map_I:
  "concat (map flatten (map (\<lambda>(s, d). I s) ps)) = map fst ps"
  "concat (map flatten (map (\<lambda>(s, d). I d) ps)) = map snd ps"
  by (induction ps) auto

lemma layout_of_pairs_modes: "layout_modes (layout_of_pairs ps) = rev ps"
  using flatten_map_I[of ps] by (simp add: layout_modes_def layout_of_pairs_def modes_def zip_map_fst_snd)

lemma layout_of_pairs_wf: "\<forall>(s, d) \<in> set ps. 0 < s \<Longrightarrow> wf_layout (layout_of_pairs ps)"
  by (auto simp: wf_layout_def layout_of_pairs_def match_structure_map_I positive_T positive_I
      simp del: match_structure.simps)

lemma layout_of_modes_cases:
  "layout_of_modes ps = layout_of_pairs ps \<or> (\<exists>s d. ps = [(s, d)] \<and> layout_of_modes ps = mk_layout (I s) (I d))"
  by (cases ps rule: layout_of_modes.cases) (auto simp: layout_of_pairs_def)

lemma layout_of_modes_modes: "layout_modes (layout_of_modes ps) = rev ps"
proof (cases "layout_of_modes ps = layout_of_pairs ps")
  case False
  then show ?thesis using layout_of_modes_cases[of ps] by (auto simp: layout_modes_def modes_I)
qed (simp add: layout_of_pairs_modes)

lemma layout_of_modes_wf: "\<forall>(s, d) \<in> set ps. 0 < s \<Longrightarrow> wf_layout (layout_of_modes ps)"
proof (cases "layout_of_modes ps = layout_of_pairs ps")
  case False
  then show "\<forall>(s, d) \<in> set ps. 0 < s \<Longrightarrow> wf_layout (layout_of_modes ps)"
    using layout_of_modes_cases[of ps] by (auto simp: wf_layout_def positive_I)
qed (simp add: layout_of_pairs_wf)

subsection \<open>Coalescing\<close>

lemma coalesce_step_linm:
  assumes "acc \<noteq> []" and "\<forall>(s, d) \<in> set acc. 0 < s" and "0 < t"
  shows "linm (rev (coalesce_step acc (t, e)) @ ps) c = linm (rev acc @ (t, e) # ps) c"
proof -
  obtain s d as where acc: "acc = (s, d) # as" using assms(1) by (cases acc) auto
  have pos: "\<forall>(s, d) \<in> set (rev as). 0 < s" and s: "0 < s" using assms(2) acc by auto
  have merge: "linm ((s, d) # (t, s * d) # ps) x = linm ((s * t, d) # ps) x" for x
  proof -
    have "x mod (s * t) = s * (x div s mod t) + x mod s" "x div (s * t) = x div s div t"
      using assms(3) by (simp_all add: zmod_zmult2_eq zdiv_zmult2_eq)
    then show ?thesis by (simp add: algebra_simps)
  qed
  show ?thesis
  proof (cases "s * d = e")
    case True
    show ?thesis using merge unfolding True[symmetric] by (simp add: acc linm_append[OF pos] del: linm.simps)
  qed (simp add: acc linm_append[OF pos])
qed

lemma coalesce_step_pos:
  assumes "\<forall>(s, d) \<in> set acc. 0 < s" and "0 < t"
  shows "\<forall>(s, d) \<in> set (coalesce_step acc (t, e)). (0::int) < s"
  using assms by (cases acc) (auto split: if_splits)

lemma coalesce_step_nonempty: "acc \<noteq> [] \<Longrightarrow> coalesce_step acc p \<noteq> []"
  by (cases acc; cases p) (auto split: if_splits)

lemma foldl_coalesce:
  assumes "acc \<noteq> []" and "\<forall>(s, d) \<in> set acc. 0 < s" and "\<forall>(s, d) \<in> set ps. 0 < s"
  shows "linm (rev (foldl coalesce_step acc ps)) c = linm (rev acc @ ps) c \<and>
    (\<forall>(s, d) \<in> set (foldl coalesce_step acc ps). 0 < s) \<and> foldl coalesce_step acc ps \<noteq> []"
  using assms
proof (induction ps arbitrary: acc)
  case Nil
  then show ?case by simp
next
  case (Cons p ps)
  obtain t e where p: "p = (t, e)" by (cases p)
  have t: "0 < t" using Cons.prems(3) p by simp
  have "linm (rev (foldl coalesce_step (coalesce_step acc p) ps)) c = linm (rev (coalesce_step acc p) @ ps) c \<and>
    (\<forall>(s, d) \<in> set (foldl coalesce_step (coalesce_step acc p) ps). 0 < s) \<and>
    foldl coalesce_step (coalesce_step acc p) ps \<noteq> []"
    using Cons.prems coalesce_step_pos[OF Cons.prems(2) t, of e] coalesce_step_nonempty[OF Cons.prems(1)]
    by (intro Cons.IH) (auto simp: p)
  then show ?case using coalesce_step_linm[OF Cons.prems(1,2) t] by (simp add: p)
qed

text \<open>The size of a list of modes is read off its index function, so it is preserved as well.\<close>

lemma coalesce_step_prod:
  "acc \<noteq> [] \<Longrightarrow> prod_list (map fst (coalesce_step acc (t, e))) = prod_list (map fst acc) * (t::int)"
  by (cases acc) auto

lemma foldl_coalesce_prod:
  "acc \<noteq> [] \<Longrightarrow>
   prod_list (map fst (foldl coalesce_step acc ps)) = prod_list (map fst acc) * (prod_list (map fst ps) :: int)"
  by (induction ps arbitrary: acc) (auto simp: coalesce_step_prod coalesce_step_nonempty)

lemma zip_rev_modes: "match_structure s d \<Longrightarrow> zip (rev (flatten s)) (rev (flatten d)) = modes s d"
  by (simp add: modes_def zip_rev match_structure_flatten)

lemma coalesce_modes_props:
  assumes "wf_layout l"
  shows "linm (rev (coalesce_modes (l_shape l) (l_stride l))) c = linm (layout_modes l) c"
    and "\<forall>(s, d) \<in> set (coalesce_modes (l_shape l) (l_stride l)). 0 < s"
    and "prod_list (map fst (coalesce_modes (l_shape l) (l_stride l))) = layout_size l"
    and "coalesce_modes (l_shape l) (l_stride l) \<noteq> []"
proof -
  let ?ps = "modes (l_shape l) (l_stride l)"
  have eq: "coalesce_modes (l_shape l) (l_stride l) = foldl coalesce_step [(1, 0)] ?ps"
    using assms by (auto simp: coalesce_modes_def zip_rev_modes)
  have pos: "\<forall>(s, d) \<in> set ?ps. 0 < s" using layout_modes_pos[OF assms] by (simp add: layout_modes_def)
  show "linm (rev (coalesce_modes (l_shape l) (l_stride l))) c = linm (layout_modes l) c"
    and "\<forall>(s, d) \<in> set (coalesce_modes (l_shape l) (l_stride l)). 0 < s"
    and "coalesce_modes (l_shape l) (l_stride l) \<noteq> []"
    using foldl_coalesce[of "[(1, 0)]" ?ps c] pos by (auto simp: eq layout_modes_def)
  show "prod_list (map fst (coalesce_modes (l_shape l) (l_stride l))) = layout_size l"
    using layout_size_modes[OF assms] by (simp add: eq foldl_coalesce_prod layout_modes_def)
qed

lemma coalesce_flat_props:
  assumes "wf_layout l"
  shows "wf_layout (coalesce_flat l)" and "layout_size (coalesce_flat l) = layout_size l"
    and "linm (layout_modes (coalesce_flat l)) c = linm (layout_modes l) c"
proof -
  show wf: "wf_layout (coalesce_flat l)"
    using coalesce_modes_props(2)[OF assms] by (simp add: coalesce_flat_def layout_of_modes_wf)
  show "layout_size (coalesce_flat l) = layout_size l"
    using layout_size_modes[OF wf] coalesce_modes_props(3)[OF assms]
    by (simp add: coalesce_flat_def layout_of_modes_modes rev_map[symmetric] prod_list_rev_int)
  show "linm (layout_modes (coalesce_flat l)) c = linm (layout_modes l) c"
    using coalesce_modes_props(1)[OF assms] by (simp add: coalesce_flat_def layout_of_modes_modes)
qed

text \<open>No two neighbouring modes of a coalesced list can be merged any further.\<close>

fun coalesced :: "(int \<times> int) list \<Rightarrow> bool" where
  "coalesced [] = False"
| "coalesced [(s, d)] = True"
| "coalesced ((t, e) # (s, d) # ps) \<longleftrightarrow> t \<noteq> 1 \<and> s \<noteq> 1 \<and> s * d \<noteq> e \<and> coalesced ((s, d) # ps)"

lemma coalesced_step:
  assumes "coalesced acc" and "\<forall>(s, d) \<in> set acc. 0 < s" and "0 < t"
  shows "coalesced (coalesce_step acc (t, e))"
proof (cases acc rule: coalesced.cases)
  case (3 t' e' s d ps)
  then have "1 < t'" "1 < s" using assms by auto
  then have "1 < t' * t" if "t \<noteq> 1" using assms(3) that
    by (simp add: less_1_mult)
  then show ?thesis using 3 assms by auto
qed (use assms in auto)

lemma coalesce_modes_coalesced:
  assumes "wf_layout l"
  shows "coalesced (coalesce_modes (l_shape l) (l_stride l))"
proof -
  have "coalesced (foldl coalesce_step acc ps)"
    if "coalesced acc" "\<forall>(s, d) \<in> set acc. 0 < s" "\<forall>(s, d) \<in> set ps. 0 < s" for acc ps
    using that
  proof (induction ps arbitrary: acc)
    case (Cons p ps)
    then show ?case
      using coalesced_step[OF Cons.prems(1,2)] coalesce_step_pos[OF Cons.prems(2)] by (cases p) auto
  qed simp
  moreover have "\<forall>(s, d) \<in> set (modes (l_shape l) (l_stride l)). 0 < s"
    using layout_modes_pos[OF assms] by (simp add: layout_modes_def)
  ultimately show ?thesis
    using assms by (auto simp: coalesce_modes_def zip_rev_modes)
qed

text \<open>coalescing a layout of positive extents does not raise, keeps its size and its value at
  every coordinate below the size, and leaves no two neighbouring modes that could be merged.\<close>

theorem coalesce_preserves_function:
  assumes "wf_layout l"
  shows "\<exists>r. coalesce l LNone = Inr r \<and> wf_layout r \<and> layout_size r = layout_size l \<and>
    coalesced (rev (layout_modes r)) \<and>
    (\<forall>c. 0 \<le> c \<longrightarrow> c < layout_size l \<longrightarrow> layout_at r c = layout_at l c)"
  using coalesce_flat_props[OF assms] coalesce_modes_coalesced[OF assms]
  by (auto simp: layout_at_linm assms) (simp add: coalesce_flat_def layout_of_modes_modes)

theorem coalesce_preserves_function_witness:
  "\<exists>r. coalesce (mk_layout (T [I 2, T [I 1, I 6]]) (T [I 6, T [I 9, I 1]])) LNone = Inr r \<and> wf_layout r \<and>
    layout_size r = layout_size (mk_layout (T [I 2, T [I 1, I 6]]) (T [I 6, T [I 9, I 1]])) \<and>
    coalesced (rev (layout_modes r)) \<and>
    (\<forall>c. 0 \<le> c \<longrightarrow> c < layout_size (mk_layout (T [I 2, T [I 1, I 6]]) (T [I 6, T [I 9, I 1]])) \<longrightarrow>
      layout_at r c = layout_at (mk_layout (T [I 2, T [I 1, I 6]]) (T [I 6, T [I 9, I 1]])) c)"
  by (rule coalesce_preserves_function) (simp add: wf_layout_def positive_def)


subsection \<open>Composition with an integer layout\<close>

lemma ceil_div_one:
  assumes "0 < r" and "r \<le> (s::int)"
  shows "- (- r div s) = 1"
proof -
  have "- r div s = -1" by (rule int_div_pos_eq[of _ _ _ "s - r"]) (use assms in auto)
  then show ?thesis by simp
qed

text \<open>One mode of the loop: the coordinate \<open>c * r\<close> splits at the extent \<open>s\<close> the way \<open>c\<close> splits at
  the extent of the new mode.\<close>

lemma composition_split:
  assumes "0 < s" and "0 < r" and "s mod r = 0 \<or> r mod s = 0" and "0 \<le> c" and "c < n"
  defines "new \<equiv> min (max 1 (s div r)) (n::int)"
  shows "(c * r) mod s = (c mod new) * r \<and> (c * r) div s = (c div new) * - (- r div s)"
proof (cases "s mod r = 0")
  case True
  then have s: "s = (s div r) * r" by (metis add.right_neutral div_mult_mod_eq)
  have k: "1 \<le> s div r" using s assms(1,2) by (metis int_one_le_iff_zero_less mult_pos_pos not_less zero_less_mult_pos2)
  then have one: "- (- r div s) = 1" using s assms(2)
    by (intro ceil_div_one) (metis mult_right_mono mult_1 less_imp_le)+
  show ?thesis
  proof (cases "s div r \<le> n")
    case True
    then have new: "new = s div r" using k by (simp add: new_def)
    have "(c * r) mod s = (c * r) mod (new * r)" "(c * r) div s = (c * r) div (new * r)" using s new by auto
    then show ?thesis using one assms(2) by simp
  next
    case False
    then have new: "new = n" using k by (simp add: new_def)
    have "c * r < s" using False assms(2,5) s
      by (metis less_trans linorder_not_le mult_less_cancel_right_pos)
    moreover have "0 \<le> c * r" using assms(2,4) by simp
    ultimately show ?thesis using assms(4,5) one by (simp add: new)
  qed
next
  case False
  then have r: "r = s * (r div s)" using assms(3) by (metis add.right_neutral mult_div_mod_eq)
  have "s < r" using False assms(1,2,3) by (metis mod_pos_pos_trivial less_imp_le less_le not_less mod_self zmod_le_nonneg_dividend)
  then have new: "new = 1" using assms(1,4,5) by (simp add: new_def)
  have "- r div s = - (r div s)" by (subst r) (use assms(1) in \<open>simp add: mult_minus_right[symmetric] del: mult_minus_right\<close>)
  moreover have "(c * r) mod s = 0" "(c * r) div s = c * (r div s)"
    by (subst r, use assms(1) in \<open>simp add: mult.left_commute\<close>)+
  ultimately show ?thesis by (simp add: new)
qed

lemma composition_loop_pos:
  assumes "composition_loop ps n r = Inr (ms, n', r')" and "\<forall>(s, d) \<in> set ps. 0 < s" and "0 < n" and "0 < r"
  shows "(\<forall>(s, d) \<in> set ms. 0 < s) \<and> 0 < n' \<and> 0 < r' \<and> prod_list (map fst ms) * n' \<le> n"
  using assms
proof (induction ps n r arbitrary: ms rule: composition_loop.induct)
  case (2 s d ps n r)
  let ?new = "min (max 1 (s div r)) n"
  have s: "0 < s" and new: "0 < ?new" "?new \<le> n" using "2.prems" by auto
  have sr: "s mod r = 0 \<or> r mod s = 0" using "2.prems" by (auto split: if_splits)
  obtain ms' where rec: "composition_loop ps (n div ?new) (- (- r div s)) = Inr (ms', n', r')"
    and ms: "ms = (if ?new \<noteq> 1 then [(?new, r * d)] else []) @ ms'"
    using "2.prems" sr new s by (auto simp: Let_def rbind_eq_Inr split: if_splits prod.splits)
  have "- r div s < 0" using s "2.prems"(4) by (simp add: pos_imp_zdiv_neg_iff)
  then have ih: "(\<forall>(s, d) \<in> set ms'. 0 < s) \<and> 0 < n' \<and> 0 < r' \<and> prod_list (map fst ms') * n' \<le> n div ?new"
    using "2.IH"[OF _ _ refl _ rec] "2.prems" sr new s
    by (auto simp: pos_imp_zdiv_pos_iff)
  have "?new * (prod_list (map fst ms') * n') \<le> ?new * (n div ?new)"
    using ih new by (intro mult_left_mono) auto
  also have "\<dots> \<le> n" using new "2.prems"(3)
    by (metis add.commute div_mod_decomp_int le_add_same_cancel2 mult.commute pos_mod_sign)
  finally show ?case using ih ms new by (auto simp: mult.assoc split: if_splits)
qed auto

text \<open>The loop computes the index of \<open>c * r\<close> as long as no extent was truncated by \<open>//\<close>.\<close>

lemma composition_loop_linm:
  assumes "composition_loop ps n r = Inr (ms, n', r')" and "\<forall>(s, d) \<in> set ps. 0 < s" and "0 < n" and "0 < r"
    and "prod_list (map fst ms) * n' = n" and "0 \<le> c" and "c < n"
  shows "linm ps (c * r) = linm ms c \<and>
    (c * r) div prod_list (map fst ps) = (c div prod_list (map fst ms)) * r'"
  using assms
proof (induction ps n r arbitrary: ms c rule: composition_loop.induct)
  case (1 n r)
  then show ?case by auto
next
  case (2 s d ps n r)
  let ?new = "min (max 1 (s div r)) n"
  let ?r = "- (- r div s)"
  have s: "0 < s" and new: "0 < ?new" "?new \<le> n" using "2.prems" by auto
  have sr: "s mod r = 0 \<or> r mod s = 0" using "2.prems" by (auto split: if_splits)
  obtain ms' where rec: "composition_loop ps (n div ?new) ?r = Inr (ms', n', r')"
    and ms: "ms = (if ?new \<noteq> 1 then [(?new, r * d)] else []) @ ms'"
    using "2.prems" sr new s by (auto simp: Let_def rbind_eq_Inr split: if_splits prod.splits)
  have r: "0 < ?r" using s "2.prems"(4) by (simp add: pos_imp_zdiv_neg_iff)
  have nn: "0 < n div ?new" using new "2.prems"(3) by (simp add: pos_imp_zdiv_pos_iff)
  have P: "prod_list (map fst ms) = ?new * prod_list (map fst ms')" using ms by auto
  have bound: "prod_list (map fst ms') * n' \<le> n div ?new"
    using composition_loop_pos[OF rec _ nn r] "2.prems"(2) by auto
  have dvd: "?new * (n div ?new) = n" and full: "prod_list (map fst ms') * n' = n div ?new"
  proof -
    have "n = ?new * (prod_list (map fst ms') * n')" using "2.prems"(5) P by (simp add: mult.assoc)
    then show "prod_list (map fst ms') * n' = n div ?new" using new
      by (metis less_irrefl nonzero_mult_div_cancel_left)
    then show "?new * (n div ?new) = n" using \<open>n = _\<close> by metis
  qed
  have lin: "linm ms c = (c mod ?new) * (r * d) + linm ms' (c div ?new)" using ms by auto
  have cn: "0 \<le> c div ?new" "c div ?new < n div ?new"
    using "2.prems"(6,7) new dvd by (auto simp: pos_imp_zdiv_nonneg_iff intro!: int_div_less)
  have key: "(c * r) mod s = (c mod ?new) * r \<and> (c * r) div s = (c div ?new) * ?r"
    using composition_split[OF s "2.prems"(4) sr "2.prems"(6,7)] .
  have ih: "linm ps ((c div ?new) * ?r) = linm ms' (c div ?new) \<and>
      ((c div ?new) * ?r) div prod_list (map fst ps) = (c div ?new div prod_list (map fst ms')) * r'"
  proof (rule "2.IH"[OF _ _ refl _ rec _ nn r full cn])
    show "r \<noteq> 0" "\<not> \<not> (s mod r = 0 \<or> r mod s = 0)" using "2.prems"(4) sr by auto
    show "\<not> (?new = 0 \<or> s = 0)" using new s by linarith
    show "\<forall>(s, d) \<in> set ps. 0 < s" using "2.prems"(2) by auto
  qed
  have pos: "0 < prod_list (map fst ms')" "0 < prod_list (map fst ps)"
    using composition_loop_pos[OF rec _ nn r] "2.prems"(2) by (auto intro!: modes_prod_pos)
  then have "c div prod_list (map fst ms) = c div ?new div prod_list (map fst ms')"
    and "(c * r) div prod_list (map fst ((s, d) # ps)) = (c * r) div s div prod_list (map fst ps)"
    by (simp_all add: P zdiv_zmult2_eq)
  then show ?case using key ih lin by (simp add: mult.assoc)
qed


text \<open>C26: composing a layout with a single run \<open>n:r\<close>, that is \<open>n\<close> coordinates at step \<open>r\<close>, when the code
  accepts it and no extent was rounded down (the result still has size \<open>n\<close>): the result at
  \<open>c\<close> is the first layout at \<open>c * r\<close>, for every \<open>c\<close> below \<open>n\<close>, provided the run stays below the
  size of the first layout. Nothing is claimed for a second layout of several modes.\<close>

theorem composition_leaf_correct:
  assumes "wf_layout a" and "composition a (LLayout (mk_layout (I n) (I r))) = Inr res"
    and "0 < n" and "0 < r" and "(n - 1) * r < layout_size a" and "layout_size res = n"
    and "0 \<le> c" and "c < n"
  shows "layout_at res c = layout_at a (c * r)"
proof -
  let ?ms = "coalesce_modes (l_shape a) (l_stride a)"
  let ?fa = "coalesce_flat a"
  obtain s0 d0 qs where ms: "?ms = (s0, d0) # qs"
    using coalesce_modes_props(4)[OF assms(1)] by (cases ?ms) auto
  have flat: "flatten (l_shape ?fa) = map fst ?ms" "flatten (l_stride ?fa) = map snd ?ms"
    unfolding coalesce_flat_def using layout_of_modes_cases[of ?ms] flatten_map_I[of ?ms]
    by (auto simp: layout_of_pairs_def)
  have zip: "zip (rev (tl (flatten (l_shape ?fa)))) (rev (tl (flatten (l_stride ?fa)))) = rev qs"
    by (simp add: flat ms zip_rev zip_map_fst_snd)
  have pos: "\<forall>(s, d) \<in> set (rev qs). 0 < s" "0 < s0" using coalesce_modes_props(2)[OF assms(1)] ms by auto
  obtain ls n' r' where loop: "composition_loop (rev qs) n r = Inr (ls, n', r')"
    using assms(2,4) zip by (auto simp: composition_leaf_def Let_def rbind_eq_Inr)
  define out where "out = (if n' \<noteq> 1 \<or> ls = [] then ls @ [(n', r' * d0)] else ls)"
  have res: "res = layout_of_modes (rev out)"
    using assms(2,4) zip loop flat ms
    by (auto simp: composition_leaf_def Let_def out_def py_nth_def split: if_splits)
  have p: "(\<forall>(s, d) \<in> set ls. 0 < s) \<and> 0 < n' \<and> 0 < r'"
    using composition_loop_pos[OF loop pos(1) assms(3,4)] by simp
  then have wf: "wf_layout res" unfolding res by (intro layout_of_modes_wf) (auto simp: out_def)
  have lm: "layout_modes res = out" by (simp add: res layout_of_modes_modes)
  have full: "prod_list (map fst ls) * n' = n"
    using layout_size_modes[OF wf] assms(6) by (auto simp: lm out_def prod_list_append_int split: if_splits)
  have Lpos: "0 < prod_list (map fst ls)" using p by (auto intro!: modes_prod_pos)
  have hi: "0 \<le> c div prod_list (map fst ls)" "c div prod_list (map fst ls) < n'"
    using assms(7,8) full Lpos by (auto simp: pos_imp_zdiv_nonneg_iff intro!: int_div_less)
  let ?L = "prod_list (map fst ls)"
  let ?Q = "prod_list (map fst (rev qs))"
  have at_res: "layout_at res c = Inr (linm ls c + (c div ?L) * r' * d0)"
    using layout_at_linm[OF wf assms(7)] assms(6,8) hi p
    by (auto simp: lm out_def linm_append mult.assoc)
  have "c * r \<le> (n - 1) * r" using assms(4,8) by (intro mult_right_mono) auto
  then have range: "0 \<le> c * r" "c * r < layout_size a" using assms(4,7) le_less_trans[OF _ assms(5)] by auto
  note lin = composition_loop_linm[OF loop pos(1) assms(3,4) full assms(7,8)]
  have size: "layout_size a = ?Q * s0"
    using coalesce_modes_props(3)[OF assms(1)] by (simp add: ms rev_map[symmetric] prod_list_rev_int mult.commute)
  have "(c * r) div ?Q < s0" using range size modes_prod_pos[OF pos(1)] by (intro int_div_less) auto
  moreover have "0 \<le> (c * r) div ?Q" using range modes_prod_pos[OF pos(1)] by (simp add: pos_imp_zdiv_nonneg_iff)
  ultimately have "linm (rev ?ms) (c * r) = linm ls c + (c div ?L) * r' * d0"
    using lin by (simp add: ms linm_append[OF pos(1)])
  then show ?thesis
    using at_res layout_at_linm[OF assms(1) range] coalesce_modes_props(1)[OF assms(1)] by simp
qed


theorem composition_leaf_correct_witness:
  "layout_at (mk_layout (T [I 4, I 2]) (T [I 5, I 60])) 3 =
   layout_at (mk_layout (T [I 4, I 6]) (T [I 5, I 20])) (3 * 3)"
proof (rule composition_leaf_correct[where n = 8 and r = 3])
  show "composition (mk_layout (T [I 4, I 6]) (T [I 5, I 20])) (LLayout (mk_layout (I 8) (I 3))) =
    Inr (mk_layout (T [I 4, I 2]) (T [I 5, I 60]))"
    by (simp add: composition_leaf_def coalesce_flat_def coalesce_modes_def Let_def py_nth_def)
qed (simp_all add: wf_layout_def positive_def layout_size_def)

text \<open>When an extent does not divide, \<open>composition\<close> rounds it down without an error: composing
  \<open>(4,6):(1,4)\<close> with nine consecutive coordinates returns a layout of six.\<close>

theorem composition_truncates:
  "composition (mk_layout (T [I 4, I 6]) (T [I 1, I 4])) (LLayout (mk_layout (I 9) (I 1))) =
     Inr (mk_layout (I 6) (I 4))"
  by (simp add: composition_leaf_def coalesce_flat_def coalesce_modes_def Let_def py_nth_def)

end
