(* ===== verification/MeshLayout.thy ===== *)
theory MeshLayout
  imports CuteLayout
begin

text \<open>
  Device-mesh layouts, \<^verbatim>\<open>src/tensorplay/distributed/_mesh_layout.py\<close>: a \<open>_FlatLayout\<close> is a
  coalesced flat layout that names the ranks of one communication group, its complement the
  offsets of the other groups of the same shape, and a \<open>_MeshLayout\<close> is a sequence of flat
  layouts, one per mesh axis. The tensor view that \<open>remap_to_tensor\<close> takes at the end is given by
  its geometry: the sizes and strides handed to \<open>as_strided\<close> and the final sizes.
\<close>

record flat_layout =
  f_shape :: "int list"
  f_stride :: "int list"

record mesh_layout =
  axes :: "flat_layout list"

definition flat_init :: "int_tuple \<Rightarrow> int_tuple option \<Rightarrow> flat_layout result" where
  "flat_init shape stride =
     rbind (case stride of None \<Rightarrow> suffix_product shape (I 1) | Some d \<Rightarrow> Inr d) (\<lambda>actual_stride.
     if \<not> match_structure shape actual_stride then Inl ValueError
     else let normalized = coalesce_flat (mk_layout shape actual_stride);
              flat_shape = flatten (l_shape normalized);
              flat_stride = flatten (l_stride normalized)
          in if flat_shape = [1] \<and> flat_stride = [0] then Inr \<lparr>f_shape = [], f_stride = []\<rparr>
             else Inr \<lparr>f_shape = flat_shape, f_stride = flat_stride\<rparr>)"

definition flat_len :: "flat_layout \<Rightarrow> int result" where
  "flat_len f = Inl RuntimeError"

definition flat_getitem :: "flat_layout \<Rightarrow> int \<Rightarrow> int result" where
  "flat_getitem f index = Inl RuntimeError"

definition flat_to_pycute :: "flat_layout \<Rightarrow> layout" where
  "flat_to_pycute f =
     (if f_shape f = [] then mk_layout (I 1) (I 0)
      else mk_layout (T (map I (f_shape f))) (T (map I (f_stride f))))"

definition flat_numel :: "flat_layout \<Rightarrow> int" where
  "flat_numel f = prod_list (f_shape f)"

definition mesh_to_pycute :: "mesh_layout \<Rightarrow> layout result" where
  "mesh_to_pycute m =
     (if axes m = [] then Inr (mk_layout (I 1) (I 0)) else make_layout (map flat_to_pycute (axes m)))"

definition flat_composition :: "flat_layout \<Rightarrow> mesh_layout \<Rightarrow> mesh_layout result" where
  "flat_composition f m =
     rbind (mesh_to_pycute m) (\<lambda>b.
     rbind (composition (flat_to_pycute f) (LLayout b)) (\<lambda>res.
     rbind (traverse (\<lambda>(shape, stride). flat_init shape (Some stride))
              (zip (as_tuple (l_shape res)) (as_tuple (l_stride res)))) (\<lambda>axs.
     Inr \<lparr>axes = axs\<rparr>)))"

definition flat_complement :: "flat_layout \<Rightarrow> int \<Rightarrow> flat_layout result" where
  "flat_complement f world_size =
     rbind (complement (LLayout (flat_to_pycute f)) world_size) (\<lambda>res.
     flat_init (l_shape res) (Some (l_stride res)))"

text \<open>\<open>itertools.product\<close> enumerates with the last range fastest, as \<open>product_lists\<close> does.\<close>

definition all_ranks_from_zero :: "flat_layout \<Rightarrow> int list" where
  "all_ranks_from_zero f =
     map (\<lambda>coordinates. sum_list (map2 (*) coordinates (f_stride f)))
       (product_lists (map py_range (f_shape f)))"

definition global_ranks :: "flat_layout \<Rightarrow> int \<Rightarrow> int list list result" where
  "global_ranks f world_size =
     rbind (flat_complement f world_size) (\<lambda>c.
     Inr (map (\<lambda>offset. map (\<lambda>rank. offset + rank) (all_ranks_from_zero f)) (all_ranks_from_zero c)))"

definition check_sorted :: "flat_layout \<Rightarrow> bool" where
  "check_sorted f \<longleftrightarrow> rev (sort (f_stride f)) = f_stride f"

fun check_orthogonal_loop :: "(int \<times> int) list \<Rightarrow> bool result" where
  "check_orthogonal_loop ((d1, s1) # (d2, s2) # ps) =
     (if d2 * s2 = 0 then Inl ZeroDivisionError
      else if d1 mod (d2 * s2) \<noteq> 0 then Inr False
      else check_orthogonal_loop ((d2, s2) # ps))"
| "check_orthogonal_loop _ = Inr True"

definition check_orthogonal :: "flat_layout \<Rightarrow> bool result" where
  "check_orthogonal f =
     (if length (f_shape f) < 2 then Inr True
      else check_orthogonal_loop (rev (sort (zip (f_stride f) (f_shape f)))))"

definition sizes_and_strides :: "flat_layout \<Rightarrow> (int \<times> int) list" where
  "sizes_and_strides f = zip (f_shape f) (f_stride f)"

definition mesh_init :: "flat_layout list \<Rightarrow> mesh_layout" where
  "mesh_init axs = \<lparr>axes = axs\<rparr>"

definition from_sizes_strides :: "int list \<Rightarrow> int list option \<Rightarrow> mesh_layout result" where
  "from_sizes_strides sizes strides =
     rbind (case strides of
              None \<Rightarrow> rbind (suffix_product (T (map I sizes)) (I 1)) (\<lambda>d. Inr (flatten d))
            | Some d \<Rightarrow> Inr d) (\<lambda>actual_strides.
     if length sizes \<noteq> length actual_strides then Inl ValueError
     else rbind (traverse (\<lambda>(size, stride). flat_init (I size) (Some (I stride))) (zip sizes actual_strides))
            (\<lambda>axs. Inr (mesh_init axs)))"

definition mesh_len :: "mesh_layout \<Rightarrow> nat" where
  "mesh_len m = length (axes m)"

definition mesh_getitem :: "mesh_layout \<Rightarrow> int \<Rightarrow> flat_layout result" where
  "mesh_getitem m index = py_nth (axes m) index"

text \<open>Python's normalisation of a slice bound: negative bounds count from the end, then the bound is
  clamped to the list.\<close>

definition slice_bound :: "int \<Rightarrow> int \<Rightarrow> int" where
  "slice_bound n i = max 0 (min n (if i < 0 then i + n else i))"

definition mesh_slice :: "mesh_layout \<Rightarrow> int \<Rightarrow> int \<Rightarrow> mesh_layout" where
  "mesh_slice m start stop =
     (let n = int (length (axes m)); a = nat (slice_bound n start); b = nat (slice_bound n stop)
      in mesh_init (drop a (take b (axes m))))"

definition top_level_sizes :: "mesh_layout \<Rightarrow> int list" where
  "top_level_sizes m = map flat_numel (axes m)"

definition mesh_numel :: "mesh_layout \<Rightarrow> int" where
  "mesh_numel m = prod_list (top_level_sizes m)"

definition mesh_cosize :: "mesh_layout \<Rightarrow> int result" where
  "mesh_cosize m = rbind (mesh_to_pycute m) layout_cosize"

definition collapse :: "mesh_layout \<Rightarrow> flat_layout result" where
  "collapse m =
     flat_init (T (map (\<lambda>axis. T (map I (f_shape axis))) (axes m)))
       (Some (T (map (\<lambda>axis. T (map I (f_stride axis))) (axes m))))"

text \<open>Slice assignment: when the normalised end is before the start it is the start.\<close>

definition splice :: "mesh_layout \<Rightarrow> int \<Rightarrow> int \<Rightarrow> mesh_layout \<Rightarrow> mesh_layout" where
  "splice m start stop layout =
     (let n = int (length (axes m)); a = slice_bound n start; b = max a (slice_bound n stop)
      in mesh_init (take (nat a) (axes m) @ axes layout @ drop (nat b) (axes m)))"

definition remap_geometry :: "mesh_layout \<Rightarrow> nat \<Rightarrow> bool \<Rightarrow> int \<Rightarrow> (int list \<times> int list \<times> int list) result" where
  "remap_geometry m ndim contiguous n =
     (if ndim \<noteq> 1 \<or> \<not> contiguous then Inl AssertionError
      else rbind (mesh_cosize m) (\<lambda>cs.
        if n < cs then Inl AssertionError
        else rbind (collapse m) (\<lambda>collapsed.
             rbind (flat_complement collapsed n) (\<lambda>comp.
             Inr (f_shape comp @ f_shape collapsed, f_stride comp @ f_stride collapsed,
                  - 1 # top_level_sizes m)))))"


subsection \<open>Ranks of a flat layout\<close>

definition wf_flat :: "flat_layout \<Rightarrow> bool" where
  "wf_flat f \<longleftrightarrow> length (f_shape f) = length (f_stride f) \<and> list_all (\<lambda>s. 0 < s) (f_shape f)"

lemma concat_concat_map: "concat (concat xss) = concat (map concat xss)"
  by (induction xss) auto

lemma addresses_append:
  "addresses (ps @ qs) = concat (map (\<lambda>o'. map (\<lambda>r. o' + r) (addresses qs)) (addresses ps))"
proof (induction ps)
  case (Cons p ps)
  have plus: "(+) (a + b) = (\<lambda>x. a + (b + x))" for a b :: int by auto
  show ?case using Cons by (cases p) (simp add: concat_concat_map map_concat comp_def plus)
qed (simp add: map_idI)

lemma all_ranks_addresses:
  "wf_flat f \<Longrightarrow> all_ranks_from_zero f = addresses (sizes_and_strides f)"
proof -
  have "map (\<lambda>cs. sum_list (map2 (*) cs ds)) (product_lists (map py_range ss)) = addresses (zip ss ds)"
    if "length ss = length ds" for ss ds
    using that
  proof (induction ss ds rule: list_induct2)
    case (Cons s ss d ds)
    have "map (\<lambda>cs. x * d + sum_list (map2 (*) cs ds)) (product_lists (map py_range ss)) =
        map (\<lambda>a. x * d + a) (addresses (zip ss ds))" for x
      by (simp flip: Cons.IH)
    then show ?case by (simp add: map_concat comp_def)
  qed simp
  then show "wf_flat f \<Longrightarrow> ?thesis" by (simp add: all_ranks_from_zero_def wf_flat_def sizes_and_strides_def)
qed

lemma py_range_add: "0 \<le> a \<Longrightarrow> 0 \<le> b \<Longrightarrow> py_range (a + b) = py_range a @ map (\<lambda>y. a + y) (py_range b)"
  by (rule nth_equalityI) (auto simp: nth_append nat_add_distrib)

lemma py_range_mult:
  assumes "0 \<le> P"
  shows "py_range (int n * P) = concat (map (\<lambda>x. map (\<lambda>y. x * P + y) (py_range P)) (py_range (int n)))"
proof (induction n)
  case 0
  then show ?case by (simp add: py_range_def)
next
  case (Suc n)
  have "py_range (int (Suc n) * P) = py_range (int n * P + P)" by (simp add: algebra_simps)
  also have "\<dots> = py_range (int n * P) @ map (\<lambda>y. int n * P + y) (py_range P)"
    using assms by (intro py_range_add) auto
  finally show ?case using Suc.IH py_range_add[of "int n" 1] by (simp add: add.commute)
qed

text \<open>Row-major enumeration is the index function on \<open>0, ..., numel - 1\<close>.\<close>

lemma addresses_linm:
  assumes "\<forall>(s, d) \<in> set ps. 0 < s"
  shows "addresses ps = map (linm (rev ps)) (py_range (numel ps))"
  using assms
proof (induction ps)
  case Nil
  then show ?case by simp
next
  case (Cons p ps)
  obtain s d where p: "p = (s, d)" by (cases p)
  have s: "0 < s" and pos: "\<forall>(s, d) \<in> set (rev ps). 0 < s" and P: "0 < numel ps"
    using Cons.prems by (auto simp: p numel_def intro!: modes_prod_pos)
  have fst: "prod_list (map fst (rev ps)) = numel ps" by (simp add: numel_def rev_map[symmetric] prod_list_rev_int)
  have cell: "linm (rev (p # ps)) (x * numel ps + y) = x * d + linm (rev ps) y"
    if "x \<in> set (py_range s)" "y \<in> set (py_range (numel ps))" for x y
  proof -
    have "linm (rev ps) (x * numel ps + y) = linm (rev ps) y"
      using linm_mod[OF pos, of "x * numel ps + y"] that by (simp add: fst)
    moreover have "(x * numel ps + y) div numel ps = x" using that P by simp
    ultimately show ?thesis using that by (simp add: p linm_append[OF pos] fst)
  qed
  have "map (linm (rev (p # ps))) (py_range (numel (p # ps))) =
      map (linm (rev (p # ps))) (py_range (int (nat s) * numel ps))" using s by (simp add: p)
  also have "\<dots> = concat (map (\<lambda>x. map (\<lambda>y. linm (rev (p # ps)) (x * numel ps + y)) (py_range (numel ps))) (py_range s))"
    unfolding py_range_mult[OF less_imp_le[OF P]] using s by (simp add: map_concat comp_def)
  also have "\<dots> = concat (map (\<lambda>x. map (\<lambda>y. x * d + linm (rev ps) y) (py_range (numel ps))) (py_range s))"
    using cell by (intro arg_cong[of _ _ concat] map_cong refl) blast
  also have "\<dots> = addresses (p # ps)" using Cons by (simp add: p comp_def)
  finally show ?case by simp
qed

lemma flatten_coalesce:
  "flatten (l_shape (coalesce_flat l)) = map fst (coalesce_modes (l_shape l) (l_stride l)) \<and>
   flatten (l_stride (coalesce_flat l)) = map snd (coalesce_modes (l_shape l) (l_stride l))"
  unfolding coalesce_flat_def
  using layout_of_modes_cases[of "coalesce_modes (l_shape l) (l_stride l)"]
    flatten_map_I[of "coalesce_modes (l_shape l) (l_stride l)"]
  by (auto simp: layout_of_pairs_def)

lemma coalesce_modes_addresses:
  assumes "wf_layout l"
  shows "addresses (coalesce_modes (l_shape l) (l_stride l)) = addresses (zip (flatten (l_shape l)) (flatten (l_stride l)))"
    and "numel (coalesce_modes (l_shape l) (l_stride l)) = layout_size l"
    and "numel (zip (flatten (l_shape l)) (flatten (l_stride l))) = layout_size l"
proof -
  note props = coalesce_modes_props[OF assms]
  have pos: "\<forall>(s, d) \<in> set (zip (flatten (l_shape l)) (flatten (l_stride l))). 0 < s"
    using layout_modes_pos[OF assms] by (simp add: layout_modes_def modes_def)
  show n: "numel (coalesce_modes (l_shape l) (l_stride l)) = layout_size l"
    using props(3) by (simp add: numel_def)
  show n': "numel (zip (flatten (l_shape l)) (flatten (l_stride l))) = layout_size l"
    using assms by (auto simp: numel_def match_structure_flatten product_flatten layout_size_def)
  show "addresses (coalesce_modes (l_shape l) (l_stride l)) = addresses (zip (flatten (l_shape l)) (flatten (l_stride l)))"
    using addresses_linm[OF props(2)] addresses_linm[OF pos] props(1)
    by (simp add: n n' layout_modes_def modes_def)
qed

text \<open>Building a flat layout keeps the sequence of ranks of the nested one.\<close>

lemma flat_init_ranks:
  assumes "positive shape" and "match_structure shape stride"
  shows "\<exists>f. flat_init shape (Some stride) = Inr f \<and> wf_flat f \<and>
    addresses (sizes_and_strides f) = addresses (zip (flatten shape) (flatten stride)) \<and>
    numel (sizes_and_strides f) = product shape"
proof -
  let ?l = "mk_layout shape stride"
  let ?ms = "coalesce_modes shape stride"
  have wf: "wf_layout ?l" using assms by (simp add: wf_layout_def)
  note props = coalesce_modes_props[OF wf, simplified]
  note addr = coalesce_modes_addresses[OF wf, simplified]
  have flat: "flatten (l_shape (coalesce_flat ?l)) = map fst ?ms" "flatten (l_stride (coalesce_flat ?l)) = map snd ?ms"
    using flatten_coalesce[of ?l] by auto
  show ?thesis
  proof (cases "map fst ?ms = [1] \<and> map snd ?ms = [0]")
    case True
    then have "?ms = [(1, 0)]" by (cases ?ms) (auto intro: prod_eqI)
    then show ?thesis using assms(2) flat addr
      by (auto simp: flat_init_def Let_def wf_flat_def sizes_and_strides_def py_range_def layout_size_def)
  next
    case False
    then show ?thesis using assms(2) flat addr props(2)
      by (auto simp: flat_init_def Let_def wf_flat_def sizes_and_strides_def zip_map_fst_snd list_all_iff layout_size_def)
  qed
qed

subsection \<open>Groups and their offsets\<close>

text \<open>The strides of the sorted \<open>(stride, shape)\<close> pairs build on each other.\<close>

fun asc_chain :: "int \<Rightarrow> (int \<times> int) list \<Rightarrow> bool" where
  "asc_chain c [] = True"
| "asc_chain c ((d, s) # ps) \<longleftrightarrow> c dvd d \<and> asc_chain (d * s) ps"

lemma asc_chain_dvd: "asc_chain c ps \<Longrightarrow> c' dvd c \<Longrightarrow> asc_chain c' ps"
  by (cases ps) (auto intro: dvd_trans)

lemma check_orthogonal_loop_snoc:
  assumes "check_orthogonal_loop (ps @ [(d, s)]) = Inr True" and "ps \<noteq> []"
  shows "check_orthogonal_loop ps = Inr True \<and> d * s dvd fst (last ps)"
  using assms
  by (induction ps rule: check_orthogonal_loop.induct) (auto split: if_splits)

lemma asc_chain_rev:
  "check_orthogonal_loop (rev ps) = Inr True \<Longrightarrow> ps \<noteq> [] \<Longrightarrow> asc_chain 1 ps"
proof (induction ps)
  case (Cons p ps)
  obtain d s where p: "p = (d, s)" by (cases p)
  show ?case
  proof (cases ps)
    case (Cons q qs)
    have "check_orthogonal_loop (rev ps) = Inr True \<and> d * s dvd fst (last (rev ps))"
      using Cons.prems p Cons by (intro check_orthogonal_loop_snoc) auto
    then have "asc_chain 1 ps" "d * s dvd fst q" using Cons.IH Cons by auto
    then show ?thesis by (cases q) (simp add: p Cons)
  qed (simp add: p)
qed simp

lemma orthogonal_chain:
  assumes "check_orthogonal f = Inr True" and "length (f_shape f) = length (f_stride f)"
  shows "asc_chain 1 (sort (zip (f_stride f) (f_shape f)))"
proof (cases "length (f_shape f) < 2")
  case True
  then have "length (sort (zip (f_stride f) (f_shape f))) < 2" by simp
  then have "sort (zip (f_stride f) (f_shape f)) = [] \<or> (\<exists>p. sort (zip (f_stride f) (f_shape f)) = [p])"
    by (cases "sort (zip (f_stride f) (f_shape f))") auto
  then show ?thesis by auto
next
  case False
  then have "sort (zip (f_stride f) (f_shape f)) \<noteq> []" using assms(2)
    by (metis length_sort length_zip list.size(3) min.idem zero_less_numeral)
  then show ?thesis using assms(1) False by (intro asc_chain_rev) (auto simp: check_orthogonal_def)
qed

text \<open>The loop of \<open>complement\<close> fills exactly the gaps of the chain.\<close>

lemma complement_loop_chain:
  assumes "asc_chain c ps" and "0 < c" and "\<forall>(d, s) \<in> set ps. 0 < d \<and> 0 < s"
  shows "\<exists>news c' qs. foldM complement_step (acc, c) ps = Inr (news @ acc, c') \<and>
    stride_chain c qs \<and> (\<forall>(s, d) \<in> set qs. 0 < s) \<and> c' = c * numel qs \<and>
    mset qs = mset (news @ filter (\<lambda>p. fst p \<noteq> 1) (map prod.swap ps)) \<and>
    (c' = c \<or> c' \<in> (\<lambda>(d, s). s * d) ` set ps)"
  using assms
proof (induction ps arbitrary: c acc)
  case Nil
  then show ?case by (auto intro!: exI[of _ "[]"])
next
  case (Cons p ps)
  obtain d s where p: "p = (d, s)" by (cases p)
  have ds: "0 < d" "0 < s" "c dvd d" and chain: "asc_chain (d * s) ps" using Cons.prems p by auto
  have rest: "\<forall>(d, s) \<in> set ps. 0 < d \<and> 0 < s" using Cons.prems(3) by auto
  show ?case
  proof (cases "s = 1")
    case True
    then have "asc_chain c ps" using chain ds(3) by (auto intro: asc_chain_dvd)
    then obtain news c' qs where "foldM complement_step (acc, c) ps = Inr (news @ acc, c')"
      "stride_chain c qs" "\<forall>(s, d) \<in> set qs. 0 < s" "c' = c * numel qs"
      "mset qs = mset (news @ filter (\<lambda>p. fst p \<noteq> 1) (map prod.swap ps))"
      "c' = c \<or> c' \<in> (\<lambda>(d, s). s * d) ` set ps"
      using Cons.IH[OF _ Cons.prems(2) rest, of acc] by blast
    moreover have "complement_step (acc, c) p = Inr (acc, c)" using True by (simp add: p complement_step_def)
    ultimately show ?thesis using True
      by (intro exI[of _ news] exI[of _ c'] exI[of _ qs] conjI) (auto simp: p)
  next
    case False
    have cd: "c * (d div c) = d" using ds(3) by simp
    have gap: "0 < d div c" using ds Cons.prems(2) by (simp add: pos_imp_zdiv_pos_iff zdvd_imp_le)
    have "c \<le> s * d" using ds Cons.prems(2)
      by (metis dvd_triv_right dvd_trans mult_pos_pos zdvd_imp_le)
    then have step: "complement_step (acc, c) p = Inr ((d div c, c) # acc, s * d)"
      using False ds by (simp add: p complement_step_def)
    have "asc_chain (s * d) ps" "0 < s * d" using chain ds by (auto simp: mult.commute)
    then obtain news c' qs where
      ih: "foldM complement_step ((d div c, c) # acc, s * d) ps = Inr (news @ (d div c, c) # acc, c')"
      "stride_chain (s * d) qs" "\<forall>(s, d) \<in> set qs. 0 < s" "c' = s * d * numel qs"
      "mset qs = mset (news @ filter (\<lambda>p. fst p \<noteq> 1) (map prod.swap ps))"
      "c' = s * d \<or> c' \<in> (\<lambda>(d, s). s * d) ` set ps"
      using Cons.IH[OF _ _ rest, of "s * d" "(d div c, c) # acc"] by blast
    have "stride_chain c ((d div c, c) # (s, d) # qs)" using ih(2) by (simp add: cd mult.commute)
    moreover have "c' = c * numel ((d div c, c) # (s, d) # qs)"
    proof -
      have "c * (d div c * (s * numel qs)) = d * (s * numel qs)" by (simp add: cd mult.assoc[symmetric])
      then show ?thesis using ih(4) cd by (auto simp: algebra_simps)
    qed
    ultimately show ?thesis using step ih gap ds False
      by (intro exI[of _ "news @ [(d div c, c)]"] exI[of _ c'] exI[of _ "(d div c, c) # (s, d) # qs"] conjI)
        (auto simp: p)
  qed
qed


text \<open>The layouts and world sizes on which a mesh is built: positive extents and strides, the
  orthogonality check passes, and every axis spans a divisor of the world size.\<close>

fun mesh_ok :: "flat_layout \<times> int \<Rightarrow> bool" where
  "mesh_ok (f, world_size) \<longleftrightarrow>
     wf_flat f \<and> list_all (\<lambda>d. 0 < d) (f_stride f) \<and> check_orthogonal f = Inr True \<and> 0 < world_size \<and>
     list_all (\<lambda>(s, d). s * d dvd world_size) (sizes_and_strides f)"

fun mesh_geometry :: "flat_layout \<times> int \<Rightarrow> (int \<times> int) list" where
  "mesh_geometry (f, world_size) =
     (case flat_complement f world_size of
        Inr c \<Rightarrow> sizes_and_strides c @ sizes_and_strides f
      | Inl _ \<Rightarrow> [])"

lemma complement_loop_flat:
  assumes "mesh_ok (f, world_size)"
  defines "l \<equiv> flat_to_pycute f"
  shows "\<exists>news c qs. foldM complement_step ([], 1) (sort (zip (flatten (l_stride l)) (flatten (l_shape l)))) = Inr (news, c) \<and>
    stride_chain 1 qs \<and> (\<forall>(s, d) \<in> set qs. 0 < s) \<and> c = numel qs \<and> c dvd world_size \<and>
    mset qs = mset (news @ filter (\<lambda>p. fst p \<noteq> 1) (sizes_and_strides f))"
proof (cases "f_shape f = []")
  case True
  then show ?thesis
    by (auto simp: l_def flat_to_pycute_def complement_step_def sizes_and_strides_def intro!: exI[of _ "[]"])
next
  case False
  let ?ps = "sort (zip (f_stride f) (f_shape f))"
  have len: "length (f_shape f) = length (f_stride f)" using assms by (simp add: wf_flat_def)
  have flat: "concat (map (flatten \<circ> I) xs) = xs" for xs by (induction xs) auto
  have l: "flatten (l_shape l) = f_shape f" "flatten (l_stride l) = f_stride f"
    using False by (simp_all add: l_def flat_to_pycute_def flat)
  have pos: "\<forall>(d, s) \<in> set ?ps. 0 < d \<and> 0 < s"
    using assms by (auto simp: wf_flat_def list_all_iff dest: set_zip_leftD set_zip_rightD)
  have swap: "mset (map prod.swap ?ps) = mset (sizes_and_strides f)"
  proof -
    have "map prod.swap (zip (f_stride f) (f_shape f)) = zip (f_shape f) (f_stride f)"
      by (rule nth_equalityI) auto
    then show ?thesis by (metis mset_map mset_sort sizes_and_strides_def)
  qed
  obtain news c qs where loop: "foldM complement_step ([], 1) ?ps = Inr (news @ [], c)"
    "stride_chain 1 qs" "\<forall>(s, d) \<in> set qs. 0 < s" "c = 1 * numel qs"
    "mset qs = mset (news @ filter (\<lambda>p. fst p \<noteq> 1) (map prod.swap ?ps))"
    "c = 1 \<or> c \<in> (\<lambda>(d, s). s * d) ` set ?ps"
  proof -
    have "asc_chain 1 ?ps" using orthogonal_chain[OF _ len] assms(1) by simp
    from complement_loop_chain[OF this zero_less_one pos, of "[]"] show thesis
      by (elim exE conjE) (rule that)
  qed
  have "c dvd world_size" using loop(6)
  proof
    assume "c \<in> (\<lambda>(d, s). s * d) ` set ?ps"
    then obtain d s where "(d, s) \<in> set (zip (f_stride f) (f_shape f))" "c = s * d" by auto
    then have "(s, d) \<in> set (zip (f_shape f) (f_stride f))" by (auto simp: set_zip)
    then show ?thesis using assms \<open>c = s * d\<close> by (auto simp: list_all_iff sizes_and_strides_def)
  qed simp
  moreover have "mset (filter (\<lambda>p. fst p \<noteq> 1) (map prod.swap ?ps)) = mset (filter (\<lambda>p. fst p \<noteq> 1) (sizes_and_strides f))"
    using swap by (metis mset_filter)
  ultimately show ?thesis unfolding l using loop(1-5)
    by (intro exI[of _ news] exI[of _ c] exI[of _ qs]) (simp add: swap)
qed


lemma numel_append: "numel (ps @ qs) = numel ps * numel qs"
  by (simp add: numel_def prod_list_append_int)

lemma covers_once_append_cong:
  assumes "addresses ps = addresses ps'" and "numel ps = numel ps'"
  shows "covers_once (ps @ qs) \<longleftrightarrow> covers_once (ps' @ qs)"
  using assms by (simp add: covers_once_def addresses_append numel_append)

lemma complement_gaps:
  assumes "mesh_ok (f, world_size)"
  shows "\<exists>gaps res. complement (LLayout (flat_to_pycute f)) world_size = Inr res \<and>
    res = coalesce_flat (layout_of_pairs gaps) \<and> (\<forall>(s, d) \<in> set gaps. 0 < s) \<and>
    covers_once (gaps @ sizes_and_strides f) \<and> numel (gaps @ sizes_and_strides f) = world_size"
proof -
  obtain news c qs where loop:
    "foldM complement_step ([], 1) (sort (zip (flatten (l_stride (flat_to_pycute f))) (flatten (l_shape (flat_to_pycute f))))) = Inr (news, c)"
    "stride_chain 1 qs" "\<forall>(s, d) \<in> set qs. 0 < s" "c = numel qs" "c dvd world_size"
    "mset qs = mset (news @ filter (\<lambda>p. fst p \<noteq> 1) (sizes_and_strides f))"
    using complement_loop_flat[OF assms] by blast
  let ?k = "world_size div c"
  have c: "0 < c" using loop(3,4) by (auto simp: numel_def intro!: modes_prod_pos)
  have ck: "c * ?k = world_size" and k: "0 < ?k"
    using loop(5) c assms by (auto simp: pos_imp_zdiv_pos_iff zdvd_imp_le)
  have ceil: "(world_size + c - 1) div c = ?k"
    by (rule int_div_pos_eq[of _ _ _ "c - 1"]) (use c ck in auto)
  let ?chain = "qs @ [(?k, c)]"
  let ?gaps = "(?k, c) # news"
  have "covers_once ?chain"
    using loop(2,3,4) k by (intro stride_chain_covers_once) (auto simp: stride_chain_append)
  moreover have mset: "mset ?chain = mset (?gaps @ filter (\<lambda>p. fst p \<noteq> 1) (sizes_and_strides f))"
    using loop(6) by simp
  ultimately have "covers_once (?gaps @ filter (\<lambda>p. fst p \<noteq> 1) (sizes_and_strides f))"
    using covers_once_mset by blast
  then have "covers_once (filter (\<lambda>p. fst p \<noteq> 1) (?gaps @ sizes_and_strides f))"
    using covers_once_filter[of "?gaps @ filter (\<lambda>p. fst p \<noteq> 1) (sizes_and_strides f)"]
    by (simp only: filter_append filter_filter conj_absorb)
  then have covers: "covers_once (?gaps @ sizes_and_strides f)" by (simp only: covers_once_filter)
  have "numel ?chain = numel (?gaps @ sizes_and_strides f)"
    using numel_mset[OF mset] by (simp only: numel_append numel_filter)
  moreover have "numel ?chain = world_size" using loop(4) ck by (simp add: numel_append)
  ultimately have n: "numel (?gaps @ sizes_and_strides f) = world_size" by simp
  have "\<forall>p \<in># mset ?chain. 0 < fst p" using loop(3) k by auto
  then have "\<forall>(s, d) \<in> set ?gaps. 0 < s" unfolding mset using k by force
  then show ?thesis using loop(1) covers n
    by (intro exI[of _ ?gaps] exI[of _ "coalesce_flat (layout_of_pairs ?gaps)"]) (simp add: complement_layout_def ceil)
qed

lemma flat_complement_covers:
  assumes "mesh_ok (f, world_size)"
  shows "\<exists>c. flat_complement f world_size = Inr c \<and> wf_flat c \<and>
    covers_once (sizes_and_strides c @ sizes_and_strides f) \<and>
    numel (sizes_and_strides c @ sizes_and_strides f) = world_size"
proof -
  obtain gaps where g: "complement (LLayout (flat_to_pycute f)) world_size = Inr (coalesce_flat (layout_of_pairs gaps))"
    "\<forall>(s, d) \<in> set gaps. 0 < s" "covers_once (gaps @ sizes_and_strides f)"
    "numel (gaps @ sizes_and_strides f) = world_size"
    using complement_gaps[OF assms] by blast
  let ?l = "layout_of_pairs gaps"
  have wf: "wf_layout ?l" using g(2) by (rule layout_of_pairs_wf)
  have zip: "zip (flatten (l_shape ?l)) (flatten (l_stride ?l)) = gaps"
    using flatten_map_I[of gaps] by (simp add: layout_of_pairs_def zip_map_fst_snd)
  note wf' = coalesce_flat_props(1)[OF wf]
  obtain c where c: "flat_init (l_shape (coalesce_flat ?l)) (Some (l_stride (coalesce_flat ?l))) = Inr c" "wf_flat c"
    "addresses (sizes_and_strides c) = addresses (zip (flatten (l_shape (coalesce_flat ?l))) (flatten (l_stride (coalesce_flat ?l))))"
    "numel (sizes_and_strides c) = product (l_shape (coalesce_flat ?l))"
    using flat_init_ranks[OF wf_layoutD[OF wf']] by blast
  have "addresses (sizes_and_strides c) = addresses gaps" "numel (sizes_and_strides c) = numel gaps"
    using c(3,4) coalesce_modes_addresses[OF wf] coalesce_flat_props(2)[OF wf] flatten_coalesce[of ?l] zip
    by (auto simp: layout_size_def zip_map_fst_snd)
  then show ?thesis using c(1,2) g covers_once_append_cong[of "sizes_and_strides c" gaps]
    by (simp add: flat_complement_def numel_append)
qed

interpretation mesh: dense_geometry mesh_ok mesh_geometry
proof
  fix x assume "mesh_ok x"
  then show "covers_once (mesh_geometry x)"
    using flat_complement_covers[of "fst x" "snd x"] by (cases x) auto
qed

text \<open>C20: for a flat layout with positive extents and strides that passes \<open>check_orthogonal\<close> and a
  world size that every axis span divides, \<open>global_ranks\<close> returns groups of \<open>numel\<close> ranks each that
  partition the ranks of the world: listed together they are \<open>0, ..., world_size - 1\<close>, each
  exactly once.\<close>

theorem global_ranks_partition:
  assumes "mesh_ok (f, world_size)"
  shows "\<exists>groups. global_ranks f world_size = Inr groups \<and>
    sort (concat groups) = py_range world_size \<and>
    (\<forall>g \<in> set groups. int (length g) = flat_numel f) \<and>
    int (length groups) * flat_numel f = world_size"
proof -
  obtain c where c: "flat_complement f world_size = Inr c" "wf_flat c"
    "numel (sizes_and_strides c @ sizes_and_strides f) = world_size"
    using flat_complement_covers[OF assms] by blast
  have wf: "wf_flat f" using assms by simp
  have numel: "numel (sizes_and_strides f) = flat_numel f"
    using wf by (simp add: numel_def sizes_and_strides_def flat_numel_def wf_flat_def)
  have geo: "mesh_geometry (f, world_size) = sizes_and_strides c @ sizes_and_strides f" using c by simp
  have len: "int (length (all_ranks_from_zero g)) = numel (sizes_and_strides g)" if "wf_flat g" for g
  proof -
    have "\<forall>p \<in> set (sizes_and_strides g). 0 \<le> fst p"
      using that by (auto simp: wf_flat_def sizes_and_strides_def list_all_iff less_imp_le dest!: set_zip_leftD)
    then show ?thesis using that by (simp add: all_ranks_addresses length_addresses)
  qed
  let ?groups = "map (\<lambda>offset. map (\<lambda>rank. offset + rank) (all_ranks_from_zero f)) (all_ranks_from_zero c)"
  have "concat ?groups = addresses (mesh_geometry (f, world_size))"
    unfolding geo addresses_append using c(2) wf by (simp add: all_ranks_addresses)
  then have "sort (concat ?groups) = py_range world_size"
    using mesh.addresses_sorted[OF assms] c(3) geo by simp
  moreover have "int (length ?groups) * flat_numel f = world_size"
    using len[OF c(2)] c(3) by (simp add: numel_append numel)
  ultimately show ?thesis using c(1) len[OF wf] numel by (auto simp: global_ranks_def)
qed

theorem global_ranks_partition_witness:
  "\<exists>groups. global_ranks \<lparr>f_shape = [2, 2], f_stride = [6, 1]\<rparr> 24 = Inr groups \<and>
    sort (concat groups) = py_range 24 \<and>
    (\<forall>g \<in> set groups. int (length g) = flat_numel \<lparr>f_shape = [2, 2], f_stride = [6, 1]\<rparr>) \<and>
    int (length groups) * flat_numel \<lparr>f_shape = [2, 2], f_stride = [6, 1]\<rparr> = 24"
  by (rule global_ranks_partition) (simp add: wf_flat_def check_orthogonal_def sizes_and_strides_def)

lemma addresses_filter_one: "addresses (filter (\<lambda>p. fst p \<noteq> 1) ps) = addresses ps"
  by (induction ps) (auto simp: map_idI)

lemma flat_init_axis:
  "flat_init (I s) (Some (I d)) =
   Inr (if s = 1 then \<lparr>f_shape = [], f_stride = []\<rparr> else \<lparr>f_shape = [s], f_stride = [d]\<rparr>)"
  by (simp add: flat_init_def coalesce_flat_def coalesce_modes_def Let_def)

lemma collapse_axes:
  assumes "\<forall>(s, d) \<in> set ps. 0 < s"
  defines "m \<equiv> mesh_init (map (\<lambda>(s, d). if s = 1 then \<lparr>f_shape = [], f_stride = []\<rparr> else \<lparr>f_shape = [s], f_stride = [d]\<rparr>) ps)"
  shows "\<exists>f. collapse m = Inr f \<and> wf_flat f \<and> addresses (sizes_and_strides f) = addresses ps"
proof -
  let ?shape = "T (map (\<lambda>axis. T (map I (f_shape axis))) (axes m))"
  let ?stride = "T (map (\<lambda>axis. T (map I (f_stride axis))) (axes m))"
  have "positive ?shape" "match_structure ?shape ?stride"
    using assms(1) by (auto simp: m_def mesh_init_def positive_T positive_I match_structure_T
        list_all2_conv_all_nth split: prod.splits simp del: match_structure.simps)
  then obtain f where f: "collapse m = Inr f" "wf_flat f"
    "addresses (sizes_and_strides f) = addresses (zip (flatten ?shape) (flatten ?stride))"
    using flat_init_ranks[of ?shape ?stride] unfolding collapse_def by blast
  have "zip (flatten ?shape) (flatten ?stride) = filter (\<lambda>p. fst p \<noteq> 1) ps"
    unfolding m_def by (induction ps) (auto simp: mesh_init_def)
  then show ?thesis using f by (auto simp: addresses_filter_one)
qed

text \<open>a mesh built from positive sizes with the default strides collapses to a flat layout whose
  ranks are \<open>0, 1, ..., n - 1\<close> in order, \<open>n\<close> the product of the sizes.\<close>

theorem from_sizes_strides_collapse:
  assumes "list_all (\<lambda>s. 0 < s) sizes"
  shows "\<exists>m f. from_sizes_strides sizes None = Inr m \<and> collapse m = Inr f \<and>
    length (axes m) = length sizes \<and> top_level_sizes m = sizes \<and>
    all_ranks_from_zero f = py_range (prod_list sizes)"
proof -
  let ?ps = "zip sizes (suffixes sizes 1)"
  let ?axis = "\<lambda>(s, d). if s = 1 then \<lparr>f_shape = [], f_stride = []\<rparr> else \<lparr>f_shape = [s], f_stride = [d]\<rparr>"
  let ?m = "mesh_init (map ?axis ?ps)"
  have flat: "concat (map (flatten \<circ> I) xs) = xs" for xs by (induction xs) auto
  obtain d where d: "suffix_product (T (map I sizes)) (I 1) = Inr d" "flatten d = suffixes sizes 1"
    using suffix_product_total[of "T (map I sizes)" 1] by (auto simp: flat)
  have "traverse (\<lambda>(s, d). flat_init (I s) (Some (I d))) ?ps = Inr (map ?axis ?ps)"
    by (rule traverse_total) (auto simp: flat_init_axis)
  then have m: "from_sizes_strides sizes None = Inr ?m" using d by (simp add: from_sizes_strides_def)
  have pos: "\<forall>(s, d) \<in> set ?ps. 0 < s" "\<forall>s \<in> set sizes. 0 < s"
    using assms by (auto simp: list_all_iff dest!: set_zip_leftD)
  obtain f where f: "collapse ?m = Inr f" "wf_flat f" "addresses (sizes_and_strides f) = addresses ?ps"
    using collapse_axes[OF pos(1)] by blast
  have n: "numel ?ps = prod_list sizes" by (simp add: numel_def)
  have "addresses ?ps = map (\<lambda>c. c) (py_range (prod_list sizes))"
    unfolding addresses_linm[OF pos(1)] n using linm_suffixes[OF pos(2), of _ 1] by (intro map_cong) auto
  moreover have "top_level_sizes ?m = map fst ?ps"
    unfolding top_level_sizes_def mesh_init_def by (auto simp: flat_numel_def simp del: map_fst_zip)
  ultimately show ?thesis using m f all_ranks_addresses[OF f(2)] by (auto simp: mesh_init_def)
qed

theorem from_sizes_strides_collapse_witness:
  "\<exists>m f. from_sizes_strides [2, 1, 4] None = Inr m \<and> collapse m = Inr f \<and>
    length (axes m) = length [2, 1, 4 :: int] \<and> top_level_sizes m = [2, 1, 4] \<and>
    all_ranks_from_zero f = py_range (prod_list [2, 1, 4])"
  by (rule from_sizes_strides_collapse) simp

end
