(* ===== verification/Pytree.thy ===== *)
theory Pytree
  imports Prelude
begin

text \<open>
  Flattening and rebuilding of nested containers, \<^verbatim>\<open>src/tensorplay/utils/_pytree.py\<close>. Python objects
  are the datatype \<open>obj\<close>: the seven built-in container kinds, integers, and instances of any
  other class; an object is a leaf when its class is not in the registry. The registry
  \<open>SUPPORTED_NODES\<close> is a map from types to node definitions and is an argument of every
  operation that reads it. Operations that recurse through a registered \<open>flatten_fn\<close> take the
  interpreter's remaining recursion depth, and raise RecursionError when it is used up. A
  predicate \<open>is_leaf\<close> is a total function here.
\<close>

datatype node_type =
    IntT | ClassT string | TupleT | ListT | DictT | OrderedDictT | DefaultDictT | DequeT | NamedtupleT

datatype ('k, 'a) obj =
    IntO int
  | Inst string 'a "('k, 'a) obj list"
  | TupleO "('k, 'a) obj list"
  | ListO "('k, 'a) obj list"
  | DictO "('k \<times> ('k, 'a) obj) list"
  | OrderedDictO "('k \<times> ('k, 'a) obj) list"
  | DefaultDictO string "('k \<times> ('k, 'a) obj) list"
  | DequeO "nat option" "('k, 'a) obj list"
  | NamedTupleO string "string list" "('k, 'a) obj list"

text \<open>The contexts that the built-in flatten functions return, and opaque ones of user classes.\<close>

datatype ('k, 'a) node_context =
    CtxNone | CtxKeys "'k list" | CtxDefault string "'k list" | CtxMaxlen "nat option"
  | CtxClass string "string list" | CtxUser 'a

datatype 'k key_entry = GetAttrKey string | SequenceKey nat | MappingKey 'k

type_synonym ('k, 'a) flatten_fn = "('k, 'a) obj \<Rightarrow> (('k, 'a) obj list \<times> ('k, 'a) node_context) result"
type_synonym ('k, 'a) unflatten_fn = "('k, 'a) obj list \<Rightarrow> ('k, 'a) node_context \<Rightarrow> ('k, 'a) obj result"
type_synonym ('k, 'a) with_keys_fn =
  "('k, 'a) obj \<Rightarrow> (('k key_entry \<times> ('k, 'a) obj) list \<times> ('k, 'a) node_context) result"

record ('k, 'a) node_def =
  nd_type :: node_type
  flatten_fn :: "('k, 'a) flatten_fn"
  unflatten_fn :: "('k, 'a) unflatten_fn"
  serialized_type_name :: "string option"
  flatten_with_keys_fn :: "('k, 'a) with_keys_fn option"

type_synonym ('k, 'a) registry = "node_type \<Rightarrow> ('k, 'a) node_def option"

definition register_pytree_node ::
  "node_type \<Rightarrow> ('k, 'a) flatten_fn \<Rightarrow> ('k, 'a) unflatten_fn \<Rightarrow> string option \<Rightarrow>
   ('k, 'a) with_keys_fn option \<Rightarrow> ('k, 'a) registry \<Rightarrow> ('k, 'a) registry result" where
  "register_pytree_node cls fl un name keys nodes =
     (if nodes cls \<noteq> None then Inl ValueError
      else Inr (nodes(cls \<mapsto> \<lparr>nd_type = cls, flatten_fn = fl, unflatten_fn = un,
             serialized_type_name = name, flatten_with_keys_fn = keys\<rparr>)))"

definition deregister_pytree_node :: "node_type \<Rightarrow> ('k, 'a) registry \<Rightarrow> ('k, 'a) registry" where
  "deregister_pytree_node cls nodes = nodes(cls := None)"

datatype ('k, 'a) treespec =
    LeafSpec
  | TreeSpec node_type "('k, 'a) node_context" "('k, 'a) treespec list"

fun num_leaves :: "('k, 'a) treespec \<Rightarrow> nat" where
  "num_leaves LeafSpec = 1"
| "num_leaves (TreeSpec t c children) = sum_list (map num_leaves children)"

fun spec_is_leaf :: "('k, 'a) treespec \<Rightarrow> bool" where
  "spec_is_leaf LeafSpec = True"
| "spec_is_leaf (TreeSpec t c children) = False"

subsection \<open>Built-in container types\<close>

text \<open>\<open>d[k] = v\<close> and \<open>dict(pairs)\<close>: a repeated key keeps its place and takes the last value.\<close>

fun dict_set :: "('k \<times> 'v) list \<Rightarrow> 'k \<Rightarrow> 'v \<Rightarrow> ('k \<times> 'v) list" where
  "dict_set [] k v = [(k, v)]"
| "dict_set ((k', v') # d) k v = (if k' = k then (k, v) # d else (k', v') # dict_set d k v)"

definition dict_of :: "('k \<times> 'v) list \<Rightarrow> ('k \<times> 'v) list" where
  "dict_of ps = foldl (\<lambda>d (k, v). dict_set d k v) [] ps"

text \<open>\<open>deque(values, maxlen)\<close> keeps the last \<open>maxlen\<close> values.\<close>

definition deque_of :: "nat option \<Rightarrow> 'v list \<Rightarrow> 'v list" where
  "deque_of maxlen vs = (case maxlen of None \<Rightarrow> vs | Some m \<Rightarrow> drop (length vs - m) vs)"

fun tuple_flatten :: "('k, 'a) flatten_fn" where
  "tuple_flatten (TupleO xs) = Inr (xs, CtxNone)" | "tuple_flatten _ = Inl TypeError"

definition tuple_unflatten :: "('k, 'a) unflatten_fn" where
  "tuple_unflatten vs ctx = Inr (TupleO vs)"

fun list_flatten :: "('k, 'a) flatten_fn" where
  "list_flatten (ListO xs) = Inr (xs, CtxNone)" | "list_flatten _ = Inl TypeError"

definition list_unflatten :: "('k, 'a) unflatten_fn" where
  "list_unflatten vs ctx = Inr (ListO vs)"

fun dict_flatten :: "('k, 'a) flatten_fn" where
  "dict_flatten (DictO d) = Inr (map snd d, CtxKeys (map fst d))" | "dict_flatten _ = Inl TypeError"

fun dict_unflatten :: "('k, 'a) unflatten_fn" where
  "dict_unflatten vs (CtxKeys ks) = Inr (DictO (dict_of (zip ks vs)))" | "dict_unflatten vs _ = Inl TypeError"

fun ordereddict_flatten :: "('k, 'a) flatten_fn" where
  "ordereddict_flatten (OrderedDictO d) = Inr (map snd d, CtxKeys (map fst d))"
| "ordereddict_flatten _ = Inl TypeError"

fun ordereddict_unflatten :: "('k, 'a) unflatten_fn" where
  "ordereddict_unflatten vs (CtxKeys ks) = Inr (OrderedDictO (dict_of (zip ks vs)))"
| "ordereddict_unflatten vs _ = Inl TypeError"

fun defaultdict_flatten :: "('k, 'a) flatten_fn" where
  "defaultdict_flatten (DefaultDictO f d) = Inr (map snd d, CtxDefault f (map fst d))"
| "defaultdict_flatten _ = Inl TypeError"

fun defaultdict_unflatten :: "('k, 'a) unflatten_fn" where
  "defaultdict_unflatten vs (CtxDefault f ks) = Inr (DefaultDictO f (dict_of (zip ks vs)))"
| "defaultdict_unflatten vs _ = Inl TypeError"

fun namedtuple_flatten :: "('k, 'a) flatten_fn" where
  "namedtuple_flatten (NamedTupleO c fs xs) = Inr (xs, CtxClass c fs)"
| "namedtuple_flatten _ = Inl TypeError"

text \<open>\<open>context(*values)\<close> raises TypeError when the number of values is not the number of fields.\<close>

fun namedtuple_unflatten :: "('k, 'a) unflatten_fn" where
  "namedtuple_unflatten vs (CtxClass c fs) =
     (if length vs = length fs then Inr (NamedTupleO c fs vs) else Inl TypeError)"
| "namedtuple_unflatten vs _ = Inl TypeError"

fun deque_flatten :: "('k, 'a) flatten_fn" where
  "deque_flatten (DequeO m xs) = Inr (xs, CtxMaxlen m)" | "deque_flatten _ = Inl TypeError"

fun deque_unflatten :: "('k, 'a) unflatten_fn" where
  "deque_unflatten vs (CtxMaxlen m) = Inr (DequeO m (deque_of m vs))" | "deque_unflatten vs _ = Inl TypeError"

text \<open>The key-aware variants of the positional containers (tuple, list and deque).\<close>

definition sequence_flatten_with_keys :: "('k, 'a) flatten_fn \<Rightarrow> ('k, 'a) with_keys_fn" where
  "sequence_flatten_with_keys fl d =
     rbind (fl d) (\<lambda>(vs, ctx). Inr (map (\<lambda>(i, v). (SequenceKey i, v)) (enumerate 0 vs), ctx))"

definition tuple_flatten_with_keys :: "('k, 'a) with_keys_fn" where
  "tuple_flatten_with_keys = sequence_flatten_with_keys tuple_flatten"

definition list_flatten_with_keys :: "('k, 'a) with_keys_fn" where
  "list_flatten_with_keys = sequence_flatten_with_keys list_flatten"

definition deque_flatten_with_keys :: "('k, 'a) with_keys_fn" where
  "deque_flatten_with_keys = sequence_flatten_with_keys deque_flatten"

fun dict_flatten_with_keys :: "('k, 'a) with_keys_fn" where
  "dict_flatten_with_keys d =
     rbind (dict_flatten d) (\<lambda>(vs, ctx).
       case ctx of CtxKeys ks \<Rightarrow> Inr (map (\<lambda>(k, v). (MappingKey k, v)) (zip ks vs), ctx) | _ \<Rightarrow> Inl TypeError)"

fun ordereddict_flatten_with_keys :: "('k, 'a) with_keys_fn" where
  "ordereddict_flatten_with_keys d =
     rbind (ordereddict_flatten d) (\<lambda>(vs, ctx).
       case ctx of CtxKeys ks \<Rightarrow> Inr (map (\<lambda>(k, v). (MappingKey k, v)) (zip ks vs), ctx) | _ \<Rightarrow> Inl TypeError)"

fun defaultdict_flatten_with_keys :: "('k, 'a) with_keys_fn" where
  "defaultdict_flatten_with_keys d =
     rbind (defaultdict_flatten d) (\<lambda>(vs, ctx).
       case ctx of CtxDefault f ks \<Rightarrow> Inr (map (\<lambda>(k, v). (MappingKey k, v)) (zip ks vs), ctx) | _ \<Rightarrow> Inl TypeError)"

fun namedtuple_flatten_with_keys :: "('k, 'a) with_keys_fn" where
  "namedtuple_flatten_with_keys d =
     rbind (namedtuple_flatten d) (\<lambda>(vs, ctx).
       case d of NamedTupleO c fs xs \<Rightarrow> Inr (map (\<lambda>(f, v). (GetAttrKey f, v)) (zip fs vs), ctx)
       | _ \<Rightarrow> Inl AttributeError)"

definition node :: "node_type \<Rightarrow> ('k, 'a) flatten_fn \<Rightarrow> ('k, 'a) unflatten_fn \<Rightarrow> ('k, 'a) with_keys_fn \<Rightarrow> ('k, 'a) node_def" where
  "node t fl un keys = \<lparr>nd_type = t, flatten_fn = fl, unflatten_fn = un, serialized_type_name = None,
     flatten_with_keys_fn = Some keys\<rparr>"

text \<open>The registry after the module's own registrations.\<close>

fun SUPPORTED_NODES :: "('k, 'a) registry" where
  "SUPPORTED_NODES TupleT = Some (node TupleT tuple_flatten tuple_unflatten tuple_flatten_with_keys)"
| "SUPPORTED_NODES ListT = Some (node ListT list_flatten list_unflatten list_flatten_with_keys)"
| "SUPPORTED_NODES DictT = Some (node DictT dict_flatten dict_unflatten dict_flatten_with_keys)"
| "SUPPORTED_NODES OrderedDictT =
     Some (node OrderedDictT ordereddict_flatten ordereddict_unflatten ordereddict_flatten_with_keys)"
| "SUPPORTED_NODES DefaultDictT =
     Some (node DefaultDictT defaultdict_flatten defaultdict_unflatten defaultdict_flatten_with_keys)"
| "SUPPORTED_NODES DequeT = Some (node DequeT deque_flatten deque_unflatten deque_flatten_with_keys)"
| "SUPPORTED_NODES NamedtupleT =
     Some (node NamedtupleT namedtuple_flatten namedtuple_unflatten namedtuple_flatten_with_keys)"
| "SUPPORTED_NODES _ = None"

subsection \<open>Flatten and unflatten\<close>

fun type_of :: "('k, 'a) obj \<Rightarrow> node_type" where
  "type_of (IntO _) = IntT"
| "type_of (Inst c _ _) = ClassT c"
| "type_of (TupleO _) = TupleT"
| "type_of (ListO _) = ListT"
| "type_of (DictO _) = DictT"
| "type_of (OrderedDictO _) = OrderedDictT"
| "type_of (DefaultDictO _ _) = DefaultDictT"
| "type_of (DequeO _ _) = DequeT"
| "type_of (NamedTupleO c _ _) = ClassT c"

fun is_namedtuple_instance :: "('k, 'a) obj \<Rightarrow> bool" where
  "is_namedtuple_instance (NamedTupleO _ _ _) = True"
| "is_namedtuple_instance _ = False"

definition get_node_type :: "('k, 'a) registry \<Rightarrow> ('k, 'a) obj \<Rightarrow> node_type option" where
  "get_node_type nodes tree =
     (if nodes (type_of tree) \<noteq> None then Some (type_of tree)
      else if is_namedtuple_instance tree then Some NamedtupleT
      else None)"

type_synonym ('k, 'a) leaf_pred = "(('k, 'a) obj \<Rightarrow> bool) option"

definition tree_is_leaf :: "('k, 'a) registry \<Rightarrow> ('k, 'a) leaf_pred \<Rightarrow> ('k, 'a) obj \<Rightarrow> bool" where
  "tree_is_leaf nodes is_leaf tree =
     (if (case is_leaf of Some p \<Rightarrow> p tree | None \<Rightarrow> False) then True
      else get_node_type nodes tree = None)"

text \<open>\<open>SUPPORTED_NODES[node_type].flatten_fn(tree)\<close>, where \<open>node_type\<close> is that of the tree.\<close>

definition node_flatten ::
  "('k, 'a) registry \<Rightarrow> ('k, 'a) obj \<Rightarrow> (node_type \<times> ('k, 'a) obj list \<times> ('k, 'a) node_context) result" where
  "node_flatten nodes tree =
     (case get_node_type nodes tree of
        None \<Rightarrow> Inl KeyError
      | Some t \<Rightarrow> (case nodes t of
          None \<Rightarrow> Inl KeyError
        | Some nd \<Rightarrow> rbind (flatten_fn nd tree) (\<lambda>(children, ctx). Inr (t, children, ctx))))"

fun tree_flatten ::
  "('k, 'a) registry \<Rightarrow> ('k, 'a) leaf_pred \<Rightarrow> nat \<Rightarrow> ('k, 'a) obj \<Rightarrow>
   (('k, 'a) obj list \<times> ('k, 'a) treespec) result" where
  "tree_flatten nodes is_leaf 0 tree = Inl RecursionError"
| "tree_flatten nodes is_leaf (Suc depth) tree =
     (if tree_is_leaf nodes is_leaf tree then Inr ([tree], LeafSpec)
      else rbind (node_flatten nodes tree) (\<lambda>(t, children, ctx).
           rbind (traverse (tree_flatten nodes is_leaf depth) children) (\<lambda>rs.
           Inr (concat (map fst rs), TreeSpec t ctx (map snd rs)))))"

text \<open>\<open>_unflatten\<close> consumes an iterator of leaves; the model returns what is left of it.\<close>

fun unflatten_from ::
  "('k, 'a) registry \<Rightarrow> ('k, 'a) obj list \<Rightarrow> ('k, 'a) treespec \<Rightarrow> (('k, 'a) obj \<times> ('k, 'a) obj list) result"
  and unflatten_children ::
  "('k, 'a) registry \<Rightarrow> ('k, 'a) obj list \<Rightarrow> ('k, 'a) treespec list \<Rightarrow> (('k, 'a) obj list \<times> ('k, 'a) obj list) result" where
  "unflatten_from nodes [] LeafSpec = Inl StopIteration"
| "unflatten_from nodes (x # xs) LeafSpec = Inr (x, xs)"
| "unflatten_from nodes leaves (TreeSpec t ctx specs) =
     rbind (unflatten_children nodes leaves specs) (\<lambda>(children, rest).
     case nodes t of
       None \<Rightarrow> Inl KeyError
     | Some nd \<Rightarrow> rbind (unflatten_fn nd children ctx) (\<lambda>x. Inr (x, rest)))"
| "unflatten_children nodes leaves [] = Inr ([], leaves)"
| "unflatten_children nodes leaves (s # ss) =
     rbind (unflatten_from nodes leaves s) (\<lambda>(x, rest).
     rbind (unflatten_children nodes rest ss) (\<lambda>(xs, rest'). Inr (x # xs, rest')))"

definition tree_unflatten ::
  "('k, 'a) registry \<Rightarrow> ('k, 'a) obj list \<Rightarrow> ('k, 'a) treespec \<Rightarrow> ('k, 'a) obj result" where
  "tree_unflatten nodes leaves spec =
     (if length leaves \<noteq> num_leaves spec then Inl ValueError
      else rbind (unflatten_from nodes leaves spec) (\<lambda>(x, rest). Inr x))"

definition children_of :: "('k, 'a) registry \<Rightarrow> ('k, 'a) obj \<Rightarrow> ('k, 'a) obj list result" where
  "children_of nodes tree = rbind (node_flatten nodes tree) (\<lambda>(t, children, ctx). Inr children)"

fun tree_iter ::
  "('k, 'a) registry \<Rightarrow> ('k, 'a) leaf_pred \<Rightarrow> nat \<Rightarrow> ('k, 'a) obj \<Rightarrow> ('k, 'a) obj list result" where
  "tree_iter nodes is_leaf 0 tree = Inl RecursionError"
| "tree_iter nodes is_leaf (Suc depth) tree =
     (if tree_is_leaf nodes is_leaf tree then Inr [tree]
      else rbind (children_of nodes tree) (\<lambda>children.
           rbind (traverse (tree_iter nodes is_leaf depth) children) (\<lambda>ls. Inr (concat ls))))"

definition tree_leaves ::
  "('k, 'a) registry \<Rightarrow> ('k, 'a) leaf_pred \<Rightarrow> nat \<Rightarrow> ('k, 'a) obj \<Rightarrow> ('k, 'a) obj list result" where
  "tree_leaves nodes is_leaf depth tree =
     rbind (tree_flatten nodes is_leaf depth tree) (\<lambda>(leaves, spec). Inr leaves)"

definition arg_tree_leaves ::
  "('k, 'a) registry \<Rightarrow> nat \<Rightarrow> ('k, 'a) obj list \<Rightarrow> ('k \<times> ('k, 'a) obj) list \<Rightarrow> ('k, 'a) obj list result" where
  "arg_tree_leaves nodes depth args kwargs =
     rbind (traverse (tree_leaves nodes None depth) args) (\<lambda>xs.
     rbind (traverse (tree_leaves nodes None depth) (map snd kwargs)) (\<lambda>ys.
     Inr (concat xs @ concat ys)))"

definition tree_structure ::
  "('k, 'a) registry \<Rightarrow> ('k, 'a) leaf_pred \<Rightarrow> nat \<Rightarrow> ('k, 'a) obj \<Rightarrow> ('k, 'a) treespec result" where
  "tree_structure nodes is_leaf depth tree =
     rbind (tree_flatten nodes is_leaf depth tree) (\<lambda>(leaves, spec). Inr spec)"

subsection \<open>Mapping\<close>

text \<open>The nested \<open>helper\<close> of \<open>flatten_up_to\<close>, which appends to \<open>out\<close> as it goes.\<close>

fun flatten_up_to ::
  "('k, 'a) registry \<Rightarrow> ('k, 'a) obj \<Rightarrow> ('k, 'a) treespec \<Rightarrow> ('k, 'a) obj list result" where
  "flatten_up_to nodes subtree LeafSpec = Inr [subtree]"
| "flatten_up_to nodes subtree (TreeSpec t ctx specs) =
     (if get_node_type nodes subtree \<noteq> Some t then Inl ValueError
      else rbind (node_flatten nodes subtree) (\<lambda>(t', children, ctx').
        if ctx' \<noteq> ctx then Inl ValueError
        else if length children \<noteq> length specs then Inl ValueError
        else rbind (traverse (\<lambda>(s, c). flatten_up_to nodes c s) (zip specs children)) (\<lambda>xs. Inr (concat xs))))"

definition flatten_up_to_all ::
  "('k, 'a) registry \<Rightarrow> ('k, 'a) obj list \<Rightarrow> ('k, 'a) treespec \<Rightarrow> ('k, 'a) obj list list result" where
  "flatten_up_to_all nodes rests spec = traverse (\<lambda>r. flatten_up_to nodes r spec) rests"

text \<open>\<open>zip(leaves, *rests)\<close>: rows of arguments, as many as the shortest list has.\<close>

definition zip_rows :: "'b list \<Rightarrow> 'b list list \<Rightarrow> 'b list list" where
  "zip_rows xs rests =
     map (\<lambda>i. xs ! i # map (\<lambda>r. r ! i) rests) [0..<foldl min (length xs) (map length rests)]"

text \<open>\<open>tree_map\<close>; \<open>func\<close> takes the row of its arguments and may raise.\<close>

definition tree_map ::
  "('k, 'a) registry \<Rightarrow> ('k, 'a) leaf_pred \<Rightarrow> nat \<Rightarrow> (('k, 'a) obj list \<Rightarrow> ('k, 'a) obj result) \<Rightarrow>
   ('k, 'a) obj \<Rightarrow> ('k, 'a) obj list \<Rightarrow> ('k, 'a) obj result" where
  "tree_map nodes is_leaf depth func tree rests =
     rbind (tree_flatten nodes is_leaf depth tree) (\<lambda>(leaves, spec).
     if rests = [] then rbind (traverse (\<lambda>leaf. func [leaf]) leaves) (\<lambda>ys. tree_unflatten nodes ys spec)
     else rbind (flatten_up_to_all nodes rests spec) (\<lambda>rest_leaves.
          rbind (traverse func (zip_rows leaves rest_leaves)) (\<lambda>ys. tree_unflatten nodes ys spec)))"

text \<open>\<open>tree_map_\<close> runs \<open>func\<close> for its effect, here on a state \<open>s\<close>, and returns the tree it got.\<close>

definition tree_map_inplace ::
  "('k, 'a) registry \<Rightarrow> ('k, 'a) leaf_pred \<Rightarrow> nat \<Rightarrow> ('s \<Rightarrow> ('k, 'a) obj list \<Rightarrow> 's result) \<Rightarrow>
   's \<Rightarrow> ('k, 'a) obj \<Rightarrow> ('k, 'a) obj list \<Rightarrow> ('s \<times> ('k, 'a) obj) result" where
  "tree_map_inplace nodes is_leaf depth func s tree rests =
     rbind (tree_flatten nodes is_leaf depth tree) (\<lambda>(leaves, spec).
     if rests = [] then rbind (foldM (\<lambda>s leaf. func s [leaf]) s leaves) (\<lambda>s'. Inr (s', tree))
     else rbind (flatten_up_to_all nodes rests spec) (\<lambda>rest_leaves.
          rbind (foldM func s (zip_rows leaves rest_leaves)) (\<lambda>s'. Inr (s', tree))))"

text \<open>\<open>matches\<close> is the predicate that \<open>_type_predicate\<close> makes of a type or a callable.\<close>

definition tree_map_only ::
  "('k, 'a) registry \<Rightarrow> ('k, 'a) leaf_pred \<Rightarrow> nat \<Rightarrow> (('k, 'a) obj \<Rightarrow> bool) \<Rightarrow>
   (('k, 'a) obj list \<Rightarrow> ('k, 'a) obj result) \<Rightarrow> ('k, 'a) obj \<Rightarrow> ('k, 'a) obj list \<Rightarrow> ('k, 'a) obj result" where
  "tree_map_only nodes is_leaf depth matches func tree rests =
     tree_map nodes is_leaf depth (\<lambda>args. if matches (hd args) then func args else Inr (hd args)) tree rests"

definition tree_map_only_inplace ::
  "('k, 'a) registry \<Rightarrow> ('k, 'a) leaf_pred \<Rightarrow> nat \<Rightarrow> (('k, 'a) obj \<Rightarrow> bool) \<Rightarrow>
   ('s \<Rightarrow> ('k, 'a) obj list \<Rightarrow> 's result) \<Rightarrow> 's \<Rightarrow> ('k, 'a) obj \<Rightarrow> ('k, 'a) obj list \<Rightarrow>
   ('s \<times> ('k, 'a) obj) result" where
  "tree_map_only_inplace nodes is_leaf depth matches func s tree rests =
     tree_map_inplace nodes is_leaf depth (\<lambda>s args. if matches (hd args) then func s args else Inr s) s tree rests"

definition tree_all ::
  "('k, 'a) registry \<Rightarrow> ('k, 'a) leaf_pred \<Rightarrow> nat \<Rightarrow> (('k, 'a) obj \<Rightarrow> bool) \<Rightarrow> ('k, 'a) obj \<Rightarrow> bool result" where
  "tree_all nodes is_leaf depth pred tree =
     rbind (tree_leaves nodes is_leaf depth tree) (\<lambda>ls. Inr (list_all pred ls))"

definition tree_any ::
  "('k, 'a) registry \<Rightarrow> ('k, 'a) leaf_pred \<Rightarrow> nat \<Rightarrow> (('k, 'a) obj \<Rightarrow> bool) \<Rightarrow> ('k, 'a) obj \<Rightarrow> bool result" where
  "tree_any nodes is_leaf depth pred tree =
     rbind (tree_leaves nodes is_leaf depth tree) (\<lambda>ls. Inr (list_ex pred ls))"

definition tree_all_only ::
  "('k, 'a) registry \<Rightarrow> ('k, 'a) leaf_pred \<Rightarrow> nat \<Rightarrow> (('k, 'a) obj \<Rightarrow> bool) \<Rightarrow> (('k, 'a) obj \<Rightarrow> bool) \<Rightarrow>
   ('k, 'a) obj \<Rightarrow> bool result" where
  "tree_all_only nodes is_leaf depth matches pred tree =
     rbind (tree_leaves nodes is_leaf depth tree) (\<lambda>ls. Inr (list_all pred (filter matches ls)))"

definition tree_any_only ::
  "('k, 'a) registry \<Rightarrow> ('k, 'a) leaf_pred \<Rightarrow> nat \<Rightarrow> (('k, 'a) obj \<Rightarrow> bool) \<Rightarrow> (('k, 'a) obj \<Rightarrow> bool) \<Rightarrow>
   ('k, 'a) obj \<Rightarrow> bool result" where
  "tree_any_only nodes is_leaf depth matches pred tree =
     rbind (tree_leaves nodes is_leaf depth tree) (\<lambda>ls. Inr (list_ex pred (filter matches ls)))"

text \<open>\<open>add_leaves\<close> inside \<open>_broadcast_to_and_flatten\<close>: the accumulated result is the state.\<close>

definition add_leaves ::
  "('k, 'a) registry \<Rightarrow> ('k, 'a) leaf_pred \<Rightarrow> nat \<Rightarrow> ('k, 'a) obj list \<Rightarrow> ('k, 'a) obj list \<Rightarrow>
   ('k, 'a) obj list result" where
  "add_leaves nodes is_leaf depth res args =
     rbind (tree_structure nodes is_leaf depth (args ! 1)) (\<lambda>spec.
     Inr (res @ replicate (num_leaves spec) (hd args)))"

definition broadcast_to_and_flatten ::
  "('k, 'a) registry \<Rightarrow> ('k, 'a) leaf_pred \<Rightarrow> nat \<Rightarrow> ('k, 'a) obj \<Rightarrow> ('k, 'a) treespec \<Rightarrow>
   ('k, 'a) obj list option result" where
  "broadcast_to_and_flatten nodes is_leaf depth tree spec =
     rbind (tree_unflatten nodes (replicate (num_leaves spec) (IntO 0)) spec) (\<lambda>full_tree.
     case tree_map_inplace nodes is_leaf depth (add_leaves nodes is_leaf depth) [] tree [full_tree] of
       Inl ValueError \<Rightarrow> Inr None
     | Inl e \<Rightarrow> Inl e
     | Inr (res, _) \<Rightarrow> Inr (Some res))"

subsection \<open>Key paths\<close>

text \<open>\<open>k.get(obj)\<close> for the three kinds of keys. A \<open>defaultdict\<close> is read only at its own keys.\<close>

fun sequence_items :: "('k, 'a) obj \<Rightarrow> ('k, 'a) obj list option" where
  "sequence_items (TupleO xs) = Some xs"
| "sequence_items (ListO xs) = Some xs"
| "sequence_items (DequeO m xs) = Some xs"
| "sequence_items (NamedTupleO c fs xs) = Some xs"
| "sequence_items _ = None"

fun mapping_items :: "('k, 'a) obj \<Rightarrow> ('k \<times> ('k, 'a) obj) list option" where
  "mapping_items (DictO d) = Some d"
| "mapping_items (OrderedDictO d) = Some d"
| "mapping_items (DefaultDictO f d) = Some d"
| "mapping_items _ = None"

fun entry_get :: "('k, 'a) obj \<Rightarrow> 'k key_entry \<Rightarrow> ('k, 'a) obj result" where
  "entry_get x (GetAttrKey name) =
     (case x of NamedTupleO c fs xs \<Rightarrow>
        (case map_of (zip fs xs) name of None \<Rightarrow> Inl AttributeError | Some v \<Rightarrow> Inr v)
      | _ \<Rightarrow> Inl AttributeError)"
| "entry_get x (SequenceKey i) =
     (case sequence_items x of None \<Rightarrow> Inl TypeError
      | Some xs \<Rightarrow> if i < length xs then Inr (xs ! i) else Inl IndexError)"
| "entry_get x (MappingKey k) =
     (case mapping_items x of None \<Rightarrow> Inl TypeError
      | Some d \<Rightarrow> (case map_of d k of None \<Rightarrow> Inl KeyError | Some v \<Rightarrow> Inr v))"

definition key_get :: "('k, 'a) obj \<Rightarrow> 'k key_entry list \<Rightarrow> ('k, 'a) obj result" where
  "key_get x kp = foldM entry_get x kp"

fun generate_key_paths ::
  "('k, 'a) registry \<Rightarrow> ('k, 'a) leaf_pred \<Rightarrow> nat \<Rightarrow> 'k key_entry list \<Rightarrow> ('k, 'a) obj \<Rightarrow>
   ('k key_entry list \<times> ('k, 'a) obj) list result" where
  "generate_key_paths nodes is_leaf 0 key_path tree = Inl RecursionError"
| "generate_key_paths nodes is_leaf (Suc depth) key_path tree =
     (if (case is_leaf of Some p \<Rightarrow> p tree | None \<Rightarrow> False) then Inr [(key_path, tree)]
      else case (case get_node_type nodes tree of None \<Rightarrow> None | Some t \<Rightarrow> nodes t) of
        None \<Rightarrow> Inr [(key_path, tree)]
      | Some handler \<Rightarrow> (case flatten_with_keys_fn handler of
          None \<Rightarrow> Inl ValueError
        | Some fl \<Rightarrow> rbind (fl tree) (\<lambda>(key_children, ctx).
            rbind (traverse (\<lambda>(k, c). generate_key_paths nodes is_leaf depth (key_path @ [k]) c) key_children)
              (\<lambda>ps. Inr (concat ps)))))"

definition tree_flatten_with_path ::
  "('k, 'a) registry \<Rightarrow> ('k, 'a) leaf_pred \<Rightarrow> nat \<Rightarrow> ('k, 'a) obj \<Rightarrow>
   (('k key_entry list \<times> ('k, 'a) obj) list \<times> ('k, 'a) treespec) result" where
  "tree_flatten_with_path nodes is_leaf depth tree =
     rbind (tree_flatten nodes is_leaf depth tree) (\<lambda>(_, spec).
     rbind (generate_key_paths nodes is_leaf depth [] tree) (\<lambda>ps. Inr (ps, spec)))"

text \<open>\<open>tree_map_with_path\<close>: \<open>zip(strict=True)\<close> raises ValueError once a list ends before the others,
  after \<open>func\<close> ran on the complete rows. (For a tree without any leaf and rests that have some, the code
  calls \<open>func\<close> with the path and the leaf missing; the model raises ValueError without that call.)\<close>

definition tree_map_with_path ::
  "('k, 'a) registry \<Rightarrow> ('k, 'a) leaf_pred \<Rightarrow> nat \<Rightarrow>
   ('k key_entry list \<Rightarrow> ('k, 'a) obj list \<Rightarrow> ('k, 'a) obj result) \<Rightarrow>
   ('k, 'a) obj \<Rightarrow> ('k, 'a) obj list \<Rightarrow> ('k, 'a) obj result" where
  "tree_map_with_path nodes is_leaf depth func tree rests =
     rbind (tree_flatten_with_path nodes is_leaf depth tree) (\<lambda>(keypath_leaves, spec).
     rbind (traverse (tree_leaves nodes None depth) rests) (\<lambda>rest_leaves.
     rbind (traverse (\<lambda>(p, row). func p row)
              (zip (map fst keypath_leaves) (zip_rows (map snd keypath_leaves) rest_leaves))) (\<lambda>ys.
     if list_ex (\<lambda>r. length r \<noteq> length keypath_leaves) rest_leaves then Inl ValueError
     else tree_unflatten nodes ys spec)))"


subsection \<open>Walking and flattening agree\<close>

lemma tree_iter_leaves: "tree_iter nodes p n t = tree_leaves nodes p n t"
proof (induction n arbitrary: t)
  case 0
  then show ?case by (simp add: tree_leaves_def)
next
  case (Suc n)
  have "traverse (tree_iter nodes p n) cs = rbind (traverse (tree_flatten nodes p n) cs) (\<lambda>rs. Inr (map fst rs))" for cs
  proof -
    have "traverse (tree_iter nodes p n) cs = traverse (\<lambda>x. rbind (tree_flatten nodes p n x) (\<lambda>y. Inr (fst y))) cs"
      by (simp add: Suc.IH tree_leaves_def case_prod_beta' cong: traverse_cong)
    then show ?thesis by (simp only: traverse_post)
  qed
  then show ?case
    by (simp add: tree_leaves_def children_of_def rbind_assoc split_beta)
qed

lemma get_node_type_node_flatten:
  "node_flatten nodes t = Inr (nt, cs, ctx) \<Longrightarrow> get_node_type nodes t = Some nt \<and> (\<exists>nd. nodes nt = Some nd)"
  by (auto simp: node_flatten_def rbind_eq_Inr split: option.splits)

text \<open>A tree with leaves and structure \<open>r\<close> can be rebuilt from any well-formed values in place of the
  leaves: from the leaves themselves it is the tree, and from values that are leaves it flattens
  to them.\<close>

definition new_leaves :: "('k, 'a) registry \<Rightarrow> ('k, 'a) leaf_pred \<Rightarrow> ('k, 'a) obj list \<Rightarrow> bool" where
  "new_leaves nodes p ls \<longleftrightarrow> p = None \<and> (\<forall>l \<in> set ls. get_node_type nodes l = None)"

definition rebuilds ::
  "('k, 'a) registry \<Rightarrow> (('k, 'a) obj \<Rightarrow> bool) \<Rightarrow> ('k, 'a) leaf_pred \<Rightarrow> nat \<Rightarrow> ('k, 'a) obj \<Rightarrow>
   ('k, 'a) obj list \<times> ('k, 'a) treespec \<Rightarrow> bool" where
  "rebuilds nodes good p n t r \<longleftrightarrow>
     (\<forall>ls' rest. length ls' = length (fst r) \<longrightarrow> (\<forall>x \<in> set ls'. good x) \<longrightarrow>
       (\<exists>t'. unflatten_from nodes (ls' @ rest) (snd r) = Inr (t', rest) \<and> good t' \<and> (ls' = fst r \<longrightarrow> t' = t) \<and>
         (new_leaves nodes p ls' \<longrightarrow> tree_flatten nodes p n t' = Inr (ls', snd r))))"

lemma rebuildsD:
  assumes "rebuilds nodes good p n t (ls, sp)" and "length ls' = length ls" and "\<forall>x \<in> set ls'. good x"
  obtains t' where "unflatten_from nodes (ls' @ rest) sp = Inr (t', rest)" "good t'" "ls' = ls \<longrightarrow> t' = t"
    "new_leaves nodes p ls' \<longrightarrow> tree_flatten nodes p n t' = Inr (ls', sp)"
  using assms unfolding rebuilds_def by (metis fst_conv snd_conv)

subsection \<open>The contract of a registry\<close>

text \<open>What a registry promises for the well-formed objects: a container flattens to smaller
  well-formed children, and any children in their place rebuild a container that flattens to them
  again; the original children rebuild the original.\<close>

locale lawful_nodes =
  fixes nodes :: "('k, 'a) registry" and good :: "('k, 'a) obj \<Rightarrow> bool"
  assumes flatten_ok: "good t \<Longrightarrow> get_node_type nodes t \<noteq> None \<Longrightarrow>
      \<exists>nt cs ctx. node_flatten nodes t = Inr (nt, cs, ctx) \<and> (\<forall>c \<in> set cs. good c \<and> size c < size t)"
    and rebuild: "good t \<Longrightarrow> node_flatten nodes t = Inr (nt, cs, ctx) \<Longrightarrow> nodes nt = Some nd \<Longrightarrow>
      length cs' = length cs \<Longrightarrow> \<forall>c \<in> set cs'. good c \<Longrightarrow>
      \<exists>t'. unflatten_fn nd cs' ctx = Inr t' \<and> good t' \<and> node_flatten nodes t' = Inr (nt, cs', ctx) \<and> (cs' = cs \<longrightarrow> t' = t)"
begin

lemma children_wf: "good t \<Longrightarrow> node_flatten nodes t = Inr (nt, cs, ctx) \<Longrightarrow> \<forall>c \<in> set cs. good c \<and> size c < size t"
  using flatten_ok[of t] by (auto dest: get_node_type_node_flatten)

lemma flatten_total:
  "good t \<Longrightarrow> size t < n \<Longrightarrow> \<exists>ls sp. tree_flatten nodes p n t = Inr (ls, sp)"
proof (induction n arbitrary: t)
  case (Suc n)
  show ?case
  proof (cases "tree_is_leaf nodes p t")
    case False
    then have "get_node_type nodes t \<noteq> None" by (auto simp: tree_is_leaf_def split: if_splits)
    then obtain nt cs ctx where fl: "node_flatten nodes t = Inr (nt, cs, ctx)"
      and cs: "\<forall>c \<in> set cs. good c \<and> size c < size t" using flatten_ok Suc.prems by blast
    have "\<forall>c \<in> set cs. \<exists>r. tree_flatten nodes p n c = Inr r" using Suc.IH cs Suc.prems(2) by fastforce
    then obtain g where "\<forall>c \<in> set cs. tree_flatten nodes p n c = Inr (g c)" by metis
    then have "traverse (tree_flatten nodes p n) cs = Inr (map g cs)" by (intro traverse_total) blast
    then show ?thesis using False fl by simp
  qed simp
qed simp

lemma flatten_SucE:
  assumes "tree_flatten nodes p (Suc n) t = Inr (ls, sp)" and "\<not> tree_is_leaf nodes p t"
  obtains nt cs ctx rs where "node_flatten nodes t = Inr (nt, cs, ctx)"
    and "list_all2 (\<lambda>c r. tree_flatten nodes p n c = Inr r) cs rs"
    and "ls = concat (map fst rs)" and "sp = TreeSpec nt ctx (map snd rs)"
  using assms by (auto simp: rbind_eq_Inr traverse_Inr split: if_splits prod.splits)

lemma flatten_num_leaves: "tree_flatten nodes p n t = Inr (ls, sp) \<Longrightarrow> num_leaves sp = length ls"
proof (induction n arbitrary: t ls sp)
  case (Suc n)
  show ?case
  proof (cases "tree_is_leaf nodes p t")
    case True
    then show ?thesis using Suc.prems by auto
  next
    case False
    from flatten_SucE[OF Suc.prems False] obtain nt cs ctx rs
      where rs: "list_all2 (\<lambda>c r. tree_flatten nodes p n c = Inr r) cs rs"
        and "ls = concat (map fst rs)" "sp = TreeSpec nt ctx (map snd rs)" .
    moreover from rs have "sum_list (map (num_leaves \<circ> snd) rs) = length (concat (map fst rs))"
      by (induction rule: list_all2_induct) (auto dest: Suc.IH)
    ultimately show ?thesis by simp
  qed
qed simp

text \<open>Replacing the leaves one for one rebuilds a tree; if the new ones are leaves, flattening it
  gives them back with the same structure.\<close>

lemma children_rebuild:
  assumes "list_all2 (rebuilds nodes good p n) cs rs" and "length ls' = length (concat (map fst rs))"
    and "\<forall>x \<in> set ls'. good x"
  shows "\<exists>cs' rs'. unflatten_children nodes (ls' @ rest) (map snd rs) = Inr (cs', rest) \<and>
    length cs' = length cs \<and> (\<forall>c \<in> set cs'. good c) \<and> (ls' = concat (map fst rs) \<longrightarrow> cs' = cs) \<and>
    concat (map fst rs') = ls' \<and> map snd rs' = map snd rs \<and>
    (new_leaves nodes p ls' \<longrightarrow> traverse (tree_flatten nodes p n) cs' = Inr rs')"
  using assms
proof (induction arbitrary: ls' rule: list_all2_induct)
  case Nil
  then show ?case by simp
next
  case (Cons c cs r rs)
  obtain l s where r: "r = (l, s)" by (cases r)
  let ?a = "take (length l) ls'" and ?b = "drop (length l) ls'"
  have len: "length ?a = length l" "length ?b = length (concat (map fst rs))" using Cons.prems r by auto
  have wfs: "\<forall>x \<in> set ?a. good x" "\<forall>x \<in> set ?b. good x" using Cons.prems(2) by (auto dest: in_set_takeD in_set_dropD)
  obtain c' where c': "unflatten_from nodes (?a @ (?b @ rest)) s = Inr (c', ?b @ rest)" "good c'"
    "?a = l \<longrightarrow> c' = c" "new_leaves nodes p ?a \<longrightarrow> tree_flatten nodes p n c' = Inr (?a, s)"
    using Cons.hyps(1) len(1) wfs(1) unfolding rebuilds_def r by (metis (no_types, lifting) fst_conv snd_conv)
  obtain cs' rs' where cs': "unflatten_children nodes (?b @ rest) (map snd rs) = Inr (cs', rest)"
    "length cs' = length cs" "\<forall>c \<in> set cs'. good c" "?b = concat (map fst rs) \<longrightarrow> cs' = cs"
    "concat (map fst rs') = ?b" "map snd rs' = map snd rs"
    "new_leaves nodes p ?b \<longrightarrow> traverse (tree_flatten nodes p n) cs' = Inr rs'"
    using Cons.IH[OF len(2) wfs(2)] by blast
  have split: "ls' @ rest = ?a @ (?b @ rest)" by simp
  have "unflatten_children nodes (ls' @ rest) (map snd (r # rs)) = Inr (c' # cs', rest)"
    unfolding split using c'(1) cs'(1) by (simp add: r)
  moreover have "ls' = concat (map fst (r # rs)) \<longrightarrow> c' # cs' = c # cs" using c'(3) cs'(4) by (auto simp: r)
  moreover have "traverse (tree_flatten nodes p n) (c' # cs') = Inr ((?a, s) # rs')" if "new_leaves nodes p ls'"
    using that c'(4) cs'(7) by (auto simp: new_leaves_def dest: in_set_takeD in_set_dropD)
  ultimately show ?case using c'(2) cs'(2,3,5,6)
    by (intro exI[of _ "c' # cs'"] exI[of _ "(?a, s) # rs'"]) (auto simp: r)
qed

lemma flatten_rebuilds:
  "tree_flatten nodes p n t = Inr r \<Longrightarrow> good t \<Longrightarrow> rebuilds nodes good p n t r"
proof (induction n arbitrary: t r)
  case (Suc n)
  obtain ls sp where r: "r = (ls, sp)" by (cases r)
  show ?case
  proof (cases "tree_is_leaf nodes p t")
    case True
    then have "r = ([t], LeafSpec)" using Suc.prems(1) by simp
    moreover have "tree_flatten nodes p (Suc n) l = Inr ([l], LeafSpec)" if "new_leaves nodes p [l]" for l
      using that by (simp add: new_leaves_def tree_is_leaf_def)
    ultimately show ?thesis by (auto simp: rebuilds_def length_Suc_conv simp del: tree_flatten.simps)
  next
    case False
    from flatten_SucE[OF Suc.prems(1)[unfolded r] this] obtain nt cs ctx rs
      where fl: "node_flatten nodes t = Inr (nt, cs, ctx)"
        and rs: "list_all2 (\<lambda>c r. tree_flatten nodes p n c = Inr r) cs rs"
        and ls: "ls = concat (map fst rs)" and sp: "sp = TreeSpec nt ctx (map snd rs)" .
    have reb: "list_all2 (rebuilds nodes good p n) cs rs"
      using rs children_wf[OF Suc.prems(2) fl] Suc.IH
      by (auto simp: list_all2_conv_all_nth)
    obtain nd where nd: "nodes nt = Some nd" using get_node_type_node_flatten[OF fl] by blast
    have "\<exists>t'. unflatten_from nodes (ls' @ rest) sp = Inr (t', rest) \<and> good t' \<and> (ls' = ls \<longrightarrow> t' = t) \<and>
        (new_leaves nodes p ls' \<longrightarrow> tree_flatten nodes p (Suc n) t' = Inr (ls', sp))"
      if l: "length ls' = length ls" "\<forall>x \<in> set ls'. good x" for ls' rest
    proof -
      obtain cs' rs' where cs': "unflatten_children nodes (ls' @ rest) (map snd rs) = Inr (cs', rest)"
        "length cs' = length cs" "\<forall>c \<in> set cs'. good c" "ls' = concat (map fst rs) \<longrightarrow> cs' = cs"
        "concat (map fst rs') = ls'" "map snd rs' = map snd rs"
        "new_leaves nodes p ls' \<longrightarrow> traverse (tree_flatten nodes p n) cs' = Inr rs'"
        using children_rebuild[OF reb l[unfolded ls], of rest] by blast
      obtain t' where t': "unflatten_fn nd cs' ctx = Inr t'" "good t'" "node_flatten nodes t' = Inr (nt, cs', ctx)"
        "cs' = cs \<longrightarrow> t' = t" using rebuild[OF Suc.prems(2) fl nd cs'(2,3)] by blast
      have "tree_flatten nodes p (Suc n) t' = Inr (ls', sp)" if "new_leaves nodes p ls'"
        using that cs'(5,6,7) t'(3) get_node_type_node_flatten[OF t'(3)]
        by (auto simp: sp new_leaves_def tree_is_leaf_def)
      then show ?thesis using cs' t' nd ls by (intro exI[of _ t']) (auto simp: sp)
    qed
    then show ?thesis by (auto simp: rebuilds_def r)
  qed
qed simp

lemma unflatten_flatten:
  assumes "good t" and "tree_flatten nodes p n t = Inr (ls, sp)" and "\<forall>l \<in> set ls. good l"
  shows "tree_unflatten nodes ls sp = Inr t"
proof -
  obtain t' where "unflatten_from nodes (ls @ []) sp = Inr (t', [])" "ls = ls \<longrightarrow> t' = t"
    by (rule rebuildsD[OF flatten_rebuilds[OF assms(2,1)] refl assms(3)])
  then show ?thesis using flatten_num_leaves[OF assms(2)] by (simp add: tree_unflatten_def)
qed

lemma leaves_good: "good t \<Longrightarrow> tree_flatten nodes p n t = Inr (ls, sp) \<Longrightarrow> \<forall>l \<in> set ls. good l"
proof (induction n arbitrary: t ls sp)
  case (Suc n)
  show ?case
  proof (cases "tree_is_leaf nodes p t")
    case False
    from flatten_SucE[OF Suc.prems(2) this] obtain nt cs ctx rs
      where "node_flatten nodes t = Inr (nt, cs, ctx)" "ls = concat (map fst rs)"
        and rs: "list_all2 (\<lambda>c r. tree_flatten nodes p n c = Inr r) cs rs" .
    then show ?thesis using children_wf[OF Suc.prems(1)] Suc.IH
      by (auto simp: list_all2_conv_all_nth in_set_conv_nth) (metis nth_mem prod.collapse)
  qed (use Suc.prems in auto)
qed simp

lemma map_rebuild:
  assumes "good t" and "tree_flatten nodes None n t = Inr (ls, sp)"
    and "traverse f ls = Inr ys" and "\<forall>y \<in> set ys. good y \<and> get_node_type nodes y = None"
  shows "\<exists>t'. tree_unflatten nodes ys sp = Inr t' \<and> good t' \<and> tree_flatten nodes None n t' = Inr (ys, sp)"
proof -
  have len: "length ys = length ls" using assms(3) by (rule traverse_length)
  have "\<forall>y \<in> set ys. good y" "new_leaves nodes None ys" using assms(4) by (auto simp: new_leaves_def)
  then obtain t' where "unflatten_from nodes (ys @ []) sp = Inr (t', [])" "good t'" "tree_flatten nodes None n t' = Inr (ys, sp)"
    by (elim rebuildsD[OF flatten_rebuilds[OF assms(2,1)] len]) blast
  then show ?thesis using flatten_num_leaves[OF assms(2)] len by (simp add: tree_unflatten_def)
qed

end

text \<open>A registry whose node definitions also provide keys that address the children.\<close>

locale keyed_nodes = lawful_nodes nodes good
  for nodes :: "('k, 'a) registry" and good :: "('k, 'a) obj \<Rightarrow> bool" +
  assumes keys_ok: "good t \<Longrightarrow> node_flatten nodes t = Inr (nt, cs, ctx) \<Longrightarrow> nodes nt = Some nd \<Longrightarrow>
      \<exists>fl kcs. flatten_with_keys_fn nd = Some fl \<and> fl t = Inr (kcs, ctx) \<and> map snd kcs = cs \<and>
        (\<forall>(k, c) \<in> set kcs. entry_get t k = Inr c)"
begin

text \<open>The paths of the children, each prefixed with the key of its child.\<close>

lemma key_paths_children:
  assumes "list_all2 (\<lambda>c r. tree_flatten nodes p n c = Inr r) (map snd kcs) rs"
    and "\<forall>(k, c) \<in> set kcs. entry_get t k = Inr c"
    and "\<And>c l s kp. c \<in> snd ` set kcs \<Longrightarrow> tree_flatten nodes p n c = Inr (l, s) \<Longrightarrow>
      \<exists>ps. generate_key_paths nodes p n kp c = Inr ps \<and> map snd ps = l \<and>
        (\<forall>(q, l) \<in> set ps. \<exists>r. q = kp @ r \<and> key_get c r = Inr l)"
  shows "\<exists>pss. traverse (\<lambda>(k, c). generate_key_paths nodes p n (kp @ [k]) c) kcs = Inr pss \<and>
    map snd (concat pss) = concat (map fst rs) \<and>
    (\<forall>(q, l) \<in> set (concat pss). \<exists>r. q = kp @ r \<and> key_get t r = Inr l)"
  using assms
proof (induction kcs arbitrary: rs)
  case (Cons kc kcs)
  obtain k c where kc: "kc = (k, c)" by (cases kc)
  obtain l s rs' where rs: "rs = (l, s) # rs'" "tree_flatten nodes p n c = Inr (l, s)"
    "list_all2 (\<lambda>c r. tree_flatten nodes p n c = Inr r) (map snd kcs) rs'"
    using Cons.prems(1) kc by (auto simp: list_all2_Cons1)
  obtain pss where pss: "traverse (\<lambda>(k, c). generate_key_paths nodes p n (kp @ [k]) c) kcs = Inr pss"
    "map snd (concat pss) = concat (map fst rs')"
    "\<forall>(q, l) \<in> set (concat pss). \<exists>r. q = kp @ r \<and> key_get t r = Inr l"
  proof -
    have "\<forall>(k, c) \<in> set kcs. entry_get t k = Inr c" using Cons.prems(2) by simp
    from Cons.IH[OF rs(3) this] show thesis using Cons.prems(3) that by (simp add: image_iff) blast
  qed
  obtain ps where ps: "generate_key_paths nodes p n (kp @ [k]) c = Inr ps" "map snd ps = l"
    "\<forall>(q, l) \<in> set ps. \<exists>r. q = (kp @ [k]) @ r \<and> key_get c r = Inr l"
    using Cons.prems(3)[OF _ rs(2), of "kp @ [k]"] by (auto simp: kc)
  have "\<forall>(q, l) \<in> set ps. \<exists>r. q = kp @ r \<and> key_get t r = Inr l"
    using ps(3) Cons.prems(2) by (fastforce simp: key_get_def kc)
  then show ?case using pss ps(1,2) by (intro exI[of _ "ps # pss"]) (auto simp: kc rs(1))
qed simp

lemma key_paths:
  "good t \<Longrightarrow> tree_flatten nodes p n t = Inr (ls, sp) \<Longrightarrow>
   \<exists>ps. generate_key_paths nodes p n kp t = Inr ps \<and> map snd ps = ls \<and>
     (\<forall>(q, l) \<in> set ps. \<exists>r. q = kp @ r \<and> key_get t r = Inr l)"
proof (induction n arbitrary: t ls sp kp)
  case (Suc n)
  show ?case
  proof (cases "tree_is_leaf nodes p t")
    case True
    then have "ls = [t]" using Suc.prems(2) by simp
    moreover have "generate_key_paths nodes p (Suc n) kp t = Inr [(kp, t)]"
      using True by (auto simp: tree_is_leaf_def split: if_splits)
    ultimately show ?thesis by (auto simp: key_get_def)
  next
    case False
    from flatten_SucE[OF Suc.prems(2) this] obtain nt cs ctx rs
      where fl: "node_flatten nodes t = Inr (nt, cs, ctx)" and ls: "ls = concat (map fst rs)"
        and rs: "list_all2 (\<lambda>c r. tree_flatten nodes p n c = Inr r) cs rs" .
    obtain nd where nd: "nodes nt = Some nd" "get_node_type nodes t = Some nt"
      using get_node_type_node_flatten[OF fl] by blast
    obtain g kcs where kcs: "flatten_with_keys_fn nd = Some g" "g t = Inr (kcs, ctx)" "map snd kcs = cs"
      "\<forall>(k, c) \<in> set kcs. entry_get t k = Inr c" using keys_ok[OF Suc.prems(1) fl nd(1)] by blast
    have "good c" if "c \<in> snd ` set kcs" for c
      using children_wf[OF Suc.prems(1) fl] that kcs(3) by (metis set_map)
    then obtain pss where "traverse (\<lambda>(k, c). generate_key_paths nodes p n (kp @ [k]) c) kcs = Inr pss"
        "map snd (concat pss) = concat (map fst rs)" "\<forall>(q, l) \<in> set (concat pss). \<exists>r. q = kp @ r \<and> key_get t r = Inr l"
      using key_paths_children[OF rs[folded kcs(3)] kcs(4), of kp] Suc.IH by blast
    then show ?thesis using False nd kcs(1,2) ls
      by (intro exI[of _ "concat pss"]) (auto simp: tree_is_leaf_def split: if_splits)
  qed
qed simp

end


subsection \<open>The built-in registry keeps the contract\<close>

fun wf_obj :: "('k, 'a) obj \<Rightarrow> bool" where
  "wf_obj (IntO n) = True"
| "wf_obj (Inst c a xs) = True"
| "wf_obj (TupleO xs) = list_all wf_obj xs"
| "wf_obj (ListO xs) = list_all wf_obj xs"
| "wf_obj (DictO d) = (distinct (map fst d) \<and> list_all (\<lambda>(k, x). wf_obj x) d)"
| "wf_obj (OrderedDictO d) = (distinct (map fst d) \<and> list_all (\<lambda>(k, x). wf_obj x) d)"
| "wf_obj (DefaultDictO f d) = (distinct (map fst d) \<and> list_all (\<lambda>(k, x). wf_obj x) d)"
| "wf_obj (DequeO m xs) = ((case m of None \<Rightarrow> True | Some n \<Rightarrow> length xs \<le> n) \<and> list_all wf_obj xs)"
| "wf_obj (NamedTupleO c fs xs) = (length fs = length xs \<and> distinct fs \<and> list_all wf_obj xs)"

lemma dict_set_fresh: "k \<notin> fst ` set d \<Longrightarrow> dict_set d k v = d @ [(k, v)]"
  by (induction d) auto

lemma dict_of_distinct: "distinct (map fst ps) \<Longrightarrow> dict_of ps = ps"
proof -
  have "foldl (\<lambda>d (k, v). dict_set d k v) d ps = d @ ps" if "distinct (map fst (d @ ps))" for d
    using that
  proof (induction ps arbitrary: d)
    case (Cons p ps)
    then show ?case using Cons.IH[of "d @ [p]"] by (cases p) (auto simp: dict_set_fresh)
  qed simp
  from this[of "[]"] show "distinct (map fst ps) \<Longrightarrow> dict_of ps = ps" by (simp add: dict_of_def)
qed

lemma dict_of_zip: "distinct ks \<Longrightarrow> length ks = length vs \<Longrightarrow> dict_of (zip ks vs) = zip ks vs"
  by (intro dict_of_distinct) simp

lemma deque_of_fits: "(case m of None \<Rightarrow> True | Some n \<Rightarrow> length xs \<le> n) \<Longrightarrow> deque_of m xs = xs"
  by (auto simp: deque_of_def split: option.splits)

lemma size_child: "x \<in> set xs \<Longrightarrow> size x < Suc (size_list size xs)"
  by (simp add: less_Suc_eq_le size_list_estimation')

lemma size_item: "(k, x) \<in> set d \<Longrightarrow> size x < Suc (size_list (size_prod (\<lambda>_. 0) size) d)"
  by (simp add: less_Suc_eq_le size_list_estimation'[of "(k, x)"])

lemma map_snd_keyed: "map (snd \<circ> (\<lambda>(i, y). (f i, y))) ps = map snd ps"
  by auto

lemma node_flatten_builtin:
  "node_flatten SUPPORTED_NODES (IntO n) = Inl KeyError"
  "node_flatten SUPPORTED_NODES (Inst c a xs) = Inl KeyError"
  "node_flatten SUPPORTED_NODES (TupleO xs) = Inr (TupleT, xs, CtxNone)"
  "node_flatten SUPPORTED_NODES (ListO xs) = Inr (ListT, xs, CtxNone)"
  "node_flatten SUPPORTED_NODES (DictO d) = Inr (DictT, map snd d, CtxKeys (map fst d))"
  "node_flatten SUPPORTED_NODES (OrderedDictO d) = Inr (OrderedDictT, map snd d, CtxKeys (map fst d))"
  "node_flatten SUPPORTED_NODES (DefaultDictO f d) = Inr (DefaultDictT, map snd d, CtxDefault f (map fst d))"
  "node_flatten SUPPORTED_NODES (DequeO m xs) = Inr (DequeT, xs, CtxMaxlen m)"
  "node_flatten SUPPORTED_NODES (NamedTupleO c fs xs) = Inr (NamedtupleT, xs, CtxClass c fs)"
  by (simp_all add: node_flatten_def get_node_type_def node_def)

lemma get_node_type_builtin:
  "get_node_type SUPPORTED_NODES (IntO n) = None"
  "get_node_type SUPPORTED_NODES (Inst c a xs) = None"
  by (simp_all add: get_node_type_def)

lemmas builtin_simps = node_flatten_builtin get_node_type_builtin node_def tuple_unflatten_def list_unflatten_def
  dict_of_zip deque_of_fits list_all_iff

interpretation builtin: lawful_nodes "SUPPORTED_NODES :: ('k, 'a) registry" wf_obj
proof
  fix t :: "('k, 'a) obj"
  assume "wf_obj t" "get_node_type SUPPORTED_NODES t \<noteq> None"
  then show "\<exists>nt cs ctx. node_flatten SUPPORTED_NODES t = Inr (nt, cs, ctx) \<and> (\<forall>c \<in> set cs. wf_obj c \<and> size c < size t)"
    by (cases t) (auto simp: builtin_simps size_child intro: size_item)
next
  fix t :: "('k, 'a) obj" and nt ctx and cs cs' :: "('k, 'a) obj list" and nd :: "('k, 'a) node_def"
  assume "wf_obj t" "node_flatten SUPPORTED_NODES t = Inr (nt, cs, ctx)" "SUPPORTED_NODES nt = Some nd"
    "length cs' = length cs" "\<forall>c \<in> set cs'. wf_obj c"
  then show "\<exists>t'. unflatten_fn nd cs' ctx = Inr t' \<and> wf_obj t' \<and>
      node_flatten SUPPORTED_NODES t' = Inr (nt, cs', ctx) \<and> (cs' = cs \<longrightarrow> t' = t)"
    by (cases t) (auto simp: builtin_simps zip_map_fst_snd dest!: set_zip_rightD split: option.splits)
qed

interpretation builtin_keys: keyed_nodes "SUPPORTED_NODES :: ('k, 'a) registry" wf_obj
proof
  fix t :: "('k, 'a) obj" and nt cs ctx and nd :: "('k, 'a) node_def"
  assume "wf_obj t" "node_flatten SUPPORTED_NODES t = Inr (nt, cs, ctx)" "SUPPORTED_NODES nt = Some nd"
  then show "\<exists>fl kcs. flatten_with_keys_fn nd = Some fl \<and> fl t = Inr (kcs, ctx) \<and> map snd kcs = cs \<and>
        (\<forall>(k, c) \<in> set kcs. entry_get t k = Inr c)"
    by (cases t) (auto simp: builtin_simps tuple_flatten_with_keys_def list_flatten_with_keys_def
        deque_flatten_with_keys_def sequence_flatten_with_keys_def in_set_enumerate_eq zip_map_fst_snd map_snd_keyed)
qed


subsection \<open>Properties\<close>

text \<open>C4: flattening a well-formed object with enough recursion depth does not raise, for any
  \<open>is_leaf\<close> predicate; the spec counts the leaves, and \<open>tree_unflatten\<close> of the leaves and the
  spec is the object.\<close>

theorem tree_unflatten_flatten:
  assumes "wf_obj t" and "size t < depth"
  shows "\<exists>ls sp. tree_flatten SUPPORTED_NODES is_leaf depth t = Inr (ls, sp) \<and> num_leaves sp = length ls \<and>
    tree_unflatten SUPPORTED_NODES ls sp = Inr t"
proof -
  obtain ls sp where fl: "tree_flatten SUPPORTED_NODES is_leaf depth t = Inr (ls, sp)"
    using builtin.flatten_total[OF assms] by blast
  then show ?thesis
    using builtin.unflatten_flatten[OF assms(1) fl builtin.leaves_good[OF assms(1) fl]]
      builtin.flatten_num_leaves[OF fl] by blast
qed

theorem tree_unflatten_flatten_witness:
  "\<exists>ls sp. tree_flatten SUPPORTED_NODES None 50
      (DictO [(''a'', TupleO [IntO 1, ListO []]), (''b'', DequeO (Some 2) [Inst ''Tensor'' () []])]) = Inr (ls, sp) \<and>
    num_leaves sp = length ls \<and> tree_unflatten SUPPORTED_NODES ls sp =
      Inr (DictO [(''a'', TupleO [IntO 1, ListO []]), (''b'', DequeO (Some 2) [Inst ''Tensor'' () []])])"
  by (rule tree_unflatten_flatten) simp_all

text \<open>\<open>tree_map\<close> over one well-formed tree, with a function that returns leaves: the result
  has the same spec, and its leaves are the images of the leaves, in order.\<close>

theorem tree_map_structure:
  assumes "wf_obj t" and "size t < depth" and "tree_leaves SUPPORTED_NODES None depth t = Inr ls"
    and "traverse (\<lambda>l. f [l]) ls = Inr ys"
    and "\<forall>y \<in> set ys. wf_obj y \<and> get_node_type SUPPORTED_NODES y = None"
  shows "\<exists>t' sp. tree_map SUPPORTED_NODES None depth f t [] = Inr t' \<and>
    tree_structure SUPPORTED_NODES None depth t = Inr sp \<and> tree_flatten SUPPORTED_NODES None depth t' = Inr (ys, sp)"
proof -
  obtain sp where fl: "tree_flatten SUPPORTED_NODES None depth t = Inr (ls, sp)"
    using assms(3) by (auto simp: tree_leaves_def rbind_eq_Inr split: prod.splits)
  obtain t' where "tree_unflatten SUPPORTED_NODES ys sp = Inr t'" "tree_flatten SUPPORTED_NODES None depth t' = Inr (ys, sp)"
    using builtin.map_rebuild[OF assms(1) fl assms(4,5)] by blast
  then show ?thesis using fl assms(4) by (simp add: tree_map_def tree_structure_def)
qed

theorem tree_map_structure_witness:
  "\<exists>t' sp. tree_map SUPPORTED_NODES None 30 (\<lambda>xs. case xs of [IntO n] \<Rightarrow> Inr (IntO (n + 1)) | _ \<Rightarrow> Inl TypeError)
       (ListO [IntO 1, TupleO [IntO 2 :: (string, unit) obj]]) [] = Inr t' \<and>
    tree_structure SUPPORTED_NODES None 30 (ListO [IntO 1, TupleO [IntO 2]]) = Inr sp \<and>
    tree_flatten SUPPORTED_NODES None 30 t' = Inr ([IntO 2, IntO 3], sp)"
  by (rule tree_map_structure[where ls = "[IntO 1, IntO 2]"])
    (simp_all add: tree_leaves_def tree_is_leaf_def builtin_simps get_node_type_def eval_nat_numeral)

text \<open>\<open>tree_flatten_with_path\<close> lists the leaves that \<open>tree_flatten\<close> lists, and following the key
  path of an entry from the root with \<open>key_get\<close> arrives at that leaf.\<close>

theorem key_paths_resolve:
  assumes "wf_obj t" and "size t < depth"
  shows "\<exists>ps sp. tree_flatten_with_path SUPPORTED_NODES is_leaf depth t = Inr (ps, sp) \<and>
    tree_flatten SUPPORTED_NODES is_leaf depth t = Inr (map snd ps, sp) \<and>
    (\<forall>(path, l) \<in> set ps. key_get t path = Inr l)"
proof -
  obtain ls sp where fl: "tree_flatten SUPPORTED_NODES is_leaf depth t = Inr (ls, sp)"
    using builtin.flatten_total[OF assms] by blast
  then show ?thesis
    using builtin_keys.key_paths[OF assms(1) fl, of "[]"] by (auto simp: tree_flatten_with_path_def)
qed

theorem key_paths_resolve_witness:
  "\<exists>ps sp. tree_flatten_with_path SUPPORTED_NODES None 50
      (DictO [(''a'', NamedTupleO ''P'' [''x'', ''y''] [IntO 1, IntO 2])] :: (string, unit) obj) = Inr (ps, sp) \<and>
    tree_flatten SUPPORTED_NODES None 50
      (DictO [(''a'', NamedTupleO ''P'' [''x'', ''y''] [IntO 1, IntO 2])] :: (string, unit) obj) = Inr (map snd ps, sp) \<and>
    (\<forall>(path, l) \<in> set ps. key_get (DictO [(''a'', NamedTupleO ''P'' [''x'', ''y''] [IntO 1, IntO 2])]) path = Inr l)"
  by (rule key_paths_resolve) simp_all

text \<open>\<open>tree_iter\<close> yields exactly what \<open>tree_leaves\<close> returns, errors included, for every
  registry, predicate and depth.\<close>

theorem tree_iter_eq_tree_leaves: "tree_iter nodes is_leaf depth t = tree_leaves nodes is_leaf depth t"
  by (rule tree_iter_leaves)


text \<open>\<open>arg_tree_leaves\<close> gives the same answer as \<open>tree_leaves\<close> of the pair of the positional and
  the keyword arguments, two recursion levels deeper, errors included.\<close>

theorem arg_tree_leaves_pair:
  "arg_tree_leaves SUPPORTED_NODES depth args kwargs =
   tree_leaves SUPPORTED_NODES None (Suc (Suc depth)) (TupleO [TupleO args, DictO kwargs])"
proof -
  let ?fl = "tree_flatten SUPPORTED_NODES None depth"
  have tr: "traverse (tree_leaves SUPPORTED_NODES None depth) xs = rbind (traverse ?fl xs) (\<lambda>rs. Inr (map fst rs))" for xs
    unfolding traverse_post[symmetric] by (simp add: tree_leaves_def case_prod_beta' cong: traverse_cong)
  show ?thesis
    by (cases "traverse ?fl args"; cases "traverse ?fl (map snd kwargs)")
      (simp_all add: arg_tree_leaves_def tr tree_leaves_def tree_is_leaf_def builtin_simps get_node_type_def)
qed

subsection \<open>Prefix trees\<close>

lemma concat_map_concat: "concat (map f (concat xss)) = concat (map (\<lambda>xs. concat (map f xs)) xss)"
  by (induction xss) auto

lemma flatten_mono: "tree_flatten nodes p n t = Inr r \<Longrightarrow> tree_flatten nodes p (Suc n) t = Inr r"
proof (induction n arbitrary: t r)
  case (Suc n)
  have "traverse (tree_flatten nodes p (Suc n)) cs = Inr rs" if "traverse (tree_flatten nodes p n) cs = Inr rs" for cs rs
    using that Suc.IH unfolding traverse_Inr by (auto elim!: list_all2_mono simp del: tree_flatten.simps)
  then show ?case using Suc.prems
    by (subst tree_flatten.simps) (auto simp: rbind_eq_Inr split: if_splits prod.splits simp del: tree_flatten.simps(2)[of _ _ "Suc n"])
qed simp

lemma flatten_up_to_TreeE:
  assumes "flatten_up_to nodes t (TreeSpec nt ctx specs) = Inr xs"
  obtains cs xss where "node_flatten nodes t = Inr (nt, cs, ctx)" and "length cs = length specs"
    and "length xss = length specs" and "xs = concat xss"
    and "\<forall>i < length specs. flatten_up_to nodes (cs ! i) (specs ! i) = Inr (xss ! i)"
proof (cases "node_flatten nodes t")
  case (Inr r)
  then obtain nt' cs ctx' where r: "node_flatten nodes t = Inr (nt', cs, ctx')" by (cases r) auto
  have nt: "get_node_type nodes t = Some nt'" using get_node_type_node_flatten[OF r] by blast
  have eqs: "nt' = nt" "ctx' = ctx" "length cs = length specs"
    using assms nt r by (auto split: if_splits)
  with assms nt r obtain xss where xss: "traverse (\<lambda>(s, c). flatten_up_to nodes c s) (zip specs cs) = Inr xss" "xs = concat xss"
    by (auto simp: rbind_eq_Inr)
  then have "length xss = length specs" "\<forall>i < length specs. flatten_up_to nodes (cs ! i) (specs ! i) = Inr (xss ! i)"
    using eqs(3) by (auto simp: traverse_Inr list_all2_conv_all_nth)
  then show ?thesis using that eqs r xss(2) by blast
qed (use assms in \<open>auto split: if_splits\<close>)

lemma flatten_up_to_length: "flatten_up_to nodes t sp = Inr xs \<Longrightarrow> length xs = num_leaves sp"
proof (induction sp arbitrary: t xs)
  case (TreeSpec nt ctx specs)
  from flatten_up_to_TreeE[OF TreeSpec.prems] obtain cs xss where xss: "length xss = length specs"
    "xs = concat xss" "\<forall>i < length specs. flatten_up_to nodes (cs ! i) (specs ! i) = Inr (xss ! i)" .
  then have "map length xss = map num_leaves specs"
    using TreeSpec.IH by (intro nth_equalityI) auto
  then show ?case by (simp add: xss(2) length_concat)
qed auto

text \<open>Cutting a tree at a prefix spec and flattening the pieces gives the leaves of the tree.\<close>

lemma flatten_up_to_leaves:
  "flatten_up_to nodes t sp' = Inr subs \<Longrightarrow> tree_flatten nodes None n t = Inr (ls, sp) \<Longrightarrow>
   \<exists>rs. list_all2 (\<lambda>s r. tree_flatten nodes None n s = Inr r) subs rs \<and> concat (map fst rs) = ls"
proof (induction sp' arbitrary: t subs n ls sp)
  case LeafSpec
  then show ?case by (intro exI[of _ "[(ls, sp)]"]) auto
next
  case (TreeSpec nt ctx specs)
  from flatten_up_to_TreeE[OF TreeSpec.prems(1)] obtain cs xss where fl: "node_flatten nodes t = Inr (nt, cs, ctx)"
    and len: "length cs = length specs" "length xss = length specs" and subs: "subs = concat xss"
    and up: "\<forall>i < length specs. flatten_up_to nodes (cs ! i) (specs ! i) = Inr (xss ! i)" .
  obtain m where n: "n = Suc m" using TreeSpec.prems(2) by (cases n) auto
  have "\<not> tree_is_leaf nodes None t" using get_node_type_node_flatten[OF fl] by (auto simp: tree_is_leaf_def)
  then obtain rs where rs: "list_all2 (\<lambda>c r. tree_flatten nodes None m c = Inr r) cs rs" "ls = concat (map fst rs)"
    using TreeSpec.prems(2) fl by (auto simp: n rbind_eq_Inr traverse_Inr)
  have "\<exists>qs. list_all2 (\<lambda>s r. tree_flatten nodes None n s = Inr r) (xss ! i) qs \<and> concat (map fst qs) = fst (rs ! i)"
    if i: "i < length specs" for i
  proof -
    have r: "tree_flatten nodes None m (cs ! i) = Inr (fst (rs ! i), snd (rs ! i))"
      using rs(1) i len(1) by (auto simp: list_all2_conv_all_nth)
    obtain qs where "list_all2 (\<lambda>s r. tree_flatten nodes None m s = Inr r) (xss ! i) qs" "concat (map fst qs) = fst (rs ! i)"
      using TreeSpec.IH[OF nth_mem[OF i] _ r] up i by blast
    then show ?thesis unfolding n
      by (intro exI[of _ qs]) (auto elim!: list_all2_mono intro: flatten_mono simp del: tree_flatten.simps)
  qed
  then obtain q where q: "\<forall>i < length specs. list_all2 (\<lambda>s r. tree_flatten nodes None n s = Inr r) (xss ! i) (q i) \<and>
      concat (map fst (q i)) = fst (rs ! i)" by metis
  let ?qs = "map q [0..<length specs]"
  have "list_all2 (\<lambda>s r. tree_flatten nodes None n s = Inr r) (concat xss) (concat ?qs)"
    using q len(2) by (intro concat_transfer[THEN rel_funD]) (auto simp: list_all2_conv_all_nth)
  moreover have "map (\<lambda>qs. concat (map fst qs)) ?qs = map fst rs"
    using q rs(1) len(1) by (intro nth_equalityI) (auto simp: list_all2_lengthD[symmetric])
  then have "concat (map fst (concat ?qs)) = concat (map fst rs)"
    by (simp add: concat_map_concat)
  ultimately show ?case using subs rs(2) by (intro exI[of _ "concat ?qs"]) simp
qed


lemma zip_rows_pair: "length xs = length ys \<Longrightarrow> zip_rows xs [ys] = map2 (\<lambda>x y. [x, y]) xs ys"
  by (rule nth_equalityI) (auto simp: zip_rows_def)

lemma foldM_add_leaves:
  assumes "list_all2 (\<lambda>s r. tree_flatten nodes p n s = Inr r) subs rs" and "length xs = length subs"
  shows "foldM (add_leaves nodes p n) acc (map2 (\<lambda>x y. [x, y]) xs subs) =
    Inr (acc @ concat (map2 (\<lambda>x r. replicate (num_leaves (snd r)) x) xs rs))"
  using assms
proof (induction subs rs arbitrary: xs acc rule: list_all2_induct)
  case (Cons s subs r rs)
  then obtain x xs' where xs: "xs = x # xs'" "length xs' = length subs" by (cases xs) auto
  have "add_leaves nodes p n acc [x, s] = Inr (acc @ replicate (num_leaves (snd r)) x)"
    using Cons.hyps(1) by (cases r) (simp add: add_leaves_def tree_structure_def)
  then show ?case using Cons.IH[OF xs(2)] by (simp add: xs(1))
qed simp

text \<open>On well-formed objects \<open>flatten_up_to\<close> can only raise ValueError.\<close>

context lawful_nodes
begin

lemma flatten_up_to_error: "good t \<Longrightarrow> flatten_up_to nodes t sp = Inl e \<Longrightarrow> e = ValueError"
proof (induction sp arbitrary: t)
  case (TreeSpec nt ctx specs)
  show ?case
  proof (cases "get_node_type nodes t = Some nt")
    case True
    then obtain nt' cs ctx' where fl: "node_flatten nodes t = Inr (nt', cs, ctx')" and cs: "\<forall>c \<in> set cs. good c"
      using flatten_ok[OF TreeSpec.prems(1)] by auto
    show ?thesis
    proof (cases "ctx' = ctx \<and> length cs = length specs")
      case True
      then have "traverse (\<lambda>(s, c). flatten_up_to nodes c s) (zip specs cs) = Inl e"
        using TreeSpec.prems(2) fl \<open>get_node_type nodes t = Some nt\<close> by (auto simp: rbind_eq_Inl)
      then obtain s c where "(s, c) \<in> set (zip specs cs)" "flatten_up_to nodes c s = Inl e"
        by (auto dest!: traverse_Inl)
      then show ?thesis using TreeSpec.IH cs by (meson set_zip_leftD set_zip_rightD)
    next
      case False
      then show ?thesis using TreeSpec.prems(2) fl \<open>get_node_type nodes t = Some nt\<close> by (auto split: if_splits)
    qed
  qed (use TreeSpec.prems in auto)
qed simp

lemma broadcast_total:
  assumes "good t" and "size t < n" and "good t0" and "tree_flatten nodes None n t0 = Inr (ls0, spec)"
    and "good (IntO 0)" and "get_node_type nodes (IntO 0) = None"
  shows "\<exists>r. broadcast_to_and_flatten nodes None n t spec = Inr r \<and>
    (\<forall>res. r = Some res \<longrightarrow> length res = num_leaves spec)"
proof -
  let ?zeros = "replicate (num_leaves spec) (IntO 0)"
  have len: "length ?zeros = length ls0" using flatten_num_leaves[OF assms(4)] by simp
  have zeros: "\<forall>x \<in> set ?zeros. good x" "new_leaves nodes None ?zeros" using assms(5,6) by (auto simp: new_leaves_def)
  obtain full where full: "unflatten_from nodes (?zeros @ []) spec = Inr (full, [])" "good full"
    "tree_flatten nodes None n full = Inr (?zeros, spec)"
    by (rule rebuildsD[OF flatten_rebuilds[OF assms(4,3)] len zeros(1), of "[]"]) (use zeros(2) in blast)
  obtain ls sp where fl: "tree_flatten nodes None n t = Inr (ls, sp)" using flatten_total[OF assms(1,2)] by blast
  have unfl: "tree_unflatten nodes ?zeros spec = Inr full" using full(1) by (simp add: tree_unflatten_def)
  show ?thesis
  proof (cases "flatten_up_to nodes full sp")
    case (Inl e)
    then have "e = ValueError" using flatten_up_to_error[OF full(2)] by blast
    then show ?thesis using Inl unfl fl
      by (simp add: broadcast_to_and_flatten_def tree_map_inplace_def flatten_up_to_all_def)
  next
    case (Inr subs)
    have lens: "length ls = length subs"
      using flatten_up_to_length[OF Inr] flatten_num_leaves[OF fl] by simp
    obtain rs where rs: "list_all2 (\<lambda>s r. tree_flatten nodes None n s = Inr r) subs rs" "concat (map fst rs) = ?zeros"
      using flatten_up_to_leaves[OF Inr full(3)] by blast
    let ?res = "concat (map2 (\<lambda>x r. replicate (num_leaves (snd r)) x) ls rs)"
    have "broadcast_to_and_flatten nodes None n t spec = Inr (Some ?res)"
      using unfl fl Inr foldM_add_leaves[OF rs(1) lens, of "[]"] zip_rows_pair[OF lens]
      by (simp add: broadcast_to_and_flatten_def tree_map_inplace_def flatten_up_to_all_def)
    moreover have "map2 (\<lambda>x r. num_leaves (snd r)) ls rs = map (length \<circ> fst) rs"
      using rs(1) lens by (intro nth_equalityI)
        (auto simp: list_all2_conv_all_nth dest!: flatten_num_leaves[where ls = "fst r" and sp = "snd r" for r, simplified])
    then have "length ?res = length (concat (map fst rs))"
      by (simp add: length_concat comp_def case_prod_beta')
    ultimately show ?thesis using rs(2) by simp
  qed
qed

end

text \<open>Broadcasting a prefix tree to the spec of another tree, with enough recursion depth, never
  raises: the answer is None for incompatible structures, or one value per leaf of the spec.\<close>

theorem broadcast_length:
  assumes "wf_obj t" and "size t < depth" and "wf_obj t0" and "size t0 < depth"
    and "tree_structure SUPPORTED_NODES None depth t0 = Inr spec"
  shows "\<exists>r. broadcast_to_and_flatten SUPPORTED_NODES None depth t spec = Inr r \<and>
    (\<forall>res. r = Some res \<longrightarrow> length res = num_leaves spec)"
proof -
  obtain ls where fl: "tree_flatten SUPPORTED_NODES None depth t0 = Inr (ls, spec)"
    using assms(5) by (auto simp: tree_structure_def rbind_eq_Inr)
  show ?thesis by (rule builtin.broadcast_total[OF assms(1-3) fl]) (simp_all add: get_node_type_def)
qed

theorem broadcast_length_witness:
  "\<exists>r. broadcast_to_and_flatten SUPPORTED_NODES None 20 (TupleO [IntO 0, IntO 1 :: (string, unit) obj])
        (TreeSpec TupleT CtxNone [LeafSpec, TreeSpec ListT CtxNone [LeafSpec, LeafSpec]]) = Inr r \<and>
    (\<forall>res. r = Some res \<longrightarrow>
      length res = num_leaves (TreeSpec TupleT CtxNone [LeafSpec, TreeSpec ListT (CtxNone :: (string, unit) node_context) [LeafSpec, LeafSpec]]))"
  by (rule broadcast_length[where ?t0.0 = "TupleO [IntO 7, ListO [IntO 8, IntO 9]]"])
    (simp_all add: tree_structure_def tree_is_leaf_def builtin_simps get_node_type_def eval_nat_numeral)

end
