(* ===== verification/Rendezvous.thy ===== *)
theory Rendezvous
  imports Prelude "HOL-Library.AList" "HOL-Library.Product_Lexorder" "HOL-Library.List_Lexorder"
    "HOL-Library.Char_ord"
begin

text \<open>
  The elastic rendezvous, \<^verbatim>\<open>src/tensorplay/distributed/elastic/rendezvous/dynamic_rendezvous.py\<close> and the
  compare-and-swap backend of \<^verbatim>\<open>core_rendezvous_backend.py\<close>: agents agree on the participants of a
  training round and on their ranks through one shared state document. Times are integers in
  milliseconds, and every reading of a clock is an argument. Pickling and base64 are library
  code: the backend stores the state value itself. Dictionaries are association lists in insertion
  order, sets are sets.
\<close>

subsection \<open>Data\<close>

datatype rdzv_error =
    RendezvousClosedError | RendezvousTimeoutError | RendezvousStateError | RendezvousGracefulExitError

record rdzv_settings =
  run_id :: string
  min_nodes :: nat
  max_nodes :: nat
  t_join :: int
  t_last_call :: int
  t_close :: int
  t_heartbeat :: int
  keep_alive_interval :: int
  keep_alive_max_attempt :: int

datatype node_desc = NodeDesc (addr: string) (pid: int) (local_id: int)

text \<open>The order of \<open>@dataclass(order=True)\<close>: the fields are compared as a tuple.\<close>

definition desc_key :: "node_desc \<Rightarrow> string \<times> int \<times> int" where
  "desc_key n = (addr n, pid n, local_id n)"

lemma desc_key_inject: "desc_key a = desc_key b \<longleftrightarrow> a = b"
  by (cases a; cases b) (simp add: desc_key_def)

instantiation node_desc :: linorder
begin

definition less_eq_node_desc :: "node_desc \<Rightarrow> node_desc \<Rightarrow> bool" where
  "less_eq_node_desc a b \<longleftrightarrow> desc_key a \<le> desc_key b"

definition less_node_desc :: "node_desc \<Rightarrow> node_desc \<Rightarrow> bool" where
  "less_node_desc a b \<longleftrightarrow> desc_key a < desc_key b"

instance
  by intro_classes (auto simp: less_eq_node_desc_def less_node_desc_def desc_key_inject less_le)

end

text \<open>\<open>_NodeDescGenerator.generate\<close>: the counter is read and incremented under the lock.\<close>

definition generate :: "string \<Rightarrow> int \<Rightarrow> int \<Rightarrow> node_desc \<times> int" where
  "generate local_addr process counter = (NodeDesc local_addr process counter, counter + 1)"

record rdzv_state =
  round :: nat
  complete :: bool
  deadline :: "int option"
  closed :: bool
  participants :: "(node_desc \<times> nat) list"
  wait_list :: "node_desc set"
  redundancy_list :: "node_desc set"
  last_heartbeats :: "(node_desc \<times> int) list"

definition initial_state :: rdzv_state where
  "initial_state = \<lparr>round = 0, complete = False, deadline = None, closed = False, participants = [],
     wait_list = {}, redundancy_list = {}, last_heartbeats = []\<rparr>"

text \<open>Dropping one node from every collection of the state.\<close>

definition forget :: "node_desc \<Rightarrow> rdzv_state \<Rightarrow> rdzv_state" where
  "forget node st = st\<lparr>last_heartbeats := AList.delete node (last_heartbeats st),
     participants := AList.delete node (participants st),
     wait_list := wait_list st - {node}, redundancy_list := redundancy_list st - {node}\<rparr>"

definition prune_dead_nodes :: "int \<Rightarrow> int \<Rightarrow> rdzv_state \<Rightarrow> node_desc list \<times> rdzv_state" where
  "prune_dead_nodes now expire st =
     (let dead = map fst (filter (\<lambda>(node, heartbeat). now - heartbeat > expire) (last_heartbeats st))
      in (dead, foldl (\<lambda>s node. forget node s) st dead))"

definition remove_participant_epilogue :: "rdzv_settings \<Rightarrow> rdzv_state \<Rightarrow> rdzv_state" where
  "remove_participant_epilogue S st =
     (if complete st then (if participants st = [] then st\<lparr>complete := False, round := round st + 1\<rparr> else st)
      else if length (participants st) < min_nodes S then st\<lparr>deadline := None\<rparr>
      else st)"

subsection \<open>Backend\<close>

text \<open>The stored document: the state and its token, absent before the first write.\<close>

type_synonym store = "(rdzv_state \<times> int) option"

definition get_state :: "store \<Rightarrow> (rdzv_state \<times> int) option" where
  "get_state st = st"

text \<open>\<open>set_state\<close> reads the document (\<open>seen\<close>) and then swaps it atomically if the store still holds
  what was read; other agents may write in between. When the swap fails and the store is empty the
  method returns an empty document, which does not unpickle.\<close>

definition set_state ::
  "store \<Rightarrow> store \<Rightarrow> rdzv_state \<Rightarrow> int option \<Rightarrow> (rdzv_error + (rdzv_state \<times> int)) \<times> store" where
  "set_state seen current value token =
     (let tok = (case token of None \<Rightarrow> 0 | Some t \<Rightarrow> t) in
      case seen of
        Some (s, t) \<Rightarrow>
          if t \<noteq> tok then (Inr (s, t), current)
          else if current = seen then (Inr (value, tok + 1), Some (value, tok + 1))
          else (case current of None \<Rightarrow> (Inl RendezvousStateError, current) | Some d \<Rightarrow> (Inr d, current))
      | None \<Rightarrow>
          if current = None then (Inr (value, tok + 1), Some (value, tok + 1))
          else (case current of None \<Rightarrow> (Inl RendezvousStateError, current) | Some d \<Rightarrow> (Inr d, current)))"

subsection \<open>State holder\<close>

record holder =
  h_state :: rdzv_state
  h_token :: "int option"
  h_dirty :: bool
  h_last_sync :: int
  h_dead_nodes :: "node_desc list"

definition initial_holder :: holder where
  "initial_holder = \<lparr>h_state = initial_state, h_token = None, h_dirty = False, h_last_sync = -1, h_dead_nodes = []\<rparr>"

definition dead_nodes :: "rdzv_settings \<Rightarrow> int \<Rightarrow> rdzv_state \<Rightarrow> node_desc list" where
  "dead_nodes S now st =
     map fst (filter (\<lambda>(node, heartbeat). heartbeat < now - keep_alive_interval S * keep_alive_max_attempt S)
       (last_heartbeats st))"

definition sanitize :: "rdzv_settings \<Rightarrow> int \<Rightarrow> holder \<Rightarrow> holder" where
  "sanitize S now h =
     (let st = h_state h; dead = dead_nodes S now st;
          removed = list_ex (\<lambda>node. node \<in> fst ` set (participants st)) dead;
          st' = foldl (\<lambda>s node. forget node s) st dead
      in if removed
         then h\<lparr>h_dead_nodes := dead, h_state := remove_participant_epilogue S st', h_dirty := True\<rparr>
         else h\<lparr>h_dead_nodes := dead, h_state := st'\<rparr>)"

text \<open>The end of \<open>sync\<close>: adopt the document that the backend returned.\<close>

definition adopt :: "rdzv_settings \<Rightarrow> int \<Rightarrow> int \<Rightarrow> (rdzv_state \<times> int) option \<Rightarrow> holder \<Rightarrow> holder" where
  "adopt S now tick doc h =
     sanitize S now (h\<lparr>
       h_state := (case doc of None \<Rightarrow> initial_state | Some (s, t) \<Rightarrow> s),
       h_token := (case doc of None \<Rightarrow> None | Some (s, t) \<Rightarrow> Some t),
       h_dirty := False, h_last_sync := tick\<rparr>)"

text \<open>\<open>sync\<close> with the cache duration in milliseconds. The third component is \<open>has_set\<close>.\<close>

definition sync ::
  "rdzv_settings \<Rightarrow> int \<Rightarrow> int \<Rightarrow> int \<Rightarrow> store \<Rightarrow> holder \<Rightarrow> store \<Rightarrow> (rdzv_error + holder \<times> bool option) \<times> store" where
  "sync S cache now tick seen h current =
     (if h_dirty h then
        (case set_state seen current (h_state h) (h_token h) of
           (Inl e, current') \<Rightarrow> (Inl e, current')
         | (Inr (s, t), current') \<Rightarrow> (Inr (adopt S now tick (Some (s, t)) h, Some (s = h_state h)), current'))
      else if cache \<noteq> 0 \<and> h_last_sync h \<ge> max (tick - cache) 0 then (Inr (h, None), current)
      else (Inr (adopt S now tick (get_state current) h, None), current))"

definition mark_dirty :: "holder \<Rightarrow> holder" where
  "mark_dirty h = h\<lparr>h_dirty := True\<rparr>"

subsection \<open>Actions\<close>

datatype rdzv_action =
    KEEP_ALIVE | ADD_TO_PARTICIPANTS | ADD_TO_WAIT_LIST | ADD_TO_REDUNDANCY_LIST
  | REMOVE_FROM_PARTICIPANTS | REMOVE_FROM_WAIT_LIST | REMOVE_FROM_REDUNDANCY_LIST
  | MARK_RENDEZVOUS_COMPLETE | MARK_RENDEZVOUS_CLOSED | SYNC | ERROR_CLOSED | ERROR_TIMEOUT | FINISH

definition keep_alive :: "int \<Rightarrow> node_desc \<Rightarrow> rdzv_state \<Rightarrow> rdzv_state" where
  "keep_alive now node st = st\<lparr>last_heartbeats := AList.update node now (last_heartbeats st)\<rparr>"

definition mark_rendezvous_complete :: "rdzv_state \<Rightarrow> rdzv_state" where
  "mark_rendezvous_complete st = st\<lparr>complete := True, deadline := None,
     participants := foldl (\<lambda>ps (rank, node). AList.update node rank ps) (participants st)
       (enumerate 0 (sort (map fst (participants st))))\<rparr>"

definition add_to_participants :: "rdzv_settings \<Rightarrow> int \<Rightarrow> node_desc \<Rightarrow> rdzv_state \<Rightarrow> rdzv_state" where
  "add_to_participants S now node st =
     (let st1 = st\<lparr>wait_list := wait_list st - {node}, participants := AList.update node 0 (participants st)\<rparr>;
          st2 = keep_alive now node st1;
          st3 = (if length (participants st2) = min_nodes S then st2\<lparr>deadline := Some (now + t_last_call S)\<rparr> else st2)
      in if length (participants st3) = max_nodes S then mark_rendezvous_complete st3 else st3)"

definition add_to_wait_list :: "int \<Rightarrow> node_desc \<Rightarrow> rdzv_state \<Rightarrow> rdzv_state" where
  "add_to_wait_list now node st =
     keep_alive now node (st\<lparr>redundancy_list := redundancy_list st - {node}, wait_list := insert node (wait_list st)\<rparr>)"

definition add_to_redundancy_list :: "int \<Rightarrow> node_desc \<Rightarrow> rdzv_state \<Rightarrow> rdzv_state" where
  "add_to_redundancy_list now node st =
     keep_alive now node (st\<lparr>redundancy_list := insert node (redundancy_list st)\<rparr>)"

definition remove_from_participants :: "rdzv_settings \<Rightarrow> node_desc \<Rightarrow> rdzv_state \<Rightarrow> rdzv_state" where
  "remove_from_participants S node st =
     remove_participant_epilogue S (st\<lparr>participants := AList.delete node (participants st),
       last_heartbeats := AList.delete node (last_heartbeats st)\<rparr>)"

definition remove_from_wait_list :: "node_desc \<Rightarrow> rdzv_state \<Rightarrow> rdzv_state" where
  "remove_from_wait_list node st = st\<lparr>wait_list := wait_list st - {node},
     last_heartbeats := AList.delete node (last_heartbeats st)\<rparr>"

definition remove_from_redundancy_list :: "node_desc \<Rightarrow> rdzv_state \<Rightarrow> rdzv_state" where
  "remove_from_redundancy_list node st = st\<lparr>redundancy_list := redundancy_list st - {node},
     last_heartbeats := AList.delete node (last_heartbeats st)\<rparr>"

definition mark_rendezvous_closed :: "rdzv_state \<Rightarrow> rdzv_state" where
  "mark_rendezvous_closed st = st\<lparr>closed := True\<rparr>"

text \<open>The dispatch of \<open>run\<close> on the actions that change the state.\<close>

fun apply_action :: "rdzv_settings \<Rightarrow> int \<Rightarrow> node_desc \<Rightarrow> rdzv_action \<Rightarrow> rdzv_state \<Rightarrow> rdzv_state" where
  "apply_action S now node KEEP_ALIVE st = keep_alive now node st"
| "apply_action S now node ADD_TO_PARTICIPANTS st = add_to_participants S now node st"
| "apply_action S now node ADD_TO_WAIT_LIST st = add_to_wait_list now node st"
| "apply_action S now node ADD_TO_REDUNDANCY_LIST st = add_to_redundancy_list now node st"
| "apply_action S now node REMOVE_FROM_PARTICIPANTS st = remove_from_participants S node st"
| "apply_action S now node REMOVE_FROM_WAIT_LIST st = remove_from_wait_list node st"
| "apply_action S now node REMOVE_FROM_REDUNDANCY_LIST st = remove_from_redundancy_list node st"
| "apply_action S now node MARK_RENDEZVOUS_COMPLETE st = mark_rendezvous_complete st"
| "apply_action S now node MARK_RENDEZVOUS_CLOSED st = mark_rendezvous_closed st"
| "apply_action S now node _ st = st"

subsection \<open>Operations\<close>

definition should_keep_alive :: "rdzv_settings \<Rightarrow> int \<Rightarrow> node_desc \<Rightarrow> rdzv_state \<Rightarrow> bool" where
  "should_keep_alive S now node st =
     (case map_of (last_heartbeats st) node of None \<Rightarrow> False | Some hb \<Rightarrow> hb \<le> now - keep_alive_interval S)"

definition is_participant :: "node_desc \<Rightarrow> rdzv_state \<Rightarrow> bool" where
  "is_participant node st \<longleftrightarrow> node \<in> fst ` set (participants st)"

type_synonym rdzv_op = "rdzv_settings \<Rightarrow> int \<Rightarrow> int \<Rightarrow> int \<Rightarrow> node_desc \<Rightarrow> rdzv_state \<Rightarrow> rdzv_error + rdzv_action"

text \<open>Arguments of an operation: settings, wall clock, monotonic clock, deadline, node, state.\<close>

definition exit_op :: rdzv_op where
  "exit_op S now tick limit node st =
     (if \<not> is_participant node st then Inr FINISH
      else if tick \<le> limit then Inr REMOVE_FROM_PARTICIPANTS else Inr ERROR_TIMEOUT)"

definition keep_alive_or_sync :: "rdzv_settings \<Rightarrow> int \<Rightarrow> node_desc \<Rightarrow> rdzv_state \<Rightarrow> rdzv_action" where
  "keep_alive_or_sync S now node st = (if should_keep_alive S now node st then KEEP_ALIVE else SYNC)"

definition join_op :: rdzv_op where
  "join_op S now tick limit node st =
     (if closed st then (if node \<in> redundancy_list st then Inl RendezvousGracefulExitError else Inr ERROR_CLOSED)
      else if node \<in> redundancy_list st then
        (if length (participants st) = max_nodes S then Inr (keep_alive_or_sync S now node st)
         else Inr REMOVE_FROM_REDUNDANCY_LIST)
      else if complete st \<and> is_participant node st then Inr FINISH
      else if tick > limit then
        (if tick \<le> limit + 5000 \<and> is_participant node st then Inr REMOVE_FROM_PARTICIPANTS
         else if tick \<le> limit + 5000 \<and> node \<in> wait_list st then Inr REMOVE_FROM_WAIT_LIST
         else Inr ERROR_TIMEOUT)
      else if complete st then
        (if length (participants st) < max_nodes S \<and> node \<notin> wait_list st then Inr ADD_TO_WAIT_LIST
         else if \<not> length (participants st) < max_nodes S \<and> node \<notin> redundancy_list st \<and> node \<notin> wait_list st
         then Inr ADD_TO_REDUNDANCY_LIST
         else Inr (keep_alive_or_sync S now node st))
      else if is_participant node st then
        (if min_nodes S \<le> length (participants st) \<and> length (participants st) \<le> max_nodes S \<and>
            (case deadline st of None \<Rightarrow> False | Some d \<Rightarrow> d < now)
         then Inr MARK_RENDEZVOUS_COMPLETE
         else Inr (keep_alive_or_sync S now node st))
      else Inr ADD_TO_PARTICIPANTS)"

definition close_op :: rdzv_op where
  "close_op S now tick limit node st =
     (if closed st then Inr FINISH else if tick > limit then Inr ERROR_TIMEOUT else Inr MARK_RENDEZVOUS_CLOSED)"

definition keep_alive_op :: rdzv_op where
  "keep_alive_op S now tick limit node st =
     (if \<not> should_keep_alive S now node st then Inr FINISH
      else if tick \<le> limit then Inr KEEP_ALIVE else Inr ERROR_TIMEOUT)"

subsection \<open>Executor and handler\<close>

datatype run_result = Finished holder store | Raised rdzv_error holder store | Running holder store

text \<open>The loop of \<open>run\<close>: one pair of clock readings (wall, monotonic) per iteration; \<open>Running\<close> when the
  readings are used up. No other agent writes during the run. \<open>rejoin\<close> is the timeout that
  \<open>update_deadline\<close> restarts after leaving the redundancy list.\<close>

fun executor_run ::
  "rdzv_settings \<Rightarrow> int \<Rightarrow> node_desc \<Rightarrow> rdzv_op \<Rightarrow> int option \<Rightarrow> int \<Rightarrow> (int \<times> int) list \<Rightarrow> holder \<Rightarrow> store \<Rightarrow> run_result" where
  "executor_run S cache node op rejoin limit [] h st = Running h st"
| "executor_run S cache node op rejoin limit ((now, tick) # env) h st =
     (case sync S cache now tick st h st of
        (Inl e, st') \<Rightarrow> Raised e h st'
      | (Inr (h', _), st') \<Rightarrow>
          (case op S now tick limit node (h_state h') of
             Inl e \<Rightarrow> Raised e h' st'
           | Inr FINISH \<Rightarrow> Finished h' st'
           | Inr ERROR_CLOSED \<Rightarrow> Raised RendezvousClosedError h' st'
           | Inr ERROR_TIMEOUT \<Rightarrow> Raised RendezvousTimeoutError h' st'
           | Inr SYNC \<Rightarrow> executor_run S cache node op rejoin limit env h' st'
           | Inr a \<Rightarrow> executor_run S cache node op rejoin
               (case rejoin of Some t \<Rightarrow> (if a = REMOVE_FROM_REDUNDANCY_LIST then tick + t else limit) | None \<Rightarrow> limit)
               env (mark_dirty (h'\<lparr>h_state := apply_action S now node a (h_state h')\<rparr>)) st'))"

text \<open>\<open>_get_world\<close>: rank and world size; KeyError when the node is not a participant.\<close>

definition get_world :: "node_desc \<Rightarrow> rdzv_state \<Rightarrow> (nat \<times> nat) result" where
  "get_world node st =
     (case map_of (participants st) node of
        None \<Rightarrow> Inl KeyError
      | Some rank \<Rightarrow> Inr (rank, length (participants st)))"

text \<open>\<open>next_rendezvous\<close> up to the rank and the world size: leave the previous round, join, read the world.\<close>

definition next_rendezvous ::
  "rdzv_settings \<Rightarrow> int \<Rightarrow> node_desc \<Rightarrow> int \<Rightarrow> (int \<times> int) list \<Rightarrow> (int \<times> int) list \<Rightarrow> holder \<Rightarrow> store \<Rightarrow>
   (run_result \<times> (nat \<times> nat) result option)" where
  "next_rendezvous S cache node start env_exit env_join h st =
     (case executor_run S cache node exit_op None (start + t_join S) env_exit h st of
        Finished h' st' \<Rightarrow>
          (case executor_run S cache node join_op (Some (t_join S)) (start + t_join S) env_join h' st' of
             Finished h'' st'' \<Rightarrow> (Finished h'' st'', Some (get_world node (h_state h'')))
           | r \<Rightarrow> (r, None))
      | r \<Rightarrow> (r, None))"

definition is_closed :: "rdzv_settings \<Rightarrow> int \<Rightarrow> int \<Rightarrow> int \<Rightarrow> store \<Rightarrow> holder \<Rightarrow> store \<Rightarrow> (rdzv_error + holder \<times> bool) \<times> store" where
  "is_closed S cache now tick seen h st =
     (case sync S cache now tick seen h st of
        (Inl e, st') \<Rightarrow> (Inl e, st')
      | (Inr (h', _), st') \<Rightarrow> (Inr (h', closed (h_state h')), st'))"

definition num_nodes_waiting :: "rdzv_settings \<Rightarrow> int \<Rightarrow> int \<Rightarrow> int \<Rightarrow> store \<Rightarrow> holder \<Rightarrow> store \<Rightarrow> (rdzv_error + holder \<times> nat) \<times> store" where
  "num_nodes_waiting S cache now tick seen h st =
     (case sync S cache now tick seen h st of
        (Inl e, st') \<Rightarrow> (Inl e, st')
      | (Inr (h', _), st') \<Rightarrow> (Inr (h', card (wait_list (h_state h'))), st'))"

definition set_closed :: "rdzv_settings \<Rightarrow> int \<Rightarrow> node_desc \<Rightarrow> int \<Rightarrow> (int \<times> int) list \<Rightarrow> holder \<Rightarrow> store \<Rightarrow> run_result" where
  "set_closed S cache node start env h st = executor_run S cache node close_op None (start + t_close S) env h st"

text \<open>\<open>shutdown\<close> answers whether closing succeeded; None while it has not ended.\<close>

definition shutdown :: "rdzv_settings \<Rightarrow> int \<Rightarrow> node_desc \<Rightarrow> int \<Rightarrow> (int \<times> int) list \<Rightarrow> holder \<Rightarrow> store \<Rightarrow> bool option" where
  "shutdown S cache node start env h st =
     (case set_closed S cache node start env h st of
        Finished _ _ \<Rightarrow> Some True | Raised _ _ _ \<Rightarrow> Some False | Running _ _ \<Rightarrow> None)"

definition handler_keep_alive :: "rdzv_settings \<Rightarrow> int \<Rightarrow> node_desc \<Rightarrow> int \<Rightarrow> (int \<times> int) list \<Rightarrow> holder \<Rightarrow> store \<Rightarrow> run_result" where
  "handler_keep_alive S cache node start env h st =
     executor_run S cache node keep_alive_op None (start + t_heartbeat S) env h st"

text \<open>The checks of the handler's constructor on its settings.\<close>

definition handler_settings_ok :: "rdzv_settings \<Rightarrow> unit result" where
  "handler_settings_ok S =
     rbind (require (run_id S \<noteq> []) ValueError) (\<lambda>_.
     rbind (require (\<not> min_nodes S < 1) ValueError) (\<lambda>_.
     require (\<not> max_nodes S < min_nodes S) ValueError))"


subsection \<open>Ranks of a completed round\<close>

lemma foldl_update_keys:
  "\<forall>(r, n) \<in> set es. n \<in> fst ` set ps \<Longrightarrow>
   map fst (foldl (\<lambda>ps (r, n). AList.update n r ps) ps es) = map fst ps"
proof (induction es arbitrary: ps)
  case (Cons e es)
  obtain r n where e: "e = (r, n)" by (cases e)
  have keys: "map fst (AList.update n r ps) = map fst ps" using Cons.prems by (simp add: e update_keys)
  then have "fst ` set (AList.update n r ps) = fst ` set ps" by (metis set_map)
  then show ?case using Cons keys by (simp add: e)
qed simp

lemma foldl_update_map_of:
  "distinct (map snd es) \<Longrightarrow> map_of (foldl (\<lambda>ps (r, n). AList.update n r ps) ps es) k =
   (case map_of (map prod.swap es) k of None \<Rightarrow> map_of ps k | Some r \<Rightarrow> Some r)"
proof (induction es arbitrary: ps)
  case (Cons e es)
  obtain r n where e: "e = (r, n)" by (cases e)
  have "map_of (map prod.swap es) n = None"
    using Cons.prems by (force simp: e map_of_eq_None_iff)
  then show ?case using Cons by (auto simp: e update_conv' split: option.splits)
qed simp

lemma sort_keys_nth: "i < length ps \<Longrightarrow> sort (map fst ps) ! i \<in> fst ` set ps"
  by (metis length_map length_sort nth_mem set_map set_sort)

lemma mark_complete_participants:
  assumes "distinct (map fst (participants st))"
  shows "map fst (participants (mark_rendezvous_complete st)) = map fst (participants st)"
    and "i < length (participants st) \<Longrightarrow>
      map_of (participants (mark_rendezvous_complete st)) (sort (map fst (participants st)) ! i) = Some i"
proof -
  let ?ks = "sort (map fst (participants st))"
  let ?es = "enumerate 0 ?ks"
  have es: "map snd ?es = ?ks" by simp
  show "map fst (participants (mark_rendezvous_complete st)) = map fst (participants st)"
    unfolding mark_rendezvous_complete_def
    by (simp, rule foldl_update_keys) (auto simp: in_set_enumerate_eq sort_keys_nth)
  have "map_of (map prod.swap ?es) (?ks ! i) = Some i" if "i < length (participants st)"
  proof (rule map_of_is_SomeI)
    have "map fst (map prod.swap ?es) = ?ks" by (rule nth_equalityI) (auto simp: nth_enumerate_eq)
    then show "distinct (map fst (map prod.swap ?es))" using assms by (metis distinct_sort)
    have "(i, ?ks ! i) \<in> set ?es" using that by (simp add: in_set_enumerate_eq)
    then show "(?ks ! i, i) \<in> set (map prod.swap ?es)" by force
  qed
  then show "i < length (participants st) \<Longrightarrow>
      map_of (participants (mark_rendezvous_complete st)) (?ks ! i) = Some i"
    unfolding mark_rendezvous_complete_def using assms by (simp add: foldl_update_map_of)
qed

lemma mark_complete_ranks:
  assumes "distinct (map fst (participants st))"
  shows "set (map snd (participants (mark_rendezvous_complete st))) = {0..<length (participants st)}"
    and "distinct (map snd (participants (mark_rendezvous_complete st)))"
proof -
  let ?ps = "participants (mark_rendezvous_complete st)"
  let ?ks = "sort (map fst (participants st))"
  let ?n = "length (participants st)"
  note keys = mark_complete_participants(1)[OF assms]
  have dist: "distinct (map fst ?ps)" using keys assms by simp
  have len: "length ?ps = ?n" using keys by (metis length_map)
  have mem: "(?ks ! i, i) \<in> set ?ps" if "i < ?n" for i
    using mark_complete_participants(2)[OF assms that] by (rule map_of_SomeD)
  show ranks: "set (map snd ?ps) = {0..<?n}"
  proof (intro equalityI subsetI)
    fix r assume "r \<in> set (map snd ?ps)"
    then obtain k where k: "(k, r) \<in> set ?ps" by auto
    then have "k \<in> set ?ks" using keys by (metis (no_types, lifting) fst_conv image_eqI set_map set_sort)
    then obtain i where i: "i < ?n" "?ks ! i = k" by (metis in_set_conv_nth length_map length_sort)
    then have "r = i" using mem[OF i(1)] k dist by (metis eq_key_imp_eq_value)
    then show "r \<in> {0..<?n}" using i by simp
  next
    fix r assume "r \<in> {0..<?n}"
    then show "r \<in> set (map snd ?ps)" using mem[of r] by force
  qed
  show "distinct (map snd ?ps)"
    by (rule card_distinct) (simp add: ranks[simplified] len)
qed

text \<open>completing a round gives the participants the ranks \<open>0, ..., n - 1\<close>, one each, in the order
  of their descriptors.\<close>

theorem mark_complete_assigns_ranks:
  assumes "distinct (map fst (participants st))"
  shows "map fst (participants (mark_rendezvous_complete st)) = map fst (participants st) \<and>
    mset (map snd (participants (mark_rendezvous_complete st))) = mset [0..<length (participants st)] \<and>
    (\<forall>i < length (participants st).
      map_of (participants (mark_rendezvous_complete st)) (sort (map fst (participants st)) ! i) = Some i)"
proof -
  have "set (map snd (participants (mark_rendezvous_complete st))) = set [0..<length (participants st)]"
    using mark_complete_ranks(1)[OF assms] by simp
  then have "mset (map snd (participants (mark_rendezvous_complete st))) = mset [0..<length (participants st)]"
    using set_eq_iff_mset_eq_distinct[OF mark_complete_ranks(2)[OF assms] distinct_upt] by blast
  then show ?thesis using mark_complete_participants[OF assms] by blast
qed

definition demo_node :: "int \<Rightarrow> node_desc" where
  "demo_node p = NodeDesc ''host'' p 0"

theorem mark_complete_assigns_ranks_witness:
  "map fst (participants (mark_rendezvous_complete (initial_state\<lparr>participants := [(demo_node 9, 0), (demo_node 4, 0)]\<rparr>))) =
     [demo_node 9, demo_node 4] \<and>
   map_of (participants (mark_rendezvous_complete (initial_state\<lparr>participants := [(demo_node 9, 0), (demo_node 4, 0)]\<rparr>))) (demo_node 4) = Some 0"
proof -
  have "distinct (map fst (participants (initial_state\<lparr>participants := [(demo_node 9, 0), (demo_node 4, 0)]\<rparr>)))"
    by (simp add: demo_node_def)
  from mark_complete_assigns_ranks[OF this] show ?thesis
    by (auto simp: demo_node_def less_eq_node_desc_def desc_key_def dest: spec[of _ 0])
qed

subsection \<open>The state invariant\<close>

definition keys :: "('a \<times> 'b) list \<Rightarrow> 'a set" where
  "keys ps = fst ` set ps"

text \<open>What holds of every state while dead nodes are being dropped.\<close>

definition state_inv0 :: "rdzv_settings \<Rightarrow> rdzv_state \<Rightarrow> bool" where
  "state_inv0 S st \<longleftrightarrow>
     distinct (map fst (participants st)) \<and>
     length (participants st) \<le> max_nodes S \<and>
     (\<not> complete st \<longrightarrow> length (participants st) < max_nodes S) \<and>
     (complete st \<longrightarrow> distinct (map snd (participants st)) \<and> (\<forall>r \<in> snd ` set (participants st). r < max_nodes S)) \<and>
     keys (participants st) \<inter> wait_list st = {} \<and> keys (participants st) \<inter> redundancy_list st = {} \<and>
     wait_list st \<inter> redundancy_list st = {} \<and>
     keys (participants st) \<union> wait_list st \<union> redundancy_list st \<subseteq> keys (last_heartbeats st)"

text \<open>The invariant of the shared state: at most \<open>max_nodes\<close> participants, each listed once; an open
  round is not full; in a completed round there is a participant, and the ranks are distinct and
  below \<open>max_nodes\<close>; a node is in at most one of the three lists, and only while it has a heartbeat.\<close>

definition state_inv :: "rdzv_settings \<Rightarrow> rdzv_state \<Rightarrow> bool" where
  "state_inv S st \<longleftrightarrow> state_inv0 S st \<and> (complete st \<longrightarrow> participants st \<noteq> [])"

text \<open>How the shared state may develop: closing is final, the round number does not decrease, and
  within a completed round participants may only leave, keeping their ranks.\<close>

definition advance :: "rdzv_state \<Rightarrow> rdzv_state \<Rightarrow> bool" where
  "advance s s' \<longleftrightarrow>
     (closed s \<longrightarrow> closed s') \<and> round s \<le> round s' \<and>
     (complete s \<and> round s' = round s \<longrightarrow>
       complete s' \<and> (\<forall>n r. map_of (participants s') n = Some r \<longrightarrow> map_of (participants s) n = Some r))"

lemma advance_refl [simp]: "advance s s"
  by (simp add: advance_def)

lemma advance_trans: "advance s s' \<Longrightarrow> advance s' s'' \<Longrightarrow> advance s s''"
  unfolding advance_def by (metis le_antisym le_trans)

lemma keys_update [simp]: "keys (AList.update k v ps) = insert k (keys ps)"
  by (simp add: keys_def dom_update)

lemma keys_delete [simp]: "keys (AList.delete k ps) = keys ps - {k}"
  by (auto simp: keys_def AList.delete_eq)

lemma keys_Nil [simp]: "keys [] = {}"
  by (simp add: keys_def)

lemma participant_keys: "is_participant n st \<longleftrightarrow> n \<in> keys (participants st)"
  by (simp add: is_participant_def keys_def)

lemma length_update_new: "k \<notin> keys ps \<Longrightarrow> length (AList.update k v ps) = Suc (length ps)"
  by (induction ps) (auto simp: keys_def)

lemma distinct_snd_delete: "distinct (map snd ps) \<Longrightarrow> distinct (map snd (AList.delete k ps))"
  by (simp add: AList.delete_eq distinct_map_filter)

lemma set_delete_subset: "set (AList.delete k ps) \<subseteq> set ps"
  by (auto simp: AList.delete_eq)

lemma initial_inv: "0 < max_nodes S \<Longrightarrow> state_inv S initial_state"
  by (simp add: state_inv_def state_inv0_def initial_state_def)

lemma forget_inv0: "state_inv0 S st \<Longrightarrow> state_inv0 S (forget n st)"
  using length_delete_le[of n "participants st"] set_delete_subset[of n "participants st"]
  by (auto simp: state_inv0_def forget_def distinct_delete distinct_snd_delete)

lemma forget_advance: "advance st (forget n st)"
  by (auto simp: advance_def forget_def delete_conv' split: if_splits)

lemma epilogue_inv: "0 < max_nodes S \<Longrightarrow> state_inv0 S st \<Longrightarrow> state_inv S (remove_participant_epilogue S st)"
  by (auto simp: state_inv_def state_inv0_def remove_participant_epilogue_def)

lemma epilogue_advance: "advance st (remove_participant_epilogue S st)"
  by (auto simp: advance_def remove_participant_epilogue_def)


lemma forget_fold:
  "state_inv0 S st \<Longrightarrow> state_inv0 S (foldl (\<lambda>s n. forget n s) st ns) \<and> advance st (foldl (\<lambda>s n. forget n s) st ns)"
proof (induction ns arbitrary: st)
  case (Cons n ns)
  have "state_inv0 S (forget n st)" using forget_inv0[OF Cons.prems] .
  from Cons.IH[OF this] show ?case using advance_trans[OF forget_advance] by auto
qed simp

lemma forget_fold_participants:
  "set ns \<inter> keys (participants st) = {} \<Longrightarrow>
   participants (foldl (\<lambda>s n. forget n s) st ns) = participants st \<and>
   complete (foldl (\<lambda>s n. forget n s) st ns) = complete st"
proof (induction ns arbitrary: st)
  case (Cons n ns)
  then have "participants (forget n st) = participants st" "complete (forget n st) = complete st"
    by (auto simp: forget_def keys_def)
  then show ?case using Cons by (metis (no_types, lifting) disjoint_insert(2) foldl_Cons inf.commute list.set(2))
qed simp

lemma sanitize_inv:
  assumes "0 < max_nodes S" and "state_inv S (h_state h)"
  shows "state_inv S (h_state (sanitize S now h)) \<and> advance (h_state h) (h_state (sanitize S now h)) \<and>
    h_token (sanitize S now h) = h_token h"
proof -
  let ?dead = "dead_nodes S now (h_state h)"
  let ?st = "foldl (\<lambda>s n. forget n s) (h_state h) ?dead"
  have fold: "state_inv0 S ?st" "advance (h_state h) ?st"
    using forget_fold assms(2) by (auto simp: state_inv_def)
  show ?thesis
  proof (cases "list_ex (\<lambda>n. n \<in> fst ` set (participants (h_state h))) ?dead")
    case True
    then show ?thesis using fold epilogue_inv[OF assms(1) fold(1)] advance_trans[OF fold(2) epilogue_advance]
      by (simp add: sanitize_def Let_def)
  next
    case False
    then have "set ?dead \<inter> keys (participants (h_state h)) = {}" by (auto simp: list_ex_iff keys_def)
    then have "state_inv S ?st"
      using forget_fold_participants[of ?dead "h_state h"] fold(1) assms(2) by (auto simp: state_inv_def)
    then show ?thesis using False fold(2) by (simp add: sanitize_def Let_def)
  qed
qed

subsection \<open>Actions keep the invariant\<close>

text \<open>What the operations check before they ask for an action.\<close>

fun guard :: "node_desc \<Rightarrow> rdzv_state \<Rightarrow> rdzv_action \<Rightarrow> bool" where
  "guard n st ADD_TO_PARTICIPANTS \<longleftrightarrow> \<not> complete st \<and> n \<notin> keys (participants st) \<and> n \<notin> redundancy_list st"
| "guard n st ADD_TO_WAIT_LIST \<longleftrightarrow> complete st \<and> n \<notin> keys (participants st)"
| "guard n st ADD_TO_REDUNDANCY_LIST \<longleftrightarrow> complete st \<and> n \<notin> keys (participants st) \<and> n \<notin> wait_list st"
| "guard n st REMOVE_FROM_PARTICIPANTS \<longleftrightarrow> n \<in> keys (participants st)"
| "guard n st REMOVE_FROM_WAIT_LIST \<longleftrightarrow> n \<in> wait_list st"
| "guard n st REMOVE_FROM_REDUNDANCY_LIST \<longleftrightarrow> n \<in> redundancy_list st"
| "guard n st MARK_RENDEZVOUS_COMPLETE \<longleftrightarrow> \<not> complete st \<and> n \<in> keys (participants st)"
| "guard n st _ \<longleftrightarrow> True"

lemma keep_alive_or_sync_guard [simp]: "guard n st (keep_alive_or_sync S now n st)"
  by (simp add: keep_alive_or_sync_def)

lemma join_op_guard: "join_op S now tick limit n st = Inr a \<Longrightarrow> guard n st a"
  by (auto simp: join_op_def participant_keys split: if_splits)

lemma exit_op_guard: "exit_op S now tick limit n st = Inr a \<Longrightarrow> guard n st a"
  by (auto simp: exit_op_def participant_keys split: if_splits)

lemma close_op_guard: "close_op S now tick limit n st = Inr a \<Longrightarrow> guard n st a"
  by (auto simp: close_op_def split: if_splits)

lemma keep_alive_op_guard: "keep_alive_op S now tick limit n st = Inr a \<Longrightarrow> guard n st a"
  by (auto simp: keep_alive_op_def split: if_splits)

lemmas op_guards = join_op_guard exit_op_guard close_op_guard keep_alive_op_guard

lemma keep_alive_inv: "state_inv S st \<Longrightarrow> state_inv S (keep_alive now n st) \<and> advance st (keep_alive now n st)"
  by (auto simp: state_inv_def state_inv0_def keep_alive_def advance_def)

lemma mark_complete_inv:
  assumes "distinct (map fst (participants st))" and "length (participants st) \<le> max_nodes S"
    and "participants st \<noteq> []" and "keys (participants st) \<inter> wait_list st = {}"
    and "keys (participants st) \<inter> redundancy_list st = {}" and "wait_list st \<inter> redundancy_list st = {}"
    and "keys (participants st) \<union> wait_list st \<union> redundancy_list st \<subseteq> keys (last_heartbeats st)"
  shows "state_inv S (mark_rendezvous_complete st)"
proof -
  let ?st = "mark_rendezvous_complete st"
  have fst: "map fst (participants ?st) = map fst (participants st)"
    by (rule mark_complete_participants(1)[OF assms(1)])
  then have "keys (participants ?st) = keys (participants st)" "length (participants ?st) = length (participants st)"
    by (auto simp: keys_def simp flip: set_map) (metis length_map)
  moreover have "\<forall>r \<in> snd ` set (participants ?st). r < max_nodes S"
    using mark_complete_ranks(1)[OF assms(1)] assms(2) by auto
  moreover have "wait_list ?st = wait_list st" "redundancy_list ?st = redundancy_list st"
    "last_heartbeats ?st = last_heartbeats st" "complete ?st"
    by (simp_all add: mark_rendezvous_complete_def)
  ultimately show ?thesis
    using assms fst mark_complete_ranks(2)[OF assms(1)] by (auto simp: state_inv_def state_inv0_def)
qed

lemma add_to_participants_inv:
  assumes "state_inv S st" and "guard n st ADD_TO_PARTICIPANTS"
  shows "state_inv S (add_to_participants S now n st) \<and> advance st (add_to_participants S now n st)"
proof -
  define st' where "st' = (keep_alive now n (st\<lparr>wait_list := wait_list st - {n}, participants := AList.update n 0 (participants st)\<rparr>))
    \<lparr>deadline := (if length (AList.update n 0 (participants st)) = min_nodes S then Some (now + t_last_call S) else deadline st)\<rparr>"
  have eq: "add_to_participants S now n st =
      (if length (participants st') = max_nodes S then mark_rendezvous_complete st' else st')"
    by (simp add: add_to_participants_def st'_def keep_alive_def Let_def)
  have sel: "participants st' = AList.update n 0 (participants st)" "wait_list st' = wait_list st - {n}"
    "redundancy_list st' = redundancy_list st" "complete st' = complete st" "closed st' = closed st" "round st' = round st"
    "keys (last_heartbeats st') = insert n (keys (last_heartbeats st))"
    by (simp_all add: st'_def keep_alive_def)
  have len: "length (participants st') \<le> max_nodes S"
    using assms by (simp add: sel length_update_new state_inv_def state_inv0_def)
  have dist: "distinct (map fst (participants st'))"
    using assms(1) by (simp add: sel distinct_update state_inv_def state_inv0_def)
  have lists: "keys (participants st') \<inter> wait_list st' = {}" "keys (participants st') \<inter> redundancy_list st' = {}"
    "wait_list st' \<inter> redundancy_list st' = {}"
    "keys (participants st') \<union> wait_list st' \<union> redundancy_list st' \<subseteq> keys (last_heartbeats st')"
    using assms by (auto simp: sel state_inv_def state_inv0_def)
  have "advance st (add_to_participants S now n st)"
    using assms(2) by (auto simp: eq advance_def sel mark_rendezvous_complete_def)
  moreover have "state_inv S (add_to_participants S now n st)"
  proof (cases "length (participants st') = max_nodes S")
    case True
    then show ?thesis using mark_complete_inv[OF dist len _ lists] by (simp add: eq sel)
  next
    case False
    then show ?thesis using assms len dist lists by (auto simp: eq state_inv_def state_inv0_def sel)
  qed
  ultimately show ?thesis by blast
qed

lemma remove_from_participants_inv:
  assumes "0 < max_nodes S" and "state_inv S st" and "guard n st REMOVE_FROM_PARTICIPANTS"
  shows "state_inv S (remove_from_participants S n st) \<and> advance st (remove_from_participants S n st)"
proof -
  let ?st = "st\<lparr>participants := AList.delete n (participants st), last_heartbeats := AList.delete n (last_heartbeats st)\<rparr>"
  have inv: "state_inv0 S st" using assms(2) by (simp add: state_inv_def)
  have "n \<notin> wait_list st" "n \<notin> redundancy_list st" using inv assms(3) by (auto simp: state_inv0_def)
  then have eq: "?st = forget n st" by (simp add: forget_def)
  have "state_inv S (remove_participant_epilogue S ?st)"
    unfolding eq by (rule epilogue_inv[OF assms(1) forget_inv0[OF inv]])
  moreover have "advance st (remove_participant_epilogue S ?st)"
    unfolding eq by (rule advance_trans[OF forget_advance epilogue_advance])
  ultimately show ?thesis by (simp add: remove_from_participants_def)
qed

lemma action_inv:
  assumes "0 < max_nodes S" and "state_inv S st" and "guard n st a"
  shows "state_inv S (apply_action S now n a st) \<and> advance st (apply_action S now n a st)"
proof (cases a)
  case ADD_TO_WAIT_LIST
  then show ?thesis using assms(2,3)
    by (auto simp: add_to_wait_list_def keep_alive_def state_inv_def state_inv0_def advance_def)
next
  case ADD_TO_REDUNDANCY_LIST
  then show ?thesis using assms(2,3)
    by (auto simp: add_to_redundancy_list_def keep_alive_def state_inv_def state_inv0_def advance_def)
next
  case REMOVE_FROM_WAIT_LIST
  then show ?thesis using assms(2,3)
    by (auto simp: remove_from_wait_list_def state_inv_def state_inv0_def advance_def)
next
  case REMOVE_FROM_REDUNDANCY_LIST
  then show ?thesis using assms(2,3)
    by (auto simp: remove_from_redundancy_list_def state_inv_def state_inv0_def advance_def)
next
  case MARK_RENDEZVOUS_COMPLETE
  then have "participants st \<noteq> []" using assms(3) by auto
  then have "state_inv S (mark_rendezvous_complete st)"
    using assms(2) by (intro mark_complete_inv) (auto simp: state_inv_def state_inv0_def)
  moreover have "advance st (mark_rendezvous_complete st)"
    using assms(3) MARK_RENDEZVOUS_COMPLETE by (auto simp: advance_def mark_rendezvous_complete_def)
  ultimately show ?thesis using MARK_RENDEZVOUS_COMPLETE by simp
next
  case MARK_RENDEZVOUS_CLOSED
  then show ?thesis using assms(2)
    by (auto simp: mark_rendezvous_closed_def state_inv_def state_inv0_def advance_def)
qed (use assms keep_alive_inv add_to_participants_inv remove_from_participants_inv in auto)


subsection \<open>A store with versions\<close>

definition token_value :: "int option \<Rightarrow> int" where
  "token_value tok = (case tok of None \<Rightarrow> 0 | Some t \<Rightarrow> t)"

text \<open>The contract of the backend that the state holder relies on. A write, given what it read
  before, either replaces the document it was based on and increments the token, or leaves the
  store alone and answers with a document that it read.\<close>

locale versioned_store =
  fixes fetch :: "'st \<Rightarrow> ('v \<times> int) option"
    and put :: "'st \<Rightarrow> 'st \<Rightarrow> 'v \<Rightarrow> int option \<Rightarrow> ('e + ('v \<times> int)) \<times> 'st"
  assumes put_sound: "put seen st v tok = (r, st') \<Longrightarrow>
      (st' = st \<and> (\<forall>d. r = Inr d \<longrightarrow> fetch st = Some d \<or> fetch seen = Some d)) \<or>
      (r = Inr (v, token_value tok + 1) \<and> fetch st' = Some (v, token_value tok + 1) \<and>
       (fetch st = None \<or> (\<exists>s. fetch st = Some (s, token_value tok))))"
begin

lemma put_cases:
  assumes "put seen st v tok = (Inr d, st')"
  obtains (same) "st' = st" and "fetch st = Some d \<or> fetch seen = Some d"
    | (new) "d = (v, token_value tok + 1)" and "fetch st' = Some d"
        and "fetch st = None \<or> (\<exists>s. fetch st = Some (s, token_value tok))"
  using put_sound[OF assms] by auto

text \<open>A write that changes the store was based on the newest document.\<close>

lemma put_not_stale:
  assumes "put seen st v tok = (r, st')" and "st' \<noteq> st" and "fetch st = Some (s, t)"
  shows "t = token_value tok \<and> fetch st' = Some (v, t + 1)"
  using put_sound[OF assms(1)] assms(2,3) by auto

end

interpretation core: versioned_store get_state set_state
  by unfold_locales
    (auto simp: set_state_def get_state_def token_value_def Let_def split: option.splits prod.splits if_splits)

subsection \<open>Agents that race on the document\<close>

text \<open>The system: all documents that were ever stored, newest first, and the holder of each agent.\<close>

record sys =
  hist :: "(rdzv_state \<times> int) list"
  holders :: "node_desc \<Rightarrow> holder"

definition current :: "(rdzv_state \<times> int) list \<Rightarrow> store" where
  "current ds = (case ds of [] \<Rightarrow> None | d # _ \<Rightarrow> Some d)"

definition record_write :: "store \<Rightarrow> (rdzv_state \<times> int) list \<Rightarrow> (rdzv_state \<times> int) list" where
  "record_write st ds = (if st = current ds then ds else case st of None \<Rightarrow> ds | Some d \<Rightarrow> d # ds)"

definition initial_sys :: sys where
  "initial_sys = \<lparr>hist = [], holders = (\<lambda>n. initial_holder)\<rparr>"

text \<open>An agent synchronises, having read any document of the past during the call, or applies the
  action that one of its operations asks for. The clocks and the deadline are arbitrary.\<close>

inductive step :: "rdzv_settings \<Rightarrow> int \<Rightarrow> sys \<Rightarrow> sys \<Rightarrow> bool" for S cache where
  sync_step: "sync S cache now tick seen (holders s n) (current (hist s)) = (Inr (h, b), st) \<Longrightarrow>
    (\<And>d. seen = Some d \<Longrightarrow> d \<in> set (hist s)) \<Longrightarrow>
    step S cache s (s\<lparr>holders := (holders s)(n := h), hist := record_write st (hist s)\<rparr>)"
| act_step: "op \<in> {exit_op, join_op, close_op, keep_alive_op} \<Longrightarrow>
    op S now tick limit n (h_state (holders s n)) = Inr a \<Longrightarrow> a \<notin> {SYNC, FINISH, ERROR_CLOSED, ERROR_TIMEOUT} \<Longrightarrow>
    step S cache s (s\<lparr>holders := (holders s)(n :=
      mark_dirty ((holders s n)\<lparr>h_state := apply_action S now' n a (h_state (holders s n))\<rparr>))\<rparr>)"

inductive reachable :: "rdzv_settings \<Rightarrow> int \<Rightarrow> sys \<Rightarrow> bool" for S cache where
  start: "reachable S cache initial_sys"
| more: "reachable S cache s \<Longrightarrow> step S cache s s' \<Longrightarrow> reachable S cache s'"

inductive_cases stepE: "step S cache s s'"

definition base_state :: "(rdzv_state \<times> int) list \<Rightarrow> rdzv_state" where
  "base_state ds = (case ds of [] \<Rightarrow> initial_state | d # _ \<Rightarrow> fst d)"

definition base_token :: "(rdzv_state \<times> int) list \<Rightarrow> int" where
  "base_token ds = (case ds of [] \<Rightarrow> 0 | d # _ \<Rightarrow> snd d)"

text \<open>The history of documents: every one satisfies the state invariant, tokens increase, and each
  document is an admissible development of the earlier ones.\<close>

definition hist_inv :: "rdzv_settings \<Rightarrow> (rdzv_state \<times> int) list \<Rightarrow> bool" where
  "hist_inv S ds \<longleftrightarrow> (\<forall>d \<in> set ds. state_inv S (fst d) \<and> 0 < snd d) \<and>
     sorted_wrt (\<lambda>d e. snd e < snd d \<and> advance (fst e) (fst d)) ds"

text \<open>A holder: its state satisfies the invariant, and if its token is the current one its state is
  a development of the stored state.\<close>

definition holder_inv :: "rdzv_settings \<Rightarrow> (rdzv_state \<times> int) list \<Rightarrow> holder \<Rightarrow> bool" where
  "holder_inv S ds h \<longleftrightarrow> state_inv S (h_state h) \<and> 0 \<le> token_value (h_token h) \<and>
     token_value (h_token h) \<le> base_token ds \<and>
     (token_value (h_token h) = base_token ds \<longrightarrow> advance (base_state ds) (h_state h))"

lemma hist_inv_ConsI:
  assumes "hist_inv S ds" and "state_inv S v" and "advance (base_state ds) v" and "t = base_token ds + 1"
    and "0 \<le> base_token ds"
  shows "hist_inv S ((v, t) # ds)"
proof (cases ds)
  case (Cons d es)
  then have "\<forall>e \<in> set ds. snd e \<le> snd d \<and> advance (fst e) (fst d)"
    using assms(1) by (auto simp: hist_inv_def less_imp_le)
  then have "\<forall>e \<in> set ds. snd e < t \<and> advance (fst e) v"
    using assms(3,4) Cons by (auto simp: base_state_def base_token_def intro: advance_trans)
  then show ?thesis using assms by (auto simp: hist_inv_def)
qed (use assms in \<open>auto simp: hist_inv_def base_token_def\<close>)

lemma hist_token_unique:
  assumes "hist_inv S ds" and "d \<in> set ds"
  shows "snd d \<le> base_token ds" and "snd d = base_token ds \<Longrightarrow> fst d = base_state ds"
  using assms by (cases ds; auto simp: hist_inv_def base_token_def base_state_def)+

lemma base_token_nonneg: "hist_inv S ds \<Longrightarrow> 0 \<le> base_token ds"
  by (cases ds) (auto simp: hist_inv_def base_token_def)

text \<open>Adopting a document of the history gives a good holder.\<close>

lemma adopt_inv:
  assumes "0 < max_nodes S" and "hist_inv S ds" and "d \<in> set ds"
  shows "holder_inv S ds (adopt S now tick (Some d) h)"
proof -
  obtain s t where d: "d = (s, t)" by (cases d)
  have s: "state_inv S s" "0 < t" using assms(2,3) d by (auto simp: hist_inv_def)
  let ?h = "h\<lparr>h_state := s, h_token := Some t, h_dirty := False, h_last_sync := tick\<rparr>"
  have eq: "adopt S now tick (Some d) h = sanitize S now ?h" by (simp add: adopt_def d)
  show ?thesis unfolding eq holder_inv_def
    using sanitize_inv[OF assms(1), of ?h now] s hist_token_unique[OF assms(2,3)] d by (auto simp: token_value_def)
qed

lemma adopt_initial:
  assumes "0 < max_nodes S"
  shows "holder_inv S [] (adopt S now tick None h)"
proof -
  let ?h = "h\<lparr>h_state := initial_state, h_token := None, h_dirty := False, h_last_sync := tick\<rparr>"
  have eq: "adopt S now tick None h = sanitize S now ?h" by (simp add: adopt_def)
  show ?thesis unfolding eq holder_inv_def
    using sanitize_inv[OF assms, of ?h now] initial_inv[OF assms] by (auto simp: token_value_def base_token_def base_state_def)
qed

lemma holder_inv_older:
  assumes "holder_inv S ds h" and "hist_inv S ((v, t) # ds)" and "t = base_token ds + 1"
  shows "holder_inv S ((v, t) # ds) h"
  using assms by (auto simp: holder_inv_def base_token_def)

definition sys_inv :: "rdzv_settings \<Rightarrow> sys \<Rightarrow> bool" where
  "sys_inv S s \<longleftrightarrow> hist_inv S (hist s) \<and> (\<forall>n. holder_inv S (hist s) (holders s n))"

lemma current_Some: "current ds = Some d \<Longrightarrow> d \<in> set ds \<and> base_state ds = fst d \<and> base_token ds = snd d"
  by (cases ds) (auto simp: current_def base_state_def base_token_def)

lemma current_None: "current ds = None \<Longrightarrow> ds = []"
  by (cases ds) (auto simp: current_def)

lemma sync_inv:
  assumes "0 < max_nodes S" and "hist_inv S ds" and "holder_inv S ds h"
    and "sync S cache now tick seen h (current ds) = (Inr (h', b), st)"
    and "\<And>d. seen = Some d \<Longrightarrow> d \<in> set ds"
  shows "hist_inv S (record_write st ds) \<and> holder_inv S (record_write st ds) h' \<and>
    (record_write st ds = ds \<or> (\<exists>v t. record_write st ds = (v, t) # ds \<and> t = base_token ds + 1))"
proof (cases "h_dirty h")
  case False
  then have st: "st = current ds" and h': "h' = h \<or> h' = adopt S now tick (current ds) h"
    using assms(4) by (auto simp: sync_def get_state_def split: if_splits)
  have "holder_inv S ds (adopt S now tick (current ds) h)"
    using adopt_inv[OF assms(1,2)] adopt_initial[OF assms(1)] current_None[of ds] current_Some[of ds]
    by (cases "current ds") auto
  then show ?thesis using assms(2,3) h' st by (auto simp: record_write_def)
next
  case True
  obtain r where w: "set_state seen (current ds) (h_state h) (h_token h) = (r, st)"
    and r: "\<exists>d. r = Inr d \<and> h' = adopt S now tick (Some d) h"
    using assms(4) True by (auto simp: sync_def split: prod.splits sum.splits)
  then obtain d where d: "r = Inr d" "h' = adopt S now tick (Some d) h" by blast
  show ?thesis using w[unfolded d(1)]
  proof (cases rule: core.put_cases)
    case same
    then have "d \<in> set ds" using current_Some assms(5) unfolding get_state_def by blast
    then show ?thesis using adopt_inv[OF assms(1,2)] d(2) same assms(2) by (simp add: record_write_def)
  next
    case new
    have tok: "token_value (h_token h) = base_token ds"
      using new(3) current_Some[of ds] current_None[of ds] assms(3)
      by (auto simp: holder_inv_def base_token_def get_state_def)
    have rec: "record_write st ds = d # ds"
      using new tok current_Some[of ds d] by (auto simp: record_write_def get_state_def)
    have hist: "hist_inv S (d # ds)"
      unfolding new(1) using hist_inv_ConsI[OF assms(2)] assms(3) tok base_token_nonneg[OF assms(2)]
      by (auto simp: holder_inv_def)
    then show ?thesis using rec adopt_inv[OF assms(1) hist, of d] d(2) new(1) tok by auto
  qed
qed

lemma step_inv:
  assumes "0 < max_nodes S" and "step S cache s s'" and "sys_inv S s"
  shows "sys_inv S s' \<and> (hist s' = hist s \<or> (\<exists>d. hist s' = d # hist s))"
  using assms(2)
proof (cases rule: step.cases)
  case (sync_step now tick seen n h b st)
  have inv: "hist_inv S (hist s)" "\<And>m. holder_inv S (hist s) (holders s m)" using assms(3) by (auto simp: sys_inv_def)
  note sync = sync_inv[OF assms(1) inv(1) inv(2)[of n] sync_step(2) sync_step(3)]
  have "holder_inv S (record_write st (hist s)) (holders s m)" for m
    using sync inv(2)[of m] by (auto intro: holder_inv_older)
  then show ?thesis using sync sync_step(1) by (auto simp: sys_inv_def)
next
  case (act_step op now tick limit n a now')
  have h: "holder_inv S (hist s) (holders s n)" using assms(3) by (simp add: sys_inv_def)
  have "guard n (h_state (holders s n)) a" using act_step(2,3) op_guards by fastforce
  then have "state_inv S (apply_action S now' n a (h_state (holders s n))) \<and>
      advance (h_state (holders s n)) (apply_action S now' n a (h_state (holders s n)))"
    using action_inv[OF assms(1)] h by (simp add: holder_inv_def)
  then show ?thesis using h assms(3) act_step(1)
    by (auto simp: sys_inv_def holder_inv_def mark_dirty_def intro: advance_trans)
qed

lemma reachable_inv: "reachable S cache s \<Longrightarrow> 0 < max_nodes S \<Longrightarrow> sys_inv S s"
proof (induction rule: reachable.induct)
  case start
  then show ?case using initial_inv
    by (auto simp: sys_inv_def initial_sys_def hist_inv_def holder_inv_def initial_holder_def token_value_def
        base_token_def base_state_def)
next
  case (more s s')
  then show ?case using step_inv by blast
qed


lemma settings_ok_max: "handler_settings_ok S = Inr () \<Longrightarrow> 0 < max_nodes S"
  by (auto simp: handler_settings_ok_def rbind_eq_Inr require_def split: if_splits)

definition demo_settings :: rdzv_settings where
  "demo_settings = \<lparr>run_id = ''job'', min_nodes = 1, max_nodes = 2, t_join = 600000, t_last_call = 30000, t_close = 30000,
     t_heartbeat = 5000, keep_alive_interval = 5000, keep_alive_max_attempt = 3\<rparr>"

text \<open>C5: in every reachable state of a system of racing agents, whatever the clocks, the deadlines and
  the interleaving, every stored document and every local copy satisfies the state invariant: at most
  \<open>max_nodes\<close> participants, each once; an open round is not full; a completed round has a participant,
  and distinct ranks below \<open>max_nodes\<close>; each node in at most one list and with a heartbeat.\<close>

theorem rendezvous_state_invariant:
  assumes "handler_settings_ok S = Inr ()" and "reachable S cache s"
  shows "(\<forall>d \<in> set (hist s). state_inv S (fst d)) \<and> (\<forall>n. state_inv S (h_state (holders s n)))"
  using reachable_inv[OF assms(2) settings_ok_max[OF assms(1)]]
  by (auto simp: sys_inv_def hist_inv_def holder_inv_def)

definition demo_sys :: sys where
  "demo_sys = initial_sys\<lparr>holders := (holders initial_sys)(demo_node 1 :=
     mark_dirty (initial_holder\<lparr>h_state := add_to_participants demo_settings 10 (demo_node 1) initial_state\<rparr>))\<rparr>"

lemma demo_sys_reachable: "reachable demo_settings 1000 demo_sys"
proof -
  have op: "join_op demo_settings 10 10 100 (demo_node 1) (h_state (holders initial_sys (demo_node 1))) = Inr ADD_TO_PARTICIPANTS"
    by (simp add: join_op_def initial_sys_def initial_holder_def initial_state_def is_participant_def)
  have "step demo_settings 1000 initial_sys demo_sys"
    using act_step[where op = join_op, OF _ op, where cache = 1000 and now' = 10] by (simp add: demo_sys_def initial_sys_def initial_holder_def)
  then show ?thesis using reachable.intros by blast
qed

text \<open>C28: no update is lost: from any reachable state, a step that changes the stored document replaces
  it by a development of it. A closed rendezvous stays closed, the round number does not
  decrease, and while a completed round lasts it stays complete, its participants only leave,
  and those who stay keep their ranks.\<close>

theorem rendezvous_document_advances:
  assumes "handler_settings_ok S = Inr ()" and "reachable S cache s" and "step S cache s s'"
    and "current (hist s) = Some (old, t)" and "current (hist s') = Some (new, t')"
  shows "(closed old \<longrightarrow> closed new) \<and> round old \<le> round new \<and>
    (complete old \<and> round new = round old \<longrightarrow> complete new \<and>
      (\<forall>n r. map_of (participants new) n = Some r \<longrightarrow> map_of (participants old) n = Some r)) \<and>
    (t' = t \<and> new = old \<or> t < t')"
proof -
  note pos = settings_ok_max[OF assms(1)]
  have inv: "sys_inv S s'" and hist: "hist s' = hist s \<or> (\<exists>d. hist s' = d # hist s)"
    using step_inv[OF pos assms(3) reachable_inv[OF assms(2) pos]] by auto
  have "new = old \<and> t' = t \<or> advance old new \<and> t < t'"
    using hist inv assms(4,5)
    by (cases "hist s") (auto simp: current_def sys_inv_def hist_inv_def split: list.splits)
  then show ?thesis by (auto simp: advance_def)
qed

definition demo_doc :: rdzv_state where
  "demo_doc = add_to_participants demo_settings 10 (demo_node 1) initial_state"

lemma demo_doc_fresh: "dead_nodes demo_settings 10 demo_doc = []"
  by (simp add: dead_nodes_def demo_doc_def add_to_participants_def keep_alive_def initial_state_def
      demo_settings_def Let_def mark_rendezvous_complete_def)

definition demo_sys_stored :: sys where
  "demo_sys_stored = demo_sys\<lparr>hist := [(demo_doc, 1)],
     holders := (holders demo_sys)(demo_node 1 := adopt demo_settings 10 10 (Some (demo_doc, 1)) (holders demo_sys (demo_node 1)))\<rparr>"

lemma demo_sys_stored_step: "step demo_settings 1000 demo_sys demo_sys_stored"
proof -
  have "sync demo_settings 1000 10 10 None (holders demo_sys (demo_node 1)) (current (hist demo_sys)) =
      (Inr (adopt demo_settings 10 10 (Some (demo_doc, 1)) (holders demo_sys (demo_node 1)), Some True), Some (demo_doc, 1))"
    by (simp add: sync_def demo_sys_def initial_sys_def current_def set_state_def mark_dirty_def demo_doc_def
        initial_holder_def Let_def)
  from sync_step[OF this] show ?thesis
    by (simp add: demo_sys_stored_def record_write_def current_def demo_sys_def initial_sys_def)
qed

lemma demo_holder_state: "adopt demo_settings 10 10 (Some (demo_doc, 1)) h =
    h\<lparr>h_state := demo_doc, h_token := Some 1, h_dirty := False, h_last_sync := 10, h_dead_nodes := []\<rparr>"
  by (simp add: adopt_def sanitize_def demo_doc_fresh Let_def)

definition demo_sys_closing :: sys where
  "demo_sys_closing = demo_sys_stored\<lparr>holders := (holders demo_sys_stored)(demo_node 1 :=
     mark_dirty ((holders demo_sys_stored (demo_node 1))\<lparr>h_state := mark_rendezvous_closed demo_doc\<rparr>))\<rparr>"

lemma demo_doc_open: "\<not> closed demo_doc"
  by (simp add: demo_doc_def add_to_participants_def keep_alive_def initial_state_def Let_def mark_rendezvous_complete_def)

lemma demo_sys_closing_reachable: "reachable demo_settings 1000 demo_sys_closing"
proof -
  have "h_state (holders demo_sys_stored (demo_node 1)) = demo_doc"
    by (simp add: demo_sys_stored_def demo_holder_state)
  moreover from this have op: "close_op demo_settings 10 10 100 (demo_node 1) (h_state (holders demo_sys_stored (demo_node 1))) =
      Inr MARK_RENDEZVOUS_CLOSED"
    by (simp add: close_op_def demo_doc_open)
  ultimately have "step demo_settings 1000 demo_sys_stored demo_sys_closing"
    using act_step[where op = close_op, OF _ op, where cache = 1000 and now' = 10] by (simp add: demo_sys_closing_def)
  then show ?thesis using demo_sys_reachable demo_sys_stored_step by (meson reachable.more)
qed

theorem rendezvous_state_invariant_witness:
  "hist demo_sys_closing = [(demo_doc, 1)] \<and> state_inv demo_settings demo_doc \<and>
   (\<forall>n. state_inv demo_settings (h_state (holders demo_sys_closing n)))"
proof -
  have "handler_settings_ok demo_settings = Inr ()" by (simp add: handler_settings_ok_def demo_settings_def)
  from rendezvous_state_invariant[OF this demo_sys_closing_reachable] show ?thesis
    by (simp add: demo_sys_closing_def demo_sys_stored_def)
qed

theorem rendezvous_document_advances_witness:
  "\<exists>s'. step demo_settings 1000 demo_sys_closing s' \<and>
    current (hist demo_sys_closing) = Some (demo_doc, 1) \<and>
    current (hist s') = Some (mark_rendezvous_closed demo_doc, 2) \<and>
    round demo_doc \<le> round (mark_rendezvous_closed demo_doc)"
proof -
  have ok: "handler_settings_ok demo_settings = Inr ()" by (simp add: handler_settings_ok_def demo_settings_def)
  have cur: "current (hist demo_sys_closing) = Some (demo_doc, 1)"
    by (simp add: demo_sys_closing_def demo_sys_stored_def current_def)
  let ?h = "holders demo_sys_closing (demo_node 1)"
  have h: "h_dirty ?h" "h_token ?h = Some 1" "h_state ?h = mark_rendezvous_closed demo_doc"
    by (simp_all add: demo_sys_closing_def demo_sys_stored_def demo_holder_state mark_dirty_def)
  have "sync demo_settings 1000 10 10 (Some (demo_doc, 1)) ?h (current (hist demo_sys_closing)) =
      (Inr (adopt demo_settings 10 10 (Some (mark_rendezvous_closed demo_doc, 2)) ?h, Some True),
       Some (mark_rendezvous_closed demo_doc, 2))"
    by (simp add: sync_def h set_state_def cur Let_def)
  from sync_step[OF this] have step: "\<exists>s'. step demo_settings 1000 demo_sys_closing s' \<and>
      hist s' = record_write (Some (mark_rendezvous_closed demo_doc, 2)) (hist demo_sys_closing)"
    by (fastforce simp: demo_sys_closing_def demo_sys_stored_def)
  then obtain s' where s': "step demo_settings 1000 demo_sys_closing s'"
    "current (hist s') = Some (mark_rendezvous_closed demo_doc, 2)"
    using cur by (auto simp: record_write_def current_def)
  then show ?thesis
    using rendezvous_document_advances[OF ok demo_sys_closing_reachable s'(1) cur s'(2)] cur by blast
qed

lemma adopt_no_dead:
  assumes "dead_nodes S now (case doc of None \<Rightarrow> initial_state | Some (s, t) \<Rightarrow> s) = []"
  shows "adopt S now tick doc h = h\<lparr>h_state := (case doc of None \<Rightarrow> initial_state | Some (s, t) \<Rightarrow> s),
    h_token := (case doc of None \<Rightarrow> None | Some (s, t) \<Rightarrow> Some t), h_dirty := False, h_last_sync := tick, h_dead_nodes := []\<rparr>"
  using assms by (simp add: adopt_def sanitize_def Let_def)

lemma initial_no_dead [simp]: "dead_nodes S now initial_state = []"
  by (simp add: dead_nodes_def initial_state_def)

definition solo_state :: "node_desc \<Rightarrow> int \<Rightarrow> rdzv_state" where
  "solo_state node now = \<lparr>round = 0, complete = True, deadline = None, closed = False, participants = [(node, 0)],
     wait_list = {}, redundancy_list = {}, last_heartbeats = [(node, now)]\<rparr>"

lemma solo_add: "max_nodes S = 1 \<Longrightarrow> add_to_participants S now node initial_state = solo_state node now"
  by (simp add: add_to_participants_def keep_alive_def mark_rendezvous_complete_def initial_state_def solo_state_def Let_def)

lemma solo_join_run:
  assumes "max_nodes S = 1" and "tick1 \<le> limit" and "now2 - keep_alive_interval S * keep_alive_max_attempt S \<le> now1"
    and "h_state h = initial_state" and "h_token h = None" and "\<not> h_dirty h"
  shows "\<exists>h' st. executor_run S cache node join_op rejoin limit [(now1, tick1), (now2, tick2)] h None = Finished h' st \<and>
    h_state h' = solo_state node now1"
proof -
  obtain h0 where sync1: "sync S cache now1 tick1 None h None = (Inr (h0, None), None)"
    and h0: "h_state h0 = initial_state" "h_token h0 = None"
    using assms(4-6)
    by (cases "cache \<noteq> 0 \<and> h_last_sync h \<ge> max (tick1 - cache) 0") (auto simp: sync_def get_state_def adopt_no_dead)
  have op1: "join_op S now1 tick1 limit node initial_state = Inr ADD_TO_PARTICIPANTS"
    using assms(2) by (simp add: join_op_def initial_state_def is_participant_def)
  let ?h1 = "mark_dirty (h0\<lparr>h_state := solo_state node now1\<rparr>)"
  have alive: "dead_nodes S now2 (solo_state node now1) = []"
    using assms(3) by (simp add: dead_nodes_def solo_state_def)
  have sync2: "\<exists>h2. sync S cache now2 tick2 None ?h1 None = (Inr (h2, Some True), Some (solo_state node now1, 1)) \<and>
      h_state h2 = solo_state node now1"
    using h0(2) alive by (simp add: sync_def mark_dirty_def set_state_def adopt_no_dead)
  have op2: "join_op S now2 tick2 limit' node (solo_state node now1) = Inr FINISH" for limit'
    by (simp add: join_op_def solo_state_def is_participant_def)
  show ?thesis using sync1 sync2 op1 op2 h0(1) solo_add[OF assms(1)] by (auto split: option.splits)
qed

text \<open>C32: an agent alone in a rendezvous for one node, on an empty store, that has not run out of time:
  \<open>next_rendezvous\<close> ends within three iterations and returns rank 0 of a world of size 1.\<close>

theorem solo_rendezvous_finishes:
  assumes "max_nodes S = 1" and "tick1 \<le> start + t_join S"
    and "now2 - keep_alive_interval S * keep_alive_max_attempt S \<le> now1"
  shows "\<exists>h st. next_rendezvous S cache node start [(now0, tick0)] [(now1, tick1), (now2, tick2)] initial_holder None =
    (Finished h st, Some (Inr (0, 1)))"
proof -
  let ?h0 = "adopt S now0 tick0 None initial_holder"
  have h0: "h_state ?h0 = initial_state" "h_token ?h0 = None" "\<not> h_dirty ?h0"
    by (simp_all add: adopt_no_dead)
  have "sync S cache now0 tick0 None initial_holder None = (Inr (?h0, None), None)"
    by (simp add: sync_def initial_holder_def get_state_def)
  moreover have "exit_op S now0 tick0 limit node initial_state = Inr FINISH" for limit
    by (simp add: exit_op_def is_participant_def initial_state_def)
  ultimately have "executor_run S cache node exit_op None limit [(now0, tick0)] initial_holder None = Finished ?h0 None" for limit
    using h0(1) by simp
  moreover obtain h st where "executor_run S cache node join_op (Some (t_join S)) (start + t_join S)
      [(now1, tick1), (now2, tick2)] ?h0 None = Finished h st" "h_state h = solo_state node now1"
    using solo_join_run[OF assms h0] by blast
  ultimately show ?thesis by (simp add: next_rendezvous_def get_world_def solo_state_def del: executor_run.simps)
qed

theorem solo_rendezvous_finishes_witness:
  "\<exists>h st. next_rendezvous (demo_settings\<lparr>max_nodes := 1\<rparr>) 1000 (demo_node 7) 50 [(100, 100)] [(150, 150), (180, 180)]
     initial_holder None = (Finished h st, Some (Inr (0, 1)))"
  by (rule solo_rendezvous_finishes) (simp_all add: demo_settings_def)

text \<open>The rank an agent reads after joining need not be below the world size: in a completed round
  of two, when the agent of rank 0 has missed its heartbeats, the other agent's join finishes, and
  \<open>_get_world\<close> returns rank 1 of a world of size 1.\<close>

theorem world_size_excludes_own_rank:
  "\<exists>h st. executor_run demo_settings 0 (demo_node 2) join_op None 100000 [(60000, 60000)] initial_holder
       (Some (\<lparr>round = 0, complete = True, deadline = None, closed = False,
          participants = [(demo_node 1, 0), (demo_node 2, 1)], wait_list = {}, redundancy_list = {},
          last_heartbeats = [(demo_node 1, 1000), (demo_node 2, 59000)]\<rparr>, 1)) = Finished h st \<and>
     get_world (demo_node 2) (h_state h) = Inr (1, 1)"
  by (simp add: sync_def initial_holder_def get_state_def adopt_def sanitize_def dead_nodes_def demo_settings_def Let_def
      forget_def remove_participant_epilogue_def join_op_def is_participant_def demo_node_def get_world_def initial_state_def)

end
