(* ===== verification/Schedules.thy ===== *)
theory Schedules
  imports Prelude
begin

text \<open>
  Pipeline-parallel schedules, \<^verbatim>\<open>src/tensorplay/distributed/pipelining/schedules.py\<close>: the actions, the
  schedule generators (one list of actions per rank, \<open>None\<close> for an idle slot), the passes that
  add gradient reductions and parameter sharding or merge backward halves, and the validator. A
  mapping from ranks to lists is an association list in insertion order. Python leaves the iteration
  order of a set open; where the code iterates over one, the order is a parameter.
\<close>

subsection \<open>Actions\<close>

datatype comp_type =
    FORWARD | BACKWARD_INPUT | BACKWARD_WEIGHT | UNSHARD | RESHARD | SEND_F | RECV_F | SEND_B | RECV_B
  | FULL_BACKWARD | OVERLAP_F_B | REDUCE_GRAD

datatype action =
  Action (stage_index: int) (computation_type: comp_type) (microbatch_index: "int option")
    (sub_actions: "action list option")

type_synonym slot = "action option"

type_synonym pipeline_order = "(int \<times> slot list) list"

text \<open>An action without sub-actions.\<close>

abbreviation act :: "int \<Rightarrow> comp_type \<Rightarrow> int \<Rightarrow> slot" where
  "act stage kind mb \<equiv> Some (Action stage kind (Some mb) None)"

definition is_compute_op :: "action \<Rightarrow> bool" where
  "is_compute_op a \<longleftrightarrow>
     computation_type a \<in> {FORWARD, BACKWARD_INPUT, BACKWARD_WEIGHT, FULL_BACKWARD, OVERLAP_F_B}"

text \<open>\<open>action.sub_actions or (action,)\<close>: an empty tuple counts as absent.\<close>

fun leaves :: "action \<Rightarrow> action list" where
  "leaves (Action s k m (Some (a # as))) = a # as"
| "leaves a = [a]"

definition requires_reduce_grad :: "comp_type \<Rightarrow> bool" where
  "requires_reduce_grad k \<longleftrightarrow> k = BACKWARD_WEIGHT \<or> k = FULL_BACKWARD"

subsection \<open>Gradient reduction\<close>

fun reduce_leaves :: "int \<Rightarrow> (int \<Rightarrow> int) \<Rightarrow> action list \<Rightarrow> action list \<times> (int \<Rightarrow> int)" where
  "reduce_leaves n counts [] = ([], counts)"
| "reduce_leaves n counts (leaf # rest) =
     (if \<not> requires_reduce_grad (computation_type leaf) then reduce_leaves n counts rest
      else let s = stage_index leaf; counts' = counts(s := counts s + 1);
               (out, counts'') = reduce_leaves n counts' rest
           in (if counts' s = n then Action s REDUCE_GRAD None None # out else out, counts''))"

fun add_reduce_loop :: "int \<Rightarrow> (int \<Rightarrow> int) \<Rightarrow> slot list \<Rightarrow> slot list" where
  "add_reduce_loop n counts [] = []"
| "add_reduce_loop n counts (None # as) = None # add_reduce_loop n counts as"
| "add_reduce_loop n counts (Some a # as) =
     (let (out, counts') = reduce_leaves n counts (leaves a)
      in Some a # map Some out @ add_reduce_loop n counts' as)"

definition add_reduce_grad :: "slot list \<Rightarrow> int \<Rightarrow> slot list result" where
  "add_reduce_grad actions n_microbatches =
     (if n_microbatches \<le> 0 then Inl ValueError
      else Inr (add_reduce_loop n_microbatches (\<lambda>_. 0) actions))"

subsection \<open>Schedule generators\<close>

definition single_order :: "int \<Rightarrow> int \<Rightarrow> int \<Rightarrow> bool \<Rightarrow> pipeline_order result" where
  "single_order stage group_rank n has_backward =
     (let forward = map (\<lambda>i. act stage FORWARD i) (py_range n) in
      if has_backward
      then rbind (add_reduce_grad (forward @ map (\<lambda>i. act stage FULL_BACKWARD i) (py_range n)) n)
             (\<lambda>actions. Inr [(group_rank, actions)])
      else Inr [(group_rank, forward)])"

definition gpipe_rank :: "int \<Rightarrow> int \<Rightarrow> bool \<Rightarrow> int \<Rightarrow> slot list result" where
  "gpipe_rank group_size n has_backward rank =
     (let actions = replicate (nat rank) None @ map (\<lambda>m. act rank FORWARD m) (py_range n) in
      if has_backward
      then add_reduce_grad (actions @ replicate (nat (3 * (group_size - 1 - rank))) None @
             map (\<lambda>m. act rank FULL_BACKWARD m) (py_range n)) n
      else Inr actions)"

definition gpipe_order :: "int \<Rightarrow> int \<Rightarrow> int \<Rightarrow> bool \<Rightarrow> pipeline_order result" where
  "gpipe_order group_size num_stages n has_backward =
     (if group_size \<noteq> num_stages then Inl ValueError
      else traverse (\<lambda>rank. rbind (gpipe_rank group_size n has_backward rank) (\<lambda>as. Inr (rank, as))) (py_range group_size))"

text \<open>The two \<open>while\<close> loops of 1F1B.\<close>

function f1b_steady :: "int \<Rightarrow> int \<Rightarrow> int \<Rightarrow> int \<Rightarrow> slot list \<times> int" where
  "f1b_steady rank n next_forward next_backward =
     (if next_forward < n
      then let (as, nb) = f1b_steady rank n (next_forward + 1) (next_backward + 1)
           in (act rank FORWARD next_forward # act rank FULL_BACKWARD next_backward # as, nb)
      else ([], next_backward))"
  by pat_completeness auto
termination by (relation "measure (\<lambda>(rank, n, nf, nb). nat (n - nf))") auto

function f1b_cooldown :: "int \<Rightarrow> int \<Rightarrow> int \<Rightarrow> int \<Rightarrow> slot list" where
  "f1b_cooldown rank group_size n next_backward =
     (if next_backward < n
      then (if rank \<noteq> group_size - 1 then [None] else []) @
           act rank FULL_BACKWARD next_backward # f1b_cooldown rank group_size n (next_backward + 1)
      else [])"
  by pat_completeness auto
termination by (relation "measure (\<lambda>(rank, g, n, nb). nat (n - nb))") auto

declare f1b_steady.simps [simp del] f1b_cooldown.simps [simp del]

definition f1b_actions :: "int \<Rightarrow> int \<Rightarrow> int \<Rightarrow> slot list" where
  "f1b_actions group_size n rank =
     (let warmup = min n (group_size - 1 - rank);
          (steady, next_backward) = f1b_steady rank n warmup 0
      in replicate (nat rank) None @ map (\<lambda>m. act rank FORWARD m) (py_range warmup) @
         replicate (nat (2 * (group_size - 1 - rank))) None @ steady @
         f1b_cooldown rank group_size n next_backward)"

definition f1b_order :: "int \<Rightarrow> int \<Rightarrow> int \<Rightarrow> pipeline_order result" where
  "f1b_order group_size num_stages n =
     (if group_size \<noteq> num_stages then Inl ValueError
      else traverse (\<lambda>rank. rbind (add_reduce_grad (f1b_actions group_size n rank) n) (\<lambda>as. Inr (rank, as)))
             (py_range group_size))"

text \<open>The stages a rank owns, in ascending order; the mapping of stages to ranks raises KeyError for a
  stage it does not have.\<close>

definition owned_stages :: "(int \<Rightarrow> int option) \<Rightarrow> int \<Rightarrow> int \<Rightarrow> int list result" where
  "owned_stages stage_to_rank num_stages rank =
     (if list_ex (\<lambda>s. stage_to_rank s = None) (py_range num_stages) then Inl KeyError
      else Inr (filter (\<lambda>s. stage_to_rank s = Some rank) (py_range num_stages)))"

definition multi_rank :: "int \<Rightarrow> int \<Rightarrow> bool \<Rightarrow> int list \<Rightarrow> int \<Rightarrow> slot list result" where
  "multi_rank pp_group_size n has_backward owned rank =
     (let actions = replicate (nat rank) None @
            concat (map (\<lambda>s. map (\<lambda>m. act s FORWARD m) (py_range n)) owned) in
      if has_backward
      then add_reduce_grad (actions @ replicate (nat (2 * max 0 (pp_group_size - 1 - rank))) None @
             concat (map (\<lambda>s. map (\<lambda>m. act s FULL_BACKWARD m) (rev (py_range n))) (rev owned))) n
      else Inr actions)"

definition multi_order :: "(int \<Rightarrow> int option) \<Rightarrow> int \<Rightarrow> int \<Rightarrow> int \<Rightarrow> bool \<Rightarrow> pipeline_order result" where
  "multi_order stage_to_rank num_stages pp_group_size n has_backward =
     traverse (\<lambda>rank. rbind (owned_stages stage_to_rank num_stages rank) (\<lambda>owned.
       rbind (multi_rank pp_group_size n has_backward owned rank) (\<lambda>as. Inr (rank, as)))) (py_range pp_group_size)"

text \<open>\<open>range(rank, pp_group_size * local_stage_count, pp_group_size)\<close>.\<close>

definition looped_stages :: "int \<Rightarrow> int \<Rightarrow> int \<Rightarrow> int list" where
  "looped_stages pp_group_size local_stage_count rank =
     filter (\<lambda>s. rank \<le> s \<and> (s - rank) mod pp_group_size = 0) (py_range (pp_group_size * local_stage_count))"

definition looped_bfs_rank :: "int \<Rightarrow> int \<Rightarrow> int \<Rightarrow> int \<Rightarrow> slot list" where
  "looped_bfs_rank pp_group_size local_stage_count n rank =
     (let stages = looped_stages pp_group_size local_stage_count rank in
      replicate (nat rank) None @
      concat (map (\<lambda>s. map (\<lambda>m. act s FORWARD m) (py_range n)) stages) @
      replicate (nat (2 * (pp_group_size - 1 - rank))) None @
      concat (map (\<lambda>s. map (\<lambda>m. act s FULL_BACKWARD m) (rev (py_range n))) (rev stages)))"

text \<open>\<open>_split_backward_pipeline_order\<close>: input and weight backwards as separate actions.\<close>

definition split_rank :: "int \<Rightarrow> int list \<Rightarrow> int \<Rightarrow> slot list result" where
  "split_rank n owned rank =
     add_reduce_grad (replicate (nat rank) None @
       concat (map (\<lambda>s. map (\<lambda>m. act s FORWARD m) (py_range n)) owned) @
       concat (map (\<lambda>s. map (\<lambda>m. act s BACKWARD_INPUT m) (rev (py_range n)) @
                        map (\<lambda>m. act s BACKWARD_WEIGHT m) (rev (py_range n))) (rev owned))) n"

definition split_backward_pipeline_order :: "int \<Rightarrow> int \<Rightarrow> int \<Rightarrow> (int \<Rightarrow> int option) \<Rightarrow> pipeline_order result" where
  "split_backward_pipeline_order num_stages pp_group_size n stage_to_rank =
     (if list_ex (\<lambda>s. case stage_to_rank s of None \<Rightarrow> True | Some r \<Rightarrow> r \<notin> set (py_range pp_group_size))
           (py_range num_stages) then Inl KeyError
      else traverse (\<lambda>rank. rbind (owned_stages stage_to_rank num_stages rank) (\<lambda>owned.
             rbind (split_rank n owned rank) (\<lambda>as. Inr (rank, as)))) (py_range pp_group_size))"

subsection \<open>Interleaved 1F1B\<close>

definition get_warmup_ops :: "int \<Rightarrow> int \<Rightarrow> int \<Rightarrow> int \<Rightarrow> int \<Rightarrow> int \<Rightarrow> int" where
  "get_warmup_ops rank n_local_stages microbatches_per_round pp_group_size n_microbatches multiply_factor =
     min ((n_local_stages - 1) * microbatches_per_round + multiply_factor * (pp_group_size - 1 - rank))
         (n_microbatches * n_local_stages)"

record ops_state =
  forward_counts :: "int \<Rightarrow> int"
  backward_counts :: "int \<Rightarrow> int"
  weight_counts :: "int \<Rightarrow> int"
  weight_total :: nat
  backward_ids :: "int list"
  ops :: "slot list"

definition emit_forward :: "int \<Rightarrow> ops_state \<Rightarrow> ops_state" where
  "emit_forward stage st = st\<lparr>forward_counts := (forward_counts st)(stage := forward_counts st stage + 1),
     ops := ops st @ [act stage FORWARD (forward_counts st stage)]\<rparr>"

definition emit_backward :: "comp_type \<Rightarrow> int \<Rightarrow> int \<Rightarrow> ops_state \<Rightarrow> ops_state" where
  "emit_backward kind stage operation st =
     st\<lparr>backward_counts := (backward_counts st)(stage := backward_counts st stage + 1),
        ops := ops st @ [act stage kind (backward_counts st stage)],
        backward_ids := backward_ids st @ [operation]\<rparr>"

text \<open>The weight backward of the oldest input backward that has none yet; \<open>weight_total\<close> is
  \<open>sum(weight_counts.values())\<close>.\<close>

definition emit_weight :: "(int \<Rightarrow> int) \<Rightarrow> ops_state \<Rightarrow> ops_state result" where
  "emit_weight backward_stage_index st =
     rbind (py_nth (backward_ids st) (int (weight_total st))) (\<lambda>operation.
     let stage = backward_stage_index operation in
     Inr (st\<lparr>weight_counts := (weight_counts st)(stage := weight_counts st stage + 1),
       weight_total := weight_total st + 1,
       ops := ops st @ [act stage BACKWARD_WEIGHT (weight_counts st stage)]\<rparr>))"

definition emit_idle :: "int \<Rightarrow> ops_state \<Rightarrow> ops_state" where
  "emit_idle n st = st\<lparr>ops := ops st @ replicate (nat n) None\<rparr>"

fun weight_drain :: "nat \<Rightarrow> (int \<Rightarrow> int) \<Rightarrow> ops_state \<Rightarrow> ops_state result" where
  "weight_drain 0 bsi st = Inr st"
| "weight_drain (Suc k) bsi st = rbind (emit_weight bsi st) (weight_drain k bsi)"

text \<open>One iteration of the loop of \<open>_get_1f1b_rank_ops\<close>.\<close>

definition rank_op_step ::
  "int \<Rightarrow> int \<Rightarrow> int \<Rightarrow> (int \<Rightarrow> int) \<Rightarrow> (int \<Rightarrow> int) \<Rightarrow> int \<Rightarrow> bool \<Rightarrow> ops_state \<Rightarrow> int \<Rightarrow> ops_state result" where
  "rank_op_step warmup_ops fwd_bwd_ops post_warmup fsi bsi num_1f1b zb st operation =
     (let bkind = (if zb then BACKWARD_INPUT else FULL_BACKWARD);
          weight = (\<lambda>s. if zb \<and> operation - warmup_ops \<ge> num_1f1b then emit_weight bsi s else Inr s)
      in if operation < warmup_ops
         then let st1 = emit_forward (fsi operation) st
              in Inr (if operation = warmup_ops - 1 then emit_idle (max 0 post_warmup) st1 else st1)
         else if operation < warmup_ops + fwd_bwd_ops
         then weight (emit_backward bkind (bsi operation) operation (emit_forward (fsi operation) st))
         else weight (emit_backward bkind (bsi operation) operation (if zb then st else emit_idle 1 st)))"

definition get_1f1b_rank_ops ::
  "int \<Rightarrow> int \<Rightarrow> int \<Rightarrow> int \<Rightarrow> int \<Rightarrow> int \<Rightarrow> (int \<Rightarrow> int) \<Rightarrow> (int \<Rightarrow> int) \<Rightarrow> int \<Rightarrow> bool \<Rightarrow> slot list result" where
  "get_1f1b_rank_ops n_local_stages pp_group_size warmup_ops fwd_bwd_ops cooldown_ops rank fsi bsi num_1f1b zb =
     (if min n_local_stages pp_group_size \<le> 0 then Inl ValueError
      else if rank < 0 \<or> rank \<ge> pp_group_size then Inl ValueError
      else if min warmup_ops (min fwd_bwd_ops cooldown_ops) < 0 then Inl ValueError
      else
        let post_warmup = (if zb then pp_group_size - rank - 1
              else n_local_stages * pp_group_size + 2 * (pp_group_size - 1 - rank) - warmup_ops - rank);
            st0 = \<lparr>forward_counts = (\<lambda>_. 0), backward_counts = (\<lambda>_. 0), weight_counts = (\<lambda>_. 0), weight_total = 0,
              backward_ids = [], ops = replicate (nat rank) None\<rparr>
        in rbind (foldM (rank_op_step warmup_ops fwd_bwd_ops post_warmup fsi bsi num_1f1b zb) st0
                    (py_range (warmup_ops + fwd_bwd_ops + cooldown_ops))) (\<lambda>st.
           rbind (if zb then weight_drain (length (backward_ids st) - weight_total st) bsi st else Inr st) (\<lambda>st'.
           Inr (ops st'))))"

text \<open>\<open>_calculate_single_rank_operations\<close> of the interleaved schedules; \<open>zb\<close> selects the zero-bubble one.\<close>

definition interleaved_rank :: "bool \<Rightarrow> int \<Rightarrow> int \<Rightarrow> int \<Rightarrow> int \<Rightarrow> slot list result" where
  "interleaved_rank zb n_local_stages pp_group_size n rank =
     (if pp_group_size = 0 then Inl ZeroDivisionError else
      let rounds = max 1 (n div pp_group_size);
          per_round = n div rounds;
          warmup = get_warmup_ops rank n_local_stages per_round pp_group_size n (if zb then 1 else 2);
          total = n_local_stages * n;
          steady = total - warmup;
          cooldown = total - steady;
          fsi = (\<lambda>step. ((step div per_round) mod n_local_stages) * pp_group_size + rank);
          bsi = (\<lambda>step. (n_local_stages - 1 - ((step - warmup) div per_round) mod n_local_stages) * pp_group_size + rank)
      in if n mod rounds \<noteq> 0 then Inl ValueError
         else get_1f1b_rank_ops n_local_stages pp_group_size warmup steady cooldown rank fsi bsi (if zb then rank else 0) zb)"

definition interleaved_1f1b_rank :: "int \<Rightarrow> int \<Rightarrow> int \<Rightarrow> int \<Rightarrow> slot list result" where
  "interleaved_1f1b_rank = interleaved_rank False"

definition zero_bubble_rank :: "int \<Rightarrow> int \<Rightarrow> int \<Rightarrow> int \<Rightarrow> slot list result" where
  "zero_bubble_rank = interleaved_rank True"

subsection \<open>Sharding and merging\<close>

fun stages_of :: "int list \<Rightarrow> action list \<Rightarrow> int list" where
  "stages_of stages [] = stages"
| "stages_of stages (leaf # rest) =
     stages_of (if stage_index leaf \<in> set stages then stages else stages @ [stage_index leaf]) rest"

text \<open>\<open>next_stage_indices\<close>: the stages of the next actions, until at least \<open>wanted\<close> are known.\<close>

fun next_stage_indices :: "int \<Rightarrow> int list \<Rightarrow> slot list \<Rightarrow> int list" where
  "next_stage_indices wanted stages [] = stages"
| "next_stage_indices wanted stages (None # as) = next_stage_indices wanted stages as"
| "next_stage_indices wanted stages (Some a # as) =
     (let stages' = stages_of stages (leaves a)
      in if int (length stages') \<ge> wanted then stages' else next_stage_indices wanted stages' as)"

definition reshard :: "int \<Rightarrow> action" where
  "reshard s = Action s RESHARD None None"

definition unshard :: "int \<Rightarrow> action" where
  "unshard s = Action s UNSHARD None None"

text \<open>The loop over the actions with the set of active stages; \<open>iter\<close> is the iteration order of a set.
  \<open>upcoming\<close> has no duplicates, so each inactive stage of it is unsharded once.\<close>

fun unshard_loop :: "(int set \<Rightarrow> int list) \<Rightarrow> int \<Rightarrow> int set \<Rightarrow> slot list \<Rightarrow> action list" where
  "unshard_loop iter max_active active [] = map reshard (iter active)"
| "unshard_loop iter max_active active (None # as) = unshard_loop iter max_active active as"
| "unshard_loop iter max_active active (Some a # as) =
     (let upcoming = next_stage_indices max_active [] (Some a # as);
          gone = filter (\<lambda>s. s \<notin> set upcoming) (iter active);
          fresh = filter (\<lambda>s. s \<notin> active - set gone) upcoming
      in map reshard gone @ map unshard fresh @ a # unshard_loop iter max_active (active - set gone \<union> set fresh) as)"

definition add_unshard_reshard :: "(int set \<Rightarrow> int list) \<Rightarrow> slot list \<Rightarrow> int \<Rightarrow> action list result" where
  "add_unshard_reshard iter compute_actions max_active_stages =
     (if max_active_stages \<le> 0 then Inl ValueError
      else Inr (unshard_loop iter max_active_stages {} compute_actions))"

lemma dropWhile_length: "dropWhile P xs = ys \<Longrightarrow> length ys \<le> length xs"
  by (metis length_dropWhile_le)

text \<open>\<open>_merge_bw\<close>. Idle slots after the current action are dropped before the next one is looked at.\<close>

function merge_bw :: "slot list \<Rightarrow> action list" where
  "merge_bw [] = []"
| "merge_bw (None # pending) = merge_bw pending"
| "merge_bw (Some a # pending) =
     (case dropWhile (\<lambda>x. x = None) pending of
        Some b # rest \<Rightarrow>
          if computation_type a = BACKWARD_INPUT \<and> computation_type b = BACKWARD_WEIGHT \<and>
             stage_index a = stage_index b \<and> microbatch_index a = microbatch_index b
          then Action (stage_index a) FULL_BACKWARD (microbatch_index a) None # merge_bw rest
          else a # merge_bw (Some b # rest)
      | rest \<Rightarrow> a # merge_bw rest)"
  by pat_completeness auto
termination by (relation "measure length") (auto dest!: dropWhile_length)

subsection \<open>Validation\<close>

record vstate =
  v_done :: "int \<Rightarrow> comp_type \<Rightarrow> int set"
  v_rank :: "int \<Rightarrow> int option"
  v_seen :: "(int \<times> comp_type \<times> int) set"

definition compute_types :: "comp_type set" where
  "compute_types = {FORWARD, FULL_BACKWARD, BACKWARD_INPUT, BACKWARD_WEIGHT}"

definition communication_types :: "comp_type set" where
  "communication_types = {SEND_F, RECV_F, SEND_B, RECV_B}"

text \<open>What has to be recorded for a stage before a computation of the given kind.\<close>

fun prerequisite :: "comp_type \<Rightarrow> comp_type option" where
  "prerequisite FULL_BACKWARD = Some FORWARD"
| "prerequisite BACKWARD_INPUT = Some FORWARD"
| "prerequisite BACKWARD_WEIGHT = Some BACKWARD_INPUT"
| "prerequisite _ = None"

definition validate_compute :: "int \<Rightarrow> comp_type \<Rightarrow> int \<Rightarrow> vstate \<Rightarrow> vstate result" where
  "validate_compute stage kind mb st =
     (if (stage, kind, mb) \<in> v_seen st then Inl ValueError
      else case prerequisite kind of
             Some k \<Rightarrow> if mb \<notin> v_done st stage k then Inl ValueError
               else Inr (st\<lparr>v_seen := insert (stage, kind, mb) (v_seen st),
                      v_done := (v_done st)(stage := (v_done st stage)(kind := insert mb (v_done st stage kind)))\<rparr>)
           | None \<Rightarrow> Inr (st\<lparr>v_seen := insert (stage, kind, mb) (v_seen st),
                      v_done := (v_done st)(stage := (v_done st stage)(kind := insert mb (v_done st stage kind)))\<rparr>))"

text \<open>\<open>process_action\<close> on an action without sub-actions.\<close>

definition validate_leaf :: "int \<Rightarrow> int \<Rightarrow> int \<Rightarrow> vstate \<Rightarrow> action \<Rightarrow> vstate result" where
  "validate_leaf num_stages n rank st a =
     (let stage = stage_index a; kind = computation_type a in
      if \<not> (0 \<le> stage \<and> stage < num_stages) then Inl ValueError
      else if kind \<notin> compute_types \<union> communication_types \<union> {UNSHARD, RESHARD, REDUCE_GRAD} then Inl ValueError
      else if kind \<in> compute_types \<union> communication_types \<and>
              (case microbatch_index a of None \<Rightarrow> True | Some m \<Rightarrow> \<not> (0 \<le> m \<and> m < n)) then Inl ValueError
      else if kind \<notin> compute_types \<union> communication_types \<and> microbatch_index a \<noteq> None then Inl ValueError
      else if (case v_rank st stage of None \<Rightarrow> False | Some r \<Rightarrow> r \<noteq> rank) then Inl ValueError
      else let st' = st\<lparr>v_rank := (v_rank st)(stage \<mapsto> rank)\<rparr> in
        if kind \<notin> compute_types then Inr st'
        else validate_compute stage kind (the (microbatch_index a)) st')"

lemma sub_action_size [termination_simp]: "x \<in> set as \<Longrightarrow> size x < Suc (Suc (size_list size as))"
  by (simp add: less_Suc_eq_le le_SucI size_list_estimation')

fun process_action :: "int \<Rightarrow> int \<Rightarrow> int \<Rightarrow> vstate \<Rightarrow> action \<Rightarrow> vstate result" where
  "process_action num_stages n rank st (Action s k m None) = validate_leaf num_stages n rank st (Action s k m None)"
| "process_action num_stages n rank st (Action s k m (Some subs)) =
     (if k \<noteq> OVERLAP_F_B then Inl ValueError
      else if subs = [] then Inl ValueError
      else foldM (\<lambda>st a. process_action num_stages n rank st a) st subs)"

definition process_rank :: "int \<Rightarrow> int \<Rightarrow> vstate \<Rightarrow> int \<times> slot list \<Rightarrow> vstate result" where
  "process_rank num_stages n st ra =
     foldM (\<lambda>st slot. case slot of None \<Rightarrow> Inr st | Some a \<Rightarrow> process_action num_stages n (fst ra) st a) st (snd ra)"

text \<open>The final checks on one stage.\<close>

definition stage_complete :: "int \<Rightarrow> vstate \<Rightarrow> int \<Rightarrow> bool" where
  "stage_complete n st stage \<longleftrightarrow>
     int (card (v_done st stage FORWARD)) = n \<and>
     card (v_done st stage BACKWARD_INPUT) = card (v_done st stage BACKWARD_WEIGHT) \<and>
     int (card (v_done st stage FULL_BACKWARD)) + int (card (v_done st stage BACKWARD_INPUT)) = n"

definition validate_schedule :: "pipeline_order \<Rightarrow> int \<Rightarrow> int \<Rightarrow> int \<Rightarrow> (int \<Rightarrow> int option) result" where
  "validate_schedule actions pp_group_size num_stages num_microbatches =
     (if pp_group_size \<le> 0 \<or> num_stages \<le> 0 \<or> num_microbatches \<le> 0 then Inl ValueError
      else if int (length actions) \<noteq> pp_group_size then Inl ValueError
      else if fst ` set actions \<noteq> set (py_range pp_group_size) then Inl ValueError
      else rbind (foldM (process_rank num_stages num_microbatches)
              \<lparr>v_done = (\<lambda>_ _. {}), v_rank = (\<lambda>_. None), v_seen = {}\<rparr> actions) (\<lambda>st.
        if \<not> list_all (stage_complete num_microbatches st) (py_range num_stages) then Inl ValueError
        else if list_ex (\<lambda>s. v_rank st s = None) (py_range num_stages) then Inl ValueError
        else Inr (v_rank st)))"

end
