(* ===== verification/SchedulePasses.thy ===== *)
theory SchedulePasses
  imports Schedules
begin

text \<open>
  The passes over the action list of one rank: the added gradient reductions come once and late
  enough, and merged backward halves are the same work in the same order.
\<close>

subsection \<open>Gradient reduction comes once, after the last backward\<close>

definition reduce_of :: "int \<Rightarrow> slot" where
  "reduce_of s = Some (Action s REDUCE_GRAD None None)"

definition bw_leaves :: "int \<Rightarrow> action list \<Rightarrow> int" where
  "bw_leaves s ls = int (length (filter (\<lambda>l. requires_reduce_grad (computation_type l) \<and> stage_index l = s) ls))"

text \<open>The number of weight-gradient computations of stage \<open>s\<close> in a list of slots.\<close>

fun bw_slot :: "int \<Rightarrow> slot \<Rightarrow> int" where
  "bw_slot s None = 0"
| "bw_slot s (Some a) = bw_leaves s (leaves a)"

definition bw_count :: "int \<Rightarrow> slot list \<Rightarrow> int" where
  "bw_count s as = sum_list (map (bw_slot s) as)"

lemma bw_count_simps [simp]:
  "bw_count s [] = 0" "bw_count s (x # xs) = bw_slot s x + bw_count s xs"
  "bw_count s (xs @ ys) = bw_count s xs + bw_count s ys"
  by (simp_all add: bw_count_def)

lemma bw_leaves_simps [simp]:
  "bw_leaves s [] = 0"
  "bw_leaves s (l # ls) = (if requires_reduce_grad (computation_type l) \<and> stage_index l = s then 1 else 0) + bw_leaves s ls"
  by (simp_all add: bw_leaves_def)

lemma bw_leaves_nonneg [simp]: "0 \<le> bw_leaves s ls"
  by (simp add: bw_leaves_def)

lemma reduce_not_backward [simp]: "bw_slot s (reduce_of s') = 0" "bw_slot s (Some (Action s' REDUCE_GRAD None None)) = 0"
  by (simp_all add: reduce_of_def requires_reduce_grad_def)

lemma reduce_leaves_spec:
  assumes "reduce_leaves n c ls = (out, c')"
  shows "(\<forall>s. c' s = c s + bw_leaves s ls) \<and>
    (\<forall>a \<in> set out. \<exists>s. a = Action s REDUCE_GRAD None None \<and> n \<le> c' s) \<and>
    (\<forall>s. count_list out (Action s REDUCE_GRAD None None) = (if c s < n \<and> n \<le> c' s then 1 else 0))"
  using assms
proof (induction ls arbitrary: c out c')
  case (Cons l ls)
  show ?case
  proof (cases "requires_reduce_grad (computation_type l)")
    case True
    let ?s = "stage_index l"
    let ?c = "c(?s := c ?s + 1)"
    obtain o' where rec: "reduce_leaves n ?c ls = (o', c')"
      and out: "out = (if ?c ?s = n then Action ?s REDUCE_GRAD None None # o' else o')"
      using Cons.prems True by (cases "reduce_leaves n ?c ls") (auto simp: Let_def)
    note ih = Cons.IH[OF rec]
    have c': "c' s = ?c s + bw_leaves s ls" for s using ih by simp
    then have "\<forall>s. c' s = c s + bw_leaves s (l # ls)" using True by simp
    moreover have "n \<le> c' ?s" if "?c ?s = n" using c'[of ?s] that by simp
    then have "\<forall>a \<in> set out. \<exists>s. a = Action s REDUCE_GRAD None None \<and> n \<le> c' s"
      using conjunct1[OF conjunct2[OF ih]] by (auto simp: out simp del: fun_upd_apply)
    moreover have "count_list out (Action s REDUCE_GRAD None None) = (if c s < n \<and> n \<le> c' s then 1 else 0)" for s
      using ih out c'[of ?s] by (cases "s = ?s") auto
    ultimately show ?thesis by blast
  qed (use Cons in auto)
qed simp

text \<open>Every reduction of a stage in the list has at least \<open>n\<close> of its backwards before it, \<open>c\<close> counting
  those before the list.\<close>

fun reductions_late :: "int \<Rightarrow> (int \<Rightarrow> int) \<Rightarrow> slot list \<Rightarrow> bool" where
  "reductions_late n c [] = True"
| "reductions_late n c (x # xs) \<longleftrightarrow> (\<forall>s. x = reduce_of s \<longrightarrow> n \<le> c s) \<and> reductions_late n (\<lambda>s. c s + bw_slot s x) xs"

lemma reductions_late_append:
  "reductions_late n c (xs @ ys) \<longleftrightarrow> reductions_late n c xs \<and> reductions_late n (\<lambda>s. c s + bw_count s xs) ys"
  by (induction xs arbitrary: c) (auto simp: add.assoc)

lemma reductions_late_split:
  "reductions_late n c (xs @ reduce_of s # ys) \<Longrightarrow> n \<le> c s + bw_count s xs"
  by (simp add: reductions_late_append)

definition no_reduction :: "slot list \<Rightarrow> bool" where
  "no_reduction as \<longleftrightarrow> (\<forall>a. Some a \<in> set as \<longrightarrow> computation_type a \<noteq> REDUCE_GRAD)"

definition drop_reductions :: "slot list \<Rightarrow> slot list" where
  "drop_reductions as = filter (\<lambda>x. case x of None \<Rightarrow> True | Some a \<Rightarrow> computation_type a \<noteq> REDUCE_GRAD) as"

lemma emitted_reductions:
  assumes "\<forall>a \<in> set out. \<exists>s. a = Action s REDUCE_GRAD None None \<and> n \<le> c s"
  shows "reductions_late n c (map Some out) \<and> bw_count s (map Some out) = 0 \<and> drop_reductions (map Some out) = []"
  using assms
proof (induction out)
  case (Cons a out)
  obtain s' where a: "a = Action s' REDUCE_GRAD None None" "n \<le> c s'" using Cons.prems by auto
  then show ?case using Cons by (auto simp: reduce_of_def drop_reductions_def requires_reduce_grad_def)
qed (simp add: drop_reductions_def)

lemma count_map_Some: "count_list (map Some out) (Some a) = count_list out a"
  by (induction out) auto

lemma add_reduce_loop_spec:
  assumes "no_reduction as"
  shows "drop_reductions (add_reduce_loop n c as) = as \<and> reductions_late n c (add_reduce_loop n c as) \<and>
    (\<forall>s. count_list (add_reduce_loop n c as) (reduce_of s) = (if c s < n \<and> n \<le> c s + bw_count s as then 1 else 0))"
  using assms
proof (induction n c as rule: add_reduce_loop.induct)
  case (1 n c)
  then show ?case by (simp add: drop_reductions_def)
next
  case (2 n c as)
  then show ?case by (auto simp: no_reduction_def drop_reductions_def reduce_of_def)
next
  case (3 n c a as)
  obtain out c' where out: "reduce_leaves n c (leaves a) = (out, c')" by (cases "reduce_leaves n c (leaves a)")
  note spec = reduce_leaves_spec[OF out]
  have a: "computation_type a \<noteq> REDUCE_GRAD" and no: "no_reduction as" using "3.prems" by (auto simp: no_reduction_def)
  let ?rest = "add_reduce_loop n c' as"
  have ih: "drop_reductions ?rest = as" "reductions_late n c' ?rest"
    "\<And>s. count_list ?rest (reduce_of s) = (if c' s < n \<and> n \<le> c' s + bw_count s as then 1 else 0)"
    using "3.IH"[OF out[symmetric] refl no] by auto
  have c': "(\<lambda>s. c s + bw_leaves s (leaves a)) = c'" using spec by auto
  note em = emitted_reductions[of out n c', OF conjunct1[OF conjunct2[OF spec]]]
  have neq: "Some a \<noteq> reduce_of s" for s using a by (cases a) (auto simp: reduce_of_def)
  have eq: "add_reduce_loop n c (Some a # as) = Some a # map Some out @ ?rest" by (simp add: out)
  have "drop_reductions (add_reduce_loop n c (Some a # as)) = Some a # as"
    unfolding eq using em ih(1) a by (simp add: drop_reductions_def)
  moreover have "reductions_late n c (add_reduce_loop n c (Some a # as))"
    unfolding eq using em ih(2) neq by (simp add: reductions_late_append c')
  moreover have "count_list (add_reduce_loop n c (Some a # as)) (reduce_of s) =
      (if c s < n \<and> n \<le> c s + bw_count s (Some a # as) then 1 else 0)" for s
  proof -
    have cs: "c' s = c s + bw_leaves s (leaves a)" using spec by blast
    have "count_list (map Some out) (reduce_of s) = (if c s < n \<and> n \<le> c' s then 1 else 0)"
      using spec by (simp add: reduce_of_def count_map_Some)
    moreover have "0 \<le> bw_count s as" by (auto simp: bw_count_def intro!: sum_list_nonneg) (metis bw_leaves_nonneg bw_slot.elims order_refl)
    ultimately show ?thesis unfolding eq using ih(3)[of s] neq[of s] cs bw_leaves_nonneg[of s "leaves a"]
      by (auto simp: count_list_append simp del: bw_leaves_nonneg)
  qed
  ultimately show ?case by blast
qed

text \<open>\<open>_add_reduce_grad\<close> with a positive number of microbatches keeps the given actions in order, adds
  for every stage with at least that many weight-gradient computations exactly one reduction
  and for the others none, and puts it after at least that many of them.\<close>

theorem add_reduce_grad_once:
  assumes "0 < n" and "no_reduction as"
  shows "\<exists>out. add_reduce_grad as n = Inr out \<and> drop_reductions out = as \<and>
    (\<forall>s. count_list out (reduce_of s) = (if n \<le> bw_count s as then 1 else 0)) \<and>
    (\<forall>s xs ys. out = xs @ reduce_of s # ys \<longrightarrow> n \<le> bw_count s xs)"
  using add_reduce_loop_spec[OF assms(2), of n "\<lambda>_. 0"] assms(1) reductions_late_split[of n "\<lambda>_. 0"]
  by (auto simp: add_reduce_grad_def)

theorem add_reduce_grad_once_witness:
  "\<exists>out. add_reduce_grad [act 0 FORWARD 0, act 0 FULL_BACKWARD 0, None, act 0 FULL_BACKWARD 1] 2 = Inr out \<and>
    drop_reductions out = [act 0 FORWARD 0, act 0 FULL_BACKWARD 0, None, act 0 FULL_BACKWARD 1] \<and>
    (\<forall>s. count_list out (reduce_of s) =
      (if 2 \<le> bw_count s [act 0 FORWARD 0, act 0 FULL_BACKWARD 0, None, act 0 FULL_BACKWARD 1] then 1 else 0)) \<and>
    (\<forall>s xs ys. out = xs @ reduce_of s # ys \<longrightarrow> 2 \<le> bw_count s xs)"
  by (rule add_reduce_grad_once) (auto simp: no_reduction_def)


subsection \<open>Merging backward halves\<close>

text \<open>A full backward is an input backward followed by a weight backward.\<close>

definition split_bw :: "action \<Rightarrow> action list" where
  "split_bw a = (if computation_type a = FULL_BACKWARD \<and> sub_actions a = None
     then [Action (stage_index a) BACKWARD_INPUT (microbatch_index a) None,
           Action (stage_index a) BACKWARD_WEIGHT (microbatch_index a) None]
     else [a])"

definition mergeable :: "action \<Rightarrow> action \<Rightarrow> bool" where
  "mergeable a b \<longleftrightarrow> computation_type a = BACKWARD_INPUT \<and> computation_type b = BACKWARD_WEIGHT \<and>
     stage_index a = stage_index b \<and> microbatch_index a = microbatch_index b"

definition somes :: "slot list \<Rightarrow> action list" where
  "somes as = map the (filter (\<lambda>x. x \<noteq> None) as)"

lemma somes_simps [simp]: "somes [] = []" "somes (None # as) = somes as" "somes (Some a # as) = a # somes as"
  "somes (as @ bs) = somes as @ somes bs"
  by (simp_all add: somes_def)

lemma somes_dropWhile: "somes (dropWhile (\<lambda>x. x = None) as) = somes as"
  by (induction as) auto

lemma set_somes: "a \<in> set (somes as) \<longleftrightarrow> Some a \<in> set as"
  by (induction as rule: list.induct) (auto simp: somes_def image_iff)

lemma dropWhile_None_cases:
  "(\<exists>b rest. dropWhile (\<lambda>x. x = None) as = Some b # rest) \<or> dropWhile (\<lambda>x. x = None) as = []"
  by (induction as) auto

text \<open>The merge only looks at the actions, not at the idle slots between them.\<close>

fun merge_spec :: "action list \<Rightarrow> action list" where
  "merge_spec (a # b # as) =
     (if mergeable a b then Action (stage_index a) FULL_BACKWARD (microbatch_index a) None # merge_spec as
      else a # merge_spec (b # as))"
| "merge_spec as = as"

lemma merge_bw_spec: "merge_bw as = merge_spec (somes as)"
proof (induction as rule: merge_bw.induct)
  case (3 a pending)
  show ?case
  proof (cases "dropWhile (\<lambda>x. x = None) pending")
    case Nil
    have "somes pending = []" using somes_dropWhile[of pending] unfolding Nil by simp
    then show ?thesis by (subst merge_bw.simps) (simp add: Nil)
  next
    case (Cons x rest)
    then obtain b where x: "x = Some b" using dropWhile_None_cases[of pending] by auto
    have s: "somes pending = b # somes rest" using somes_dropWhile[of pending] Cons x by simp
    show ?thesis using 3 Cons x s by (auto simp: mergeable_def)
  qed
qed simp_all

lemma merge_spec_split:
  assumes "\<forall>a \<in> set as. computation_type a \<in> {BACKWARD_INPUT, BACKWARD_WEIGHT} \<longrightarrow> sub_actions a = None"
  shows "concat (map split_bw (merge_spec as)) = concat (map split_bw as)"
  using assms
proof (induction as rule: merge_spec.induct)
  case (1 a b as)
  show ?case
  proof (cases "mergeable a b")
    case True
    then obtain s m where "a = Action s BACKWARD_INPUT m None" "b = Action s BACKWARD_WEIGHT m None"
      using "1.prems" by (cases a; cases b) (auto simp: mergeable_def)
    then show ?thesis using "1.IH"(1)[OF True] "1.prems" True by (simp add: split_bw_def)
  qed (use 1 in auto)
qed auto

lemma merge_spec_hd: "as \<noteq> [] \<Longrightarrow> merge_spec as \<noteq> [] \<and>
    (hd (merge_spec as) = hd as \<or> computation_type (hd (merge_spec as)) = FULL_BACKWARD)"
  by (induction as rule: merge_spec.induct) auto

lemma merge_spec_normal: "successively (\<lambda>a b. \<not> mergeable a b) (merge_spec as)"
proof (induction as rule: merge_spec.induct)
  case (1 a b as)
  show ?case
  proof (cases "mergeable a b")
    case True
    then show ?thesis using 1 by (cases "merge_spec as") (auto simp: mergeable_def)
  next
    case False
    have "\<not> mergeable a (hd (merge_spec (b # as)))" using merge_spec_hd[of "b # as"] False by (auto simp: mergeable_def)
    then show ?thesis using 1 False merge_spec_hd[of "b # as"] by (cases "merge_spec (b # as)") auto
  qed
qed auto

text \<open>\<open>_merge_bw\<close> keeps the work and its order: written out in input and weight halves, the
  result is the sequence of the given actions. It leaves no neighbouring pair of halves of the same
  stage and microbatch.\<close>

theorem merge_bw_preserves_work:
  assumes "\<forall>a. Some a \<in> set as \<longrightarrow> computation_type a \<in> {BACKWARD_INPUT, BACKWARD_WEIGHT} \<longrightarrow> sub_actions a = None"
  shows "concat (map split_bw (merge_bw as)) = concat (map split_bw (somes as)) \<and>
    successively (\<lambda>a b. \<not> mergeable a b) (merge_bw as)"
  using merge_spec_split[of "somes as"] merge_spec_normal assms by (auto simp: merge_bw_spec set_somes)

theorem merge_bw_preserves_work_witness:
  "concat (map split_bw (merge_bw [act 1 BACKWARD_INPUT 0, None, act 1 BACKWARD_WEIGHT 0, act 0 FORWARD 2])) =
     concat (map split_bw (somes [act 1 BACKWARD_INPUT 0, None, act 1 BACKWARD_WEIGHT 0, act 0 FORWARD 2])) \<and>
   successively (\<lambda>a b. \<not> mergeable a b) (merge_bw [act 1 BACKWARD_INPUT 0, None, act 1 BACKWARD_WEIGHT 0, act 0 FORWARD 2])"
  by (rule merge_bw_preserves_work) auto

end
