(* ===== verification/ScheduleValidation.thy ===== *)
theory ScheduleValidation
  imports SchedulePasses
begin

text \<open>
  The validator of pipeline schedules: its state after a list of actions in closed form, what an accepted
  schedule guarantees, and a schedule it accepts although a microbatch has no backward.
\<close>

subsection \<open>What the validator accepts\<close>

type_synonym work = "int \<times> comp_type \<times> int"

text \<open>The nested actions in the order of execution, and the computations (stage, kind, microbatch) among them.\<close>

fun flat_actions :: "action \<Rightarrow> action list" where
  "flat_actions (Action s k m None) = [Action s k m None]"
| "flat_actions (Action s k m (Some subs)) = concat (map flat_actions subs)"

definition work_of :: "action list \<Rightarrow> work list" where
  "work_of as = map (\<lambda>a. (stage_index a, computation_type a, the (microbatch_index a)))
     (filter (\<lambda>a. computation_type a \<in> compute_types) as)"

definition rank_actions :: "slot list \<Rightarrow> action list" where
  "rank_actions as = concat (map flat_actions (somes as))"

definition schedule_events :: "pipeline_order \<Rightarrow> (int \<times> action) list" where
  "schedule_events order = concat (map (\<lambda>(r, as). map (Pair r) (rank_actions as)) order)"

text \<open>Everything that depends on earlier work of its stage comes after that work.\<close>

definition preceded :: "work list \<Rightarrow> bool" where
  "preceded ws \<longleftrightarrow> (\<forall>xs ys s k m p. ws = xs @ (s, k, m) # ys \<longrightarrow> prerequisite k = Some p \<longrightarrow> (s, p, m) \<in> set xs)"

definition leaf_ok :: "int \<Rightarrow> int \<Rightarrow> action \<Rightarrow> bool" where
  "leaf_ok S n a \<longleftrightarrow> 0 \<le> stage_index a \<and> stage_index a < S \<and> computation_type a \<noteq> OVERLAP_F_B \<and>
     (case microbatch_index a of
        None \<Rightarrow> computation_type a \<in> {UNSHARD, RESHARD, REDUCE_GRAD}
      | Some m \<Rightarrow> computation_type a \<notin> {UNSHARD, RESHARD, REDUCE_GRAD} \<and> 0 \<le> m \<and> m < n)"

definition valid_events :: "int \<Rightarrow> int \<Rightarrow> (int \<times> action) list \<Rightarrow> bool" where
  "valid_events S n evs \<longleftrightarrow>
     (\<forall>(r, a) \<in> set evs. leaf_ok S n a) \<and> distinct (work_of (map snd evs)) \<and> preceded (work_of (map snd evs)) \<and>
     (\<forall>(r, a) \<in> set evs. \<forall>(r', a') \<in> set evs. stage_index a = stage_index a' \<longrightarrow> r = r')"

lemma work_of_simps [simp]: "work_of [] = []" "work_of (as @ bs) = work_of as @ work_of bs"
  "work_of (a # as) = (if computation_type a \<in> compute_types
     then [(stage_index a, computation_type a, the (microbatch_index a))] else []) @ work_of as"
  by (simp_all add: work_of_def)

lemma preceded_Nil [simp]: "preceded []"
  by (simp add: preceded_def)

lemma preceded_snoc:
  "preceded (ws @ [(s, k, m)]) \<longleftrightarrow> preceded ws \<and> (\<forall>p. prerequisite k = Some p \<longrightarrow> (s, p, m) \<in> set ws)"
  (is "?L \<longleftrightarrow> ?R")
proof
  assume L: ?L
  have "preceded ws" unfolding preceded_def
  proof clarify
    fix xs ys s' k' m' p assume "ws = xs @ (s', k', m') # ys" "prerequisite k' = Some p"
    then show "(s', p, m') \<in> set xs" using L unfolding preceded_def by (metis append_Cons append_assoc)
  qed
  then show ?R using L unfolding preceded_def by metis
next
  assume R: ?R
  show ?L unfolding preceded_def
  proof clarify
    fix xs ys s' k' m' p assume e: "ws @ [(s, k, m)] = xs @ (s', k', m') # ys" and p: "prerequisite k' = Some p"
    show "(s', p, m') \<in> set xs"
    proof (cases ys rule: rev_cases)
      case Nil
      then show ?thesis using e p R by auto
    next
      case (snoc zs z)
      then have "ws = xs @ (s', k', m') # zs" using e by (metis append_Cons append_assoc butlast_snoc)
      then show ?thesis using R p unfolding preceded_def by blast
    qed
  qed
qed

lemma preceded_append: "preceded xs \<Longrightarrow> preceded ys \<Longrightarrow> preceded (xs @ ys)"
proof (induction ys rule: rev_induct)
  case (snoc y ys)
  then show ?case by (cases y) (auto simp: preceded_snoc simp flip: append_assoc)
qed simp

definition validate_event :: "int \<Rightarrow> int \<Rightarrow> vstate \<Rightarrow> int \<times> action \<Rightarrow> vstate result" where
  "validate_event S n st e = validate_leaf S n (fst e) st (snd e)"

definition initial_vstate :: vstate where
  "initial_vstate = \<lparr>v_done = (\<lambda>_ _. {}), v_rank = (\<lambda>_. None), v_seen = {}\<rparr>"

definition vstate_of :: "(int \<times> action) list \<Rightarrow> vstate" where
  "vstate_of evs = \<lparr>v_done = (\<lambda>s k. {m. (s, k, m) \<in> set (work_of (map snd evs))}),
     v_rank = map_of (rev (map (\<lambda>(r, a). (stage_index a, r)) evs)), v_seen = set (work_of (map snd evs))\<rparr>"

lemma stage_rank_one:
  assumes "\<forall>(r, a) \<in> set evs. \<forall>(r', a') \<in> set evs. stage_index a = stage_index a' \<longrightarrow> r = r'"
  shows "v_rank (vstate_of evs) s = Some r \<longleftrightarrow> (\<exists>a. (r, a) \<in> set evs \<and> stage_index a = s)"
proof
  assume "v_rank (vstate_of evs) s = Some r"
  then have "(s, r) \<in> set (rev (map (\<lambda>(r, a). (stage_index a, r)) evs))"
    unfolding vstate_of_def by (auto dest: map_of_SomeD)
  then show "\<exists>a. (r, a) \<in> set evs \<and> stage_index a = s" by auto
next
  let ?m = "map_of (rev (map (\<lambda>(r, a). (stage_index a, r)) evs))"
  assume "\<exists>a. (r, a) \<in> set evs \<and> stage_index a = s"
  then obtain a where a: "(r, a) \<in> set evs" "stage_index a = s" by blast
  then have "s \<in> fst ` set (rev (map (\<lambda>(r, a). (stage_index a, r)) evs))" by (force simp: image_iff)
  then obtain r' where r': "?m s = Some r'" by (metis not_None_eq map_of_eq_None_iff)
  then have "(s, r') \<in> set (rev (map (\<lambda>(r, a). (stage_index a, r)) evs))" by (rule map_of_SomeD)
  then have "r' = r" using a assms by fastforce
  then show "v_rank (vstate_of evs) s = Some r" using r' by (simp add: vstate_of_def)
qed

definition rank_free :: "int \<Rightarrow> int \<Rightarrow> vstate \<Rightarrow> bool" where
  "rank_free r s st \<longleftrightarrow> (case v_rank st s of None \<Rightarrow> True | Some r' \<Rightarrow> r' = r)"

lemma validate_leaf_spec:
  "validate_leaf S n r st a =
    (if \<not> leaf_ok S n a \<or> \<not> rank_free r (stage_index a) st then Inl ValueError
     else let st' = st\<lparr>v_rank := (v_rank st)(stage_index a \<mapsto> r)\<rparr> in
       if computation_type a \<notin> compute_types then Inr st'
       else validate_compute (stage_index a) (computation_type a) (the (microbatch_index a)) st')"
proof -
  have rank: "rank_free r (stage_index a) st \<longleftrightarrow> \<not> (case v_rank st (stage_index a) of None \<Rightarrow> False | Some r' \<Rightarrow> r' \<noteq> r)"
    by (simp add: rank_free_def split: option.splits)
  show ?thesis unfolding validate_leaf_def Let_def rank
    by (cases "computation_type a"; cases "microbatch_index a")
       (simp_all add: leaf_ok_def compute_types_def communication_types_def)
qed

lemma valid_events_snoc:
  "valid_events S n (evs @ [(r, a)]) \<longleftrightarrow> valid_events S n evs \<and> leaf_ok S n a \<and>
    (computation_type a \<in> compute_types \<longrightarrow>
      (stage_index a, computation_type a, the (microbatch_index a)) \<notin> set (work_of (map snd evs)) \<and>
      (\<forall>p. prerequisite (computation_type a) = Some p \<longrightarrow>
        (stage_index a, p, the (microbatch_index a)) \<in> set (work_of (map snd evs)))) \<and>
    (\<forall>(r', a') \<in> set evs. stage_index a' = stage_index a \<longrightarrow> r' = r)"
proof -
  have one: "(\<forall>(r1, a1) \<in> insert (r, a) E. \<forall>(r2, a2) \<in> insert (r, a) E. stage_index a1 = stage_index a2 \<longrightarrow> r1 = r2) \<longleftrightarrow>
      (\<forall>(r1, a1) \<in> E. \<forall>(r2, a2) \<in> E. stage_index a1 = stage_index a2 \<longrightarrow> r1 = r2) \<and>
      (\<forall>(r', a') \<in> E. stage_index a' = stage_index a \<longrightarrow> r' = r)" for E
    by fastforce
  have app: "set (evs @ [(r, a)]) = insert (r, a) (set evs)" by simp
  show ?thesis unfolding valid_events_def app one
    by (cases "computation_type a \<in> compute_types") (auto simp: preceded_snoc)
qed

lemma rank_free_spec:
  assumes "valid_events S n evs"
  shows "rank_free r s (vstate_of evs) \<longleftrightarrow> (\<forall>(r', a') \<in> set evs. stage_index a' = s \<longrightarrow> r' = r)"
proof -
  have "v_rank (vstate_of evs) s = Some r' \<longleftrightarrow> (\<exists>a. (r', a) \<in> set evs \<and> stage_index a = s)" for r'
    using assms stage_rank_one[of evs] unfolding valid_events_def by blast
  then have "(\<forall>(r', a') \<in> set evs. stage_index a' = s \<longrightarrow> r' = r) \<longleftrightarrow> (\<forall>r'. v_rank (vstate_of evs) s = Some r' \<longrightarrow> r' = r)"
    by blast
  then show ?thesis unfolding rank_free_def by (cases "v_rank (vstate_of evs) s") auto
qed

lemma vstate_of_snoc:
  "vstate_of (evs @ [(r, a)]) = (let st = vstate_of evs; s = stage_index a; k = computation_type a; m = the (microbatch_index a);
      st' = st\<lparr>v_rank := (v_rank st)(s \<mapsto> r)\<rparr>
    in if k \<notin> compute_types then st'
       else st'\<lparr>v_seen := insert (s, k, m) (v_seen st'), v_done := (v_done st')(s := (v_done st' s)(k := insert m (v_done st' s k)))\<rparr>)"
  by (auto simp: vstate_of_def Let_def fun_eq_iff)

lemma validate_compute_spec:
  "validate_compute s k m st =
    (if (s, k, m) \<in> v_seen st \<or> (\<exists>p. prerequisite k = Some p \<and> m \<notin> v_done st s p) then Inl ValueError
     else Inr (st\<lparr>v_seen := insert (s, k, m) (v_seen st), v_done := (v_done st)(s := (v_done st s)(k := insert m (v_done st s k)))\<rparr>))"
  by (auto simp: validate_compute_def split: option.splits)

lemma validate_event_step:
  assumes "valid_events S n evs"
  shows "validate_event S n (vstate_of evs) (r, a) =
    (if valid_events S n (evs @ [(r, a)]) then Inr (vstate_of (evs @ [(r, a)])) else Inl ValueError)"
proof -
  have seen: "v_seen (vstate_of evs) = set (work_of (map snd evs))"
    "\<And>s k. v_done (vstate_of evs) s k = {m. (s, k, m) \<in> set (work_of (map snd evs))}" by (simp_all add: vstate_of_def)
  show ?thesis unfolding validate_event_def fst_conv snd_conv validate_leaf_spec valid_events_snoc rank_free_spec[OF assms]
      vstate_of_snoc Let_def
    using assms by (cases "computation_type a \<in> compute_types") (auto simp: validate_compute_spec seen)
qed

lemma validate_events_spec:
  "foldM (validate_event S n) initial_vstate evs = (if valid_events S n evs then Inr (vstate_of evs) else Inl ValueError)"
proof (induction evs rule: rev_induct)
  case Nil
  show ?case by (simp add: valid_events_def vstate_of_def initial_vstate_def)
next
  case (snoc e evs)
  obtain r a where e: "e = (r, a)" by (cases e)
  show ?case using validate_event_step[of S n evs r a] snoc valid_events_snoc[of S n evs r a] by (auto simp: foldM_append e)
qed

lemma only_ValueError: "foldM (validate_event S n) st evs = Inl e \<Longrightarrow> e = ValueError"
  by (induction evs arbitrary: st)
     (auto simp: rbind_eq_Inl validate_event_def validate_leaf_spec Let_def validate_compute_spec split: if_splits)

text \<open>Only an overlapping action may have sub-actions, and it has some.\<close>

fun nested_ok :: "action \<Rightarrow> bool" where
  "nested_ok (Action s k m None) = True"
| "nested_ok (Action s k m (Some subs)) \<longleftrightarrow> k = OVERLAP_F_B \<and> subs \<noteq> [] \<and> list_all nested_ok subs"

lemma foldM_chunks:
  assumes "\<And>x st. x \<in> set xs \<Longrightarrow> f st x = (if ok x then foldM (validate_event S n) st (evs x) else Inl ValueError)"
  shows "foldM f st xs = (if list_all ok xs then foldM (validate_event S n) st (concat (map evs xs)) else Inl ValueError)"
  using assms
proof (induction xs arbitrary: st)
  case (Cons x xs)
  show ?case
  proof (cases "foldM (validate_event S n) st (evs x)")
    case (Inl e)
    then show ?thesis using Cons.prems[of x] only_ValueError[OF Inl] by (auto simp: foldM_append)
  next
    case (Inr st')
    then show ?thesis using Cons.prems[of x] Cons.IH[of st'] Cons.prems by (auto simp: foldM_append)
  qed
qed simp

lemma process_action_spec:
  "process_action S n r st a =
    (if nested_ok a then foldM (validate_event S n) st (map (Pair r) (flat_actions a)) else Inl ValueError)"
proof (induction S n r st a rule: process_action.induct)
  case (1 S n r st s k m)
  show ?case by (cases "validate_leaf S n r st (Action s k m None)") (simp_all add: validate_event_def)
next
  case (2 S n r st s k m subs)
  show ?case
  proof (cases "k = OVERLAP_F_B \<and> subs \<noteq> []")
    case True
    then have "process_action S n r st' a = (if nested_ok a then foldM (validate_event S n) st' (map (Pair r) (flat_actions a))
        else Inl ValueError)" if "a \<in> set subs" for a st' using 2 that by blast
    then show ?thesis using True
      by (simp add: foldM_chunks[where ok = nested_ok and evs = "\<lambda>a. map (Pair r) (flat_actions a)"] map_concat comp_def)
  qed auto
qed

definition nesting_ok :: "pipeline_order \<Rightarrow> bool" where
  "nesting_ok order \<longleftrightarrow> list_all (\<lambda>(r, as). list_all nested_ok (somes as)) order"

lemma process_rank_spec:
  "process_rank S n st ra = (if list_all nested_ok (somes (snd ra))
    then foldM (validate_event S n) st (map (Pair (fst ra)) (rank_actions (snd ra))) else Inl ValueError)"
proof -
  have "foldM (\<lambda>st slot. case slot of None \<Rightarrow> Inr st | Some a \<Rightarrow> f st a) st as = foldM f st (somes as)"
    for f :: "vstate \<Rightarrow> action \<Rightarrow> vstate result" and st as
  proof (induction as arbitrary: st)
    case (Cons x as)
    then show ?case by (cases x) simp_all
  qed simp
  then show ?thesis unfolding process_rank_def
    by (simp add: foldM_chunks[where ok = nested_ok and evs = "\<lambda>a. map (Pair (fst ra)) (flat_actions a)"]
        process_action_spec rank_actions_def map_concat comp_def)
qed

lemma process_ranks_spec:
  "foldM (process_rank S n) initial_vstate order =
    (if nesting_ok order \<and> valid_events S n (schedule_events order) then Inr (vstate_of (schedule_events order)) else Inl ValueError)"
  unfolding nesting_ok_def schedule_events_def
  by (subst foldM_chunks[where ok = "\<lambda>(r, as). list_all nested_ok (somes as)" and
        evs = "\<lambda>(r, as). map (Pair r) (rank_actions as)" and S = S and n = n])
     (auto simp: process_rank_spec validate_events_spec split_beta)

lemma validate_schedule_spec:
  "validate_schedule order g S n =
    (if 0 < g \<and> 0 < S \<and> 0 < n \<and> int (length order) = g \<and> fst ` set order = {0..<g} \<and>
        nesting_ok order \<and> valid_events S n (schedule_events order) \<and>
        list_all (stage_complete n (vstate_of (schedule_events order))) (py_range S) \<and>
        \<not> list_ex (\<lambda>s. v_rank (vstate_of (schedule_events order)) s = None) (py_range S)
     then Inr (v_rank (vstate_of (schedule_events order))) else Inl ValueError)"
  unfolding validate_schedule_def initial_vstate_def[symmetric] process_ranks_spec
  by (auto simp: not_le[symmetric])

definition batches_of :: "work list \<Rightarrow> int \<Rightarrow> comp_type \<Rightarrow> int set" where
  "batches_of ws s k = {m. (s, k, m) \<in> set ws}"

lemma batches_bounded:
  assumes "valid_events S n evs"
  shows "batches_of (work_of (map snd evs)) s k \<subseteq> {0..<n}"
proof
  fix m assume "m \<in> batches_of (work_of (map snd evs)) s k"
  then obtain r a where "(r, a) \<in> set evs" "computation_type a \<in> compute_types" "m = the (microbatch_index a)"
    unfolding batches_of_def work_of_def by auto
  then show "m \<in> {0..<n}" using assms
    unfolding valid_events_def leaf_ok_def by (fastforce simp: compute_types_def split: option.splits)
qed

lemma stage_complete_spec:
  assumes "valid_events S n evs" and "0 < n"
  shows "stage_complete n (vstate_of evs) s \<longleftrightarrow>
    (let B = batches_of (work_of (map snd evs)) s in
      B FORWARD = {0..<n} \<and> B BACKWARD_WEIGHT = B BACKWARD_INPUT \<and>
      int (card (B FULL_BACKWARD)) + int (card (B BACKWARD_INPUT)) = n)"
proof -
  let ?B = "batches_of (work_of (map snd evs)) s"
  have fin: "finite (?B k)" for k using batches_bounded[OF assms(1)] finite_subset by blast
  have F: "int (card (?B FORWARD)) = n \<longleftrightarrow> ?B FORWARD = {0..<n}"
  proof
    assume "int (card (?B FORWARD)) = n"
    then show "?B FORWARD = {0..<n}" using batches_bounded[OF assms(1)] by (intro card_subset_eq) auto
  qed (use assms(2) in simp)
  have "preceded (work_of (map snd evs))" using assms(1) by (simp add: valid_events_def)
  then have "?B BACKWARD_WEIGHT \<subseteq> ?B BACKWARD_INPUT"
    unfolding preceded_def batches_of_def using split_list by fastforce
  then have W: "card (?B BACKWARD_INPUT) = card (?B BACKWARD_WEIGHT) \<longleftrightarrow> ?B BACKWARD_WEIGHT = ?B BACKWARD_INPUT"
    using card_subset_eq[OF fin] by metis
  have "v_done (vstate_of evs) s k = ?B k" for k by (simp add: vstate_of_def batches_of_def)
  then show ?thesis unfolding stage_complete_def Let_def F[symmetric] W[symmetric] by auto
qed

text \<open>C1: Soundness of \<open>_validate_schedule\<close>. In an accepted schedule no computation occurs twice, every backward
  follows the forward of its stage and microbatch and every weight backward its input backward;
  every stage runs on exactly one rank, the one the result names, and has a forward
  for each microbatch, as many weight backwards as input backwards, of the same microbatches, and as many
  backwards as there are microbatches.\<close>

theorem validate_schedule_sound:
  assumes "validate_schedule order g S n = Inr placement"
  shows "let events = schedule_events order; ws = work_of (map snd events) in
    distinct ws \<and> preceded ws \<and>
    (\<forall>s \<in> {0..<S}. \<exists>r \<in> {0..<g}. placement s = Some r \<and> (\<forall>(r', a) \<in> set events. stage_index a = s \<longrightarrow> r' = r) \<and>
      batches_of ws s FORWARD = {0..<n} \<and> batches_of ws s BACKWARD_WEIGHT = batches_of ws s BACKWARD_INPUT \<and>
      int (card (batches_of ws s FULL_BACKWARD)) + int (card (batches_of ws s BACKWARD_INPUT)) = n)"
proof -
  let ?evs = "schedule_events order"
  have v: "0 < n" "fst ` set order = {0..<g}" "valid_events S n ?evs"
    "\<And>s. s \<in> {0..<S} \<Longrightarrow> stage_complete n (vstate_of ?evs) s"
    "\<And>s. s \<in> {0..<S} \<Longrightarrow> placement s \<noteq> None" "placement = v_rank (vstate_of ?evs)"
    using assms unfolding validate_schedule_spec by (auto simp: list_all_iff list_ex_iff split: if_splits)
  have one: "placement s = Some r \<longleftrightarrow> (\<exists>a. (r, a) \<in> set ?evs \<and> stage_index a = s)" for s r
    using v(3,6) stage_rank_one[of ?evs] unfolding valid_events_def by blast
  have rng: "r \<in> {0..<g}" if "(r, a) \<in> set ?evs" for r a
    using that v(2) unfolding schedule_events_def by force
  have "\<exists>r \<in> {0..<g}. placement s = Some r \<and> (\<forall>(r', a) \<in> set ?evs. stage_index a = s \<longrightarrow> r' = r)"
    if s: "s \<in> {0..<S}" for s
  proof -
    obtain r where r: "placement s = Some r" using v(5)[OF s] by auto
    then have "r \<in> {0..<g}" using one rng by blast
    moreover have "r' = r" if "(r', a) \<in> set ?evs" "stage_index a = s" for r' a
      using one[of s r'] that r by auto
    ultimately show ?thesis using r by blast
  qed
  moreover have "batches_of (work_of (map snd ?evs)) s FORWARD = {0..<n} \<and>
      batches_of (work_of (map snd ?evs)) s BACKWARD_WEIGHT = batches_of (work_of (map snd ?evs)) s BACKWARD_INPUT \<and>
      int (card (batches_of (work_of (map snd ?evs)) s FULL_BACKWARD)) +
      int (card (batches_of (work_of (map snd ?evs)) s BACKWARD_INPUT)) = n" if "s \<in> {0..<S}" for s
    using v(4)[OF that] stage_complete_spec[OF v(3,1)] unfolding Let_def by blast
  ultimately show ?thesis using v(3) unfolding Let_def valid_events_def by blast
qed

text \<open>The checks of \<open>_validate_schedule\<close> count the backwards of a stage but do not compare their
  microbatches: a schedule in which microbatch 0 has a full backward and an input and weight
  backward, and microbatch 1 no backward at all, is accepted.\<close>

lemma validate_schedule_accepts_missing_backward:
  "is_ok (validate_schedule [(0, [act 0 FORWARD 0, act 0 FORWARD 1, act 0 FULL_BACKWARD 0,
     act 0 BACKWARD_INPUT 0, act 0 BACKWARD_WEIGHT 0])] 1 1 2)"
  by (simp add: validate_schedule_def process_rank_def validate_leaf_def validate_compute_def compute_types_def
      communication_types_def stage_complete_def py_range_def)

theorem validate_schedule_sound_witness:
  "let events = schedule_events [(0, [act 0 FORWARD 0, act 0 FULL_BACKWARD 0])]; ws = work_of (map snd events) in
    distinct ws \<and> preceded ws \<and>
    (\<forall>s \<in> {0..<1}. \<exists>r \<in> {0..<1}. [0 \<mapsto> 0] s = Some r \<and> (\<forall>(r', a) \<in> set events. stage_index a = s \<longrightarrow> r' = r) \<and>
      batches_of ws s FORWARD = {0..<1} \<and> batches_of ws s BACKWARD_WEIGHT = batches_of ws s BACKWARD_INPUT \<and>
      int (card (batches_of ws s FULL_BACKWARD)) + int (card (batches_of ws s BACKWARD_INPUT)) = 1)"
  by (rule validate_schedule_sound)
     (simp add: validate_schedule_def process_rank_def validate_leaf_def validate_compute_def compute_types_def
      communication_types_def stage_complete_def py_range_def fun_eq_iff)

end
