(* ===== verification/ScheduleGenerators.thy ===== *)
theory ScheduleGenerators
  imports ScheduleValidation
begin

text \<open>
  The generators with one stage per rank, 1F1B and GPipe: every microbatch once and in order, the bound on the
  microbatches in flight, and that the validator accepts what they generate.
\<close>

subsection \<open>The 1F1B schedule\<close>

definition microbatches :: "comp_type \<Rightarrow> slot list \<Rightarrow> int list" where
  "microbatches k as = map (the \<circ> microbatch_index) (filter (\<lambda>a. computation_type a = k) (somes as))"

lemma microbatches_simps [simp]:
  "microbatches k [] = []" "microbatches k (None # as) = microbatches k as"
  "microbatches k (Some a # as) = (if computation_type a = k then [the (microbatch_index a)] else []) @ microbatches k as"
  "microbatches k (as @ bs) = microbatches k as @ microbatches k bs"
  by (simp_all add: microbatches_def)

lemma microbatches_idle [simp]: "microbatches k (replicate n None) = []"
  by (induction n) auto

lemma microbatches_map [simp]:
  "microbatches k (map (\<lambda>m. act s k' m) ms) = (if k = k' then ms else [])"
  by (induction ms) auto

text \<open>The microbatches in flight: forwards done minus backwards done. The predicate says that the number,
  \<open>b\<close> before the list, never leaves \<open>0, ..., hi\<close>.\<close>

fun delta :: "slot \<Rightarrow> int" where
  "delta None = 0"
| "delta (Some a) = (if computation_type a = FORWARD then 1 else if computation_type a = FULL_BACKWARD then -1 else 0)"

definition balance :: "slot list \<Rightarrow> int" where
  "balance as = sum_list (map delta as)"

fun in_flight :: "int \<Rightarrow> int \<Rightarrow> slot list \<Rightarrow> bool" where
  "in_flight hi b [] \<longleftrightarrow> 0 \<le> b \<and> b \<le> hi"
| "in_flight hi b (x # xs) \<longleftrightarrow> 0 \<le> b \<and> b \<le> hi \<and> in_flight hi (b + delta x) xs"

lemma balance_simps [simp]: "balance [] = 0" "balance (x # xs) = delta x + balance xs" "balance (xs @ ys) = balance xs + balance ys"
  by (simp_all add: balance_def)

lemma in_flight_start: "in_flight hi b as \<Longrightarrow> 0 \<le> b \<and> b \<le> hi"
  by (cases as) auto

lemma in_flight_append: "in_flight hi b (xs @ ys) \<longleftrightarrow> in_flight hi b xs \<and> in_flight hi (b + balance xs) ys"
  by (induction xs arbitrary: b) (auto simp: add.assoc dest: in_flight_start)

lemma in_flight_take: "in_flight hi b as \<Longrightarrow> 0 \<le> b + balance (take i as) \<and> b + balance (take i as) \<le> hi"
  using in_flight_append[of hi b "take i as" "drop i as"] in_flight_start by auto

lemma in_flight_idle [simp]: "in_flight hi b (replicate n None) \<longleftrightarrow> 0 \<le> b \<and> b \<le> hi"
  by (induction n) auto

lemma balance_idle [simp]: "balance (replicate n None) = 0"
  by (induction n) auto

lemma in_flight_forwards:
  "0 \<le> b \<Longrightarrow> b + int (length ms) \<le> hi \<Longrightarrow>
   in_flight hi b (map (\<lambda>m. act s FORWARD m) ms) \<and> balance (map (\<lambda>m. act s FORWARD m) ms) = int (length ms)"
  by (induction ms arbitrary: b) auto

lemma f1b_steady_spec:
  assumes "nf \<le> n" and "0 \<le> b" and "b < hi \<or> nf = n" and "b \<le> hi"
  shows "let (as, nb') = f1b_steady rank n nf nb in
    nb' = nb + (n - nf) \<and> microbatches FORWARD as = [nf..n - 1] \<and> microbatches FULL_BACKWARD as = [nb..nb' - 1] \<and>
    in_flight hi b as \<and> balance as = 0"
  using assms
proof (induction rank n nf nb rule: f1b_steady.induct)
  case (1 rank n nf nb)
  show ?case
  proof (cases "nf < n")
    case True
    obtain as nb' where rec: "f1b_steady rank n (nf + 1) (nb + 1) = (as, nb')" by (cases "f1b_steady rank n (nf + 1) (nb + 1)")
    have ih: "nb' = nb + 1 + (n - (nf + 1))" "microbatches FORWARD as = [nf + 1..n - 1]"
      "microbatches FULL_BACKWARD as = [nb + 1..nb' - 1]" "in_flight hi b as" "balance as = 0"
      using "1.IH"[OF True] "1.prems" True rec by auto
    show ?thesis using ih "1.prems" True rec
      by (subst f1b_steady.simps) (simp add: upto_rec1[of nf] upto_rec1[of nb])
  next
    case False
    then show ?thesis using "1.prems" by (subst f1b_steady.simps) auto
  qed
qed

lemma f1b_cooldown_spec:
  assumes "nb \<le> n" and "b = n - nb" and "b \<le> hi"
  shows "microbatches FORWARD (f1b_cooldown rank g n nb) = [] \<and>
    microbatches FULL_BACKWARD (f1b_cooldown rank g n nb) = [nb..n - 1] \<and> in_flight hi b (f1b_cooldown rank g n nb)"
  using assms
proof (induction rank g n nb arbitrary: b rule: f1b_cooldown.induct)
  case (1 rank g n nb)
  show ?case
  proof (cases "nb < n")
    case True
    then show ?thesis using "1.IH"[OF True, of "b - 1"] "1.prems"
      by (subst (1 2 3) f1b_cooldown.simps) (auto simp: upto_rec1[of nb])
  next
    case False
    then show ?thesis using "1.prems" by (subst (1 2 3) f1b_cooldown.simps) auto
  qed
qed

lemma upto_join: "0 \<le> k \<Longrightarrow> k \<le> n \<Longrightarrow> [0..k - 1] @ [k..n - 1] = [0..n - 1::int]"
  using upto_split1[of 0 "k" "n - 1"] by (cases "k = n") auto

lemma f1b_actions_spec:
  assumes "0 < n" and "0 \<le> rank" and "rank < g"
  shows "microbatches FORWARD (f1b_actions g n rank) = py_range n \<and>
    microbatches FULL_BACKWARD (f1b_actions g n rank) = py_range n \<and>
    in_flight (min n (g - rank)) 0 (f1b_actions g n rank)"
proof -
  let ?w = "min n (g - 1 - rank)" and ?hi = "min n (g - rank)"
  have w: "0 \<le> ?w" "?w \<le> n" "?w \<le> ?hi" "?w < ?hi \<or> ?w = n" using assms by auto
  have hi: "0 \<le> ?hi" using assms by auto
  obtain as nb where steady: "f1b_steady rank n ?w 0 = (as, nb)" by (cases "f1b_steady rank n ?w 0")
  have s: "nb = n - ?w" "microbatches FORWARD as = [?w..n - 1]" "microbatches FULL_BACKWARD as = [0..nb - 1]"
    "in_flight ?hi ?w as" "balance as = 0"
    using f1b_steady_spec[OF w(2,1,4,3), of rank 0] steady by auto
  have nb: "0 \<le> nb" "nb \<le> n" "?w = n - nb" using s(1) w(1,2) by linarith+
  have cool: "microbatches FORWARD (f1b_cooldown rank g n nb) = []"
    "microbatches FULL_BACKWARD (f1b_cooldown rank g n nb) = [nb..n - 1]" "in_flight ?hi ?w (f1b_cooldown rank g n nb)"
    using f1b_cooldown_spec[OF nb(2,3) w(3), of rank g] by blast+
  have warm: "in_flight ?hi 0 (map (\<lambda>m. act rank FORWARD m) (py_range ?w))"
    "balance (map (\<lambda>m. act rank FORWARD m) (py_range ?w)) = ?w"
    using in_flight_forwards[of 0 "py_range ?w" ?hi rank] w(1,3) unfolding length_py_range by simp_all
  have fs: "py_range ?w @ [?w..n - 1] = py_range n" unfolding py_range_def by (rule upto_join[OF w(1,2)])
  have bs: "[0..nb - 1] @ [nb..n - 1] = py_range n" unfolding py_range_def by (rule upto_join[OF nb(1,2)])
  have shape: "f1b_actions g n rank = replicate (nat rank) None @ map (\<lambda>m. act rank FORWARD m) (py_range ?w) @
      replicate (nat (2 * (g - 1 - rank))) None @ as @ f1b_cooldown rank g n nb"
    unfolding f1b_actions_def Let_def steady by simp
  show ?thesis unfolding shape
    by (simp only: microbatches_simps microbatches_map microbatches_idle s(2-5) cool fs bs warm in_flight_append
        balance_idle comp_type.simps if_True if_False append_Nil append_Nil2 in_flight_idle add_0_left add_0_right
        w hi simp_thms)
qed

subsection \<open>The generated schedules pass the validator\<close>

text \<open>What the generators with one stage per rank promise: only forwards and full backwards of the
  rank's stage, every microbatch in ascending order, never more backwards than forwards.\<close>

definition plain :: "int \<Rightarrow> slot list \<Rightarrow> bool" where
  "plain r as \<longleftrightarrow> (\<forall>a. Some a \<in> set as \<longrightarrow> (\<exists>k m. a = Action r k (Some m) None \<and> k \<in> {FORWARD, FULL_BACKWARD}))"

lemma plain_simps [simp]: "plain r []" "plain r (None # as) \<longleftrightarrow> plain r as"
  "plain r (Some a # as) \<longleftrightarrow> (\<exists>k m. a = Action r k (Some m) None \<and> k \<in> {FORWARD, FULL_BACKWARD}) \<and> plain r as"
  "plain r (as @ bs) \<longleftrightarrow> plain r as \<and> plain r bs"
  by (auto simp: plain_def)

lemma plain_idle [simp]: "plain r (replicate k None)"
  by (induction k) auto

lemma plain_map [simp]: "k \<in> {FORWARD, FULL_BACKWARD} \<Longrightarrow> plain r (map (\<lambda>m. act r k m) ms)"
  by (induction ms) auto

definition mbs :: "comp_type \<Rightarrow> work list \<Rightarrow> int list" where
  "mbs k ws = map (\<lambda>(s, k, m). m) (filter (\<lambda>(s, k', m). k' = k) ws)"

lemma mbs_simps [simp]: "mbs k [] = []" "mbs k (xs @ ys) = mbs k xs @ mbs k ys"
  "mbs k ((s, k', m) # ws) = (if k' = k then [m] else []) @ mbs k ws"
  by (simp_all add: mbs_def)

lemma plain_induct [consumes 1, case_names Nil idle op]:
  assumes "plain r as" and "P []" and "\<And>as. plain r as \<Longrightarrow> P as \<Longrightarrow> P (None # as)"
    and "\<And>k m as. k \<in> {FORWARD, FULL_BACKWARD} \<Longrightarrow> plain r as \<Longrightarrow> P as \<Longrightarrow> P (act r k m # as)"
  shows "P as"
  using assms(1)
proof (induction as)
  case (Cons x as)
  then show ?case using assms(3,4) by (cases x) auto
qed (rule assms(2))

abbreviation slot_work :: "slot list \<Rightarrow> work list" where
  "slot_work as \<equiv> work_of (somes as)"

lemma plain_work:
  assumes "plain r as"
  shows "mbs k (slot_work as) = microbatches k as \<and> set (slot_work as) \<subseteq> {r} \<times> {FORWARD, FULL_BACKWARD} \<times> UNIV"
  using assms by (induction rule: plain_induct) (auto simp: compute_types_def)

lemma plain_prefix:
  assumes "plain r as" and "in_flight hi b as" and "slot_work as = xs @ ys"
  shows "0 \<le> b + int (length (mbs FORWARD xs)) - int (length (mbs FULL_BACKWARD xs))"
  using assms
proof (induction arbitrary: b xs rule: plain_induct)
  case (op k m as)
  show ?case
  proof (cases xs)
    case (Cons w xs')
    then have "w = (r, k, m)" "slot_work as = xs' @ ys" using op.prems op.hyps(1) by (auto simp: compute_types_def)
    then show ?thesis using op.IH[of "b + delta (act r k m)" xs'] op.prems(1) op.hyps(1) Cons by auto
  qed (use op.prems in auto)
qed (auto dest: in_flight_start)

lemma distinct_work:
  assumes "set ws \<subseteq> {r} \<times> UNIV" and "\<And>k. distinct (mbs k ws)"
  shows "distinct ws"
  using assms
proof (induction ws)
  case (Cons w ws)
  obtain k m where w: "w = (r, k, m)" using Cons.prems(1) by auto
  have d: "distinct (mbs k' ws)" for k' using Cons.prems(2)[of k'] by (auto simp: w split: if_splits)
  have "m \<notin> set (mbs k ws)" using Cons.prems(2)[of k] by (simp add: w)
  then have "w \<notin> set ws" by (force simp: w mbs_def)
  then show ?case using Cons.IH Cons.prems(1) d by auto
qed simp

definition regular :: "int \<Rightarrow> int \<Rightarrow> slot list \<Rightarrow> bool" where
  "regular n r as \<longleftrightarrow> plain r as \<and> microbatches FORWARD as = py_range n \<and> microbatches FULL_BACKWARD as = py_range n \<and>
     (\<exists>hi. in_flight hi 0 as)"

lemma regular_preceded:
  assumes "regular n r as"
  shows "preceded (slot_work as)"
  unfolding preceded_def
proof clarify
  fix xs ys s k m p
  assume e: "slot_work as = xs @ (s, k, m) # ys" and p: "prerequisite k = Some p"
  have pl: "plain r as" and F: "mbs FORWARD (slot_work as) = py_range n" and B: "mbs FULL_BACKWARD (slot_work as) = py_range n"
    and "\<exists>hi. in_flight hi 0 as"
    using assms plain_work[of r as] unfolding regular_def by auto
  then obtain hi where fl: "in_flight hi 0 as" by blast
  have "(s, k, m) \<in> {r} \<times> {FORWARD, FULL_BACKWARD} \<times> UNIV" using plain_work[OF pl] e by auto
  then have k: "s = r" "k = FULL_BACKWARD" "p = FORWARD" using p by auto
  let ?i = "length (mbs FULL_BACKWARD xs)"
  have b: "mbs FULL_BACKWARD xs @ m # mbs FULL_BACKWARD ys = py_range n" using B e k by simp
  have i: "?i < nat n" using arg_cong[OF b, of length] by simp
  have m: "m = int ?i" using arg_cong[OF b, of "\<lambda>l. l ! ?i"] i by simp
  have "?i < length (mbs FORWARD xs)"
    using plain_prefix[OF pl fl, of "xs @ [(s, k, m)]" ys] e k by simp
  moreover have f: "mbs FORWARD xs @ mbs FORWARD ys = py_range n" using F e k by simp
  ultimately have "mbs FORWARD xs ! ?i = m" using i m py_range_nth[OF i] by (metis nth_append)
  then have "m \<in> set (mbs FORWARD xs)" using \<open>?i < length (mbs FORWARD xs)\<close> nth_mem by metis
  then obtain s' where s': "(s', FORWARD, m) \<in> set xs" by (auto simp: mbs_def)
  then have "s' = r" using plain_work[OF pl] e by auto
  then show "(s, p, m) \<in> set xs" using s' k by simp
qed

lemma regular_work:
  assumes "regular n r as"
  shows "distinct (slot_work as) \<and> set (slot_work as) = {r} \<times> {FORWARD, FULL_BACKWARD} \<times> {0..<n}"
proof -
  have pl: "plain r as" using assms by (simp add: regular_def)
  note w = plain_work[OF pl]
  have m: "mbs k (slot_work as) = (if k \<in> {FORWARD, FULL_BACKWARD} then py_range n else [])" for k
  proof (cases "k \<in> {FORWARD, FULL_BACKWARD}")
    case False
    have "filter (\<lambda>(s, k', m). k' = k) (slot_work as) = []" using False w[of k] unfolding filter_empty_conv by fastforce
    then show ?thesis using False by (simp add: mbs_def)
  qed (use assms w in \<open>auto simp: regular_def\<close>)
  have sub: "set (slot_work as) \<subseteq> {r} \<times> {FORWARD, FULL_BACKWARD} \<times> UNIV" using w by blast
  then have "(r, k, x) \<in> set (slot_work as) \<longleftrightarrow> x \<in> set (mbs k (slot_work as))" for k x
    unfolding mbs_def by force
  then have "(r, k, x) \<in> set (slot_work as) \<longleftrightarrow> k \<in> {FORWARD, FULL_BACKWARD} \<and> x \<in> {0..<n}" for k x
    by (auto simp: m)
  then have "set (slot_work as) = {r} \<times> {FORWARD, FULL_BACKWARD} \<times> {0..<n}" using sub by fast
  moreover have "distinct (slot_work as)" by (rule distinct_work[of _ r]) (use sub m in auto)
  ultimately show ?thesis by blast
qed

subsubsection \<open>Adding the reductions keeps a schedule valid\<close>

lemma reduce_leaves_set: "set (fst (reduce_leaves n c ls)) \<subseteq> (\<lambda>l. Action (stage_index l) REDUCE_GRAD None None) ` set ls"
proof (induction ls arbitrary: c)
  case (Cons l ls)
  let ?c = "c(stage_index l := c (stage_index l) + 1)"
  show ?case using Cons.IH[of c] Cons.IH[of ?c]
    by (cases "reduce_leaves n ?c ls") (auto simp: Let_def simp del: fun_upd_apply)
qed simp

lemma add_reduce_loop_set:
  assumes "plain r as"
  shows "set (add_reduce_loop n c as) \<subseteq> set as \<union> {reduce_of r}"
  using assms
proof (induction arbitrary: c rule: plain_induct)
  case (op k m as)
  obtain out c' where out: "reduce_leaves n c [Action r k (Some m) None] = (out, c')"
    by (cases "reduce_leaves n c [Action r k (Some m) None]")
  then have "set out \<subseteq> {Action r REDUCE_GRAD None None}" using reduce_leaves_set[of n c "[Action r k (Some m) None]"] by auto
  moreover have "add_reduce_loop n c (act r k m # as) = act r k m # map Some out @ add_reduce_loop n c' as"
    using out by (simp del: reduce_leaves.simps)
  ultimately show ?case using op.IH[of c'] by (auto simp: reduce_of_def simp del: add_reduce_loop.simps)
qed auto

lemma work_drop_reductions: "slot_work (drop_reductions as) = slot_work as"
proof (induction as)
  case (Cons x as)
  then show ?case by (cases x) (auto simp: drop_reductions_def compute_types_def)
qed (simp add: drop_reductions_def)

lemma plain_no_reduction: "plain r as \<Longrightarrow> no_reduction as"
  by (fastforce simp: plain_def no_reduction_def)

definition reduced :: "int \<Rightarrow> slot list \<Rightarrow> slot list" where
  "reduced n as = add_reduce_loop n (\<lambda>_. 0) as"

lemma reduced_rank:
  assumes "regular n r as"
  shows "slot_work (reduced n as) = slot_work as \<and> rank_actions (reduced n as) = somes (reduced n as) \<and>
    list_all nested_ok (somes (reduced n as)) \<and>
    (\<forall>a \<in> set (somes (reduced n as)). stage_index a = r \<and> (0 \<le> r \<longrightarrow> r < S \<longrightarrow> leaf_ok S n a))"
proof -
  have pl: "plain r as" using assms by (simp add: regular_def)
  have "drop_reductions (reduced n as) = as" using add_reduce_loop_spec[OF plain_no_reduction[OF pl]] by (simp add: reduced_def)
  then have w: "slot_work (reduced n as) = slot_work as" by (metis work_drop_reductions)
  have kinds: "a = Action r REDUCE_GRAD None None \<or> (\<exists>k m. a = Action r k (Some m) None \<and> k \<in> {FORWARD, FULL_BACKWARD})"
    if "a \<in> set (somes (reduced n as))" for a
    using that add_reduce_loop_set[OF pl] pl by (fastforce simp: set_somes reduced_def reduce_of_def plain_def)
  have flat: "flat_actions a = [a] \<and> nested_ok a" if "a \<in> set (somes (reduced n as))" for a
    using kinds[OF that] by auto
  have "concat (map flat_actions bs) = bs" if "\<forall>b \<in> set bs. flat_actions b = [b]" for bs using that by (induction bs) auto
  then have ra: "rank_actions (reduced n as) = somes (reduced n as)" using flat by (simp add: rank_actions_def)
  have "leaf_ok S n a" if a: "a \<in> set (somes (reduced n as))" and r: "0 \<le> r" "r < S" for a
    using kinds[OF a]
  proof
    assume "\<exists>k m. a = Action r k (Some m) None \<and> k \<in> {FORWARD, FULL_BACKWARD}"
    then obtain k m where k: "a = Action r k (Some m) None" "k \<in> {FORWARD, FULL_BACKWARD}" by blast
    then have "(r, k, m) \<in> set (slot_work (reduced n as))" using a by (force simp: work_of_def compute_types_def)
    then show ?thesis using regular_work[OF assms] k r by (auto simp: w leaf_ok_def)
  qed (use r in \<open>simp add: leaf_ok_def\<close>)
  moreover have "stage_index a = r" if "a \<in> set (somes (reduced n as))" for a using kinds[OF that] by auto
  ultimately show ?thesis using w ra flat by (simp add: list_all_iff)
qed

definition one_stage_order :: "(int \<Rightarrow> int \<Rightarrow> int \<Rightarrow> slot list) \<Rightarrow> int \<Rightarrow> int \<Rightarrow> pipeline_order" where
  "one_stage_order gen g n = map (\<lambda>r. (r, reduced n (gen g n r))) (py_range g)"

definition own_rank :: "int \<Rightarrow> int \<Rightarrow> int option" where
  "own_rank g s = (if 0 \<le> s \<and> s < g then Some s else None)"

lemma preceded_concat: "(\<And>ws. ws \<in> set wss \<Longrightarrow> preceded ws) \<Longrightarrow> preceded (concat wss)"
  by (induction wss) (auto intro: preceded_append)

lemma traverse_reduced:
  "0 < n \<Longrightarrow> traverse (\<lambda>r. rbind (add_reduce_grad (gen g n r) n) (\<lambda>as. Inr (r, as))) (py_range g) =
     Inr (one_stage_order gen g n)"
  unfolding one_stage_order_def reduced_def by (rule traverse_total) (simp add: add_reduce_grad_def)

locale stage_per_rank =
  fixes gen :: "int \<Rightarrow> int \<Rightarrow> int \<Rightarrow> slot list"
  assumes gen_regular: "0 < n \<Longrightarrow> 0 \<le> r \<Longrightarrow> r < g \<Longrightarrow> regular n r (gen g n r)"
begin

lemma gen_work:
  assumes "0 < n"
  shows "work_of (map snd (schedule_events (one_stage_order gen g n))) = concat (map (\<lambda>r. slot_work (gen g n r)) (py_range g))"
proof -
  have "work_of (map snd (schedule_events (map (\<lambda>r. (r, reduced n (gen g n r))) rs))) = concat (map (\<lambda>r. slot_work (gen g n r)) rs)"
    if "set rs \<subseteq> {0..<g}" for rs
    using that
  proof (induction rs)
    case (Cons r rs)
    then show ?case using reduced_rank[OF gen_regular[OF assms, of r g]]
      by (simp add: schedule_events_def comp_def)
  qed (simp add: schedule_events_def)
  then show ?thesis by (simp add: one_stage_order_def)
qed

lemma gen_events:
  assumes "0 < n" and "(r, a) \<in> set (schedule_events (one_stage_order gen g n))"
  shows "stage_index a = r \<and> 0 \<le> r \<and> r < g \<and> leaf_ok g n a"
proof -
  have r: "0 \<le> r" "r < g" "a \<in> set (rank_actions (reduced n (gen g n r)))"
    using assms(2) by (auto simp: schedule_events_def one_stage_order_def)
  then show ?thesis using reduced_rank[OF gen_regular[OF assms(1) r(1,2)], of g] by auto
qed

lemma gen_batches:
  assumes "0 < n" and "0 \<le> s" and "s < g"
  shows "batches_of (work_of (map snd (schedule_events (one_stage_order gen g n)))) s k =
    (if k \<in> {FORWARD, FULL_BACKWARD} then {0..<n} else {})"
proof -
  have "set (slot_work (gen g n r)) = {r} \<times> {FORWARD, FULL_BACKWARD} \<times> {0..<n}" if "0 \<le> r" "r < g" for r
    using regular_work[OF gen_regular[OF assms(1) that]] by blast
  then have "set (concat (map (\<lambda>r. slot_work (gen g n r)) (py_range g))) = {0..<g} \<times> {FORWARD, FULL_BACKWARD} \<times> {0..<n}"
    by auto
  then show ?thesis using assms(2,3) unfolding batches_of_def gen_work[OF assms(1)] by auto
qed

lemma gen_valid:
  assumes "0 < n"
  shows "valid_events g n (schedule_events (one_stage_order gen g n))"
proof -
  have reg: "regular n r (gen g n r)" if "r \<in> set (py_range g)" for r using that gen_regular[OF assms] by simp
  have "distinct (concat (map (\<lambda>r. slot_work (gen g n r)) rs))" if "distinct rs" "set rs \<subseteq> set (py_range g)" for rs
    using that
  proof (induction rs)
    case (Cons r rs)
    have stage: "fst w = r'" if "r' \<in> set (py_range g)" "w \<in> set (slot_work (gen g n r'))" for r' w
      using conjunct2[OF regular_work[OF reg[OF that(1)]]] that(2) by (metis mem_Times_iff singletonD)
    have "w \<notin> set (slot_work (gen g n r'))" if "w \<in> set (slot_work (gen g n r))" "r' \<in> set rs" for w r'
      using stage[of r w] stage[of r' w] Cons.prems that by auto
    then have "set (slot_work (gen g n r)) \<inter> set (concat (map (\<lambda>r. slot_work (gen g n r)) rs)) = {}"
      unfolding set_concat set_map by blast
    moreover have "distinct (slot_work (gen g n r))" using regular_work[OF reg, of r] Cons.prems(2) by simp
    ultimately show ?case using Cons.IH Cons.prems unfolding list.map concat.simps distinct_append by simp
  qed simp
  moreover have "preceded (concat (map (\<lambda>r. slot_work (gen g n r)) (py_range g)))"
    using regular_preceded[OF reg] by (intro preceded_concat) auto
  ultimately show ?thesis unfolding valid_events_def gen_work[OF assms]
    using gen_events[OF assms] by fastforce
qed

lemma gen_placement:
  assumes "0 < n" and "0 < g"
  shows "v_rank (vstate_of (schedule_events (one_stage_order gen g n))) = own_rank g"
proof
  fix s
  let ?evs = "schedule_events (one_stage_order gen g n)"
  have one: "v_rank (vstate_of ?evs) s = Some r \<longleftrightarrow> (\<exists>a. (r, a) \<in> set ?evs \<and> stage_index a = s)" for r
    using gen_valid[OF assms(1)] stage_rank_one[of ?evs] unfolding valid_events_def by blast
  have "\<exists>a. (s, a) \<in> set ?evs \<and> stage_index a = s" if "0 \<le> s" "s < g"
  proof -
    have "0 \<in> batches_of (work_of (map snd ?evs)) s FORWARD" using gen_batches[OF assms(1) that] assms(1) by simp
    then obtain r a where "(r, a) \<in> set ?evs" "stage_index a = s" unfolding batches_of_def work_of_def by auto
    then show ?thesis using gen_events[OF assms(1)] by blast
  qed
  then show "v_rank (vstate_of ?evs) s = own_rank g s"
    using one gen_events[OF assms(1)] unfolding own_rank_def by (metis not_None_eq)
qed

lemma gen_accepted:
  assumes "0 < n" and "0 < g"
  shows "validate_schedule (one_stage_order gen g n) g g n = Inr (own_rank g)"
proof -
  let ?o = "one_stage_order gen g n"
  have "stage_complete n (vstate_of (schedule_events ?o)) s" if "0 \<le> s" "s < g" for s
    using stage_complete_spec[OF gen_valid[OF assms(1)] assms(1)] gen_batches[OF assms(1) that] assms(1)
    by (simp add: Let_def)
  moreover have "nesting_ok ?o"
    using reduced_rank[OF gen_regular[OF assms(1)]] by (auto simp: nesting_ok_def one_stage_order_def list_all_iff)
  moreover have "int (length ?o) = g" "fst ` set ?o = {0..<g}"
    using assms by (simp_all add: one_stage_order_def image_image)
  ultimately show ?thesis unfolding validate_schedule_spec gen_placement[OF assms]
    using assms gen_valid[OF assms(1)] by (auto simp: list_all_iff list_ex_iff own_rank_def)
qed

end

text \<open>The list of a GPipe rank before the reductions are added.\<close>

definition gpipe_actions :: "int \<Rightarrow> int \<Rightarrow> int \<Rightarrow> slot list" where
  "gpipe_actions g n r = replicate (nat r) None @ map (\<lambda>m. act r FORWARD m) (py_range n) @
     replicate (nat (3 * (g - 1 - r))) None @ map (\<lambda>m. act r FULL_BACKWARD m) (py_range n)"

lemma in_flight_backwards:
  "int (length ms) \<le> b \<Longrightarrow> b \<le> hi \<Longrightarrow> in_flight hi b (map (\<lambda>m. act s FULL_BACKWARD m) ms)"
  by (induction ms arbitrary: b) auto

lemma gpipe_regular:
  assumes "0 < n"
  shows "regular n r (gpipe_actions g n r)"
proof -
  have "in_flight n 0 (gpipe_actions g n r)"
    using in_flight_forwards[of 0 "py_range n" n r] in_flight_backwards[of "py_range n" n n r] assms
    by (simp add: gpipe_actions_def in_flight_append)
  then show ?thesis by (auto simp: regular_def gpipe_actions_def)
qed

lemma f1b_steady_plain: "plain r (fst (f1b_steady r n nf nb))"
proof (induction r n nf nb rule: f1b_steady.induct)
  case (1 r n nf nb)
  then show ?case by (subst f1b_steady.simps) (auto split: prod.splits)
qed

lemma f1b_cooldown_plain: "plain r (f1b_cooldown r g n nb)"
proof (induction r g n nb rule: f1b_cooldown.induct)
  case (1 r g n nb)
  then show ?case by (subst f1b_cooldown.simps) auto
qed

lemma f1b_plain: "plain r (f1b_actions g n r)"
  using f1b_steady_plain[of r n "min n (g - 1 - r)" 0] f1b_cooldown_plain
  by (auto simp: f1b_actions_def Let_def split: prod.splits)

interpretation f1b: stage_per_rank f1b_actions
  by unfold_locales (use f1b_actions_spec f1b_plain in \<open>auto simp: regular_def\<close>)

interpretation gpipe: stage_per_rank gpipe_actions
  by unfold_locales (rule gpipe_regular)

lemma f1b_order_spec: "0 < n \<Longrightarrow> f1b_order g g n = Inr (one_stage_order f1b_actions g n)"
  unfolding f1b_order_def by (simp add: traverse_reduced)

lemma gpipe_order_spec: "0 < n \<Longrightarrow> gpipe_order g g n True = Inr (one_stage_order gpipe_actions g n)"
  unfolding gpipe_order_def gpipe_rank_def using traverse_reduced[of n gpipe_actions g] by (simp add: gpipe_actions_def)

text \<open>C6: The 1F1B generator, for a positive number of ranks and microbatches and as many stages as
  ranks, returns a schedule that the validator accepts with every stage on the rank of the same number. On rank
  \<open>r\<close> of \<open>g\<close> the number of forwards without their backward is at every point
  at most \<open>min n (g - r)\<close>.\<close>

theorem f1b_schedule_correct:
  assumes "0 < g" and "0 < n"
  shows "\<exists>order. f1b_order g g n = Inr order \<and> validate_schedule order g g n = Inr (own_rank g) \<and>
    (\<forall>r \<in> {0..<g}. \<exists>as. (r, as) \<in> set order \<and>
      (\<forall>i. 0 \<le> balance (take i (drop_reductions as)) \<and> balance (take i (drop_reductions as)) \<le> min n (g - r)))"
proof -
  have "(r, reduced n (f1b_actions g n r)) \<in> set (one_stage_order f1b_actions g n) \<and>
      drop_reductions (reduced n (f1b_actions g n r)) = f1b_actions g n r" if "r \<in> {0..<g}" for r
    using that add_reduce_loop_spec[OF plain_no_reduction[OF f1b_plain]] by (auto simp: one_stage_order_def reduced_def)
  moreover have "0 \<le> balance (take i (f1b_actions g n r)) \<and> balance (take i (f1b_actions g n r)) \<le> min n (g - r)"
    if "r \<in> {0..<g}" for r i
    using f1b_actions_spec[OF assms(2), of r g] that in_flight_take[of "min n (g - r)" 0 "f1b_actions g n r" i] by auto
  ultimately show ?thesis unfolding f1b_order_spec[OF assms(2)] using f1b.gen_accepted[OF assms(2,1)] by (metis (no_types, lifting))
qed

theorem f1b_schedule_correct_witness:
  "\<exists>order. f1b_order 4 4 6 = Inr order \<and> validate_schedule order 4 4 6 = Inr (own_rank 4) \<and>
    (\<forall>r \<in> {0..<4}. \<exists>as. (r, as) \<in> set order \<and>
      (\<forall>i. 0 \<le> balance (take i (drop_reductions as)) \<and> balance (take i (drop_reductions as)) \<le> min 6 (4 - r)))"
  by (rule f1b_schedule_correct) simp_all

text \<open>The GPipe generator with backward passes returns a schedule that the validator accepts, with every
  stage on the rank of the same number.\<close>

theorem gpipe_schedule_valid:
  assumes "0 < g" and "0 < n"
  shows "rbind (gpipe_order g g n True) (\<lambda>order. validate_schedule order g g n) = Inr (own_rank g)"
  by (simp add: gpipe_order_spec[OF assms(2)] gpipe.gen_accepted[OF assms(2,1)])

theorem gpipe_schedule_valid_witness:
  "rbind (gpipe_order 3 3 5 True) (\<lambda>order. validate_schedule order 3 3 5) = Inr (own_rank 3)"
  by (rule gpipe_schedule_valid) simp_all

end
