(* ===== verification/Boxes.thy ===== *)
theory Boxes
  imports Prelude
begin

text \<open>
  Axis-aligned boxes of integer coordinates, given by an offset and a size per dimension: the shards of a
  tensor and the chunks of a checkpoint. The pairwise overlap test of the code is disjointness of the
  cell sets, and boxes inside a shape that do not overlap and have its volume together tile it.
\<close>

type_synonym box = "(int \<times> int) list"

definition cells :: "box \<Rightarrow> int list set" where
  "cells b = {xs. list_all2 (\<lambda>x (start, n). start \<le> x \<and> x < start + n) xs b}"

definition volume :: "box \<Rightarrow> int" where
  "volume b = prod_list (map snd b)"

definition whole :: "int list \<Rightarrow> box" where
  "whole shape = map (\<lambda>n. (0, n)) shape"

definition overlaps :: "box \<Rightarrow> box \<Rightarrow> bool" where
  "overlaps b b' \<longleftrightarrow> list_all (\<lambda>((o1, n1), (o2, n2)). o1 < o2 + n2 \<and> o2 < o1 + n1) (zip b b')"

definition within :: "int list \<Rightarrow> box \<Rightarrow> bool" where
  "within shape b \<longleftrightarrow> list_all2 (\<lambda>n (start, s). 0 \<le> start \<and> 0 \<le> s \<and> start + s \<le> n) shape b"

text \<open>Every cell of the shape is in exactly one box, and the boxes have no other cells.\<close>

definition tiles :: "int list \<Rightarrow> box list \<Rightarrow> bool" where
  "tiles shape bs \<longleftrightarrow> (\<forall>b \<in> set bs. cells b \<subseteq> cells (whole shape)) \<and>
     (\<forall>x \<in> cells (whole shape). \<exists>!i. i < length bs \<and> x \<in> cells (bs ! i))"

lemma cells_Nil [simp]: "cells [] = {[]}"
  by (auto simp: cells_def)

lemma cells_Cons: "cells ((start, n) # b) = (\<lambda>(x, xs). x # xs) ` ({start..<start + n} \<times> cells b)"
proof (rule set_eqI)
  fix ys
  show "ys \<in> cells ((start, n) # b) \<longleftrightarrow> ys \<in> (\<lambda>(x, xs). x # xs) ` ({start..<start + n} \<times> cells b)"
    by (cases ys) (auto simp: cells_def)
qed

lemma finite_cells [simp]: "finite (cells b)"
  by (induction b) (auto simp: cells_Cons)

lemma card_cells: "\<forall>(start, n) \<in> set b. 0 \<le> n \<Longrightarrow> int (card (cells b)) = volume b"
proof (induction b)
  case (Cons p b)
  obtain start n where p: "p = (start, n)" by (cases p)
  have "inj_on (\<lambda>(x, xs). x # xs) ({start..<start + n} \<times> cells b)" by (auto simp: inj_on_def)
  then have "card (cells (p # b)) = nat n * card (cells b)"
    by (simp add: p cells_Cons card_image card_cartesian_product)
  then show ?case using Cons by (auto simp: p volume_def)
qed (simp add: volume_def)

lemma volume_simps [simp]: "volume [] = 1" "volume ((start, n) # b) = n * volume b"
  by (simp_all add: volume_def)

lemma volume_whole: "volume (whole shape) = prod_list shape"
  by (simp add: volume_def whole_def comp_def)

lemma cells_length: "xs \<in> cells b \<Longrightarrow> length xs = length b"
  by (auto simp: cells_def dest: list_all2_lengthD)

lemma cells_nth: "xs \<in> cells b \<longleftrightarrow> length xs = length b \<and>
    (\<forall>i < length b. fst (b ! i) \<le> xs ! i \<and> xs ! i < fst (b ! i) + snd (b ! i))"
  unfolding cells_def list_all2_conv_all_nth by (auto simp: split_beta)

lemma overlaps_nth: "length b = length b' \<Longrightarrow> overlaps b b' \<longleftrightarrow>
    (\<forall>i < length b. fst (b ! i) < fst (b' ! i) + snd (b' ! i) \<and> fst (b' ! i) < fst (b ! i) + snd (b ! i))"
  by (auto simp: overlaps_def list_all_length split_beta)

lemma overlaps_sym: "length b = length b' \<Longrightarrow> overlaps b b' = overlaps b' b"
  by (auto simp: overlaps_nth)

lemma cells_meet_overlaps: "x \<in> cells b \<Longrightarrow> x \<in> cells b' \<Longrightarrow> overlaps b b'"
  using overlaps_nth[of b b'] cells_nth[of x b] cells_nth[of x b'] by fastforce

lemma overlaps_cells_meet:
  assumes "length b = length b'" and "overlaps b b'"
    and "\<forall>(start, n) \<in> set b. 0 < n" and "\<forall>(start, n) \<in> set b'. 0 < n"
  shows "cells b \<inter> cells b' \<noteq> {}"
proof -
  let ?x = "map (\<lambda>((o1, n1), (o2, n2)). max o1 o2) (zip b b')"
  have pos: "0 < snd (b ! i)" "0 < snd (b' ! i)" if "i < length b" for i
    using assms(1,3,4) that nth_mem[of i b] nth_mem[of i b'] by (auto simp: split_beta)
  have "?x ! i = max (fst (b ! i)) (fst (b' ! i))" if "i < length b" for i
    using assms(1) that by (auto simp: split_beta)
  then have "?x \<in> cells b" "?x \<in> cells b'"
    using assms(1,2) pos overlaps_nth[OF assms(1)] by (auto simp: cells_nth less_max_iff_disj)
  then show ?thesis by blast
qed

lemma within_nth: "within shape b \<longleftrightarrow> length b = length shape \<and>
    (\<forall>i < length shape. 0 \<le> fst (b ! i) \<and> 0 \<le> snd (b ! i) \<and> fst (b ! i) + snd (b ! i) \<le> shape ! i)"
  unfolding within_def list_all2_conv_all_nth by (auto simp: split_beta)

lemma whole_nth [simp]: "length (whole shape) = length shape" "i < length shape \<Longrightarrow> whole shape ! i = (0, shape ! i)"
  by (simp_all add: whole_def)

lemma within_cells: "within shape b \<Longrightarrow> cells b \<subseteq> cells (whole shape)"
  by (fastforce simp: within_nth cells_nth)

lemma within_sizes: "within shape b \<Longrightarrow> \<forall>(start, n) \<in> set b. 0 \<le> n"
  unfolding within_nth by (fastforce simp: in_set_conv_nth)

text \<open>A box with positive sizes whose cells all lie in the shape lies within it.\<close>

lemma cells_within:
  assumes "\<forall>(start, n) \<in> set b. 0 < n" and "cells b \<subseteq> cells (whole shape)"
  shows "within shape b"
proof -
  let ?lo = "map fst b" and ?hi = "map (\<lambda>(start, n). start + n - 1) b"
  have pos: "0 < snd (b ! i)" if "i < length b" for i
    using assms(1) nth_mem[OF that] by (auto simp: split_beta)
  then have "?lo \<in> cells b" "?hi \<in> cells b" by (auto simp: cells_nth split_beta)
  then have "?lo \<in> cells (whole shape)" "?hi \<in> cells (whole shape)" using assms(2) by auto
  then show ?thesis using pos by (fastforce simp: within_nth cells_nth split_beta)
qed

lemma disjoint_list_volume:
  assumes "\<And>i j. i < j \<Longrightarrow> j < length bs \<Longrightarrow> cells (bs ! i) \<inter> cells (bs ! j) = {}"
    and "\<forall>b \<in> set bs. \<forall>(start, n) \<in> set b. 0 \<le> n"
  shows "int (card (\<Union>b \<in> set bs. cells b)) = sum_list (map volume bs)"
  using assms
proof (induction bs)
  case (Cons b bs)
  have "cells b \<inter> cells b' = {}" if "b' \<in> set bs" for b'
    using that Cons.prems(1)[of 0] by (force simp: in_set_conv_nth)
  moreover have "int (card (\<Union>b \<in> set bs. cells b)) = sum_list (map volume bs)"
    using Cons.prems(1)[of "Suc i" "Suc j" for i j] Cons.prems(2) by (intro Cons.IH) auto
  ultimately show ?case using card_cells[of b] Cons.prems(2)
    by (simp add: card_Un_disjoint disjoint_iff)
qed simp

lemma tiles_volume:
  assumes "\<forall>b \<in> set bs. within shape b" and "\<forall>n \<in> set shape. 0 \<le> n"
    and "\<And>i j. i < j \<Longrightarrow> j < length bs \<Longrightarrow> cells (bs ! i) \<inter> cells (bs ! j) = {}"
  shows "tiles shape bs \<longleftrightarrow> sum_list (map volume bs) = prod_list shape"
proof -
  let ?U = "\<Union>b \<in> set bs. cells b"
  have sub: "?U \<subseteq> cells (whole shape)" using assms(1) within_cells by blast
  have U: "int (card ?U) = sum_list (map volume bs)"
    using assms(1,3) within_sizes by (intro disjoint_list_volume) blast+
  have W: "int (card (cells (whole shape))) = prod_list shape"
    using assms(2) by (subst card_cells) (auto simp: whole_def volume_whole[symmetric])
  have "?U = cells (whole shape) \<longleftrightarrow> card ?U = card (cells (whole shape))"
    using card_subset_eq[OF finite_cells sub] by auto
  then have eq: "?U = cells (whole shape) \<longleftrightarrow> sum_list (map volume bs) = prod_list shape" using U W by linarith
  have one: "i = j" if "i < length bs" "j < length bs" "x \<in> cells (bs ! i)" "x \<in> cells (bs ! j)" for i j x
    using assms(3)[of i j] assms(3)[of j i] that by (cases i j rule: linorder_cases) auto
  have "tiles shape bs \<longleftrightarrow> ?U = cells (whole shape)"
  proof
    assume "tiles shape bs"
    then show "?U = cells (whole shape)" using sub unfolding tiles_def by (fastforce dest: nth_mem)
  next
    assume "?U = cells (whole shape)"
    then have "\<exists>i. i < length bs \<and> x \<in> cells (bs ! i)" if "x \<in> cells (whole shape)" for x
      using that by (force simp: in_set_conv_nth)
    then show "tiles shape bs" using one sub unfolding tiles_def by blast
  qed
  then show ?thesis using eq by simp
qed

lemma tiles_disjoint:
  assumes "tiles shape bs" and "i < j" and "j < length bs"
  shows "cells (bs ! i) \<inter> cells (bs ! j) = {}"
proof -
  have False if x: "x \<in> cells (bs ! i)" "x \<in> cells (bs ! j)" for x
  proof -
    have "x \<in> cells (whole shape)" using x(1) assms nth_mem[of i bs] unfolding tiles_def by auto
    then have "\<exists>!i. i < length bs \<and> x \<in> cells (bs ! i)" using assms(1) unfolding tiles_def by blast
    moreover have "i < length bs \<and> x \<in> cells (bs ! i)" "j < length bs \<and> x \<in> cells (bs ! j)" using x assms(2,3) by auto
    ultimately have "i = j" by blast
    then show False using assms(2) by simp
  qed
  then show ?thesis by blast
qed

text \<open>A check that accepts only families of boxes inside a shape, without overlap, that have its volume.\<close>

locale tiling_check =
  fixes accepts :: "'a \<Rightarrow> bool" and shape_of :: "'a \<Rightarrow> int list" and boxes_of :: "'a \<Rightarrow> box list"
  assumes shape_nonneg: "accepts x \<Longrightarrow> \<forall>n \<in> set (shape_of x). 0 \<le> n"
    and inside: "accepts x \<Longrightarrow> \<forall>b \<in> set (boxes_of x). within (shape_of x) b"
    and apart: "accepts x \<Longrightarrow> i < j \<Longrightarrow> j < length (boxes_of x) \<Longrightarrow> \<not> overlaps (boxes_of x ! i) (boxes_of x ! j)"
    and filled: "accepts x \<Longrightarrow> sum_list (map volume (boxes_of x)) = prod_list (shape_of x)"
begin

lemma accepted_tiles: "accepts x \<Longrightarrow> tiles (shape_of x) (boxes_of x)"
  using tiles_volume[OF inside shape_nonneg] apart filled cells_meet_overlaps by (metis disjoint_iff)

end

end
