(* ===== verification/Sharding.thy ===== *)
theory Sharding
  imports Boxes "HOL-Library.Product_Lexorder"
begin

text \<open>
  Sharding specifications, \<^verbatim>\<open>src/tensorplay/distributed/_shard\<close>: shard metadata
  (\<^verbatim>\<open>metadata.py\<close>), overlap and coverage checks and chunk arithmetic
  (\<^verbatim>\<open>sharding_spec/_internals.py\<close>), the chunk and the enumerated specification
  (\<^verbatim>\<open>sharding_spec/chunk_sharding_spec.py\<close>, \<^verbatim>\<open>sharding_spec/api.py\<close>) and the metadata for resharding
  (\<^verbatim>\<open>sharded_tensor/reshard.py\<close>). A placement is a value of any type: a parsed remote device; its rank is
  given by a parameter.
\<close>

subsection \<open>Shard metadata\<close>

record 'p shard_metadata =
  shard_offsets :: "int list"
  shard_sizes :: "int list"
  placement :: 'p

definition shard_metadata_init :: "int list \<Rightarrow> int list \<Rightarrow> 'p \<Rightarrow> 'p shard_metadata result" where
  "shard_metadata_init offsets sizes p =
     (if length offsets \<noteq> length sizes then Inl ValueError
      else if list_ex (\<lambda>v. v < 0) (offsets @ sizes) then Inl ValueError
      else Inr \<lparr>shard_offsets = offsets, shard_sizes = sizes, placement = p\<rparr>)"

subsection \<open>Validation and chunk arithmetic\<close>

definition ranges_overlap :: "'p shard_metadata \<Rightarrow> 'p shard_metadata \<Rightarrow> bool" where
  "ranges_overlap left right =
     list_all (\<lambda>(a, size_a, b, size_b). a < b + size_b \<and> b < a + size_a)
       (zip (shard_offsets left) (zip (shard_sizes left) (zip (shard_offsets right) (shard_sizes right))))"

fun validate_non_overlapping_shards_metadata :: "'p shard_metadata list \<Rightarrow> unit result" where
  "validate_non_overlapping_shards_metadata [] = Inr ()"
| "validate_non_overlapping_shards_metadata (left # rest) =
     (if list_ex (ranges_overlap left) rest then Inl ValueError
      else validate_non_overlapping_shards_metadata rest)"

definition add_shard_volume :: "int list \<Rightarrow> int \<Rightarrow> 'p shard_metadata \<Rightarrow> int result" where
  "add_shard_volume shape covered_volume shard =
     (if length (shard_offsets shard) \<noteq> length shape then Inl ValueError
      else if list_ex (\<lambda>(start, size, limit). start < 0 \<or> size < 0 \<or> start + size > limit)
                (zip (shard_offsets shard) (zip (shard_sizes shard) shape)) then Inl ValueError
      else Inr (covered_volume + foldl (*) 1 (shard_sizes shard)))"

definition check_tensor :: "'p shard_metadata list \<Rightarrow> int list \<Rightarrow> unit result" where
  "check_tensor shards shape =
     (if list_ex (\<lambda>v. v < 0) shape then Inl ValueError
      else rbind (validate_non_overlapping_shards_metadata shards) (\<lambda>_.
           rbind (foldM (add_shard_volume shape) 0 shards) (\<lambda>covered_volume.
           if covered_volume \<noteq> foldl (*) 1 shape then Inl ValueError else Inr ())))"

definition get_split_size :: "int \<Rightarrow> int \<Rightarrow> int result" where
  "get_split_size dim_size chunks =
     (if chunks \<le> 0 then Inl ValueError else Inr ((dim_size + chunks - 1) div chunks))"

definition get_chunked_dim_size :: "int \<Rightarrow> int \<Rightarrow> int \<Rightarrow> int" where
  "get_chunked_dim_size dim_size split_size idx = max 0 (min split_size (dim_size - idx * split_size))"

text \<open>A sharding dimension, negative ones counted from the end.\<close>

definition sharding_dim :: "int list \<Rightarrow> int \<Rightarrow> nat result" where
  "sharding_dim shape dim =
     (let d = (if dim \<ge> 0 then dim else dim + int (length shape))
      in if d < 0 \<or> d \<ge> int (length shape) then Inl ValueError else Inr (nat d))"

definition get_chunk_sharding_params :: "int list \<Rightarrow> int \<Rightarrow> 'p list \<Rightarrow> (nat \<times> int \<times> int list) result" where
  "get_chunk_sharding_params tensor_size dim placements =
     rbind (sharding_dim tensor_size dim) (\<lambda>d.
     if placements = [] then Inl ValueError
     else rbind (get_split_size (tensor_size ! d) (int (length placements))) (\<lambda>split_size.
          Inr (d, split_size, map (\<lambda>i. get_chunked_dim_size (tensor_size ! d) split_size i)
            (py_range (int (length placements))))))"

text \<open>\<open>_find_1d_overlapping_shards\<close>: intervals with inclusive ends and the index of their shard,
  sorted; neighbours are compared.\<close>

definition shard_interval :: "int \<Rightarrow> nat \<times> 'p shard_metadata \<Rightarrow> (int \<times> int \<times> nat) result" where
  "shard_interval dim p =
     rbind (py_nth (shard_offsets (snd p)) dim) (\<lambda>start.
     rbind (py_nth (shard_sizes (snd p)) dim) (\<lambda>size. Inr (start, start + size - 1, fst p)))"

fun first_overlap :: "(int \<times> int \<times> nat) list \<Rightarrow> (nat \<times> nat) option" where
  "first_overlap ((s1, e1, i1) # (s2, e2, i2) # rest) =
     (if e1 \<ge> s2 then Some (i1, i2) else first_overlap ((s2, e2, i2) # rest))"
| "first_overlap _ = None"

definition find_1d_overlapping_shards :: "'p shard_metadata list \<Rightarrow> int \<Rightarrow> (nat \<times> nat) option result" where
  "find_1d_overlapping_shards shards dim =
     rbind (traverse (shard_interval dim) (enumerate 0 shards)) (\<lambda>intervals. Inr (first_overlap (sort intervals)))"

definition shard_extent :: "int list \<Rightarrow> 'p shard_metadata \<Rightarrow> (int \<times> int) list result" where
  "shard_extent sharded_dims shard =
     traverse (\<lambda>dim. rbind (py_nth (shard_offsets shard) dim) (\<lambda>start.
       rbind (py_nth (shard_sizes shard) dim) (\<lambda>size. Inr (start, start + size - 1)))) sharded_dims"

definition extents_meet :: "(int \<times> int) list \<Rightarrow> (int \<times> int) list \<Rightarrow> bool" where
  "extents_meet left right = list_all (\<lambda>((ls, le), (rs, re)). ls \<le> re \<and> rs \<le> le) (zip left right)"

fun first_meeting :: "nat \<Rightarrow> (int \<times> int) list list \<Rightarrow> (nat \<times> nat) option" where
  "first_meeting left_index [] = None"
| "first_meeting left_index (left # rest) =
     (case List.find (\<lambda>(j, right). extents_meet left right) (enumerate (Suc left_index) rest) of
        Some (j, right) \<Rightarrow> Some (left_index, j)
      | None \<Rightarrow> first_meeting (Suc left_index) rest)"

definition find_nd_overlapping_shards :: "'p shard_metadata list \<Rightarrow> int list \<Rightarrow> (nat \<times> nat) option result" where
  "find_nd_overlapping_shards shards sharded_dims =
     rbind (traverse (shard_extent sharded_dims) shards) (\<lambda>intervals. Inr (first_meeting 0 intervals))"

subsection \<open>Specifications\<close>

datatype 'p sharding_spec = ChunkSpec int "'p list" | EnumerableSpec "'p shard_metadata list"

definition chunk_spec_init :: "int \<Rightarrow> 'p list \<Rightarrow> 'p sharding_spec result" where
  "chunk_spec_init dim placements = (if placements = [] then Inl ValueError else Inr (ChunkSpec dim placements))"

definition chunk_shard :: "int list \<Rightarrow> nat \<Rightarrow> int \<Rightarrow> nat \<times> 'p \<Rightarrow> 'p shard_metadata result" where
  "chunk_shard shape dim split_size ip =
     shard_metadata_init ((replicate (length shape) 0)[dim := int (fst ip) * split_size])
       (shape[dim := get_chunked_dim_size (shape ! dim) split_size (int (fst ip))]) (snd ip)"

definition chunk_build_metadata :: "int \<Rightarrow> 'p list \<Rightarrow> int list \<Rightarrow> 'p shard_metadata list result" where
  "chunk_build_metadata dim placements shape =
     rbind (sharding_dim shape dim) (\<lambda>d.
     rbind (get_split_size (shape ! d) (int (length placements))) (\<lambda>split_size.
     traverse (chunk_shard shape d split_size) (enumerate 0 placements)))"

definition enumerable_spec_init :: "'p shard_metadata list \<Rightarrow> 'p sharding_spec result" where
  "enumerable_spec_init shards =
     (if shards = [] then Inl ValueError
      else rbind (validate_non_overlapping_shards_metadata shards) (\<lambda>_. Inr (EnumerableSpec shards)))"

definition enumerable_build_metadata :: "'p shard_metadata list \<Rightarrow> int list \<Rightarrow> 'p shard_metadata list result" where
  "enumerable_build_metadata shards shape = rbind (check_tensor shards shape) (\<lambda>_. Inr shards)"

fun build_metadata :: "'p sharding_spec \<Rightarrow> int list \<Rightarrow> 'p shard_metadata list result" where
  "build_metadata (ChunkSpec dim placements) shape = chunk_build_metadata dim placements shape"
| "build_metadata (EnumerableSpec shards) shape = enumerable_build_metadata shards shape"

text \<open>The dimensions in which some shard has an offset other than zero, without duplicates.\<close>

definition offset_dims :: "'p shard_metadata list \<Rightarrow> nat list" where
  "offset_dims shards =
     remdups (concat (map (\<lambda>shard. map fst (filter (\<lambda>(i, v). v \<noteq> 0) (enumerate 0 (shard_offsets shard)))) shards))"

definition infer_sharding_spec_from_shards_metadata :: "'p shard_metadata list \<Rightarrow> 'p sharding_spec result" where
  "infer_sharding_spec_from_shards_metadata shards =
     (if shards = [] then Inl ValueError
      else case offset_dims shards of
        [dim] \<Rightarrow> chunk_spec_init (int dim) (map placement shards)
      | _ \<Rightarrow> enumerable_spec_init shards)"

subsection \<open>Resharding\<close>

fun placement_loop :: "('p \<Rightarrow> int result) \<Rightarrow> int \<Rightarrow> (nat \<times> 'p) list \<Rightarrow> nat result" where
  "placement_loop rank_of current_rank [] = Inl RuntimeError"
| "placement_loop rank_of current_rank ((i, p) # rest) =
     rbind (rank_of p) (\<lambda>r. if r = current_rank then Inr i else placement_loop rank_of current_rank rest)"

definition get_idx_from_placements :: "('p \<Rightarrow> int result) \<Rightarrow> 'p list \<Rightarrow> int \<Rightarrow> nat result" where
  "get_idx_from_placements rank_of placements current_rank = placement_loop rank_of current_rank (enumerate 0 placements)"

text \<open>The loop over the placements: the shards by rank, and the ranks in the order of the placements.\<close>

definition reshard_step ::
  "('p \<Rightarrow> int result) \<Rightarrow> int list \<Rightarrow> nat \<Rightarrow> int \<Rightarrow> int \<Rightarrow> 'p shard_metadata option list \<times> int list \<Rightarrow> nat \<times> 'p \<Rightarrow>
   ('p shard_metadata option list \<times> int list) result" where
  "reshard_step rank_of shape dim width world_size st ip =
     (case st of (by_rank, ranks) \<Rightarrow>
      rbind (rank_of (snd ip)) (\<lambda>rank.
      if rank < 0 \<or> rank \<ge> world_size then Inl ValueError
      else if by_rank ! nat rank \<noteq> None then Inl ValueError
      else rbind (chunk_shard shape dim width ip) (\<lambda>shard.
           Inr (by_rank[nat rank := Some shard], ranks @ [rank]))))"

definition build_reshard_metadata ::
  "('p \<Rightarrow> int result) \<Rightarrow> int list \<Rightarrow> int \<Rightarrow> 'p list \<Rightarrow> int \<Rightarrow> ('p shard_metadata list \<times> int list) result" where
  "build_reshard_metadata rank_of shape dim placements world_size =
     (if world_size \<le> 0 then Inl ValueError
      else if int (length placements) \<noteq> world_size then Inl ValueError
      else rbind (sharding_dim shape dim) (\<lambda>d.
           let width = (shape ! d + world_size - 1) div world_size in
           rbind (foldM (reshard_step rank_of shape d width world_size) (replicate (nat world_size) None, [])
                    (enumerate 0 placements)) (\<lambda>(by_rank, ranks).
           if list_ex (\<lambda>x. x = None) by_rank then Inl ValueError
           else Inr (map the by_rank, ranks))))"

subsection \<open>The coverage check\<close>

definition shard_box :: "'p shard_metadata \<Rightarrow> box" where
  "shard_box s = zip (shard_offsets s) (shard_sizes s)"

text \<open>What the constructor guarantees of a shard.\<close>

definition wf_shard :: "'p shard_metadata \<Rightarrow> bool" where
  "wf_shard s \<longleftrightarrow> length (shard_offsets s) = length (shard_sizes s) \<and>
     (\<forall>v \<in> set (shard_offsets s). 0 \<le> v) \<and> (\<forall>v \<in> set (shard_sizes s). 0 \<le> v)"

lemma shard_metadata_init_wf: "shard_metadata_init offsets sizes p = Inr s \<Longrightarrow> wf_shard s \<and>
    shard_offsets s = offsets \<and> shard_sizes s = sizes \<and> placement s = p"
  by (auto simp: shard_metadata_init_def wf_shard_def list_ex_iff not_less split: if_splits)

lemma ranges_overlap_boxes: "ranges_overlap l r = overlaps (shard_box l) (shard_box r)"
proof -
  have "list_all (\<lambda>(a, sa, b, sb). a < b + sb \<and> b < a + sa) (zip as (zip ss (zip bs ts))) =
      list_all (\<lambda>((o1, n1), (o2, n2)). o1 < o2 + n2 \<and> o2 < o1 + n1) (zip (zip as ss) (zip bs ts))"
    for as ss bs ts :: "int list"
  proof (induction as arbitrary: ss bs ts)
    case (Cons a as)
    then show ?case by (cases ss; cases bs; cases ts) auto
  qed simp
  then show ?thesis by (simp add: ranges_overlap_def overlaps_def shard_box_def)
qed

lemma validate_non_overlapping_iff:
  "validate_non_overlapping_shards_metadata shards = Inr () \<longleftrightarrow>
    (\<forall>i j. i < j \<longrightarrow> j < length shards \<longrightarrow> \<not> overlaps (shard_box (shards ! i)) (shard_box (shards ! j)))"
proof -
  have "validate_non_overlapping_shards_metadata shards = Inr () \<longleftrightarrow>
      sorted_wrt (\<lambda>l r. \<not> overlaps (shard_box l) (shard_box r)) shards"
    by (induction shards) (auto simp: list_ex_iff ranges_overlap_boxes)
  then show ?thesis by (auto simp: sorted_wrt_iff_nth_less)
qed

lemma shard_within:
  assumes "length (shard_offsets s) = length (shard_sizes s)"
  shows "(length (shard_offsets s) = length shape \<and>
     \<not> list_ex (\<lambda>(start, size, limit). start < 0 \<or> size < 0 \<or> start + size > limit)
        (zip (shard_offsets s) (zip (shard_sizes s) shape))) \<longleftrightarrow> within shape (shard_box s)"
  using assms by (auto simp: within_nth shard_box_def list_ex_length split_beta)

lemma shard_volume: "length (shard_offsets s) = length (shard_sizes s) \<Longrightarrow> volume (shard_box s) = foldl (*) 1 (shard_sizes s)"
  by (simp add: volume_def shard_box_def foldl_mult_int)

lemma check_volumes:
  assumes "\<forall>s \<in> set shards. length (shard_offsets s) = length (shard_sizes s)"
  shows "foldM (add_shard_volume shape) v shards =
    (if \<forall>s \<in> set shards. within shape (shard_box s) then Inr (v + sum_list (map (volume \<circ> shard_box) shards)) else Inl ValueError)"
  using assms
proof (induction shards arbitrary: v)
  case (Cons s shards)
  have "add_shard_volume shape v s =
      (if within shape (shard_box s) then Inr (v + volume (shard_box s)) else Inl ValueError)"
    using Cons.prems shard_within[of s shape] shard_volume[of s] by (auto simp: add_shard_volume_def)
  then show ?case using Cons by (auto simp: add.assoc comp_def)
qed simp

lemma check_tensor_spec:
  assumes "\<forall>s \<in> set shards. wf_shard s"
  shows "check_tensor shards shape = Inr () \<longleftrightarrow> (\<forall>n \<in> set shape. 0 \<le> n) \<and>
    (\<forall>i j. i < j \<longrightarrow> j < length shards \<longrightarrow> \<not> overlaps (shard_box (shards ! i)) (shard_box (shards ! j))) \<and>
    (\<forall>s \<in> set shards. within shape (shard_box s)) \<and> sum_list (map (volume \<circ> shard_box) shards) = prod_list shape"
proof -
  have len: "\<forall>s \<in> set shards. length (shard_offsets s) = length (shard_sizes s)" using assms by (simp add: wf_shard_def)
  show ?thesis unfolding check_tensor_def check_volumes[OF len]
    by (auto simp: result_simps validate_non_overlapping_iff[symmetric] list_ex_iff foldl_mult_int not_less [symmetric]
        split: if_splits)
qed

interpretation shards: tiling_check
  "\<lambda>(shards, shape). (\<forall>s \<in> set shards. wf_shard s) \<and> check_tensor shards shape = Inr ()" snd "\<lambda>(shards, shape). map shard_box shards"
  by unfold_locales (auto simp: check_tensor_spec comp_def)

text \<open>C25: \<open>check_tensor\<close> decides whether shards, as their constructor makes them, tile the tensor. When it accepts, every element of
  the tensor is in exactly one shard and the shards have no other elements; and for sizes that are not negative
  it accepts every such family of non-empty shards.\<close>

theorem check_tensor_tiles:
  assumes "\<forall>s \<in> set shards. wf_shard s"
  shows "(check_tensor shards shape = Inr () \<longrightarrow> tiles shape (map shard_box shards)) \<and>
    ((\<forall>s \<in> set shards. \<forall>n \<in> set (shard_sizes s). 0 < n) \<and> (\<forall>n \<in> set shape. 0 \<le> n) \<and> tiles shape (map shard_box shards) \<longrightarrow>
      check_tensor shards shape = Inr ())"
proof (intro conjI impI)
  show "tiles shape (map shard_box shards)" if "check_tensor shards shape = Inr ()"
    using shards.accepted_tiles[of "(shards, shape)"] assms that by simp
next
  assume a: "(\<forall>s \<in> set shards. \<forall>n \<in> set (shard_sizes s). 0 < n) \<and> (\<forall>n \<in> set shape. 0 \<le> n) \<and> tiles shape (map shard_box shards)"
  let ?bs = "map shard_box shards"
  have pos: "\<forall>(start, n) \<in> set (shard_box s). 0 < n" if "s \<in> set shards" for s
    using a that by (auto simp: shard_box_def dest: set_zip_rightD)
  have inside: "\<forall>s \<in> set shards. within shape (shard_box s)"
    using a pos cells_within unfolding tiles_def by auto
  have disj: "cells (?bs ! i) \<inter> cells (?bs ! j) = {}" if "i < j" "j < length ?bs" for i j
    using a tiles_disjoint[OF _ that] by blast
  have "\<not> overlaps (shard_box (shards ! i)) (shard_box (shards ! j))" if ij: "i < j" "j < length shards" for i j
  proof -
    have m: "shards ! i \<in> set shards" "shards ! j \<in> set shards" using ij by auto
    then have "length (shard_box (shards ! i)) = length (shard_box (shards ! j))" using inside by (simp add: within_nth)
    then show ?thesis using overlaps_cells_meet[OF _ _ pos[OF m(1)] pos[OF m(2)]] disj[of i j] ij by auto
  qed
  moreover have "sum_list (map volume ?bs) = prod_list shape"
    using tiles_volume[of ?bs shape] inside a disj by auto
  ultimately show "check_tensor shards shape = Inr ()" using a inside by (simp add: check_tensor_spec[OF assms] comp_def)
qed

theorem check_tensor_tiles_witness:
  "tiles [4, 2] [[(0, 3), (0, 2)], [(3, 1), (0, 2)]] \<and>
   check_tensor [\<lparr>shard_offsets = [0, 0], shard_sizes = [3, 2], placement = ()\<rparr>,
     \<lparr>shard_offsets = [3, 0], shard_sizes = [1, 2], placement = ()\<rparr>] [4, 2] = Inr ()"
  using check_tensor_tiles[of "[\<lparr>shard_offsets = [0, 0], shard_sizes = [3, 2], placement = ()\<rparr>,
     \<lparr>shard_offsets = [3, 0], shard_sizes = [1, 2], placement = ()\<rparr>]" "[4, 2]"]
  by (simp add: check_tensor_def add_shard_volume_def ranges_overlap_def wf_shard_def shard_box_def)

subsection \<open>Chunked dimensions\<close>

lemma chunk_interval:
  assumes "0 < w" and "0 \<le> i"
  shows "i * w \<le> x \<and> x < i * w + get_chunked_dim_size n w i \<longleftrightarrow> 0 \<le> x \<and> x < n \<and> x div w = i"
proof -
  have "0 \<le> i * w" using assms by simp
  then show ?thesis unfolding div_eq_iff_int[OF assms(1)] get_chunked_dim_size_def by auto
qed

lemma chunk_shard_ok:
  assumes "d < length shape" and "\<forall>n \<in> set shape. 0 \<le> n" and "0 \<le> w"
  shows "\<exists>s. chunk_shard shape d w (i, p) = Inr s \<and> placement s = p \<and> wf_shard s \<and>
    shard_box s = (whole shape)[d := (int i * w, get_chunked_dim_size (shape ! d) w (int i))]"
proof -
  let ?o = "(replicate (length shape) 0)[d := int i * w]" and ?s = "shape[d := get_chunked_dim_size (shape ! d) w (int i)]"
  have "0 \<le> v" if "v \<in> set ?o \<or> v \<in> set ?s" for v
    using that assms set_update_subset_insert[of "replicate (length shape) 0" d "int i * w"]
      set_update_subset_insert[of shape d "get_chunked_dim_size (shape ! d) w (int i)"]
    by (auto simp: get_chunked_dim_size_def dest!: subsetD)
  then have nn: "\<not> list_ex (\<lambda>v. v < 0) (?o @ ?s)" by (auto simp: list_ex_iff not_less)
  have "zip ?o ?s = (whole shape)[d := (int i * w, get_chunked_dim_size (shape ! d) w (int i))]"
    using assms(1) by (intro nth_equalityI) (auto simp: nth_list_update)
  then show ?thesis using nn shard_metadata_init_wf[of ?o ?s p]
    by (auto simp: chunk_shard_def shard_metadata_init_def shard_box_def)
qed

lemma chunk_cells:
  assumes "d < length shape" and "0 < w" and "0 \<le> i"
  shows "xs \<in> cells ((whole shape)[d := (i * w, get_chunked_dim_size (shape ! d) w i)]) \<longleftrightarrow>
    xs \<in> cells (whole shape) \<and> xs ! d div w = i"
  using chunk_interval[OF assms(2,3), of "xs ! d" "shape ! d"] assms(1)
  by (auto simp: cells_nth nth_list_update)

lemma chunk_cells_whole:
  assumes "d < length shape" and "0 \<le> w"
  shows "cells ((whole shape)[d := (int i * w, get_chunked_dim_size (shape ! d) w (int i))]) \<subseteq> cells (whole shape)"
proof
  fix xs assume xs: "xs \<in> cells ((whole shape)[d := (int i * w, get_chunked_dim_size (shape ! d) w (int i))])"
  have "0 \<le> int i * w" using assms(2) by simp
  moreover have "int i * w \<le> xs ! d" "xs ! d < int i * w + get_chunked_dim_size (shape ! d) w (int i)"
    using xs[unfolded cells_nth] assms(1) by (auto dest!: spec[of _ d])
  ultimately have "0 \<le> xs ! d \<and> xs ! d < shape ! d" unfolding get_chunked_dim_size_def by linarith
  moreover have "0 \<le> xs ! j \<and> xs ! j < shape ! j" if "j < length shape" "j \<noteq> d" for j
    using xs[unfolded cells_nth] that by (auto dest!: spec[of _ j])
  ultimately show "xs \<in> cells (whole shape)" using xs by (metis cells_nth fst_conv snd_conv whole_nth length_list_update add_0)
qed

lemma sharding_dim_ok: "- int (length shape) \<le> dim \<Longrightarrow> dim < int (length shape) \<Longrightarrow>
    \<exists>d. sharding_dim shape dim = Inr d \<and> d < length shape"
  by (auto simp: sharding_dim_def Let_def)

text \<open>\<open>ChunkShardingSpec.build_metadata\<close> with at least one placement, a dimension of the
  tensor and non-negative sizes returns one shard per placement, in order, and the shards tile the tensor.\<close>

theorem chunk_build_metadata_tiles:
  assumes "placements \<noteq> []" and "\<forall>n \<in> set shape. 0 \<le> n"
    and "- int (length shape) \<le> dim" and "dim < int (length shape)"
  shows "\<exists>shards. build_metadata (ChunkSpec dim placements) shape = Inr shards \<and> map placement shards = placements \<and>
    tiles shape (map shard_box shards)"
proof -
  obtain d where d: "sharding_dim shape dim = Inr d" "d < length shape" using sharding_dim_ok[OF assms(3,4)] by blast
  let ?n = "shape ! d" and ?c = "int (length placements)"
  let ?w = "(?n + ?c - 1) div ?c"
  have c: "0 < ?c" and n: "0 \<le> ?n" using assms(1,2) d(2) by auto
  have w: "0 \<le> ?w" "?n \<le> ?w * ?c"
    using pos_imp_zdiv_nonneg_iff[OF c, of "?n + ?c - 1"] c n ceil_div_mult[OF c, of ?n] by linarith+
  let ?box = "\<lambda>i. (whole shape)[d := (int i * ?w, get_chunked_dim_size ?n ?w (int i))]"
  have "\<exists>s. chunk_shard shape d ?w (i, p) = Inr s \<and> (placement s = p \<and> shard_box s = ?box i)" for i p
    using chunk_shard_ok[OF d(2) assms(2) w(1), of i p] by auto
  from traverse_enumerate_ok[of "chunk_shard shape d ?w" "\<lambda>i p s. placement s = p \<and> shard_box s = ?box i", OF this, of 0 placements]
  obtain shards where
    s: "traverse (chunk_shard shape d ?w) (enumerate 0 placements) = Inr shards" "length shards = length placements"
    "\<forall>i < length placements. placement (shards ! i) = placements ! i \<and> shard_box (shards ! i) = ?box i"
    unfolding add_0 by blast
  have map_p: "map placement shards = placements" using s(2,3) by (auto intro: nth_equalityI)
  have "\<exists>!i. i < length shards \<and> xs \<in> cells (map shard_box shards ! i)" if xs: "xs \<in> cells (whole shape)" for xs
  proof -
    have x: "0 \<le> xs ! d" "xs ! d < ?n" using xs d(2) by (auto simp: cells_nth)
    then have w0: "0 < ?w" using w by (cases "?w = 0") auto
    have iff: "xs \<in> cells (map shard_box shards ! i) \<longleftrightarrow> xs ! d div ?w = int i" if "i < length shards" for i
      using chunk_cells[OF d(2) w0, of "int i" xs] xs s(2,3) that by simp
    have "0 \<le> xs ! d div ?w" using x w0 by (simp add: pos_imp_zdiv_nonneg_iff)
    moreover have "xs ! d div ?w < ?c" using x w(2) by (intro int_div_less[OF w0]) linarith
    ultimately have "nat (xs ! d div ?w) < length shards" using s(2) by linarith
    then show ?thesis using iff \<open>0 \<le> xs ! d div ?w\<close> by (intro ex1I[of _ "nat (xs ! d div ?w)"]) auto
  qed
  moreover have "cells b \<subseteq> cells (whole shape)" if b: "b \<in> set (map shard_box shards)" for b
  proof -
    obtain i where "i < length shards" "b = shard_box (shards ! i)" using b by (auto simp: in_set_conv_nth)
    then have "b = ?box i" using s(2,3) by simp
    then show ?thesis using chunk_cells_whole[OF d(2) w(1)] by simp
  qed
  ultimately have "tiles shape (map shard_box shards)" unfolding tiles_def by simp
  then show ?thesis using d c s map_p by (simp add: chunk_build_metadata_def get_split_size_def)
qed

theorem chunk_build_metadata_tiles_witness:
  "\<exists>shards. build_metadata (ChunkSpec (- 2) ''abc'') [7, 2] = Inr shards \<and> map placement shards = ''abc'' \<and>
    tiles [7, 2] (map shard_box shards)"
  by (rule chunk_build_metadata_tiles) simp_all

text \<open>With more placements than chunks the last shards are empty and start beyond the tensor, which the
  coverage check of the same package rejects.\<close>

theorem chunk_metadata_rejected:
  "rbind (build_metadata (ChunkSpec 0 ''abcd'') [5]) (\<lambda>shards. check_tensor shards [5]) = Inl ValueError"
  by (simp add: chunk_build_metadata_def sharding_dim_def get_split_size_def chunk_shard_def shard_metadata_init_def
      get_chunked_dim_size_def check_tensor_def ranges_overlap_def add_shard_volume_def)

text \<open>The specification inferred from two uneven shards along one dimension is a chunk specification that
  describes other shards.\<close>

theorem inferred_spec_changes_shards:
  "rbind (infer_sharding_spec_from_shards_metadata
      [\<lparr>shard_offsets = [0], shard_sizes = [1], placement = CHR ''a''\<rparr>,
       \<lparr>shard_offsets = [1], shard_sizes = [4], placement = CHR ''b''\<rparr>])
     (\<lambda>spec. build_metadata spec [5]) =
   Inr [\<lparr>shard_offsets = [0], shard_sizes = [3], placement = CHR ''a''\<rparr>,
        \<lparr>shard_offsets = [3], shard_sizes = [2], placement = CHR ''b''\<rparr>]"
  by (simp add: infer_sharding_spec_from_shards_metadata_def offset_dims_def chunk_spec_init_def chunk_build_metadata_def
      sharding_dim_def get_split_size_def chunk_shard_def shard_metadata_init_def get_chunked_dim_size_def)

subsection \<open>The one-dimensional overlap search\<close>

lemma first_overlap_None:
  "first_overlap xs = None \<longleftrightarrow> successively (\<lambda>(s1, e1, i1) (s2, e2, i2). e1 < s2) xs"
  by (induction xs rule: first_overlap.induct) auto

lemma first_overlap_Some:
  "first_overlap xs = Some (i, j) \<Longrightarrow> \<exists>ys zs s1 e1 s2 e2. xs = ys @ (s1, e1, i) # (s2, e2, j) # zs \<and> s2 \<le> e1"
proof (induction xs rule: first_overlap.induct)
  case (1 s1 e1 i1 s2 e2 i2 rest)
  show ?case
  proof (cases "e1 \<ge> s2")
    case True
    then show ?thesis using 1 by (intro exI[of _ "[]"] exI[of _ rest]) auto
  next
    case False
    then obtain ys zs s1' e1' s2' e2' where "(s2, e2, i2) # rest = ys @ (s1', e1', i) # (s2', e2', j) # zs \<and> s2' \<le> e1'"
      using 1 by auto
    then show ?thesis by (metis append_Cons)
  qed
qed auto

definition apart_1d :: "int \<times> int \<times> nat \<Rightarrow> int \<times> int \<times> nat \<Rightarrow> bool" where
  "apart_1d x y \<longleftrightarrow> fst (snd x) < fst y \<and> fst y \<le> fst (snd y)"

lemma first_overlap_apart:
  assumes "\<forall>(s, e, i) \<in> set xs. s \<le> e"
  shows "first_overlap xs = None \<longleftrightarrow> sorted_wrt apart_1d xs"
proof -
  have "transp apart_1d" by (auto simp: transp_def apart_1d_def)
  then have "sorted_wrt apart_1d xs = successively apart_1d xs" by (simp add: successively_conv_sorted_wrt)
  moreover have "successively apart_1d xs = successively (\<lambda>(s1, e1, i1) (s2, e2, i2). e1 < s2) xs"
    using assms by (intro successively_cong) (auto simp: apart_1d_def)
  ultimately show ?thesis by (simp add: first_overlap_None)
qed

lemma shard_interval_ok:
  assumes "wf_shard s" and "d < length (shard_offsets s)"
  shows "shard_interval (int d) (i, s) =
    Inr (fst (shard_box s ! d), fst (shard_box s ! d) + snd (shard_box s ! d) - 1, i)"
  using assms by (simp add: shard_interval_def py_nth_nonneg wf_shard_def shard_box_def)

text \<open>for shards with a positive size in a dimension they all have, \<open>_find_1d_overlapping_shards\<close>
  returns None exactly when no two of them overlap in that dimension, and otherwise a pair that does.\<close>

theorem find_1d_overlapping_correct:
  assumes "\<forall>s \<in> set shards. wf_shard s \<and> d < length (shard_offsets s) \<and> 0 < shard_sizes s ! d"
  shows "\<exists>r. find_1d_overlapping_shards shards (int d) = Inr r \<and>
    (case r of
       None \<Rightarrow> \<forall>i j. i < length shards \<longrightarrow> j < length shards \<longrightarrow> i \<noteq> j \<longrightarrow>
         \<not> overlaps [shard_box (shards ! i) ! d] [shard_box (shards ! j) ! d]
     | Some (i, j) \<Rightarrow> i < length shards \<and> j < length shards \<and> i \<noteq> j \<and>
         overlaps [shard_box (shards ! i) ! d] [shard_box (shards ! j) ! d])"
proof -
  let ?f = "\<lambda>(i, s). (fst (shard_box s ! d), fst (shard_box s ! d) + snd (shard_box s ! d) - 1, i)"
  let ?ivs = "map ?f (enumerate 0 shards)"
  have run: "find_1d_overlapping_shards shards (int d) = Inr (first_overlap (sort ?ivs))"
  proof -
    have "traverse (shard_interval (int d)) (enumerate 0 shards) = Inr ?ivs"
      using assms by (intro traverse_total) (auto simp: in_set_enumerate_eq shard_interval_ok)
    then show ?thesis by (simp add: find_1d_overlapping_shards_def)
  qed
  have pos: "0 < snd (shard_box (shards ! i) ! d)" if "i < length shards" for i
    using assms nth_mem[OF that] by (auto simp: shard_box_def wf_shard_def)
  have mem: "x \<in> set (sort ?ivs) \<longleftrightarrow> (\<exists>i < length shards. x = ?f (i, shards ! i))" for x
  proof -
    have "x \<in> set ?ivs \<longleftrightarrow> (\<exists>p \<in> set (enumerate 0 shards). x = ?f p)" by (simp only: set_map image_iff)
    also have "\<dots> \<longleftrightarrow> (\<exists>i < length shards. x = ?f (i, shards ! i))" unfolding set_enumerate_0 by blast
    finally show ?thesis by simp
  qed
  have dist: "distinct (map (snd \<circ> snd) (sort ?ivs))"
  proof -
    have "map (snd \<circ> snd) ?ivs = map fst (enumerate 0 shards)" unfolding map_map by (intro map_cong) auto
    then have "distinct (map (snd \<circ> snd) ?ivs)" by (simp add: distinct_map)
    moreover have "mset (map (snd \<circ> snd) (sort ?ivs)) = mset (map (snd \<circ> snd) ?ivs)" unfolding mset_map by simp
    ultimately show ?thesis using mset_eq_imp_distinct_iff by blast
  qed
  show ?thesis
  proof (cases "first_overlap (sort ?ivs)")
    case None
    have "\<forall>(s, e, i) \<in> set (sort ?ivs). s \<le> e" using mem pos by fastforce
    then have ap: "sorted_wrt apart_1d (sort ?ivs)" using None first_overlap_apart by blast
    have "\<not> overlaps [shard_box (shards ! i) ! d] [shard_box (shards ! j) ! d]"
      if ij: "i < length shards" "j < length shards" "i \<noteq> j" for i j
    proof -
      have "?f (i, shards ! i) \<in> set (sort ?ivs)" "?f (j, shards ! j) \<in> set (sort ?ivs)" using ij mem by blast+
      then obtain a b where ab: "a < length (sort ?ivs)" "b < length (sort ?ivs)"
        "sort ?ivs ! a = ?f (i, shards ! i)" "sort ?ivs ! b = ?f (j, shards ! j)" unfolding in_set_conv_nth by blast
      then have "a \<noteq> b" using ij(3) by auto
      then have "apart_1d (sort ?ivs ! a) (sort ?ivs ! b) \<or> apart_1d (sort ?ivs ! b) (sort ?ivs ! a)"
        using sorted_wrt_nth_less[OF ap, of a b] sorted_wrt_nth_less[OF ap, of b a] ab(1,2) by linarith
      then have "apart_1d (?f (i, shards ! i)) (?f (j, shards ! j)) \<or> apart_1d (?f (j, shards ! j)) (?f (i, shards ! i))"
        unfolding ab(3,4) .
      then show ?thesis by (auto simp: apart_1d_def overlaps_def split_beta)
    qed
    then show ?thesis using run None by auto
  next
    case (Some p)
    obtain i j where p: "p = (i, j)" by (cases p)
    obtain ys zs s1 e1 s2 e2 where split: "sort ?ivs = ys @ (s1, e1, i) # (s2, e2, j) # zs" "s2 \<le> e1"
      using first_overlap_Some Some p by blast
    have "sorted (sort ?ivs)" by simp
    then have "s1 \<le> s2" unfolding split(1) sorted_append by auto
    moreover have "i \<noteq> j" using dist unfolding split(1) by auto
    moreover have "i < length shards \<and> (s1, e1, i) = ?f (i, shards ! i)" "j < length shards \<and> (s2, e2, j) = ?f (j, shards ! j)"
      using mem[of "(s1, e1, i)"] mem[of "(s2, e2, j)"] unfolding split(1) by auto
    ultimately show ?thesis using run Some p split(2) pos[of i] pos[of j] by (auto simp: overlaps_def split_beta)
  qed
qed

theorem find_1d_overlapping_correct_witness:
  "\<exists>r. find_1d_overlapping_shards [\<lparr>shard_offsets = [2, 0], shard_sizes = [2, 4], placement = ()\<rparr>,
        \<lparr>shard_offsets = [0, 0], shard_sizes = [3, 4], placement = ()\<rparr>] (int 0) = Inr r \<and> r = Some (1, 0)"
proof -
  let ?shards = "[\<lparr>shard_offsets = [2, 0], shard_sizes = [2, 4], placement = ()\<rparr>,
        \<lparr>shard_offsets = [0, 0], shard_sizes = [3, 4], placement = ()\<rparr>]"
  have "\<forall>s \<in> set ?shards. wf_shard s \<and> 0 < length (shard_offsets s) \<and> 0 < shard_sizes s ! 0" by (simp add: wf_shard_def)
  from find_1d_overlapping_correct[OF this] show ?thesis
    by (simp add: find_1d_overlapping_shards_def shard_interval_def py_nth_def)
qed

end
