(* ===== verification/CheckpointPlan.thy ===== *)
theory CheckpointPlan
  imports Boxes "HOL-Library.AList" "HOL-Library.Product_Lexorder"
begin

text \<open>
  Planning of distributed checkpoints, \<^verbatim>\<open>src/tensorplay/distributed/checkpoint\<close>: chunks and metadata
  (\<^verbatim>\<open>metadata.py\<close>), plan items (\<^verbatim>\<open>planner.py\<close>), overlap of chunks (\<^verbatim>\<open>resharding.py\<close>), the global save plan
  and the read items of a load (\<^verbatim>\<open>planner_helpers.py\<close>), deduplication (\<^verbatim>\<open>_dedup_save_plans.py\<close>,
  \<^verbatim>\<open>_dedup_tensors.py\<close>), validation and the plan cache (\<^verbatim>\<open>default_planner.py\<close>). Tensor properties are values of a
  type parameter, the size of an element is a parameter. A dictionary is an association list in insertion
  order. \<open>storage_data\<close>, which the storage writer sets, is left out of the plans.
\<close>

subsection \<open>Metadata and plan items\<close>

record chunk =
  offsets :: "int list"
  sizes :: "int list"

record metadata_index =
  fqn :: string
  ix_offset :: "int list option"
  ix_index :: "int option"

text \<open>Equality and hash of an index leave out the index hint.\<close>

datatype item_key = ItemKey string "int list option"

definition index_key :: "metadata_index \<Rightarrow> item_key" where
  "index_key i = ItemKey (fqn i) (ix_offset i)"

record 'd tensor_storage_metadata =
  ts_properties :: 'd
  ts_size :: "int list"
  ts_chunks :: "chunk list"

datatype 'd storage_type = TensorStorage "'d tensor_storage_metadata" | BytesStorage

datatype write_item_type = TENSOR | SHARD | BYTE_IO

datatype load_item_type = LOAD_TENSOR | LOAD_BYTE_IO

record 'd tensor_write_data =
  tw_chunk :: chunk
  tw_properties :: 'd
  tw_size :: "int list"

record 'd write_item =
  wi_index :: metadata_index
  wi_type :: write_item_type
  wi_bytes :: "int option"
  wi_tensor :: "'d tensor_write_data option"

definition tensor_storage_size :: "('d \<Rightarrow> int) \<Rightarrow> 'd write_item \<Rightarrow> int option" where
  "tensor_storage_size itemsize item =
     (case wi_tensor item of None \<Rightarrow> None | Some td \<Rightarrow> Some (prod_list (tw_size td) * itemsize (tw_properties td)))"

record read_item =
  ri_type :: load_item_type
  dest_index :: metadata_index
  dest_offsets :: "int list"
  storage_index :: metadata_index
  storage_offsets :: "int list"
  lengths :: "int list"

record ('d, 'm) save_plan =
  items :: "'d write_item list"
  planner_data :: "(string \<rightharpoonup> 'm) option"
  usable :: bool

record ('d, 'm) plan_metadata =
  state_dict_metadata :: "(string \<times> 'd storage_type) list"
  md_planner_data :: "(string \<rightharpoonup> 'm) option"

subsection \<open>Overlap of chunks\<close>

text \<open>The loop over the dimensions shared by \<open>_check_shard_metadata_pair_overlap\<close> and \<open>_check_box_overlap\<close>.\<close>

fun overlap_loop :: "chunk \<Rightarrow> chunk \<Rightarrow> int list \<Rightarrow> bool result" where
  "overlap_loop a b [] = Inr True"
| "overlap_loop a b (d # ds) =
     rbind (py_nth (offsets a) d) (\<lambda>oa. rbind (py_nth (offsets b) d) (\<lambda>ob. rbind (py_nth (sizes b) d) (\<lambda>sb.
     if oa \<ge> ob + sb then Inr False
     else rbind (py_nth (sizes a) d) (\<lambda>sa.
          if ob \<ge> oa + sa then Inr False else overlap_loop a b ds))))"

definition check_shard_metadata_pair_overlap :: "chunk \<Rightarrow> chunk \<Rightarrow> bool result" where
  "check_shard_metadata_pair_overlap shard1 shard2 = overlap_loop shard1 shard2 (py_range (int (length (offsets shard1))))"

definition check_box_overlap :: "chunk \<Rightarrow> chunk \<Rightarrow> bool result" where
  "check_box_overlap box0 box1 = overlap_loop box0 box1 (py_range (int (length (offsets box0))))"

fun bounds_loop :: "int list \<Rightarrow> chunk \<Rightarrow> int list \<Rightarrow> bool result" where
  "bounds_loop outer inner [] = Inr True"
| "bounds_loop outer inner (d # ds) =
     rbind (py_nth (offsets inner) d) (\<lambda>oi.
     if oi < 0 then Inr False
     else rbind (py_nth (sizes inner) d) (\<lambda>si.
          if si < 0 then Inr False
          else rbind (py_nth outer d) (\<lambda>n. if oi + si > n then Inr False else bounds_loop outer inner ds)))"

definition check_box_bounds :: "int list \<Rightarrow> chunk \<Rightarrow> bool result" where
  "check_box_bounds outer inner = bounds_loop outer inner (py_range (int (length outer)))"

text \<open>Per dimension: the position of the overlap in the saved and in the current shard, and its length.\<close>

definition overlap_narrow :: "int \<times> int \<times> int \<times> int \<Rightarrow> int \<times> int \<times> int" where
  "overlap_narrow p = (case p of (saved_offset, current_offset, saved_size, current_size) \<Rightarrow>
     let stop = min (saved_offset + saved_size) (current_offset + current_size);
         len = stop - max current_offset saved_offset
     in if saved_offset > current_offset then (0, saved_offset - current_offset, len)
        else (current_offset - saved_offset, 0, len))"

definition shards_get_overlap_region_wrt_saved_tensor :: "chunk \<Rightarrow> chunk \<Rightarrow> (nat \<times> int \<times> int \<times> int) list" where
  "shards_get_overlap_region_wrt_saved_tensor saved_shard current_shard =
     enumerate 0 (map overlap_narrow (zip (offsets saved_shard) (zip (offsets current_shard)
       (zip (sizes saved_shard) (sizes current_shard)))))"

subsection \<open>Python helpers\<close>

text \<open>\<open>bisect_right\<close> on a sorted list; the first position of the greatest key of a non-empty list.\<close>

definition bisect_right :: "'a::linorder list \<Rightarrow> 'a \<Rightarrow> nat" where
  "bisect_right xs x = length (takeWhile (\<lambda>y. y \<le> x) xs)"

fun arg_max_from :: "nat \<Rightarrow> int \<Rightarrow> nat \<Rightarrow> int list \<Rightarrow> nat" where
  "arg_max_from best key i [] = best"
| "arg_max_from best key i (k # ks) = (if k > key then arg_max_from i k (Suc i) ks else arg_max_from best key (Suc i) ks)"

definition py_arg_max :: "int list \<Rightarrow> nat" where
  "py_arg_max keys = (case keys of [] \<Rightarrow> 0 | k # ks \<Rightarrow> arg_max_from 0 k 1 ks)"

subsection \<open>Read items\<close>

text \<open>The interval of a chunk in the sweep dimension.\<close>

definition chunk_bounds :: "int \<Rightarrow> chunk \<Rightarrow> (int \<times> int) result" where
  "chunk_bounds d c =
     rbind (py_nth (offsets c) d) (\<lambda>start. rbind (py_nth (sizes c) d) (\<lambda>size. Inr (start, start + size)))"

definition chunk_end :: "int \<Rightarrow> chunk \<Rightarrow> int result" where
  "chunk_end d c = rbind (chunk_bounds d c) (\<lambda>(start, stop). Inr stop)"

definition max_end :: "chunk list \<Rightarrow> int \<Rightarrow> int result" where
  "max_end cs d = rbind (traverse (chunk_end d) cs) (\<lambda>es. Inr (Max (set es)))"

definition sweep_dimension :: "nat \<Rightarrow> chunk list \<Rightarrow> chunk list \<Rightarrow> nat result" where
  "sweep_dimension dimensions local_chunks saved_chunks =
     (if dimensions > 1
      then rbind (traverse (max_end (local_chunks @ saved_chunks)) (py_range (int dimensions))) (\<lambda>keys. Inr (py_arg_max keys))
      else Inr 0)"

definition sweep_bounds :: "nat \<Rightarrow> nat \<Rightarrow> chunk list \<Rightarrow> (int \<times> int) list result" where
  "sweep_bounds dimensions sweep chunks =
     (if dimensions = 0 then Inr (replicate (length chunks) (0, 1)) else traverse (chunk_bounds (int sweep)) chunks)"

definition sweep_order :: "(int \<times> int) list \<Rightarrow> nat list" where
  "sweep_order bounds = sort_key (\<lambda>i. fst (bounds ! i)) [0..<length bounds]"

definition create_read_item_for_tensor ::
  "metadata_index \<Rightarrow> int list \<Rightarrow> metadata_index \<Rightarrow> int list \<Rightarrow> int list \<Rightarrow> read_item" where
  "create_read_item_for_tensor dest doffs storage soffs lens =
     \<lparr>ri_type = LOAD_TENSOR, dest_index = dest, dest_offsets = doffs, storage_index = storage,
      storage_offsets = soffs, lengths = lens\<rparr>"

definition pair_read_item :: "string \<Rightarrow> chunk \<Rightarrow> nat \<Rightarrow> chunk \<Rightarrow> nat \<Rightarrow> read_item" where
  "pair_read_item name local_chunk local_index saved_chunk saved_index =
     (let region = shards_get_overlap_region_wrt_saved_tensor saved_chunk local_chunk in
      create_read_item_for_tensor
        \<lparr>fqn = name, ix_offset = Some (offsets local_chunk), ix_index = Some (int local_index)\<rparr>
        (map (\<lambda>(d, s, c, l). c) region)
        \<lparr>fqn = name, ix_offset = Some (offsets saved_chunk), ix_index = Some (int saved_index)\<rparr>
        (map (\<lambda>(d, s, c, l). s) region) (map (\<lambda>(d, s, c, l). l) region))"

text \<open>The saved chunks that start before the local chunk ends become active.\<close>

fun admit :: "(int \<times> int) list \<Rightarrow> int \<Rightarrow> (int \<times> int) list \<Rightarrow> nat list \<Rightarrow> (int \<times> int) list \<times> nat list" where
  "admit saved_bounds local_end active [] = (active, [])"
| "admit saved_bounds local_end active (s # rest) =
     (if fst (saved_bounds ! s) \<ge> local_end then (active, s # rest)
      else admit saved_bounds local_end (insort (snd (saved_bounds ! s), int s) active) rest)"

fun emit_items :: "string \<Rightarrow> chunk list \<Rightarrow> chunk \<Rightarrow> nat \<Rightarrow> (int \<times> int) list \<Rightarrow> read_item list result" where
  "emit_items name saved_chunks local_chunk local_index [] = Inr []"
| "emit_items name saved_chunks local_chunk local_index ((e, s) # rest) =
     rbind (check_shard_metadata_pair_overlap local_chunk (saved_chunks ! nat s)) (\<lambda>ov.
     rbind (emit_items name saved_chunks local_chunk local_index rest) (\<lambda>its.
     Inr (if ov then pair_read_item name local_chunk local_index (saved_chunks ! nat s) (nat s) # its else its)))"

fun read_sweep ::
  "string \<Rightarrow> chunk list \<Rightarrow> chunk list \<Rightarrow> (int \<times> int) list \<Rightarrow> (int \<times> int) list \<Rightarrow> (int \<times> int) list \<Rightarrow> nat list \<Rightarrow> nat list \<Rightarrow>
   read_item list result" where
  "read_sweep name locals saved local_bounds saved_bounds active pending [] = Inr []"
| "read_sweep name locals saved local_bounds saved_bounds active pending (l # ls) =
     (let (local_start, local_end) = local_bounds ! l;
          active1 = drop (bisect_right active (local_start, - 1)) active;
          (active2, pending2) = admit saved_bounds local_end active1 pending
      in rbind (emit_items name saved (locals ! l) l active2) (\<lambda>now.
         rbind (read_sweep name locals saved local_bounds saved_bounds active2 pending2 ls) (\<lambda>later.
         Inr (now @ later))))"

definition create_read_items_for_chunk_list :: "string \<Rightarrow> chunk list \<Rightarrow> chunk list \<Rightarrow> read_item list result" where
  "create_read_items_for_chunk_list name saved_chunks local_chunks =
     (if local_chunks = [] \<or> saved_chunks = [] then Inr []
      else let dimensions = length (offsets (hd local_chunks)) in
        rbind (sweep_dimension dimensions local_chunks saved_chunks) (\<lambda>sweep.
        rbind (sweep_bounds dimensions sweep saved_chunks) (\<lambda>saved_bounds.
        rbind (sweep_bounds dimensions sweep local_chunks) (\<lambda>local_bounds.
        read_sweep name local_chunks saved_chunks local_bounds saved_bounds [] (sweep_order saved_bounds) (sweep_order local_bounds)))))"

subsection \<open>The sweep finds exactly the overlapping pairs\<close>

definition chunk_box :: "chunk \<Rightarrow> box" where
  "chunk_box c = zip (offsets c) (sizes c)"

definition rank_chunk :: "nat \<Rightarrow> chunk \<Rightarrow> bool" where
  "rank_chunk n c \<longleftrightarrow> length (offsets c) = n \<and> length (sizes c) = n"

lemma chunk_box_nth [simp]: "rank_chunk n c \<Longrightarrow> d < n \<Longrightarrow> chunk_box c ! d = (offsets c ! d, sizes c ! d)"
  by (simp add: chunk_box_def rank_chunk_def)

lemma length_chunk_box [simp]: "rank_chunk n c \<Longrightarrow> length (chunk_box c) = n"
  by (simp add: chunk_box_def rank_chunk_def)

lemma overlap_loop_ok:
  assumes "rank_chunk n a" and "rank_chunk n b" and "\<forall>d \<in> set ds. 0 \<le> d \<and> d < int n"
  shows "overlap_loop a b ds = Inr (\<forall>d \<in> set ds. offsets a ! nat d < offsets b ! nat d + sizes b ! nat d \<and>
    offsets b ! nat d < offsets a ! nat d + sizes a ! nat d)"
  using assms(3)
proof (induction ds)
  case (Cons d ds)
  have "py_nth (offsets a) d = Inr (offsets a ! nat d)" "py_nth (sizes a) d = Inr (sizes a ! nat d)"
    "py_nth (offsets b) d = Inr (offsets b ! nat d)" "py_nth (sizes b) d = Inr (sizes b ! nat d)"
    using assms Cons.prems by (simp_all add: rank_chunk_def py_nth_nonneg)
  then show ?case using Cons by auto
qed simp

lemma overlap_check_ok:
  assumes "rank_chunk n a" and "rank_chunk n b"
  shows "overlap_loop a b (py_range (int (length (offsets a)))) = Inr (overlaps (chunk_box a) (chunk_box b))"
proof -
  have "(\<forall>d \<in> set (py_range (int n)). P (nat d)) \<longleftrightarrow> (\<forall>d < n. P d)" for P
    by (auto dest: bspec[of _ _ "int d" for d])
  moreover have "length (offsets a) = n" using assms(1) by (simp add: rank_chunk_def)
  ultimately show ?thesis using assms overlap_loop_ok[OF assms, of "py_range (int n)"]
    by (simp add: overlaps_nth)
qed

lemma pair_overlap_ok: "rank_chunk n a \<Longrightarrow> rank_chunk n b \<Longrightarrow>
    check_shard_metadata_pair_overlap a b = Inr (overlaps (chunk_box a) (chunk_box b))"
  unfolding check_shard_metadata_pair_overlap_def by (rule overlap_check_ok)

lemma emit_items_ok:
  assumes "rank_chunk n c" and "\<forall>s \<in> set saved. rank_chunk n s" and "\<forall>(e, s) \<in> set active. 0 \<le> s \<and> nat s < length saved"
  shows "emit_items name saved c l active = Inr (map (\<lambda>s. pair_read_item name c l (saved ! s) s)
    (filter (\<lambda>s. overlaps (chunk_box c) (chunk_box (saved ! s))) (map (nat \<circ> snd) active)))"
  using assms(3)
proof (induction active)
  case (Cons p active)
  obtain e s where p: "p = (e, s)" by (cases p)
  have "rank_chunk n (saved ! nat s)" using Cons.prems assms(2) by (auto simp: p)
  then show ?case using Cons pair_overlap_ok[OF assms(1)] by (simp add: p)
qed simp

lemma bisect_drop:
  assumes "sorted active" and "\<forall>(e, i) \<in> set active. (0::int) \<le> i"
  shows "drop (bisect_right active (start, - 1)) active = filter (\<lambda>(e, i). start \<le> e) active"
  using assms
proof (induction active)
  case (Cons p active)
  obtain e i where p: "p = (e, i)" by (cases p)
  show ?case
  proof (cases "start \<le> e")
    case True
    have "\<forall>(e', i') \<in> set active. start \<le> e'" using Cons.prems True by (fastforce simp: p)
    then have "filter (\<lambda>(e, i). start \<le> e) active = active" by (simp add: filter_id_conv)
    then show ?thesis using True Cons.prems(2) by (auto simp: p bisect_right_def)
  next
    case False
    then show ?thesis using Cons by (auto simp: p bisect_right_def)
  qed
qed (simp add: bisect_right_def)

lemma admit_spec:
  assumes "admit sb stop active pending = (active', pending')" and "sorted active"
    and "sorted (map (\<lambda>s. fst (sb ! s)) pending)"
  shows "sorted active' \<and> (\<exists>taken. pending = taken @ pending' \<and> (\<forall>s \<in> set pending'. stop \<le> fst (sb ! s)) \<and>
    mset active' = mset active + mset (map (\<lambda>s. (snd (sb ! s), int s)) taken))"
  using assms
proof (induction sb stop active pending rule: admit.induct)
  case (2 sb stop active s rest)
  show ?case
  proof (cases "fst (sb ! s) \<ge> stop")
    case True
    then have "active' = active" "pending' = s # rest" using "2.prems"(1) by auto
    moreover have "\<forall>s' \<in> set (s # rest). stop \<le> fst (sb ! s')" using True "2.prems"(3) by auto
    ultimately show ?thesis using "2.prems"(2) by (intro conjI exI[of _ "[]"]) auto
  next
    case False
    then have "sorted active' \<and> (\<exists>taken. rest = taken @ pending' \<and> (\<forall>s \<in> set pending'. stop \<le> fst (sb ! s)) \<and>
        mset active' = mset (insort (snd (sb ! s), int s) active) + mset (map (\<lambda>s. (snd (sb ! s), int s)) taken))"
      using "2.IH"[OF False] "2.prems" by (auto simp: sorted_insort)
    then obtain taken where "sorted active'" "rest = taken @ pending'" "\<forall>s \<in> set pending'. stop \<le> fst (sb ! s)"
        "mset active' = mset (insort (snd (sb ! s), int s) active) + mset (map (\<lambda>s. (snd (sb ! s), int s)) taken)" by blast
    then show ?thesis by (intro conjI exI[of _ "s # taken"]) auto
  qed
qed auto

text \<open>The state of the sweep before the local chunks \<open>ls\<close>: the active saved chunks, those not reached, and
  those that end before every remaining local chunk starts.\<close>

definition sweep_inv :: "(int \<times> int) list \<Rightarrow> (int \<times> int) list \<Rightarrow> (int \<times> int) list \<Rightarrow> nat list \<Rightarrow> nat list \<Rightarrow> bool" where
  "sweep_inv lb sb active pending ls \<longleftrightarrow> sorted active \<and> sorted (map (\<lambda>s. fst (sb ! s)) pending) \<and>
     distinct (map (nat \<circ> snd) active @ pending) \<and>
     (\<forall>(e, i) \<in> set active. 0 \<le> i \<and> nat i < length sb \<and> e = snd (sb ! nat i)) \<and> set pending \<subseteq> {..<length sb} \<and>
     (\<forall>s < length sb. s \<in> set (map (nat \<circ> snd) active) \<union> set pending \<or> (\<forall>l \<in> set ls. snd (sb ! s) < fst (lb ! l)))"

lemma sweep_step:
  assumes inv: "sweep_inv lb sb active pending (l # ls)" and starts: "\<forall>l' \<in> set ls. fst (lb ! l) \<le> fst (lb ! l')"
    and step: "admit sb (snd (lb ! l)) (drop (bisect_right active (fst (lb ! l), - 1)) active) pending = (active', pending')"
  shows "sweep_inv lb sb active' pending' ls \<and>
    (\<forall>s < length sb. fst (lb ! l) < snd (sb ! s) \<longrightarrow> fst (sb ! s) < snd (lb ! l) \<longrightarrow> s \<in> set (map (nat \<circ> snd) active'))"
proof -
  let ?kept = "filter (\<lambda>(e, i). fst (lb ! l) \<le> e) active"
  have a: "sorted active" "\<forall>(e, i) \<in> set active. 0 \<le> i \<and> nat i < length sb \<and> e = snd (sb ! nat i)"
    "sorted (map (\<lambda>s. fst (sb ! s)) pending)" "distinct (map (nat \<circ> snd) active @ pending)" "set pending \<subseteq> {..<length sb}"
    using inv by (auto simp: sweep_inv_def)
  have drop: "drop (bisect_right active (fst (lb ! l), - 1)) active = ?kept" using a(2) by (intro bisect_drop[OF a(1)]) auto
  have "sorted ?kept" using sorted_wrt_filter[OF a(1)] by simp
  then obtain taken where t: "sorted active'" "pending = taken @ pending'" "\<forall>s \<in> set pending'. snd (lb ! l) \<le> fst (sb ! s)"
      "mset active' = mset ?kept + mset (map (\<lambda>s. (snd (sb ! s), int s)) taken)"
    using admit_spec[OF step[unfolded drop] _ a(3)] by blast
  have set_a: "set active' = set ?kept \<union> (\<lambda>s. (snd (sb ! s), int s)) ` set taken"
    using arg_cong[OF t(4), of set_mset] by simp
  have ids: "set (map (nat \<circ> snd) active') = set (map (nat \<circ> snd) ?kept) \<union> set taken"
    unfolding set_map set_a by (force simp: image_Un image_image)
  have "mset (map (nat \<circ> snd) active') = mset (map (nat \<circ> snd) ?kept @ taken)"
    using arg_cong[OF t(4), of "image_mset (nat \<circ> snd)"] by (simp add: comp_def image_mset.compositionality)
  then have "distinct (map (nat \<circ> snd) active' @ pending') \<longleftrightarrow> distinct ((map (nat \<circ> snd) ?kept @ taken) @ pending')"
    by (metis mset_append mset_eq_imp_distinct_iff)
  moreover have "distinct ((map (nat \<circ> snd) ?kept @ taken) @ pending')"
    using a(4) unfolding t(2) by (auto simp: distinct_map_filter)
  ultimately have dist: "distinct (map (nat \<circ> snd) active' @ pending')" by blast
  have place: "s \<in> set (map (nat \<circ> snd) active') \<union> set pending' \<or> snd (sb ! s) < fst (lb ! l)" if s: "s < length sb" for s
  proof -
    consider "s \<in> set (map (nat \<circ> snd) active)" | "s \<in> set pending" | "snd (sb ! s) < fst (lb ! l)"
      using inv s unfolding sweep_inv_def by (meson UnE list.set_intros(1))
    then show ?thesis
    proof cases
      case 1
      then obtain e i where ei: "(e, i) \<in> set active" "s = nat i" by auto
      then have "e = snd (sb ! s)" using a(2) by auto
      then show ?thesis using ei unfolding ids by (cases "fst (lb ! l) \<le> e") force+
    qed (use ids t(2) in auto)
  qed
  have "sweep_inv lb sb active' pending' ls"
    unfolding sweep_inv_def
  proof (intro conjI)
    show "\<forall>(e, i) \<in> set active'. 0 \<le> i \<and> nat i < length sb \<and> e = snd (sb ! nat i)"
      using a(2,5) t(2) unfolding set_a by auto
    show "\<forall>s < length sb. s \<in> set (map (nat \<circ> snd) active') \<union> set pending' \<or> (\<forall>l \<in> set ls. snd (sb ! s) < fst (lb ! l))"
      using place starts by fastforce
  qed (use t dist a in \<open>auto simp: sorted_append\<close>)
  moreover have "s \<in> set (map (nat \<circ> snd) active')"
    if "s < length sb" "fst (lb ! l) < snd (sb ! s)" "fst (sb ! s) < snd (lb ! l)" for s
    using place[OF that(1)] t(3) that by auto
  ultimately show ?thesis by blast
qed

lemma read_sweep_pairs:
  assumes "\<forall>c \<in> set locals. rank_chunk n c" and "\<forall>c \<in> set saved. rank_chunk n c" and "length sb = length saved"
    and "distinct ls \<and> set ls \<subseteq> {..<length locals}" and "sorted (map (\<lambda>l. fst (lb ! l)) ls)" and "sweep_inv lb sb active pending ls"
    and meet: "\<And>l s. l < length locals \<Longrightarrow> s < length saved \<Longrightarrow> overlaps (chunk_box (locals ! l)) (chunk_box (saved ! s)) \<Longrightarrow>
      fst (lb ! l) < snd (sb ! s) \<and> fst (sb ! s) < snd (lb ! l)"
  shows "\<exists>f. read_sweep name locals saved lb sb active pending ls =
      Inr (concat (map (\<lambda>l. map (\<lambda>s. pair_read_item name (locals ! l) l (saved ! s) s) (f l)) ls)) \<and>
    (\<forall>l \<in> set ls. distinct (f l) \<and> set (f l) = {s. s < length saved \<and> overlaps (chunk_box (locals ! l)) (chunk_box (saved ! s))})"
  using assms(4-6)
proof (induction ls arbitrary: active pending)
  case (Cons l ls)
  let ?P = "\<lambda>l s. overlaps (chunk_box (locals ! l)) (chunk_box (saved ! s))"
  let ?item = "\<lambda>l s. pair_read_item name (locals ! l) l (saved ! s) s"
  obtain active' pending' where step: "admit sb (snd (lb ! l)) (drop (bisect_right active (fst (lb ! l), - 1)) active) pending = (active', pending')"
    by (cases "admit sb (snd (lb ! l)) (drop (bisect_right active (fst (lb ! l), - 1)) active) pending")
  have l: "l < length locals" and starts: "\<forall>l' \<in> set ls. fst (lb ! l) \<le> fst (lb ! l')" using Cons.prems by auto
  note next_inv = sweep_step[OF Cons.prems(3) starts step]
  have act: "\<forall>(e, s) \<in> set active'. 0 \<le> s \<and> nat s < length saved" and dist: "distinct (map (nat \<circ> snd) active')"
    using next_inv assms(3) by (auto simp: sweep_inv_def)
  obtain f where f: "read_sweep name locals saved lb sb active' pending' ls = Inr (concat (map (\<lambda>l. map (?item l) (f l)) ls))"
      "\<forall>l \<in> set ls. distinct (f l) \<and> set (f l) = {s. s < length saved \<and> ?P l s}"
    using Cons.IH[of active' pending'] next_inv Cons.prems by auto
  let ?here = "filter (?P l) (map (nat \<circ> snd) active')"
  have "set ?here = {s. s < length saved \<and> ?P l s}"
    using next_inv act meet[OF l] assms(3) by auto
  moreover have "distinct ?here" using dist by (rule distinct_filter)
  moreover have "emit_items name saved (locals ! l) l active' = Inr (map (?item l) ?here)"
    using emit_items_ok[of n "locals ! l" saved active' name l] assms(1,2) l act by simp
  ultimately have here: "set ?here = {s. s < length saved \<and> ?P l s} \<and> distinct ?here"
      "emit_items name saved (locals ! l) l active' = Inr (map (?item l) ?here)" by blast+
  have run: "read_sweep name locals saved lb sb active pending (l # ls) = Inr (map (?item l) ?here @ concat (map (\<lambda>l. map (?item l) (f l)) ls))"
    using step here(2) f(1) by (simp add: split_beta)
  have "l \<notin> set ls" using Cons.prems by simp
  then have same: "map (\<lambda>l'. map (?item l') ((f(l := ?here)) l')) (l # ls) = map (?item l) ?here # map (\<lambda>l'. map (?item l') (f l')) ls"
    by auto
  have "\<forall>l' \<in> set (l # ls). distinct ((f(l := ?here)) l') \<and> set ((f(l := ?here)) l') = {s. s < length saved \<and> ?P l' s}"
    using f(2) here(1) by auto
  moreover have "read_sweep name locals saved lb sb active pending (l # ls) =
      Inr (concat (map (\<lambda>l'. map (?item l') ((f(l := ?here)) l')) (l # ls)))"
    unfolding run same by simp
  ultimately show ?case by blast
qed auto

lemma bounds_ok:
  assumes "\<forall>c \<in> set cs. rank_chunk n c" and "k < n"
  shows "sweep_bounds n k cs = Inr (map (\<lambda>c. (offsets c ! k, offsets c ! k + sizes c ! k)) cs)"
proof -
  have "chunk_bounds (int k) c = Inr (offsets c ! k, offsets c ! k + sizes c ! k)" if "c \<in> set cs" for c
    using assms that by (auto simp: chunk_bounds_def rank_chunk_def py_nth_nonneg)
  then show ?thesis using assms(2) by (simp add: sweep_bounds_def traverse_total)
qed

lemma arg_max_from_less: "best < m \<Longrightarrow> i + length ks \<le> m \<Longrightarrow> arg_max_from best key i ks < m"
  by (induction best key i ks rule: arg_max_from.induct) auto

lemma py_arg_max_less: "keys \<noteq> [] \<Longrightarrow> py_arg_max keys < length keys"
  by (cases keys) (auto simp: py_arg_max_def intro!: arg_max_from_less)

lemma sweep_dimension_ok:
  assumes "\<forall>c \<in> set (locals @ saved). rank_chunk n c" and "0 < n"
  shows "\<exists>k < n. sweep_dimension n locals saved = Inr k"
proof (cases "n > 1")
  case True
  have "chunk_end d c = Inr (offsets c ! nat d + sizes c ! nat d)" if "c \<in> set (locals @ saved)" "0 \<le> d" "d < int n" for c d
    using assms that by (auto simp: chunk_end_def chunk_bounds_def rank_chunk_def py_nth_nonneg)
  then have "max_end (locals @ saved) d = Inr (Max ((\<lambda>c. offsets c ! nat d + sizes c ! nat d) ` set (locals @ saved)))"
    if "0 \<le> d" "d < int n" for d
    using that traverse_total[of "locals @ saved" "chunk_end d" "\<lambda>c. offsets c ! nat d + sizes c ! nat d"]
    by (simp add: max_end_def image_Un)
  then have "traverse (max_end (locals @ saved)) (py_range (int n)) =
      Inr (map (\<lambda>d. Max ((\<lambda>c. offsets c ! nat d + sizes c ! nat d) ` set (locals @ saved))) (py_range (int n)))"
    by (intro traverse_total) simp
  moreover have "py_range (int n) \<noteq> []" using assms(2) by (simp add: py_range_def)
  ultimately show ?thesis using True py_arg_max_less[of "map f (py_range (int n))" for f]
    by (auto simp: sweep_dimension_def)
qed (use assms(2) in \<open>auto simp: sweep_dimension_def\<close>)

lemma sweep_order_props:
  "distinct (sweep_order b)" "set (sweep_order b) = {..<length b}" "sorted (map (\<lambda>i. fst (b ! i)) (sweep_order b))"
  by (auto simp: sweep_order_def)

text \<open>For chunks of one rank, \<open>create_read_items_for_chunk_list\<close>, which sweeps over one dimension with
  a sorted list of active chunks, returns the read items of exactly the overlapping pairs of a local and
  a saved chunk, each pair once.\<close>

lemma read_items_all_overlaps:
  assumes "\<forall>c \<in> set locals. rank_chunk n c" and "\<forall>c \<in> set saved. rank_chunk n c"
  shows "\<exists>its f ls. create_read_items_for_chunk_list name saved locals = Inr its \<and>
    its = concat (map (\<lambda>l. map (\<lambda>s. pair_read_item name (locals ! l) l (saved ! s) s) (f l)) ls) \<and>
    distinct ls \<and> set ls = {..<length locals} \<and>
    (\<forall>l < length locals. distinct (f l) \<and>
      set (f l) = {s. s < length saved \<and> overlaps (chunk_box (locals ! l)) (chunk_box (saved ! s))})"
proof (cases "locals = [] \<or> saved = []")
  case True
  then show ?thesis
    by (intro exI[of _ "[]"] exI[of _ "\<lambda>_. []"] exI[of _ "[0..<length locals]"])
       (auto simp: create_read_items_for_chunk_list_def)
next
  case False
  then have hd: "length (offsets (hd locals)) = n" using assms(1) by (cases locals) (auto simp: rank_chunk_def)
  have "\<exists>k lb sb. sweep_dimension n locals saved = Inr k \<and> sweep_bounds n k saved = Inr sb \<and> sweep_bounds n k locals = Inr lb \<and>
      length lb = length locals \<and> length sb = length saved \<and>
      (\<forall>l s. l < length locals \<longrightarrow> s < length saved \<longrightarrow> overlaps (chunk_box (locals ! l)) (chunk_box (saved ! s)) \<longrightarrow>
        fst (lb ! l) < snd (sb ! s) \<and> fst (sb ! s) < snd (lb ! l))"
  proof (cases "n = 0")
    case True
    then show ?thesis by (simp add: sweep_dimension_def sweep_bounds_def)
  next
    case False
    then obtain k where k: "k < n" "sweep_dimension n locals saved = Inr k" using sweep_dimension_ok[of locals saved n] assms by auto
    have "offsets (locals ! l) ! k < offsets (saved ! s) ! k + sizes (saved ! s) ! k \<and>
        offsets (saved ! s) ! k < offsets (locals ! l) ! k + sizes (locals ! l) ! k"
      if "l < length locals" "s < length saved" "overlaps (chunk_box (locals ! l)) (chunk_box (saved ! s))" for l s
    proof -
      have "rank_chunk n (locals ! l)" "rank_chunk n (saved ! s)" using assms that by auto
      then show ?thesis using overlaps_nth[of "chunk_box (locals ! l)" "chunk_box (saved ! s)"] that(3) k(1) by auto
    qed
    then show ?thesis using bounds_ok[OF assms(1) k(1)] bounds_ok[OF assms(2) k(1)] k(2) by auto
  qed
  then obtain k lb sb where k: "sweep_dimension n locals saved = Inr k" "sweep_bounds n k saved = Inr sb" "sweep_bounds n k locals = Inr lb"
      "length lb = length locals" "length sb = length saved"
      "\<And>l s. l < length locals \<Longrightarrow> s < length saved \<Longrightarrow> overlaps (chunk_box (locals ! l)) (chunk_box (saved ! s)) \<Longrightarrow>
        fst (lb ! l) < snd (sb ! s) \<and> fst (sb ! s) < snd (lb ! l)" by blast
  have "sweep_inv lb sb [] (sweep_order sb) (sweep_order lb)" by (simp add: sweep_inv_def sweep_order_props)
  from read_sweep_pairs[OF assms k(5) _ _ this k(6), of name] obtain f where
    "read_sweep name locals saved lb sb [] (sweep_order sb) (sweep_order lb) =
      Inr (concat (map (\<lambda>l. map (\<lambda>s. pair_read_item name (locals ! l) l (saved ! s) s) (f l)) (sweep_order lb)))"
    "\<forall>l \<in> set (sweep_order lb). distinct (f l) \<and>
      set (f l) = {s. s < length saved \<and> overlaps (chunk_box (locals ! l)) (chunk_box (saved ! s))}"
    using sweep_order_props[of lb] k(4) by auto
  moreover have "create_read_items_for_chunk_list name saved locals = read_sweep name locals saved lb sb [] (sweep_order sb) (sweep_order lb)"
    using False k(1-3) hd by (simp add: create_read_items_for_chunk_list_def Let_def)
  ultimately show ?thesis using sweep_order_props(1,2)[of lb] k(4) by auto
qed

subsection \<open>Every element is read once, from where it was saved\<close>

text \<open>The position of a cell inside a chunk, and what a read item copies: the element of the saved chunk at
  position \<open>z\<close> to position \<open>y\<close> of the local chunk.\<close>

definition rel :: "chunk \<Rightarrow> int list \<Rightarrow> int list" where
  "rel c x = map2 (-) x (offsets c)"

definition reads :: "read_item \<Rightarrow> int list \<Rightarrow> int list \<Rightarrow> bool" where
  "reads it y z \<longleftrightarrow> (\<exists>t. list_all2 (\<lambda>k n. 0 \<le> k \<and> k < n) t (lengths it) \<and>
     y = map2 (+) (dest_offsets it) t \<and> z = map2 (+) (storage_offsets it) t)"

lemma pair_read_item_sel:
  assumes "rank_chunk n c" and "rank_chunk n s"
  shows "length (lengths (pair_read_item name c l s j)) = n" "length (dest_offsets (pair_read_item name c l s j)) = n"
    "length (storage_offsets (pair_read_item name c l s j)) = n"
    "\<And>i. i < n \<Longrightarrow> lengths (pair_read_item name c l s j) ! i =
       min (offsets s ! i + sizes s ! i) (offsets c ! i + sizes c ! i) - max (offsets c ! i) (offsets s ! i)"
    "\<And>i. i < n \<Longrightarrow> dest_offsets (pair_read_item name c l s j) ! i = max (offsets c ! i) (offsets s ! i) - offsets c ! i"
    "\<And>i. i < n \<Longrightarrow> storage_offsets (pair_read_item name c l s j) ! i = max (offsets c ! i) (offsets s ! i) - offsets s ! i"
  using assms
  by (auto simp: pair_read_item_def Let_def create_read_item_for_tensor_def shards_get_overlap_region_wrt_saved_tensor_def
      rank_chunk_def overlap_narrow_def nth_enumerate_eq)

lemma pair_reads:
  assumes c: "rank_chunk n c" and s: "rank_chunk n s"
  shows "reads (pair_read_item name c l s j) y z \<longleftrightarrow>
    (\<exists>x. x \<in> cells (chunk_box c) \<and> x \<in> cells (chunk_box s) \<and> y = rel c x \<and> z = rel s x)"
proof
  let ?it = "pair_read_item name c l s j" and ?m = "\<lambda>i. max (offsets c ! i) (offsets s ! i)"
  note sel = pair_read_item_sel[OF c s, where name = name and l = l and j = j]
  have len: "length (offsets c) = n" "length (offsets s) = n" using c s by (auto simp: rank_chunk_def)
  {
    assume "reads ?it y z"
    then obtain t where t: "length t = n" "\<And>i. i < n \<Longrightarrow> 0 \<le> t ! i \<and> t ! i < lengths ?it ! i"
      "y = map2 (+) (dest_offsets ?it) t" "z = map2 (+) (storage_offsets ?it) t"
      using sel(1) unfolding reads_def list_all2_conv_all_nth by auto
    let ?x = "map (\<lambda>i. ?m i + t ! i) [0..<n]"
    have "?x \<in> cells (chunk_box c)" "?x \<in> cells (chunk_box s)"
      using t(2) sel(4) c s by (fastforce simp: cells_nth)+
    moreover have "y = rel c ?x" "z = rel s ?x"
      using t(1,3,4) sel(2,3,5,6) len by (auto simp: rel_def intro!: nth_equalityI)
    ultimately show "\<exists>x. x \<in> cells (chunk_box c) \<and> x \<in> cells (chunk_box s) \<and> y = rel c x \<and> z = rel s x" by blast
  }
  {
    assume "\<exists>x. x \<in> cells (chunk_box c) \<and> x \<in> cells (chunk_box s) \<and> y = rel c x \<and> z = rel s x"
    then obtain x where x: "x \<in> cells (chunk_box c)" "x \<in> cells (chunk_box s)" "y = rel c x" "z = rel s x" by blast
    have xl: "length x = n" using cells_length[OF x(1)] c by simp
    let ?t = "map (\<lambda>i. x ! i - ?m i) [0..<n]"
    have b: "offsets c ! i \<le> x ! i \<and> x ! i < offsets c ! i + sizes c ! i \<and> offsets s ! i \<le> x ! i \<and> x ! i < offsets s ! i + sizes s ! i"
      if "i < n" for i
      using x(1,2) c s that unfolding cells_nth by auto
    have "list_all2 (\<lambda>k m. 0 \<le> k \<and> k < m) ?t (lengths ?it)"
      using b sel(1,4) unfolding list_all2_conv_all_nth by fastforce
    moreover have "y = map2 (+) (dest_offsets ?it) ?t" "z = map2 (+) (storage_offsets ?it) ?t"
      using x(3,4) xl sel(2,3,5,6) len by (auto simp: rel_def intro!: nth_equalityI)
    ultimately show "reads ?it y z" unfolding reads_def by blast
  }
qed

lemma rel_inject:
  assumes "length x = n" and "length x' = n" and "length (offsets c) = n" and "rel c x = rel c x'"
  shows "x = x'"
proof (rule nth_equalityI)
  fix i assume i: "i < length x"
  have "rel c x ! i = rel c x' ! i" by (simp only: assms(4))
  then show "x ! i = x' ! i" using assms(1-3) i by (simp add: rel_def)
qed (simp add: assms)

lemma distinct_concat_pairs:
  "distinct ls \<Longrightarrow> \<forall>l \<in> set ls. distinct (f l) \<Longrightarrow> distinct (concat (map (\<lambda>l. map (Pair l) (f l)) ls))"
  by (induction ls) (auto simp: distinct_map inj_on_def)

lemma pair_reads_cell:
  assumes "rank_chunk n c" and "rank_chunk n s" and "x \<in> cells (chunk_box c)"
  shows "reads (pair_read_item name c l s j) (rel c x) z \<longleftrightarrow> x \<in> cells (chunk_box s) \<and> z = rel s x"
proof -
  have "x' = x" if "x' \<in> cells (chunk_box c)" "rel c x = rel c x'" for x'
    using rel_inject[of x n x' c] cells_length[OF assms(3)] cells_length[OF that(1)] that(2) assms(1)
    by (simp add: rank_chunk_def)
  then show ?thesis unfolding pair_reads[OF assms(1,2)] using assms(3) by blast
qed

lemma pair_item_index: "ix_index (dest_index (pair_read_item name c l s j)) = Some (int l)"
  "ix_index (storage_index (pair_read_item name c l s j)) = Some (int j)"
  by (simp_all add: pair_read_item_def Let_def create_read_item_for_tensor_def)

lemma tiles_at:
  assumes "tiles shape (map f cs)" and "x \<in> cells (whole shape)"
  obtains i where "i < length cs" and "x \<in> cells (f (cs ! i))"
    and "\<And>j. j < length cs \<Longrightarrow> x \<in> cells (f (cs ! j)) \<Longrightarrow> j = i"
proof -
  have "\<exists>!i. i < length (map f cs) \<and> x \<in> cells (map f cs ! i)" using assms unfolding tiles_def by blast
  then obtain i where i: "i < length (map f cs)" "x \<in> cells (map f cs ! i)"
    and only: "\<And>j. j < length (map f cs) \<and> x \<in> cells (map f cs ! j) \<Longrightarrow> j = i" by blast
  show thesis using i only by (intro that[of i]) auto
qed

lemma pair_item_inj: "pair_read_item name c l s j = pair_read_item name c' l' s' j' \<Longrightarrow> l = l' \<and> j = j'"
  using pair_item_index by (metis of_nat_eq_iff option.inject)

lemma pair_items_distinct:
  assumes "distinct ls" and "\<forall>l \<in> set ls. distinct (f l)"
  shows "distinct (concat (map (\<lambda>l. map (\<lambda>s. pair_read_item name (c l) l (d s) s) (f l)) ls))"
proof -
  have eq: "concat (map (\<lambda>l. map (\<lambda>s. pair_read_item name (c l) l (d s) s) (f l)) ls) =
      map (\<lambda>(l, s). pair_read_item name (c l) l (d s) s) (concat (map (\<lambda>l. map (Pair l) (f l)) ls))"
    by (simp add: map_concat comp_def)
  have "inj (\<lambda>(l, s). pair_read_item name (c l) l (d s) s)" by (auto simp: inj_on_def dest: pair_item_inj)
  then show ?thesis unfolding eq distinct_map using distinct_concat_pairs[OF assms] inj_on_subset by blast
qed

text \<open>The read items never repeat, and for every element of every local chunk exactly one of them writes it,
  copying it from the position of that element in the saved chunk that has it.\<close>

definition loads_every_cell :: "string \<Rightarrow> chunk list \<Rightarrow> chunk list \<Rightarrow> read_item list \<Rightarrow> bool" where
  "loads_every_cell name saved locals its \<longleftrightarrow> distinct its \<and>
     (\<forall>l < length locals. \<forall>x \<in> cells (chunk_box (locals ! l)). \<exists>s < length saved. x \<in> cells (chunk_box (saved ! s)) \<and>
       pair_read_item name (locals ! l) l (saved ! s) s \<in> set its \<and>
       (\<forall>it \<in> set its. \<forall>z. ix_index (dest_index it) = Some (int l) \<and> reads it (rel (locals ! l) x) z \<longleftrightarrow>
         it = pair_read_item name (locals ! l) l (saved ! s) s \<and> z = rel (saved ! s) x))"

text \<open>Resharding: when the saved chunks tile the tensor and the local chunks lie within it, a load reads
  every element of the local chunks once.\<close>

lemma load_reads_every_cell_once:
  assumes "tiles shape (map chunk_box saved)" and "\<forall>c \<in> set saved. rank_chunk (length shape) c"
    and "\<forall>c \<in> set locals. rank_chunk (length shape) c \<and> within shape (chunk_box c)"
  shows "\<exists>its. create_read_items_for_chunk_list name saved locals = Inr its \<and> loads_every_cell name saved locals its"
proof -
  let ?n = "length shape" and ?item = "\<lambda>l s. pair_read_item name (locals ! l) l (saved ! s) s"
  have rl: "\<forall>c \<in> set locals. rank_chunk ?n c" using assms(3) by blast
  obtain its f ls where r: "create_read_items_for_chunk_list name saved locals = Inr its"
    "its = concat (map (\<lambda>l. map (?item l) (f l)) ls)" "distinct ls" "set ls = {..<length locals}"
    "\<forall>l < length locals. distinct (f l) \<and> set (f l) = {s. s < length saved \<and> overlaps (chunk_box (locals ! l)) (chunk_box (saved ! s))}"
    using read_items_all_overlaps[OF rl assms(2), of name] by blast
  have its: "set its = {?item l s | l s. l < length locals \<and> s < length saved \<and> overlaps (chunk_box (locals ! l)) (chunk_box (saved ! s))}"
    using r(2,4,5) by fastforce
  have dist: "distinct its" unfolding r(2) using r(3-5) by (intro pair_items_distinct) auto
  have "\<exists>s < length saved. x \<in> cells (chunk_box (saved ! s)) \<and> ?item l s \<in> set its \<and>
      (\<forall>it \<in> set its. \<forall>z. ix_index (dest_index it) = Some (int l) \<and> reads it (rel (locals ! l) x) z \<longleftrightarrow>
        it = ?item l s \<and> z = rel (saved ! s) x)"
    if l: "l < length locals" and x: "x \<in> cells (chunk_box (locals ! l))" for l x
  proof -
    have c: "rank_chunk ?n (locals ! l)" "within shape (chunk_box (locals ! l))" using assms(3) l by auto
    have inw: "x \<in> cells (whole shape)" using within_cells[OF c(2)] x by blast
    obtain s where s: "s < length saved" "x \<in> cells (chunk_box (saved ! s))"
      and only: "\<And>s'. s' < length saved \<Longrightarrow> x \<in> cells (chunk_box (saved ! s')) \<Longrightarrow> s' = s"
      using tiles_at[OF assms(1) inw] by blast
    have mem: "?item l s \<in> set its" unfolding its using l s cells_meet_overlaps[OF x s(2)] by blast
    have "reads (?item l s') (rel (locals ! l) x) z \<longleftrightarrow> s' = s \<and> z = rel (saved ! s) x" if "s' < length saved" for s' z
      using pair_reads_cell[OF c(1) _ x, of "saved ! s'"] assms(2) that only[OF that] s by auto
    then show ?thesis using s mem l unfolding its by (intro exI[of _ s]) (auto simp: pair_item_index dest!: pair_item_inj)
  qed
  then show ?thesis unfolding loads_every_cell_def using r(1) dist by blast
qed

end
