(* ===== verification/CheckpointSave.thy ===== *)
theory CheckpointSave
  imports CheckpointPlan "HOL-Library.List_Lexorder"
begin

text \<open>
  The save side of distributed checkpoints, \<^verbatim>\<open>src/tensorplay/distributed/checkpoint\<close>: deduplication of the items of
  several ranks (\<^verbatim>\<open>_dedup_save_plans.py\<close>, \<^verbatim>\<open>_dedup_tensors.py\<close>), the global plan and its metadata
  (\<^verbatim>\<open>planner_helpers.py\<close>), the validation of the metadata and the plan cache of \<open>DefaultSavePlanner\<close>
  (\<^verbatim>\<open>default_planner.py\<close>). The order in which Python iterates a set is the parameter \<open>iter\<close>, the element
  size of a dtype the parameter \<open>itemsize\<close>. Log messages are left out; a validation error keeps its kind
  and arguments.
\<close>

subsection \<open>Deduplication\<close>

abbreviation item_key :: "'d write_item \<Rightarrow> item_key" where
  "item_key w \<equiv> index_key (wi_index w)"

text \<open>The two dictionaries of \<open>dedup_save_plans\<close>: the plans that list an index, and the last item with it.\<close>

record 'd dedup_state =
  to_plans :: "(item_key \<times> nat set) list"
  by_index :: "(item_key \<times> 'd write_item) list"

definition note_item :: "nat \<Rightarrow> 'd write_item \<Rightarrow> 'd dedup_state \<Rightarrow> 'd dedup_state" where
  "note_item p w s =
     \<lparr>to_plans = AList.update (item_key w)
        (insert p (case map_of (to_plans s) (item_key w) of None \<Rightarrow> {} | Some ps \<Rightarrow> ps)) (to_plans s),
      by_index = AList.update (item_key w) w (by_index s)\<rparr>"

definition note_plan :: "nat \<times> ('d, 'm) save_plan \<Rightarrow> 'd dedup_state \<Rightarrow> 'd dedup_state" where
  "note_plan e s = (case e of (p, plan) \<Rightarrow> fold (note_item p) (items plan) s)"

definition note_plans :: "('d, 'm) save_plan list \<Rightarrow> 'd dedup_state" where
  "note_plans all_plans = fold note_plan (enumerate 0 all_plans) \<lparr>to_plans = [], by_index = []\<rparr>"

text \<open>Python's \<open>min\<close> with a key: the first element with the least key.\<close>

fun min_by :: "('a \<Rightarrow> int) \<Rightarrow> 'a \<Rightarrow> 'a list \<Rightarrow> 'a" where
  "min_by key best [] = best"
| "min_by key best (x # xs) = (if key x < key best then min_by key x xs else min_by key best xs)"

definition select_plan :: "(nat set \<Rightarrow> nat list) \<Rightarrow> bool \<Rightarrow> int list \<Rightarrow> nat set \<Rightarrow> nat" where
  "select_plan iter save_to_lowest_rank plan_to_size plans =
     (if save_to_lowest_rank then Min plans
      else case iter plans of [] \<Rightarrow> 0 | p # ps \<Rightarrow> min_by ((!) plan_to_size) p ps)"

definition item_cost :: "('d \<Rightarrow> int) \<Rightarrow> 'd write_item \<Rightarrow> int" where
  "item_cost itemsize w = (case tensor_storage_size itemsize w of None \<Rightarrow> 1 | Some n \<Rightarrow> if n = 0 then 1 else n)"

text \<open>One index: its plan is selected, the other plans that list it discard it.\<close>

definition dedup_step ::
  "('d \<Rightarrow> int) \<Rightarrow> (nat set \<Rightarrow> nat list) \<Rightarrow> bool \<Rightarrow> (item_key \<times> 'd write_item) list \<Rightarrow> item_key \<times> nat set \<Rightarrow>
   int list \<times> item_key set list \<Rightarrow> int list \<times> item_key set list" where
  "dedup_step itemsize iter save_to_lowest_rank write_items e s = (case e of (k, plans) \<Rightarrow> case s of (plan_to_size, keep) \<Rightarrow>
     let p = select_plan iter save_to_lowest_rank plan_to_size plans in
     (plan_to_size[p := plan_to_size ! p + item_cost itemsize (the (map_of write_items k))],
      map (\<lambda>(q, ks). if q \<in> plans - {p} then ks - {k} else ks) (enumerate 0 keep)))"

definition dedup_save_plans ::
  "('d \<Rightarrow> int) \<Rightarrow> (nat set \<Rightarrow> nat list) \<Rightarrow> ('d, 'm) save_plan list \<Rightarrow> bool \<Rightarrow> ('d, 'm) save_plan list" where
  "dedup_save_plans itemsize iter all_plans save_to_lowest_rank =
     (let noted = note_plans all_plans;
          (_, keep) = fold (dedup_step itemsize iter save_to_lowest_rank (by_index noted)) (to_plans noted)
            (replicate (length all_plans) 0, map (\<lambda>plan. item_key ` set (items plan)) all_plans)
      in map2 (\<lambda>plan ks. plan\<lparr>items := filter (\<lambda>w. item_key w \<in> ks) (items plan)\<rparr>) all_plans keep)"

text \<open>\<open>dedup_tensors\<close>: the plans of an index with repetitions; all but the first drop it.\<close>

definition note_key :: "nat \<Rightarrow> 'd write_item \<Rightarrow> (item_key \<times> nat list) list \<Rightarrow> (item_key \<times> nat list) list" where
  "note_key p w d = AList.update (item_key w) ((case map_of d (item_key w) of None \<Rightarrow> [] | Some ps \<Rightarrow> ps) @ [p]) d"

definition key_to_plans :: "('d, 'm) save_plan list \<Rightarrow> (item_key \<times> nat list) list" where
  "key_to_plans all_plans = fold (\<lambda>(p, plan). fold (note_key p) (items plan)) (enumerate 0 all_plans) []"

definition removed_keys :: "(item_key \<times> nat list) list \<Rightarrow> nat \<Rightarrow> item_key set" where
  "removed_keys d p = fst ` set (filter (\<lambda>(k, ps). p \<in> set (tl ps)) d)"

definition dedup_tensors :: "('d, 'm) save_plan list \<Rightarrow> ('d, 'm) save_plan list" where
  "dedup_tensors all_plans =
     map (\<lambda>(p, plan). plan\<lparr>items := filter (\<lambda>w. item_key w \<notin> removed_keys (key_to_plans all_plans) p) (items plan)\<rparr>)
       (enumerate 0 all_plans)"

subsection \<open>The global plan\<close>

definition with_hint :: "'d write_item \<Rightarrow> nat \<Rightarrow> 'd write_item" where
  "with_hint w n = w\<lparr>wi_index := (wi_index w)\<lparr>ix_index := Some (int n)\<rparr>\<rparr>"

definition global_item ::
  "bool \<Rightarrow> (string \<times> 'd storage_type) list \<Rightarrow> 'd write_item \<Rightarrow> ((string \<times> 'd storage_type) list \<times> 'd write_item) result" where
  "global_item rewrite_index_hints md w =
     (let name = fqn (wi_index w); entry = map_of md name in
      if wi_type w \<noteq> SHARD \<and> entry \<noteq> None then Inl AssertionError
      else if wi_type w = BYTE_IO then Inr (AList.update name BytesStorage md, w)
      else case wi_tensor w of
        None \<Rightarrow> Inl AssertionError
      | Some td \<Rightarrow>
          (case entry of
             Some BytesStorage \<Rightarrow> Inl AssertionError
           | Some (TensorStorage t) \<Rightarrow>
               Inr (AList.update name (TensorStorage (t\<lparr>ts_chunks := ts_chunks t @ [tw_chunk td]\<rparr>)) md,
                    if rewrite_index_hints then with_hint w (length (ts_chunks t)) else w)
           | None \<Rightarrow>
               Inr (AList.update name
                      (TensorStorage \<lparr>ts_properties = tw_properties td, ts_size = tw_size td, ts_chunks = [tw_chunk td]\<rparr>) md,
                    if rewrite_index_hints then with_hint w 0 else w)))"

fun global_items ::
  "bool \<Rightarrow> (string \<times> 'd storage_type) list \<Rightarrow> 'd write_item list \<Rightarrow> ((string \<times> 'd storage_type) list \<times> 'd write_item list) result" where
  "global_items hints md [] = Inr (md, [])"
| "global_items hints md (w # ws) =
     rbind (global_item hints md w) (\<lambda>(md1, w1). rbind (global_items hints md1 ws) (\<lambda>(md2, ws2). Inr (md2, w1 # ws2)))"

fun global_plans ::
  "bool \<Rightarrow> (string \<times> 'd storage_type) list \<Rightarrow> ('d, 'm) save_plan list \<Rightarrow>
   ((string \<times> 'd storage_type) list \<times> ('d, 'm) save_plan list) result" where
  "global_plans hints md [] = Inr (md, [])"
| "global_plans hints md (p # ps) =
     rbind (global_items hints md (items p)) (\<lambda>(md1, ws). rbind (global_plans hints md1 ps) (\<lambda>(md2, ps2).
     Inr (md2, p\<lparr>items := ws\<rparr> # ps2)))"

definition create_default_global_save_plan ::
  "('d, 'm) save_plan list \<Rightarrow> bool \<Rightarrow> (('d, 'm) save_plan list \<times> ('d, 'm) plan_metadata) result" where
  "create_default_global_save_plan all_plans rewrite_index_hints =
     rbind (global_plans rewrite_index_hints [] all_plans) (\<lambda>(md, ps).
     Inr (ps, \<lparr>state_dict_metadata = md, md_planner_data = None\<rparr>))"

subsection \<open>Validation\<close>

datatype plan_error =
    OutOfBounds string "int list" chunk
  | OverlappingChunks string chunk chunk
  | InvalidFill string int int

fun bounds_errors :: "string \<Rightarrow> int list \<Rightarrow> chunk list \<Rightarrow> (plan_error list \<times> int) result" where
  "bounds_errors key shape [] = Inr ([], 0)"
| "bounds_errors key shape (c # cs) =
     rbind (check_box_bounds shape c) (\<lambda>ok. rbind (bounds_errors key shape cs) (\<lambda>(errors, vol).
     Inr ((if ok then errors else OutOfBounds key shape c # errors), prod_list (sizes c) + vol)))"

definition sort_keys :: "nat \<Rightarrow> nat \<Rightarrow> chunk list \<Rightarrow> int list list result" where
  "sort_keys dimensions sweep chunks =
     traverse (\<lambda>c. rbind (py_nth (offsets c) (int sweep)) (\<lambda>first.
       rbind (traverse (py_nth (offsets c)) (py_range (int dimensions))) (\<lambda>rest. Inr (first # rest)))) chunks"

fun overlap_errors :: "string \<Rightarrow> chunk list \<Rightarrow> chunk \<Rightarrow> (int \<times> int) list \<Rightarrow> plan_error list result" where
  "overlap_errors key chunks current [] = Inr []"
| "overlap_errors key chunks current ((e, other) # rest) =
     rbind (check_box_overlap current (chunks ! nat other)) (\<lambda>ov.
     rbind (overlap_errors key chunks current rest) (\<lambda>errors.
     Inr (if ov then OverlappingChunks key current (chunks ! nat other) # errors else errors)))"

definition sys_maxsize :: int where
  "sys_maxsize = 2 ^ 63 - 1"

fun validate_sweep :: "string \<Rightarrow> chunk list \<Rightarrow> nat \<Rightarrow> (int \<times> int) list \<Rightarrow> nat list \<Rightarrow> plan_error list result" where
  "validate_sweep key chunks sweep active [] = Inr []"
| "validate_sweep key chunks sweep active (i # order) =
     rbind (chunk_bounds (int sweep) (chunks ! i)) (\<lambda>(start, stop).
     let active1 = drop (bisect_right active (start, sys_maxsize)) active in
     rbind (overlap_errors key chunks (chunks ! i) active1) (\<lambda>now.
     rbind (validate_sweep key chunks sweep (insort (stop, int i) active1) order) (\<lambda>later.
     Inr (now @ later))))"

definition validate_overlaps :: "string \<Rightarrow> int list \<Rightarrow> chunk list \<Rightarrow> plan_error list result" where
  "validate_overlaps key shape chunks =
     (if length chunks > 1
      then rbind (sort_keys (length shape) (py_arg_max shape) chunks) (\<lambda>keys.
           validate_sweep key chunks (py_arg_max shape) [] (sort_key (\<lambda>i. keys ! i) [0..<length chunks]))
      else Inr [])"

definition validate_tensor :: "nat \<Rightarrow> string \<Rightarrow> 'd tensor_storage_metadata \<Rightarrow> plan_error list result" where
  "validate_tensor plans key t =
     (if ts_size t = [] then Inr []
      else rbind (bounds_errors key (ts_size t) (ts_chunks t)) (\<lambda>(out, vol).
           rbind (validate_overlaps key (ts_size t) (ts_chunks t)) (\<lambda>over.
           Inr (out @ over @ (if plans > 1 \<and> vol \<noteq> prod_list (ts_size t) then [InvalidFill key (prod_list (ts_size t)) vol] else [])))))"

definition validate_entry :: "nat \<Rightarrow> string \<times> 'd storage_type \<Rightarrow> plan_error list result" where
  "validate_entry plans e = (case e of (key, BytesStorage) \<Rightarrow> Inr [] | (key, TensorStorage t) \<Rightarrow> validate_tensor plans key t)"

definition validate_global_plan :: "('d, 'm) save_plan list \<Rightarrow> ('d, 'm) plan_metadata \<Rightarrow> plan_error list result" where
  "validate_global_plan global_plan metadata =
     rbind (traverse (validate_entry (length global_plan)) (state_dict_metadata metadata)) (\<lambda>errors. Inr (concat errors))"

text \<open>\<open>dict(ChainMap(*maps))\<close>: the first map with a key wins; a plan without planner data raises.\<close>

fun chain_maps :: "(string \<rightharpoonup> 'm) option list \<Rightarrow> (string \<rightharpoonup> 'm) result" where
  "chain_maps [] = Inr Map.empty"
| "chain_maps (None # ms) = Inl TypeError"
| "chain_maps (Some m # ms) = rbind (chain_maps ms) (\<lambda>rest. Inr (rest ++ m))"

record save_planner =
  pl_flatten_state_dict :: bool
  dedup_save_to_lowest_rank :: bool
  enable_plan_caching :: bool
  cached_plans_key :: string

definition create_global_plan_uncached ::
  "('d \<Rightarrow> int) \<Rightarrow> (nat set \<Rightarrow> nat list) \<Rightarrow> save_planner \<Rightarrow> ('d, 'm) save_plan list \<Rightarrow>
   (('d, 'm) save_plan list \<times> ('d, 'm) plan_metadata) result" where
  "create_global_plan_uncached itemsize iter self all_plans =
     rbind (create_default_global_save_plan (dedup_save_plans itemsize iter all_plans (dedup_save_to_lowest_rank self)) True)
       (\<lambda>(global_plan, metadata).
     rbind (if pl_flatten_state_dict self
            then rbind (chain_maps (map planner_data global_plan)) (\<lambda>d. Inr (metadata\<lparr>md_planner_data := Some d\<rparr>))
            else Inr metadata) (\<lambda>metadata.
     rbind (validate_global_plan global_plan metadata) (\<lambda>errors.
     if errors = [] then Inr (global_plan, metadata) else Inl ValueError)))"

subsection \<open>Deduplication keeps each index in one plan\<close>

definition lists_key :: "('d, 'm) save_plan list \<Rightarrow> nat \<Rightarrow> item_key \<Rightarrow> bool" where
  "lists_key plans p k \<longleftrightarrow> p < length plans \<and> k \<in> item_key ` set (items (plans ! p))"

text \<open>The dictionary of plan sets represents the function \<open>X\<close>.\<close>

definition plans_noted :: "'d dedup_state \<Rightarrow> (item_key \<Rightarrow> nat set) \<Rightarrow> bool" where
  "plans_noted s X \<longleftrightarrow> distinct (map fst (to_plans s)) \<and> map_of (to_plans s) = (\<lambda>k. if X k = {} then None else Some (X k))"

lemma note_item_noted: "plans_noted s X \<Longrightarrow> plans_noted (note_item p w s) (X(item_key w := insert p (X (item_key w))))"
  unfolding plans_noted_def note_item_def
  by (cases "X (item_key w) = {}") (auto simp del: split_paired_All simp: update_conv' distinct_update fun_upd_def)

lemma note_items_noted:
  "plans_noted s X \<Longrightarrow> plans_noted (fold (note_item p) ws s) (\<lambda>k. if k \<in> item_key ` set ws then insert p (X k) else X k)"
proof (induction ws arbitrary: s X)
  case (Cons w ws)
  have "(\<lambda>k. if k \<in> item_key ` set (w # ws) then insert p (X k) else X k) =
      (\<lambda>k. if k \<in> item_key ` set ws then insert p ((X(item_key w := insert p (X (item_key w)))) k)
           else (X(item_key w := insert p (X (item_key w)))) k)"
    by (auto simp: fun_eq_iff)
  then show ?case using Cons.IH[OF note_item_noted[OF Cons.prems]] by simp
qed simp

lemma note_plan_fold_noted:
  "plans_noted s X \<Longrightarrow> plans_noted (fold note_plan (enumerate n plans) s)
     (\<lambda>k. X k \<union> {p. n \<le> p \<and> p < n + length plans \<and> k \<in> item_key ` set (items (plans ! (p - n)))})"
proof (induction plans arbitrary: n s X)
  case (Cons plan plans)
  let ?X = "\<lambda>k. if k \<in> item_key ` set (items plan) then insert n (X k) else X k"
  have "{p. n \<le> p \<and> p < n + length (plan # plans) \<and> k \<in> item_key ` set (items ((plan # plans) ! (p - n)))} =
      {p. Suc n \<le> p \<and> p < Suc n + length plans \<and> k \<in> item_key ` set (items (plans ! (p - Suc n)))} \<union>
      (if k \<in> item_key ` set (items plan) then {n} else {})" for k
    by (auto simp: nth_Cons' Suc_le_eq split: if_splits)
  then have "X k \<union> {p. n \<le> p \<and> p < n + length (plan # plans) \<and> k \<in> item_key ` set (items ((plan # plans) ! (p - n)))} =
      ?X k \<union> {p. Suc n \<le> p \<and> p < Suc n + length plans \<and> k \<in> item_key ` set (items (plans ! (p - Suc n)))}" for k by simp
  then show ?case using Cons.IH[of "note_plan (n, plan) s" ?X "Suc n"] note_items_noted[OF Cons.prems, of n "items plan"]
    by (simp add: note_plan_def)
next
  case Nil
  have none: "{p. n \<le> p \<and> p < n \<and> Q p} = {}" for Q by auto
  show ?case using Nil by (simp add: none)
qed

lemma note_plans_noted: "plans_noted (note_plans plans) (\<lambda>k. {p. lists_key plans p k})"
  using note_plan_fold_noted[of "\<lparr>to_plans = [], by_index = []\<rparr>" "\<lambda>_. {}" 0 plans]
  by (simp add: note_plans_def plans_noted_def lists_key_def)

lemma noted_entry:
  assumes "plans_noted s X"
  shows "(k, ps) \<in> set (to_plans s) \<longleftrightarrow> ps = X k \<and> X k \<noteq> {}"
proof -
  have "(k, ps) \<in> set (to_plans s) \<longleftrightarrow> map_of (to_plans s) k = Some ps"
    using assms by (simp add: plans_noted_def del: map_of_eq_Some_iff add: map_of_eq_Some_iff[symmetric])
  then show ?thesis using assms by (auto simp: plans_noted_def)
qed

lemma min_by_in: "min_by key b xs \<in> set (b # xs)"
  by (induction xs arbitrary: b) auto

lemma select_plan_in:
  assumes "set (iter ps) = ps" and "finite ps" and "ps \<noteq> {}"
  shows "select_plan iter lowest sz ps \<in> ps"
proof (cases lowest)
  case True
  then show ?thesis using assms(2,3) by (simp add: select_plan_def)
next
  case False
  obtain q qs where "iter ps = q # qs" using assms(1,3) by (cases "iter ps") auto
  then show ?thesis using min_by_in[of "(!) sz" q qs] assms(1) False by (auto simp: select_plan_def)
qed

lemma dedup_fold:
  assumes "distinct (map fst es)" and "\<forall>(k, ps) \<in> set es. finite ps \<and> ps \<noteq> {} \<and> set (iter ps) = ps"
  shows "\<exists>sel. (\<forall>(k, ps) \<in> set es. sel k \<in> ps \<and> (lowest \<longrightarrow> sel k = Min ps)) \<and>
    snd (fold (dedup_step itemsize iter lowest by_ix) es (sz, keep)) =
      map (\<lambda>(q, ks). ks - {k. \<exists>ps. (k, ps) \<in> set es \<and> q \<in> ps \<and> q \<noteq> sel k}) (enumerate 0 keep)"
  using assms
proof (induction es arbitrary: sz keep)
  case Nil
  show ?case by (auto simp: enumerate_eq_zip intro!: nth_equalityI)
next
  case (Cons e es)
  obtain k ps where e: "e = (k, ps)" by (cases e)
  let ?p = "select_plan iter lowest sz ps"
  obtain sz' where step: "dedup_step itemsize iter lowest by_ix e (sz, keep) =
      (sz', map (\<lambda>(q, ks). if q \<in> ps - {?p} then ks - {k} else ks) (enumerate 0 keep))"
    by (simp add: dedup_step_def e Let_def)
  let ?keep = "map (\<lambda>(q, ks). if q \<in> ps - {?p} then ks - {k} else ks) (enumerate 0 keep)"
  obtain sel where sel: "\<forall>(k, ps) \<in> set es. sel k \<in> ps \<and> (lowest \<longrightarrow> sel k = Min ps)"
    "snd (fold (dedup_step itemsize iter lowest by_ix) es (sz', ?keep)) =
      map (\<lambda>(q, ks). ks - {k. \<exists>ps. (k, ps) \<in> set es \<and> q \<in> ps \<and> q \<noteq> sel k}) (enumerate 0 ?keep)"
    using Cons.IH[of sz' ?keep] Cons.prems by auto
  have new: "k' \<noteq> k" if "(k', ps') \<in> set es" for k' ps' using Cons.prems(1) that by (force simp: e)
  have "?p \<in> ps \<and> (lowest \<longrightarrow> ?p = Min ps)"
    using select_plan_in[of iter ps lowest sz] Cons.prems(2) by (auto simp: e select_plan_def)
  then have "\<forall>(k', ps') \<in> set (e # es). (sel(k := ?p)) k' \<in> ps' \<and> (lowest \<longrightarrow> (sel(k := ?p)) k' = Min ps')"
    using sel(1) new by (auto simp: e)
  moreover have "map (\<lambda>(q, ks). ks - {k. \<exists>ps. (k, ps) \<in> set es \<and> q \<in> ps \<and> q \<noteq> sel k}) (enumerate 0 ?keep) =
      map (\<lambda>(q, ks). ks - {k'. \<exists>ps'. (k', ps') \<in> set (e # es) \<and> q \<in> ps' \<and> q \<noteq> (sel(k := ?p)) k'}) (enumerate 0 keep)"
  proof (rule nth_equalityI, goal_cases)
    case (2 i)
    have mem: "(\<exists>ps'. (k', ps') \<in> set (e # es) \<and> i \<in> ps' \<and> i \<noteq> (sel(k := ?p)) k') \<longleftrightarrow>
        (\<exists>ps'. (k', ps') \<in> set es \<and> i \<in> ps' \<and> i \<noteq> sel k') \<or> k' = k \<and> i \<in> ps - {?p}" for k'
      using new[of k'] by (cases "k' = k") (simp_all add: e, blast)
    have this_key: "(if i \<in> ps - {?p} then {k} else {}) = {k'. k' = k \<and> i \<in> ps - {?p}}" by simp
    have gone: "{k'. \<exists>ps'. (k', ps') \<in> set (e # es) \<and> i \<in> ps' \<and> i \<noteq> (sel(k := ?p)) k'} =
        {k'. \<exists>ps'. (k', ps') \<in> set es \<and> i \<in> ps' \<and> i \<noteq> sel k'} \<union> (if i \<in> ps - {?p} then {k} else {})"
      by (simp only: mem this_key Collect_disj_eq)
    have i: "i < length keep" using 2 by simp
    have "(if i \<in> ps - {?p} then keep ! i - {k} else keep ! i) - R = keep ! i - (R \<union> (if i \<in> ps - {?p} then {k} else {}))" for R
      by (cases "i \<in> ps - {?p}") (simp_all only: if_True if_False Un_empty_right Diff_Diff_Int, blast)
    then show ?case using i by (simp only: nth_map nth_enumerate_eq length_enumerate length_map prod.case add_0 gone)
  qed simp
  ultimately show ?case using sel(2) step by (intro exI[of _ "sel(k := ?p)"]) simp
qed

text \<open>The plans after a selection of one plan per index.\<close>

definition keep_selected :: "(item_key \<Rightarrow> nat) \<Rightarrow> ('d, 'm) save_plan list \<Rightarrow> ('d, 'm) save_plan list" where
  "keep_selected sel plans = map (\<lambda>(q, plan). plan\<lparr>items := filter (\<lambda>w. sel (item_key w) = q) (items plan)\<rparr>) (enumerate 0 plans)"

lemma items_filter_cong: "(\<And>w. w \<in> set (items plan) \<Longrightarrow> P w = Q w) \<Longrightarrow>
    plan\<lparr>items := filter P (items plan)\<rparr> = plan\<lparr>items := filter Q (items plan)\<rparr>"
  by (simp cong: filter_cong)

lemma finite_lists_key [simp]: "finite {p. lists_key plans p k}"
  by (rule finite_subset[of _ "{..<length plans}"]) (auto simp: lists_key_def)

lemma keep_selected_nth: "q < length plans \<Longrightarrow>
    keep_selected sel plans ! q = (plans ! q)\<lparr>items := filter (\<lambda>w. sel (item_key w) = q) (items (plans ! q))\<rparr>"
  by (simp add: keep_selected_def nth_enumerate_eq)

lemma length_keep_selected [simp]: "length (keep_selected sel plans) = length plans"
  by (simp add: keep_selected_def)

lemma keep_selected_lists: "lists_key (keep_selected sel plans) q k \<longleftrightarrow> lists_key plans q k \<and> sel k = q"
  by (auto simp: lists_key_def keep_selected_nth)

lemma keep_selected_items: "lists_key plans q k \<Longrightarrow> sel k = q \<Longrightarrow>
    filter (\<lambda>w. item_key w = k) (items (keep_selected sel plans ! q)) = filter (\<lambda>w. item_key w = k) (items (plans ! q))"
  by (auto simp: lists_key_def keep_selected_nth intro!: filter_cong)

lemma keep_selected_cong:
  "(\<And>p k. p < length plans \<Longrightarrow> k \<in> item_key ` set (items (plans ! p)) \<Longrightarrow> sel k = sel' k) \<Longrightarrow>
   keep_selected sel plans = keep_selected sel' plans"
  unfolding keep_selected_def enumerate_eq_zip
  by (auto simp: in_set_zip intro!: map_cong items_filter_cong)

lemma dedup_result:
  assumes "\<forall>S. finite S \<longrightarrow> set (iter S) = S"
  shows "\<exists>sel. dedup_save_plans itemsize iter plans lowest = keep_selected sel plans \<and>
    (\<forall>p k. lists_key plans p k \<longrightarrow> lists_key plans (sel k) k \<and> (lowest \<longrightarrow> sel k = Min {p. lists_key plans p k}))"
proof -
  let ?s = "note_plans plans" and ?X = "\<lambda>k. {p. lists_key plans p k}"
  let ?keys = "map (\<lambda>plan. item_key ` set (items plan)) plans"
  note entry = noted_entry[OF note_plans_noted[of plans]]
  have dist: "distinct (map fst (to_plans ?s))" using note_plans_noted[of plans] by (simp add: plans_noted_def)
  have "\<forall>(k, ps) \<in> set (to_plans ?s). finite ps \<and> ps \<noteq> {} \<and> set (iter ps) = ps"
    using assms finite_lists_key[of plans] unfolding Ball_def split_paired_All entry prod.case by meson
  from dedup_fold[OF dist this, of lowest itemsize "by_index ?s" "replicate (length plans) 0" ?keys]
  obtain sel where sel: "\<forall>(k, ps) \<in> set (to_plans ?s). sel k \<in> ps \<and> (lowest \<longrightarrow> sel k = Min ps)"
    "snd (fold (dedup_step itemsize iter lowest (by_index ?s)) (to_plans ?s) (replicate (length plans) 0, ?keys)) =
      map (\<lambda>(q, ks). ks - {k. \<exists>ps. (k, ps) \<in> set (to_plans ?s) \<and> q \<in> ps \<and> q \<noteq> sel k}) (enumerate 0 ?keys)"
    by (elim exE conjE) (rule that)
  have chosen: "lists_key plans (sel k) k \<and> (lowest \<longrightarrow> sel k = Min (?X k))" if "lists_key plans p k" for p k
    using bspec[OF sel(1), of "(k, ?X k)"] entry[of k "?X k"] that by auto
  have "dedup_save_plans itemsize iter plans lowest = map2 (\<lambda>plan ks. plan\<lparr>items := filter (\<lambda>w. item_key w \<in> ks) (items plan)\<rparr>) plans
      (map (\<lambda>(q, ks). ks - {k. \<exists>ps. (k, ps) \<in> set (to_plans ?s) \<and> q \<in> ps \<and> q \<noteq> sel k}) (enumerate 0 ?keys))"
    unfolding dedup_save_plans_def Let_def sel(2)[symmetric] by (simp add: split_beta)
  also have "\<dots> = keep_selected sel plans"
  proof (rule nth_equalityI, goal_cases)
    case (2 q)
    have "item_key w \<in> item_key ` set (items (plans ! q)) -
        {k. \<exists>ps. (k, ps) \<in> set (to_plans ?s) \<and> q \<in> ps \<and> q \<noteq> sel k} \<longleftrightarrow> sel (item_key w) = q"
      if "w \<in> set (items (plans ! q))" for w
      using that 2 unfolding entry by (auto simp: lists_key_def)
    from items_filter_cong[OF this] show ?case using 2
      by (simp only: nth_map nth_zip nth_enumerate_eq length_map length_zip length_enumerate length_keep_selected
          keep_selected_nth prod.case add_0 min.idem)
  qed simp
  finally show ?thesis using chosen by blast
qed

text \<open>C24: \<open>dedup_save_plans\<close> keeps every index that some plan lists in exactly one plan, whatever the order in which
  Python iterates sets: a plan that listed it, the lowest one on request, and with all its items of that index.\<close>

theorem dedup_save_plans_once:
  assumes "\<forall>S. finite S \<longrightarrow> set (iter S) = S" and "lists_key plans p k"
  shows "\<exists>q. lists_key plans q k \<and> (lowest \<longrightarrow> (\<forall>p'. lists_key plans p' k \<longrightarrow> q \<le> p')) \<and>
    (\<forall>q'. lists_key (dedup_save_plans itemsize iter plans lowest) q' k \<longleftrightarrow> q' = q) \<and>
    filter (\<lambda>w. item_key w = k) (items (dedup_save_plans itemsize iter plans lowest ! q)) =
      filter (\<lambda>w. item_key w = k) (items (plans ! q))"
proof -
  obtain sel where sel: "dedup_save_plans itemsize iter plans lowest = keep_selected sel plans"
    "lists_key plans (sel k) k" "lowest \<longrightarrow> sel k = Min {p. lists_key plans p k}"
    using dedup_result[OF assms(1), of itemsize plans lowest] assms(2) by blast
  have "\<forall>p'. lists_key plans p' k \<longrightarrow> Min {p. lists_key plans p k} \<le> p'" by (simp add: Min_le)
  then show ?thesis unfolding sel(1) using sel(2,3)
    by (intro exI[of _ "sel k"]) (auto simp: keep_selected_lists keep_selected_items)
qed

definition demo_item :: "string \<Rightarrow> unit write_item" where
  "demo_item n = \<lparr>wi_index = \<lparr>fqn = n, ix_offset = Some [0], ix_index = None\<rparr>, wi_type = TENSOR, wi_bytes = None,
     wi_tensor = Some \<lparr>tw_chunk = \<lparr>offsets = [0], sizes = [4]\<rparr>, tw_properties = (), tw_size = [4]\<rparr>\<rparr>"

definition demo_plan :: "string list \<Rightarrow> (unit, unit) save_plan" where
  "demo_plan ns = \<lparr>items = map demo_item ns, planner_data = None, usable = True\<rparr>"

theorem dedup_save_plans_once_witness:
  "\<exists>q. lists_key [demo_plan [''a''], demo_plan [''b'', ''a'']] q (ItemKey ''a'' (Some [0])) \<and>
    (\<forall>q'. lists_key (dedup_save_plans (\<lambda>_. 4) sorted_list_of_set [demo_plan [''a''], demo_plan [''b'', ''a'']] False) q' (ItemKey ''a'' (Some [0])) \<longleftrightarrow> q' = q)"
proof -
  have a: "\<forall>S :: nat set. finite S \<longrightarrow> set (sorted_list_of_set S) = S" by simp
  have b: "lists_key [demo_plan [''a''], demo_plan [''b'', ''a'']] 0 (ItemKey ''a'' (Some [0]))"
    by (simp add: lists_key_def demo_plan_def demo_item_def index_key_def)
  from dedup_save_plans_once[OF a b, of False "\<lambda>_. 4"] show ?thesis by (elim exE conjE) (intro exI conjI)
qed

subsection \<open>The older deduplication\<close>

definition lists_noted :: "(item_key \<times> nat list) list \<Rightarrow> (item_key \<Rightarrow> nat list) \<Rightarrow> bool" where
  "lists_noted d L \<longleftrightarrow> distinct (map fst d) \<and> map_of d = (\<lambda>k. if L k = [] then None else Some (L k))"

lemma note_key_noted: "lists_noted d L \<Longrightarrow> lists_noted (note_key p w d) (L(item_key w := L (item_key w) @ [p]))"
  unfolding lists_noted_def note_key_def
  by (cases "L (item_key w) = []") (auto simp: update_conv' distinct_update fun_upd_def)

lemma note_keys_noted:
  "lists_noted d L \<Longrightarrow> distinct (map item_key ws) \<Longrightarrow>
   lists_noted (fold (note_key p) ws d) (\<lambda>k. if k \<in> item_key ` set ws then L k @ [p] else L k)"
proof (induction ws arbitrary: d L)
  case (Cons w ws)
  have "(\<lambda>k. if k \<in> item_key ` set (w # ws) then L k @ [p] else L k) =
      (\<lambda>k. if k \<in> item_key ` set ws then (L(item_key w := L (item_key w) @ [p])) k @ [p] else (L(item_key w := L (item_key w) @ [p])) k)"
    using Cons.prems(2) by (auto simp: fun_eq_iff)
  then show ?case using Cons.IH[OF note_key_noted[OF Cons.prems(1)]] Cons.prems(2) by simp
qed simp

lemma key_to_plans_fold:
  assumes "lists_noted d L" and "\<forall>plan \<in> set plans. distinct (map item_key (items plan))"
  shows "lists_noted (fold (\<lambda>(p, plan). fold (note_key p) (items plan)) (enumerate n plans) d)
    (\<lambda>k. L k @ filter (\<lambda>p. k \<in> item_key ` set (items (plans ! (p - n)))) [n..<n + length plans])"
  using assms
proof (induction plans arbitrary: n d L)
  case (Cons plan plans)
  let ?L = "\<lambda>k. if k \<in> item_key ` set (items plan) then L k @ [n] else L k"
  have "filter (\<lambda>p. k \<in> item_key ` set (items ((plan # plans) ! (p - n)))) [n..<n + length (plan # plans)] =
      (if k \<in> item_key ` set (items plan) then [n] else []) @
      filter (\<lambda>p. k \<in> item_key ` set (items (plans ! (p - Suc n)))) [Suc n..<Suc n + length plans]" for k
    by (auto simp: upt_conv_Cons nth_Cons' simp del: upt_Suc intro!: filter_cong)
  then have "(\<lambda>k. L k @ filter (\<lambda>p. k \<in> item_key ` set (items ((plan # plans) ! (p - n)))) [n..<n + length (plan # plans)]) =
      (\<lambda>k. ?L k @ filter (\<lambda>p. k \<in> item_key ` set (items (plans ! (p - Suc n)))) [Suc n..<Suc n + length plans])"
    by (simp add: fun_eq_iff)
  moreover have "lists_noted (fold (note_key n) (items plan) d) ?L"
    using Cons.prems(2) by (intro note_keys_noted[OF Cons.prems(1)]) simp
  ultimately show ?case using Cons.IH[of "fold (note_key n) (items plan) d" ?L "Suc n"] Cons.prems(2) by simp
qed simp

lemma key_to_plans_noted:
  assumes "\<forall>plan \<in> set plans. distinct (map item_key (items plan))"
  shows "lists_noted (key_to_plans plans) (\<lambda>k. filter (\<lambda>p. lists_key plans p k) [0..<length plans])"
proof -
  have "lists_noted [] (\<lambda>_. [])" by (simp add: lists_noted_def)
  moreover have "(\<lambda>k. filter (\<lambda>p. lists_key plans p k) [0..<length plans]) =
      (\<lambda>k. filter (\<lambda>p. k \<in> item_key ` set (items (plans ! p))) [0..<length plans])"
    by (auto simp: fun_eq_iff lists_key_def intro!: filter_cong)
  ultimately show ?thesis using key_to_plans_fold[OF _ assms, of "[]" "\<lambda>_. []" 0] by (simp add: key_to_plans_def)
qed

lemma tl_filter_upt: "p \<in> set (tl (filter Q [0..<n])) \<longleftrightarrow> p < n \<and> Q p \<and> (\<exists>q < p. Q q)"
proof (induction n)
  case (Suc n)
  show ?case
  proof (cases "filter Q [0..<n] = []")
    case True
    then have "\<forall>q < n. \<not> Q q" by (auto simp: filter_empty_conv)
    then show ?thesis using True by (auto simp: less_Suc_eq)
  next
    case False
    then have "\<exists>q < n. Q q" by (auto simp: filter_empty_conv)
    then show ?thesis using False Suc by (auto simp: less_Suc_eq)
  qed
qed simp

text \<open>\<open>dedup_tensors\<close> and \<open>dedup_save_plans\<close> with \<open>save_to_lowest_rank\<close> compute the same plans when no plan
  lists an index twice.\<close>

theorem dedup_tensors_eq_lowest:
  assumes "\<forall>plan \<in> set plans. distinct (map item_key (items plan))" and "\<forall>S. finite S \<longrightarrow> set (iter S) = S"
  shows "dedup_tensors plans = dedup_save_plans itemsize iter plans True"
proof -
  obtain sel where sel: "dedup_save_plans itemsize iter plans True = keep_selected sel plans"
    "\<And>p k. lists_key plans p k \<Longrightarrow> lists_key plans (sel k) k \<and> sel k = Min {p. lists_key plans p k}"
    using dedup_result[OF assms(2), of itemsize plans True] by blast
  have entry: "(k, ps) \<in> set (key_to_plans plans) \<longleftrightarrow> map_of (key_to_plans plans) k = Some ps" for k ps
    using key_to_plans_noted[OF assms(1)] by (simp add: lists_noted_def del: map_of_eq_Some_iff add: map_of_eq_Some_iff[symmetric])
  have "item_key w \<in> removed_keys (key_to_plans plans) q \<longleftrightarrow> sel (item_key w) \<noteq> q"
    if w: "q < length plans" "w \<in> set (items (plans ! q))" for q w
  proof -
    have here: "lists_key plans q (item_key w)" using w by (simp add: lists_key_def)
    have "item_key w \<in> removed_keys (key_to_plans plans) q \<longleftrightarrow>
        (\<exists>ps. (item_key w, ps) \<in> set (key_to_plans plans) \<and> q \<in> set (tl ps))"
      by (force simp: removed_keys_def)
    also have "\<dots> \<longleftrightarrow> q \<in> set (tl (filter (\<lambda>p. lists_key plans p (item_key w)) [0..<length plans]))"
      unfolding entry using key_to_plans_noted[OF assms(1)] by (auto simp: lists_noted_def split: if_splits)
    also have "\<dots> \<longleftrightarrow> (\<exists>p < q. lists_key plans p (item_key w))" unfolding tl_filter_upt using here w by auto
    also have "\<dots> \<longleftrightarrow> sel (item_key w) \<noteq> q" using sel(2)[OF here] here by (metis Min_le finite_lists_key le_neq_implies_less mem_Collect_eq not_le)
    finally show ?thesis .
  qed
  then show ?thesis unfolding sel(1) dedup_tensors_def keep_selected_def enumerate_eq_zip
    by (auto simp: in_set_zip intro!: map_cong items_filter_cong)
qed

theorem dedup_tensors_eq_lowest_witness:
  "dedup_tensors [demo_plan [''a''], demo_plan [''b'', ''a'']] =
     dedup_save_plans (\<lambda>_. 4) sorted_list_of_set [demo_plan [''a''], demo_plan [''b'', ''a'']] True"
  by (rule dedup_tensors_eq_lowest) (simp_all add: demo_plan_def demo_item_def index_key_def)

text \<open>An index that one plan lists twice is dropped from that plan as well, so no plan keeps it.\<close>

theorem dedup_tensors_drops_repeated:
  "dedup_tensors [demo_plan [''a'', ''a'']] = [demo_plan []]"
  by (simp add: dedup_tensors_def key_to_plans_def note_key_def removed_keys_def demo_plan_def demo_item_def index_key_def)

subsection \<open>Metadata and index hints of the global plan\<close>

definition chunks_of :: "(string \<times> 'd storage_type) list \<Rightarrow> string \<Rightarrow> chunk list" where
  "chunks_of md name = (case map_of md name of Some (TensorStorage t) \<Rightarrow> ts_chunks t | _ \<Rightarrow> [])"

definition tensor_items :: "string \<Rightarrow> 'd write_item list \<Rightarrow> 'd write_item list" where
  "tensor_items name = filter (\<lambda>w. fqn (wi_index w) = name \<and> wi_type w \<noteq> BYTE_IO)"

definition item_chunk :: "'d write_item \<Rightarrow> chunk" where
  "item_chunk w = tw_chunk (the (wi_tensor w))"

definition without_hint :: "'d write_item \<Rightarrow> 'd write_item" where
  "without_hint w = w\<lparr>wi_index := (wi_index w)\<lparr>ix_index := None\<rparr>\<rparr>"

lemma with_hint_sel [simp]:
  "fqn (wi_index (with_hint w n)) = fqn (wi_index w)" "ix_index (wi_index (with_hint w n)) = Some (int n)"
  "wi_type (with_hint w n) = wi_type w" "wi_tensor (with_hint w n) = wi_tensor w" "item_chunk (with_hint w n) = item_chunk w"
  "without_hint (with_hint w n) = without_hint w"
  by (simp_all add: with_hint_def item_chunk_def without_hint_def)

lemma global_item_byte:
  assumes "global_item True md w = Inr (md', w')" and "wi_type w = BYTE_IO"
  shows "w' = w \<and> chunks_of md' name = chunks_of md name"
  using assms by (auto simp: global_item_def Let_def chunks_of_def update_conv' split: if_splits)

lemma global_item_tensor:
  assumes "global_item True md w = Inr (md', w')" and "wi_type w \<noteq> BYTE_IO"
  shows "w' = with_hint w (length (chunks_of md (fqn (wi_index w)))) \<and>
    chunks_of md' name = chunks_of md name @ (if name = fqn (wi_index w) then [item_chunk w] else [])"
  using assms
  by (auto simp: global_item_def Let_def chunks_of_def update_conv' item_chunk_def split: if_splits option.splits storage_type.splits)

lemma tensor_items_append [simp]: "tensor_items name (xs @ ys) = tensor_items name xs @ tensor_items name ys"
  by (simp add: tensor_items_def)

lemma global_items_spec:
  "global_items True md ws = Inr (md', ws') \<Longrightarrow>
   map without_hint ws' = map without_hint ws \<and>
   chunks_of md' name = chunks_of md name @ map item_chunk (tensor_items name ws') \<and>
   map (ix_index \<circ> wi_index) (tensor_items name ws') =
     map (Some \<circ> int) [length (chunks_of md name)..<length (chunks_of md name) + length (tensor_items name ws')]"
proof (induction ws arbitrary: md ws')
  case (Cons w ws)
  obtain md1 w1 ws1 where r: "global_item True md w = Inr (md1, w1)" "global_items True md1 ws = Inr (md', ws1)" "ws' = w1 # ws1"
    using Cons.prems by (auto simp: rbind_eq_Inr split: prod.splits)
  note IH = Cons.IH[OF r(2)]
  show ?case
  proof (cases "wi_type w = BYTE_IO")
    case True
    then show ?thesis using IH global_item_byte[OF r(1) True, of name] r(3) by (simp add: tensor_items_def)
  next
    case False
    then show ?thesis using IH global_item_tensor[OF r(1) False, of name] r(3)
      by (cases "name = fqn (wi_index w)") (auto simp: tensor_items_def upt_conv_Cons simp del: upt_Suc)
  qed
qed (simp add: tensor_items_def)

lemma global_plans_spec:
  "global_plans True md ps = Inr (md', ps') \<Longrightarrow>
   map (\<lambda>p. p\<lparr>items := map without_hint (items p)\<rparr>) ps' = map (\<lambda>p. p\<lparr>items := map without_hint (items p)\<rparr>) ps \<and>
   chunks_of md' name = chunks_of md name @ map item_chunk (tensor_items name (concat (map items ps'))) \<and>
   map (ix_index \<circ> wi_index) (tensor_items name (concat (map items ps'))) =
     map (Some \<circ> int) [length (chunks_of md name)..<length (chunks_of md name) + length (tensor_items name (concat (map items ps')))]"
proof (induction ps arbitrary: md ps')
  case (Cons p ps)
  obtain md1 ws ps1 where r: "global_items True md (items p) = Inr (md1, ws)" "global_plans True md1 ps = Inr (md', ps1)"
      "ps' = p\<lparr>items := ws\<rparr> # ps1"
    using Cons.prems by (auto simp: rbind_eq_Inr split: prod.splits)
  let ?k = "length (chunks_of md name)" and ?m = "length (tensor_items name ws)" and ?n = "length (tensor_items name (concat (map items ps1)))"
  have upt: "[?k..<?k + (?m + ?n)] = [?k..<?k + ?m] @ [?k + ?m..<?k + ?m + ?n]"
    by (metis add.assoc le_add1 upt_add_eq_append)
  show ?case using Cons.IH[OF r(2)] global_items_spec[OF r(1), of name] r(3) by (simp add: upt comp_def)
qed (simp add: tensor_items_def)

lemma default_global_plans:
  "create_default_global_save_plan plans hints = Inr (plans', md) \<Longrightarrow> global_plans hints [] plans = Inr (state_dict_metadata md, plans')"
  by (auto simp: create_default_global_save_plan_def rbind_eq_Inr split: prod.splits)

text \<open>the global save plan. Apart from the index hints the plans are those it got; the chunks the
  metadata has for a tensor are those of the write items with its name, plan by plan; and the hint of each
  of these items is the position of its chunk in the metadata.\<close>

theorem global_plan_index_hints:
  assumes "create_default_global_save_plan plans True = Inr (plans', md)"
  shows "map (\<lambda>p. p\<lparr>items := map without_hint (items p)\<rparr>) plans' = map (\<lambda>p. p\<lparr>items := map without_hint (items p)\<rparr>) plans \<and>
    chunks_of (state_dict_metadata md) name = map item_chunk (tensor_items name (concat (map items plans'))) \<and>
    map (ix_index \<circ> wi_index) (tensor_items name (concat (map items plans'))) =
      map (Some \<circ> int) [0..<length (chunks_of (state_dict_metadata md) name)]"
  using global_plans_spec[OF default_global_plans[OF assms], of name] by (simp add: chunks_of_def)

definition demo_shard :: "int \<Rightarrow> unit write_item" where
  "demo_shard k = \<lparr>wi_index = \<lparr>fqn = ''w'', ix_offset = Some [k], ix_index = None\<rparr>, wi_type = SHARD, wi_bytes = None,
     wi_tensor = Some \<lparr>tw_chunk = \<lparr>offsets = [k], sizes = [2]\<rparr>, tw_properties = (), tw_size = [4]\<rparr>\<rparr>"

definition demo_shards :: "(unit, unit) save_plan list" where
  "demo_shards = [\<lparr>items = [demo_shard 0], planner_data = None, usable = True\<rparr>, \<lparr>items = [demo_shard 2], planner_data = None, usable = True\<rparr>]"

definition demo_metadata :: "(unit, unit) plan_metadata" where
  "demo_metadata = \<lparr>state_dict_metadata = [(''w'', TensorStorage \<lparr>ts_properties = (), ts_size = [4],
     ts_chunks = [\<lparr>offsets = [0], sizes = [2]\<rparr>, \<lparr>offsets = [2], sizes = [2]\<rparr>]\<rparr>)], md_planner_data = None\<rparr>"

definition demo_global :: "(unit, unit) save_plan list" where
  "demo_global = [\<lparr>items = [with_hint (demo_shard 0) 0], planner_data = None, usable = True\<rparr>,
     \<lparr>items = [with_hint (demo_shard 2) 1], planner_data = None, usable = True\<rparr>]"

lemma demo_global_plan: "create_default_global_save_plan demo_shards True = Inr (demo_global, demo_metadata)"
  by (simp add: create_default_global_save_plan_def demo_shards_def demo_shard_def demo_global_def demo_metadata_def
      global_item_def with_hint_def Let_def)

theorem global_plan_index_hints_witness:
  "create_default_global_save_plan demo_shards True = Inr (demo_global, demo_metadata) \<and>
   map (ix_index \<circ> wi_index) (tensor_items ''w'' (concat (map items demo_global))) =
     map (Some \<circ> int) [0..<length (chunks_of (state_dict_metadata demo_metadata) ''w'')]"
  using demo_global_plan global_plan_index_hints[OF demo_global_plan] by blast

subsection \<open>Validation accepts exactly the tilings\<close>

lemma bounds_loop_ok:
  assumes "rank_chunk (length shape) c" and "\<forall>d \<in> set ds. 0 \<le> d \<and> d < int (length shape)"
  shows "bounds_loop shape c ds = Inr (\<forall>d \<in> set ds. 0 \<le> offsets c ! nat d \<and> 0 \<le> sizes c ! nat d \<and>
    offsets c ! nat d + sizes c ! nat d \<le> shape ! nat d)"
  using assms(2)
proof (induction ds)
  case (Cons d ds)
  have "py_nth (offsets c) d = Inr (offsets c ! nat d)" "py_nth (sizes c) d = Inr (sizes c ! nat d)"
    "py_nth shape d = Inr (shape ! nat d)"
    using assms Cons.prems by (simp_all add: rank_chunk_def py_nth_nonneg)
  then show ?case using Cons by auto
qed simp

lemma check_box_bounds_ok:
  assumes "rank_chunk (length shape) c"
  shows "check_box_bounds shape c = Inr (within shape (chunk_box c))"
proof -
  have "(\<forall>d \<in> set (py_range (int n)). P (nat d)) \<longleftrightarrow> (\<forall>d < n. P d)" for P n
    by (auto dest: bspec[of _ _ "int d" for d])
  then show ?thesis using assms bounds_loop_ok[OF assms, of "py_range (int (length shape))"]
    by (simp add: check_box_bounds_def within_nth)
qed

lemma bounds_errors_ok:
  assumes "\<forall>c \<in> set cs. rank_chunk (length shape) c"
  shows "bounds_errors key shape cs =
    Inr (map (OutOfBounds key shape) (filter (\<lambda>c. \<not> within shape (chunk_box c)) cs), sum_list (map (volume \<circ> chunk_box) cs))"
  using assms
proof (induction cs)
  case (Cons c cs)
  have "volume (chunk_box c) = prod_list (sizes c)" using Cons.prems by (simp add: volume_def chunk_box_def rank_chunk_def)
  then show ?case using Cons check_box_bounds_ok[of shape c] by simp
qed simp

lemma overlap_errors_ok:
  assumes "rank_chunk n c" and "\<forall>c \<in> set cs. rank_chunk n c" and "\<forall>(e, i) \<in> set active. 0 \<le> i \<and> nat i < length cs"
  shows "overlap_errors key cs c active = Inr (map (OverlappingChunks key c)
    (filter (\<lambda>c'. overlaps (chunk_box c) (chunk_box c')) (map (\<lambda>(e, i). cs ! nat i) active)))"
  using assms(3)
proof (induction active)
  case (Cons p active)
  obtain e i where p: "p = (e, i)" by (cases p)
  have "check_box_overlap c (cs ! nat i) = Inr (overlaps (chunk_box c) (chunk_box (cs ! nat i)))"
    unfolding check_box_overlap_def using assms Cons.prems by (intro overlap_check_ok) (auto simp: p)
  then show ?case using Cons by (simp add: p)
qed simp

lemma sorted_wrt_sym:
  "(\<And>x y. x \<in> set xs \<Longrightarrow> y \<in> set xs \<Longrightarrow> P x y \<Longrightarrow> P y x) \<Longrightarrow> distinct xs \<Longrightarrow> sorted_wrt P xs \<longleftrightarrow> (\<forall>x \<in> set xs. \<forall>y \<in> set xs. x \<noteq> y \<longrightarrow> P x y)"
proof (induction xs)
  case (Cons a xs)
  have "P y x" if "x \<in> set xs" "y \<in> set xs" "P x y" for x y using that by (intro Cons.prems(1)[of x y]) simp_all
  from Cons.IH[OF this] have "sorted_wrt P xs \<longleftrightarrow> (\<forall>x \<in> set xs. \<forall>y \<in> set xs. x \<noteq> y \<longrightarrow> P x y)"
    using Cons.prems(2) by simp
  moreover have "P y a" if "P a y" "y \<in> set xs" for y using that by (intro Cons.prems(1)[of a y]) simp_all
  moreover have "a \<notin> set xs" using Cons.prems(2) by simp
  ultimately show ?case by auto
qed simp

lemma dropped_before:
  assumes "(e, i) \<in> set active" and "(e, i) \<notin> set (drop (bisect_right active (start, m)) active)"
  shows "e \<le> (start :: int)"
proof -
  have "active = takeWhile (\<lambda>y. y \<le> (start, m)) active @ drop (bisect_right active (start, m)) active"
    unfolding bisect_right_def dropWhile_eq_drop[symmetric] by simp
  then have "(e, i) \<in> set (takeWhile (\<lambda>y. y \<le> (start, m)) active)" using assms by (metis Un_iff set_append)
  then have "(e, i) \<le> (start, m)" by (blast dest: set_takeWhileD)
  then show ?thesis by auto
qed

abbreviation clash :: "chunk list \<Rightarrow> nat \<Rightarrow> nat \<Rightarrow> bool" where
  "clash cs i j \<equiv> overlaps (chunk_box (cs ! i)) (chunk_box (cs ! j))"

lemma clash_ends:
  assumes "\<forall>c \<in> set cs. rank_chunk n c" and "k < n" and "i < length cs" and "j < length cs" and "clash cs i j"
  shows "offsets (cs ! i) ! k < offsets (cs ! j) ! k + sizes (cs ! j) ! k"
proof -
  have r: "rank_chunk n (cs ! i)" "rank_chunk n (cs ! j)" using assms by auto
  show ?thesis using overlaps_nth[of "chunk_box (cs ! i)" "chunk_box (cs ! j)"] assms(2,5) r by auto
qed

text \<open>The sweep reports a pair of chunks exactly when two of them overlap.\<close>

lemma validate_sweep_ok:
  assumes "\<forall>c \<in> set cs. rank_chunk n c" and "k < n" and "set order \<subseteq> {..<length cs}"
    and "sorted (map (\<lambda>i. offsets (cs ! i) ! k) order)"
    and "\<forall>(e, i) \<in> set active. 0 \<le> i \<and> nat i < length cs \<and> e = offsets (cs ! nat i) ! k + sizes (cs ! nat i) ! k"
  shows "\<exists>errs. validate_sweep key cs k active order = Inr errs \<and>
    (errs = [] \<longleftrightarrow> (\<forall>j \<in> set order. \<forall>i \<in> nat ` snd ` set active. \<not> clash cs j i) \<and> sorted_wrt (\<lambda>i j. \<not> clash cs j i) order)"
  using assms(3-)
proof (induction order arbitrary: active)
  case (Cons j order)
  let ?start = "offsets (cs ! j) ! k" and ?stop = "offsets (cs ! j) ! k + sizes (cs ! j) ! k"
  let ?act = "drop (bisect_right active (?start, sys_maxsize)) active"
  have j: "j < length cs" "rank_chunk n (cs ! j)" using Cons.prems(1) assms(1) by auto
  have bounds: "chunk_bounds (int k) (cs ! j) = Inr (?start, ?stop)"
    using j(2) assms(2) by (simp add: chunk_bounds_def rank_chunk_def py_nth_nonneg)
  have act: "\<forall>(e, i) \<in> set ?act. 0 \<le> i \<and> nat i < length cs \<and> e = offsets (cs ! nat i) ! k + sizes (cs ! nat i) ! k"
    using Cons.prems(3) by (auto dest: in_set_dropD)
  have gone: "\<not> clash cs j' (nat i)" if "(e, i) \<in> set active" "(e, i) \<notin> set ?act" "j' \<in> set (j # order)" for e i j'
  proof
    assume "clash cs j' (nat i)"
    moreover have "nat i < length cs" "e = offsets (cs ! nat i) ! k + sizes (cs ! nat i) ! k" using Cons.prems(3) that(1) by auto
    ultimately have "offsets (cs ! j') ! k < e" using clash_ends[OF assms(1,2), of j' "nat i"] that(3) Cons.prems(1) by auto
    moreover have "e \<le> ?start" using dropped_before[OF that(1,2)] .
    moreover have "?start \<le> offsets (cs ! j') ! k" using Cons.prems(2) that(3) by auto
    ultimately show False by simp
  qed
  have now: "overlap_errors key cs (cs ! j) ?act = Inr (map (OverlappingChunks key (cs ! j))
      (filter (\<lambda>c'. overlaps (chunk_box (cs ! j)) (chunk_box c')) (map (\<lambda>(e, i). cs ! nat i) ?act)))"
    using act by (intro overlap_errors_ok[OF j(2) assms(1)]) auto
  have p: "set order \<subseteq> {..<length cs}" "sorted (map (\<lambda>i. offsets (cs ! i) ! k) order)" using Cons.prems(1,2) by simp_all
  have q: "\<forall>(e, i) \<in> set (insort (?stop, int j) ?act). 0 \<le> i \<and> nat i < length cs \<and> e = offsets (cs ! nat i) ! k + sizes (cs ! nat i) ! k"
    using act j(1) by (simp add: set_insort_key)
  from Cons.IH[OF p q] obtain later where later: "validate_sweep key cs k (insort (?stop, int j) ?act) order = Inr later"
    "later = [] \<longleftrightarrow> (\<forall>j' \<in> set order. \<forall>i \<in> nat ` snd ` set (insort (?stop, int j) ?act). \<not> clash cs j' i) \<and>
      sorted_wrt (\<lambda>i j. \<not> clash cs j i) order" by blast
  have kept: "(\<forall>i \<in> nat ` snd ` set ?act. \<not> clash cs j' i) \<longleftrightarrow> (\<forall>i \<in> nat ` snd ` set active. \<not> clash cs j' i)"
    if "j' \<in> set (j # order)" for j'
    using gone[OF _ _ that] by (force dest: in_set_dropD)
  have "validate_sweep key cs k active (j # order) = Inr (map (OverlappingChunks key (cs ! j))
      (filter (\<lambda>c'. overlaps (chunk_box (cs ! j)) (chunk_box c')) (map (\<lambda>(e, i). cs ! nat i) ?act)) @ later)"
    using bounds now later(1) by (simp add: Let_def)
  moreover have "filter (\<lambda>c'. overlaps (chunk_box (cs ! j)) (chunk_box c')) (map (\<lambda>(e, i). cs ! nat i) ?act) = [] \<longleftrightarrow>
      (\<forall>i \<in> nat ` snd ` set active. \<not> clash cs j i)"
  proof -
    have "filter (\<lambda>c'. overlaps (chunk_box (cs ! j)) (chunk_box c')) (map (\<lambda>(e, i). cs ! nat i) ?act) = [] \<longleftrightarrow>
        (\<forall>i \<in> nat ` snd ` set ?act. \<not> clash cs j i)"
      by (simp add: filter_empty_conv split_beta)
    then show ?thesis using kept[of j] by simp
  qed
  moreover have "later = [] \<longleftrightarrow> (\<forall>j' \<in> set order. \<not> clash cs j' j \<and> (\<forall>i \<in> nat ` snd ` set active. \<not> clash cs j' i)) \<and>
      sorted_wrt (\<lambda>i j. \<not> clash cs j i) order"
    using later(2) kept by (simp add: set_insort_key)
  ultimately show ?case by auto
qed simp

lemma validate_overlaps_ok:
  assumes "\<forall>c \<in> set cs. rank_chunk (length shape) c" and "shape \<noteq> []"
  shows "\<exists>errs. validate_overlaps key shape cs = Inr errs \<and>
    (errs = [] \<longleftrightarrow> (\<forall>i < length cs. \<forall>j < length cs. i \<noteq> j \<longrightarrow> \<not> clash cs i j))"
proof (cases "length cs > 1")
  case True
  let ?k = "py_arg_max shape" and ?n = "length shape"
  have k: "?k < ?n" using py_arg_max_less[OF assms(2)] .
  let ?key = "\<lambda>c. offsets c ! ?k # map (\<lambda>d. offsets c ! nat d) (py_range (int ?n))"
  have "rbind (py_nth (offsets c) (int ?k)) (\<lambda>first. rbind (traverse (py_nth (offsets c)) (py_range (int ?n))) (\<lambda>rest. Inr (first # rest))) = Inr (?key c)"
    if "c \<in> set cs" for c
  proof -
    have c: "length (offsets c) = ?n" using assms(1) that by (simp add: rank_chunk_def)
    then have "traverse (py_nth (offsets c)) (py_range (int ?n)) = Inr (map (\<lambda>d. offsets c ! nat d) (py_range (int ?n)))"
      by (intro traverse_total) (auto simp: py_nth_nonneg)
    then show ?thesis using c k by (simp add: py_nth_nonneg)
  qed
  then have keys: "sort_keys ?n ?k cs = Inr (map ?key cs)" unfolding sort_keys_def by (rule traverse_total)
  define order where "order = sort_key (\<lambda>i. map ?key cs ! i) [0..<length cs]"
  have order: "set order = {..<length cs}" "distinct order" by (auto simp: order_def)
  have "sorted (map (\<lambda>i. map ?key cs ! i) order)" by (simp add: order_def)
  then have starts: "sorted (map (\<lambda>i. offsets (cs ! i) ! ?k) order)"
    unfolding sorted_wrt_map by (rule sorted_wrt_mono_rel[rotated]) (auto simp: order)
  have sub: "set order \<subseteq> {..<length cs}" using order by simp
  from validate_sweep_ok[OF assms(1) k sub starts, of "[]" key] obtain errs where e: "validate_sweep key cs ?k [] order = Inr errs" "errs = [] \<longleftrightarrow> sorted_wrt (\<lambda>i j. \<not> clash cs j i) order"
    by auto
  have "\<not> clash cs j i" if "i \<in> set order" "j \<in> set order" "\<not> clash cs i j" for i j
  proof -
    have "length (chunk_box (cs ! i)) = length (chunk_box (cs ! j))"
      using assms(1) that(1,2) order(1) by (simp add: length_chunk_box[of ?n])
    then show ?thesis using overlaps_sym that(3) by blast
  qed
  from sorted_wrt_sym[OF this order(2)] have "sorted_wrt (\<lambda>i j. \<not> clash cs j i) order \<longleftrightarrow>
      (\<forall>i < length cs. \<forall>j < length cs. i \<noteq> j \<longrightarrow> \<not> clash cs j i)" unfolding order(1) by (simp add: Ball_def)
  then show ?thesis using True keys e by (auto simp: validate_overlaps_def order_def[symmetric])
next
  case False
  then have "i = j" if "i < length cs" "j < length cs" for i j using that by linarith
  then show ?thesis using False by (auto simp: validate_overlaps_def)
qed

text \<open>What the validation of one tensor accepts: chunks inside the tensor that do not overlap and, when
  there is more than one plan, have its volume together.\<close>

lemma validate_tensor_ok:
  assumes "\<forall>c \<in> set (ts_chunks t). rank_chunk (length (ts_size t)) c" and "ts_size t \<noteq> []"
  shows "validate_tensor plans key t = Inr [] \<longleftrightarrow> (\<forall>c \<in> set (ts_chunks t). within (ts_size t) (chunk_box c)) \<and>
    (\<forall>i < length (ts_chunks t). \<forall>j < length (ts_chunks t). i \<noteq> j \<longrightarrow> \<not> clash (ts_chunks t) i j) \<and>
    (plans > 1 \<longrightarrow> sum_list (map volume (map chunk_box (ts_chunks t))) = prod_list (ts_size t))"
proof -
  obtain over where over: "validate_overlaps key (ts_size t) (ts_chunks t) = Inr over"
    "over = [] \<longleftrightarrow> (\<forall>i < length (ts_chunks t). \<forall>j < length (ts_chunks t). i \<noteq> j \<longrightarrow> \<not> clash (ts_chunks t) i j)"
    using validate_overlaps_ok[OF assms] by blast
  show ?thesis
    unfolding over(2)[symmetric] validate_tensor_def bounds_errors_ok[OF assms(1)] over(1)
    using assms(2) by (auto simp: filter_empty_conv comp_def)
qed

definition well_ranked :: "'d tensor_storage_metadata \<Rightarrow> bool" where
  "well_ranked t \<longleftrightarrow> ts_size t \<noteq> [] \<and> (\<forall>n \<in> set (ts_size t). 0 \<le> n) \<and> (\<forall>c \<in> set (ts_chunks t). rank_chunk (length (ts_size t)) c)"

interpretation saved: tiling_check "\<lambda>(plans, key, t). plans > 1 \<and> well_ranked t \<and> validate_tensor plans key t = Inr []"
  "\<lambda>(plans, key, t). ts_size t" "\<lambda>(plans, key, t). map chunk_box (ts_chunks t)"
  by unfold_locales (auto simp: well_ranked_def validate_tensor_ok)

lemma traverse_concat_Nil: "rbind (traverse f xs) (\<lambda>es. Inr (concat es)) = Inr [] \<longleftrightarrow> (\<forall>x \<in> set xs. f x = Inr [])"
proof (induction xs)
  case (Cons x xs)
  then show ?case by (cases "f x"; cases "traverse f xs") auto
qed simp

lemma validate_global_plan_Nil:
  "validate_global_plan plans md = Inr [] \<longleftrightarrow> (\<forall>e \<in> set (state_dict_metadata md). validate_entry (length plans) e = Inr [])"
  unfolding validate_global_plan_def by (rule traverse_concat_Nil)





lemma global_plans_length: "global_plans hints md ps = Inr (md', ps') \<Longrightarrow> length ps' = length ps"
  by (induction ps arbitrary: md ps') (auto simp: rbind_eq_Inr split: prod.splits)

lemma uncached_Inr:
  assumes "create_global_plan_uncached itemsize iter self plans = Inr (gp, md)"
  shows "(\<exists>md0. create_default_global_save_plan (dedup_save_plans itemsize iter plans (dedup_save_to_lowest_rank self)) True = Inr (gp, md0)) \<and>
    validate_global_plan gp md = Inr []"
proof -
  obtain gp0 md0 md1 errors where r:
      "create_default_global_save_plan (dedup_save_plans itemsize iter plans (dedup_save_to_lowest_rank self)) True = Inr (gp0, md0)"
      "validate_global_plan gp0 md1 = Inr errors" "(if errors = [] then Inr (gp0, md1) else Inl ValueError) = Inr (gp, md)"
    using assms unfolding create_global_plan_uncached_def rbind_eq_Inr split_paired_Ex prod.case
    by (elim exE conjE) (rule that)
  have "gp0 = gp" "md1 = md" "errors = []" using r(3) by (simp_all split: if_splits)
  then show ?thesis using r(1,2) by blast
qed

lemma uncached_metadata:
  assumes "create_global_plan_uncached itemsize iter self plans = Inr (gp, md)" and "\<forall>S. finite S \<longrightarrow> set (iter S) = S"
  shows "length gp = length plans \<and> (\<forall>e \<in> set (state_dict_metadata md). validate_entry (length plans) e = Inr [])"
proof -
  let ?dedup = "dedup_save_plans itemsize iter plans (dedup_save_to_lowest_rank self)"
  obtain md0 where "create_default_global_save_plan ?dedup True = Inr (gp, md0)" using uncached_Inr[OF assms(1)] by blast
  from global_plans_length[OF default_global_plans[OF this]] have "length gp = length ?dedup" .
  moreover have "length ?dedup = length plans"
    using dedup_result[OF assms(2), of itemsize plans "dedup_save_to_lowest_rank self"] by auto
  ultimately show ?thesis using uncached_Inr[OF assms(1)] validate_global_plan_Nil[of gp md] by simp
qed

text \<open>C2: save and load compose. When several ranks save and the global plan is accepted, a later load with any
  chunks inside a tensor of the plan, of at least one dimension, reads every element of these chunks exactly once, from where it was saved. The
  order in which sets are iterated does not matter.\<close>

theorem saved_checkpoint_loads:
  assumes "create_global_plan_uncached itemsize iter self plans = Inr (gp, md)" and "\<forall>S. finite S \<longrightarrow> set (iter S) = S"
    and "1 < length plans" and "(name, TensorStorage t) \<in> set (state_dict_metadata md)" and "well_ranked t"
    and "\<forall>c \<in> set locals. rank_chunk (length (ts_size t)) c \<and> within (ts_size t) (chunk_box c)"
  shows "\<exists>its. create_read_items_for_chunk_list name (ts_chunks t) locals = Inr its \<and> loads_every_cell name (ts_chunks t) locals its"
proof -
  have "validate_entry (length plans) (name, TensorStorage t) = Inr []"
    using uncached_metadata[OF assms(1,2)] assms(4) by blast
  then have "tiles (ts_size t) (map chunk_box (ts_chunks t))"
    using saved.accepted_tiles[of "(length plans, name, t)"] assms(3,5) by (simp add: validate_entry_def)
  then show ?thesis using assms(5,6) by (intro load_reads_every_cell_once) (auto simp: well_ranked_def)
qed

definition demo_planner :: save_planner where
  "demo_planner = \<lparr>pl_flatten_state_dict = False, dedup_save_to_lowest_rank = True, enable_plan_caching = False, cached_plans_key = ''k''\<rparr>"

lemma demo_validate: "validate_tensor 2 ''w'' \<lparr>ts_properties = (), ts_size = [4], ts_chunks = [\<lparr>offsets = [0], sizes = [2]\<rparr>, \<lparr>offsets = [2], sizes = [2]\<rparr>]\<rparr> = Inr []"
  by (subst validate_tensor_ok) (auto simp: rank_chunk_def chunk_box_def within_def overlaps_def less_Suc_eq nth_Cons')

lemma demo_saved: "create_global_plan_uncached (\<lambda>_. 4) sorted_list_of_set demo_planner demo_shards = Inr (demo_global, demo_metadata)"
proof -
  have "dedup_save_plans (\<lambda>_. 4) sorted_list_of_set demo_shards True = demo_shards"
    by (simp add: dedup_save_plans_def Let_def note_plans_def note_plan_def note_item_def dedup_step_def select_plan_def demo_shards_def
        demo_shard_def index_key_def item_cost_def tensor_storage_size_def)
  moreover have "validate_global_plan demo_global demo_metadata = Inr []"
    using demo_validate by (simp add: validate_global_plan_Nil validate_entry_def demo_metadata_def demo_global_def numeral_2_eq_2)
  ultimately show ?thesis by (simp add: create_global_plan_uncached_def demo_planner_def demo_global_plan)
qed

theorem saved_checkpoint_loads_witness:
  "\<exists>its. create_read_items_for_chunk_list ''w'' [\<lparr>offsets = [0], sizes = [2]\<rparr>, \<lparr>offsets = [2], sizes = [2]\<rparr>] [\<lparr>offsets = [1], sizes = [3]\<rparr>] = Inr its \<and>
     loads_every_cell ''w'' [\<lparr>offsets = [0], sizes = [2]\<rparr>, \<lparr>offsets = [2], sizes = [2]\<rparr>] [\<lparr>offsets = [1], sizes = [3]\<rparr>] its"
  using saved_checkpoint_loads[OF demo_saved, of "''w''"
      "\<lparr>ts_properties = (), ts_size = [4], ts_chunks = [\<lparr>offsets = [0], sizes = [2]\<rparr>, \<lparr>offsets = [2], sizes = [2]\<rparr>]\<rparr>" "[\<lparr>offsets = [1], sizes = [3]\<rparr>]"]
  by (simp add: demo_shards_def demo_metadata_def well_ranked_def rank_chunk_def chunk_box_def within_def)


end
