(* ===== verification/PlanCache.thy ===== *)
theory PlanCache
  imports CheckpointSave
begin

text \<open>
  The plan cache of \<open>DefaultSavePlanner\<close>, \<^verbatim>\<open>src/tensorplay/distributed/checkpoint/default_planner.py\<close>, and one save of all
  ranks, \<^verbatim>\<open>state_dict_saver.py\<close>. Every rank has its own caches (class attributes of \<open>SavePlanner\<close> in its process) and
  its planner object; the coordinator makes the global plan. The write items and the flattening map that a
  rank gets from its state dict are inputs. A rank that finds its plan unchanged sends an unusable empty plan.
\<close>

subsection \<open>Comparison and merging of plans\<close>

definition item_matches :: "'d write_item \<Rightarrow> 'd write_item \<Rightarrow> bool" where
  "item_matches a b \<longleftrightarrow> wi_type a = wi_type b \<and>
     fqn (wi_index a) = fqn (wi_index b) \<and> ix_offset (wi_index a) = ix_offset (wi_index b) \<and> ix_index (wi_index a) = ix_index (wi_index b) \<and>
     (case (wi_tensor a, wi_tensor b) of
        (None, None) \<Rightarrow> True
      | (Some t, Some u) \<Rightarrow> tw_size t = tw_size u \<and> offsets (tw_chunk t) = offsets (tw_chunk u) \<and> sizes (tw_chunk t) = sizes (tw_chunk u)
      | _ \<Rightarrow> False)"

definition compare_save_plans :: "('d, 'm) save_plan \<Rightarrow> ('d, 'm) save_plan \<Rightarrow> bool" where
  "compare_save_plans plan other_plan \<longleftrightarrow> usable plan = usable other_plan \<and> length (items plan) = length (items other_plan) \<and>
     list_all (\<lambda>(a, b). item_matches a b) (zip (items plan) (items other_plan))"

definition contains_usable_plan :: "('d, 'm) save_plan list \<Rightarrow> bool" where
  "contains_usable_plan delta_plans = list_ex usable delta_plans"

definition merge_delta_local_plans :: "('d, 'm) save_plan list \<Rightarrow> ('d, 'm) save_plan list \<Rightarrow> ('d, 'm) save_plan list" where
  "merge_delta_local_plans cached_plans delta_plans =
     map2 (\<lambda>cached_plan delta_plan. if \<not> usable delta_plan then cached_plan else delta_plan) cached_plans delta_plans"

definition unusable_plan :: "('d, 'm) save_plan" where
  "unusable_plan = \<lparr>items = [], planner_data = None, usable = False\<rparr>"

subsection \<open>The planner of a rank\<close>

record ('d, 'm) planner_state =
  cached_save_plan :: "string \<rightharpoonup> ('d, 'm) save_plan"
  cached_final_save_plan :: "string \<rightharpoonup> ('d, 'm) save_plan"
  cached_all_plans :: "string \<rightharpoonup> ('d, 'm) save_plan list"
  cached_global_plan :: "string \<rightharpoonup> ('d, 'm) save_plan list"
  cached_metadata :: "string \<rightharpoonup> ('d, 'm) plan_metadata"
  pending_local_plan :: "('d, 'm) save_plan option"
  own_plan :: "('d, 'm) save_plan option"
  global_result :: "(('d, 'm) save_plan list \<times> ('d, 'm) plan_metadata) option"

definition initial_planner :: "('d, 'm) planner_state" where
  "initial_planner = \<lparr>cached_save_plan = Map.empty, cached_final_save_plan = Map.empty, cached_all_plans = Map.empty,
     cached_global_plan = Map.empty, cached_metadata = Map.empty, pending_local_plan = None, own_plan = None, global_result = None\<rparr>"

definition default_local_plan :: "save_planner \<Rightarrow> 'd write_item list \<Rightarrow> (string \<rightharpoonup> 'm) \<Rightarrow> ('d, 'm) save_plan" where
  "default_local_plan self write_items mappings =
     \<lparr>items = write_items, planner_data = (if pl_flatten_state_dict self then Some mappings else None), usable = True\<rparr>"

definition create_local_plan ::
  "save_planner \<Rightarrow> 'd write_item list \<Rightarrow> (string \<rightharpoonup> 'm) \<Rightarrow> ('d, 'm) planner_state \<Rightarrow> ('d, 'm) save_plan \<times> ('d, 'm) planner_state" where
  "create_local_plan self write_items mappings s =
     (let plan = default_local_plan self write_items mappings; s1 = s\<lparr>own_plan := Some plan\<rparr> in
      if enable_plan_caching self
      then if (case cached_save_plan s (cached_plans_key self) of None \<Rightarrow> False | Some c \<Rightarrow> compare_save_plans plan c)
           then (unusable_plan, s1)
           else (plan, s1\<lparr>pending_local_plan := Some plan\<rparr>)
      else (plan, s1))"

type_synonym ('d, 'm) global_step = "('d, 'm) save_plan list \<Rightarrow> (('d, 'm) save_plan list \<times> ('d, 'm) plan_metadata) result"

text \<open>\<open>_create_global_plan_with_caching\<close>; \<open>glob\<close> is \<open>_create_global_plan\<close>. An exception leaves the assignments made
  before it.\<close>

definition create_global_plan_with_caching ::
  "('d, 'm) global_step \<Rightarrow> save_planner \<Rightarrow> ('d, 'm) save_plan list \<Rightarrow> ('d, 'm) planner_state \<Rightarrow>
   (('d, 'm) save_plan list \<times> ('d, 'm) save_plan list \<times> ('d, 'm) plan_metadata) result \<times> ('d, 'm) planner_state" where
  "create_global_plan_with_caching glob self all_plans s =
     (let k = cached_plans_key self in
      case cached_all_plans s k of
        None \<Rightarrow>
          (case glob all_plans of
             Inl e \<Rightarrow> (Inl e, s)
           | Inr (global_plan, metadata) \<Rightarrow>
               (Inr (global_plan, global_plan, metadata),
                s\<lparr>cached_all_plans := (cached_all_plans s)(k \<mapsto> all_plans), cached_global_plan := (cached_global_plan s)(k \<mapsto> global_plan),
                  cached_metadata := (cached_metadata s)(k \<mapsto> metadata)\<rparr>))
      | Some cached \<Rightarrow>
          if \<not> contains_usable_plan all_plans
          then (case (cached_global_plan s k, cached_metadata s k) of
                  (Some global_plan, Some metadata) \<Rightarrow> (Inr (replicate (length all_plans) unusable_plan, global_plan, metadata), s)
                | _ \<Rightarrow> (Inl KeyError, s))
          else let merged = merge_delta_local_plans cached all_plans;
                   s1 = s\<lparr>cached_all_plans := (cached_all_plans s)(k \<mapsto> merged)\<rparr> in
               case glob merged of
                 Inl e \<Rightarrow> (Inl e, s1)
               | Inr (global_plan, metadata) \<Rightarrow>
                   (case cached_global_plan s k of
                      None \<Rightarrow> (Inl KeyError, s1)
                    | Some old \<Rightarrow>
                        (Inr (map2 (\<lambda>cached_plan new_plan. if compare_save_plans cached_plan new_plan then unusable_plan else new_plan) old global_plan,
                              global_plan, metadata),
                         s1\<lparr>cached_global_plan := (cached_global_plan s)(k \<mapsto> global_plan), cached_metadata := (cached_metadata s)(k \<mapsto> metadata)\<rparr>)))"

definition create_global_plan ::
  "('d, 'm) global_step \<Rightarrow> save_planner \<Rightarrow> ('d, 'm) save_plan list \<Rightarrow> ('d, 'm) planner_state \<Rightarrow>
   (('d, 'm) save_plan list \<times> ('d, 'm) plan_metadata) result \<times> ('d, 'm) planner_state" where
  "create_global_plan glob self all_plans s =
     (let (r, s1) = (if enable_plan_caching self then create_global_plan_with_caching glob self all_plans s
                     else (rbind (glob all_plans) (\<lambda>(global_plan, metadata). Inr (global_plan, global_plan, metadata)), s)) in
      case r of
        Inl e \<Rightarrow> (Inl e, s1)
      | Inr (delta, global_plan, metadata) \<Rightarrow> (Inr (delta, metadata), s1\<lparr>global_result := Some (global_plan, metadata)\<rparr>))"

definition finish_plan_with_caching ::
  "save_planner \<Rightarrow> ('d, 'm) save_plan \<Rightarrow> ('d, 'm) planner_state \<Rightarrow> ('d, 'm) save_plan result \<times> ('d, 'm) planner_state" where
  "finish_plan_with_caching self new_plan s =
     (if \<not> usable new_plan
      then (case cached_final_save_plan s (cached_plans_key self) of None \<Rightarrow> (Inl KeyError, s) | Some plan \<Rightarrow> (Inr plan, s))
      else (Inr new_plan, s\<lparr>cached_final_save_plan := (cached_final_save_plan s)(cached_plans_key self \<mapsto> new_plan)\<rparr>))"

definition finish_plan ::
  "save_planner \<Rightarrow> ('d, 'm) save_plan \<Rightarrow> ('d, 'm) planner_state \<Rightarrow> ('d, 'm) save_plan result \<times> ('d, 'm) planner_state" where
  "finish_plan self new_plan s =
     (if enable_plan_caching self
      then case finish_plan_with_caching self new_plan s of
             (Inl e, s1) \<Rightarrow> (Inl e, s1)
           | (Inr plan, s1) \<Rightarrow>
               (Inr plan, (case pending_local_plan s1 of None \<Rightarrow> s1
                           | Some p \<Rightarrow> s1\<lparr>cached_save_plan := (cached_save_plan s1)(cached_plans_key self \<mapsto> p), pending_local_plan := None\<rparr>)
                          \<lparr>own_plan := Some plan\<rparr>)
      else (Inr new_plan, s\<lparr>own_plan := Some new_plan\<rparr>))"

subsection \<open>One save of all ranks\<close>

text \<open>The local steps of all ranks, the global step of the coordinator \<open>co\<close>, and the last step of every rank; an
  exception of the global step ends the save on every rank.\<close>

definition local_steps ::
  "save_planner \<Rightarrow> ('d write_item list \<times> (string \<rightharpoonup> 'm)) list \<Rightarrow> ('d, 'm) planner_state list \<Rightarrow> (('d, 'm) save_plan \<times> ('d, 'm) planner_state) list" where
  "local_steps self inputs ranks = map2 (\<lambda>(ws, m) s. create_local_plan self ws m s) inputs ranks"

definition save_round ::
  "('d, 'm) global_step \<Rightarrow> save_planner \<Rightarrow> nat \<Rightarrow> ('d write_item list \<times> (string \<rightharpoonup> 'm)) list \<Rightarrow> ('d, 'm) planner_state list \<Rightarrow>
   (('d, 'm) save_plan list \<times> ('d, 'm) plan_metadata) result \<times> ('d, 'm) planner_state list" where
  "save_round glob self co inputs ranks =
     (let local = local_steps self inputs ranks; ranks1 = map snd local;
          (r, s) = create_global_plan glob self (map fst local) (ranks1 ! co);
          ranks2 = ranks1[co := s] in
      case r of
        Inl e \<Rightarrow> (Inl e, ranks2)
      | Inr (delta, metadata) \<Rightarrow>
          let done = map2 (finish_plan self) delta ranks2 in
          (rbind (traverse fst done) (\<lambda>finals. Inr (finals, metadata)), map snd done))"

subsection \<open>What the comparison sees\<close>

definition item_shape :: "'d write_item \<Rightarrow> write_item_type \<times> metadata_index \<times> (int list \<times> chunk) option" where
  "item_shape w = (wi_type w, wi_index w, map_option (\<lambda>t. (tw_size t, tw_chunk t)) (wi_tensor w))"

definition plan_shape :: "('d, 'm) save_plan \<Rightarrow> bool \<times> (write_item_type \<times> metadata_index \<times> (int list \<times> chunk) option) list" where
  "plan_shape p = (usable p, map item_shape (items p))"

lemma item_matches_shape: "item_matches a b \<longleftrightarrow> item_shape a = item_shape b"
  by (auto simp: item_matches_def item_shape_def split: option.splits)

lemma compare_shape: "compare_save_plans p q \<longleftrightarrow> plan_shape p = plan_shape q"
  by (auto simp: compare_save_plans_def plan_shape_def list_all_length item_matches_shape list_eq_iff_nth_eq)

lemma plan_shape_usable: "plan_shape p = plan_shape q \<Longrightarrow> usable p = usable q"
  by (simp add: plan_shape_def)

subsection \<open>Transparency of the cache\<close>

text \<open>Between saves: nothing is cached, or the coordinator has the plan each rank last sent, with the global
  plan and metadata made from them, and each rank has a final plan of the same shape.\<close>

definition cache_empty :: "string \<Rightarrow> ('d, 'm) planner_state \<Rightarrow> bool" where
  "cache_empty k s \<longleftrightarrow> cached_save_plan s k = None \<and> cached_all_plans s k = None"

definition cache_full ::
  "('d, 'm) global_step \<Rightarrow> string \<Rightarrow> nat \<Rightarrow> ('d, 'm) planner_state list \<Rightarrow> ('d, 'm) save_plan list \<Rightarrow> ('d, 'm) save_plan list \<Rightarrow> ('d, 'm) plan_metadata \<Rightarrow> bool" where
  "cache_full glob k co ranks all gp md \<longleftrightarrow>
     cached_all_plans (ranks ! co) k = Some all \<and> cached_global_plan (ranks ! co) k = Some gp \<and> cached_metadata (ranks ! co) k = Some md \<and>
     glob all = Inr (gp, md) \<and> length all = length ranks \<and> length gp = length ranks \<and> (\<forall>p \<in> set all. usable p) \<and>
     (\<forall>i < length ranks. cached_save_plan (ranks ! i) k = Some (all ! i) \<and> pending_local_plan (ranks ! i) = None \<and>
       (\<exists>f. cached_final_save_plan (ranks ! i) k = Some f \<and> plan_shape f = plan_shape (gp ! i)))"

definition round_inv :: "('d, 'm) global_step \<Rightarrow> string \<Rightarrow> nat \<Rightarrow> ('d, 'm) planner_state list \<Rightarrow> bool" where
  "round_inv glob k co ranks \<longleftrightarrow> co < length ranks \<and>
     ((\<forall>s \<in> set ranks. cache_empty k s \<and> pending_local_plan s = None) \<or> (\<exists>all gp md. cache_full glob k co ranks all gp md))"

lemma local_step_cases:
  assumes "enable_plan_caching self" and "plan = default_local_plan self ws m"
    and "create_local_plan self ws m s = (p, s')"
  shows "cached_save_plan s' = cached_save_plan s \<and> cached_final_save_plan s' = cached_final_save_plan s \<and>
    cached_all_plans s' = cached_all_plans s \<and> cached_global_plan s' = cached_global_plan s \<and> cached_metadata s' = cached_metadata s \<and>
    (p = plan \<and> usable p \<and> pending_local_plan s' = Some plan \<or>
     (\<exists>c. cached_save_plan s (cached_plans_key self) = Some c \<and> plan_shape plan = plan_shape c) \<and> p = unusable_plan \<and>
       pending_local_plan s' = pending_local_plan s)"
  using assms
  by (auto simp: create_local_plan_def Let_def compare_shape default_local_plan_def split: if_splits option.splits)

text \<open>The last step of a rank, given the plan it gets and the pending plan.\<close>

lemma finish_ok:
  assumes "enable_plan_caching self" and "usable new \<or> cached_final_save_plan s (cached_plans_key self) = Some f"
  shows "\<exists>s'. finish_plan self new s = (Inr (if usable new then new else f), s') \<and>
    cached_final_save_plan s' (cached_plans_key self) = Some (if usable new then new else f) \<and> pending_local_plan s' = None \<and>
    cached_save_plan s' (cached_plans_key self) =
      (case pending_local_plan s of None \<Rightarrow> cached_save_plan s (cached_plans_key self) | Some p \<Rightarrow> Some p) \<and>
    cached_all_plans s' = cached_all_plans s \<and> cached_global_plan s' = cached_global_plan s \<and> cached_metadata s' = cached_metadata s"
  using assms by (auto simp: finish_plan_def finish_plan_with_caching_def split: option.splits)

text \<open>A global step that returns one plan per rank and keeps the flag \<open>usable\<close>.\<close>

locale global_planner =
  fixes glob :: "('d, 'm) global_step"
  assumes keeps_usable: "glob plans = Inr (gp, md) \<Longrightarrow> map usable gp = map usable plans"
begin

lemma glob_length: "glob plans = Inr (gp, md) \<Longrightarrow> length gp = length plans"
  using keeps_usable by (metis length_map)

lemma glob_usable: "glob plans = Inr (gp, md) \<Longrightarrow> \<forall>p \<in> set plans. usable p \<Longrightarrow> i < length plans \<Longrightarrow> usable (gp ! i)"
  using keeps_usable glob_length by (metis nth_map nth_mem)

text \<open>What the coordinator has after a global step: the plans it used, and their global plan.\<close>

definition stored :: "string \<Rightarrow> ('d, 'm) planner_state \<Rightarrow> ('d, 'm) save_plan list \<Rightarrow> ('d, 'm) save_plan list \<Rightarrow> ('d, 'm) plan_metadata \<Rightarrow> bool" where
  "stored k s used gp md \<longleftrightarrow> glob used = Inr (gp, md) \<and> cached_all_plans s k = Some used \<and> cached_global_plan s k = Some gp \<and> cached_metadata s k = Some md"

lemma global_step_empty:
  assumes "enable_plan_caching self" and "cached_all_plans s (cached_plans_key self) = None"
    and "create_global_plan glob self ps s = (Inr (delta, md), s')"
  shows "stored (cached_plans_key self) s' ps delta md \<and> cached_save_plan s' = cached_save_plan s \<and>
    cached_final_save_plan s' = cached_final_save_plan s \<and> pending_local_plan s' = pending_local_plan s"
  using assms
  by (auto simp: create_global_plan_def create_global_plan_with_caching_def Let_def stored_def split: sum.splits prod.splits)

lemma merge_unusable:
  assumes "\<not> contains_usable_plan ps" and "length ps = length all"
  shows "merge_delta_local_plans all ps = all"
  using assms by (auto simp: merge_delta_local_plans_def contains_usable_plan_def list_ex_length intro!: nth_equalityI)

lemma global_step_full:
  assumes "enable_plan_caching self" and "stored (cached_plans_key self) s all gp0 md0" and "length ps = length all"
    and "create_global_plan glob self ps s = (Inr (delta, md), s')"
  shows "\<exists>gp. stored (cached_plans_key self) s' (merge_delta_local_plans all ps) gp md \<and> cached_save_plan s' = cached_save_plan s \<and>
    cached_final_save_plan s' = cached_final_save_plan s \<and> pending_local_plan s' = pending_local_plan s \<and> length delta = length all \<and>
    (\<forall>i < length all. delta ! i = gp ! i \<or> delta ! i = unusable_plan \<and> plan_shape (gp0 ! i) = plan_shape (gp ! i))"
proof (cases "contains_usable_plan ps")
  case False
  note same = merge_unusable[OF False assms(3)]
  show ?thesis unfolding same using False assms
    by (intro exI[of _ gp0]) (auto simp: create_global_plan_def create_global_plan_with_caching_def Let_def stored_def)
next
  case True
  let ?used = "merge_delta_local_plans all ps" and ?k = "cached_plans_key self"
  obtain gp where r: "glob ?used = Inr (gp, md)"
      "delta = map2 (\<lambda>c p. if compare_save_plans c p then unusable_plan else p) gp0 gp"
      "cached_all_plans s' ?k = Some ?used" "cached_global_plan s' ?k = Some gp" "cached_metadata s' ?k = Some md"
      "cached_save_plan s' = cached_save_plan s" "cached_final_save_plan s' = cached_final_save_plan s" "pending_local_plan s' = pending_local_plan s"
    using True assms
    by (cases "glob ?used") (auto simp: create_global_plan_def create_global_plan_with_caching_def Let_def stored_def)
  have "length gp0 = length all" using assms(2) glob_length by (auto simp: stored_def)
  moreover have "length gp = length all" using glob_length[OF r(1)] assms(3) by (simp add: merge_delta_local_plans_def)
  ultimately show ?thesis using r by (intro exI[of _ gp]) (auto simp: stored_def compare_shape)
qed

lemma finish_all:
  assumes "enable_plan_caching self" and "k = cached_plans_key self" and "co < length ranks" and "length delta = length ranks"
    and "stored k (ranks ! co) used gp md" and "length used = length ranks" and "\<forall>p \<in> set used. usable p"
    and delta: "\<And>i. i < length ranks \<Longrightarrow> delta ! i = gp ! i \<or>
      delta ! i = unusable_plan \<and> (\<exists>f. cached_final_save_plan (ranks ! i) k = Some f \<and> plan_shape f = plan_shape (gp ! i))"
    and pending: "\<And>i. i < length ranks \<Longrightarrow>
      (case pending_local_plan (ranks ! i) of None \<Rightarrow> cached_save_plan (ranks ! i) k | Some p \<Rightarrow> Some p) = Some (used ! i)"
    and "finished = map2 (finish_plan self) delta ranks" and "traverse fst finished = Inr finals"
  shows "cache_full glob k co (map snd finished) used gp md \<and> length finals = length ranks \<and>
    (\<forall>i < length ranks. plan_shape (finals ! i) = plan_shape (gp ! i))"
proof -
  have g: "glob used = Inr (gp, md)" using assms(5) by (simp add: stored_def)
  have len: "length gp = length ranks" using glob_length[OF g] assms(6) by simp
  have each: "\<exists>f s'. finished ! i = (Inr f, s') \<and> plan_shape f = plan_shape (gp ! i) \<and> cached_final_save_plan s' k = Some f \<and>
      pending_local_plan s' = None \<and> cached_save_plan s' k = Some (used ! i) \<and> cached_all_plans s' = cached_all_plans (ranks ! i) \<and>
      cached_global_plan s' = cached_global_plan (ranks ! i) \<and> cached_metadata s' = cached_metadata (ranks ! i)"
    if i: "i < length ranks" for i
  proof (cases "delta ! i = gp ! i")
    case True
    then have "usable (delta ! i)" using glob_usable[OF g assms(7)] i assms(6) by simp
    then show ?thesis using finish_ok[OF assms(1), of "delta ! i" "ranks ! i"] pending[OF i] True i assms(2,4,10) by auto
  next
    case False
    then obtain f where "delta ! i = unusable_plan" "cached_final_save_plan (ranks ! i) k = Some f" "plan_shape f = plan_shape (gp ! i)"
      using delta[OF i] by blast
    then show ?thesis using finish_ok[OF assms(1), of "delta ! i" "ranks ! i" f] pending[OF i] i assms(2,4,10)
      by (auto simp: unusable_plan_def)
  qed
  have n: "length finished = length ranks" using assms(4,10) by simp
  have fin: "length finals = length ranks" "\<And>i. i < length ranks \<Longrightarrow> fst (finished ! i) = Inr (finals ! i)"
    using assms(11) n unfolding traverse_Inr list_all2_conv_all_nth by auto
  show ?thesis unfolding cache_full_def
    using each fin n g len assms(3,5,6,7) by (fastforce simp: stored_def)
qed

end

context global_planner
begin

lemma save_round_ok:
  assumes "save_round glob self co inputs ranks = (Inr (finals, md), ranks')"
  obtains delta s where "create_global_plan glob self (map fst (local_steps self inputs ranks)) (map snd (local_steps self inputs ranks) ! co) = (Inr (delta, md), s)"
    "traverse fst (map2 (finish_plan self) delta ((map snd (local_steps self inputs ranks))[co := s])) = Inr finals"
    "ranks' = map snd (map2 (finish_plan self) delta ((map snd (local_steps self inputs ranks))[co := s]))"
  using assms by (auto simp: save_round_def Let_def rbind_eq_Inr split: prod.splits sum.splits)

lemma local_steps_nth:
  assumes "enable_plan_caching self" and "length inputs = length ranks" and "i < length ranks"
    and "plan = default_local_plan self (fst (inputs ! i)) (snd (inputs ! i))" and "local_steps self inputs ranks ! i = (p, t)"
  shows "cached_save_plan t = cached_save_plan (ranks ! i) \<and> cached_final_save_plan t = cached_final_save_plan (ranks ! i) \<and>
    cached_all_plans t = cached_all_plans (ranks ! i) \<and> cached_global_plan t = cached_global_plan (ranks ! i) \<and>
    cached_metadata t = cached_metadata (ranks ! i) \<and>
    (p = plan \<and> usable p \<and> pending_local_plan t = Some plan \<or>
     (\<exists>c. cached_save_plan (ranks ! i) (cached_plans_key self) = Some c \<and> plan_shape plan = plan_shape c) \<and> p = unusable_plan \<and>
       pending_local_plan t = pending_local_plan (ranks ! i))"
  using assms by (intro local_step_cases) (simp_all add: local_steps_def split_beta)

text \<open>The end of a save, after a global step of the coordinator that used the plans \<open>used\<close>.\<close>

lemma round_finish:
  fixes self co inputs ranks
  defines "loc \<equiv> local_steps self inputs ranks"
  assumes caching: "enable_plan_caching self" and k: "k = cached_plans_key self" and co: "co < length ranks"
    and len: "length inputs = length ranks" "length delta = length ranks" "length used = length ranks"
    and st: "stored k s used gp md" and keep: "cached_save_plan s = cached_save_plan (snd (loc ! co))"
      "cached_final_save_plan s = cached_final_save_plan (snd (loc ! co))" "pending_local_plan s = pending_local_plan (snd (loc ! co))"
    and used: "\<And>i. i < length ranks \<Longrightarrow> usable (used ! i) \<and>
      (case pending_local_plan (snd (loc ! i)) of None \<Rightarrow> cached_save_plan (snd (loc ! i)) k | Some p \<Rightarrow> Some p) = Some (used ! i)"
    and delta: "\<And>i. i < length ranks \<Longrightarrow> delta ! i = gp ! i \<or>
      delta ! i = unusable_plan \<and> (\<exists>f. cached_final_save_plan (snd (loc ! i)) k = Some f \<and> plan_shape f = plan_shape (gp ! i))"
    and fin: "traverse fst (map2 (finish_plan self) delta ((map snd loc)[co := s])) = Inr finals"
    and r': "ranks' = map snd (map2 (finish_plan self) delta ((map snd loc)[co := s]))"
  shows "round_inv glob k co ranks' \<and> length finals = length ranks \<and> glob used = Inr (gp, md) \<and>
    (\<forall>i < length ranks. plan_shape (finals ! i) = plan_shape (gp ! i))"
proof -
  let ?n = "length ranks" and ?ranks = "(map snd loc)[co := s]"
  have ln: "length loc = ?n" using len(1) by (simp add: loc_def local_steps_def)
  have nth2: "?ranks ! i = (if i = co then s else snd (loc ! i))" if "i < ?n" for i using that ln by simp
  have "cache_full glob k co (map snd (map2 (finish_plan self) delta ?ranks)) used gp md \<and> length finals = length ?ranks \<and>
      (\<forall>i < length ?ranks. plan_shape (finals ! i) = plan_shape (gp ! i))"
  proof (rule finish_all[OF caching k _ _ _ _ _ _ _ refl fin])
    show "stored k (?ranks ! co) used gp md" using st nth2[OF co] by simp
    show "\<forall>p \<in> set used. usable p" using used len(3) by (auto simp: all_set_conv_all_nth)
  next
    fix i assume "i < length ?ranks"
    then have i: "i < ?n" using ln by simp
    show "delta ! i = gp ! i \<or>
        delta ! i = unusable_plan \<and> (\<exists>f. cached_final_save_plan (?ranks ! i) k = Some f \<and> plan_shape f = plan_shape (gp ! i))"
      unfolding nth2[OF i] using delta[OF i] keep(2) by (cases "i = co") simp_all
    show "(case pending_local_plan (?ranks ! i) of None \<Rightarrow> cached_save_plan (?ranks ! i) k | Some p \<Rightarrow> Some p) = Some (used ! i)"
      unfolding nth2[OF i] using used[OF i] keep(1,3) by (cases "i = co") (auto split: option.splits)
  qed (use co len ln in simp_all)
  then show ?thesis using co ln len(2) st unfolding round_inv_def r' by (auto simp: stored_def)
qed

lemma round_transparent:
  assumes caching: "enable_plan_caching self" and k: "k = cached_plans_key self" and inv: "round_inv glob k co ranks"
    and len: "length inputs = length ranks" and run: "save_round glob self co inputs ranks = (Inr (finals, md), ranks')"
  shows "round_inv glob k co ranks' \<and> length finals = length ranks \<and> (\<exists>used gp. glob used = Inr (gp, md) \<and> length used = length ranks \<and>
    (\<forall>i < length ranks. plan_shape (used ! i) = plan_shape (default_local_plan self (fst (inputs ! i)) (snd (inputs ! i))) \<and>
      plan_shape (finals ! i) = plan_shape (gp ! i)))"
proof -
  let ?n = "length ranks" and ?plan = "\<lambda>i. default_local_plan self (fst (inputs ! i)) (snd (inputs ! i))"
  let ?loc = "local_steps self inputs ranks"
  obtain delta s where g: "create_global_plan glob self (map fst ?loc) (map snd ?loc ! co) = (Inr (delta, md), s)"
    and fin: "traverse fst (map2 (finish_plan self) delta ((map snd ?loc)[co := s])) = Inr finals"
    and r': "ranks' = map snd (map2 (finish_plan self) delta ((map snd ?loc)[co := s]))"
    using save_round_ok[OF run] .
  have ln: "length ?loc = ?n" using len by (simp add: local_steps_def)
  have co: "co < ?n" using inv by (simp add: round_inv_def)
  note loc = local_steps_nth[OF caching len _ refl surjective_pairing, folded k]
  consider (empty) "\<forall>t \<in> set ranks. cache_empty k t \<and> pending_local_plan t = None" | (full) all gp0 md0 where "cache_full glob k co ranks all gp0 md0"
    using inv unfolding round_inv_def by blast
  then show ?thesis
  proof cases
    case empty
    then have e: "cached_save_plan (ranks ! i) k = None" "cached_all_plans (ranks ! i) k = None" if "i < ?n" for i
      using that by (auto simp: cache_empty_def)
    let ?used = "map fst ?loc"
    have "cached_all_plans (map snd ?loc ! co) (cached_plans_key self) = None" using loc[OF co] e(2)[OF co] ln co k by simp
    note st = global_step_empty[OF caching this g, folded k]
    have u: "?used ! i = ?plan i" "usable (?used ! i)" "pending_local_plan (snd (?loc ! i)) = Some (?plan i)" if "i < ?n" for i
      using loc[OF that] e(1)[OF that] ln that by auto
    have "length delta = ?n" using st glob_length[of ?used] ln by (simp add: stored_def)
    then have "round_inv glob k co ranks' \<and> length finals = ?n \<and> glob ?used = Inr (delta, md) \<and>
        (\<forall>i < ?n. plan_shape (finals ! i) = plan_shape (delta ! i))"
      using round_finish[OF caching k co len _ _ _ _ _ _ _ _ fin r', of ?used delta md] st u ln co by auto
    then show ?thesis using u(1) ln by (intro conjI exI[of _ ?used] exI[of _ delta]) auto
  next
    case (full all gp0 md0)
    then have f: "stored k (ranks ! co) all gp0 md0" "length all = ?n" "length gp0 = ?n" "\<forall>p \<in> set all. usable p"
        "\<And>i. i < ?n \<Longrightarrow> cached_save_plan (ranks ! i) k = Some (all ! i) \<and> pending_local_plan (ranks ! i) = None"
        "\<And>i. i < ?n \<Longrightarrow> \<exists>f. cached_final_save_plan (ranks ! i) k = Some f \<and> plan_shape f = plan_shape (gp0 ! i)"
      by (simp_all add: cache_full_def stored_def)
    let ?used = "merge_delta_local_plans all (map fst ?loc)"
    have st0: "stored k (map snd ?loc ! co) all gp0 md0" using f(1) loc[OF co] ln co by (simp add: stored_def)
    obtain gp where gp: "stored k s ?used gp md" "cached_save_plan s = cached_save_plan (snd (?loc ! co))"
        "cached_final_save_plan s = cached_final_save_plan (snd (?loc ! co))" "pending_local_plan s = pending_local_plan (snd (?loc ! co))"
        "length delta = ?n" "\<And>i. i < ?n \<Longrightarrow> delta ! i = gp ! i \<or> delta ! i = unusable_plan \<and> plan_shape (gp0 ! i) = plan_shape (gp ! i)"
      using global_step_full[OF caching st0[unfolded k] _ g] f(2) ln co k by auto
    have u: "plan_shape (?used ! i) = plan_shape (?plan i)" "usable (?used ! i)"
        "(case pending_local_plan (snd (?loc ! i)) of None \<Rightarrow> cached_save_plan (snd (?loc ! i)) k | Some p \<Rightarrow> Some p) = Some (?used ! i)" if "i < ?n" for i
      using loc[OF that] f(2,4) f(5)[OF that] ln that by (auto simp: merge_delta_local_plans_def unusable_plan_def)
    have lu: "length ?used = ?n" using f(2) ln by (simp add: merge_delta_local_plans_def)
    have d: "delta ! i = gp ! i \<or> delta ! i = unusable_plan \<and>
        (\<exists>f. cached_final_save_plan (snd (?loc ! i)) k = Some f \<and> plan_shape f = plan_shape (gp ! i))" if "i < ?n" for i
      using gp(6)[OF that] f(6)[OF that] loc[OF that] by auto
    from round_finish[OF caching k co len gp(5) lu gp(1-4) _ d fin r'] show ?thesis using u lu by blast
  qed
qed

end

lemma dedup_usable: "map usable (dedup_save_plans itemsize iter plans lowest) = map usable plans"
proof -
  have len: "length (snd (fold (dedup_step itemsize iter lowest by_ix) es (sz, keep))) = length keep" for by_ix es sz keep
    by (induction es arbitrary: sz keep) (simp_all add: dedup_step_def Let_def split_beta)
  show ?thesis unfolding dedup_save_plans_def Let_def split_beta
    by (intro nth_equalityI) (simp_all add: len)
qed

lemma global_plans_usable: "global_plans hints md ps = Inr (md', ps') \<Longrightarrow> map usable ps' = map usable ps"
  by (induction ps arbitrary: md ps') (auto simp: rbind_eq_Inr split: prod.splits)

interpretation uncached: global_planner "create_global_plan_uncached itemsize iter self" for itemsize iter self
proof
  fix plans gp md
  assume a: "create_global_plan_uncached itemsize iter self plans = Inr (gp, md)"
  obtain md0 where "create_default_global_save_plan (dedup_save_plans itemsize iter plans (dedup_save_to_lowest_rank self)) True = Inr (gp, md0)"
    using uncached_Inr[OF a] by blast
  then show "map usable gp = map usable plans" using global_plans_usable[OF default_global_plans] dedup_usable by metis
qed

text \<open>C22: the plan cache is transparent up to what \<open>_compare_save_plans\<close> looks at. From any state of coordinator and ranks with
  consistent caches, such as the one before the first save, the metadata of a further save is that of a global plan made without the
  cache from plans of the same shape as the plans of the ranks, every rank writes a plan of the shape of its part
  of it, and the caches stay consistent.\<close>

theorem cached_save_transparent:
  assumes "enable_plan_caching self" and "round_inv (create_global_plan_uncached itemsize iter self) (cached_plans_key self) co ranks"
    and "length inputs = length ranks"
    and "save_round (create_global_plan_uncached itemsize iter self) self co inputs ranks = (Inr (finals, md), ranks')"
  shows "round_inv (create_global_plan_uncached itemsize iter self) (cached_plans_key self) co ranks' \<and>
    (\<exists>used gp. create_global_plan_uncached itemsize iter self used = Inr (gp, md) \<and> length used = length ranks \<and> length finals = length ranks \<and>
      (\<forall>i < length ranks. plan_shape (used ! i) = plan_shape (default_local_plan self (fst (inputs ! i)) (snd (inputs ! i))) \<and>
        plan_shape (finals ! i) = plan_shape (gp ! i)))"
  using uncached.round_transparent[OF assms(1) refl assms(2-4)] by blast

definition caching_planner :: save_planner where
  "caching_planner = \<lparr>pl_flatten_state_dict = False, dedup_save_to_lowest_rank = True, enable_plan_caching = True, cached_plans_key = ''k''\<rparr>"

definition demo_inputs :: "(unit write_item list \<times> (string \<rightharpoonup> unit)) list" where
  "demo_inputs = [([demo_shard 0], Map.empty), ([demo_shard 2], Map.empty)]"

lemma caching_planner_same: "create_global_plan_uncached itemsize iter caching_planner = create_global_plan_uncached itemsize iter demo_planner"
  by (simp add: fun_eq_iff create_global_plan_uncached_def caching_planner_def demo_planner_def)

lemma demo_round: "\<exists>ranks'. save_round (create_global_plan_uncached (\<lambda>_. 4) sorted_list_of_set caching_planner) caching_planner 0 demo_inputs
    [initial_planner, initial_planner] = (Inr (demo_global, demo_metadata), ranks')"
proof -
  have "map fst (local_steps caching_planner demo_inputs [initial_planner, initial_planner]) = demo_shards"
    by (simp add: local_steps_def demo_inputs_def create_local_plan_def initial_planner_def caching_planner_def default_local_plan_def demo_shards_def Let_def)
  then show ?thesis using demo_saved
    by (simp add: save_round_def Let_def create_global_plan_def create_global_plan_with_caching_def caching_planner_same local_steps_def
        demo_inputs_def create_local_plan_def initial_planner_def split_beta)
       (simp add: caching_planner_def demo_global_def finish_plan_def finish_plan_with_caching_def)
qed

theorem cached_save_transparent_witness:
  "\<exists>used gp. create_global_plan_uncached (\<lambda>_. 4) sorted_list_of_set caching_planner used = Inr (gp, demo_metadata) \<and> length used = 2 \<and>
     plan_shape (used ! 1) = plan_shape (default_local_plan caching_planner [demo_shard 2] (Map.empty :: string \<rightharpoonup> unit)) \<and>
     plan_shape (demo_global ! 1) = plan_shape (gp ! 1)"
proof -
  obtain ranks' where r: "save_round (create_global_plan_uncached (\<lambda>_. 4) sorted_list_of_set caching_planner) caching_planner 0 demo_inputs
      [initial_planner, initial_planner] = (Inr (demo_global, demo_metadata), ranks')" using demo_round by blast
  have "round_inv (create_global_plan_uncached (\<lambda>_. 4) sorted_list_of_set caching_planner) (cached_plans_key caching_planner) 0 [initial_planner, initial_planner]"
    by (simp add: round_inv_def cache_empty_def initial_planner_def)
  from cached_save_transparent[OF _ this _ r] obtain used gp where u:
    "create_global_plan_uncached (\<lambda>_. 4) sorted_list_of_set caching_planner used = Inr (gp, demo_metadata)" "length used = 2"
    "\<forall>i < 2. plan_shape (used ! i) = plan_shape (default_local_plan caching_planner (fst (demo_inputs ! i)) (snd (demo_inputs ! i))) \<and>
        plan_shape (demo_global ! i) = plan_shape (gp ! i)"
    by (auto simp: caching_planner_def demo_inputs_def numeral_2_eq_2)
  from u(3) have "plan_shape (used ! 1) = plan_shape (default_local_plan caching_planner [demo_shard 2] (Map.empty :: string \<rightharpoonup> unit)) \<and> plan_shape (demo_global ! 1) = plan_shape (gp ! 1)"
    by (simp add: demo_inputs_def)
  then show ?thesis using u(1,2) by blast
qed

subsection \<open>Where the cache is not transparent\<close>

text \<open>The shape of a plan leaves out the properties of the tensors: two plans that differ in the dtype compare
  equal, so a save after a change of dtype reuses the metadata of the save before.\<close>

theorem compare_ignores_properties:
  "compare_save_plans \<lparr>items = [w\<lparr>wi_tensor := Some (t\<lparr>tw_properties := d\<rparr>)\<rparr>], planner_data = m, usable = True\<rparr>
     \<lparr>items = [w\<lparr>wi_tensor := Some (t\<lparr>tw_properties := d'\<rparr>)\<rparr>], planner_data = m', usable = True\<rparr>"
  by (simp add: compare_save_plans_def item_matches_def)

text \<open>A rejected global plan stays in the cache of local plans: the coordinator stores the merged plans before it
  makes the global plan, so the next save of a rank with an unchanged plan is merged with the rejected one.\<close>

theorem rejected_plans_stay_cached:
  assumes "enable_plan_caching self" and "cached_all_plans s (cached_plans_key self) = Some cached" and "contains_usable_plan plans"
    and "glob (merge_delta_local_plans cached plans) = Inl e"
  shows "\<exists>s'. create_global_plan glob self plans s = (Inl e, s') \<and>
    cached_all_plans s' (cached_plans_key self) = Some (merge_delta_local_plans cached plans) \<and>
    cached_save_plan s' = cached_save_plan s \<and> cached_global_plan s' = cached_global_plan s"
  using assms by (simp add: create_global_plan_def create_global_plan_with_caching_def Let_def)

end
