(* ===== verification/StateDict.thy ===== *)
theory StateDict
  imports Prelude "HOL-Library.AList"
begin

text \<open>
  Nested state dicts of checkpoints, \<^verbatim>\<open>src/tensorplay/distributed/checkpoint\<close>: traversal and element access
  (\<^verbatim>\<open>_traverse.py\<close>), flattening and rebuilding (\<^verbatim>\<open>_nested_dict.py\<close>). A state dict is made of dictionaries with string or integer
  keys, lists, \<open>None\<close> and other values; a tuple is one of the other values, since the traversal does not enter it.
  Two things about the other values are parameters: whether one is a tensor (or makes write items), and what an assignment
  through one does. Containers are not shared, so the in-place updates of the code are functional updates here.
\<close>

subsection \<open>Data\<close>

datatype path_item = StrItem string | IntItem int

type_synonym obj_path = "path_item list"

datatype 'a sd_obj = DictObj "(path_item \<times> 'a sd_obj) list" | ListObj "'a sd_obj list" | NoneObj | ValueObj 'a

text \<open>Python's \<open>str\<close> on keys.\<close>

definition int_str :: "int \<Rightarrow> string" where
  "int_str i = (if i < 0 then CHR ''-'' # nat_str (nat (- i)) else nat_str (nat i))"

fun item_str :: "path_item \<Rightarrow> string" where
  "item_str (StrItem s) = s"
| "item_str (IntItem i) = int_str i"

fun join_dots :: "string list \<Rightarrow> string" where
  "join_dots [] = []"
| "join_dots [s] = s"
| "join_dots (s # t # ts) = s @ CHR ''.'' # join_dots (t # ts)"

fun split_dots :: "string \<Rightarrow> string list" where
  "split_dots [] = [[]]"
| "split_dots (c # cs) =
     (if c = CHR ''.'' then [] # split_dots cs
      else case split_dots cs of [] \<Rightarrow> [[c]] | s # ss \<Rightarrow> (c # s) # ss)"

subsection \<open>Traversal\<close>

fun keep_visiting :: "('a \<Rightarrow> bool) \<Rightarrow> 'a sd_obj \<Rightarrow> bool" where
  "keep_visiting is_tensor (ValueObj v) = is_tensor v"
| "keep_visiting is_tensor _ = False"

fun is_container :: "'a sd_obj \<Rightarrow> bool" where
  "is_container (DictObj _) = True"
| "is_container (ListObj _) = True"
| "is_container _ = False"

fun is_terminal :: "('a \<Rightarrow> bool) \<Rightarrow> 'a sd_obj \<Rightarrow> bool" where
  "is_terminal is_tensor (DictObj kvs) = False"
| "is_terminal is_tensor (ListObj xs) =
     (\<forall>x \<in> set xs. \<not> (is_container x \<and> \<not> is_terminal is_tensor x) \<and> \<not> keep_visiting is_tensor x)"
| "is_terminal is_tensor NoneObj = True"
| "is_terminal is_tensor (ValueObj v) = True"

function (sequential) traverse_obj :: "('a \<Rightarrow> bool) \<Rightarrow> obj_path \<Rightarrow> 'a sd_obj \<Rightarrow> (obj_path \<times> 'a sd_obj) list" where
  "traverse_obj is_tensor path (DictObj kvs) =
     concat (map (\<lambda>(key, child). traverse_obj is_tensor (path @ [StrItem (item_str key)]) child) kvs)"
| "traverse_obj is_tensor path (ListObj xs) =
     (if is_terminal is_tensor (ListObj xs) then [(path, ListObj xs)]
      else concat (map (\<lambda>i. traverse_obj is_tensor (path @ [IntItem (int i)]) (xs ! i)) [0..<length xs]))"
| "traverse_obj is_tensor path value = [(path, value)]"
  by pat_completeness auto
termination
proof (relation "measure (\<lambda>(t, p, v). size v)", goal_cases)
  case (2 t p kvs z k c)
  then have "size c < size_list (size_prod (\<lambda>_. 0) size) kvs"
    by (induction kvs) auto
  then show ?case by simp
next
  case (3 t p xs i)
  then have "xs ! i \<in> set xs" by simp
  then have "size (xs ! i) \<le> size_list size xs" by (rule size_list_estimation') simp
  then show ?case by simp
qed simp

definition traverse_state_dict :: "('a \<Rightarrow> bool) \<Rightarrow> (path_item \<times> 'a sd_obj) list \<Rightarrow> (obj_path \<times> 'a sd_obj) list" where
  "traverse_state_dict is_tensor sd = concat (map (\<lambda>(key, value). traverse_obj is_tensor [StrItem (item_str key)] value) sd)"

subsection \<open>Element access\<close>

text \<open>What an empty container for the next path item is.\<close>

definition default_container :: "path_item \<Rightarrow> 'a sd_obj" where
  "default_container nextkey = (case nextkey of IntItem _ \<Rightarrow> ListObj [] | StrItem _ \<Rightarrow> DictObj [])"

definition extend_list :: "'a sd_obj list \<Rightarrow> int \<Rightarrow> 'a sd_obj list" where
  "extend_list xs i = xs @ replicate (nat (i + 1) - length xs) NoneObj"

text \<open>Position of a list index, which may be negative.\<close>

definition list_pos :: "'a sd_obj list \<Rightarrow> int \<Rightarrow> nat result" where
  "list_pos xs i = (let j = (if i < 0 then i + int (length xs) else i) in
     if 0 \<le> j \<and> j < int (length xs) then Inr (nat j) else Inl IndexError)"

fun nested_set_element ::
  "('a \<Rightarrow> obj_path \<Rightarrow> 'a sd_obj \<Rightarrow> 'a result) \<Rightarrow> 'a sd_obj \<Rightarrow> obj_path \<Rightarrow> 'a sd_obj \<Rightarrow> 'a sd_obj result" where
  "nested_set_element assign current [] value = Inl ValueError"
| "nested_set_element assign (DictObj kvs) [lastkey] value = Inr (DictObj (AList.update lastkey value kvs))"
| "nested_set_element assign (DictObj kvs) (key # nextkey # rest) value =
     rbind (nested_set_element assign (case map_of kvs key of None \<Rightarrow> default_container nextkey | Some c \<Rightarrow> c) (nextkey # rest) value)
       (\<lambda>c. Inr (DictObj (AList.update key c kvs)))"
| "nested_set_element assign (ListObj xs) (StrItem s # rest) value = Inl TypeError"
| "nested_set_element assign (ListObj xs) [IntItem i] value =
     (let ys = extend_list xs i in rbind (list_pos ys i) (\<lambda>p. Inr (ListObj (ys[p := value]))))"
| "nested_set_element assign (ListObj xs) (IntItem i # nextkey # rest) value =
     (let ys = extend_list xs i in
      rbind (list_pos ys i) (\<lambda>p.
      rbind (nested_set_element assign (case ys ! p of NoneObj \<Rightarrow> default_container nextkey | c \<Rightarrow> c) (nextkey # rest) value) (\<lambda>c.
      Inr (ListObj (ys[p := c])))))"
| "nested_set_element assign NoneObj (key # rest) value = Inl TypeError"
| "nested_set_element assign (ValueObj v) (key # rest) value = rbind (assign v (key # rest) value) (\<lambda>w. Inr (ValueObj w))"

fun get_element :: "'a sd_obj \<Rightarrow> obj_path \<Rightarrow> 'a sd_obj \<Rightarrow> 'a sd_obj result" where
  "get_element current [] default_value = Inr current"
| "get_element current (IntItem i # path) default_value =
     (case current of
        ListObj xs \<Rightarrow> if int (length xs) \<le> i then Inr default_value
                      else rbind (py_nth xs i) (\<lambda>c. get_element c path default_value)
      | _ \<Rightarrow> Inr default_value)"
| "get_element current (StrItem s # path) default_value =
     (case current of
        DictObj kvs \<Rightarrow> (case map_of kvs (StrItem s) of None \<Rightarrow> Inr default_value | Some c \<Rightarrow> get_element c path default_value)
      | _ \<Rightarrow> Inr default_value)"

subsection \<open>Flattening\<close>

definition flat_copy ::
  "(string \<times> 'a sd_obj) list \<times> (string \<times> obj_path) list \<Rightarrow> obj_path \<times> 'a sd_obj \<Rightarrow>
   ((string \<times> 'a sd_obj) list \<times> (string \<times> obj_path) list) result" where
  "flat_copy s visit = (case s of (flat, mapping) \<Rightarrow> case visit of (path, value) \<Rightarrow>
     let key = join_dots (map item_str path) in
     if key \<in> fst ` set flat then Inl ValueError
     else Inr (flat @ [(key, value)], AList.update key path mapping))"

definition flatten_state_dict ::
  "('a \<Rightarrow> bool) \<Rightarrow> (path_item \<times> 'a sd_obj) list \<Rightarrow> ((string \<times> 'a sd_obj) list \<times> (string \<times> obj_path) list) result" where
  "flatten_state_dict is_tensor sd = foldM flat_copy ([], []) (traverse_state_dict is_tensor sd)"

definition flat_path :: "(string \<times> obj_path) list option \<Rightarrow> string \<Rightarrow> obj_path" where
  "flat_path mapping key =
     (case mapping of
        None \<Rightarrow> map StrItem (split_dots key)
      | Some m \<Rightarrow> (case map_of m key of None \<Rightarrow> map StrItem (split_dots key) | Some path \<Rightarrow> path))"

definition unflatten_state_dict ::
  "('a \<Rightarrow> obj_path \<Rightarrow> 'a sd_obj \<Rightarrow> 'a result) \<Rightarrow> (string \<times> 'a sd_obj) list \<Rightarrow> (string \<times> obj_path) list option \<Rightarrow> 'a sd_obj result" where
  "unflatten_state_dict assign flat mapping =
     foldM (\<lambda>root (key, value). nested_set_element assign root (flat_path mapping key) value) (DictObj []) flat"

subsection \<open>Flattening and rebuilding are inverse\<close>

text \<open>A state dict that flattening does not change: string keys, none of them twice, no empty dictionary inside.\<close>

fun solid :: "('a \<Rightarrow> bool) \<Rightarrow> 'a sd_obj \<Rightarrow> bool" where
  "solid t (DictObj kvs) \<longleftrightarrow> distinct (map fst kvs) \<and> (\<forall>k \<in> fst ` set kvs. \<exists>s. k = StrItem s) \<and>
     (\<forall>c \<in> snd ` set kvs. c \<noteq> DictObj [] \<and> solid t c)"
| "solid t (ListObj xs) \<longleftrightarrow> is_terminal t (ListObj xs) \<or> (\<forall>c \<in> set xs. c \<noteq> DictObj [] \<and> solid t c)"
| "solid t NoneObj \<longleftrightarrow> True"
| "solid t (ValueObj v) \<longleftrightarrow> True"

abbreviation visits :: "('a \<Rightarrow> bool) \<Rightarrow> 'a sd_obj \<Rightarrow> (obj_path \<times> 'a sd_obj) list" where
  "visits t \<equiv> traverse_obj t []"

definition under :: "path_item \<Rightarrow> (obj_path \<times> 'a sd_obj) list \<Rightarrow> (obj_path \<times> 'a sd_obj) list" where
  "under k = map (\<lambda>(p, v). (k # p, v))"

lemma under_simps [simp]: "under k [] = []" "under k ((p, v) # vs) = (k # p, v) # under k vs" "under k vs = [] \<longleftrightarrow> vs = []"
  by (simp_all add: under_def)

lemma traverse_obj_path: "traverse_obj t p c = map (\<lambda>(q, v). (p @ q, v)) (visits t c)"
proof (induction c arbitrary: p rule: sd_obj.induct)
  case (DictObj kvs)
  have "traverse_obj t (p @ [q]) c = map (\<lambda>(r, v). (p @ r, v)) (traverse_obj t [q] c)" if "(k, c) \<in> set kvs" for k c q
    using DictObj[OF that, of c "p @ [q]"] DictObj[OF that, of c "[q]"] by (simp add: comp_def split_beta)
  then show ?case by (auto simp: map_concat intro!: arg_cong[where f = concat])
next
  case (ListObj xs)
  have "traverse_obj t (p @ [q]) c = map (\<lambda>(r, v). (p @ r, v)) (traverse_obj t [q] c)" if "c \<in> set xs" for c q
    using ListObj[OF that, of "p @ [q]"] ListObj[OF that, of "[q]"] by (simp add: comp_def split_beta)
  then show ?case by (auto simp: map_concat intro!: arg_cong[where f = concat])
qed simp_all

lemma traverse_obj_under: "traverse_obj t [k] c = under k (visits t c)"
  by (subst traverse_obj_path) (simp add: under_def)

lemma visits_dict: "\<forall>k \<in> fst ` set kvs. \<exists>s. k = StrItem s \<Longrightarrow> visits t (DictObj kvs) = concat (map (\<lambda>(k, c). under k (visits t c)) kvs)"
  by (force simp: traverse_obj_under intro!: arg_cong[where f = concat])

lemma visits_list: "\<not> is_terminal t (ListObj xs) \<Longrightarrow>
    visits t (ListObj xs) = concat (map (\<lambda>i. under (IntItem (int i)) (visits t (xs ! i))) [0..<length xs])"
  by (auto simp: traverse_obj_under)

lemma visits_nonempty: "solid t c \<Longrightarrow> c \<noteq> DictObj [] \<Longrightarrow> visits t c \<noteq> []"
proof (induction c rule: sd_obj.induct)
  case (DictObj kvs)
  then obtain k c rest where "kvs = (k, c) # rest" by (cases kvs) auto
  then show ?case using DictObj.IH[of "(k, c)" c] DictObj.prems by (simp add: traverse_obj_under)
next
  case (ListObj xs)
  show ?case
  proof (cases "is_terminal t (ListObj xs)")
    case False
    then obtain c rest where xs: "xs = c # rest" by (cases xs) auto
    then have "visits t c \<noteq> []" using ListObj.IH[of c] ListObj.prems False by auto
    then show ?thesis unfolding visits_list[OF False] by (auto simp: xs upt_conv_Cons simp del: upt_Suc)
  qed (use ListObj in simp)
qed simp_all

definition put :: "('a \<Rightarrow> obj_path \<Rightarrow> 'a sd_obj \<Rightarrow> 'a result) \<Rightarrow> 'a sd_obj \<Rightarrow> obj_path \<times> 'a sd_obj \<Rightarrow> 'a sd_obj result" where
  "put assign c visit = nested_set_element assign c (fst visit) (snd visit)"

lemma update_new: "k \<notin> fst ` set kvs \<Longrightarrow> AList.update k c kvs = kvs @ [(k, c)]"
  by (induction kvs) auto

lemma update_last: "k \<notin> fst ` set kvs \<Longrightarrow> AList.update k c (kvs @ [(k, d)]) = kvs @ [(k, c)]"
  by (induction kvs) auto

lemma map_of_last: "k \<notin> fst ` set kvs \<Longrightarrow> map_of (kvs @ [(k, c)]) k = Some c"
  by (simp add: map_add_def map_of_eq_None_iff[THEN iffD2])

lemma put_in_dict:
  assumes "k \<notin> fst ` set kvs" and "p \<noteq> []"
  shows "put assign (DictObj (kvs @ [(k, c)])) (k # p, v) = rbind (put assign c (p, v)) (\<lambda>c'. Inr (DictObj (kvs @ [(k, c')])))"
  using assms by (cases p) (simp_all add: put_def map_of_last update_last del: map_of_append)

lemma put_new_dict:
  assumes "k \<notin> fst ` set kvs" and "p \<noteq> []"
  shows "put assign (DictObj kvs) (k # p, v) = rbind (put assign (default_container (hd p)) (p, v)) (\<lambda>c'. Inr (DictObj (kvs @ [(k, c')])))"
  using assms by (cases p) (simp_all add: put_def update_new map_of_eq_None_iff[THEN iffD2])

lemma list_end [simp]: "extend_list xs (int (length xs)) = xs @ [NoneObj]" "extend_list (xs @ [c]) (int (length xs)) = xs @ [c]"
  "list_pos (xs @ [c]) (int (length xs)) = Inr (length xs)"
  by (simp_all add: extend_list_def list_pos_def nat_add_distrib)

lemma put_in_list:
  assumes "c \<noteq> NoneObj" and "p \<noteq> []"
  shows "put assign (ListObj (xs @ [c])) (IntItem (int (length xs)) # p, v) = rbind (put assign c (p, v)) (\<lambda>c'. Inr (ListObj (xs @ [c'])))"
  using assms by (cases p; cases c) (simp_all add: put_def Let_def)

lemma put_new_list:
  assumes "p \<noteq> []"
  shows "put assign (ListObj xs) (IntItem (int (length xs)) # p, v) =
    rbind (put assign (default_container (hd p)) (p, v)) (\<lambda>c'. Inr (ListObj (xs @ [c'])))"
  using assms by (cases p) (simp_all add: put_def Let_def)

lemma put_not_none: "put assign c visit = Inr c' \<Longrightarrow> c' \<noteq> NoneObj \<or> c = NoneObj"
  by (cases "(assign, c, fst visit, snd visit)" rule: nested_set_element.cases) (auto simp: put_def rbind_eq_Inr Let_def)

lemma fold_put_dict:
  assumes "k \<notin> fst ` set kvs" and "\<forall>(p, v) \<in> set vs. p \<noteq> []"
  shows "foldM (put assign) (DictObj (kvs @ [(k, c)])) (under k vs) = rbind (foldM (put assign) c vs) (\<lambda>c'. Inr (DictObj (kvs @ [(k, c')])))"
  using assms(2)
proof (induction vs arbitrary: c)
  case (Cons e vs)
  obtain p v where e: "e = (p, v)" by (cases e)
  then show ?case using Cons put_in_dict[OF assms(1), of p assign c v] by (cases "put assign c (p, v)") auto
qed simp

lemma fold_put_list:
  assumes "c \<noteq> NoneObj" and "\<forall>(p, v) \<in> set vs. p \<noteq> []"
  shows "foldM (put assign) (ListObj (xs @ [c])) (under (IntItem (int (length xs))) vs) =
    rbind (foldM (put assign) c vs) (\<lambda>c'. Inr (ListObj (xs @ [c'])))"
  using assms
proof (induction vs arbitrary: c)
  case (Cons e vs)
  obtain p v where e: "e = (p, v)" by (cases e)
  then show ?case using Cons put_in_list[of c p assign xs v] put_not_none[of assign c "(p, v)"]
    by (cases "put assign c (p, v)") auto
qed simp

text \<open>The visits of a container rebuild it below any key: the first one makes the container.\<close>

lemma fold_put_container:
  assumes "foldM (put assign) (default_container (hd (fst (hd vs)))) vs = Inr c" and "vs \<noteq> []" and "\<forall>(p, v) \<in> set vs. p \<noteq> []"
  shows "k \<notin> fst ` set kvs \<Longrightarrow> foldM (put assign) (DictObj kvs) (under k vs) = Inr (DictObj (kvs @ [(k, c)]))"
    and "foldM (put assign) (ListObj xs) (under (IntItem (int (length xs))) vs) = Inr (ListObj (xs @ [c]))"
proof -
  obtain p v vs' where vs: "vs = (p, v) # vs'" using assms(2) by (cases vs) auto
  obtain d where d: "put assign (default_container (hd p)) (p, v) = Inr d" "foldM (put assign) d vs' = Inr c"
    using assms(1) by (auto simp: vs rbind_eq_Inr)
  have "default_container (hd p) \<noteq> NoneObj" by (simp add: default_container_def split: path_item.split)
  then have nn: "d \<noteq> NoneObj" using put_not_none[OF d(1)] by auto
  show "foldM (put assign) (DictObj kvs) (under k vs) = Inr (DictObj (kvs @ [(k, c)]))" if "k \<notin> fst ` set kvs"
    using put_new_dict[OF that, of p assign v] fold_put_dict[OF that, of vs' assign d] d assms(3) by (simp add: vs)
  show "foldM (put assign) (ListObj xs) (under (IntItem (int (length xs))) vs) = Inr (ListObj (xs @ [c]))"
    using put_new_list[of p assign xs v] fold_put_list[OF nn, of vs' assign xs] d assms(3) by (simp add: vs)
qed

text \<open>What the visits of an object do below a key of a dictionary or at the end of a list.\<close>

definition rebuilds :: "('a \<Rightarrow> obj_path \<Rightarrow> 'a sd_obj \<Rightarrow> 'a result) \<Rightarrow> ('a \<Rightarrow> bool) \<Rightarrow> 'a sd_obj \<Rightarrow> bool" where
  "rebuilds assign t c \<longleftrightarrow>
     (\<forall>k kvs. k \<notin> fst ` set kvs \<longrightarrow> foldM (put assign) (DictObj kvs) (under k (visits t c)) = Inr (DictObj (kvs @ [(k, c)]))) \<and>
     (\<forall>xs. foldM (put assign) (ListObj xs) (under (IntItem (int (length xs))) (visits t c)) = Inr (ListObj (xs @ [c])))"

lemma leaf_rebuilds: "visits t c = [([], c)] \<Longrightarrow> rebuilds assign t c"
  by (simp add: rebuilds_def put_def update_new Let_def)

lemma fold_dict_entries:
  "\<forall>c \<in> snd ` set kvs'. rebuilds assign t c \<Longrightarrow> distinct (map fst (kvs @ kvs')) \<Longrightarrow>
   foldM (put assign) (DictObj kvs) (concat (map (\<lambda>(k, c). under k (visits t c)) kvs')) = Inr (DictObj (kvs @ kvs'))"
proof (induction kvs' arbitrary: kvs)
  case (Cons e kvs')
  obtain k c where e: "e = (k, c)" by (cases e)
  have "foldM (put assign) (DictObj kvs) (under k (visits t c)) = Inr (DictObj (kvs @ [(k, c)]))"
    using Cons.prems by (auto simp: e rebuilds_def)
  then show ?case using Cons.IH[of "kvs @ [(k, c)]"] Cons.prems by (simp add: e foldM_append)
qed simp

lemma fold_list_entries:
  "\<forall>c \<in> set xs. rebuilds assign t c \<Longrightarrow> n \<le> length xs \<Longrightarrow>
   foldM (put assign) (ListObj []) (concat (map (\<lambda>i. under (IntItem (int i)) (visits t (xs ! i))) [0..<n])) = Inr (ListObj (take n xs))"
proof (induction n)
  case (Suc n)
  have "rebuilds assign t (xs ! n)" using Suc.prems by simp
  then have "foldM (put assign) (ListObj (take n xs)) (under (IntItem (int n)) (visits t (xs ! n))) = Inr (ListObj (take (Suc n) xs))"
    using Suc.prems(2) by (auto simp: rebuilds_def take_Suc_conv_app_nth dest: spec[of _ "take n xs"])
  then show ?case using Suc by (simp add: foldM_append)
qed simp

lemma default_of_heads:
  "vs \<noteq> [] \<Longrightarrow> \<forall>(p, v) \<in> set vs. \<exists>s q. p = StrItem s # q \<Longrightarrow> default_container (hd (fst (hd vs))) = DictObj []"
  "vs \<noteq> [] \<Longrightarrow> \<forall>(p, v) \<in> set vs. \<exists>i q. p = IntItem i # q \<Longrightarrow> default_container (hd (fst (hd vs))) = ListObj []"
  by (cases vs; auto simp: default_container_def)+

lemma heads_rebuild:
  assumes "foldM (put assign) d (visits t c) = Inr c" and "visits t c \<noteq> []"
    and "d = DictObj [] \<and> (\<forall>(p, v) \<in> set (visits t c). \<exists>s q. p = StrItem s # q) \<or>
      d = ListObj [] \<and> (\<forall>(p, v) \<in> set (visits t c). \<exists>i q. p = IntItem i # q)"
  shows "rebuilds assign t c"
proof -
  have "default_container (hd (fst (hd (visits t c)))) = d" using default_of_heads[OF assms(2)] assms(3) by blast
  then have "foldM (put assign) (default_container (hd (fst (hd (visits t c))))) (visits t c) = Inr c" using assms(1) by simp
  moreover have "\<forall>(p, v) \<in> set (visits t c). p \<noteq> []" using assms(3) by blast
  ultimately show ?thesis unfolding rebuilds_def using fold_put_container[OF _ assms(2)] by blast
qed

lemma solid_rebuilds: "solid t c \<Longrightarrow> c \<noteq> DictObj [] \<Longrightarrow> rebuilds assign t c"
proof (induction c rule: sd_obj.induct)
  case (DictObj kvs)
  have str: "\<forall>k \<in> fst ` set kvs. \<exists>s. k = StrItem s" using DictObj.prems by simp
  have "\<forall>c \<in> snd ` set kvs. rebuilds assign t c" using DictObj.IH DictObj.prems by force
  then have "foldM (put assign) (DictObj []) (visits t (DictObj kvs)) = Inr (DictObj kvs)"
    unfolding visits_dict[OF str] using fold_dict_entries[of kvs assign t "[]"] DictObj.prems by simp
  moreover have "\<forall>(p, v) \<in> set (visits t (DictObj kvs)). \<exists>s q. p = StrItem s # q"
    unfolding visits_dict[OF str] using str by (force simp: under_def)
  ultimately show ?case using visits_nonempty[OF DictObj.prems] by (intro heads_rebuild) blast+
next
  case (ListObj xs)
  show ?case
  proof (cases "is_terminal t (ListObj xs)")
    case False
    have "\<forall>c \<in> set xs. rebuilds assign t c" using ListObj False by auto
    then have "foldM (put assign) (ListObj []) (visits t (ListObj xs)) = Inr (ListObj xs)"
      unfolding visits_list[OF False] using fold_list_entries[of xs assign t "length xs"] by simp
    moreover have "\<forall>(p, v) \<in> set (visits t (ListObj xs)). \<exists>i q. p = IntItem i # q"
      unfolding visits_list[OF False] by (auto simp: under_def)
    ultimately show ?thesis using visits_nonempty[OF ListObj.prems] by (intro heads_rebuild) blast+
  qed (auto intro: leaf_rebuilds)
qed (auto intro: leaf_rebuilds)

lemma flat_copy_pair: "flat_copy (flat, mapping) (p, v) =
    (if join_dots (map item_str p) \<in> fst ` set flat then Inl ValueError
     else Inr (flat @ [(join_dots (map item_str p), v)], AList.update (join_dots (map item_str p)) p mapping))"
  by (simp add: flat_copy_def Let_def)

lemma unflatten_visits:
  assumes "\<forall>(p, v) \<in> set vs. map_of mapping (join_dots (map item_str p)) = Some p"
  shows "foldM (\<lambda>root (key, value). nested_set_element assign root (flat_path (Some mapping) key) value) c
      (map (\<lambda>(p, v). (join_dots (map item_str p), v)) vs) = foldM (put assign) c vs"
  using assms
proof (induction vs arbitrary: c)
  case (Cons e vs)
  obtain p v where e: "e = (p, v)" by (cases e)
  have "flat_path (Some mapping) (join_dots (map item_str p)) = p" using Cons.prems by (simp add: e flat_path_def)
  then show ?case using Cons.IH Cons.prems by (simp add: e put_def)
qed simp

text \<open>The flat dictionary and the map of paths that a list of visits gives.\<close>

lemma flatten_visits:
  assumes "foldM flat_copy (flat0, map0) vs = Inr (flat, mapping)"
  shows "flat = flat0 @ map (\<lambda>(p, v). (join_dots (map item_str p), v)) vs \<and>
    (\<forall>(p, v) \<in> set vs. map_of mapping (join_dots (map item_str p)) = Some p) \<and>
    (\<forall>k \<in> fst ` set flat0. map_of mapping k = map_of map0 k)"
  using assms
proof (induction vs arbitrary: flat0 map0)
  case (Cons e vs)
  obtain p v where e: "e = (p, v)" by (cases e)
  let ?k = "join_dots (map item_str p)"
  have new: "?k \<notin> fst ` set flat0" and rest: "foldM flat_copy (flat0 @ [(?k, v)], AList.update ?k p map0) vs = Inr (flat, mapping)"
    using Cons.prems by (simp_all add: e flat_copy_pair split: if_splits)
  from Cons.IH[OF rest] new show ?case by (force simp: e update_conv')
qed simp

text \<open>C23: rebuilding a flattened state dict with the map of its paths gives it back, for state dicts with string keys
  and without empty dictionaries inside. Lists that hold tensors or dictionaries are taken apart and rebuilt, other lists are
  kept whole.\<close>

theorem unflatten_flatten_state_dict:
  assumes "solid is_tensor (DictObj sd)" and "flatten_state_dict is_tensor sd = Inr (flat, mapping)"
  shows "unflatten_state_dict assign flat (Some mapping) = Inr (DictObj sd)"
proof -
  have tr: "traverse_state_dict is_tensor sd = visits is_tensor (DictObj sd)" by (simp add: traverse_state_dict_def)
  let ?vs = "visits is_tensor (DictObj sd)"
  have f: "flat = map (\<lambda>(p, v). (join_dots (map item_str p), v)) ?vs" "\<forall>(p, v) \<in> set ?vs. map_of mapping (join_dots (map item_str p)) = Some p"
    using flatten_visits[of "[]" "[]" ?vs flat mapping] assms(2) by (simp_all add: flatten_state_dict_def tr)
  have "unflatten_state_dict assign flat (Some mapping) = foldM (put assign) (DictObj []) ?vs"
    unfolding unflatten_state_dict_def f(1) by (rule unflatten_visits[OF f(2)])
  also have "\<dots> = Inr (DictObj sd)"
  proof -
    have str: "\<forall>k \<in> fst ` set sd. \<exists>s. k = StrItem s" using assms(1) by simp
    have "\<forall>c \<in> snd ` set sd. rebuilds assign is_tensor c" using assms(1) by (auto intro!: solid_rebuilds)
    then show ?thesis unfolding visits_dict[OF str] using fold_dict_entries[of sd assign is_tensor "[]"] assms(1) by simp
  qed
  finally show ?thesis .
qed

definition demo_sd :: "(path_item \<times> int sd_obj) list" where
  "demo_sd = [(StrItem ''a'', DictObj [(StrItem ''w'', ValueObj 1)]), (StrItem ''b'', ListObj [ValueObj 1, ValueObj 0, NoneObj]), (StrItem ''c'', ListObj [ValueObj 0])]"

theorem unflatten_flatten_state_dict_witness:
  "\<exists>flat mapping. flatten_state_dict (\<lambda>v. v = 1) demo_sd = Inr (flat, mapping) \<and>
     unflatten_state_dict (\<lambda>v p x. Inl TypeError) flat (Some mapping) = Inr (DictObj demo_sd)"
proof -
  have "is_ok (flatten_state_dict (\<lambda>v. v = (1 :: int)) demo_sd)" by code_simp
  then obtain flat mapping where f: "flatten_state_dict (\<lambda>v. v = 1) demo_sd = Inr (flat, mapping)" by (auto simp: is_ok_iff)
  have "solid (\<lambda>v. v = 1) (DictObj demo_sd)" by (simp add: demo_sd_def)
  from unflatten_flatten_state_dict[OF this f] show ?thesis using f by blast
qed

text \<open>Without those conditions the round trip changes the state dict: an empty dictionary is lost, and an integer key
  comes back as a string.\<close>

theorem flatten_loses_empty_dict:
  "flatten_state_dict t [(k, DictObj [])] = Inr ([], []) \<and> unflatten_state_dict assign [] (Some []) = Inr (DictObj [])"
  by (simp add: flatten_state_dict_def traverse_state_dict_def unflatten_state_dict_def)

theorem flatten_int_key_becomes_string:
  "\<exists>flat mapping. flatten_state_dict t [(IntItem 0, ValueObj v)] = Inr (flat, mapping) \<and>
     unflatten_state_dict assign flat (Some mapping) = Inr (DictObj [(StrItem ''0'', ValueObj v)])"
proof -
  have "int_str 0 = ''0''" by code_simp
  then show ?thesis
    by (simp add: flatten_state_dict_def traverse_state_dict_def flat_copy_def unflatten_state_dict_def flat_path_def Let_def)
qed

subsection \<open>Element access finds what the traversal visits\<close>

lemma get_element_under:
  "get_element (ListObj xs) (IntItem (int i) # p) d = (if i < length xs then get_element (xs ! i) p d else Inr d)"
  by (simp add: py_nth_nonneg)

lemma get_element_visits: "solid t c \<Longrightarrow> (p, v) \<in> set (visits t c) \<Longrightarrow> get_element c p d = Inr v"
proof (induction c arbitrary: p rule: sd_obj.induct)
  case (DictObj kvs)
  have str: "\<forall>k \<in> fst ` set kvs. \<exists>s. k = StrItem s" and dist: "distinct (map fst kvs)" using DictObj.prems by simp_all
  obtain k c q where kc: "(k, c) \<in> set kvs" "p = k # q" "(q, v) \<in> set (visits t c)"
    using DictObj.prems(2) unfolding visits_dict[OF str] by (auto simp: under_def)
  moreover obtain s where "k = StrItem s" using str kc(1) by force
  moreover have "solid t c" using DictObj.prems(1) kc(1) by force
  ultimately show ?case using DictObj.IH[OF kc(1), of c q] map_of_is_SomeI[OF dist] by simp
next
  case (ListObj xs)
  show ?case
  proof (cases "is_terminal t (ListObj xs)")
    case False
    obtain i q where i: "i < length xs" "p = IntItem (int i) # q" "(q, v) \<in> set (visits t (xs ! i))"
      using ListObj.prems(2) unfolding visits_list[OF False] by (auto simp: under_def)
    moreover have "solid t (xs ! i)" using ListObj.prems(1) False i(1) by auto
    ultimately show ?thesis using ListObj.IH[of "xs ! i" q] by (simp del: get_element.simps(2) add: get_element_under)
  qed (use ListObj.prems(2) in auto)
qed simp_all

end
