(* ===== verification/Digraph.thy ===== *)
theory Digraph
  imports Prelude "HOL-Library.AList"
begin

text \<open>
  The dependency graph of the packager, \<^verbatim>\<open>src/tensorplay/package/_digraph.py\<close>. Nodes are strings, dictionaries are association
  lists in insertion order. The loops of the queries need not end on every graph: they are partial functions, and not
  returning is the value \<open>None\<close>. Iterating a string gives its characters, which is what \<open>set(src)\<close> and \<open>deque(src)\<close> do.
\<close>

subsection \<open>The graph\<close>

record 'a digraph =
  g_node :: "(string \<times> (string \<times> 'a) list) list"
  g_succ :: "(string \<times> string list) list"
  g_pred :: "(string \<times> string list) list"
  g_order :: "(string \<times> nat) list"
  g_insertion :: nat

definition empty_graph :: "'a digraph" where
  "empty_graph = \<lparr>g_node = [], g_succ = [], g_pred = [], g_order = [], g_insertion = 0\<rparr>"

definition add_node :: "string \<Rightarrow> (string \<times> 'a) list \<Rightarrow> 'a digraph \<Rightarrow> 'a digraph" where
  "add_node n kwargs g =
     (case map_of (g_node g) n of
        None \<Rightarrow> \<lparr>g_node = AList.update n kwargs (g_node g), g_succ = AList.update n [] (g_succ g), g_pred = AList.update n [] (g_pred g),
                 g_order = AList.update n (g_insertion g) (g_order g), g_insertion = g_insertion g + 1\<rparr>
      | Some attrs \<Rightarrow> g\<lparr>g_node := AList.update n (AList.merge attrs kwargs) (g_node g)\<rparr>)"

definition dict_add :: "string \<Rightarrow> string list \<Rightarrow> string list" where
  "dict_add v vs = (if v \<in> set vs then vs else vs @ [v])"

definition neighbours :: "(string \<times> string list) list \<Rightarrow> string \<Rightarrow> string list" where
  "neighbours d n = (case map_of d n of None \<Rightarrow> [] | Some vs \<Rightarrow> vs)"

definition add_edge :: "string \<Rightarrow> string \<Rightarrow> 'a digraph \<Rightarrow> 'a digraph" where
  "add_edge u v g =
     (let g1 = add_node v [] (add_node u [] g) in
      g1\<lparr>g_succ := AList.update u (dict_add v (neighbours (g_succ g1) u)) (g_succ g1),
         g_pred := AList.update v (dict_add u (neighbours (g_pred g1) v)) (g_pred g1)\<rparr>)"

definition look :: "(string \<times> string list) list \<Rightarrow> string \<Rightarrow> string list result" where
  "look d n = (case map_of d n of None \<Rightarrow> Inl ValueError | Some vs \<Rightarrow> Inr vs)"

definition successors :: "'a digraph \<Rightarrow> string \<Rightarrow> string list result" where
  "successors g n = look (g_succ g) n"

definition predecessors :: "'a digraph \<Rightarrow> string \<Rightarrow> string list result" where
  "predecessors g n = look (g_pred g) n"

definition edges :: "'a digraph \<Rightarrow> (string \<times> string) list" where
  "edges g = concat (map (\<lambda>(n, vs). map (Pair n) vs) (g_succ g))"

definition contains :: "'a digraph \<Rightarrow> string \<Rightarrow> bool" where
  "contains g n \<longleftrightarrow> n \<in> fst ` set (g_node g)"

subsection \<open>Queries\<close>

fun visit_new :: "string list \<Rightarrow> string set \<Rightarrow> string list \<Rightarrow> string set \<times> string list" where
  "visit_new [] found working = (found, working)"
| "visit_new (n # ns) found working =
     (if n \<notin> found then visit_new ns (insert n found) (working @ [n]) else visit_new ns found working)"

partial_function (option) closure_loop :: "(string \<Rightarrow> string list result) \<Rightarrow> string set \<Rightarrow> string list \<Rightarrow> string set result option" where
  "closure_loop nbrs found working =
     (case working of
        [] \<Rightarrow> Some (Inr found)
      | cur # rest \<Rightarrow>
          (case nbrs cur of
             Inl e \<Rightarrow> Some (Inl e)
           | Inr ns \<Rightarrow> closure_loop nbrs (fst (visit_new ns found rest)) (snd (visit_new ns found rest))))"

definition characters :: "string \<Rightarrow> string list" where
  "characters s = map (\<lambda>c. [c]) s"

definition forward_transitive_closure :: "'a digraph \<Rightarrow> string \<Rightarrow> string set result option" where
  "forward_transitive_closure g src = closure_loop (successors g) (set (characters src)) (characters src)"

definition backward_transitive_closure :: "'a digraph \<Rightarrow> string \<Rightarrow> string set result option" where
  "backward_transitive_closure g src = closure_loop (predecessors g) (set (characters src)) (characters src)"

definition dot_line :: "string \<times> string \<Rightarrow> string" where
  "dot_line e = CHR 0x22 # fst e @ [CHR 0x22] @ '' -> '' @ CHR 0x22 # snd e @ [CHR 0x22] @ '';''"

fun join_lines :: "string list \<Rightarrow> string" where
  "join_lines [] = []"
| "join_lines [l] = l"
| "join_lines (l # m # ls) = l @ CHR 0x0A # join_lines (m # ls)"

definition to_dot :: "'a digraph \<Rightarrow> string" where
  "to_dot g = ''digraph G {'' @ [CHR 0x0A] @ ''rankdir = LR;'' @ [CHR 0x0A] @ ''node [shape=box];'' @ [CHR 0x0A] @
     join_lines (map dot_line (edges g)) @ [CHR 0x0A] @ ''}'' @ [CHR 0x0A]"

text \<open>One predecessor loop of \<open>all_paths\<close>: edges from reachable predecessors are added, and these are walked again.\<close>

fun walk_back :: "string set \<Rightarrow> string \<Rightarrow> string list \<Rightarrow> 'a digraph \<Rightarrow> string list \<Rightarrow> 'a digraph \<times> string list" where
  "walk_back reach cur [] r working = (r, working)"
| "walk_back reach cur (n # ns) r working =
     (if n \<in> reach then walk_back reach cur ns (add_edge n cur r) (working @ [n]) else walk_back reach cur ns r working)"

partial_function (option) paths_loop :: "(string \<Rightarrow> string list result) \<Rightarrow> string set \<Rightarrow> 'a digraph \<Rightarrow> string list \<Rightarrow> 'a digraph result option" where
  "paths_loop preds reach r working =
     (case working of
        [] \<Rightarrow> Some (Inr r)
      | cur # rest \<Rightarrow>
          (case preds cur of
             Inl e \<Rightarrow> Some (Inl e)
           | Inr ns \<Rightarrow> paths_loop preds reach (fst (walk_back reach cur ns r rest)) (snd (walk_back reach cur ns r rest))))"

datatype 'a paths_result = SubGraph "'a digraph" | DotText string

definition all_paths :: "'a digraph \<Rightarrow> string \<Rightarrow> string \<Rightarrow> 'a paths_result result option" where
  "all_paths g src dst =
     (case forward_transitive_closure g src of
        None \<Rightarrow> None
      | Some (Inl e) \<Rightarrow> Some (Inl e)
      | Some (Inr reach) \<Rightarrow>
          if dst \<notin> reach then Some (Inr (SubGraph empty_graph))
          else case paths_loop (predecessors g) reach (empty_graph :: 'a digraph) (characters dst) of
                 None \<Rightarrow> None
               | Some (Inl e) \<Rightarrow> Some (Inl e)
               | Some (Inr r) \<Rightarrow> Some (Inr (DotText (to_dot r))))"

text \<open>The predecessor that was added first; a candidate without a position ends the search.\<close>

fun earliest :: "(string \<times> nat) list \<Rightarrow> string list \<Rightarrow> string \<times> nat option \<Rightarrow> string" where
  "earliest order [] best = fst best"
| "earliest order (c # cs) best =
     (case map_of order c of
        None \<Rightarrow> fst best
      | Some i \<Rightarrow>
          (case snd best of
             None \<Rightarrow> earliest order cs (c, Some i)
           | Some m \<Rightarrow> if i < m then earliest order cs (c, Some i) else earliest order cs best))"

partial_function (option) path_loop :: "'a digraph \<Rightarrow> string \<Rightarrow> string list \<Rightarrow> string list result option" where
  "path_loop g dst path =
     (if dst = [] then Some (Inr path)
      else case map_of (g_pred g) dst of
             None \<Rightarrow> Some (Inl KeyError)
           | Some cs \<Rightarrow> path_loop g (earliest (g_order g) cs ([], None)) (path @ [dst]))"

definition first_path :: "'a digraph \<Rightarrow> string \<Rightarrow> string list result option" where
  "first_path g dst = (case path_loop g dst [] of None \<Rightarrow> None | Some (Inl e) \<Rightarrow> Some (Inl e) | Some (Inr p) \<Rightarrow> Some (Inr (rev p)))"

subsection \<open>Well-formed graphs\<close>

definition edge_rel :: "'a digraph \<Rightarrow> (string \<times> string) set" where
  "edge_rel g = {(u, v). v \<in> set (neighbours (g_succ g) u)}"

text \<open>The four dictionaries have the same keys, the edges run between nodes, and predecessors mirror successors.\<close>

definition wf_graph :: "'a digraph \<Rightarrow> bool" where
  "wf_graph g \<longleftrightarrow> distinct (map fst (g_succ g)) \<and> fst ` set (g_succ g) = fst ` set (g_node g) \<and> fst ` set (g_pred g) = fst ` set (g_node g) \<and>
     fst ` set (g_order g) = fst ` set (g_node g) \<and>
     (\<forall>u v. v \<in> set (neighbours (g_succ g) u) \<longleftrightarrow> u \<in> set (neighbours (g_pred g) v)) \<and>
     (\<forall>u v. v \<in> set (neighbours (g_succ g) u) \<longrightarrow> contains g v)"

lemma neighbours_update: "neighbours (AList.update n vs d) m = (if m = n then vs else neighbours d m)"
  by (simp add: neighbours_def update_conv')

lemma neighbours_new: "n \<notin> fst ` set d \<Longrightarrow> neighbours d n = []"
  by (simp add: neighbours_def map_of_eq_None_iff[THEN iffD2])

lemma set_dict_add [simp]: "set (dict_add v vs) = insert v (set vs)"
  by (auto simp: dict_add_def)

lemma graph_keys_update: "fst ` set (AList.update n v d) = insert n (fst ` set d)"
  using dom_update[of n v d] by (simp add: dom_map_of_conv_image_fst)

lemma add_node_wf: "wf_graph g \<Longrightarrow> wf_graph (add_node n kwargs g)"
  and add_node_edges: "wf_graph g \<Longrightarrow> edge_rel (add_node n kwargs g) = edge_rel g"
  and add_node_contains: "contains (add_node n kwargs g) m \<longleftrightarrow> m = n \<or> contains g m"
proof -
  show "contains (add_node n kwargs g) m \<longleftrightarrow> m = n \<or> contains g m"
    by (auto simp: contains_def add_node_def graph_keys_update split: option.split)
  assume w: "wf_graph g"
  have new: "neighbours (g_succ g) n = [] \<and> neighbours (g_pred g) n = []" if "map_of (g_node g) n = None"
    using w that neighbours_new[of n] by (simp add: wf_graph_def map_of_eq_None_iff)
  show "edge_rel (add_node n kwargs g) = edge_rel g"
    using new by (auto simp: edge_rel_def add_node_def neighbours_update split: option.split if_splits)
  have same: "neighbours (g_succ (add_node n kwargs g)) u = neighbours (g_succ g) u"
    "neighbours (g_pred (add_node n kwargs g)) u = neighbours (g_pred g) u" for u
    using new by (auto simp: add_node_def neighbours_update split: option.split)
  have keys: "fst ` set (g_node (add_node n kwargs g)) = insert n (fst ` set (g_node g))" "fst ` set (g_succ (add_node n kwargs g)) = insert n (fst ` set (g_node g))"
    "fst ` set (g_pred (add_node n kwargs g)) = insert n (fst ` set (g_node g))" "fst ` set (g_order (add_node n kwargs g)) = insert n (fst ` set (g_node g))"
    using w by (auto simp: wf_graph_def add_node_def graph_keys_update split: option.split dest!: map_of_SomeD intro: rev_image_eqI)
  show "wf_graph (add_node n kwargs g)"
    unfolding wf_graph_def same keys using w
    by (auto simp: wf_graph_def contains_def graph_keys_update add_node_def distinct_update split: option.split)
qed

lemma add_edge_wf: "wf_graph g \<Longrightarrow> wf_graph (add_edge u v g)"
  and add_edge_edges: "wf_graph g \<Longrightarrow> edge_rel (add_edge u v g) = insert (u, v) (edge_rel g)"
proof -
  assume w: "wf_graph g"
  define g1 where "g1 = add_node v [] (add_node u [] g)"
  have w1: "wf_graph g1" and e1: "edge_rel g1 = edge_rel g" and c1: "contains g1 u" "contains g1 v"
    using w by (simp_all add: g1_def add_node_wf add_node_edges add_node_contains)
  have add: "add_edge u v g = g1\<lparr>g_succ := AList.update u (dict_add v (neighbours (g_succ g1) u)) (g_succ g1),
      g_pred := AList.update v (dict_add u (neighbours (g_pred g1) v)) (g_pred g1)\<rparr>" by (simp add: add_edge_def g1_def Let_def)
  show "edge_rel (add_edge u v g) = insert (u, v) (edge_rel g)"
    unfolding e1[symmetric] add by (auto simp: edge_rel_def neighbours_update split: if_splits)
  show "wf_graph (add_edge u v g)"
    using w1 c1 unfolding add wf_graph_def by (auto simp: neighbours_update graph_keys_update distinct_update contains_def split: if_splits)
qed

lemma edges_rel: "wf_graph g \<Longrightarrow> set (edges g) = edge_rel g"
  by (auto simp: edges_def edge_rel_def neighbours_def wf_graph_def split: option.splits dest: map_of_SomeD)

lemma empty_wf: "wf_graph empty_graph"
  by (simp add: wf_graph_def empty_graph_def neighbours_def)

text \<open>The graphs that the packager can make.\<close>

inductive built :: "'a digraph \<Rightarrow> bool" where
  built_empty: "built empty_graph"
| built_node: "built g \<Longrightarrow> built (add_node n kwargs g)"
| built_edge: "built g \<Longrightarrow> built (add_edge u v g)"

lemma built_wf: "built g \<Longrightarrow> wf_graph g"
  by (induction rule: built.induct) (simp_all add: empty_wf add_node_wf add_edge_wf)

lemma look_ok:
  assumes "wf_graph g" and "contains g n"
  shows "successors g n = Inr (neighbours (g_succ g) n)" "predecessors g n = Inr (neighbours (g_pred g) n)"
proof -
  have "n \<in> dom (map_of (g_succ g))" "n \<in> dom (map_of (g_pred g))"
    using assms by (simp_all add: wf_graph_def contains_def dom_map_of_conv_image_fst)
  then show "successors g n = Inr (neighbours (g_succ g) n)" "predecessors g n = Inr (neighbours (g_pred g) n)"
    by (auto simp: successors_def predecessors_def look_def neighbours_def)
qed

subsection \<open>Transitive closure\<close>

lemma visit_new_found: "visit_new ns found working = (found \<union> set ns, working @ snd (visit_new ns found []))"
proof (induction ns arbitrary: found working)
  case (Cons n ns)
  show ?case
  proof (cases "n \<in> found")
    case False
    have "visit_new (n # ns) found working = (insert n found \<union> set ns, (working @ [n]) @ snd (visit_new ns (insert n found) []))"
      using False Cons.IH[of "insert n found" "working @ [n]"] by simp
    moreover have "snd (visit_new (n # ns) found []) = [n] @ snd (visit_new ns (insert n found) [])"
      using False Cons.IH[of "insert n found" "[n]"] by simp
    ultimately show ?thesis by simp
  qed (use Cons.IH[of found working] Cons.IH[of found "[]"] in auto)
qed simp

lemma visit_new_working: "set (snd (visit_new ns found [])) = set ns - found"
proof (induction ns arbitrary: found)
  case (Cons n ns)
  show ?case
  proof (cases "n \<in> found")
    case False
    then show ?thesis using visit_new_found[of ns "insert n found" "[n]"] Cons.IH[of "insert n found"] by auto
  qed (use Cons.IH in auto)
qed simp

text \<open>The loop ends, with the nodes reachable from those it started with.\<close>

lemma closure_loop_ok:
  assumes nbrs: "\<And>n. n \<in> N \<Longrightarrow> nbrs n = Inr (f n) \<and> set (f n) \<subseteq> N" and "finite N"
    and "found \<subseteq> N" and "set working \<subseteq> found" and "\<And>n. n \<in> found - set working \<Longrightarrow> set (f n) \<subseteq> found"
  shows "closure_loop nbrs found working = Some (Inr ({(u, v). v \<in> set (f u)}\<^sup>* `` found))"
  using assms(3-)
proof (induction "(card (N - found), length working)" arbitrary: found working rule: wf_induct[OF wf_lex_prod[OF wf_less_than wf_less_than]])
  case 1
  show ?case
  proof (cases working)
    case Nil
    have "{(u, v). v \<in> set (f u)} `` found \<subseteq> found" using 1(4) Nil by auto
    then have "{(u, v). v \<in> set (f u)}\<^sup>* `` found = found" by (rule Image_closed_trancl)
    then show ?thesis using Nil by (simp add: closure_loop.simps)
  next
    case (Cons cur rest)
    let ?found = "found \<union> set (f cur)" and ?work = "rest @ snd (visit_new (f cur) found [])" and ?R = "{(u, v). v \<in> set (f u)}"
    have cur: "cur \<in> N" "cur \<in> found" using 1(2,3) Cons by auto
    have step: "closure_loop nbrs found working = closure_loop nbrs ?found ?work"
      using nbrs[OF cur(1)] Cons visit_new_found[of "f cur" found rest] by (subst closure_loop.simps) simp
    have less: "((card (N - ?found), length ?work), (card (N - found), length working)) \<in> less_than <*lex*> less_than"
    proof (cases "set (f cur) \<subseteq> found")
      case True
      then have "snd (visit_new (f cur) found []) = []" using visit_new_working[of "f cur" found] by (metis Diff_eq_empty_iff set_empty)
      moreover have "?found = found" using True by blast
      ultimately show ?thesis using Cons by simp
    next
      case False
      then have "N - ?found \<subset> N - found" using nbrs[OF cur(1)] by blast
      then show ?thesis using assms(2) by (simp add: psubset_card_mono)
    qed
    have "closure_loop nbrs ?found ?work = Some (Inr (?R\<^sup>* `` ?found))"
    proof (rule 1(1)[rule_format, OF less, OF refl])
      show "?found \<subseteq> N" using 1(2) nbrs[OF cur(1)] by blast
      show "set ?work \<subseteq> ?found" using 1(3) Cons visit_new_working[of "f cur" found] by auto
      show "set (f n) \<subseteq> ?found" if "n \<in> ?found - set ?work" for n
        using that 1(4)[of n] Cons visit_new_working[of "f cur" found] by auto
    qed
    moreover have "?R\<^sup>* `` ?found = ?R\<^sup>* `` found"
      using cur(2) by (auto intro: converse_rtrancl_into_rtrancl)
    ultimately show ?thesis using step by simp
  qed
qed

lemma finite_contains [simp]: "finite {n. contains g n}"
  by (simp add: contains_def)

lemma closure_forward:
  assumes "wf_graph g" and "\<forall>c \<in> set src. contains g [c]"
  shows "forward_transitive_closure g src = Some (Inr ((edge_rel g)\<^sup>* `` set (characters src)))"
  unfolding forward_transitive_closure_def edge_rel_def
  by (rule closure_loop_ok[where N = "{n. contains g n}"])
     (use assms look_ok(1)[OF assms(1)] in \<open>auto simp: wf_graph_def characters_def\<close>)

lemma closure_backward:
  assumes "wf_graph g" and "\<forall>c \<in> set src. contains g [c]"
  shows "backward_transitive_closure g src = Some (Inr (((edge_rel g)\<inverse>)\<^sup>* `` set (characters src)))"
proof -
  have "(edge_rel g)\<inverse> = {(u, v). v \<in> set (neighbours (g_pred g) u)}" using assms(1) by (auto simp: edge_rel_def wf_graph_def)
  moreover have "set (neighbours (g_pred g) n) \<subseteq> {n. contains g n}" for n
  proof
    fix u assume "u \<in> set (neighbours (g_pred g) n)"
    then have "n \<in> set (neighbours (g_succ g) u)" using assms(1) by (simp add: wf_graph_def)
    then have "u \<in> fst ` set (g_succ g)" using neighbours_new[of u "g_succ g"] by force
    then show "u \<in> {n. contains g n}" using assms(1) by (simp add: wf_graph_def contains_def)
  qed
  ultimately show ?thesis unfolding backward_transitive_closure_def
    using assms look_ok(2)[OF assms(1)] by (simp only:) (rule closure_loop_ok[where N = "{n. contains g n}"], auto simp: characters_def)
qed

text \<open>C33: on every graph that can be built, and for nodes whose name is one character, both transitive closures return,
  with exactly the nodes reachable along the edges, forwards or backwards.\<close>

theorem transitive_closures_exact:
  assumes "built g" and "contains g [c]"
  shows "forward_transitive_closure g [c] = Some (Inr {n. ([c], n) \<in> (edge_rel g)\<^sup>*}) \<and>
    backward_transitive_closure g [c] = Some (Inr {n. (n, [c]) \<in> (edge_rel g)\<^sup>*})"
  using closure_forward[OF built_wf[OF assms(1)], of "[c]"] closure_backward[OF built_wf[OF assms(1)], of "[c]"] assms(2)
  by (auto simp: characters_def rtrancl_converse)

definition demo_graph :: "unit digraph" where
  "demo_graph = add_edge ''b'' ''c'' (add_edge ''a'' ''b'' empty_graph)"

lemma demo_graph_built: "built demo_graph"
  by (simp add: demo_graph_def built.intros)

theorem transitive_closures_exact_witness:
  "contains demo_graph ''a'' \<and> forward_transitive_closure demo_graph ''a'' = Some (Inr {n. (''a'', n) \<in> (edge_rel demo_graph)\<^sup>*})"
proof -
  have "contains demo_graph ''a''" by code_simp
  then show ?thesis using transitive_closures_exact[OF demo_graph_built] by blast
qed

text \<open>A node with a longer name is taken apart into its characters: the closure of a node \<open>ab\<close> raises ValueError
  even when the node is in the graph.\<close>

theorem closure_splits_name:
  "contains (add_edge ''ab'' ''c'' empty_graph) ''ab'' \<and>
   forward_transitive_closure (add_edge ''ab'' ''c'' (empty_graph :: unit digraph)) ''ab'' = Some (Inl ValueError)"
  by (simp add: contains_def forward_transitive_closure_def characters_def closure_loop.simps successors_def look_def
      add_edge_def add_node_def empty_graph_def Let_def neighbours_def)

subsection \<open>The first path\<close>









subsection \<open>Cycles\<close>

definition cycle_graph :: "unit digraph" where
  "cycle_graph = add_edge ''b'' ''a'' (add_edge ''a'' ''b'' empty_graph)"

lemma cycle_graph_sel: "g_pred cycle_graph = [(''a'', [''b'']), (''b'', [''a''])]" "g_succ cycle_graph = [(''a'', [''b'']), (''b'', [''a''])]"
  "g_order cycle_graph = [(''a'', 0), (''b'', 1)]"
  by code_simp+

lemma path_loop_cycle:
  assumes "path_loop g n path = Some r"
  shows "g = cycle_graph \<longrightarrow> n \<in> {''a'', ''b''} \<longrightarrow> False"
proof (rule path_loop.raw_induct[OF _ assms], intro impI)
  fix loop and g :: "unit digraph" and n path r
  assume IH: "\<And>g n path r. loop g n path = Some r \<Longrightarrow> g = cycle_graph \<longrightarrow> n \<in> {''a'', ''b''} \<longrightarrow> False"
    and body: "(if n = [] then Some (Inr path) else case map_of (g_pred g) n of None \<Rightarrow> Some (Inl KeyError)
      | Some cs \<Rightarrow> loop g (earliest (g_order g) cs ([], None)) (path @ [n])) = Some r"
    and g: "g = cycle_graph" and n: "n \<in> {''a'', ''b''}"
  have "loop g (if n = ''a'' then ''b'' else ''a'') (path @ [n]) = Some r" using body n by (auto simp: g cycle_graph_sel)
  from IH[OF this] g show False by (auto split: if_splits)
qed

text \<open>On a cycle of two modules that import each other, \<open>first_path\<close> does not return.\<close>

theorem first_path_diverges_on_cycle: "first_path cycle_graph ''a'' = None"
  using path_loop_cycle[of cycle_graph "''a''" "[]"] by (cases "path_loop cycle_graph ''a'' []") (auto simp: first_path_def)

lemma paths_loop_cycle:
  assumes "paths_loop preds reach r working = Some res"
  shows "preds = predecessors cycle_graph \<longrightarrow> reach = {''a'', ''b''} \<longrightarrow> set working \<subseteq> {''a'', ''b''} \<longrightarrow> working = []"
proof (rule paths_loop.raw_induct[OF _ assms], intro impI)
  fix loop :: "(string \<Rightarrow> string list result) \<Rightarrow> string set \<Rightarrow> 'a digraph \<Rightarrow> string list \<Rightarrow> 'a digraph result option" and preds reach r working res
  assume IH: "\<And>preds reach r working res. loop preds reach r working = Some res \<Longrightarrow> preds = predecessors cycle_graph \<longrightarrow>
      reach = {''a'', ''b''} \<longrightarrow> set working \<subseteq> {''a'', ''b''} \<longrightarrow> working = []"
    and body: "(case working of [] \<Rightarrow> Some (Inr r) | cur # rest \<Rightarrow> case preds cur of Inl e \<Rightarrow> Some (Inl e)
      | Inr ns \<Rightarrow> loop preds reach (fst (walk_back reach cur ns r rest)) (snd (walk_back reach cur ns r rest))) = Some res"
    and e: "preds = predecessors cycle_graph" "reach = {''a'', ''b''}" and w: "set working \<subseteq> {''a'', ''b''}"
  show "working = []"
  proof (cases working)
    case (Cons cur rest)
    define n where "n = (if cur = ''a'' then ''b'' else ''a'')"
    have n: "n \<in> {''a'', ''b''}" "preds cur = Inr [n]" using w by (auto simp: Cons n_def e predecessors_def look_def cycle_graph_sel)
    then have "loop preds reach (add_edge n cur r) (rest @ [n]) = Some res" using body by (auto simp: Cons e(2))
    from IH[OF this] e n(1) w Cons show ?thesis by auto
  qed
qed

theorem all_paths_diverges_on_cycle: "all_paths cycle_graph ''a'' ''b'' = None"
proof -
  have "forward_transitive_closure cycle_graph ''a'' = Some (Inr {''a'', ''b''})"
    by (simp add: forward_transitive_closure_def characters_def closure_loop.simps successors_def look_def cycle_graph_sel insert_commute)
  moreover have "paths_loop (predecessors cycle_graph) {''a'', ''b''} r [''b''] = None" for r :: "unit digraph"
    using paths_loop_cycle[of "predecessors cycle_graph" "{''a'', ''b''}" r "[''b'']"] by (cases "paths_loop (predecessors cycle_graph) {''a'', ''b''} r [''b'']") auto
  ultimately show ?thesis by (simp add: all_paths_def characters_def)
qed

end
