(* ===== verification/GraphNames.thy ===== *)
theory GraphNames
  imports Prelude
begin

text \<open>
  Names of graph values, \<^verbatim>\<open>src/tensorplay/graph\<close>: cleaning a candidate name (\<^verbatim>\<open>_utils.py\<close>), deriving one from a call target,
  and the namespace that hands out unique names (\<^verbatim>\<open>_Namespace\<close> of \<^verbatim>\<open>graph.py\<close>). Strings are sequences of ASCII characters. The
  regular expressions of the code are written out as the scans they describe. The name cache of \<^verbatim>\<open>_sanitize_name\<close> only stores
  its results and is left out.
\<close>

subsection \<open>Character classes\<close>

definition is_upper :: "char \<Rightarrow> bool" where
  "is_upper c = (65 \<le> (of_char c :: nat) \<and> (of_char c :: nat) \<le> 90)"

definition is_lower :: "char \<Rightarrow> bool" where
  "is_lower c = (97 \<le> (of_char c :: nat) \<and> (of_char c :: nat) \<le> 122)"

definition is_digit :: "char \<Rightarrow> bool" where
  "is_digit c = (48 \<le> (of_char c :: nat) \<and> (of_char c :: nat) \<le> 57)"

definition is_word :: "char \<Rightarrow> bool" where
  "is_word c = (is_upper c \<or> is_lower c \<or> is_digit c \<or> c = CHR ''_'')"

definition to_lower :: "char \<Rightarrow> char" where
  "to_lower c = (if is_upper c then char_of ((of_char c :: nat) + 32) else c)"

text \<open>A name the generated source can bind: a letter or underscore, then letters, digits and underscores.\<close>

definition is_identifier :: "string \<Rightarrow> bool" where
  "is_identifier s = (s \<noteq> [] \<and> \<not> is_digit (hd s) \<and> (\<forall>c \<in> set s. is_word c))"

definition ends_with :: "string \<Rightarrow> string \<Rightarrow> bool" where
  "ends_with s suf = (length suf \<le> length s \<and> drop (length s - length suf) s = suf)"

definition starts_with :: "string \<Rightarrow> string \<Rightarrow> bool" where
  "starts_with s pre = (take (length pre) s = pre)"

fun contains_str :: "string \<Rightarrow> string \<Rightarrow> bool" where
  "contains_str sub [] = (sub = [])"
| "contains_str sub (c # s) = (starts_with (c # s) sub \<or> contains_str sub s)"

subsection \<open>Reserved names\<close>

definition kwlist :: "string list" where
  "kwlist = [''False'', ''None'', ''True'', ''and'', ''as'', ''assert'', ''async'', ''await'', ''break'', ''class'',
     ''continue'', ''def'', ''del'', ''elif'', ''else'', ''except'', ''finally'', ''for'', ''from'', ''global'', ''if'',
     ''import'', ''in'', ''is'', ''lambda'', ''nonlocal'', ''not'', ''or'', ''pass'', ''raise'', ''return'', ''try'',
     ''while'', ''with'', ''yield'']"

definition builtin_names :: "string list" where
  "builtin_names = [''ArithmeticError'', ''AssertionError'', ''AttributeError'', ''BaseException'', ''BaseExceptionGroup'',
     ''BlockingIOError'', ''BrokenPipeError'', ''BufferError'', ''BytesWarning'', ''ChildProcessError'',
     ''ConnectionAbortedError'', ''ConnectionError'', ''ConnectionRefusedError'', ''ConnectionResetError'',
     ''DeprecationWarning'', ''EOFError'', ''Ellipsis'', ''EncodingWarning'', ''EnvironmentError'', ''Exception'',
     ''ExceptionGroup'', ''False'', ''FileExistsError'', ''FileNotFoundError'', ''FloatingPointError'',
     ''FutureWarning'', ''GeneratorExit'', ''IOError'', ''ImportError'', ''ImportWarning'', ''IndentationError'',
     ''IndexError'', ''InterruptedError'', ''IsADirectoryError'', ''KeyError'', ''KeyboardInterrupt'',
     ''LookupError'', ''MemoryError'', ''ModuleNotFoundError'', ''NameError'', ''None'', ''NotADirectoryError'',
     ''NotImplemented'', ''NotImplementedError'', ''OSError'', ''OverflowError'', ''PendingDeprecationWarning'',
     ''PermissionError'', ''ProcessLookupError'', ''RecursionError'', ''ReferenceError'', ''ResourceWarning'',
     ''RuntimeError'', ''RuntimeWarning'', ''StopAsyncIteration'', ''StopIteration'', ''SyntaxError'',
     ''SyntaxWarning'', ''SystemError'', ''SystemExit'', ''TabError'', ''TimeoutError'', ''True'', ''TypeError'',
     ''UnboundLocalError'', ''UnicodeDecodeError'', ''UnicodeEncodeError'', ''UnicodeError'',
     ''UnicodeTranslateError'', ''UnicodeWarning'', ''UserWarning'', ''ValueError'', ''Warning'',
     ''ZeroDivisionError'', ''__build_class__'', ''__debug__'', ''__doc__'', ''__import__'', ''__loader__'',
     ''__name__'', ''__package__'', ''__spec__'', ''abs'', ''aiter'', ''all'', ''anext'', ''any'', ''ascii'',
     ''bin'', ''bool'', ''breakpoint'', ''bytearray'', ''bytes'', ''callable'', ''chr'', ''classmethod'',
     ''compile'', ''complex'', ''delattr'', ''dict'', ''dir'', ''divmod'', ''enumerate'', ''eval'', ''exec'',
     ''filter'', ''float'', ''format'', ''frozenset'', ''getattr'', ''globals'', ''hasattr'', ''hash'', ''hex'',
     ''id'', ''input'', ''int'', ''isinstance'', ''issubclass'', ''iter'', ''len'', ''list'', ''locals'', ''map'',
     ''max'', ''memoryview'', ''min'', ''next'', ''object'', ''oct'', ''open'', ''ord'', ''pow'', ''print'',
     ''property'', ''range'', ''repr'', ''reversed'', ''round'', ''set'', ''setattr'', ''slice'', ''sorted'',
     ''staticmethod'', ''str'', ''sum'', ''super'', ''tuple'', ''type'', ''vars'', ''zip'', ''copyright'',
     ''credits'', ''exit'', ''quit'', ''license'', ''help'']"

definition custom_builtins :: "string list" where
  "custom_builtins = [''inf'', ''nan'', ''NoneType'']"

definition illegal_names :: "string list" where
  "illegal_names = kwlist @ builtin_names @ custom_builtins"

subsection \<open>Cleaning and deriving candidates\<close>

definition sanitize_name :: "string \<Rightarrow> string" where
  "sanitize_name name =
     (let sanitized = map (\<lambda>c. if is_word c then c else CHR ''_'') name
      in if sanitized = [] \<or> is_digit (hd sanitized) \<or> sanitized \<in> set kwlist
         then CHR ''_'' # sanitized else sanitized)"

text \<open>\<^verbatim>\<open>re.sub(r"(.)([A-Z][a-z]+)", r"\1_\2", s)\<close>, a scan from the left without overlaps.\<close>

function (sequential) split_words :: "string \<Rightarrow> string" where
  "split_words (c # u # l # cs) =
     (if c \<noteq> CHR 0x0A \<and> is_upper u \<and> is_lower l
      then c # CHR ''_'' # u # l # takeWhile is_lower cs @ split_words (dropWhile is_lower cs)
      else c # split_words (u # l # cs))"
| "split_words cs = cs"
  by pat_completeness auto
termination
  by (relation "measure length") (auto simp: less_Suc_eq_le intro: le_trans[OF length_dropWhile_le])

text \<open>\<^verbatim>\<open>re.sub(r"([a-z0-9])([A-Z])", r"\1_\2", s)\<close>\<close>

fun split_humps :: "string \<Rightarrow> string" where
  "split_humps (c # u # cs) =
     (if (is_lower c \<or> is_digit c) \<and> is_upper u then c # CHR ''_'' # u # split_humps cs
      else c # split_humps (u # cs))"
| "split_humps cs = cs"

definition snake_case :: "string \<Rightarrow> string" where
  "snake_case value = map to_lower (split_humps (split_words value))"

text \<open>\<^verbatim>\<open>value.rsplit(".", 1)[-1]\<close>\<close>

definition after_last_dot :: "string \<Rightarrow> string" where
  "after_last_dot s = rev (takeWhile (\<lambda>c. c \<noteq> CHR ''.'') (rev s))"

text \<open>The argument is the target itself when it is a string, else the name of the callable.\<close>

definition target_str_to_name :: "string \<Rightarrow> string" where
  "target_str_to_name value =
     (let v = (if starts_with value ''__'' \<and> ends_with value ''__'' then drop 2 (take (length value - 2) value) else value)
      in snake_case (after_last_dot v))"

subsection \<open>Numbered names\<close>

text \<open>\<^verbatim>\<open>_name_pattern\<close>: the shortest base of at least one character after which nothing, or an underscore and digits, follows.\<close>

definition numbering :: "string \<Rightarrow> bool" where
  "numbering r = (r = [] \<or> (hd r = CHR ''_'' \<and> tl r \<noteq> [] \<and> (\<forall>c \<in> set (tl r). is_digit c)))"

definition name_match :: "string \<Rightarrow> (string \<times> string option) option" where
  "name_match s =
     (if \<not> is_identifier s then None
      else map_option (\<lambda>k. (take k s, if drop k s = [] then None else Some (tl (drop k s))))
             (find (\<lambda>k. numbering (drop k s)) [1..<Suc (length s)]))"

definition digits_value :: "string \<Rightarrow> nat" where
  "digits_value ds = foldl (\<lambda>n c. 10 * n + (of_char c - 48)) 0 ds"

definition numbered :: "string \<Rightarrow> nat \<Rightarrow> string" where
  "numbered base k = base @ CHR ''_'' # nat_str k"

definition next_number :: "nat option \<Rightarrow> nat" where
  "next_number number = (case number of None \<Rightarrow> 0 | Some n \<Rightarrow> Suc n)"

lemma of_char_digit: "d < 10 \<Longrightarrow> of_char (char_of (48 + d) :: char) = (48 + d :: nat)"
  by (simp add: of_char_of)

lemma nat_str_value_aux: "foldl (\<lambda>n c. 10 * n + (of_char c - 48)) 0 (nat_str k) = (k :: nat)"
proof (induction k rule: nat_str.induct)
  case (1 n)
  then show ?case
    by (cases "n < 10") (simp_all add: nat_str.simps[of n] of_char_digit)
qed

lemma digits_value_nat_str: "digits_value (nat_str k) = k"
  by (simp add: digits_value_def nat_str_value_aux)

lemma nat_str_inject: "nat_str a = nat_str b \<longleftrightarrow> a = b"
  by (metis digits_value_nat_str)

lemma numbered_inject: "numbered base a = numbered base b \<longleftrightarrow> a = b"
  by (simp add: numbered_def nat_str_inject)

definition numbers_taken :: "string list \<Rightarrow> string \<Rightarrow> nat \<Rightarrow> nat set" where
  "numbers_taken used base lo = {k. lo \<le> k \<and> numbered base k \<in> set used}"

lemma finite_numbers_taken: "finite (numbers_taken used base lo)"
proof (rule finite_imageD)
  have "numbered base ` numbers_taken used base lo \<subseteq> set used" by (auto simp: numbers_taken_def)
  then show "finite (numbered base ` numbers_taken used base lo)" by (rule finite_subset) simp
  show "inj_on (numbered base) (numbers_taken used base lo)" by (simp add: inj_on_def numbered_inject)
qed

lemma numbers_taken_Suc:
  "numbers_taken used base (Suc k) = (if numbered base k \<in> set used then numbers_taken used base k - {k} else numbers_taken used base k)"
  by (auto simp: numbers_taken_def Suc_le_eq order.order_iff_strict)

lemma card_numbers_taken_Suc:
  "numbered base k \<in> set used \<Longrightarrow> card (numbers_taken used base (Suc k)) < card (numbers_taken used base k)"
  unfolding numbers_taken_Suc if_P
  by (rule card_Diff1_less[OF finite_numbers_taken]) (simp add: numbers_taken_def)

text \<open>The loop \<open>while candidate in self._used_names\<close>. It ends because finitely many numbered names are taken.\<close>

function name_loop :: "string list \<Rightarrow> string \<Rightarrow> nat option \<Rightarrow> string \<Rightarrow> string" where
  "name_loop used base number candidate =
     (if candidate \<in> set used
      then name_loop used base (Some (next_number number)) (numbered base (next_number number))
      else candidate)"
  by pat_completeness auto
termination
proof (relation "measure (\<lambda>(used, base, number, candidate).
    2 * card (numbers_taken used base (next_number number)) + (if candidate \<in> set used then 1 else 0))", goal_cases)
  case (2 used base number candidate)
  define k where "k = next_number number"
  have "card (numbers_taken used base (Suc k)) \<le> card (numbers_taken used base k)"
    by (rule card_mono) (auto simp: finite_numbers_taken numbers_taken_Suc)
  then show ?case
    using 2 card_numbers_taken_Suc[of base k used]
    by (auto simp: k_def[symmetric] next_number_def[of "Some k"])
qed simp

declare name_loop.simps [simp del]

subsection \<open>The namespace\<close>

text \<open>An object is named by its identity; an unhashable one goes to the second table.\<close>

datatype named_obj = Hashable nat | Unhashable nat

record namespace =
  ns_obj_to_name :: "nat \<Rightarrow> string option"
  ns_id_to_name :: "nat \<Rightarrow> string option"
  ns_used_names :: "string list"

definition empty_namespace :: namespace where
  "empty_namespace = \<lparr>ns_obj_to_name = Map.empty, ns_id_to_name = Map.empty, ns_used_names = []\<rparr>"

fun ns_lookup :: "namespace \<Rightarrow> named_obj \<Rightarrow> string option" where
  "ns_lookup ns (Hashable i) = ns_obj_to_name ns i"
| "ns_lookup ns (Unhashable i) = ns_id_to_name ns i"

fun ns_remember :: "namespace \<Rightarrow> named_obj \<Rightarrow> string \<Rightarrow> namespace" where
  "ns_remember ns (Hashable i) name = ns\<lparr>ns_obj_to_name := (ns_obj_to_name ns)(i \<mapsto> name)\<rparr>"
| "ns_remember ns (Unhashable i) name = ns\<lparr>ns_id_to_name := (ns_id_to_name ns)(i \<mapsto> name)\<rparr>"

definition ns_use :: "namespace \<Rightarrow> string \<Rightarrow> namespace" where
  "ns_use ns name = ns\<lparr>ns_used_names := List.insert name (ns_used_names ns)\<rparr>"

definition release_name :: "namespace \<Rightarrow> string \<Rightarrow> namespace" where
  "release_name ns name =
     \<lparr>ns_obj_to_name = (\<lambda>i. if ns_obj_to_name ns i = Some name then None else ns_obj_to_name ns i),
      ns_id_to_name = (\<lambda>i. if ns_id_to_name ns i = Some name then None else ns_id_to_name ns i),
      ns_used_names = removeAll name (ns_used_names ns)\<rparr>"

text \<open>The candidate after cleaning, its base and its number; then reserved names are renumbered and taken names skipped.\<close>

definition split_candidate :: "string \<Rightarrow> string \<times> (string \<times> string option)" where
  "split_candidate candidate =
     (let c = sanitize_name candidate; c = (if c = [] then ''_unnamed'' else c)
      in case name_match c of Some m \<Rightarrow> (c, m)
         | None \<Rightarrow> (let c = CHR ''_'' # c
             in case name_match c of Some m \<Rightarrow> (c, m) | None \<Rightarrow> (''_unnamed'', (''_unnamed'', None))))"

definition fresh_name :: "string list \<Rightarrow> string \<Rightarrow> string" where
  "fresh_name used candidate =
     (case split_candidate candidate of (c, base, suffix) \<Rightarrow>
        let c = (if c \<in> set illegal_names
                 then numbered base (case suffix of None \<Rightarrow> 0 | Some ds \<Rightarrow> Suc (digits_value ds)) else c)
        in name_loop used base (map_option digits_value suffix) c)"

definition create_name :: "namespace \<Rightarrow> string \<Rightarrow> named_obj option \<Rightarrow> string \<times> namespace" where
  "create_name ns candidate obj =
     (case Option.bind obj (ns_lookup ns) of
        Some existing \<Rightarrow> (existing, ns)
      | None \<Rightarrow>
          (let name = fresh_name (ns_used_names ns) candidate; ns' = ns_use ns name
           in (name, case obj of None \<Rightarrow> ns' | Some x \<Rightarrow> ns_remember ns' x name)))"

definition associate_name_with_obj :: "namespace \<Rightarrow> string \<Rightarrow> named_obj \<Rightarrow> namespace result" where
  "associate_name_with_obj ns name obj =
     (case ns_lookup ns obj of
        Some existing \<Rightarrow>
          if existing \<noteq> name then Inl AssertionError else Inr (ns_remember (ns_use ns name) obj name)
      | None \<Rightarrow> Inr (ns_remember (ns_use ns name) obj name))"

definition rename_object :: "namespace \<Rightarrow> named_obj \<Rightarrow> string \<Rightarrow> namespace" where
  "rename_object ns obj name = ns_use (ns_remember ns obj name) name"

subsection \<open>Fresh names\<close>

text \<open>The loop returns the candidate if it is free, else the base with the first free number.\<close>

lemma name_loop_spec:
  "name_loop used base number candidate \<notin> set used \<and>
   (if candidate \<in> set used
    then \<exists>k \<ge> next_number number. name_loop used base number candidate = numbered base k \<and>
           (\<forall>j. next_number number \<le> j \<and> j < k \<longrightarrow> numbered base j \<in> set used)
    else name_loop used base number candidate = candidate)"
proof (induction used base number candidate rule: name_loop.induct)
  case (1 used base number candidate)
  show ?case
  proof (cases "candidate \<in> set used")
    case True
    define k where "k = next_number number"
    let ?r = "name_loop used base (Some k) (numbered base k)"
    have IH: "?r \<notin> set used \<and>
      (if numbered base k \<in> set used
       then \<exists>m \<ge> Suc k. ?r = numbered base m \<and> (\<forall>j. Suc k \<le> j \<and> j < m \<longrightarrow> numbered base j \<in> set used)
       else ?r = numbered base k)"
      using 1[OF True] unfolding k_def[symmetric] next_number_def[of "Some k"] option.case .
    have "\<exists>m \<ge> k. ?r = numbered base m \<and> (\<forall>j. k \<le> j \<and> j < m \<longrightarrow> numbered base j \<in> set used)"
    proof (cases "numbered base k \<in> set used")
      case taken: True
      then obtain m where m: "Suc k \<le> m" "?r = numbered base m"
        "\<forall>j. Suc k \<le> j \<and> j < m \<longrightarrow> numbered base j \<in> set used" using IH by auto
      have "\<forall>j. k \<le> j \<and> j < m \<longrightarrow> numbered base j \<in> set used"
        using m(3) taken by (metis le_eq_less_or_eq Suc_le_eq)
      then show ?thesis using m by (metis Suc_leD)
    next
      case False
      then show ?thesis using IH by auto
    qed
    then show ?thesis using True IH by (simp add: name_loop.simps[of used base number] k_def)
  qed (simp add: name_loop.simps[of used base number])
qed

lemmas name_loop_free = name_loop_spec[THEN conjunct1]

lemma is_word_underscore [simp]: "is_word (CHR ''_'')" "\<not> is_digit (CHR ''_'')"
  by (simp_all add: is_word_def is_digit_def)

lemma is_digit_word [simp]: "is_digit c \<Longrightarrow> is_word c"
  by (simp add: is_word_def)

lemma nat_str_digits: "c \<in> set (nat_str k) \<Longrightarrow> is_digit c"
proof (induction k rule: nat_str.induct)
  case (1 n)
  have "is_digit (char_of (48 + n mod 10))" by (simp add: is_digit_def of_char_of)
  moreover have "n < 10 \<Longrightarrow> is_digit (char_of (48 + n))" by (simp add: is_digit_def of_char_of)
  ultimately show ?case using 1 by (auto simp: nat_str.simps[of n] split: if_splits)
qed

lemma nat_str_ne [simp]: "nat_str k \<noteq> []"
  by (subst nat_str.simps) simp

lemma sanitize_identifier: "is_identifier (sanitize_name s)"
  by (auto simp: sanitize_name_def Let_def is_identifier_def hd_map split: if_splits)

lemma sanitize_ne [simp]: "sanitize_name s \<noteq> []"
  by (auto simp: sanitize_name_def Let_def)

lemma find_Some_exists: "x \<in> set xs \<Longrightarrow> P x \<Longrightarrow> \<exists>y. find P xs = Some y \<and> P y \<and> y \<in> set xs"
  by (induction xs) auto

text \<open>A cleaned candidate always matches the pattern: the two fallbacks of \<open>create_name\<close> are never taken.\<close>

lemma name_match_identifier:
  assumes "is_identifier s"
  shows "\<exists>k. 0 < k \<and> k \<le> length s \<and> numbering (drop k s) \<and>
    name_match s = Some (take k s, if drop k s = [] then None else Some (tl (drop k s)))"
proof -
  have "length s \<in> set [1..<Suc (length s)]" using assms by (auto simp: is_identifier_def Suc_le_eq)
  from find_Some_exists[where P="\<lambda>k. numbering (drop k s)", OF this]
  obtain k where "find (\<lambda>k. numbering (drop k s)) [1..<Suc (length s)] = Some k"
    "numbering (drop k s)" "k \<in> set [1..<Suc (length s)]" by (auto simp: numbering_def)
  then show ?thesis using assms by (intro exI[of _ k]) (auto simp: name_match_def)
qed

lemma split_candidate_match: "split_candidate s = (sanitize_name s, the (name_match (sanitize_name s)))"
  using name_match_identifier[OF sanitize_identifier[of s]]
  by (auto simp: split_candidate_def Let_def)

lemma is_identifier_take: "is_identifier s \<Longrightarrow> 0 < k \<Longrightarrow> is_identifier (take k s)"
  by (cases s; cases k) (auto simp: is_identifier_def dest: in_set_takeD)

lemma numbered_identifier: "is_identifier base \<Longrightarrow> is_identifier (numbered base k)"
  by (auto simp: is_identifier_def numbered_def dest: nat_str_digits)

lemma split_candidate_base:
  "split_candidate s = (c, base, suffix) \<Longrightarrow> is_identifier c \<and> is_identifier base"
  using name_match_identifier[OF sanitize_identifier[of s]] sanitize_identifier[of s]
  by (auto simp: split_candidate_match intro: is_identifier_take[OF sanitize_identifier])

text \<open>No reserved name ends in an underscore and digits, so a numbered name is never reserved.\<close>

definition last_char_digit :: "string \<Rightarrow> bool" where
  "last_char_digit s = (s \<noteq> [] \<and> is_digit (last s))"

lemma illegal_names_no_digit: "list_all (\<lambda>s. \<not> last_char_digit s) illegal_names"
  by code_simp

lemma numbered_legal: "numbered base k \<notin> set illegal_names"
proof
  assume "numbered base k \<in> set illegal_names"
  then have "\<not> last_char_digit (numbered base k)" using illegal_names_no_digit by (simp add: list_all_iff)
  then show False using nat_str_digits[OF last_in_set[OF nat_str_ne]]
    by (simp add: numbered_def last_char_digit_def)
qed

lemma fresh_name_free: "fresh_name used candidate \<notin> set used"
  by (simp add: fresh_name_def split: prod.split add: Let_def name_loop_free)

lemma name_loop_cases:
  obtains "name_loop used base number c = c" | k where "name_loop used base number c = numbered base k"
  using name_loop_spec[of used base number c] by (auto split: if_splits)

lemma fresh_name_valid: "is_identifier (fresh_name used candidate) \<and> fresh_name used candidate \<notin> set illegal_names"
proof -
  obtain c base suffix where s: "split_candidate candidate = (c, base, suffix)" by (cases "split_candidate candidate") auto
  define c' where "c' = (if c \<in> set illegal_names
    then numbered base (case suffix of None \<Rightarrow> 0 | Some ds \<Rightarrow> Suc (digits_value ds)) else c)"
  have ids: "is_identifier c" "is_identifier base" using split_candidate_base[OF s] by auto
  then have c': "is_identifier c' \<and> c' \<notin> set illegal_names"
    by (auto simp: c'_def numbered_identifier numbered_legal)
  have r: "fresh_name used candidate = name_loop used base (map_option digits_value suffix) c'"
    by (simp add: fresh_name_def s c'_def Let_def)
  show ?thesis
    unfolding r
    by (rule name_loop_cases[of used base "map_option digits_value suffix" c'])
       (auto simp: c' numbered_legal numbered_identifier[OF ids(2)])
qed

lemma fresh_name_shape: "fresh_name used candidate = sanitize_name candidate \<or> (\<exists>base k. fresh_name used candidate = numbered base k)"
proof -
  obtain c base suffix where s: "split_candidate candidate = (c, base, suffix)" by (cases "split_candidate candidate") auto
  have c: "c = sanitize_name candidate" using s by (simp add: split_candidate_match)
  define c' where "c' = (if c \<in> set illegal_names
    then numbered base (case suffix of None \<Rightarrow> 0 | Some ds \<Rightarrow> Suc (digits_value ds)) else c)"
  have r: "fresh_name used candidate = name_loop used base (map_option digits_value suffix) c'"
    by (simp add: fresh_name_def s c'_def Let_def)
  show ?thesis unfolding r
    by (rule name_loop_cases[of used base "map_option digits_value suffix" c']) (auto simp: c'_def c)
qed

text \<open>A candidate that arrives with a number is renumbered from the next one, not from zero.\<close>

lemma numbered_candidate_continues: "fresh_name [''add_3''] ''add_3'' = ''add_4''"
  by code_simp

subsection \<open>Properties\<close>

text \<open>C17: A name handed out for a candidate is an identifier, is neither a keyword nor the name of a builtin, was not in use, and is in
  use afterwards together with all earlier ones; it is the cleaned candidate itself, or one with a number.\<close>

theorem create_name_fresh:
  assumes "create_name ns candidate None = (name, ns')"
  shows "is_identifier name \<and> name \<notin> set illegal_names \<and> name \<notin> set (ns_used_names ns) \<and>
    set (ns_used_names ns') = insert name (set (ns_used_names ns)) \<and>
    (name = sanitize_name candidate \<or> (\<exists>base k. name = numbered base k))"
proof (intro conjI)
  have n: "name = fresh_name (ns_used_names ns) candidate" and ns': "ns' = ns_use ns name"
    using assms by (auto simp: create_name_def Let_def)
  show "is_identifier name" "name \<notin> set illegal_names" using fresh_name_valid n by auto
  show "name \<notin> set (ns_used_names ns)" using fresh_name_free n by simp
  show "set (ns_used_names ns') = insert name (set (ns_used_names ns))" by (simp add: ns' ns_use_def)
  show "name = sanitize_name candidate \<or> (\<exists>base k. name = numbered base k)" unfolding n by (rule fresh_name_shape)
qed

theorem create_name_fresh_witness:
  "create_name (empty_namespace\<lparr>ns_used_names := [''add'', ''add_0'']\<rparr>) ''add'' None =
     (''add_1'', empty_namespace\<lparr>ns_used_names := [''add_1'', ''add'', ''add_0'']\<rparr>) \<and> is_identifier ''add_1''"
proof -
  let ?ns = "empty_namespace\<lparr>ns_used_names := [''add'', ''add_0'']\<rparr>"
  have f: "fresh_name [''add'', ''add_0''] ''add'' = ''add_1''" by code_simp
  then have "create_name ?ns ''add'' None = (''add_1'', empty_namespace\<lparr>ns_used_names := [''add_1'', ''add'', ''add_0'']\<rparr>)"
    by (simp add: create_name_def ns_use_def Let_def)
  then show ?thesis using create_name_fresh[of ?ns "''add''"] by blast
qed

end
