(* ===== verification/GraphNode.thy ===== *)
theory GraphNode
  imports GraphNames "HOL-Library.AList"
begin

text \<open>
  Nodes of the graph intermediate representation, \<^verbatim>\<open>src/tensorplay/graph/node.py\<close>: argument structures and their traversal, the
  ordered set of users, the node object and the operations that change its arguments. Nodes and graphs are mutable objects that
  refer to each other, so they live in an explicit store (\<open>heap\<close>) and are named by their addresses; the identity tests \<open>is\<close> of the
  code are equality of addresses. An operation returns the store next to its result also when it raises, since Python keeps what was
  changed before the exception. Arguments are built from plain tuples, lists, dicts and slices; proxies of the tracer and
  registered callbacks of the owning module are not part of the model.
\<close>

named_theorems heap_simps \<open>reading the store after an update\<close>

type_synonym nid = nat
type_synonym gid = nat

subsection \<open>Argument structures\<close>

datatype pkey = KStr string | KInt int

datatype arg =
    ANone | ABool bool | AInt int | AStr string | AObj nat | ANode nid
  | ATuple "arg list" | AList "arg list" | ADict "(pkey \<times> arg) list" | ASlice arg arg arg

lemma dict_item_size [termination_simp]: "kv \<in> set kvs \<Longrightarrow> size (snd kv) < Suc (size_list (size_prod (\<lambda>x. 0) size) kvs)"
  by (induction kvs) (auto simp: less_Suc_eq_le trans_le_add2)

fun iter_aggregate :: "arg \<Rightarrow> nid list" where
  "iter_aggregate (ANode n) = [n]"
| "iter_aggregate (ATuple xs) = concat (map iter_aggregate xs)"
| "iter_aggregate (AList xs) = concat (map iter_aggregate xs)"
| "iter_aggregate (ADict kvs) = concat (map (\<lambda>kv. iter_aggregate (snd kv)) kvs)"
| "iter_aggregate (ASlice a b c) = iter_aggregate a @ iter_aggregate b @ iter_aggregate c"
| "iter_aggregate _ = []"

fun iter_nodes :: "arg \<Rightarrow> nid list" where
  "iter_nodes (ANode n) = [n]"
| "iter_nodes (ATuple xs) = concat (map iter_nodes xs)"
| "iter_nodes (AList xs) = concat (map iter_nodes xs)"
| "iter_nodes (ADict kvs) = concat (map (\<lambda>kv. iter_nodes (snd kv)) kvs)"
| "iter_nodes (ASlice a b c) = iter_nodes a @ iter_nodes b @ iter_nodes c"
| "iter_nodes _ = []"

text \<open>The function may raise, and the first exception ends the traversal.\<close>

fun map_arg :: "(nid \<Rightarrow> arg result) \<Rightarrow> arg \<Rightarrow> arg result" where
  "map_arg fn (ANode n) = fn n"
| "map_arg fn (ATuple xs) = rbind (traverse (\<lambda>x. map_arg fn x) xs) (\<lambda>ys. Inr (ATuple ys))"
| "map_arg fn (AList xs) = rbind (traverse (\<lambda>x. map_arg fn x) xs) (\<lambda>ys. Inr (AList ys))"
| "map_arg fn (ADict kvs) =
     rbind (traverse (\<lambda>kv. rbind (map_arg fn (snd kv)) (\<lambda>y. Inr (fst kv, y))) kvs) (\<lambda>ys. Inr (ADict ys))"
| "map_arg fn (ASlice a b c) =
     rbind (map_arg fn a) (\<lambda>a'. rbind (map_arg fn b) (\<lambda>b'. rbind (map_arg fn c) (\<lambda>c'. Inr (ASlice a' b' c'))))"
| "map_arg fn v = Inr v"

text \<open>The variant of \<^verbatim>\<open>_utils.py\<close>, used by the interpreter.\<close>

fun map_arg_u :: "(nid \<Rightarrow> arg result) \<Rightarrow> arg \<Rightarrow> arg result" where
  "map_arg_u fn (ANode n) = fn n"
| "map_arg_u fn (ATuple xs) = rbind (traverse (\<lambda>x. map_arg_u fn x) xs) (\<lambda>ys. Inr (ATuple ys))"
| "map_arg_u fn (AList xs) = rbind (traverse (\<lambda>x. map_arg_u fn x) xs) (\<lambda>ys. Inr (AList ys))"
| "map_arg_u fn (ADict kvs) =
     rbind (traverse (\<lambda>kv. rbind (map_arg_u fn (snd kv)) (\<lambda>y. Inr (fst kv, y))) kvs) (\<lambda>ys. Inr (ADict ys))"
| "map_arg_u fn (ASlice a b c) =
     rbind (map_arg_u fn a) (\<lambda>a'. rbind (map_arg_u fn b) (\<lambda>b'. rbind (map_arg_u fn c) (\<lambda>c'. Inr (ASlice a' b' c'))))"
| "map_arg_u fn v = Inr v"

text \<open>Applied to the positional and to the keyword arguments of a node.\<close>

type_synonym kwargs = "(string \<times> arg) list"

definition args_nodes :: "arg list \<Rightarrow> kwargs \<Rightarrow> nid list" where
  "args_nodes args kwargs = concat (map iter_aggregate args) @ concat (map (\<lambda>kv. iter_aggregate (snd kv)) kwargs)"

definition map_args :: "(nid \<Rightarrow> arg result) \<Rightarrow> arg list \<Rightarrow> arg list result" where
  "map_args fn args = traverse (map_arg fn) args"

definition map_kwargs :: "(nid \<Rightarrow> arg result) \<Rightarrow> kwargs \<Rightarrow> kwargs result" where
  "map_kwargs fn kwargs = traverse (\<lambda>kv. rbind (map_arg fn (snd kv)) (\<lambda>y. Inr (fst kv, y))) kwargs"

text \<open>The substitution that a total function gives.\<close>

fun subst_arg :: "(nid \<Rightarrow> nid) \<Rightarrow> arg \<Rightarrow> arg" where
  "subst_arg f (ANode n) = ANode (f n)"
| "subst_arg f (ATuple xs) = ATuple (map (subst_arg f) xs)"
| "subst_arg f (AList xs) = AList (map (subst_arg f) xs)"
| "subst_arg f (ADict kvs) = ADict (map (\<lambda>kv. (fst kv, subst_arg f (snd kv))) kvs)"
| "subst_arg f (ASlice a b c) = ASlice (subst_arg f a) (subst_arg f b) (subst_arg f c)"
| "subst_arg f v = v"

lemma iter_nodes_aggregate: "iter_nodes v = iter_aggregate v"
  by (induction v rule: iter_nodes.induct) (auto intro!: arg_cong[where f=concat] map_cong)

lemma map_arg_u_map_arg: "map_arg_u fn v = map_arg fn v"
  by (induction fn v rule: map_arg_u.induct) (auto cong: traverse_cong rbind_cong)

lemma map_arg_cong_nodes:
  "(\<And>n. n \<in> set (iter_aggregate v) \<Longrightarrow> f n = g n) \<Longrightarrow> map_arg f v = map_arg g v"
proof (induction f v rule: map_arg.induct)
  case (4 fn kvs)
  have "traverse (\<lambda>kv. rbind (map_arg fn (snd kv)) (\<lambda>y. Inr (fst kv, y))) kvs =
        traverse (\<lambda>kv. rbind (map_arg g (snd kv)) (\<lambda>y. Inr (fst kv, y))) kvs"
    by (rule traverse_cong[OF refl]) (use 4 in force)
  then show ?case by simp
next
  case (5 fn a b c)
  then show ?case by (auto simp: rbind_def split: sum.splits)
qed (auto intro!: arg_cong2[where f=rbind] traverse_cong)

lemma map_arg_total:
  "(\<And>n. n \<in> set (iter_aggregate v) \<Longrightarrow> f n = Inr (ANode (s n))) \<Longrightarrow> map_arg f v = Inr (subst_arg s v)"
proof (induction f v rule: map_arg.induct)
  case (2 fn xs)
  have "traverse (\<lambda>x. map_arg fn x) xs = Inr (map (subst_arg s) xs)"
    by (rule traverse_total) (use 2 in force)
  then show ?case by simp
next
  case (3 fn xs)
  have "traverse (\<lambda>x. map_arg fn x) xs = Inr (map (subst_arg s) xs)"
    by (rule traverse_total) (use 3 in force)
  then show ?case by simp
next
  case (4 fn kvs)
  have "traverse (\<lambda>kv. rbind (map_arg fn (snd kv)) (\<lambda>y. Inr (fst kv, y))) kvs =
        Inr (map (\<lambda>kv. (fst kv, subst_arg s (snd kv))) kvs)"
    by (rule traverse_total) (use 4 in force)
  then show ?case by simp
qed auto

lemma iter_aggregate_subst: "iter_aggregate (subst_arg f v) = map f (iter_aggregate v)"
  by (induction f v rule: subst_arg.induct) (auto simp: map_concat comp_def intro!: arg_cong[where f=concat])

lemma subst_arg_id: "(\<And>n. n \<in> set (iter_aggregate v) \<Longrightarrow> f n = n) \<Longrightarrow> subst_arg f v = v"
  by (induction f v rule: subst_arg.induct) (force intro!: map_idI)+

subsection \<open>The ordered set of users\<close>

text \<open>The keys of a dict, in insertion order.\<close>

type_synonym user_set = "nid list"

definition user_add :: "nid \<Rightarrow> user_set \<Rightarrow> user_set" where
  "user_add v us = (if v \<in> set us then us else us @ [v])"

definition user_discard :: "nid \<Rightarrow> user_set \<Rightarrow> user_set" where
  "user_discard v us = filter (\<lambda>u. u \<noteq> v) us"

definition user_remove :: "nid \<Rightarrow> user_set \<Rightarrow> user_set result" where
  "user_remove v us = (if v \<in> set us then Inr (user_discard v us) else Inl KeyError)"

definition user_update :: "nid list \<Rightarrow> user_set \<Rightarrow> user_set" where
  "user_update vs us = fold user_add vs us"

text \<open>\<open>pop()\<close> takes the newest element; \<open>pop(v)\<close> removes \<open>v\<close> and returns it, and raises if it is not there.\<close>

definition user_pop :: "nid option \<Rightarrow> user_set \<Rightarrow> (nid \<times> user_set) result" where
  "user_pop value us =
     (case value of
        None \<Rightarrow> if us = [] then Inl KeyError else Inr (last us, butlast us)
      | Some v \<Rightarrow> rbind (user_remove v us) (\<lambda>us'. Inr (v, us')))"

lemma set_user_add [simp]: "set (user_add v us) = insert v (set us)"
  by (auto simp: user_add_def)

lemma set_user_discard [simp]: "set (user_discard v us) = set us - {v}"
  by (auto simp: user_discard_def)

lemma distinct_user_add [simp]: "distinct us \<Longrightarrow> distinct (user_add v us)"
  by (auto simp: user_add_def)

lemma distinct_user_discard [simp]: "distinct us \<Longrightarrow> distinct (user_discard v us)"
  by (simp add: user_discard_def)

lemma set_user_update [simp]: "set (user_update vs us) = set vs \<union> set us"
  by (induction vs arbitrary: us) (auto simp: user_update_def)

lemma distinct_user_update [simp]: "distinct us \<Longrightarrow> distinct (user_update vs us)"
  by (induction vs arbitrary: us) (auto simp: user_update_def)

lemma user_add_idem [simp]: "user_add v (user_add v us) = user_add v us"
  by (simp add: user_add_def)

lemma user_discard_idem [simp]: "user_discard v (user_discard v us) = user_discard v us"
  by (simp add: user_discard_def)

lemma user_discard_absent [simp]: "v \<notin> set us \<Longrightarrow> user_discard v us = us"
  by (auto simp: user_discard_def intro!: filter_True)

subsection \<open>Nodes and the store\<close>

text \<open>What the code asks of a callable target: its identity, its \<open>__name__\<close> and \<open>__module__\<close> (empty when absent), the name of its type,
  whether it is marked as effectful, and whether its operator schema is mutable. A target that is neither a string nor callable is
  known by the name of its type.\<close>

record callable =
  c_id :: nat
  c_name :: string
  c_type :: string
  c_module :: string
  c_effectful :: bool
  c_schema_mutable :: bool

datatype target = TStr string | TCallable callable | TOther string

record graph_node =
  n_graph :: "gid option"
  n_name :: string
  n_op :: string
  n_target :: target
  n_args :: "arg list"
  n_kwargs :: kwargs
  n_input_nodes :: "nid list"
  n_users :: user_set
  n_meta :: "(string \<times> arg) list"
  n_type :: arg
  n_tag :: arg
  n_size_bytes :: arg
  n_sort_key :: "nat option"
  n_erased :: bool

text \<open>The insertion function of a graph: append, insert at the front, or a closure around an anchor with its cursor.\<close>

datatype insert_fn = AppendNode | InsertFront | InsertBefore nid nat | InsertAfter nid nat

datatype lookup_key = LKey string "target option"

record lookup_table =
  lt_table :: "lookup_key \<Rightarrow> nid list"
  lt_by_op :: "string \<Rightarrow> nid list"

text \<open>The owning module, as far as the graph uses it: its submodules with their \<open>_is_impure\<close> flag, and whether its generated
  executor is still the one of the current graph.\<close>

record owner =
  o_submodules :: "(string \<times> bool) list"
  o_executor :: bool

record graph =
  g_nodes :: "nid list"
  g_index :: "nid \<Rightarrow> nat option"
  g_live_names :: "string set"
  g_next_sort_key :: nat
  g_insert :: insert_fn
  g_owner :: "owner option"
  g_namespace :: namespace
  g_lookup :: lookup_table

text \<open>The store also holds the module-level set of targets with side effects, by identity.\<close>

record heap =
  hp_node :: "nid \<Rightarrow> graph_node"
  hp_graph :: "gid \<Rightarrow> graph"
  hp_next :: nid
  hp_side_effectful :: "nat list"

type_synonym 'a hop = "heap \<Rightarrow> 'a result \<times> heap"

definition hret :: "'a \<Rightarrow> 'a hop" where
  "hret v h = (Inr v, h)"

definition hraise :: "py_error \<Rightarrow> 'a hop" where
  "hraise e h = (Inl e, h)"

definition hbind :: "'a hop \<Rightarrow> ('a \<Rightarrow> 'b hop) \<Rightarrow> 'b hop" where
  "hbind m f h = (case m h of (Inl e, h') \<Rightarrow> (Inl e, h') | (Inr v, h') \<Rightarrow> f v h')"

definition hdo :: "(heap \<Rightarrow> heap) \<Rightarrow> unit hop" where
  "hdo f h = (Inr (), f h)"

definition upd_node :: "nid \<Rightarrow> (graph_node \<Rightarrow> graph_node) \<Rightarrow> heap \<Rightarrow> heap" where
  "upd_node n f h = h\<lparr>hp_node := (hp_node h)(n := f (hp_node h n))\<rparr>"

definition upd_graph :: "gid \<Rightarrow> (graph \<Rightarrow> graph) \<Rightarrow> heap \<Rightarrow> heap" where
  "upd_graph g f h = h\<lparr>hp_graph := (hp_graph h)(g := f (hp_graph h g))\<rparr>"

abbreviation nodes_of :: "heap \<Rightarrow> gid \<Rightarrow> nid list" where
  "nodes_of h g \<equiv> g_nodes (hp_graph h g)"

subsection \<open>Side effects\<close>

definition has_side_effect :: "heap \<Rightarrow> callable \<Rightarrow> bool" where
  "has_side_effect h c = (c_id c \<in> set (hp_side_effectful h) \<or> c_schema_mutable c \<or> c_effectful c \<or> ends_with (c_name c) ''_'')"

text \<open>Truth of a metadata value; other objects count as true.\<close>

fun truthy :: "arg \<Rightarrow> bool" where
  "truthy ANone = False"
| "truthy (ABool b) = b"
| "truthy (AInt i) = (i \<noteq> 0)"
| "truthy (AStr s) = (s \<noteq> [])"
| "truthy (ATuple xs) = (xs \<noteq> [])"
| "truthy (AList xs) = (xs \<noteq> [])"
| "truthy (ADict kvs) = (kvs \<noteq> [])"
| "truthy _ = True"

definition meta_true :: "graph_node \<Rightarrow> string \<Rightarrow> bool" where
  "meta_true nd key = (case map_of (n_meta nd) key of None \<Rightarrow> False | Some v \<Rightarrow> truthy v)"

definition is_impure :: "heap \<Rightarrow> bool \<Rightarrow> nid \<Rightarrow> bool" where
  "is_impure h impure_random n =
     (let nd = hp_node h n
      in if n_op nd = ''placeholder'' \<or> n_op nd = ''output'' then True
         else if meta_true nd ''side_effect'' \<or> meta_true nd ''is_impure'' then True
         else if n_op nd = ''call_module'' then
           (case Option.bind (n_graph nd) (\<lambda>g. g_owner (hp_graph h g)) of
              None \<Rightarrow> True
            | Some owner \<Rightarrow>
                (case n_target nd of
                   TStr path \<Rightarrow> (case map_of (o_submodules owner) path of None \<Rightarrow> True | Some impure \<Rightarrow> impure)
                 | _ \<Rightarrow> True))
         else if n_op nd = ''call_method'' then (case n_target nd of TStr s \<Rightarrow> ends_with s ''_'' | _ \<Rightarrow> False)
         else if n_op nd = ''call_function'' then
           (case n_target nd of
              TCallable c \<Rightarrow>
                has_side_effect h c \<or>
                (impure_random \<and> (contains_str ''random'' (map to_lower (c_name c)) \<or>
                                  contains_str ''random'' (map to_lower (c_module c))))
            | _ \<Rightarrow> False)
         else False)"

subsection \<open>Arguments of a node\<close>

definition update_args_kwargs :: "nid \<Rightarrow> arg list \<Rightarrow> kwargs \<Rightarrow> heap \<Rightarrow> heap" where
  "update_args_kwargs n args kwargs h =
     (let h1 = fold (\<lambda>i. upd_node i (n_users_update (user_discard n))) (n_input_nodes (hp_node h n)) h;
          inputs = user_update (args_nodes args kwargs) [];
          h2 = upd_node n (\<lambda>nd. nd\<lparr>n_args := args, n_kwargs := kwargs, n_input_nodes := inputs\<rparr>) h1
      in fold (\<lambda>i. upd_node i (n_users_update (user_add n))) inputs h2)"

definition legal_ops :: "string list" where
  "legal_ops = [''placeholder'', ''call_method'', ''call_module'', ''call_function'', ''get_attr'', ''output'']"

definition is_callable :: "target \<Rightarrow> bool" where
  "is_callable t = (case t of TCallable _ \<Rightarrow> True | _ \<Rightarrow> False)"

definition is_str_target :: "target \<Rightarrow> bool" where
  "is_str_target t = (case t of TStr _ \<Rightarrow> True | _ \<Rightarrow> False)"

definition blank_node :: graph_node where
  "blank_node = \<lparr>n_graph = None, n_name = [], n_op = [], n_target = TStr [], n_args = [], n_kwargs = [], n_input_nodes = [],
     n_users = [], n_meta = [], n_type = ANone, n_tag = ANone, n_size_bytes = ANone, n_sort_key = None, n_erased = False\<rparr>"

text \<open>\<open>Node(graph, name, op, target, args, kwargs, return_type)\<close>: the address is the next free one.\<close>

definition node_init :: "gid \<Rightarrow> string \<Rightarrow> string \<Rightarrow> target \<Rightarrow> arg list \<Rightarrow> kwargs \<Rightarrow> arg \<Rightarrow> nid hop" where
  "node_init g name op target args kwargs return_type h =
     (if op \<notin> set legal_ops then hraise GraphCaptureError h
      else if op = ''call_function'' \<and> \<not> is_callable target then hraise TypeError h
      else if op \<noteq> ''call_function'' \<and> \<not> is_str_target target then hraise TypeError h
      else let n = hp_next h;
               nd = blank_node\<lparr>n_graph := Some g, n_name := name, n_op := op, n_target := target, n_type := return_type\<rparr>;
               h1 = (upd_node n (\<lambda>_. nd) h)\<lparr>hp_next := Suc n\<rparr>
           in (Inr n, update_args_kwargs n args kwargs h1))"

definition set_args :: "nid \<Rightarrow> arg list \<Rightarrow> heap \<Rightarrow> heap" where
  "set_args n value h = update_args_kwargs n value (n_kwargs (hp_node h n)) h"

definition set_kwargs :: "nid \<Rightarrow> kwargs \<Rightarrow> heap \<Rightarrow> heap" where
  "set_kwargs n value h = update_args_kwargs n (n_args (hp_node h n)) value h"

text \<open>List assignment accepts negative indices.\<close>

definition update_arg :: "nid \<Rightarrow> int \<Rightarrow> arg \<Rightarrow> unit hop" where
  "update_arg n index value h =
     (let args = n_args (hp_node h n); j = (if index < 0 then index + int (length args) else index)
      in if 0 \<le> j \<and> j < int (length args) then (Inr (), set_args n (args[nat j := value]) h) else (Inl IndexError, h))"

definition insert_arg :: "nid \<Rightarrow> int \<Rightarrow> arg \<Rightarrow> unit hop" where
  "insert_arg n index value h =
     (let args = n_args (hp_node h n)
      in if 0 \<le> index \<and> index \<le> int (length args)
         then (Inr (), set_args n (take (nat index) args @ value # drop (nat index) args) h) else (Inl IndexError, h))"

definition update_kwarg :: "nid \<Rightarrow> string \<Rightarrow> arg \<Rightarrow> heap \<Rightarrow> heap" where
  "update_kwarg n key value h = set_kwargs n (AList.update key value (n_kwargs (hp_node h n))) h"

text \<open>\<open>_replace_input_with\<close>, and the checked \<open>replace_input_with\<close>.\<close>

definition replaced :: "nid \<Rightarrow> nid \<Rightarrow> nid \<Rightarrow> arg result" where
  "replaced old new v = Inr (ANode (if v = old then new else v))"

definition replace_input_unchecked :: "nid \<Rightarrow> nid \<Rightarrow> nid \<Rightarrow> unit hop" where
  "replace_input_unchecked n old new h =
     (case map_args (replaced old new) (n_args (hp_node h n)) of
        Inl e \<Rightarrow> (Inl e, h)
      | Inr args \<Rightarrow>
          (case map_kwargs (replaced old new) (n_kwargs (hp_node h n)) of
             Inl e \<Rightarrow> (Inl e, h)
           | Inr kwargs \<Rightarrow> (Inr (), update_args_kwargs n args kwargs h)))"

definition replace_input_with :: "nid \<Rightarrow> nid \<Rightarrow> nid \<Rightarrow> unit hop" where
  "replace_input_with n old new h =
     (if old = new then (Inr (), h)
      else if n_graph (hp_node h n) = None \<or> n_graph (hp_node h old) \<noteq> n_graph (hp_node h n)
              \<or> n_graph (hp_node h new) \<noteq> n_graph (hp_node h n)
      then (Inl GraphCaptureError, h)
      else replace_input_unchecked n old new h)"

text \<open>The loop over a snapshot of the users. A user that does not come after the replacement ends it with an exception, after
  the users before it have been rewritten.\<close>

fun replace_uses :: "(nid \<Rightarrow> bool) option \<Rightarrow> (nid \<Rightarrow> nat option) \<Rightarrow> nid \<Rightarrow> nid \<Rightarrow> nid list \<Rightarrow> nid list \<Rightarrow> nid list hop" where
  "replace_uses cb positions old new [] result h = (Inr result, h)"
| "replace_uses cb positions old new (user # us) result h =
     (if (case cb of None \<Rightarrow> False | Some f \<Rightarrow> \<not> f user) then replace_uses cb positions old new us result h
      else if (case positions new of None \<Rightarrow> False
               | Some p \<Rightarrow> (case positions user of None \<Rightarrow> True | Some u \<Rightarrow> u \<le> p))
      then (Inl GraphCaptureError, h)
      else (case replace_input_unchecked user old new h of
              (Inl e, h') \<Rightarrow> (Inl e, h')
            | (Inr _, h') \<Rightarrow> replace_uses cb positions old new us (result @ [user]) h'))"

definition replace_all_uses_with :: "nid \<Rightarrow> nid \<Rightarrow> (nid \<Rightarrow> bool) option \<Rightarrow> bool \<Rightarrow> nid list hop" where
  "replace_all_uses_with n replace_with delete_user_cb propagate_meta h =
     (if replace_with = n then (Inl GraphCaptureError, h)
      else case n_graph (hp_node h n) of
        None \<Rightarrow> (Inl GraphCaptureError, h)
      | Some g \<Rightarrow>
          if n_graph (hp_node h replace_with) \<noteq> Some g then (Inl GraphCaptureError, h)
          else if propagate_meta \<and> n_meta (hp_node h replace_with) \<noteq> [] then (Inl AssertionError, h)
          else let h1 = (if propagate_meta then upd_node replace_with (n_meta_update (\<lambda>_. n_meta (hp_node h n))) h else h)
               in replace_uses delete_user_cb (g_index (hp_graph h1 g)) n replace_with (n_users (hp_node h1 n)) [] h1)"

text \<open>The order \<open>__lt__\<close> of nodes, by sort key; nodes without one compare by identity.\<close>

definition node_lt :: "heap \<Rightarrow> nid \<Rightarrow> nid \<Rightarrow> bool" where
  "node_lt h a b =
     ((case n_sort_key (hp_node h a) of Some k \<Rightarrow> k | None \<Rightarrow> a) < (case n_sort_key (hp_node h b) of Some k \<Rightarrow> k | None \<Rightarrow> b))"

end
