(* ===== verification/GraphIR.thy ===== *)
theory GraphIR
  imports GraphNode
begin

text \<open>
  The graph object of \<^verbatim>\<open>src/tensorplay/graph/graph.py\<close>: the node list with its bookkeeping (positions, sort keys, live names, lookup
  table), creation, erasure, moving and renaming of nodes, insertion points, queries and the well-formedness check \<open>lint\<close>.
\<close>

subsection \<open>The lookup table\<close>

definition empty_lookup :: lookup_table where
  "empty_lookup = \<lparr>lt_table = (\<lambda>_. []), lt_by_op = (\<lambda>_. [])\<rparr>"

definition lookup_key_of :: "graph_node \<Rightarrow> lookup_key" where
  "lookup_key_of nd = LKey (n_op nd) (if n_op nd = ''call_function'' then Some (n_target nd) else None)"

definition lookup_insert :: "(nid \<Rightarrow> graph_node) \<Rightarrow> nid \<Rightarrow> lookup_table \<Rightarrow> lookup_table" where
  "lookup_insert nodes n lt =
     \<lparr>lt_table = (lt_table lt)(lookup_key_of (nodes n) := user_add n (lt_table lt (lookup_key_of (nodes n)))),
      lt_by_op = (lt_by_op lt)(n_op (nodes n) := user_add n (lt_by_op lt (n_op (nodes n))))\<rparr>"

definition lookup_remove :: "(nid \<Rightarrow> graph_node) \<Rightarrow> nid \<Rightarrow> lookup_table \<Rightarrow> lookup_table" where
  "lookup_remove nodes n lt =
     \<lparr>lt_table = (lt_table lt)(lookup_key_of (nodes n) := user_discard n (lt_table lt (lookup_key_of (nodes n)))),
      lt_by_op = (lt_by_op lt)(n_op (nodes n) := user_discard n (lt_by_op lt (n_op (nodes n))))\<rparr>"

definition lookup_rebuild :: "(nid \<Rightarrow> graph_node) \<Rightarrow> nid list \<Rightarrow> lookup_table" where
  "lookup_rebuild nodes ns = fold (lookup_insert nodes) ns empty_lookup"

definition lookup_find :: "(nid \<Rightarrow> graph_node) \<Rightarrow> lookup_table \<Rightarrow> string \<Rightarrow> target option \<Rightarrow> nid list" where
  "lookup_find nodes lt op tgt =
     (case tgt of
        None \<Rightarrow> lt_by_op lt op
      | Some t \<Rightarrow>
          if op = ''call_function'' then filter (\<lambda>n. n_target (nodes n) = t) (lt_table lt (LKey op (Some t)))
          else filter (\<lambda>n. n_target (nodes n) = t) (lt_by_op lt op))"

definition lookup_contains :: "(nid \<Rightarrow> graph_node) \<Rightarrow> lookup_table \<Rightarrow> nid \<Rightarrow> bool" where
  "lookup_contains nodes lt n = (n \<in> set (lt_table lt (lookup_key_of (nodes n))))"

subsection \<open>Bookkeeping of the node list\<close>

definition new_graph :: "owner option \<Rightarrow> graph" where
  "new_graph owner = \<lparr>g_nodes = [], g_index = Map.empty, g_live_names = {}, g_next_sort_key = 0, g_insert = AppendNode,
     g_owner = owner, g_namespace = empty_namespace, g_lookup = empty_lookup\<rparr>"

text \<open>\<open>Graph._sync_nodes(values, old)\<close>: re-read everything from the list.\<close>

definition index_of :: "nid list \<Rightarrow> nid \<Rightarrow> nat option" where
  "index_of ns = map_of (rev (zip ns [0..<length ns]))"

definition detach :: "gid \<Rightarrow> nid list \<Rightarrow> nid \<Rightarrow> heap \<Rightarrow> heap" where
  "detach g current n h =
     (if n \<notin> set current \<and> n_graph (hp_node h n) = Some g then upd_node n (\<lambda>nd. nd\<lparr>n_graph := None, n_erased := True\<rparr>) h else h)"

definition attach :: "gid \<Rightarrow> nat \<times> nid \<Rightarrow> heap \<Rightarrow> heap" where
  "attach g iv = upd_node (snd iv) (\<lambda>nd. nd\<lparr>n_graph := Some g, n_erased := False, n_sort_key := Some (fst iv)\<rparr>)"

definition sync_nodes :: "gid \<Rightarrow> nid list \<Rightarrow> nid list \<Rightarrow> heap \<Rightarrow> heap" where
  "sync_nodes g current old h =
     (let h1 = fold (detach g current) old h;
          h2 = fold (attach g) (enumerate 0 current) h1
      in upd_graph g (\<lambda>gr. gr\<lparr>g_index := index_of current, g_live_names := (\<lambda>n. n_name (hp_node h2 n)) ` set current,
                               g_next_sort_key := length current, g_lookup := lookup_rebuild (hp_node h2) current\<rparr>) h2)"

definition set_node_list :: "gid \<Rightarrow> nid list \<Rightarrow> heap \<Rightarrow> heap" where
  "set_node_list g ns = upd_graph g (g_nodes_update (\<lambda>_. ns))"

text \<open>A whole-list mutation followed by \<open>_mutated\<close>.\<close>

definition replace_list :: "gid \<Rightarrow> nid list \<Rightarrow> heap \<Rightarrow> heap" where
  "replace_list g ns h = sync_nodes g ns (nodes_of h g) (set_node_list g ns h)"

text \<open>\<open>_NodeList._added\<close>: the nodes now at the end, the first of them at position \<open>index\<close>.\<close>

definition added_one :: "gid \<Rightarrow> nat \<times> nid \<Rightarrow> heap \<Rightarrow> heap" where
  "added_one g iv h =
     (let n = snd iv; key = g_next_sort_key (hp_graph h g);
          h1 = upd_node n (\<lambda>nd. nd\<lparr>n_graph := Some g, n_erased := False, n_sort_key := Some key\<rparr>) h
      in upd_graph g (\<lambda>gr. gr\<lparr>g_index := (g_index gr)(n \<mapsto> fst iv), g_next_sort_key := Suc key,
                               g_live_names := insert (n_name (hp_node h1 n)) (g_live_names gr),
                               g_lookup := lookup_insert (hp_node h1) n (g_lookup gr)\<rparr>) h1)"

definition added :: "gid \<Rightarrow> nid list \<Rightarrow> heap \<Rightarrow> heap" where
  "added g values h = fold (added_one g) (enumerate (length (nodes_of h g) - length values) values) h"

text \<open>\<open>_NodeList._removed\<close>. The positions of the other nodes stay as they are.\<close>

definition removed_one :: "gid \<Rightarrow> nid \<Rightarrow> heap \<Rightarrow> heap" where
  "removed_one g n h =
     (if n_graph (hp_node h n) \<noteq> Some g then h
      else let h1 = upd_node n (\<lambda>nd. nd\<lparr>n_graph := None, n_erased := True\<rparr>) h
           in upd_graph g (\<lambda>gr. gr\<lparr>g_index := (g_index gr)(n := None),
                                    g_live_names := g_live_names gr - {n_name (hp_node h1 n)},
                                    g_lookup := lookup_remove (hp_node h1) n (g_lookup gr)\<rparr>) h1)"

definition removed :: "gid \<Rightarrow> nid list \<Rightarrow> heap \<Rightarrow> heap" where
  "removed g values h = fold (removed_one g) values h"

subsection \<open>Direct mutations of the node list\<close>

definition list_append :: "gid \<Rightarrow> nid \<Rightarrow> heap \<Rightarrow> heap" where
  "list_append g n h = added g [n] (set_node_list g (nodes_of h g @ [n]) h)"

definition list_extend :: "gid \<Rightarrow> nid list \<Rightarrow> heap \<Rightarrow> heap" where
  "list_extend g values h = added g values (set_node_list g (nodes_of h g @ values) h)"

definition list_insert :: "gid \<Rightarrow> nat \<Rightarrow> nid \<Rightarrow> heap \<Rightarrow> heap" where
  "list_insert g index n h =
     (if length (nodes_of h g) \<le> index then list_append g n h
      else replace_list g (take index (nodes_of h g) @ n # drop index (nodes_of h g)) h)"

definition list_remove :: "gid \<Rightarrow> nid \<Rightarrow> unit hop" where
  "list_remove g n h =
     (if n \<notin> set (nodes_of h g) then (Inl ValueError, h)
      else (Inr (), removed g [n] (set_node_list g (remove1 n (nodes_of h g)) h)))"

definition list_delete :: "gid \<Rightarrow> int \<Rightarrow> nid hop" where
  "list_delete g index h =
     (let ns = nodes_of h g; j = (if index < 0 then index + int (length ns) else index)
      in if 0 \<le> j \<and> j < int (length ns)
         then (Inr (ns ! nat j), removed g [ns ! nat j] (set_node_list g (take (nat j) ns @ drop (Suc (nat j)) ns) h))
         else (Inl IndexError, h))"

definition list_clear :: "gid \<Rightarrow> heap \<Rightarrow> heap" where
  "list_clear g h = removed g (nodes_of h g) (set_node_list g [] h)"

definition list_reverse :: "gid \<Rightarrow> heap \<Rightarrow> heap" where
  "list_reverse g h = replace_list g (rev (nodes_of h g)) h"

definition list_sort :: "gid \<Rightarrow> (nid \<Rightarrow> nat) \<Rightarrow> heap \<Rightarrow> heap" where
  "list_sort g key h = replace_list g (sort_key key (nodes_of h g)) h"

definition list_set_item :: "gid \<Rightarrow> int \<Rightarrow> nid \<Rightarrow> unit hop" where
  "list_set_item g index n h =
     (let ns = nodes_of h g; j = (if index < 0 then index + int (length ns) else index)
      in if 0 \<le> j \<and> j < int (length ns) then (Inr (), replace_list g (ns[nat j := n]) h) else (Inl IndexError, h))"

definition set_nodes :: "gid \<Rightarrow> nid list \<Rightarrow> heap \<Rightarrow> heap" where
  "set_nodes g value h = replace_list g value h"

definition clear_nodes :: "gid \<Rightarrow> heap \<Rightarrow> heap" where
  "clear_nodes g h = replace_list g [] h"

subsection \<open>Neighbours and moves\<close>

text \<open>\<open>list.index\<close>: the first position, None standing for ValueError.\<close>

definition list_index :: "nid list \<Rightarrow> nid \<Rightarrow> nat option" where
  "list_index ns = map_of (zip ns [0..<length ns])"

definition node_next :: "heap \<Rightarrow> nid \<Rightarrow> nid option" where
  "node_next h n =
     (case n_graph (hp_node h n) of
        None \<Rightarrow> None
      | Some g \<Rightarrow>
          (case (case g_index (hp_graph h g) n of Some i \<Rightarrow> Some i | None \<Rightarrow> list_index (nodes_of h g) n) of
             None \<Rightarrow> None
           | Some i \<Rightarrow> if i + 1 < length (nodes_of h g) then Some (nodes_of h g ! (i + 1)) else None))"

definition node_prev :: "heap \<Rightarrow> nid \<Rightarrow> nid option result" where
  "node_prev h n =
     (case n_graph (hp_node h n) of
        None \<Rightarrow> Inr None
      | Some g \<Rightarrow>
          (case (case g_index (hp_graph h g) n of Some i \<Rightarrow> Some i | None \<Rightarrow> list_index (nodes_of h g) n) of
             None \<Rightarrow> Inr None
           | Some i \<Rightarrow> if i = 0 then Inr None else rbind (py_nth (nodes_of h g) (int i - 1)) (\<lambda>m. Inr (Some m))))"

text \<open>\<open>self.prepend(graph_node)\<close> (offset 0) and \<open>self.append(graph_node)\<close> (offset 1) move \<open>node\<close> next to \<open>self\<close>. If \<open>self\<close> is not in the list the
  exception comes after \<open>node\<close> has been taken out.\<close>

definition move_node :: "nat \<Rightarrow> nid \<Rightarrow> nid \<Rightarrow> unit hop" where
  "move_node offset self n h =
     (case n_graph (hp_node h self) of
        None \<Rightarrow> (Inl GraphCaptureError, h)
      | Some g \<Rightarrow>
          if n_graph (hp_node h n) \<noteq> Some g then (Inl GraphCaptureError, h)
          else if n = self then (Inr (), h)
          else let old = nodes_of h g
               in if n \<notin> set old then (Inl ValueError, h)
                  else let ns = remove1 n old
                       in case list_index ns self of
                            None \<Rightarrow> (Inl ValueError, set_node_list g ns h)
                          | Some i \<Rightarrow> (Inr (), replace_list g (take (i + offset) ns @ n # drop (i + offset) ns) h))"

definition node_prepend :: "nid \<Rightarrow> nid \<Rightarrow> unit hop" where
  "node_prepend self n = move_node 0 self n"

definition node_append :: "nid \<Rightarrow> nid \<Rightarrow> unit hop" where
  "node_append self n = move_node 1 self n"

subsection \<open>Creating nodes\<close>

text \<open>Running the insertion function; a closure also moves its cursor.\<close>

definition anchored_position :: "nid list \<Rightarrow> nid \<Rightarrow> nat \<Rightarrow> nat option" where
  "anchored_position ns anchor cursor =
     (if length ns \<le> cursor \<or> ns ! cursor \<noteq> anchor then list_index ns anchor else Some cursor)"

definition after_position :: "nid list \<Rightarrow> nid \<Rightarrow> nat \<Rightarrow> nat option" where
  "after_position ns anchor cursor =
     (if length ns < cursor \<or> (cursor = length ns \<and> (ns = [] \<or> last ns \<noteq> anchor))
      then map_option Suc (list_index ns anchor) else Some cursor)"

definition run_insert :: "gid \<Rightarrow> nid \<Rightarrow> unit hop" where
  "run_insert g n h =
     (case g_insert (hp_graph h g) of
        AppendNode \<Rightarrow> (Inr (), list_append g n h)
      | InsertFront \<Rightarrow> (Inr (), list_insert g 0 n h)
      | InsertBefore anchor cursor \<Rightarrow>
          (case anchored_position (nodes_of h g) anchor cursor of
             None \<Rightarrow> (Inl GraphCaptureError, h)
           | Some p \<Rightarrow> (Inr (), upd_graph g (g_insert_update (\<lambda>_. InsertBefore anchor (Suc p))) (list_insert g p n h)))
      | InsertAfter anchor cursor \<Rightarrow>
          (case after_position (nodes_of h g) anchor cursor of
             None \<Rightarrow> (Inl GraphCaptureError, h)
           | Some p \<Rightarrow> (Inr (), upd_graph g (g_insert_update (\<lambda>_. InsertAfter anchor p)) (list_insert g p n h))))"

definition target_to_str :: "target \<Rightarrow> string" where
  "target_to_str t =
     target_str_to_name (case t of TStr s \<Rightarrow> s | TCallable c \<Rightarrow> (if c_name c = [] then c_type c else c_name c) | TOther ty \<Rightarrow> ty)"

definition set_namespace :: "gid \<Rightarrow> namespace \<Rightarrow> heap \<Rightarrow> heap" where
  "set_namespace g ns = upd_graph g (g_namespace_update (\<lambda>_. ns))"

text \<open>The part of \<open>create_node\<close> after the node object exists: a provisional sort key, the insertion, the record of the name.\<close>

definition bump_sort_key :: "gid \<Rightarrow> nid \<Rightarrow> heap \<Rightarrow> heap" where
  "bump_sort_key g n h =
     upd_graph g (\<lambda>gr. gr\<lparr>g_next_sort_key := Suc (g_next_sort_key gr)\<rparr>)
       (upd_node n (\<lambda>nd. nd\<lparr>n_sort_key := Some (g_next_sort_key (hp_graph h g))\<rparr>) h)"

definition mount_node :: "gid \<Rightarrow> nid \<Rightarrow> nid hop" where
  "mount_node g n =
     hbind (hdo (bump_sort_key g n)) (\<lambda>_.
     hbind (run_insert g n) (\<lambda>_ h.
       case associate_name_with_obj (g_namespace (hp_graph h g)) (n_name (hp_node h n)) (Hashable n) of
         Inl e \<Rightarrow> (Inl e, h)
       | Inr ns \<Rightarrow> (Inr n, set_namespace g ns h)))"

definition create_node :: "gid \<Rightarrow> string \<Rightarrow> target \<Rightarrow> arg list \<Rightarrow> kwargs \<Rightarrow> string option \<Rightarrow> arg \<Rightarrow> nid hop" where
  "create_node g op target args kwargs name type_expr h =
     (if op \<notin> set legal_ops then (Inl GraphCaptureError, h)
      else let candidate = (case name of Some s \<Rightarrow> s | None \<Rightarrow> target_to_str target)
           in case create_name (g_namespace (hp_graph h g)) candidate None of
                (node_name, ns) \<Rightarrow>
                  hbind (node_init g node_name op target args kwargs type_expr) (mount_node g) (set_namespace g ns h))"

definition placeholder :: "gid \<Rightarrow> string \<Rightarrow> arg \<Rightarrow> arg option \<Rightarrow> arg option \<Rightarrow> nid hop" where
  "placeholder g name type_expr default_value dflt h =
     (if dflt \<noteq> None \<and> default_value \<noteq> None then (Inl TypeError, h)
      else case (case dflt of Some d \<Rightarrow> Some d | None \<Rightarrow> default_value) of
             None \<Rightarrow> create_node g ''placeholder'' (TStr name) [] [] (Some name) type_expr h
           | Some d \<Rightarrow>
               hbind (create_node g ''placeholder'' (TStr name) [d] [] (Some name) type_expr)
                 (\<lambda>n h'. (Inr n, upd_node n (n_meta_update (AList.update ''default'' d)) h')) h)"

definition get_attr :: "gid \<Rightarrow> string \<Rightarrow> arg \<Rightarrow> nid hop" where
  "get_attr g qualified_name type_expr = create_node g ''get_attr'' (TStr qualified_name) [] [] None type_expr"

definition call_module :: "gid \<Rightarrow> string \<Rightarrow> arg list \<Rightarrow> kwargs \<Rightarrow> arg \<Rightarrow> string option \<Rightarrow> nid hop" where
  "call_module g module_name args kwargs type_expr name = create_node g ''call_module'' (TStr module_name) args kwargs name type_expr"

definition call_method :: "gid \<Rightarrow> string \<Rightarrow> arg list \<Rightarrow> kwargs \<Rightarrow> arg \<Rightarrow> string option \<Rightarrow> nid hop" where
  "call_method g method_name args kwargs type_expr name = create_node g ''call_method'' (TStr method_name) args kwargs name type_expr"

definition call_function :: "gid \<Rightarrow> target \<Rightarrow> arg list \<Rightarrow> kwargs \<Rightarrow> arg \<Rightarrow> string option \<Rightarrow> nid hop" where
  "call_function g the_function args kwargs type_expr name = create_node g ''call_function'' the_function args kwargs name type_expr"

subsection \<open>Erasing nodes\<close>

definition notify_owner_mutated :: "gid \<Rightarrow> heap \<Rightarrow> heap" where
  "notify_owner_mutated g = upd_graph g (\<lambda>gr. gr\<lparr>g_owner := map_option (\<lambda>w. w\<lparr>o_executor := False\<rparr>) (g_owner gr)\<rparr>)"

definition clear_node :: "nid \<Rightarrow> heap \<Rightarrow> heap" where
  "clear_node n = upd_node n (\<lambda>nd. nd\<lparr>n_graph := None, n_erased := True, n_args := [], n_kwargs := [], n_input_nodes := [], n_users := []\<rparr>)"

definition remove_node :: "gid \<Rightarrow> nid \<Rightarrow> unit hop" where
  "remove_node g n h =
     (if n_graph (hp_node h n) \<noteq> Some g then (Inl GraphCaptureError, h)
      else if n_users (hp_node h n) \<noteq> [] then (Inl GraphCaptureError, h)
      else let h1 = fold (\<lambda>i. upd_node i (n_users_update (user_discard n))) (n_input_nodes (hp_node h n)) h
           in if n \<notin> set (nodes_of h1 g) then (Inl ValueError, h1)
              else let h2 = replace_list g (remove1 n (nodes_of h1 g)) h1;
                       h3 = set_namespace g (release_name (g_namespace (hp_graph h2 g)) (n_name (hp_node h2 n))) h2
                   in (Inr (), notify_owner_mutated g (clear_node n h3)))"

definition graph_erase_node :: "gid \<Rightarrow> nid \<Rightarrow> unit hop" where
  "graph_erase_node g n h =
     (if n_graph (hp_node h n) \<noteq> Some g then (Inl GraphCaptureError, h)
      else if n_erased (hp_node h n) then (Inr (), h)
      else remove_node g n h)"

definition node_erase_node :: "nid \<Rightarrow> unit hop" where
  "node_erase_node n h =
     (case n_graph (hp_node h n) of None \<Rightarrow> (Inl GraphCaptureError, h) | Some g \<Rightarrow> graph_erase_node g n h)"

definition placeholders :: "heap \<Rightarrow> gid \<Rightarrow> nid list" where
  "placeholders h g = filter (\<lambda>n. n_op (hp_node h n) = ''placeholder'') (nodes_of h g)"

definition outputs :: "heap \<Rightarrow> gid \<Rightarrow> nid list" where
  "outputs h g = filter (\<lambda>n. n_op (hp_node h n) = ''output'') (nodes_of h g)"

definition output_node :: "heap \<Rightarrow> gid \<Rightarrow> nid result" where
  "output_node h g = (if outputs h g = [] then Inl GraphCaptureError else Inr (last (outputs h g)))"

fun remove_nodes :: "gid \<Rightarrow> nid list \<Rightarrow> unit hop" where
  "remove_nodes g [] h = (Inr (), h)"
| "remove_nodes g (n # ns) h = hbind (remove_node g n) (\<lambda>_. remove_nodes g ns) h"

definition graph_output :: "gid \<Rightarrow> arg \<Rightarrow> arg \<Rightarrow> nid hop" where
  "graph_output g res type_expr h =
     hbind (remove_nodes g (outputs h g)) (\<lambda>_. create_node g ''output'' (TStr ''output'') [res] [] (Some ''output'') type_expr) h"

subsection \<open>Renaming and retargeting\<close>

definition rename :: "nid \<Rightarrow> string \<Rightarrow> unit hop" where
  "rename n new_name h =
     (case n_graph (hp_node h n) of
        None \<Rightarrow> (Inl GraphCaptureError, h)
      | Some g \<Rightarrow>
          if new_name = n_name (hp_node h n) then (Inr (), h)
          else case create_name (g_namespace (hp_graph h g)) new_name None of
                 (candidate, ns) \<Rightarrow>
                   (Inr (), upd_graph g (\<lambda>gr. gr\<lparr>g_live_names := insert candidate (g_live_names gr - {n_name (hp_node h n)}),
                                                  g_namespace := rename_object ns (Hashable n) candidate\<rparr>)
                              (upd_node n (n_name_update (\<lambda>_. candidate)) h)))"

text \<open>\<open>Node.__setattr__\<close> for \<open>op\<close> and \<open>target\<close>: a mounted node moves in the lookup table.\<close>

definition set_tracked :: "nid \<Rightarrow> (graph_node \<Rightarrow> graph_node) \<Rightarrow> heap \<Rightarrow> heap" where
  "set_tracked n f h =
     (case n_graph (hp_node h n) of
        None \<Rightarrow> upd_node n f h
      | Some g \<Rightarrow>
          if n_erased (hp_node h n) \<or> g_index (hp_graph h g) n = None then upd_node n f h
          else let h1 = upd_graph g (g_lookup_update (lookup_remove (hp_node h) n)) h;
                   h2 = upd_node n f h1
               in upd_graph g (g_lookup_update (lookup_insert (hp_node h2) n)) h2)"

definition set_op :: "nid \<Rightarrow> string \<Rightarrow> heap \<Rightarrow> heap" where
  "set_op n op = set_tracked n (n_op_update (\<lambda>_. op))"

definition set_target :: "nid \<Rightarrow> target \<Rightarrow> heap \<Rightarrow> heap" where
  "set_target n t = set_tracked n (n_target_update (\<lambda>_. t))"

subsection \<open>Insertion points\<close>

definition insert_point :: "gid \<Rightarrow> insert_fn \<Rightarrow> insert_fn hop" where
  "insert_point g new_insert h = (Inr (g_insert (hp_graph h g)), upd_graph g (g_insert_update (\<lambda>_. new_insert)) h)"

definition insert_point_exit :: "gid \<Rightarrow> insert_fn \<Rightarrow> heap \<Rightarrow> heap" where
  "insert_point_exit g orig_insert = upd_graph g (g_insert_update (\<lambda>_. orig_insert))"

definition inserting_before :: "gid \<Rightarrow> nid option \<Rightarrow> insert_fn hop" where
  "inserting_before g n h =
     (case n of
        None \<Rightarrow> insert_point g InsertFront h
      | Some a \<Rightarrow>
          if n_graph (hp_node h a) \<noteq> Some g then (Inl GraphCaptureError, h)
          else case g_index (hp_graph h g) a of
                 None \<Rightarrow> (Inl KeyError, h)
               | Some i \<Rightarrow> insert_point g (InsertBefore a i) h)"

definition inserting_after :: "gid \<Rightarrow> nid option \<Rightarrow> insert_fn hop" where
  "inserting_after g n h =
     (case n of
        None \<Rightarrow> insert_point g AppendNode h
      | Some a \<Rightarrow>
          if n_graph (hp_node h a) \<noteq> Some g then (Inl GraphCaptureError, h)
          else case g_index (hp_graph h g) a of
                 None \<Rightarrow> (Inl KeyError, h)
               | Some i \<Rightarrow> insert_point g (InsertAfter a (Suc i)) h)"

subsection \<open>Queries, copies and the check\<close>

definition find_nodes :: "heap \<Rightarrow> gid \<Rightarrow> string option \<Rightarrow> target option \<Rightarrow> bool \<Rightarrow> nid list" where
  "find_nodes h g op tgt sorted_result =
     (let res = (case op of
                   None \<Rightarrow> filter (\<lambda>n. tgt = None \<or> tgt = Some (n_target (hp_node h n))) (nodes_of h g)
                 | Some k \<Rightarrow> lookup_find (hp_node h) (g_lookup (hp_graph h g)) k tgt)
      in if sorted_result then sort_key (\<lambda>n. case g_index (hp_graph h g) n of None \<Rightarrow> - 1 | Some i \<Rightarrow> int i) res else res)"

definition val_lookup :: "(nid \<Rightarrow> arg option) \<Rightarrow> nid \<Rightarrow> arg result" where
  "val_lookup val_map v = (case val_map v of None \<Rightarrow> Inl KeyError | Some a \<Rightarrow> Inr a)"

definition node_copy :: "gid \<Rightarrow> nid \<Rightarrow> (nid \<Rightarrow> arg result) \<Rightarrow> nid hop" where
  "node_copy g n arg_transform h =
     (let nd = hp_node h n
      in case map_args arg_transform (n_args nd) of
           Inl e \<Rightarrow> (Inl e, h)
         | Inr args \<Rightarrow>
             (case map_kwargs arg_transform (n_kwargs nd) of
                Inl e \<Rightarrow> (Inl e, h)
              | Inr kwargs \<Rightarrow>
                  hbind (create_node g (n_op nd) (n_target nd) args kwargs (Some (n_name nd)) (n_type nd))
                    (\<lambda>m h'. (Inr m, upd_node m (\<lambda>md. md\<lparr>n_meta := n_meta nd, n_tag := n_tag nd, n_size_bytes := n_size_bytes nd\<rparr>) h')) h))"

text \<open>The loop of \<open>graph_copy\<close> over the nodes of the source graph; the output node ends it with the mapped result.\<close>

fun copy_nodes :: "gid \<Rightarrow> nid list \<Rightarrow> (nid \<Rightarrow> arg option) \<Rightarrow> ((nid \<Rightarrow> arg option) \<times> (arg \<times> nid) option) hop" where
  "copy_nodes g [] vm h = (Inr (vm, None), h)"
| "copy_nodes g (n # ns) vm h =
     (if vm n \<noteq> None then copy_nodes g ns vm h
      else if n_op (hp_node h n) = ''output'' then
        (case n_args (hp_node h n) of
           [] \<Rightarrow> (Inl IndexError, h)
         | a # _ \<Rightarrow> (case map_arg (val_lookup vm) a of Inl e \<Rightarrow> (Inl e, h) | Inr res \<Rightarrow> (Inr (vm, Some (res, n)), h)))
      else hbind (node_copy g n (val_lookup vm)) (\<lambda>m. copy_nodes g ns (vm(n \<mapsto> ANode m))) h)"

definition graph_copy :: "gid \<Rightarrow> gid \<Rightarrow> (nid \<Rightarrow> arg option) \<Rightarrow> ((nid \<Rightarrow> arg option) \<times> (arg \<times> nid) option) hop" where
  "graph_copy g src vm h = copy_nodes g (nodes_of h src) vm h"

text \<open>\<open>__deepcopy__\<close> into a new graph: first every other node in order, then the outputs.\<close>

fun deepcopy_nodes :: "gid \<Rightarrow> nid list \<Rightarrow> (nid \<Rightarrow> arg option) \<Rightarrow> (nid \<Rightarrow> arg option) hop" where
  "deepcopy_nodes g [] vm h = (Inr vm, h)"
| "deepcopy_nodes g (n # ns) vm h =
     (if n_op (hp_node h n) = ''output'' then deepcopy_nodes g ns vm h
      else hbind (node_copy g n (val_lookup vm)) (\<lambda>m. deepcopy_nodes g ns (vm(n \<mapsto> ANode m))) h)"

fun deepcopy_outputs :: "gid \<Rightarrow> nid list \<Rightarrow> (nid \<Rightarrow> arg option) \<Rightarrow> unit hop" where
  "deepcopy_outputs g [] vm h = (Inr (), h)"
| "deepcopy_outputs g (n # ns) vm h =
     (if n_op (hp_node h n) \<noteq> ''output'' then deepcopy_outputs g ns vm h
      else case n_args (hp_node h n) of
        [] \<Rightarrow> (Inl IndexError, h)
      | a # _ \<Rightarrow>
          (case map_arg (val_lookup vm) a of
             Inl e \<Rightarrow> (Inl e, h)
           | Inr res \<Rightarrow>
               hbind (graph_output g res (n_type (hp_node h n)))
                 (\<lambda>m h'. deepcopy_outputs g ns vm (upd_node m (n_meta_update (\<lambda>_. n_meta (hp_node h' n))) h')) h))"

definition graph_deepcopy :: "gid \<Rightarrow> gid \<Rightarrow> (nid \<Rightarrow> arg option) hop" where
  "graph_deepcopy g new_g h =
     hbind (deepcopy_nodes new_g (nodes_of h g) Map.empty)
       (\<lambda>vm. hbind (deepcopy_outputs new_g (nodes_of h g) vm) (\<lambda>_. hret vm)) (upd_graph new_g (\<lambda>_. new_graph None) h)"

fun lint_inputs :: "heap \<Rightarrow> gid \<Rightarrow> nid \<Rightarrow> nid list \<Rightarrow> unit result" where
  "lint_inputs h g n [] = Inr ()"
| "lint_inputs h g n (i # is) =
     (if n_graph (hp_node h i) \<noteq> Some g then Inl GraphCaptureError
      else case g_index (hp_graph h g) n of
             None \<Rightarrow> Inl KeyError
           | Some p \<Rightarrow>
               if p \<le> (case g_index (hp_graph h g) i of None \<Rightarrow> length (nodes_of h g) | Some q \<Rightarrow> q) then Inl GraphCaptureError
               else lint_inputs h g n is)"

fun lint_nodes :: "heap \<Rightarrow> gid \<Rightarrow> nid list \<Rightarrow> unit result" where
  "lint_nodes h g [] = Inr ()"
| "lint_nodes h g (n # ns) =
     (if n_graph (hp_node h n) \<noteq> Some g then Inl GraphCaptureError
      else rbind (lint_inputs h g n
                    (concat (map iter_nodes (n_args (hp_node h n))) @ concat (map (\<lambda>kv. iter_nodes (snd kv)) (n_kwargs (hp_node h n)))))
             (\<lambda>_. lint_nodes h g ns))"

definition lint :: "heap \<Rightarrow> gid \<Rightarrow> unit result" where
  "lint h g =
     rbind (lint_nodes h g (nodes_of h g)) (\<lambda>_. if 1 < length (outputs h g) then Inl GraphCaptureError else Inr ())"

end
