(* ===== verification/GraphInvariant.thy ===== *)
theory GraphInvariant
  imports GraphIR
begin

text \<open>
  The invariant of graphs in the store and its preservation. \<open>links_ok\<close>: the users of a node are the inverse of the inputs, and
  the inputs are the nodes in the arguments. \<open>book_ok\<close>: the positions, sort keys, live names and lookup table of a graph agree with its node
  list. \<open>names_ok\<close>: names are unique and reserved. Every operation of the interface keeps all three, so they hold in every reachable store.
\<close>

subsection \<open>Reading the store\<close>

lemma upd_node_sel [heap_simps, simp]:
  "hp_node (upd_node n f h) m = (if m = n then f (hp_node h n) else hp_node h m)"
  "hp_graph (upd_node n f h) = hp_graph h" "hp_next (upd_node n f h) = hp_next h"
  "hp_side_effectful (upd_node n f h) = hp_side_effectful h"
  by (simp_all add: upd_node_def)

lemma upd_graph_sel [heap_simps, simp]:
  "hp_node (upd_graph g f h) = hp_node h" "hp_next (upd_graph g f h) = hp_next h"
  "hp_graph (upd_graph g f h) g' = (if g' = g then f (hp_graph h g) else hp_graph h g')"
  "hp_side_effectful (upd_graph g f h) = hp_side_effectful h"
  by (simp_all add: upd_graph_def)

lemma fold_upd_node_sel [heap_simps]:
  "hp_graph (fold (\<lambda>i. upd_node i (f i)) is h) = hp_graph h" "hp_next (fold (\<lambda>i. upd_node i (f i)) is h) = hp_next h"
  "hp_side_effectful (fold (\<lambda>i. upd_node i (f i)) is h) = hp_side_effectful h"
  by (induction "is" arbitrary: h) auto

lemma fold_upd_node_idem:
  assumes "\<And>nd. f (f nd) = f nd"
  shows "hp_node (fold (\<lambda>i. upd_node i f) is h) m = (if m \<in> set is then f (hp_node h m) else hp_node h m)"
  by (induction "is" arbitrary: h) (auto simp: assms)

lemma users_discard_fold:
  "hp_node (fold (\<lambda>i. upd_node i (n_users_update (user_discard n))) is h) m =
     (if m \<in> set is then n_users_update (user_discard n) (hp_node h m) else hp_node h m)"
  by (rule fold_upd_node_idem) simp

lemma users_add_fold:
  "hp_node (fold (\<lambda>i. upd_node i (n_users_update (user_add n))) is h) m =
     (if m \<in> set is then n_users_update (user_add n) (hp_node h m) else hp_node h m)"
  by (rule fold_upd_node_idem) simp

text \<open>What an update of the arguments of \<open>n\<close> does to every node.\<close>

lemma update_args_kwargs_sel [heap_simps]:
  "hp_graph (update_args_kwargs n args kwargs h) = hp_graph h"
  "hp_next (update_args_kwargs n args kwargs h) = hp_next h"
  "hp_side_effectful (update_args_kwargs n args kwargs h) = hp_side_effectful h"
  by (simp_all add: update_args_kwargs_def Let_def fold_upd_node_sel)

lemma update_args_kwargs_node:
  "hp_node (update_args_kwargs n args kwargs h) m =
     (let nd = (if m = n then (hp_node h n)\<lparr>n_args := args, n_kwargs := kwargs, n_input_nodes := user_update (args_nodes args kwargs) []\<rparr>
                else hp_node h m)
      in nd\<lparr>n_users := (if m \<in> set (args_nodes args kwargs) then user_add n else id)
              ((if m \<in> set (n_input_nodes (hp_node h n)) then user_discard n else id) (n_users (hp_node h m)))\<rparr>)"
  by (simp add: update_args_kwargs_def Let_def users_add_fold users_discard_fold)

text \<open>The fields of a node that the bookkeeping of its graph reads.\<close>

definition same_header :: "graph_node \<Rightarrow> graph_node \<Rightarrow> bool" where
  "same_header a b = (n_graph a = n_graph b \<and> n_name a = n_name b \<and> n_op a = n_op b \<and> n_target a = n_target b \<and>
     n_sort_key a = n_sort_key b \<and> n_erased a = n_erased b)"

lemma update_args_kwargs_header: "same_header (hp_node (update_args_kwargs n args kwargs h) m) (hp_node h m)"
  by (simp add: update_args_kwargs_node same_header_def Let_def)

text \<open>Users are the inverse of inputs, and inputs are the nodes of the arguments.\<close>

definition links_ok :: "heap \<Rightarrow> bool" where
  "links_ok h \<longleftrightarrow>
     (\<forall>n. n_input_nodes (hp_node h n) = user_update (args_nodes (n_args (hp_node h n)) (n_kwargs (hp_node h n))) []) \<and>
     (\<forall>n. distinct (n_users (hp_node h n))) \<and>
     (\<forall>m n. m \<in> set (n_users (hp_node h n)) \<longleftrightarrow> n \<in> set (n_input_nodes (hp_node h m))) \<and>
     (\<forall>n \<ge> hp_next h. hp_node h n = blank_node)"

lemma links_input: "links_ok h \<Longrightarrow> set (n_input_nodes (hp_node h n)) = set (args_nodes (n_args (hp_node h n)) (n_kwargs (hp_node h n)))"
  unfolding links_ok_def by (metis set_user_update list.set(1) Un_empty_right)

lemma links_users: "links_ok h \<Longrightarrow> m \<in> set (n_users (hp_node h n)) \<longleftrightarrow> n \<in> set (n_input_nodes (hp_node h m))"
  by (simp add: links_ok_def)

lemma links_blank: "links_ok h \<Longrightarrow> hp_next h \<le> n \<Longrightarrow> hp_node h n = blank_node"
  by (simp add: links_ok_def)

lemma links_distinct_users: "links_ok h \<Longrightarrow> distinct (n_users (hp_node h n))"
  by (simp add: links_ok_def)

lemma user_update_nil [simp]: "user_update [] us = us"
  by (simp add: user_update_def)

lemma blank_sel [simp]:
  "n_users blank_node = []" "n_input_nodes blank_node = []" "n_args blank_node = []" "n_kwargs blank_node = []"
  "n_graph blank_node = None" "n_erased blank_node = False"
  by (simp_all add: blank_node_def)

lemma update_args_kwargs_links:
  assumes "links_ok h" and "n < hp_next h" and "\<And>i. i \<in> set (args_nodes args kwargs) \<Longrightarrow> i < hp_next h"
  shows "links_ok (update_args_kwargs n args kwargs h)"
  unfolding links_ok_def
proof (intro conjI allI impI)
  let ?h = "update_args_kwargs n args kwargs h"
  fix m
  show "n_input_nodes (hp_node ?h m) = user_update (args_nodes (n_args (hp_node ?h m)) (n_kwargs (hp_node ?h m))) []"
    using assms(1) by (simp add: update_args_kwargs_node Let_def links_ok_def)
  show "distinct (n_users (hp_node ?h m))"
    using links_distinct_users[OF assms(1)] by (simp add: update_args_kwargs_node Let_def)
  show "u \<in> set (n_users (hp_node ?h m)) \<longleftrightarrow> m \<in> set (n_input_nodes (hp_node ?h u))" for u
    using links_users[OF assms(1), of u m] by (auto simp: update_args_kwargs_node Let_def)
  assume "hp_next ?h \<le> m"
  then have m: "hp_next h \<le> m" by (simp add: update_args_kwargs_sel)
  then have b: "hp_node h m = blank_node" using links_blank[OF assms(1)] by blast
  moreover have "m \<noteq> n" "m \<notin> set (args_nodes args kwargs)" using m assms(2,3) by force+
  ultimately show "hp_node ?h m = blank_node" by (simp add: update_args_kwargs_node Let_def)
qed

subsection \<open>The invariant of a graph\<close>

definition lookup_ok :: "(nid \<Rightarrow> graph_node) \<Rightarrow> nid list \<Rightarrow> lookup_table \<Rightarrow> bool" where
  "lookup_ok nodes ns lt \<longleftrightarrow>
     (\<forall>op. distinct (lt_by_op lt op) \<and> set (lt_by_op lt op) = {n \<in> set ns. n_op (nodes n) = op}) \<and>
     (\<forall>k. distinct (lt_table lt k) \<and> set (lt_table lt k) = {n \<in> set ns. lookup_key_of (nodes n) = k})"

text \<open>The bookkeeping that \<open>_sync_nodes\<close> re-reads from the list. The set \<open>X\<close> holds nodes that name the graph but are not in its list yet; it is
  empty between operations.\<close>

definition book_ok :: "nid set \<Rightarrow> heap \<Rightarrow> gid \<Rightarrow> bool" where
  "book_ok X h g \<longleftrightarrow>
     (let gr = hp_graph h g; ns = g_nodes gr
      in distinct ns \<and> g_index gr = index_of ns \<and>
         (\<forall>n. n \<in> set ns \<longleftrightarrow> n_graph (hp_node h n) = Some g \<and> n \<notin> X) \<and>
         (\<forall>n \<in> set ns. \<not> n_erased (hp_node h n) \<and> n < hp_next h) \<and>
         g_live_names gr = (\<lambda>n. n_name (hp_node h n)) ` set ns \<and>
         (\<forall>n \<in> set ns. n_sort_key (hp_node h n) \<noteq> None \<and> the (n_sort_key (hp_node h n)) < g_next_sort_key gr) \<and>
         sorted_wrt (<) (map (\<lambda>n. the (n_sort_key (hp_node h n))) ns) \<and>
         lookup_ok (hp_node h) ns (g_lookup gr))"

text \<open>Names are unique, reserved in the namespace and recorded there.\<close>

definition names_ok :: "heap \<Rightarrow> gid \<Rightarrow> bool" where
  "names_ok h g \<longleftrightarrow>
     inj_on (\<lambda>n. n_name (hp_node h n)) (set (nodes_of h g)) \<and>
     (\<forall>n \<in> set (nodes_of h g). n_name (hp_node h n) \<in> set (ns_used_names (g_namespace (hp_graph h g))) \<and>
        ns_obj_to_name (g_namespace (hp_graph h g)) n = Some (n_name (hp_node h n))) \<and>
     (\<forall>n \<ge> hp_next h. ns_obj_to_name (g_namespace (hp_graph h g)) n = None)"

definition heap_ok :: "heap \<Rightarrow> bool" where
  "heap_ok h \<longleftrightarrow> links_ok h \<and> (\<forall>g. book_ok {} h g \<and> names_ok h g)"

lemma index_of_Some: "distinct ns \<Longrightarrow> index_of ns n = Some i \<longleftrightarrow> i < length ns \<and> ns ! i = n"
proof -
  assume d: "distinct ns"
  have "distinct (map fst (rev (zip ns [0..<length ns])))" using d by (simp flip: rev_map)
  then show ?thesis by (auto simp: index_of_def map_of_eq_Some_iff in_set_zip)
qed

lemma fst_zip_upt: "fst ` set (zip ns [0..<length ns]) = set ns"
  by (simp flip: set_map)

lemma snd_enumerate: "snd ` set (enumerate k ns) = set ns"
  by (simp flip: set_map)

lemma index_of_None: "index_of ns n = None \<longleftrightarrow> n \<notin> set ns"
  by (simp add: index_of_def map_of_eq_None_iff fst_zip_upt)

lemma list_index_Some: "distinct ns \<Longrightarrow> list_index ns n = Some i \<longleftrightarrow> i < length ns \<and> ns ! i = n"
  by (auto simp: list_index_def map_of_eq_Some_iff in_set_zip)

lemma list_index_None: "list_index ns n = None \<longleftrightarrow> n \<notin> set ns"
  by (simp add: list_index_def map_of_eq_None_iff fst_zip_upt)

lemma lookup_insert_ok:
  assumes "lookup_ok nodes ns lt"
  shows "lookup_ok nodes (ns @ [n]) (lookup_insert nodes n lt)"
  using assms unfolding lookup_ok_def lookup_insert_def by auto

lemma lookup_remove_ok:
  assumes "lookup_ok nodes ns lt"
  shows "lookup_ok nodes (removeAll n ns) (lookup_remove nodes n lt)"
  using assms unfolding lookup_ok_def lookup_remove_def by auto

lemma lookup_fold_ok: "lookup_ok nodes ms lt \<Longrightarrow> lookup_ok nodes (ms @ ns) (fold (lookup_insert nodes) ns lt)"
proof (induction ns arbitrary: ms lt)
  case (Cons n ns)
  show ?case using Cons.IH[OF lookup_insert_ok[OF Cons.prems]] by simp
qed simp

lemma lookup_rebuild_ok: "lookup_ok nodes ns (lookup_rebuild nodes ns)"
proof -
  have "lookup_ok nodes [] empty_lookup" by (simp add: lookup_ok_def empty_lookup_def)
  from lookup_fold_ok[OF this, of ns] show ?thesis by (simp add: lookup_rebuild_def)
qed

lemma lookup_ok_cong:
  assumes "lookup_ok nodes ns lt" and "\<And>n. n \<in> set ns \<Longrightarrow> n_op (nodes' n) = n_op (nodes n) \<and> n_target (nodes' n) = n_target (nodes n)"
    and "set ns' = set ns"
  shows "lookup_ok nodes' ns' lt"
proof -
  have "\<And>n. n \<in> set ns \<Longrightarrow> lookup_key_of (nodes' n) = lookup_key_of (nodes n)" using assms(2) by (simp add: lookup_key_of_def)
  then show ?thesis using assms unfolding lookup_ok_def by auto
qed

subsection \<open>Re-reading the list\<close>

lemma fold_detach_sel:
  "hp_graph (fold (detach g cur) old h) = hp_graph h" "hp_next (fold (detach g cur) old h) = hp_next h"
  "hp_side_effectful (fold (detach g cur) old h) = hp_side_effectful h"
  by (induction old arbitrary: h) (auto simp: detach_def)

lemma detach_node:
  "hp_node (detach g cur n h) m =
     (if m = n \<and> m \<notin> set cur \<and> n_graph (hp_node h m) = Some g
      then (hp_node h m)\<lparr>n_graph := None, n_erased := True\<rparr> else hp_node h m)"
  by (auto simp: detach_def)

lemma attach_node:
  "hp_node (attach g iv h) m =
     (if m = snd iv then (hp_node h m)\<lparr>n_graph := Some g, n_erased := False, n_sort_key := Some (fst iv)\<rparr> else hp_node h m)"
  by (simp add: attach_def)

lemma fold_detach_node:
  "hp_node (fold (detach g cur) old h) m =
     (if m \<in> set old \<and> m \<notin> set cur \<and> n_graph (hp_node h m) = Some g
      then (hp_node h m)\<lparr>n_graph := None, n_erased := True\<rparr> else hp_node h m)"
proof (induction old arbitrary: h)
  case (Cons a old)
  show ?case unfolding fold_simps Cons.IH by (cases "m = a") (simp_all add: detach_node del: not_None_eq)
qed simp

lemma fold_attach_sel:
  "hp_graph (fold (attach g) ivs h) = hp_graph h" "hp_next (fold (attach g) ivs h) = hp_next h"
  "hp_side_effectful (fold (attach g) ivs h) = hp_side_effectful h"
  by (induction ivs arbitrary: h) (auto simp: attach_def)

lemma fold_attach_other: "m \<notin> snd ` set ivs \<Longrightarrow> hp_node (fold (attach g) ivs h) m = hp_node h m"
  by (induction ivs arbitrary: h) (simp_all add: attach_node)

lemma fold_attach_nth:
  assumes "distinct ns" and "i < length ns"
  shows "hp_node (fold (attach g) (enumerate k ns) h) (ns ! i) =
    (hp_node h (ns ! i))\<lparr>n_graph := Some g, n_erased := False, n_sort_key := Some (k + i)\<rparr>"
  using assms
proof (induction ns arbitrary: i k h)
  case (Cons n ns)
  have out: "n \<notin> snd ` set (enumerate (Suc k) ns)" using Cons.prems by (simp add: snd_enumerate)
  show ?case
  proof (cases i)
    case 0
    then show ?thesis using fold_attach_other[OF out] by (simp add: attach_node)
  next
    case (Suc j)
    then have "ns ! j \<noteq> n" using Cons.prems by auto
    then show ?thesis using Cons.IH[of j "Suc k"] Cons.prems Suc by (simp add: attach_node)
  qed
qed simp

lemma sync_nodes_sel [heap_simps]:
  "hp_next (sync_nodes g cur old h) = hp_next h" "hp_side_effectful (sync_nodes g cur old h) = hp_side_effectful h"
  "g' \<noteq> g \<Longrightarrow> hp_graph (sync_nodes g cur old h) g' = hp_graph h g'"
  "g_nodes (hp_graph (sync_nodes g cur old h) g) = g_nodes (hp_graph h g)"
  "g_namespace (hp_graph (sync_nodes g cur old h) g) = g_namespace (hp_graph h g)"
  "g_insert (hp_graph (sync_nodes g cur old h) g) = g_insert (hp_graph h g)"
  "g_owner (hp_graph (sync_nodes g cur old h) g) = g_owner (hp_graph h g)"
  "g_index (hp_graph (sync_nodes g cur old h) g) = index_of cur"
  "g_next_sort_key (hp_graph (sync_nodes g cur old h) g) = length cur"
  "g_live_names (hp_graph (sync_nodes g cur old h) g) = (\<lambda>n. n_name (hp_node (sync_nodes g cur old h) n)) ` set cur"
  "g_lookup (hp_graph (sync_nodes g cur old h) g) = lookup_rebuild (hp_node (sync_nodes g cur old h)) cur"
  by (simp_all add: sync_nodes_def Let_def fold_attach_sel fold_detach_sel)

lemma sync_nodes_other:
  "m \<notin> set cur \<Longrightarrow> hp_node (sync_nodes g cur old h) m =
     (if m \<in> set old \<and> n_graph (hp_node h m) = Some g then (hp_node h m)\<lparr>n_graph := None, n_erased := True\<rparr> else hp_node h m)"
  by (subst sync_nodes_def) (simp add: Let_def fold_attach_other fold_detach_node snd_enumerate)

lemma sync_nodes_nth:
  "distinct cur \<Longrightarrow> i < length cur \<Longrightarrow> hp_node (sync_nodes g cur old h) (cur ! i) =
     (hp_node h (cur ! i))\<lparr>n_graph := Some g, n_erased := False, n_sort_key := Some i\<rparr>"
  by (subst sync_nodes_def) (simp add: Let_def fold_attach_nth fold_detach_node)

lemma sync_nodes_member:
  "distinct cur \<Longrightarrow> m \<in> set cur \<Longrightarrow> \<exists>i < length cur. cur ! i = m \<and>
     hp_node (sync_nodes g cur old h) m = (hp_node h m)\<lparr>n_graph := Some g, n_erased := False, n_sort_key := Some i\<rparr>"
  by (metis in_set_conv_nth sync_nodes_nth)

lemma sync_nodes_links_fields:
  assumes "distinct cur"
  shows "n_args (hp_node (sync_nodes g cur old h) m) = n_args (hp_node h m)"
    "n_kwargs (hp_node (sync_nodes g cur old h) m) = n_kwargs (hp_node h m)"
    "n_input_nodes (hp_node (sync_nodes g cur old h) m) = n_input_nodes (hp_node h m)"
    "n_users (hp_node (sync_nodes g cur old h) m) = n_users (hp_node h m)"
    "n_name (hp_node (sync_nodes g cur old h) m) = n_name (hp_node h m)"
    "n_op (hp_node (sync_nodes g cur old h) m) = n_op (hp_node h m)"
    "n_target (hp_node (sync_nodes g cur old h) m) = n_target (hp_node h m)"
    "n_meta (hp_node (sync_nodes g cur old h) m) = n_meta (hp_node h m)"
    "n_type (hp_node (sync_nodes g cur old h) m) = n_type (hp_node h m)"
  using sync_nodes_other[of m cur g old h] sync_nodes_member[OF assms, of m g old h]
  by (cases "m \<in> set cur"; auto)+

lemma book_ok_frame:
  assumes "book_ok X h g"
    and "g_nodes (hp_graph h' g) = g_nodes (hp_graph h g)" "g_index (hp_graph h' g) = g_index (hp_graph h g)"
    "g_live_names (hp_graph h' g) = g_live_names (hp_graph h g)" "g_next_sort_key (hp_graph h g) \<le> g_next_sort_key (hp_graph h' g)"
    "g_lookup (hp_graph h' g) = g_lookup (hp_graph h g)"
    and hdr: "\<And>n. n \<in> set (nodes_of h g) \<Longrightarrow> same_header (hp_node h' n) (hp_node h n)"
    and mem: "\<And>n. n_graph (hp_node h' n) = Some g \<and> n \<notin> Y \<longleftrightarrow> n_graph (hp_node h n) = Some g \<and> n \<notin> X"
    and "hp_next h \<le> hp_next h'"
  shows "book_ok Y h' g"
proof -
  let ?ns = "nodes_of h g"
  have e: "\<And>n. n \<in> set ?ns \<Longrightarrow> n_name (hp_node h' n) = n_name (hp_node h n) \<and> n_sort_key (hp_node h' n) = n_sort_key (hp_node h n) \<and>
    n_erased (hp_node h' n) = n_erased (hp_node h n) \<and> n_op (hp_node h' n) = n_op (hp_node h n) \<and> n_target (hp_node h' n) = n_target (hp_node h n)"
    using hdr by (simp add: same_header_def)
  have k: "map (\<lambda>n. the (n_sort_key (hp_node h' n))) ?ns = map (\<lambda>n. the (n_sort_key (hp_node h n))) ?ns" using e by simp
  have l: "(\<lambda>n. n_name (hp_node h' n)) ` set ?ns = (\<lambda>n. n_name (hp_node h n)) ` set ?ns" using e by simp
  have "lookup_ok (hp_node h) ?ns (g_lookup (hp_graph h g))" using assms(1) by (simp add: book_ok_def Let_def)
  then have "lookup_ok (hp_node h') ?ns (g_lookup (hp_graph h g))" by (rule lookup_ok_cong) (use e in auto)
  then show ?thesis
    using assms(1) e assms(5,9) unfolding book_ok_def Let_def assms(2,3,4,6) k l mem
    by (auto intro: less_le_trans)
qed

lemma book_ok_sel:
  assumes "book_ok X h g"
  shows "distinct (nodes_of h g)" "g_index (hp_graph h g) = index_of (nodes_of h g)"
    "n \<in> set (nodes_of h g) \<longleftrightarrow> n_graph (hp_node h n) = Some g \<and> n \<notin> X"
    "n \<in> set (nodes_of h g) \<Longrightarrow> n < hp_next h" "n \<in> set (nodes_of h g) \<Longrightarrow> \<not> n_erased (hp_node h n)"
    "lookup_ok (hp_node h) (nodes_of h g) (g_lookup (hp_graph h g))"
    "g_live_names (hp_graph h g) = (\<lambda>n. n_name (hp_node h n)) ` set (nodes_of h g)"
  using assms by (simp_all add: book_ok_def Let_def)

lemma replace_list_sel [heap_simps]:
  "hp_next (replace_list g ns h) = hp_next h" "hp_side_effectful (replace_list g ns h) = hp_side_effectful h"
  "g' \<noteq> g \<Longrightarrow> hp_graph (replace_list g ns h) g' = hp_graph h g'"
  "g_nodes (hp_graph (replace_list g ns h) g) = ns"
  "g_namespace (hp_graph (replace_list g ns h) g) = g_namespace (hp_graph h g)"
  "g_insert (hp_graph (replace_list g ns h) g) = g_insert (hp_graph h g)"
  "g_owner (hp_graph (replace_list g ns h) g) = g_owner (hp_graph h g)"
  by (simp_all add: replace_list_def set_node_list_def heap_simps)

lemma replace_list_member:
  "distinct ns \<Longrightarrow> m \<in> set ns \<Longrightarrow> \<exists>i < length ns. ns ! i = m \<and>
     hp_node (replace_list g ns h) m = (hp_node h m)\<lparr>n_graph := Some g, n_erased := False, n_sort_key := Some i\<rparr>"
  using sync_nodes_member[of ns m g "nodes_of h g" "set_node_list g ns h"] by (simp add: replace_list_def set_node_list_def)

lemma replace_list_other:
  "m \<notin> set ns \<Longrightarrow> hp_node (replace_list g ns h) m =
     (if m \<in> set (nodes_of h g) \<and> n_graph (hp_node h m) = Some g
      then (hp_node h m)\<lparr>n_graph := None, n_erased := True\<rparr> else hp_node h m)"
  by (simp add: replace_list_def sync_nodes_other set_node_list_def)

lemma replace_list_fields:
  assumes "distinct ns"
  shows "n_args (hp_node (replace_list g ns h) m) = n_args (hp_node h m)"
    "n_kwargs (hp_node (replace_list g ns h) m) = n_kwargs (hp_node h m)"
    "n_input_nodes (hp_node (replace_list g ns h) m) = n_input_nodes (hp_node h m)"
    "n_users (hp_node (replace_list g ns h) m) = n_users (hp_node h m)"
    "n_name (hp_node (replace_list g ns h) m) = n_name (hp_node h m)"
    "n_op (hp_node (replace_list g ns h) m) = n_op (hp_node h m)"
    "n_target (hp_node (replace_list g ns h) m) = n_target (hp_node h m)"
    "n_meta (hp_node (replace_list g ns h) m) = n_meta (hp_node h m)"
    "n_type (hp_node (replace_list g ns h) m) = n_type (hp_node h m)"
  using assms by (simp_all add: replace_list_def sync_nodes_links_fields set_node_list_def)

lemma replace_list_graph:
  assumes "distinct ns"
  shows "n_graph (hp_node (replace_list g ns h) m) =
    (if m \<in> set ns then Some g else if m \<in> set (nodes_of h g) \<and> n_graph (hp_node h m) = Some g then None else n_graph (hp_node h m))"
  using replace_list_member[OF assms, of m g h] replace_list_other[of m ns g h] by auto

lemma replace_list_book:
  assumes "distinct ns" and "\<And>n. n \<in> set ns \<Longrightarrow> n < hp_next h"
    and "\<And>m. n_graph (hp_node h m) = Some g \<Longrightarrow> m \<in> set ns \<union> set (nodes_of h g)"
  shows "book_ok {} (replace_list g ns h) g"
proof -
  let ?h = "replace_list g ns h"
  have key: "i < length ns \<Longrightarrow> n_sort_key (hp_node ?h (ns ! i)) = Some i" for i
    using replace_list_member[OF assms(1), of "ns ! i" g h] assms(1)
    by (auto simp: nth_eq_iff_index_eq)
  have mem: "n \<in> set ns \<Longrightarrow> \<not> n_erased (hp_node ?h n) \<and> n_sort_key (hp_node ?h n) \<noteq> None \<and> the (n_sort_key (hp_node ?h n)) < length ns" for n
    using replace_list_member[OF assms(1), of n g h] by auto
  have "sorted_wrt (<) (map (\<lambda>n. the (n_sort_key (hp_node ?h n))) ns)"
    by (simp add: sorted_wrt_iff_nth_less key)
  moreover have "n \<in> set ns \<longleftrightarrow> n_graph (hp_node ?h n) = Some g" for n
    using assms(3)[of n] by (auto simp: replace_list_graph[OF assms(1)])
  moreover have "g_index (hp_graph ?h g) = index_of ns" "g_live_names (hp_graph ?h g) = (\<lambda>n. n_name (hp_node ?h n)) ` set ns"
    "g_next_sort_key (hp_graph ?h g) = length ns" "g_lookup (hp_graph ?h g) = lookup_rebuild (hp_node ?h) ns"
    by (simp_all add: replace_list_def heap_simps)
  ultimately show ?thesis using assms(1,2) mem lookup_rebuild_ok[of "hp_node ?h" ns]
    by (simp add: book_ok_def Let_def heap_simps)
qed

lemma replace_list_book_other:
  assumes "distinct ns" and "g' \<noteq> g" and "book_ok X h g'" and "\<And>n. n \<in> set ns \<Longrightarrow> n_graph (hp_node h n) \<noteq> Some g'"
  shows "book_ok X (replace_list g ns h) g'"
proof (rule book_ok_frame[OF assms(3)])
  fix n assume "n \<in> set (nodes_of h g')"
  then have n: "n_graph (hp_node h n) = Some g'" using book_ok_sel(3)[OF assms(3)] by blast
  then have "n \<notin> set ns" using assms(4) by blast
  then show "same_header (hp_node (replace_list g ns h) n) (hp_node h n)"
    using assms(2) n by (simp add: replace_list_other same_header_def)
next
  fix n show "n_graph (hp_node (replace_list g ns h) n) = Some g' \<and> n \<notin> X \<longleftrightarrow> n_graph (hp_node h n) = Some g' \<and> n \<notin> X"
    using assms(2,4) by (auto simp: replace_list_graph[OF assms(1)])
qed (simp_all add: heap_simps assms(2))

lemma replace_list_links:
  assumes "links_ok h" and "distinct ns" and "\<And>n. n \<in> set ns \<union> set (nodes_of h g) \<Longrightarrow> n < hp_next h"
  shows "links_ok (replace_list g ns h)"
proof -
  have "hp_next h \<le> n \<Longrightarrow> hp_node (replace_list g ns h) n = hp_node h n" for n
  proof -
    assume "hp_next h \<le> n"
    then have "n \<notin> set ns" "n \<notin> set (nodes_of h g)" using assms(3) by force+
    then show ?thesis by (simp add: replace_list_other)
  qed
  then show ?thesis using assms(1) by (auto simp: links_ok_def replace_list_fields[OF assms(2)] heap_simps)
qed

text \<open>Reordering or shortening the list of a graph keeps everything.\<close>

lemma replace_list_books:
  assumes b: "\<And>g. book_ok {} h g" and nm: "\<And>g. names_ok h g" and "distinct ns" and "set ns \<subseteq> set (nodes_of h g)"
  shows "book_ok {} (replace_list g ns h) g'" "names_ok (replace_list g ns h) g'"
proof -
  note s = book_ok_sel[OF b]
  show "book_ok {} (replace_list g ns h) g'"
  proof (cases "g' = g")
    case True
    then show ?thesis by (simp, intro replace_list_book) (use assms s in auto)
  next
    case False
    then show ?thesis by (intro replace_list_book_other) (use assms s b in auto)
  qed
  show "names_ok (replace_list g ns h) g'"
    using nm[of g'] assms(4)
    by (cases "g' = g") (auto simp: names_ok_def heap_simps replace_list_fields[OF assms(3)] intro: inj_on_subset)
qed

lemma replace_list_ok:
  assumes "heap_ok h" and "distinct ns" and "set ns \<subseteq> set (nodes_of h g)"
  shows "heap_ok (replace_list g ns h)"
proof -
  have b: "book_ok {} h g'" and nm: "names_ok h g'" and l: "links_ok h" for g' using assms(1) by (auto simp: heap_ok_def)
  have "links_ok (replace_list g ns h)" by (rule replace_list_links[OF l assms(2)]) (use assms(3) book_ok_sel(4)[OF b] in auto)
  then show ?thesis using replace_list_books[OF b nm assms(2,3)] by (simp add: heap_ok_def)
qed

lemma index_of_append: "n \<notin> set ns \<Longrightarrow> index_of (ns @ [n]) = (index_of ns)(n \<mapsto> length ns)"
  by (simp add: index_of_def fun_upd_def fun_eq_iff)

lemma list_append_sel [heap_simps]:
  "hp_next (list_append g n h) = hp_next h" "hp_side_effectful (list_append g n h) = hp_side_effectful h"
  "g' \<noteq> g \<Longrightarrow> hp_graph (list_append g n h) g' = hp_graph h g'"
  "g_nodes (hp_graph (list_append g n h) g) = nodes_of h g @ [n]"
  "g_namespace (hp_graph (list_append g n h) g) = g_namespace (hp_graph h g)"
  "g_insert (hp_graph (list_append g n h) g) = g_insert (hp_graph h g)"
  "g_owner (hp_graph (list_append g n h) g) = g_owner (hp_graph h g)"
  "g_index (hp_graph (list_append g n h) g) = (g_index (hp_graph h g))(n \<mapsto> length (nodes_of h g))"
  "g_next_sort_key (hp_graph (list_append g n h) g) = Suc (g_next_sort_key (hp_graph h g))"
  "g_live_names (hp_graph (list_append g n h) g) = insert (n_name (hp_node h n)) (g_live_names (hp_graph h g))"
  "g_lookup (hp_graph (list_append g n h) g) = lookup_insert (hp_node (list_append g n h)) n (g_lookup (hp_graph h g))"
  "hp_node (list_append g n h) m =
     (if m = n then (hp_node h n)\<lparr>n_graph := Some g, n_erased := False, n_sort_key := Some (g_next_sort_key (hp_graph h g))\<rparr> else hp_node h m)"
  by (simp_all add: list_append_def added_def added_one_def set_node_list_def Let_def)

lemma list_append_book:
  assumes "book_ok {n} h g" and "n_graph (hp_node h n) = Some g" and "n < hp_next h"
  shows "book_ok {} (list_append g n h) g"
proof -
  let ?ns = "nodes_of h g" let ?h = "list_append g n h"
  note s = book_ok_sel[OF assms(1)]
  have n: "n \<notin> set ?ns" using s(3) by simp
  have keys: "\<forall>m \<in> set ?ns. n_sort_key (hp_node h m) \<noteq> None \<and> the (n_sort_key (hp_node h m)) < g_next_sort_key (hp_graph h g)"
    and sorted: "sorted_wrt (<) (map (\<lambda>m. the (n_sort_key (hp_node h m))) ?ns)"
    using assms(1) by (auto simp: book_ok_def Let_def)
  have "lookup_ok (hp_node ?h) ?ns (g_lookup (hp_graph h g))"
    by (rule lookup_ok_cong[OF s(6)]) (use n in \<open>auto simp: heap_simps\<close>)
  from lookup_insert_ok[OF this, of n]
  have lk: "lookup_ok (hp_node ?h) (?ns @ [n]) (g_lookup (hp_graph ?h g))" by (simp add: heap_simps)
  have km: "map (\<lambda>m. the (n_sort_key (hp_node ?h m))) ?ns = map (\<lambda>m. the (n_sort_key (hp_node h m))) ?ns"
    using n by (auto simp: heap_simps)
  have sw: "sorted_wrt (<) (map (\<lambda>m. the (n_sort_key (hp_node ?h m))) (?ns @ [n]))"
    unfolding map_append km using sorted keys by (auto simp: sorted_wrt_append list_append_sel(12)[of g n h n])
  have mem: "m \<in> set (?ns @ [n]) \<longleftrightarrow> n_graph (hp_node ?h m) = Some g" for m
    using s(3)[of m] assms(2) by (auto simp: heap_simps)
  have er: "\<forall>m \<in> set (?ns @ [n]). \<not> n_erased (hp_node ?h m) \<and> m < hp_next ?h"
    using s(4,5) assms(3) by (auto simp: heap_simps)
  have ky: "\<forall>m \<in> set (?ns @ [n]). n_sort_key (hp_node ?h m) \<noteq> None \<and> the (n_sort_key (hp_node ?h m)) < Suc (g_next_sort_key (hp_graph h g))"
    using keys by (auto simp: heap_simps less_SucI)
  have nms: "insert (n_name (hp_node h n)) (g_live_names (hp_graph h g)) = (\<lambda>m. n_name (hp_node ?h m)) ` set (?ns @ [n])"
    using n by (auto simp: heap_simps s(7))
  have ix: "g_index (hp_graph ?h g) = index_of (?ns @ [n])" by (simp add: heap_simps index_of_append[OF n] s(2))
  show ?thesis
    unfolding book_ok_def Let_def list_append_sel(4,9,10) ix
    using s(1) n mem er ky sw nms lk by auto
qed

text \<open>The insertion of a pending node at any place.\<close>

definition inserted :: "nid list \<Rightarrow> nid \<Rightarrow> nid list \<Rightarrow> bool" where
  "inserted ns n ns' \<longleftrightarrow> (\<exists>p. p \<le> length ns \<and> ns' = take p ns @ n # drop p ns)"

lemma inserted_set: "inserted ns n ns' \<Longrightarrow> set ns' = insert n (set ns)"
proof -
  assume "inserted ns n ns'"
  then obtain p where "ns' = take p ns @ n # drop p ns" by (auto simp: inserted_def)
  then have "set ns' = insert n (set (take p ns @ drop p ns))" by (simp only: set_append list.set) auto
  then show ?thesis by simp
qed

lemma inserted_distinct: "inserted ns n ns' \<Longrightarrow> distinct ns \<Longrightarrow> n \<notin> set ns \<Longrightarrow> distinct ns'"
proof -
  assume "inserted ns n ns'" and d: "distinct ns" "n \<notin> set ns"
  then obtain p where "ns' = take p ns @ n # drop p ns" by (auto simp: inserted_def)
  moreover have "distinct (take p ns @ drop p ns)" "n \<notin> set (take p ns @ drop p ns)" using d by simp_all
  ultimately show "distinct ns'" unfolding distinct_append set_append by auto
qed

definition mounted :: "heap \<Rightarrow> gid \<Rightarrow> nid \<Rightarrow> heap \<Rightarrow> bool" where
  "mounted h g n h' \<longleftrightarrow>
     links_ok h' \<and> book_ok {} h' g \<and> inserted (nodes_of h g) n (nodes_of h' g) \<and> hp_next h' = hp_next h \<and>
     hp_side_effectful h' = hp_side_effectful h \<and>
     (\<forall>g'. g' \<noteq> g \<longrightarrow> hp_graph h' g' = hp_graph h g') \<and>
     g_namespace (hp_graph h' g) = g_namespace (hp_graph h g) \<and> g_owner (hp_graph h' g) = g_owner (hp_graph h g) \<and>
     (\<forall>m. \<exists>k er. hp_node h' m = (hp_node h m)\<lparr>n_sort_key := k, n_erased := er\<rparr>) \<and>
     (\<forall>m. m \<notin> insert n (set (nodes_of h g)) \<longrightarrow> hp_node h' m = hp_node h m)"

lemma list_append_mounted:
  assumes "links_ok h" and "book_ok {n} h g" and "n_graph (hp_node h n) = Some g" and "n < hp_next h"
  shows "mounted h g n (list_append g n h)"
proof -
  have "links_ok (list_append g n h)" using assms(1,4) by (auto simp: links_ok_def heap_simps)
  moreover have "\<exists>k er. hp_node (list_append g n h) m = (hp_node h m)\<lparr>n_sort_key := k, n_erased := er\<rparr>" for m
  proof (cases "m = n")
    case True
    then show ?thesis using assms(3)
      by (intro exI[of _ "Some (g_next_sort_key (hp_graph h g))"] exI[of _ False]) (cases "hp_node h n"; simp add: heap_simps)
  next
    case False
    then show ?thesis by (intro exI[of _ "n_sort_key (hp_node h m)"] exI[of _ "n_erased (hp_node h m)"]) (simp add: heap_simps)
  qed
  moreover have "inserted (nodes_of h g) n (nodes_of (list_append g n h) g)"
    unfolding inserted_def by (intro exI[of _ "length (nodes_of h g)"]) (simp add: heap_simps)
  ultimately show ?thesis using list_append_book[OF assms(2-)] by (simp add: mounted_def heap_simps)
qed

lemma list_insert_mounted:
  assumes "links_ok h" and "book_ok {n} h g" and "n_graph (hp_node h n) = Some g" and "n < hp_next h"
  shows "mounted h g n (list_insert g p n h)"
proof (cases "length (nodes_of h g) \<le> p")
  case True
  then show ?thesis using list_append_mounted[OF assms] by (simp add: list_insert_def)
next
  case False
  let ?ns = "take p (nodes_of h g) @ n # drop p (nodes_of h g)" let ?h = "replace_list g ?ns h"
  note s = book_ok_sel[OF assms(2)]
  have ins: "inserted (nodes_of h g) n ?ns" using False by (auto simp: inserted_def intro!: exI[of _ p])
  have d: "distinct ?ns" by (rule inserted_distinct[OF ins s(1)]) (simp add: s(3))
  note st = inserted_set[OF ins]
  have lt: "m \<in> set ?ns \<Longrightarrow> m < hp_next h" for m using s(4) assms(4) unfolding st by auto
  have "links_ok ?h" by (rule replace_list_links[OF assms(1) d]) (use s(4) lt in auto)
  moreover have "book_ok {} ?h g"
    by (rule replace_list_book[OF d lt]) (use s(3) assms(3) in \<open>auto simp: st\<close>)
  moreover have "\<exists>k er. hp_node ?h m = (hp_node h m)\<lparr>n_sort_key := k, n_erased := er\<rparr>" for m
  proof (cases "m \<in> set ?ns")
    case True
    then have "n_graph (hp_node h m) = Some g" using s(3)[of m] assms(3) unfolding st by auto
    with replace_list_member[OF d True, of g h] show ?thesis by (metis graph_node.surjective graph_node.update_convs(1,13,14))
  next
    case out: False
    then have "m \<notin> set (nodes_of h g)" unfolding st by simp
    then have "hp_node ?h m = hp_node h m" using replace_list_other[OF out, of g h] by simp
    then show ?thesis by (intro exI[of _ "n_sort_key (hp_node h m)"] exI[of _ "n_erased (hp_node h m)"]) simp
  qed
  moreover have "m \<notin> insert n (set (nodes_of h g)) \<Longrightarrow> hp_node ?h m = hp_node h m" for m
    using replace_list_other[of m ?ns g h] unfolding st by auto
  ultimately show ?thesis using False ins by (simp add: mounted_def list_insert_def heap_simps)
qed

lemma hbind_Inr [heap_simps]: "hbind m f h = (Inr v, h') \<longleftrightarrow> (\<exists>x h1. m h = (Inr x, h1) \<and> f x h1 = (Inr v, h'))"
  by (auto simp: hbind_def split: prod.splits sum.splits)

definition same_body :: "graph_node \<Rightarrow> graph_node \<Rightarrow> bool" where
  "same_body a b = (n_name a = n_name b \<and> n_op a = n_op b \<and> n_target a = n_target b \<and> n_args a = n_args b \<and> n_kwargs a = n_kwargs b \<and>
     n_input_nodes a = n_input_nodes b \<and> n_meta a = n_meta b \<and> n_type a = n_type b)"

lemma node_init_spec:
  assumes "links_ok h" and "\<forall>i \<in> set (args_nodes args kwargs). i < hp_next h"
    and "node_init g name op target args kwargs ty h = (Inr n, h')"
  shows "n = hp_next h" "hp_next h' = Suc n" "hp_graph h' = hp_graph h" "hp_side_effectful h' = hp_side_effectful h" "links_ok h'"
    "n_graph (hp_node h' n) = Some g" "n_name (hp_node h' n) = name" "n_op (hp_node h' n) = op" "n_target (hp_node h' n) = target"
    "n_args (hp_node h' n) = args" "n_kwargs (hp_node h' n) = kwargs" "n_type (hp_node h' n) = ty" "n_meta (hp_node h' n) = []"
    "op \<in> set legal_ops"
    "\<And>m. m \<noteq> n \<Longrightarrow> same_header (hp_node h' m) (hp_node h m) \<and> same_body (hp_node h' m) (hp_node h m)"
proof -
  let ?nd = "blank_node\<lparr>n_graph := Some g, n_name := name, n_op := op, n_target := target, n_type := ty\<rparr>"
  let ?h1 = "(upd_node n (\<lambda>_. ?nd) h)\<lparr>hp_next := Suc n\<rparr>"
  have n: "n = hp_next h" and h': "h' = update_args_kwargs n args kwargs ?h1" and op: "op \<in> set legal_ops"
    using assms(3) by (auto simp: node_init_def hraise_def Let_def split: if_splits)
  have blank: "hp_node h n = blank_node" using links_blank[OF assms(1)] n by simp
  have nodes1: "hp_node ?h1 = (hp_node h)(n := ?nd)" by (simp add: upd_node_def fun_eq_iff)
  have blank1: "n_users ?nd = []" "n_input_nodes ?nd = []" "n_args ?nd = []" "n_kwargs ?nd = []" by simp_all
  have links1: "links_ok ?h1"
    unfolding links_ok_def nodes1
  proof (intro conjI allI impI)
    fix m
    show "n_input_nodes (((hp_node h)(n := ?nd)) m) = user_update (args_nodes (n_args (((hp_node h)(n := ?nd)) m)) (n_kwargs (((hp_node h)(n := ?nd)) m))) []"
      using assms(1) by (simp add: links_ok_def args_nodes_def)
    show "distinct (n_users (((hp_node h)(n := ?nd)) m))" using links_distinct_users[OF assms(1)] by simp
    show "u \<in> set (n_users (((hp_node h)(n := ?nd)) m)) \<longleftrightarrow> m \<in> set (n_input_nodes (((hp_node h)(n := ?nd)) u))" for u
      using links_users[OF assms(1), of u m] links_users[OF assms(1), of u n] links_users[OF assms(1), of n m] by (simp add: blank)
    assume "hp_next ?h1 \<le> m"
    then show "((hp_node h)(n := ?nd)) m = blank_node" using links_blank[OF assms(1)] n by simp
  qed
  show "n = hp_next h" "op \<in> set legal_ops" by (fact n op)+
  show "hp_next h' = Suc n" "hp_graph h' = hp_graph h" "hp_side_effectful h' = hp_side_effectful h"
    by (simp_all add: h' heap_simps)
  show "links_ok h'" unfolding h' by (rule update_args_kwargs_links[OF links1]) (use assms(2) n in \<open>auto intro: less_SucI\<close>)
  show "n_graph (hp_node h' n) = Some g" "n_name (hp_node h' n) = name" "n_op (hp_node h' n) = op" "n_target (hp_node h' n) = target"
    "n_args (hp_node h' n) = args" "n_kwargs (hp_node h' n) = kwargs" "n_type (hp_node h' n) = ty" "n_meta (hp_node h' n) = []"
    by (simp_all add: h' update_args_kwargs_node Let_def, simp add: blank_node_def)
  show "m \<noteq> n \<Longrightarrow> same_header (hp_node h' m) (hp_node h m) \<and> same_body (hp_node h' m) (hp_node h m)" for m
    by (simp add: h' update_args_kwargs_node Let_def same_header_def same_body_def)
qed

lemma mounted_upd_insert: "mounted h g n h' \<Longrightarrow> mounted h g n (upd_graph g (g_insert_update f) h')"
  by (auto simp: mounted_def links_ok_def elim!: book_ok_frame simp: same_header_def)

lemma run_insert_mounted:
  assumes "links_ok h" and "book_ok {n} h g" and "n_graph (hp_node h n) = Some g" and "n < hp_next h"
    and "run_insert g n h = (Inr (), h')"
  shows "mounted h g n h'"
  using assms(5) list_append_mounted[OF assms(1-4)] list_insert_mounted[OF assms(1-4)]
  by (auto simp: run_insert_def split: insert_fn.splits option.splits intro!: mounted_upd_insert)

lemma mountedD:
  assumes "mounted h g n h'"
  shows "same_body (hp_node h' m) (hp_node h m)" "n_graph (hp_node h' m) = n_graph (hp_node h m)"
    "n_users (hp_node h' m) = n_users (hp_node h m)"
proof -
  obtain k er where "hp_node h' m = (hp_node h m)\<lparr>n_sort_key := k, n_erased := er\<rparr>"
    using assms unfolding mounted_def by blast
  then show "same_body (hp_node h' m) (hp_node h m)" "n_graph (hp_node h' m) = n_graph (hp_node h m)"
    "n_users (hp_node h' m) = n_users (hp_node h m)" by (simp_all add: same_body_def)
qed

lemma mounted_book_other:
  assumes "mounted h g n h'" and "book_ok {} h g'" and "g' \<noteq> g" and "n_graph (hp_node h n) = Some g"
    and "\<And>m. m \<in> set (nodes_of h g) \<Longrightarrow> n_graph (hp_node h m) = Some g"
  shows "book_ok {} h' g'"
proof (rule book_ok_frame[OF assms(2)])
  fix m assume "m \<in> set (nodes_of h g')"
  then have "n_graph (hp_node h m) = Some g'" using book_ok_sel(3)[OF assms(2)] by blast
  then have "m \<notin> insert n (set (nodes_of h g))" using assms(3-) by auto
  then show "same_header (hp_node h' m) (hp_node h m)" using assms(1) by (simp add: mounted_def same_header_def)
qed (use assms(1,3) mountedD(2)[OF assms(1)] in \<open>simp_all add: mounted_def\<close>)

text \<open>The names of a graph while the node \<open>n\<close> is being created: its name is reserved, and no other node has it.\<close>

lemma names_ok_reserve:
  assumes "names_ok h g"
  shows "names_ok (set_namespace g' (ns_use (g_namespace (hp_graph h g')) name) h) g"
  using assms by (auto simp: names_ok_def set_namespace_def ns_use_def)

lemma set_namespace_sel [heap_simps]:
  "hp_node (set_namespace g ns h) = hp_node h" "hp_next (set_namespace g ns h) = hp_next h"
  "hp_side_effectful (set_namespace g ns h) = hp_side_effectful h"
  "g' \<noteq> g \<Longrightarrow> hp_graph (set_namespace g ns h) g' = hp_graph h g'"
  "g_nodes (hp_graph (set_namespace g ns h) g') = g_nodes (hp_graph h g')"
  "g_index (hp_graph (set_namespace g ns h) g') = g_index (hp_graph h g')"
  "g_live_names (hp_graph (set_namespace g ns h) g') = g_live_names (hp_graph h g')"
  "g_next_sort_key (hp_graph (set_namespace g ns h) g') = g_next_sort_key (hp_graph h g')"
  "g_lookup (hp_graph (set_namespace g ns h) g') = g_lookup (hp_graph h g')"
  "g_insert (hp_graph (set_namespace g ns h) g') = g_insert (hp_graph h g')"
  "g_owner (hp_graph (set_namespace g ns h) g') = g_owner (hp_graph h g')"
  "g_namespace (hp_graph (set_namespace g ns h) g) = ns"
  by (simp_all add: set_namespace_def)

lemma book_ok_set_namespace [simp]: "book_ok X (set_namespace g' ns h) g \<longleftrightarrow> book_ok X h g"
  by (simp add: book_ok_def Let_def heap_simps)

lemma links_ok_set_namespace [simp]: "links_ok (set_namespace g ns h) \<longleftrightarrow> links_ok h"
  by (simp add: links_ok_def heap_simps)

lemma heap_ok_sel:
  assumes "heap_ok h"
  shows "links_ok h" "book_ok {} h g" "names_ok h g"
  using assms by (simp_all add: heap_ok_def)

lemma heap_ok_graph: "heap_ok h \<Longrightarrow> n \<in> set (nodes_of h g) \<longleftrightarrow> n_graph (hp_node h n) = Some g"
  using book_ok_sel(3)[OF heap_ok_sel(2)] by simp

lemma create_name_None: "create_name ns cand None = (fresh_name (ns_used_names ns) cand, ns_use ns (fresh_name (ns_used_names ns) cand))"
  by (simp add: create_name_def Let_def)

lemma book_ok_same:
  assumes "book_ok X h g" and "hp_graph h' g = hp_graph h g" and "hp_next h \<le> hp_next h'"
    and "\<And>n. n_graph (hp_node h' n) = Some g \<and> n \<notin> Y \<longleftrightarrow> n_graph (hp_node h n) = Some g \<and> n \<notin> X"
    and "\<And>n. n \<in> set (nodes_of h g) \<Longrightarrow> same_header (hp_node h' n) (hp_node h n)"
  shows "book_ok Y h' g"
  by (rule book_ok_frame[OF assms(1)]) (use assms(2-) in simp_all)

text \<open>Giving the new node its provisional sort key.\<close>

lemma bump_sort_key_sel [heap_simps]:
  "hp_next (bump_sort_key g n h) = hp_next h" "hp_side_effectful (bump_sort_key g n h) = hp_side_effectful h"
  "nodes_of (bump_sort_key g n h) g' = nodes_of h g'" "g' \<noteq> g \<Longrightarrow> hp_graph (bump_sort_key g n h) g' = hp_graph h g'"
  "g_namespace (hp_graph (bump_sort_key g n h) g') = g_namespace (hp_graph h g')"
  "g_owner (hp_graph (bump_sort_key g n h) g') = g_owner (hp_graph h g')"
  "n_graph (hp_node (bump_sort_key g n h) m) = n_graph (hp_node h m)"
  "n_users (hp_node (bump_sort_key g n h) m) = n_users (hp_node h m)"
  "m \<noteq> n \<Longrightarrow> hp_node (bump_sort_key g n h) m = hp_node h m"
  by (simp_all add: bump_sort_key_def)

lemma bump_sort_key_body: "same_body (hp_node (bump_sort_key g n h) m) (hp_node h m)"
  by (simp add: bump_sort_key_def same_body_def)

lemma bump_sort_key_links: "links_ok h \<Longrightarrow> n < hp_next h \<Longrightarrow> links_ok (bump_sort_key g n h)"
  by (auto simp: links_ok_def bump_sort_key_def)

lemma bump_sort_key_book:
  assumes "book_ok X h g'" and "n \<notin> set (nodes_of h g')"
  shows "book_ok X (bump_sort_key g n h) g'"
  by (rule book_ok_frame[OF assms(1)]) (use assms(2) in \<open>auto simp: bump_sort_key_def same_header_def\<close>)

text \<open>The calls that a successful \<open>create_node\<close> makes.\<close>

lemma create_node_steps:
  assumes "create_node g op target args kwargs name ty h = (Inr n, h')"
  obtains h1 h2 nm ns where
    "nm = fresh_name (ns_used_names (g_namespace (hp_graph h g))) (case name of Some s \<Rightarrow> s | None \<Rightarrow> target_to_str target)"
    "node_init g nm op target args kwargs ty (set_namespace g (ns_use (g_namespace (hp_graph h g)) nm) h) = (Inr n, h1)"
    "run_insert g n (bump_sort_key g n h1) = (Inr (), h2)"
    "associate_name_with_obj (g_namespace (hp_graph h2 g)) (n_name (hp_node h2 n)) (Hashable n) = Inr ns"
    "h' = set_namespace g ns h2"
proof -
  let ?nm = "fresh_name (ns_used_names (g_namespace (hp_graph h g))) (case name of Some s \<Rightarrow> s | None \<Rightarrow> target_to_str target)"
  have "hbind (node_init g ?nm op target args kwargs ty) (mount_node g) (set_namespace g (ns_use (g_namespace (hp_graph h g)) ?nm) h) = (Inr n, h')"
    using assms by (simp add: create_node_def create_name_None Let_def split: if_splits)
  then obtain x h1 where 1: "node_init g ?nm op target args kwargs ty (set_namespace g (ns_use (g_namespace (hp_graph h g)) ?nm) h) = (Inr x, h1)"
    and 2: "mount_node g x h1 = (Inr n, h')" by (auto simp: heap_simps)
  obtain h2 where 3: "run_insert g x (bump_sort_key g x h1) = (Inr (), h2)"
    and 4: "(case associate_name_with_obj (g_namespace (hp_graph h2 g)) (n_name (hp_node h2 x)) (Hashable x) of
         Inl e \<Rightarrow> (Inl e, h2) | Inr ns \<Rightarrow> (Inr x, set_namespace g ns h2)) = (Inr n, h')"
    using 2 unfolding mount_node_def hbind_Inr by (auto simp: hdo_def)
  from 4 obtain ns where "associate_name_with_obj (g_namespace (hp_graph h2 g)) (n_name (hp_node h2 x)) (Hashable x) = Inr ns"
    "x = n" "h' = set_namespace g ns h2" by (auto split: sum.splits)
  then show ?thesis using that 1 3 by blast
qed

text \<open>Before the insertion the new node names its graph and is in no list.\<close>

lemma pending_ok:
  assumes ok: "heap_ok h" and args: "\<forall>i \<in> set (args_nodes args kwargs). i < hp_next h"
    and init: "node_init g nm op target args kwargs ty (set_namespace g ns h) = (Inr n, h1)"
  shows "links_ok (bump_sort_key g n h1)" "book_ok {n} (bump_sort_key g n h1) g"
    "g' \<noteq> g \<Longrightarrow> book_ok {} (bump_sort_key g n h1) g'" "nodes_of h1 g' = nodes_of h g'" "n \<notin> set (nodes_of h g')"
proof -
  let ?h0 = "set_namespace g ns h"
  have l0: "links_ok ?h0" and a0: "\<forall>i \<in> set (args_nodes args kwargs). i < hp_next ?h0"
    using heap_ok_sel(1)[OF ok] args by (simp_all add: heap_simps)
  note i = node_init_spec[OF l0 a0 init]
  have n: "n = hp_next h" using i(1) by (simp add: heap_simps)
  have blank: "hp_node h n = blank_node" using links_blank[OF heap_ok_sel(1)[OF ok]] n by simp
  show nograph: "n \<notin> set (nodes_of h g')" for g' using heap_ok_graph[OF ok, of n g'] blank by simp
  show nodes1: "nodes_of h1 g' = nodes_of h g'" for g' by (simp add: i(3) heap_simps)
  have "n < hp_next h1" using i(2) by linarith
  then show "links_ok (bump_sort_key g n h1)" by (rule bump_sort_key_links[OF i(5)])
  have b0: "book_ok {} ?h0 g'" for g' using heap_ok_sel(2)[OF ok] by simp
  have hd: "same_header (hp_node h1 m) (hp_node ?h0 m)" if "m \<in> set (nodes_of ?h0 g')" for m g'
    using i(15)[of m] that nograph[of g'] by (auto simp: heap_simps)
  have nx: "hp_next ?h0 \<le> hp_next h1" using i(1,2) by simp
  have gr: "n_graph (hp_node h1 m) = (if m = n then Some g else n_graph (hp_node h m))" for m
    using i(6) i(15)[of m] by (auto simp: same_header_def heap_simps)
  have "book_ok {n} h1 g"
    by (rule book_ok_same[OF b0[of g] _ nx _ hd]) (auto simp: i(3) gr heap_simps blank)
  then show "book_ok {n} (bump_sort_key g n h1) g" by (rule bump_sort_key_book) (simp add: nodes1 nograph)
  assume "g' \<noteq> g"
  then have "book_ok {} h1 g'"
    by (intro book_ok_same[OF b0[of g'] _ nx _ hd]) (auto simp: i(3) gr heap_simps blank)
  then show "book_ok {} (bump_sort_key g n h1) g'" by (rule bump_sort_key_book) (simp add: nodes1 nograph)
qed

text \<open>Names after the new node is recorded.\<close>

lemma names_ok_insert:
  assumes "names_ok h g" and "nm \<notin> set (ns_used_names (g_namespace (hp_graph h g)))" and "n = hp_next h" and "hp_next h' = Suc n"
    and "n \<notin> set (nodes_of h g)" and "set (nodes_of h' g) = insert n (set (nodes_of h g))"
    and "n_name (hp_node h' n) = nm" and same: "\<And>m. m \<noteq> n \<Longrightarrow> n_name (hp_node h' m) = n_name (hp_node h m)"
    and ns: "g_namespace (hp_graph h' g) = ns_remember (ns_use (ns_use (g_namespace (hp_graph h g)) nm) nm) (Hashable n) nm"
  shows "names_ok h' g"
proof -
  let ?ns = "set (nodes_of h g)"
  have e: "m \<in> ?ns \<Longrightarrow> n_name (hp_node h' m) = n_name (hp_node h m)" for m using same[of m] assms(5) by auto
  have "inj_on (\<lambda>m. n_name (hp_node h' m)) ?ns" using assms(1) e by (simp add: names_ok_def cong: inj_on_cong)
  moreover have "nm \<notin> (\<lambda>m. n_name (hp_node h' m)) ` ?ns" using assms(1,2) e by (auto simp: names_ok_def)
  ultimately have "inj_on (\<lambda>m. n_name (hp_node h' m)) (insert n ?ns)" using assms(5,7) by (simp add: inj_on_insert)
  moreover have "\<forall>m \<in> insert n ?ns. n_name (hp_node h' m) \<in> set (ns_used_names (g_namespace (hp_graph h' g))) \<and>
      ns_obj_to_name (g_namespace (hp_graph h' g)) m = Some (n_name (hp_node h' m))"
    using assms(1,5,7) e by (auto simp: names_ok_def ns ns_use_def)
  moreover have "\<forall>m \<ge> hp_next h'. ns_obj_to_name (g_namespace (hp_graph h' g)) m = None"
    using assms(1,3,4) by (auto simp: names_ok_def ns ns_use_def)
  ultimately show ?thesis using assms(6) by (simp add: names_ok_def)
qed

lemma names_ok_other:
  assumes "names_ok h g" and "hp_graph h' g = hp_graph h g" and "hp_next h \<le> hp_next h'"
    and "\<And>m. m \<in> set (nodes_of h g) \<Longrightarrow> n_name (hp_node h' m) = n_name (hp_node h m)"
  shows "names_ok h' g"
  using assms by (auto simp: names_ok_def inj_on_def)

lemma create_node_ok:
  assumes ok: "heap_ok h" and args: "\<forall>i \<in> set (args_nodes args kwargs). i < hp_next h"
    and run: "create_node g op target args kwargs name ty h = (Inr n, h')"
  shows "heap_ok h'" and "n = hp_next h" and "hp_next h' = Suc n" and "inserted (nodes_of h g) n (nodes_of h' g)"
    and "n_op (hp_node h' n) = op \<and> n_target (hp_node h' n) = target \<and> n_args (hp_node h' n) = args \<and> n_kwargs (hp_node h' n) = kwargs \<and> n_meta (hp_node h' n) = []"
    and "\<And>m. m \<noteq> n \<Longrightarrow> same_body (hp_node h' m) (hp_node h m) \<and> n_graph (hp_node h' m) = n_graph (hp_node h m)"
    and "\<And>g'. g' \<noteq> g \<Longrightarrow> hp_graph h' g' = hp_graph h g'" and "g_owner (hp_graph h' g) = g_owner (hp_graph h g)"
    and "hp_side_effectful h' = hp_side_effectful h"
    and "n_name (hp_node h' n) = fresh_name (ns_used_names (g_namespace (hp_graph h g))) (case name of Some s \<Rightarrow> s | None \<Rightarrow> target_to_str target)"
proof -
  from run obtain h1 h2 nm ns where
    nm: "nm = fresh_name (ns_used_names (g_namespace (hp_graph h g))) (case name of Some s \<Rightarrow> s | None \<Rightarrow> target_to_str target)" and
    init: "node_init g nm op target args kwargs ty (set_namespace g (ns_use (g_namespace (hp_graph h g)) nm) h) = (Inr n, h1)" and
    ins: "run_insert g n (bump_sort_key g n h1) = (Inr (), h2)" and
    asc: "associate_name_with_obj (g_namespace (hp_graph h2 g)) (n_name (hp_node h2 n)) (Hashable n) = Inr ns" and
    h': "h' = set_namespace g ns h2" by (rule create_node_steps)
  let ?h0 = "set_namespace g (ns_use (g_namespace (hp_graph h g)) nm) h"
  have l0: "links_ok ?h0" and a0: "\<forall>i \<in> set (args_nodes args kwargs). i < hp_next ?h0"
    using heap_ok_sel(1)[OF ok] args by (simp_all add: heap_simps)
  note i = node_init_spec[OF l0 a0 init] note p = pending_ok[OF ok args init]
  let ?hb = "bump_sort_key g n h1"
  have gn: "n_graph (hp_node ?hb n) = Some g" "n < hp_next ?hb" using i(2,6) by (simp_all add: heap_simps)
  have mt: "mounted ?hb g n h2" by (rule run_insert_mounted[OF p(1) p(2) gn ins])
  have body: "same_body (hp_node h2 m) (hp_node h1 m) \<and> n_graph (hp_node h2 m) = n_graph (hp_node h1 m)" for m
    using mountedD(1,2)[OF mt, of m] bump_sort_key_body[of g n h1 m] by (simp add: same_body_def heap_simps)
  have ns2: "g_namespace (hp_graph h2 g) = ns_use (g_namespace (hp_graph h g)) nm"
    using mt by (simp add: mounted_def i(3) heap_simps)
  have name2: "n_name (hp_node h2 n) = nm" using body[of n] i(7) by (simp add: same_body_def)
  show n': "n = hp_next h" using i(1) by (simp add: heap_simps)
  have ns: "ns = ns_remember (ns_use (ns_use (g_namespace (hp_graph h g)) nm) nm) (Hashable n) nm"
  proof -
    have "ns_obj_to_name (g_namespace (hp_graph h g)) n = None" using heap_ok_sel(3)[OF ok, of g] n' by (simp add: names_ok_def)
    then show ?thesis using asc unfolding ns2 name2 by (simp add: associate_name_with_obj_def ns_use_def)
  qed
  show nx: "hp_next h' = Suc n" using mt i(2) by (simp add: mounted_def h' heap_simps)
  show insd: "inserted (nodes_of h g) n (nodes_of h' g)" using mt p(4) by (simp add: mounted_def h' heap_simps)
  show "n_op (hp_node h' n) = op \<and> n_target (hp_node h' n) = target \<and> n_args (hp_node h' n) = args \<and> n_kwargs (hp_node h' n) = kwargs \<and> n_meta (hp_node h' n) = []"
    using body[of n] i by (simp add: same_body_def h' heap_simps)
  show frame: "same_body (hp_node h' m) (hp_node h m) \<and> n_graph (hp_node h' m) = n_graph (hp_node h m)" if "m \<noteq> n" for m
    using body[of m] i(15)[OF that] by (auto simp: same_body_def same_header_def h' heap_simps)
  show other: "hp_graph h' g' = hp_graph h g'" if "g' \<noteq> g" for g'
    using mt that i(3) by (simp add: mounted_def h' heap_simps)
  show "g_owner (hp_graph h' g) = g_owner (hp_graph h g)" using mt by (simp add: mounted_def h' i(3) heap_simps)
  show "hp_side_effectful h' = hp_side_effectful h" using mt by (simp add: mounted_def h' i(4) heap_simps)
  show nm': "n_name (hp_node h' n) = fresh_name (ns_used_names (g_namespace (hp_graph h g))) (case name of Some s \<Rightarrow> s | None \<Rightarrow> target_to_str target)"
    using name2 nm by (simp add: h' heap_simps)
  have "book_ok {} h2 g'" if "g' \<noteq> g" for g'
    by (rule mounted_book_other[OF mt p(3)[OF that] that gn(1)]) (use book_ok_sel(3)[OF p(2)] in auto)
  then have bk: "book_ok {} h' g'" for g' using mt by (cases "g' = g") (simp_all add: h' mounted_def)
  have names: "\<And>m. m \<noteq> n \<Longrightarrow> n_name (hp_node h' m) = n_name (hp_node h m)" using frame by (simp add: same_body_def)
  have "names_ok h' g"
    by (rule names_ok_insert[OF heap_ok_sel(3)[OF ok] fresh_name_free n' nx p(5) inserted_set[OF insd] nm' names])
       (simp_all add: h' heap_simps ns nm)
  moreover have "names_ok h' g'" if "g' \<noteq> g" for g'
    by (rule names_ok_other[OF heap_ok_sel(3)[OF ok] other[OF that]]) (use names p(5)[of g'] n' nx in \<open>simp, metis\<close>)
  ultimately have "names_ok h' g'" for g' by (cases "g' = g") auto
  then show "heap_ok h'" using bk mt by (simp add: heap_ok_def h' mounted_def)
qed

subsection \<open>The other operations keep the invariant\<close>

lemma update_args_kwargs_ok:
  assumes "heap_ok h" and "n < hp_next h" and "\<forall>i \<in> set (args_nodes args kwargs). i < hp_next h"
  shows "heap_ok (update_args_kwargs n args kwargs h)"
proof -
  let ?h = "update_args_kwargs n args kwargs h"
  have hdr: "same_header (hp_node ?h m) (hp_node h m)" for m by (rule update_args_kwargs_header)
  have "book_ok {} ?h g" for g
    by (rule book_ok_same[OF heap_ok_sel(2)[OF assms(1)] _ _ _ hdr]) (use hdr in \<open>auto simp: heap_simps same_header_def\<close>)
  moreover have "names_ok ?h g" for g
    by (rule names_ok_other[OF heap_ok_sel(3)[OF assms(1)]]) (use hdr in \<open>auto simp: heap_simps same_header_def\<close>)
  ultimately show ?thesis
    using update_args_kwargs_links[OF heap_ok_sel(1)[OF assms(1)] assms(2)] assms(3) by (simp add: heap_ok_def)
qed

text \<open>Every node that occurs in an argument exists.\<close>

lemma inputs_allocated:
  assumes "links_ok h" and "i \<in> set (args_nodes (n_args (hp_node h n)) (n_kwargs (hp_node h n)))"
  shows "i < hp_next h" "n < hp_next h"
proof -
  have "n \<in> set (n_users (hp_node h i))" using assms links_users[OF assms(1)] links_input[OF assms(1)] by blast
  then have "hp_node h i \<noteq> blank_node" by auto
  then show "i < hp_next h" using links_blank[OF assms(1)] by (metis not_le)
  have "n_input_nodes (hp_node h n) \<noteq> []" using assms links_input[OF assms(1), of n] by auto
  then have "hp_node h n \<noteq> blank_node" by auto
  then show "n < hp_next h" using links_blank[OF assms(1)] by (metis not_le)
qed

definition rename_of :: "nid \<Rightarrow> nid \<Rightarrow> nid \<Rightarrow> nid" where
  "rename_of old new v = (if v = old then new else v)"

lemma map_args_replaced: "map_args (replaced old new) args = Inr (map (subst_arg (rename_of old new)) args)"
  unfolding map_args_def by (rule traverse_total, rule map_arg_total) (simp add: replaced_def rename_of_def)

lemma map_kwargs_replaced:
  "map_kwargs (replaced old new) kwargs = Inr (map (\<lambda>kv. (fst kv, subst_arg (rename_of old new) (snd kv))) kwargs)"
  unfolding map_kwargs_def
proof (rule traverse_total)
  fix kv :: "string \<times> arg"
  have "map_arg (replaced old new) (snd kv) = Inr (subst_arg (rename_of old new) (snd kv))"
    by (rule map_arg_total) (simp add: replaced_def rename_of_def)
  then show "rbind (map_arg (replaced old new) (snd kv)) (\<lambda>y. Inr (fst kv, y)) = Inr (fst kv, subst_arg (rename_of old new) (snd kv))" by simp
qed

text \<open>Replacing an input is a substitution in the arguments; it never raises.\<close>

lemma replace_input_unchecked_eq:
  "replace_input_unchecked n old new h =
     (Inr (), update_args_kwargs n (map (subst_arg (rename_of old new)) (n_args (hp_node h n)))
                (map (\<lambda>kv. (fst kv, subst_arg (rename_of old new) (snd kv))) (n_kwargs (hp_node h n))) h)"
  by (simp add: replace_input_unchecked_def map_args_replaced map_kwargs_replaced)

lemma args_nodes_subst:
  "args_nodes (map (subst_arg f) args) (map (\<lambda>kv. (fst kv, subst_arg f (snd kv))) kwargs) = map f (args_nodes args kwargs)"
  by (simp add: args_nodes_def comp_def iter_aggregate_subst map_concat)

lemma replace_input_unchecked_ok:
  assumes "heap_ok h" and "new < hp_next h" and "n < hp_next h" and "replace_input_unchecked n old new h = (r, h')"
  shows "heap_ok h'" "hp_next h' = hp_next h" "hp_graph h' = hp_graph h"
proof -
  have "heap_ok (update_args_kwargs n (map (subst_arg (rename_of old new)) (n_args (hp_node h n)))
                (map (\<lambda>kv. (fst kv, subst_arg (rename_of old new) (snd kv))) (n_kwargs (hp_node h n))) h)"
    by (rule update_args_kwargs_ok[OF assms(1,3)])
       (auto simp: args_nodes_subst rename_of_def assms(2) intro: inputs_allocated(1)[OF heap_ok_sel(1)[OF assms(1)]])
  then show "heap_ok h'" "hp_next h' = hp_next h" "hp_graph h' = hp_graph h"
    using assms(4) by (auto simp: replace_input_unchecked_eq heap_simps)
qed

lemma users_allocated: "links_ok h \<Longrightarrow> u \<in> set (n_users (hp_node h n)) \<Longrightarrow> u < hp_next h \<and> n < hp_next h"
  using links_users inputs_allocated links_input by metis

lemma replace_uses_ok:
  assumes "heap_ok h" and "new < hp_next h" and "\<forall>u \<in> set us. u < hp_next h"
    and "replace_uses cb positions old new us res h = (r, h')"
  shows "heap_ok h' \<and> hp_next h' = hp_next h \<and> hp_graph h' = hp_graph h"
  using assms
proof (induction us arbitrary: h res)
  case (Cons u us)
  obtain h1 where h1: "replace_input_unchecked u old new h = (Inr (), h1)"
    by (simp add: replace_input_unchecked_eq)
  have u: "u < hp_next h" using Cons.prems(3) by simp
  note o = replace_input_unchecked_ok[OF Cons.prems(1,2) u h1]
  show ?case using Cons.prems Cons.IH[of h res] Cons.IH[of h1 "res @ [u]"] o
    by (auto simp: h1 split: if_splits)
qed simp

definition same_links :: "graph_node \<Rightarrow> graph_node \<Rightarrow> bool" where
  "same_links a b = (n_args a = n_args b \<and> n_kwargs a = n_kwargs b \<and> n_input_nodes a = n_input_nodes b \<and> n_users a = n_users b)"

lemma links_ok_frame:
  assumes "links_ok h" and "hp_next h' = hp_next h" and "\<And>m. same_links (hp_node h' m) (hp_node h m)"
    and "\<And>m. hp_next h \<le> m \<Longrightarrow> hp_node h' m = hp_node h m"
  shows "links_ok h'"
  using assms unfolding links_ok_def same_links_def by simp

lemma heap_ok_frame:
  assumes "heap_ok h" and "hp_next h' = hp_next h" and "hp_graph h' = hp_graph h"
    and "\<And>m. same_links (hp_node h' m) (hp_node h m)" and hdr: "\<And>m. same_header (hp_node h' m) (hp_node h m)"
    and "\<And>m. hp_next h \<le> m \<Longrightarrow> hp_node h' m = hp_node h m"
  shows "heap_ok h'"
proof -
  have "book_ok {} h' g" for g
    by (rule book_ok_same[OF heap_ok_sel(2)[OF assms(1)] _ _ _ hdr]) (use assms(2,3) hdr in \<open>simp_all add: same_header_def\<close>)
  moreover have "names_ok h' g" for g
    by (rule names_ok_other[OF heap_ok_sel(3)[OF assms(1)]]) (use assms(2,3) hdr in \<open>simp_all add: same_header_def\<close>)
  moreover have "links_ok h'" by (rule links_ok_frame[OF heap_ok_sel(1)[OF assms(1)] assms(2,4,6)])
  ultimately show ?thesis by (simp add: heap_ok_def)
qed

lemma heap_ok_meta: "heap_ok h \<Longrightarrow> n < hp_next h \<Longrightarrow> heap_ok (upd_node n (n_meta_update f) h)"
  by (erule heap_ok_frame) (auto simp: same_links_def same_header_def)

lemma graph_allocated: "heap_ok h \<Longrightarrow> n_graph (hp_node h n) = Some g \<Longrightarrow> n < hp_next h"
  using heap_ok_graph book_ok_sel(4)[OF heap_ok_sel(2)] by blast

lemma replace_all_uses_with_ok:
  assumes "heap_ok h" and "replace_all_uses_with n new cb propagate h = (r, h')"
  shows "heap_ok h' \<and> hp_next h' = hp_next h \<and> hp_graph h' = hp_graph h"
proof -
  consider "r = Inl GraphCaptureError \<or> r = Inl AssertionError" "h' = h"
    | g h1 where "n_graph (hp_node h new) = Some g"
        "h1 = (if propagate then upd_node new (n_meta_update (\<lambda>_. n_meta (hp_node h n))) h else h)"
        "replace_uses cb (g_index (hp_graph h1 g)) n new (n_users (hp_node h1 n)) [] h1 = (r, h')"
    using assms(2) by (auto simp: replace_all_uses_with_def Let_def split: if_splits option.splits)
  then show ?thesis
  proof cases
    case 2
    have new: "new < hp_next h" by (rule graph_allocated[OF assms(1) 2(1)])
    have h1: "heap_ok h1" "hp_next h1 = hp_next h" "hp_graph h1 = hp_graph h"
      using 2(2) assms(1) heap_ok_meta[OF assms(1) new] by (auto split: if_splits)
    have "\<forall>u \<in> set (n_users (hp_node h1 n)). u < hp_next h1" using users_allocated[OF heap_ok_sel(1)[OF h1(1)]] by blast
    then show ?thesis using replace_uses_ok[OF h1(1) _ _ 2(3)] new h1 by simp
  qed (use assms(1) in simp)
qed

lemma replace_input_with_ok:
  assumes "heap_ok h" and "replace_input_with n old new h = (r, h')"
  shows "heap_ok h'"
proof (cases "old = new \<or> n_graph (hp_node h n) = None \<or> n_graph (hp_node h old) \<noteq> n_graph (hp_node h n) \<or> n_graph (hp_node h new) \<noteq> n_graph (hp_node h n)")
  case True
  then have "h' = h" using assms(2) by (auto simp: replace_input_with_def split: if_splits)
  then show ?thesis using assms(1) by simp
next
  case False
  then obtain g where "n_graph (hp_node h n) = Some g" "n_graph (hp_node h new) = Some g" by auto
  then show ?thesis using assms False graph_allocated[OF assms(1)]
    by (intro replace_input_unchecked_ok(1)[OF assms(1)]) (auto simp: replace_input_with_def)
qed

subsubsection \<open>Moves\<close>

lemma move_node_cases:
  assumes "move_node offset self n h = (Inr u, h')"
  shows "h' = h \<or> (\<exists>g i. n \<in> set (nodes_of h g) \<and> list_index (remove1 n (nodes_of h g)) self = Some i \<and>
    h' = replace_list g (take (i + offset) (remove1 n (nodes_of h g)) @ n # drop (i + offset) (remove1 n (nodes_of h g))) h)"
  using assms unfolding move_node_def Let_def
  by (cases "n_graph (hp_node h self)") (fastforce split: if_split_asm option.split_asm)+

lemma inserted_take_drop: "inserted ms n (take k ms @ n # drop k ms)"
  unfolding inserted_def by (intro exI[of _ "min k (length ms)"]) (auto simp: min_def)

lemma move_node_ok:
  assumes "heap_ok h" and "move_node offset self n h = (Inr u, h')"
  shows "heap_ok h'"
  using move_node_cases[OF assms(2)]
proof (elim disjE exE conjE)
  fix g i
  let ?ms = "remove1 n (nodes_of h g)"
  assume n: "n \<in> set (nodes_of h g)" and h': "h' = replace_list g (take (i + offset) ?ms @ n # drop (i + offset) ?ms) h"
  have d: "distinct (nodes_of h g)" by (rule book_ok_sel(1)[OF heap_ok_sel(2)[OF assms(1)]])
  show "heap_ok h'" unfolding h'
  proof (rule replace_list_ok[OF assms(1)])
    show "distinct (take (i + offset) ?ms @ n # drop (i + offset) ?ms)"
      by (rule inserted_distinct[OF inserted_take_drop]) (use d in simp_all)
    show "set (take (i + offset) ?ms @ n # drop (i + offset) ?ms) \<subseteq> set (nodes_of h g)"
      unfolding inserted_set[OF inserted_take_drop] using n d by simp
  qed
qed (use assms(1) in simp)

subsubsection \<open>Erasure\<close>

lemma clear_node_sel [heap_simps]:
  "hp_graph (clear_node n h) = hp_graph h" "hp_next (clear_node n h) = hp_next h"
  "hp_side_effectful (clear_node n h) = hp_side_effectful h"
  "hp_node (clear_node n h) m =
     (if m = n then (hp_node h n)\<lparr>n_graph := None, n_erased := True, n_args := [], n_kwargs := [], n_input_nodes := [], n_users := []\<rparr> else hp_node h m)"
  by (simp_all add: clear_node_def)

lemma notify_sel [heap_simps]:
  "hp_node (notify_owner_mutated g h) = hp_node h" "hp_next (notify_owner_mutated g h) = hp_next h"
  "hp_side_effectful (notify_owner_mutated g h) = hp_side_effectful h"
  "g_nodes (hp_graph (notify_owner_mutated g h) g') = g_nodes (hp_graph h g')"
  "g_index (hp_graph (notify_owner_mutated g h) g') = g_index (hp_graph h g')"
  "g_live_names (hp_graph (notify_owner_mutated g h) g') = g_live_names (hp_graph h g')"
  "g_next_sort_key (hp_graph (notify_owner_mutated g h) g') = g_next_sort_key (hp_graph h g')"
  "g_lookup (hp_graph (notify_owner_mutated g h) g') = g_lookup (hp_graph h g')"
  "g_namespace (hp_graph (notify_owner_mutated g h) g') = g_namespace (hp_graph h g')"
  by (simp_all add: notify_owner_mutated_def)

lemma heap_ok_notify [simp]: "heap_ok (notify_owner_mutated g h) \<longleftrightarrow> heap_ok h"
  by (simp add: heap_ok_def links_ok_def book_ok_def names_ok_def Let_def heap_simps)

lemma heap_books_frame:
  assumes "heap_ok h" and "hp_graph h' = hp_graph h" and "hp_next h' = hp_next h" and hdr: "\<And>m. same_header (hp_node h' m) (hp_node h m)"
  shows "book_ok {} h' g" "names_ok h' g"
proof -
  show "book_ok {} h' g"
    by (rule book_ok_same[OF heap_ok_sel(2)[OF assms(1)] _ _ _ hdr]) (use assms(2,3) hdr in \<open>simp_all add: same_header_def\<close>)
  show "names_ok h' g"
    by (rule names_ok_other[OF heap_ok_sel(3)[OF assms(1)]]) (use assms(2,3) hdr in \<open>simp_all add: same_header_def\<close>)
qed

lemma remove_node_steps:
  assumes "remove_node g n h = (Inr u, h')"
  obtains h1 h2 where "n_graph (hp_node h n) = Some g" "n_users (hp_node h n) = []"
    "h1 = fold (\<lambda>i. upd_node i (n_users_update (user_discard n))) (n_input_nodes (hp_node h n)) h"
    "h2 = replace_list g (remove1 n (nodes_of h g)) h1"
    "h' = notify_owner_mutated g (clear_node n (set_namespace g (release_name (g_namespace (hp_graph h2 g)) (n_name (hp_node h2 n))) h2))"
  using assms that by (auto simp: remove_node_def Let_def fold_upd_node_sel split: if_split_asm)

lemma names_ok_release:
  assumes "names_ok h g" and "n \<in> set (nodes_of h g)" and "set ns = set (nodes_of h g) - {n}"
    and "nodes_of h' g = ns" and "\<And>m. n_name (hp_node h' m) = n_name (hp_node h m)" and "hp_next h' = hp_next h"
    and "g_namespace (hp_graph h' g) = release_name (g_namespace (hp_graph h g)) (n_name (hp_node h n))"
  shows "names_ok h' g"
proof -
  have "m \<in> set ns \<Longrightarrow> n_name (hp_node h m) \<noteq> n_name (hp_node h n)" for m
    using assms(1,2,3) by (auto simp: names_ok_def inj_on_def)
  then show ?thesis using assms by (auto simp: names_ok_def release_name_def inj_on_def)
qed

lemma remove_node_nodes:
  assumes "heap_ok h" and "remove_node g n h = (Inr u, h')"
  shows "nodes_of h' g' = (if g' = g then remove1 n (nodes_of h g) else nodes_of h g')" and "hp_next h' = hp_next h"
    and "m \<noteq> n \<Longrightarrow> same_body (hp_node h' m) (hp_node h m) \<and> n_graph (hp_node h' m) = n_graph (hp_node h m) \<and>
           n_users (hp_node h' m) = user_discard n (n_users (hp_node h m))"
    and "n_name (hp_node h' n) = n_name (hp_node h n) \<and> n_graph (hp_node h' n) = None \<and> same_links (hp_node h' n) blank_node"
proof -
  from assms(2) obtain h1 h2 where g: "n_graph (hp_node h n) = Some g" and
    h1: "h1 = fold (\<lambda>i. upd_node i (n_users_update (user_discard n))) (n_input_nodes (hp_node h n)) h" and
    h2: "h2 = replace_list g (remove1 n (nodes_of h g)) h1" and
    h': "h' = notify_owner_mutated g (clear_node n (set_namespace g (release_name (g_namespace (hp_graph h2 g)) (n_name (hp_node h2 n))) h2))"
    by (rule remove_node_steps)
  have d: "distinct (nodes_of h g)" by (rule book_ok_sel(1)[OF heap_ok_sel(2)[OF assms(1)]])
  then have d': "distinct (remove1 n (nodes_of h g))" by simp
  have n1: "hp_node h1 m = (if m \<in> set (n_input_nodes (hp_node h n)) then n_users_update (user_discard n) (hp_node h m) else hp_node h m)" for m
    by (simp add: h1 users_discard_fold)
  have g1: "hp_graph h1 = hp_graph h" "hp_next h1 = hp_next h" by (simp_all add: h1 fold_upd_node_sel)
  show "nodes_of h' g' = (if g' = g then remove1 n (nodes_of h g) else nodes_of h g')" "hp_next h' = hp_next h"
    by (auto simp: h' h2 heap_simps g1)
  show "n_name (hp_node h' n) = n_name (hp_node h n) \<and> n_graph (hp_node h' n) = None \<and> same_links (hp_node h' n) blank_node"
    by (simp add: h' heap_simps same_links_def h2 replace_list_fields[OF d'] n1)
  have "m \<in> set (nodes_of h g) \<longleftrightarrow> n_graph (hp_node h m) = Some g" for m by (rule heap_ok_graph[OF assms(1)])
  then have "m \<noteq> n \<Longrightarrow> n_graph (hp_node h2 m) = n_graph (hp_node h1 m)"
    unfolding h2 replace_list_graph[OF d'] using d by (auto simp: n1 g1)
  moreover have "same_body (hp_node h2 m) (hp_node h1 m)"
    by (simp add: h2 same_body_def replace_list_fields[OF d'])
  moreover have "n_users (hp_node h2 m) = n_users (hp_node h1 m)" by (simp add: h2 replace_list_fields[OF d'])
  moreover have "m \<notin> set (n_input_nodes (hp_node h n)) \<Longrightarrow> n \<notin> set (n_users (hp_node h m))" using links_users[OF heap_ok_sel(1)[OF assms(1)]] by blast
  ultimately show "m \<noteq> n \<Longrightarrow> same_body (hp_node h' m) (hp_node h m) \<and> n_graph (hp_node h' m) = n_graph (hp_node h m) \<and>
           n_users (hp_node h' m) = user_discard n (n_users (hp_node h m))"
    by (simp add: h' heap_simps n1 same_body_def split: if_split_asm)
qed

lemma remove_node_ok:
  assumes ok: "heap_ok h" and run: "remove_node g n h = (Inr u, h')"
  shows "heap_ok h'"
proof -
  from run obtain h1 h2 where g: "n_graph (hp_node h n) = Some g" and nu: "n_users (hp_node h n) = []" and
    h1: "h1 = fold (\<lambda>i. upd_node i (n_users_update (user_discard n))) (n_input_nodes (hp_node h n)) h" and
    h2: "h2 = replace_list g (remove1 n (nodes_of h g)) h1" and
    h': "h' = notify_owner_mutated g (clear_node n (set_namespace g (release_name (g_namespace (hp_graph h2 g)) (n_name (hp_node h2 n))) h2))"
    by (rule remove_node_steps)
  note rn = remove_node_nodes[OF ok run] and l = heap_ok_sel(1)[OF ok]
  have d: "distinct (nodes_of h g)" by (rule book_ok_sel(1)[OF heap_ok_sel(2)[OF ok]])
  then have d': "distinct (remove1 n (nodes_of h g))" and sub: "set (remove1 n (nodes_of h g)) = set (nodes_of h g) - {n}" by simp_all
  have g1: "hp_graph h1 = hp_graph h" "hp_next h1 = hp_next h" "\<And>m. same_header (hp_node h1 m) (hp_node h m)"
    by (simp_all add: h1 fold_upd_node_sel users_discard_fold same_header_def)
  note b1 = heap_books_frame[OF ok g1]
  have sub1: "set (remove1 n (nodes_of h g)) \<subseteq> set (nodes_of h1 g)" using sub by (simp add: g1)
  note b2 = replace_list_books[OF b1 d' sub1, folded h2]
  have nn: "n_graph (hp_node h2 n) \<noteq> Some g'" for g' using book_ok_sel(3)[OF b2(1), of n g'] sub by (cases "g' = g") (simp_all add: h2 heap_simps g1, metis heap_ok_graph[OF ok] g option.inject)
  have "book_ok {} h' g'" for g'
    by (rule book_ok_frame[OF b2(1)]) (use nn book_ok_sel(3)[OF b2(1)] in \<open>auto simp: h' heap_simps same_header_def\<close>)
  moreover have "names_ok h' g'" for g'
  proof (cases "g' = g")
    case True
    have "g_namespace (hp_graph h' g) = release_name (g_namespace (hp_graph h g)) (n_name (hp_node h n))"
      using g1(3)[of n] by (simp add: h' heap_simps h2 g1 replace_list_fields[OF d'] same_header_def)
    moreover have "n_name (hp_node h' m) = n_name (hp_node h m)" for m using rn(3,4) by (cases "m = n") (simp_all add: same_body_def)
    ultimately show ?thesis unfolding True
      by (intro names_ok_release[OF heap_ok_sel(3)[OF ok, of g] _ sub]) (use g heap_ok_graph[OF ok] rn(1,2) in auto)
  next
    case False
    have "hp_graph h' g' = hp_graph h2 g'" using False by (simp add: h' notify_owner_mutated_def heap_simps)
    then show ?thesis by (rule names_ok_other[OF b2(2)]) (simp_all add: h' heap_simps)
  qed
  moreover have "links_ok h'"
    unfolding links_ok_def
  proof (intro conjI allI impI)
    fix m
    have f: "same_links (hp_node h' n) blank_node" using rn(4) by simp
    show "n_input_nodes (hp_node h' m) = user_update (args_nodes (n_args (hp_node h' m)) (n_kwargs (hp_node h' m))) []"
      using rn(3)[of m] f l by (cases "m = n") (simp_all add: same_links_def same_body_def args_nodes_def links_ok_def)
    show "distinct (n_users (hp_node h' m))"
      using rn(3)[of m] f links_distinct_users[OF l] by (cases "m = n") (simp_all add: same_links_def)
    show "v \<in> set (n_users (hp_node h' m)) \<longleftrightarrow> m \<in> set (n_input_nodes (hp_node h' v))" for v
      using rn(3)[of m] rn(3)[of v] f links_users[OF l, of v m] links_users[OF l, of v n] nu
      by (cases "m = n"; cases "v = n") (simp_all add: same_links_def same_body_def)
    assume "hp_next h' \<le> m"
    then have "hp_next h \<le> m" by (simp add: rn(2))
    then have bl: "hp_node h m = blank_node" using links_blank[OF l] by blast
    then have "m \<noteq> n" "m \<notin> set (nodes_of h g)" using g heap_ok_graph[OF ok, of m g] by auto
    moreover have "m \<notin> set (n_input_nodes (hp_node h n))" using links_users[OF l, of n m] bl by simp
    ultimately show "hp_node h' m = blank_node"
      using bl sub by (simp add: h' heap_simps h2 replace_list_other g1) (simp add: h1 users_discard_fold)
  qed
  ultimately show ?thesis by (simp add: heap_ok_def)
qed

subsubsection \<open>Renaming and retargeting\<close>

lemma rename_ok:
  assumes "heap_ok h" and "rename n new_name h = (Inr u, h')"
  shows "heap_ok h'"
proof (cases "h' = h")
  case False
  obtain g where g: "n_graph (hp_node h n) = Some g"
    using assms(2) by (cases "n_graph (hp_node h n)") (auto simp: rename_def)
  define c where "c = fresh_name (ns_used_names (g_namespace (hp_graph h g))) new_name"
  have c: "c \<notin> set (ns_used_names (g_namespace (hp_graph h g)))" unfolding c_def by (rule fresh_name_free)
  let ?ns = "rename_object (ns_use (g_namespace (hp_graph h g)) c) (Hashable n) c"
  have h': "h' = upd_graph g (\<lambda>gr. gr\<lparr>g_live_names := insert c (g_live_names gr - {n_name (hp_node h n)}), g_namespace := ?ns\<rparr>)
      (upd_node n (n_name_update (\<lambda>_. c)) h)"
    using assms(2) g False by (auto simp: rename_def create_name_None c_def split: if_split_asm)
  have nx: "hp_next h' = hp_next h" by (simp add: h')
  have n: "n \<in> set (nodes_of h g)" "n < hp_next h" using heap_ok_graph[OF assms(1)] g graph_allocated[OF assms(1) g] by auto
  have nm: "n_name (hp_node h' m) = (if m = n then c else n_name (hp_node h m))" for m by (simp add: h')
  have keep: "n_graph (hp_node h' m) = n_graph (hp_node h m)" "n_erased (hp_node h' m) = n_erased (hp_node h m)"
    "n_sort_key (hp_node h' m) = n_sort_key (hp_node h m)" for m by (simp_all add: h')
  have names: "names_ok h g" by (rule heap_ok_sel(3)[OF assms(1)])
  have nodes: "nodes_of h' g' = nodes_of h g'" for g' by (simp add: h')
  have other: "n \<notin> set (nodes_of h g')" if "g' \<noteq> g" for g' using heap_ok_graph[OF assms(1), of n g'] g that by simp
  have "links_ok h'"
    by (rule links_ok_frame[OF heap_ok_sel(1)[OF assms(1)]]) (use n(2) in \<open>auto simp: h' same_links_def\<close>)
  moreover have "book_ok {} h' g'" for g'
  proof (cases "g' = g")
    case True
    note b = heap_ok_sel(2)[OF assms(1), of g]
    have "lookup_ok (hp_node h') (nodes_of h g) (g_lookup (hp_graph h g))"
      by (rule lookup_ok_cong[OF book_ok_sel(6)[OF b]]) (auto simp: h')
    moreover have "insert c ((\<lambda>m. n_name (hp_node h m)) ` set (nodes_of h g) - {n_name (hp_node h n)}) = (\<lambda>m. n_name (hp_node h' m)) ` set (nodes_of h g)"
      using n(1) names by (auto simp: nm names_ok_def inj_on_def image_iff)
    moreover have live: "g_live_names (hp_graph h' g) = insert c ((\<lambda>m. n_name (hp_node h m)) ` set (nodes_of h g) - {n_name (hp_node h n)})"
      by (simp add: h' book_ok_sel(7)[OF b])
    moreover have "g_index (hp_graph h' g) = g_index (hp_graph h g)" "g_next_sort_key (hp_graph h' g) = g_next_sort_key (hp_graph h g)"
      "g_lookup (hp_graph h' g) = g_lookup (hp_graph h g)" by (simp_all add: h')
    ultimately show ?thesis unfolding True
      using b unfolding book_ok_def Let_def keep nodes nx by simp
  next
    case False
    show ?thesis
      by (rule book_ok_same[OF heap_ok_sel(2)[OF assms(1), of g']]) (use False other[OF False] in \<open>auto simp: h' same_header_def\<close>)
  qed
  moreover have "names_ok h' g'" for g'
  proof (cases "g' = g")
    case True
    have ns: "g_namespace (hp_graph h' g) = ?ns" by (simp add: h')
    have "inj_on (\<lambda>m. n_name (hp_node h' m)) (set (nodes_of h g))"
      using names c by (auto simp: names_ok_def nm inj_on_def)
    then show ?thesis unfolding True
      using names n by (auto simp: names_ok_def nodes ns nm nx rename_object_def ns_use_def)
  next
    case False
    then show ?thesis using other[OF False]
      by (intro names_ok_other[OF heap_ok_sel(3)[OF assms(1), of g']]) (auto simp: h')
  qed
  ultimately show ?thesis by (simp add: heap_ok_def)
qed (use assms(1) in simp)

lemma lookup_retarget_ok:
  assumes "lookup_ok nodes ns lt" and "n \<in> set ns"
  shows "lookup_ok (nodes(n := nd)) ns (lookup_insert (nodes(n := nd)) n (lookup_remove nodes n lt))"
proof -
  have "lookup_ok (nodes(n := nd)) (removeAll n ns) (lookup_remove nodes n lt)"
    by (rule lookup_ok_cong[OF lookup_remove_ok[OF assms(1)]]) auto
  from lookup_insert_ok[OF this, of n] show ?thesis by (rule lookup_ok_cong) (use assms(2) in auto)
qed

definition retargets :: "(graph_node \<Rightarrow> graph_node) \<Rightarrow> bool" where
  "retargets f \<longleftrightarrow> (\<forall>nd. same_links (f nd) nd \<and> n_graph (f nd) = n_graph nd \<and> n_name (f nd) = n_name nd \<and>
     n_sort_key (f nd) = n_sort_key nd \<and> n_erased (f nd) = n_erased nd)"

lemma set_tracked_ok:
  assumes "heap_ok h" and "retargets f" and "n_graph (hp_node h n) = Some g"
  shows "heap_ok (set_tracked n f h)"
proof -
  note b = heap_ok_sel(2)[OF assms(1), of g]
  have n: "n \<in> set (nodes_of h g)" "n < hp_next h" using heap_ok_graph[OF assms(1)] assms(3) graph_allocated[OF assms(1,3)] by auto
  have mounted: "\<not> n_erased (hp_node h n)" "g_index (hp_graph h g) n \<noteq> None"
    using n(1) book_ok_sel(2,5)[OF b] index_of_None[of "nodes_of h g" n] by auto
  let ?nodes = "(hp_node h)(n := f (hp_node h n))"
  let ?h = "set_tracked n f h"
  have nodes: "hp_node ?h = ?nodes"
    using assms(3) mounted by (auto simp: set_tracked_def Let_def fun_eq_iff)
  have graph: "hp_graph ?h = (hp_graph h)(g := (hp_graph h g)\<lparr>g_lookup := lookup_insert ?nodes n (lookup_remove (hp_node h) n (g_lookup (hp_graph h g)))\<rparr>)"
    using assms(3) mounted by (auto simp: set_tracked_def Let_def fun_eq_iff upd_node_def)
  have nx: "hp_next ?h = hp_next h" using assms(3) mounted by (auto simp: set_tracked_def Let_def)
  have f: "same_links (f nd) nd" "n_graph (f nd) = n_graph nd" "n_name (f nd) = n_name nd" "n_sort_key (f nd) = n_sort_key nd" "n_erased (f nd) = n_erased nd" for nd
    using assms(2) by (simp_all add: retargets_def)
  have fields: "n_graph (?nodes m) = n_graph (hp_node h m)" "n_name (?nodes m) = n_name (hp_node h m)"
    "n_sort_key (?nodes m) = n_sort_key (hp_node h m)" "n_erased (?nodes m) = n_erased (hp_node h m)" for m
    by (simp_all add: f)
  have "links_ok ?h"
    by (rule links_ok_frame[OF heap_ok_sel(1)[OF assms(1)]]) (use n(2) f(1) in \<open>auto simp: nodes nx same_links_def\<close>)
  moreover have "book_ok {} ?h g'" for g'
  proof (cases "g' = g")
    case True
    show ?thesis unfolding True
      using b lookup_retarget_ok[OF book_ok_sel(6)[OF b] n(1), of "f (hp_node h n)"]
      unfolding book_ok_def Let_def nodes fields graph nx by simp
  next
    case False
    then have "n \<notin> set (nodes_of h g')" using heap_ok_graph[OF assms(1), of n g'] assms(3) by simp
    then show ?thesis
      by (intro book_ok_same[OF heap_ok_sel(2)[OF assms(1), of g']]) (use False in \<open>auto simp: nodes graph nx f same_header_def\<close>)
  qed
  moreover have "names_ok ?h g'" for g'
    using heap_ok_sel(3)[OF assms(1), of g'] unfolding names_ok_def nodes fields graph nx by auto
  ultimately show ?thesis by (simp add: heap_ok_def)
qed

subsubsection \<open>Insertion points and derived constructors\<close>

lemma set_insert_sel [heap_simps]:
  "g_nodes (hp_graph (upd_graph g (g_insert_update f) h) g') = g_nodes (hp_graph h g')"
  "g_index (hp_graph (upd_graph g (g_insert_update f) h) g') = g_index (hp_graph h g')"
  "g_live_names (hp_graph (upd_graph g (g_insert_update f) h) g') = g_live_names (hp_graph h g')"
  "g_next_sort_key (hp_graph (upd_graph g (g_insert_update f) h) g') = g_next_sort_key (hp_graph h g')"
  "g_lookup (hp_graph (upd_graph g (g_insert_update f) h) g') = g_lookup (hp_graph h g')"
  "g_namespace (hp_graph (upd_graph g (g_insert_update f) h) g') = g_namespace (hp_graph h g')"
  by simp_all

lemma heap_ok_set_insert [simp]: "heap_ok (upd_graph g (g_insert_update f) h) \<longleftrightarrow> heap_ok h"
  by (simp add: heap_ok_def links_ok_def book_ok_def names_ok_def Let_def heap_simps del: upd_graph_sel(3))

text \<open>The insertion function of a graph finds its place: the node that it is anchored at is still listed.\<close>

definition insert_ready :: "heap \<Rightarrow> gid \<Rightarrow> bool" where
  "insert_ready h g \<longleftrightarrow>
     (case g_insert (hp_graph h g) of
        InsertBefore anchor cursor \<Rightarrow> anchored_position (nodes_of h g) anchor cursor \<noteq> None
      | InsertAfter anchor cursor \<Rightarrow> after_position (nodes_of h g) anchor cursor \<noteq> None
      | _ \<Rightarrow> True)"

lemma run_insert_ready:
  assumes "g_insert (hp_graph h1 g) = g_insert (hp_graph h g)" and "nodes_of h1 g = nodes_of h g"
  shows "insert_ready h g \<Longrightarrow> fst (run_insert g n h1) = Inr ()" and "\<not> insert_ready h g \<Longrightarrow> run_insert g n h1 = (Inl GraphCaptureError, h1)"
  using assms by (auto simp: insert_ready_def run_insert_def split: insert_fn.splits option.splits)

text \<open>The three ways in which \<open>create_node\<close> can end before the insertion, and what is left then.\<close>

lemma create_node_init:
  obtains (illegal) e where "create_node g op target args kwargs name ty h = (Inl e, h)"
    | (target) e ns where "create_node g op target args kwargs name ty h = (Inl e, set_namespace g (ns_use (g_namespace (hp_graph h g)) ns) h)"
    | (node) nm h1 where
        "node_init g nm op target args kwargs ty (set_namespace g (ns_use (g_namespace (hp_graph h g)) nm) h) = (Inr (hp_next h), h1)"
        "create_node g op target args kwargs name ty h = mount_node g (hp_next h) h1"
proof -
  define nm where "nm = fresh_name (ns_used_names (g_namespace (hp_graph h g))) (case name of Some s \<Rightarrow> s | None \<Rightarrow> target_to_str target)"
  define h0 where "h0 = set_namespace g (ns_use (g_namespace (hp_graph h g)) nm) h"
  obtain r h1 where i: "node_init g nm op target args kwargs ty h0 = (r, h1)" by (metis surj_pair)
  have c: "create_node g op target args kwargs name ty h =
      (if op \<notin> set legal_ops then (Inl GraphCaptureError, h) else hbind (node_init g nm op target args kwargs ty) (mount_node g) h0)"
    by (simp add: create_node_def create_name_None Let_def nm_def h0_def)
  show thesis
  proof (cases r)
    case (Inl e)
    then have "h1 = h0" using i by (auto simp: node_init_def Let_def hraise_def split: if_split_asm)
    then have "create_node g op target args kwargs name ty h = (if op \<notin> set legal_ops then (Inl GraphCaptureError, h) else (Inl e, h0))"
      using c i Inl by (simp add: hbind_def)
    then show thesis using illegal target h0_def by (cases "op \<in> set legal_ops") auto
  next
    case (Inr n)
    then have n: "n = hp_next h" "op \<in> set legal_ops"
      using i by (auto simp: node_init_def Let_def hraise_def h0_def heap_simps split: if_split_asm)
    then have "create_node g op target args kwargs name ty h = mount_node g (hp_next h) h1" using c i Inr by (simp add: hbind_def)
    then show thesis using node i Inr n(1) by (simp add: h0_def)
  qed
qed

lemma create_node_any:
  assumes ok: "heap_ok h" and args: "\<forall>i \<in> set (args_nodes args kwargs). i < hp_next h" and ready: "insert_ready h g"
    and run: "create_node g op target args kwargs name ty h = (r, h')"
  shows "heap_ok h'"
proof (cases r)
  case (Inr n)
  then show ?thesis using create_node_ok(1)[OF ok args] run by blast
next
  case (Inl e)
  show ?thesis
  proof (cases rule: create_node_init[of g op target args kwargs name ty h])
    case (illegal e)
    then show ?thesis using run ok by simp
  next
    case (target e ns)
    then show ?thesis using run ok names_ok_reserve[OF heap_ok_sel(3)[OF ok]] by (auto simp: heap_ok_def)
  next
    case (node nm h1)
    let ?ns = "ns_use (g_namespace (hp_graph h g)) nm" let ?n = "hp_next h" let ?hb = "bump_sort_key g ?n h1"
    have l0: "links_ok (set_namespace g ?ns h)" "\<forall>i \<in> set (args_nodes args kwargs). i < hp_next (set_namespace g ?ns h)"
      using heap_ok_sel(1)[OF ok] args by (simp_all add: heap_simps)
    note i = node_init_spec[OF l0 node(1)] and p = pending_ok[OF ok args node(1)]
    have gi: "g_insert (hp_graph ?hb g) = g_insert (hp_graph h g)" "nodes_of ?hb g = nodes_of h g" by (simp_all add: bump_sort_key_def i(3) heap_simps)
    obtain h2 where ins: "run_insert g ?n ?hb = (Inr (), h2)" using run_insert_ready(1)[OF gi ready, of ?n] by (metis prod.collapse)
    have "mounted ?hb g ?n h2" by (rule run_insert_mounted[OF p(1,2) _ _ ins]) (simp_all add: heap_simps i(2,6))
    then have "g_namespace (hp_graph h2 g) = ?ns" by (simp add: mounted_def heap_simps i(3))
    moreover have "ns_obj_to_name (g_namespace (hp_graph h g)) ?n = None" using heap_ok_sel(3)[OF ok, of g] by (simp add: names_ok_def)
    ultimately obtain ns where "associate_name_with_obj (g_namespace (hp_graph h2 g)) (n_name (hp_node h2 ?n)) (Hashable ?n) = Inr ns"
      by (simp add: associate_name_with_obj_def ns_use_def)
    then have "mount_node g ?n h1 = (Inr ?n, set_namespace g ns h2)" by (simp add: mount_node_def hbind_def hdo_def ins)
    then show ?thesis using run node(2) Inl by simp
  qed
qed

text \<open>When the anchor has been erased, the new node names the graph and uses its arguments without being listed.\<close>

lemma create_node_unready:
  assumes ok: "heap_ok h" and args: "\<forall>i \<in> set (args_nodes args kwargs). i < hp_next h" and unready: "\<not> insert_ready h g"
    and op: "op \<in> set legal_ops" and tgt: "if op = ''call_function'' then is_callable target else is_str_target target"
  shows "\<exists>h'. create_node g op target args kwargs name ty h = (Inl GraphCaptureError, h') \<and> nodes_of h' g = nodes_of h g \<and>
    n_graph (hp_node h' (hp_next h)) = Some g \<and> (\<forall>i \<in> set (args_nodes args kwargs). hp_next h \<in> set (n_users (hp_node h' i)))"
proof -
  let ?nm = "fresh_name (ns_used_names (g_namespace (hp_graph h g))) (case name of Some s \<Rightarrow> s | None \<Rightarrow> target_to_str target)"
  let ?ns = "ns_use (g_namespace (hp_graph h g)) ?nm" let ?n = "hp_next h"
  obtain h1 where init: "node_init g ?nm op target args kwargs ty (set_namespace g ?ns h) = (Inr ?n, h1)"
    using op tgt by (simp add: node_init_def Let_def heap_simps split: if_split_asm)
  have l0: "links_ok (set_namespace g ?ns h)" "\<forall>i \<in> set (args_nodes args kwargs). i < hp_next (set_namespace g ?ns h)"
    using heap_ok_sel(1)[OF ok] args by (simp_all add: heap_simps)
  note i = node_init_spec[OF l0 init] let ?hb = "bump_sort_key g ?n h1"
  have gi: "g_insert (hp_graph ?hb g) = g_insert (hp_graph h g)" "nodes_of ?hb g = nodes_of h g" by (simp_all add: bump_sort_key_def i(3) heap_simps)
  have "create_node g op target args kwargs name ty h = (Inl GraphCaptureError, ?hb)"
    using op init run_insert_ready(2)[OF gi unready, of ?n] by (simp add: create_node_def create_name_None Let_def hbind_def mount_node_def hdo_def)
  moreover have "n_graph (hp_node ?hb ?n) = Some g" by (simp add: heap_simps i(6))
  moreover have "?n \<in> set (n_users (hp_node ?hb k))" if "k \<in> set (args_nodes args kwargs)" for k
  proof -
    have "k \<in> set (args_nodes (n_args (hp_node h1 ?n)) (n_kwargs (hp_node h1 ?n)))" using that by (simp add: i(10,11))
    then have "?n \<in> set (n_users (hp_node h1 k))" using links_users[OF i(5)] links_input[OF i(5)] by blast
    then show ?thesis by (simp add: heap_simps)
  qed
  ultimately show ?thesis using gi(2) by blast
qed

text \<open>The other operations on a consistent store, whether they return or raise.\<close>

lemma remove_node_any:
  assumes ok: "heap_ok h" and run: "remove_node g n h = (r, h')"
  shows "heap_ok h' \<and> hp_next h' = hp_next h"
proof (cases r)
  case (Inl e)
  have "n \<in> set (nodes_of h g)" if "n_graph (hp_node h n) = Some g" using heap_ok_graph[OF ok, of n g] that by simp
  then have "h' = h" using run Inl by (auto simp: remove_node_def Let_def fold_upd_node_sel split: if_split_asm)
  then show ?thesis using ok by simp
next
  case (Inr u)
  then show ?thesis using remove_node_ok[OF ok] remove_node_nodes(2)[OF ok] run by blast
qed

lemma remove_nodes_any: "heap_ok h \<Longrightarrow> remove_nodes g ns h = (r, h') \<Longrightarrow> heap_ok h' \<and> hp_next h' = hp_next h"
proof (induction ns arbitrary: h)
  case (Cons n ns)
  obtain q h1 where 1: "remove_node g n h = (q, h1)" by (metis surj_pair)
  note h1 = remove_node_any[OF Cons.prems(1) 1]
  show ?case
  proof (cases q)
    case (Inl e)
    then have "h' = h1" using Cons.prems(2) 1 by (simp add: hbind_def)
    then show ?thesis using h1 by simp
  next
    case (Inr u)
    then have "remove_nodes g ns h1 = (r, h')" using Cons.prems(2) 1 by (simp add: hbind_def)
    then show ?thesis using Cons.IH[of h1] h1 by simp
  qed
qed simp

lemma graph_output_any:
  assumes ok: "heap_ok h" and args: "\<forall>i \<in> set (iter_aggregate res). i < hp_next h"
    and ready: "insert_ready (snd (remove_nodes g (outputs h g) h)) g" and run: "graph_output g res ty h = (r, h')"
  shows "heap_ok h'"
proof -
  obtain q h1 where 1: "remove_nodes g (outputs h g) h = (q, h1)" by (metis surj_pair)
  note h1 = remove_nodes_any[OF ok 1]
  show ?thesis
  proof (cases q)
    case (Inl e)
    then show ?thesis using run 1 h1 by (simp add: graph_output_def hbind_def)
  next
    case (Inr u)
    then have c: "create_node g ''output'' (TStr ''output'') [res] [] (Some ''output'') ty h1 = (r, h')"
      using run 1 by (simp add: graph_output_def hbind_def)
    have "\<forall>i \<in> set (args_nodes [res] []). i < hp_next h1" using args h1 by (simp add: args_nodes_def)
    then show ?thesis using create_node_any[of h1, OF _ _ _ c] h1 ready 1 by simp
  qed
qed

lemma placeholder_any:
  assumes ok: "heap_ok h" and args: "\<forall>d. dv = Some d \<or> df = Some d \<longrightarrow> (\<forall>i \<in> set (iter_aggregate d). i < hp_next h)"
    and ready: "insert_ready h g" and run: "placeholder g name ty dv df h = (r, h')"
  shows "heap_ok h'"
proof -
  consider "h' = h" | "create_node g ''placeholder'' (TStr name) [] [] (Some name) ty h = (r, h')"
    | d q h1 where "dv = Some d \<or> df = Some d" "create_node g ''placeholder'' (TStr name) [d] [] (Some name) ty h = (q, h1)"
        "(r, h') = (case q of Inl e \<Rightarrow> (Inl e, h1) | Inr n \<Rightarrow> (Inr n, upd_node n (n_meta_update (AList.update ''default'' d)) h1))"
    using run by (cases "\<exists>d. dv = Some d \<or> df = Some d"; cases df; cases dv)
      (auto simp: placeholder_def hbind_def split: if_split_asm prod.splits sum.splits)
  then show ?thesis
  proof cases
    case 2
    show ?thesis by (rule create_node_any[OF ok _ ready 2]) (simp add: args_nodes_def)
  next
    case 3
    have a: "\<forall>i \<in> set (args_nodes [d] []). i < hp_next h" using args 3(1) by (auto simp: args_nodes_def)
    show ?thesis
    proof (cases q)
      case (Inl e)
      then show ?thesis using create_node_any[OF ok a ready 3(2)] 3(3) by simp
    next
      case (Inr n)
      note c = create_node_ok[OF ok a 3(2)[unfolded Inr]]
      have "heap_ok (upd_node n (n_meta_update (AList.update ''default'' d)) h1)" by (rule heap_ok_meta[OF c(1)]) (simp add: c(3))
      then show ?thesis using 3(3) Inr by simp
    qed
  qed (use ok in simp)
qed

lemma move_node_any:
  assumes ok: "heap_ok h" and run: "move_node offset self n h = (r, h')"
  shows "heap_ok h'"
proof (cases r)
  case (Inl e)
  have "h' = h"
  proof (rule ccontr)
    assume "h' \<noteq> h"
    then obtain g where g: "n_graph (hp_node h self) = Some g" "n \<noteq> self" "list_index (remove1 n (nodes_of h g)) self = None"
      using run Inl by (auto simp: move_node_def Let_def split: if_split_asm option.split_asm)
    then have "self \<in> set (remove1 n (nodes_of h g))" using heap_ok_graph[OF ok, of self g] by simp
    then show False using g(3) by (simp add: list_index_def map_of_zip_is_None del: map_of_eq_None_iff)
  qed
  then show ?thesis using ok by simp
next
  case (Inr u)
  then show ?thesis using move_node_ok[OF ok] run by blast
qed

lemma rename_any: "heap_ok h \<Longrightarrow> rename n new_name h = (r, h') \<Longrightarrow> heap_ok h'"
  using rename_ok[of h n new_name _ h'] by (cases r) (auto simp: rename_def split: option.split_asm if_split_asm prod.split_asm)

lemma erase_any: "heap_ok h \<Longrightarrow> graph_erase_node g n h = (r, h') \<Longrightarrow> heap_ok h'"
  using remove_node_any[of h g n r h'] by (auto simp: graph_erase_node_def split: if_split_asm)

lemma insert_points_any:
  "heap_ok h \<Longrightarrow> inserting_before g a h = (r, h') \<Longrightarrow> heap_ok h'" "heap_ok h \<Longrightarrow> inserting_after g a h = (r, h') \<Longrightarrow> heap_ok h'"
  by (auto simp: inserting_before_def inserting_after_def insert_point_def split: option.split_asm if_split_asm)

subsection \<open>Reachable stores\<close>

text \<open>One step of a program that works on graphs through their interface; the call may return or raise. Arguments refer to existing
  nodes. Writes of the whole node list are reorderings. Two kinds of calls are not steps because they break the invariant: the mutators
  \<open>graph.nodes.remove\<close>, \<open>pop\<close> and \<open>del\<close> of the list itself, and a creation at an insertion point whose anchor has been erased, which is what
  \<open>insert_ready\<close> excludes.\<close>

inductive graph_step :: "heap \<Rightarrow> heap \<Rightarrow> bool" where
  new_graph: "nodes_of h g = [] \<Longrightarrow> graph_step h (upd_graph g (\<lambda>_. new_graph owner) h)"
| create: "\<forall>i \<in> set (args_nodes args kwargs). i < hp_next h \<Longrightarrow> insert_ready h g \<Longrightarrow>
    create_node g op target args kwargs name ty h = (r, h') \<Longrightarrow> graph_step h h'"
| new_placeholder: "\<forall>d. dv = Some d \<or> df = Some d \<longrightarrow> (\<forall>i \<in> set (iter_aggregate d). i < hp_next h) \<Longrightarrow> insert_ready h g \<Longrightarrow>
    placeholder g nm ty dv df h = (r, h') \<Longrightarrow> graph_step h h'"
| new_output: "\<forall>i \<in> set (iter_aggregate res). i < hp_next h \<Longrightarrow> insert_ready (snd (remove_nodes g (outputs h g) h)) g \<Longrightarrow>
    graph_output g res ty h = (r, h') \<Longrightarrow> graph_step h h'"
| erase: "graph_erase_node g n h = (u, h') \<Longrightarrow> graph_step h h'"
| write_args: "n < hp_next h \<Longrightarrow> \<forall>i \<in> set (args_nodes args kwargs). i < hp_next h \<Longrightarrow> graph_step h (update_args_kwargs n args kwargs h)"
| replace_input: "replace_input_with n old new h = (u, h') \<Longrightarrow> graph_step h h'"
| replace_all_uses: "replace_all_uses_with n new cb propagate h = (ns, h') \<Longrightarrow> graph_step h h'"
| move_before: "node_prepend self n h = (u, h') \<Longrightarrow> graph_step h h'"
| move_after: "node_append self n h = (u, h') \<Longrightarrow> graph_step h h'"
| rename_node: "rename n new_name h = (u, h') \<Longrightarrow> graph_step h h'"
| write_op: "n_graph (hp_node h n) = Some g \<Longrightarrow> graph_step h (set_op n op h)"
| write_target: "n_graph (hp_node h n) = Some g \<Longrightarrow> graph_step h (set_target n target h)"
| write_meta: "n < hp_next h \<Longrightarrow> graph_step h (upd_node n (n_meta_update f) h)"
| reorder: "mset ns = mset (nodes_of h g) \<Longrightarrow> graph_step h (set_nodes g ns h)"
| before: "inserting_before g a h = (saved, h') \<Longrightarrow> graph_step h h'"
| after: "inserting_after g a h = (saved, h') \<Longrightarrow> graph_step h h'"
| leave: "graph_step h (insert_point_exit g saved h)"

inductive_cases graph_stepE: "graph_step h h'"

lemma retargets_op: "retargets (n_op_update f)" and retargets_target: "retargets (n_target_update f2)"
  by (simp_all add: retargets_def same_links_def)

lemma heap_ok_new_graph:
  assumes "heap_ok h" and "nodes_of h g = []"
  shows "heap_ok (upd_graph g (\<lambda>_. new_graph owner) h)"
proof -
  let ?h = "upd_graph g (\<lambda>_. new_graph owner) h"
  have none: "n_graph (hp_node h n) \<noteq> Some g" for n using heap_ok_graph[OF assms(1), of n g] assms(2) by simp
  have "book_ok {} ?h g'" for g'
    using heap_ok_sel(2)[OF assms(1), of g'] none
    by (cases "g' = g") (auto simp: book_ok_def Let_def new_graph_def index_of_def lookup_ok_def empty_lookup_def)
  moreover have "names_ok ?h g'" for g'
    using heap_ok_sel(3)[OF assms(1), of g'] by (cases "g' = g") (auto simp: names_ok_def new_graph_def empty_namespace_def)
  moreover have "links_ok ?h" using heap_ok_sel(1)[OF assms(1)] by (simp add: links_ok_def)
  ultimately show ?thesis by (simp add: heap_ok_def)
qed

lemma graph_step_ok: "graph_step h h' \<Longrightarrow> heap_ok h \<Longrightarrow> heap_ok h'"
proof (induction rule: graph_step.induct)
  case (reorder ns h g)
  then have "distinct ns" "set ns = set (nodes_of h g)"
    using book_ok_sel(1)[OF heap_ok_sel(2)[OF reorder(2)]] by (metis mset_eq_imp_distinct_iff, metis mset_eq_setD)
  then show ?case unfolding set_nodes_def using replace_list_ok[OF reorder(2)] by simp
next
  case (replace_all_uses n new cb propagate h ns h')
  then show ?case using replace_all_uses_with_ok by blast
qed (auto simp: node_prepend_def node_append_def set_op_def set_target_def insert_point_exit_def retargets_op retargets_target heap_ok_new_graph
  intro: create_node_any placeholder_any graph_output_any erase_any update_args_kwargs_ok replace_input_with_ok move_node_any rename_any set_tracked_ok
    heap_ok_meta insert_points_any)

definition empty_heap :: heap where
  "empty_heap = \<lparr>hp_node = (\<lambda>_. blank_node), hp_graph = (\<lambda>_. new_graph None), hp_next = 0, hp_side_effectful = [0, 1, 2]\<rparr>"

lemma empty_heap_ok: "heap_ok empty_heap"
  by (simp add: heap_ok_def links_ok_def book_ok_def names_ok_def Let_def empty_heap_def new_graph_def empty_namespace_def
    index_of_def lookup_ok_def empty_lookup_def args_nodes_def)

lemma reachable_heap_ok: "graph_step\<^sup>*\<^sup>* empty_heap h \<Longrightarrow> heap_ok h"
  by (induction rule: rtranclp_induct) (auto simp: empty_heap_ok intro: graph_step_ok)

subsection \<open>Property\<close>

text \<open>C7: In every store reached from the empty one by new graphs, creation of nodes, placeholders and outputs, erasure, writes of arguments, replacement of inputs
  and of all uses, moves, renames, writes of operation, target and metadata, reorderings of the node list and insertion points, whether these calls return or raise, for
  every graph: the list has no duplicates and the index gives every position; a node names the graph exactly when it is in the list; sort
  keys increase along the list; live names and lookup table are those of the listed nodes; names are unique and reserved; and users are exactly
  the nodes whose arguments mention a node. Two kinds of calls are excepted, because they break this: removal of nodes through the list itself, and creation where the anchor of
  the insertion point was erased.\<close>

theorem reachable_graphs_consistent:
  assumes "graph_step\<^sup>*\<^sup>* empty_heap h"
  shows "heap_ok h"
  using assms by (rule reachable_heap_ok)

theorem reachable_graphs_consistent_witness:
  "heap_ok (snd (create_node 0 ''placeholder'' (TStr ''x'') [] [] (Some ''x'') ANone empty_heap))"
proof -
  let ?r = "create_node 0 ''placeholder'' (TStr ''x'') [] [] (Some ''x'') ANone empty_heap"
  have "fst ?r = Inr 0" by code_simp
  then have "?r = (Inr 0, snd ?r)" by (metis prod.collapse)
  then have "graph_step empty_heap (snd ?r)"
    by (rule graph_step.create[rotated 2]) (simp_all add: args_nodes_def insert_ready_def empty_heap_def new_graph_def)
  then show ?thesis by (intro reachable_graphs_consistent r_into_rtranclp)
qed

end
