(* ===== verification/GraphChecks.thy ===== *)
theory GraphChecks
  imports GraphInvariant
begin

text \<open>
  What the queries and rewrites of a consistent graph do: the check \<open>lint\<close>, the lookup of nodes, the order and the neighbours of nodes,
  replacing all uses of a node, and two places where the bookkeeping goes wrong. A small graph at the end serves as the example.
\<close>

subsection \<open>References of a node\<close>

definition node_refs :: "heap \<Rightarrow> nid \<Rightarrow> nid list" where
  "node_refs h n = concat (map iter_nodes (n_args (hp_node h n))) @ concat (map (\<lambda>kv. iter_nodes (snd kv)) (n_kwargs (hp_node h n)))"

lemma node_refs_args_nodes: "node_refs h n = args_nodes (n_args (hp_node h n)) (n_kwargs (hp_node h n))"
proof -
  have "iter_nodes = iter_aggregate" by (simp add: fun_eq_iff iter_nodes_aggregate)
  then show ?thesis by (simp add: node_refs_def args_nodes_def)
qed

lemma links_refs: "links_ok h \<Longrightarrow> set (node_refs h n) = set (n_input_nodes (hp_node h n))"
  by (simp add: node_refs_args_nodes links_input)


subsection \<open>The check of a graph\<close>

definition precedes :: "nid list \<Rightarrow> nid \<Rightarrow> nid \<Rightarrow> bool" where
  "precedes ns i n \<longleftrightarrow> (\<exists>p q. p < q \<and> q < length ns \<and> ns ! p = i \<and> ns ! q = n)"

text \<open>Every input comes earlier in the list than its user.\<close>

definition topological :: "heap \<Rightarrow> nid list \<Rightarrow> bool" where
  "topological h ns \<longleftrightarrow> (\<forall>n \<in> set ns. \<forall>i \<in> set (n_input_nodes (hp_node h n)). precedes ns i n)"

lemma precedes_index:
  assumes "distinct ns" and "p < length ns" and "q < length ns"
  shows "precedes ns (ns ! p) (ns ! q) \<longleftrightarrow> p < q"
proof
  assume "precedes ns (ns ! p) (ns ! q)"
  then obtain p' q' where "p' < q'" "q' < length ns" "ns ! p' = ns ! p" "ns ! q' = ns ! q" by (auto simp: precedes_def)
  then have "p' = p" "q' = q" using assms nth_eq_iff_index_eq[of ns p' p] nth_eq_iff_index_eq[of ns q' q] by auto
  then show "p < q" using \<open>p' < q'\<close> by simp
next
  assume "p < q"
  then show "precedes ns (ns ! p) (ns ! q)" using assms(3) by (auto simp: precedes_def)
qed

lemma precedes_in: "precedes ns i n \<Longrightarrow> i \<in> set ns \<and> n \<in> set ns"
  by (force simp: precedes_def)

lemma precedes_snoc:
  assumes "x \<notin> set ns"
  shows "precedes (ns @ [x]) i n \<longleftrightarrow> precedes ns i n \<or> (n = x \<and> i \<in> set ns)"
proof
  assume "precedes (ns @ [x]) i n"
  then obtain p q where pq: "p < q" "q < Suc (length ns)" "(ns @ [x]) ! p = i" "(ns @ [x]) ! q = n" by (auto simp: precedes_def)
  then have p: "p < length ns" by simp
  then have "ns ! p = i" using pq(3) by (simp add: nth_append)
  then show "precedes ns i n \<or> (n = x \<and> i \<in> set ns)"
  proof (cases "q = length ns")
    case True
    then show ?thesis using pq(4) p \<open>ns ! p = i\<close> by auto
  next
    case False
    then have "q < length ns" "ns ! q = n" using pq by (auto simp: nth_append)
    then show ?thesis using pq(1) \<open>ns ! p = i\<close> by (auto simp: precedes_def)
  qed
next
  assume "precedes ns i n \<or> (n = x \<and> i \<in> set ns)"
  then show "precedes (ns @ [x]) i n"
  proof
    assume "precedes ns i n"
    then obtain p q where "p < q" "q < length ns" "ns ! p = i" "ns ! q = n" by (auto simp: precedes_def)
    then show ?thesis unfolding precedes_def by (intro exI[of _ p] exI[of _ q]) (auto simp: nth_append)
  next
    assume "n = x \<and> i \<in> set ns"
    then obtain p where "p < length ns" "ns ! p = i" "n = x" by (auto simp: in_set_conv_nth)
    then show ?thesis unfolding precedes_def by (intro exI[of _ p] exI[of _ "length ns"]) (auto simp: nth_append)
  qed
qed

lemma topological_snoc:
  assumes "x \<notin> set ns"
  shows "topological h (ns @ [x]) \<longleftrightarrow> topological h ns \<and> set (n_input_nodes (hp_node h x)) \<subseteq> set ns"
  using precedes_in[of ns] assms by (auto simp: topological_def precedes_snoc[OF assms])

lemma topological_inputs: "topological h ns \<Longrightarrow> n \<in> set ns \<Longrightarrow> set (n_input_nodes (hp_node h n)) \<subseteq> set ns"
  by (auto simp: topological_def dest: precedes_in)

text \<open>Dropping nodes that the rest does not need keeps the order.\<close>

lemma topological_filter:
  assumes "topological h ns" and "distinct ns" and "\<And>n. n \<in> set ns \<Longrightarrow> P n \<Longrightarrow> \<forall>i \<in> set (n_input_nodes (hp_node h n)). P i"
    and "\<And>n. n \<in> set ns \<Longrightarrow> P n \<Longrightarrow> n_input_nodes (hp_node h' n) = n_input_nodes (hp_node h n)"
  shows "topological h' (filter P ns)"
  using assms
proof (induction ns rule: rev_induct)
  case (snoc n ns)
  have n: "n \<notin> set ns" using snoc.prems(2) by simp
  then have t: "topological h ns" "set (n_input_nodes (hp_node h n)) \<subseteq> set ns" using snoc.prems(1) by (simp_all add: topological_snoc)
  have IH: "topological h' (filter P ns)" by (rule snoc.IH[OF t(1)]) (use snoc.prems in auto)
  show ?case
  proof (cases "P n")
    case True
    have "set (n_input_nodes (hp_node h' n)) \<subseteq> set (filter P ns)" using t(2) True snoc.prems(3,4)[of n] by auto
    then show ?thesis using IH True n by (simp add: topological_snoc)
  qed (use IH in simp)
qed (simp add: topological_def)

lemma lint_inputs_eq:
  assumes "heap_ok h" and "n \<in> set (nodes_of h g)"
  shows "lint_inputs h g n is = (if \<forall>i \<in> set is. precedes (nodes_of h g) i n then Inr () else Inl GraphCaptureError)"
proof (induction "is")
  case (Cons i "is")
  note b = heap_ok_sel(2)[OF assms(1), of g]
  have d: "distinct (nodes_of h g)" and ix: "g_index (hp_graph h g) = index_of (nodes_of h g)" using book_ok_sel(1,2)[OF b] by auto
  obtain q where q: "q < length (nodes_of h g)" "nodes_of h g ! q = n" using assms(2) by (auto simp: in_set_conv_nth)
  then have iq: "index_of (nodes_of h g) n = Some q" using index_of_Some[OF d] by blast
  show ?case
  proof (cases "n_graph (hp_node h i) = Some g")
    case True
    then obtain p where p: "p < length (nodes_of h g)" "nodes_of h g ! p = i" using heap_ok_graph[OF assms(1), of i g] by (auto simp: in_set_conv_nth)
    then have ip: "index_of (nodes_of h g) i = Some p" using index_of_Some[OF d] by blast
    show ?thesis using True Cons.IH precedes_index[OF d p(1) q(1)] p(2) q(2) by (simp add: ix iq ip not_le)
  next
    case False
    then have "\<not> precedes (nodes_of h g) i n" using heap_ok_graph[OF assms(1)] precedes_in by blast
    then show ?thesis using False by simp
  qed
qed simp

lemma lint_nodes_eq:
  assumes "heap_ok h" and "set ns \<subseteq> set (nodes_of h g)"
  shows "lint_nodes h g ns =
    (if \<forall>n \<in> set ns. \<forall>i \<in> set (n_input_nodes (hp_node h n)). precedes (nodes_of h g) i n then Inr () else Inl GraphCaptureError)"
  using assms(2)
proof (induction ns)
  case (Cons n ns)
  then have n: "n \<in> set (nodes_of h g)" and gr: "n_graph (hp_node h n) = Some g" using heap_ok_graph[OF assms(1), of n g] by auto
  have "lint_inputs h g n (node_refs h n) = (if \<forall>i \<in> set (n_input_nodes (hp_node h n)). precedes (nodes_of h g) i n then Inr () else Inl GraphCaptureError)"
    using lint_inputs_eq[OF assms(1) n, of "node_refs h n"] links_refs[OF heap_ok_sel(1)[OF assms(1)]] by simp
  then show ?case using Cons gr by (simp add: node_refs_def[symmetric])
qed simp

lemma lint_eq:
  assumes "heap_ok h"
  shows "lint h g = (if topological h (nodes_of h g) \<and> length (outputs h g) \<le> 1 then Inr () else Inl GraphCaptureError)"
  by (simp add: lint_def lint_nodes_eq[OF assms subset_refl] topological_def)


text \<open>A node is created whenever its operation and target are legal and the insertion function finds its place.\<close>

lemma create_node_succeeds:
  assumes ok: "heap_ok h" and args: "\<forall>i \<in> set (args_nodes args kwargs). i < hp_next h" and op: "op \<in> set legal_ops"
    and tgt: "if op = ''call_function'' then is_callable target else is_str_target target"
    and ins: "\<And>h1. g_insert (hp_graph h1 g) = g_insert (hp_graph h g) \<Longrightarrow> nodes_of h1 g = nodes_of h g \<Longrightarrow> fst (run_insert g (hp_next h) h1) = Inr ()"
  shows "\<exists>h1 ns. create_node g op target args kwargs name ty h = (Inr (hp_next h), set_namespace g ns (snd (run_insert g (hp_next h) h1))) \<and>
    nodes_of h1 g = nodes_of h g \<and> g_insert (hp_graph h1 g) = g_insert (hp_graph h g)"
proof -
  let ?nm = "fresh_name (ns_used_names (g_namespace (hp_graph h g))) (case name of Some s \<Rightarrow> s | None \<Rightarrow> target_to_str target)"
  let ?ns = "ns_use (g_namespace (hp_graph h g)) ?nm" let ?n = "hp_next h"
  obtain h1 where init: "node_init g ?nm op target args kwargs ty (set_namespace g ?ns h) = (Inr ?n, h1)"
    using op tgt by (simp add: node_init_def Let_def heap_simps split: if_split_asm)
  have l0: "links_ok (set_namespace g ?ns h)" "\<forall>i \<in> set (args_nodes args kwargs). i < hp_next (set_namespace g ?ns h)"
    using heap_ok_sel(1)[OF ok] args by (simp_all add: heap_simps)
  note i = node_init_spec[OF l0 init] and p = pending_ok[OF ok args init]
  let ?hb = "bump_sort_key g ?n h1" define h2 where "h2 = snd (run_insert g ?n ?hb)"
  have gi: "g_insert (hp_graph ?hb g) = g_insert (hp_graph h g)" "nodes_of ?hb g = nodes_of h g" by (simp_all add: bump_sort_key_def i(3) heap_simps)
  have ins2: "run_insert g ?n ?hb = (Inr (), h2)" using ins[OF gi] by (simp add: h2_def prod_eq_iff)
  have "mounted ?hb g ?n h2"
    by (rule run_insert_mounted[OF p(1,2) _ _ ins2]) (simp_all add: heap_simps i(2,6))
  then have "g_namespace (hp_graph h2 g) = ?ns" by (simp add: mounted_def heap_simps i(3))
  moreover have "ns_obj_to_name (g_namespace (hp_graph h g)) ?n = None" using heap_ok_sel(3)[OF ok, of g] by (simp add: names_ok_def)
  ultimately obtain ns where asc: "associate_name_with_obj (g_namespace (hp_graph h2 g)) (n_name (hp_node h2 ?n)) (Hashable ?n) = Inr ns"
    by (simp add: associate_name_with_obj_def ns_use_def)
  have "mount_node g ?n h1 = (Inr ?n, set_namespace g ns h2)"
    by (simp add: mount_node_def hbind_def hdo_def ins2 asc)
  then have "create_node g op target args kwargs name ty h = (Inr ?n, set_namespace g ns h2)"
    using op init by (simp add: create_node_def create_name_None Let_def hbind_def)
  then show ?thesis using gi unfolding h2_def by blast
qed

lemma create_node_append:
  assumes ok: "heap_ok h" and args: "\<forall>i \<in> set (args_nodes args kwargs). i < hp_next h" and op: "op \<in> set legal_ops"
    and tgt: "if op = ''call_function'' then is_callable target else is_str_target target" and ins: "g_insert (hp_graph h g) = AppendNode"
  shows "\<exists>h'. create_node g op target args kwargs name ty h = (Inr (hp_next h), h') \<and> nodes_of h' g = nodes_of h g @ [hp_next h] \<and>
    g_insert (hp_graph h' g) = AppendNode"
proof -
  have run: "run_insert g (hp_next h) h1 = (Inr (), list_append g (hp_next h) h1)" if "g_insert (hp_graph h1 g) = AppendNode" for h1
    using that by (simp add: run_insert_def)
  obtain h1 ns where h1: "create_node g op target args kwargs name ty h = (Inr (hp_next h), set_namespace g ns (snd (run_insert g (hp_next h) h1)))"
    "nodes_of h1 g = nodes_of h g" "g_insert (hp_graph h1 g) = AppendNode"
    using create_node_succeeds[OF ok args op tgt, of g name ty] run ins by auto
  then show ?thesis using run[OF h1(3)] by (simp add: heap_simps)
qed

lemma create_node_after_succeeds:
  assumes ok: "heap_ok h" and args: "\<forall>i \<in> set (args_nodes args kwargs). i < hp_next h" and op: "op \<in> set legal_ops"
    and tgt: "if op = ''call_function'' then is_callable target else is_str_target target"
    and ins: "g_insert (hp_graph h g) = InsertAfter anchor p" and p: "p < length (nodes_of h g)"
  shows "\<exists>h'. create_node g op target args kwargs name ty h = (Inr (hp_next h), h')"
proof -
  have "fst (run_insert g (hp_next h) h1) = Inr ()" if "g_insert (hp_graph h1 g) = g_insert (hp_graph h g)" "nodes_of h1 g = nodes_of h g" for h1
    using that ins p by (simp add: run_insert_def after_position_def)
  then show ?thesis using create_node_succeeds[OF ok args op tgt, of g name ty] by blast
qed

subsection \<open>Queries\<close>

lemma sort_key_index:
  assumes "distinct ns" and "distinct xs" and "set xs = {n \<in> set ns. P n}"
  shows "sort_key (\<lambda>n. case index_of ns n of None \<Rightarrow> - 1 | Some i \<Rightarrow> int i) xs = filter P ns"
proof -
  let ?k = "\<lambda>n. case index_of ns n of None \<Rightarrow> - 1 | Some i \<Rightarrow> int i"
  have k: "i < length ns \<Longrightarrow> ?k (ns ! i) = int i" for i
    using index_of_Some[OF assms(1), of "ns ! i" i] by simp
  have inj: "inj_on ?k (set xs)"
  proof (rule inj_onI)
    fix a b assume ab: "a \<in> set xs" "b \<in> set xs" "?k a = ?k b"
    then obtain i j where "i < length ns" "ns ! i = a" "j < length ns" "ns ! j = b" using assms(3) by (auto simp: in_set_conv_nth)
    then show "a = b" using k[of i] k[of j] ab(3) by auto
  qed
  have "map ?k ns = map int [0..<length ns]" by (rule nth_equalityI) (simp_all add: k)
  then have "sorted (map ?k ns)" by (simp add: sorted_iff_nth_mono)
  then have "sorted (map ?k (filter P ns))" by (rule sorted_filter)
  moreover have m: "mset (filter P ns) = mset xs"
    by (rule set_eq_iff_mset_eq_distinct[THEN iffD1]) (use assms in auto)
  ultimately have "sort (map ?k xs) = map ?k (filter P ns)" "sort (map ?k xs) = map ?k (sort_key ?k xs)"
    by (intro properties_for_sort; simp only: mset_map mset_sort sorted_sort_key)+
  then have e: "map ?k (sort_key ?k xs) = map ?k (filter P ns)" by simp
  show ?thesis by (rule map_inj_on[OF e]) (use inj assms(3) in \<open>auto simp: inj_on_def\<close>)
qed

text \<open>The lookup table answers like a scan of the list.\<close>

definition scan_nodes :: "heap \<Rightarrow> gid \<Rightarrow> string option \<Rightarrow> target option \<Rightarrow> nid list" where
  "scan_nodes h g op tgt =
     filter (\<lambda>n. (op = None \<or> op = Some (n_op (hp_node h n))) \<and> (tgt = None \<or> tgt = Some (n_target (hp_node h n)))) (nodes_of h g)"

lemma find_nodes_scan:
  assumes "heap_ok h"
  shows "find_nodes h g op tgt True = scan_nodes h g op tgt"
proof -
  note b = heap_ok_sel(2)[OF assms, of g]
  have d: "distinct (nodes_of h g)" and ix: "g_index (hp_graph h g) = index_of (nodes_of h g)" using book_ok_sel(1,2)[OF b] by auto
  have lk: "lookup_ok (hp_node h) (nodes_of h g) (g_lookup (hp_graph h g))" by (rule book_ok_sel(6)[OF b])
  define xs where "xs = find_nodes h g op tgt False"
  have "distinct xs \<and> set xs = {n \<in> set (nodes_of h g). (op = None \<or> op = Some (n_op (hp_node h n))) \<and> (tgt = None \<or> tgt = Some (n_target (hp_node h n)))}"
  proof (cases op)
    case None
    then show ?thesis using d by (auto simp: xs_def find_nodes_def)
  next
    case (Some k)
    show ?thesis
    proof (cases tgt)
      case None
      then show ?thesis using Some lk by (auto simp: xs_def find_nodes_def lookup_find_def lookup_ok_def)
    next
      case (Some t)
      then show ?thesis using \<open>op = Some k\<close> lk
        by (cases "k = ''call_function''") (auto simp: xs_def find_nodes_def lookup_find_def lookup_ok_def lookup_key_of_def)
    qed
  qed
  moreover have "find_nodes h g op tgt True = sort_key (\<lambda>n. case index_of (nodes_of h g) n of None \<Rightarrow> - 1 | Some i \<Rightarrow> int i) xs"
    by (simp add: xs_def find_nodes_def Let_def ix)
  ultimately show ?thesis unfolding scan_nodes_def using sort_key_index[OF d, of xs] by simp
qed

text \<open>The order of nodes is their order in the list.\<close>

lemma node_lt_position:
  assumes "heap_ok h" and "i < length (nodes_of h g)" and "j < length (nodes_of h g)"
  shows "node_lt h (nodes_of h g ! i) (nodes_of h g ! j) \<longleftrightarrow> i < j"
proof -
  let ?ns = "nodes_of h g" let ?key = "\<lambda>n. the (n_sort_key (hp_node h n))"
  have s: "sorted_wrt (<) (map ?key ?ns)" and k: "\<forall>n \<in> set ?ns. n_sort_key (hp_node h n) \<noteq> None"
    using heap_ok_sel(2)[OF assms(1), of g] by (auto simp: book_ok_def Let_def)
  have e: "node_lt h (?ns ! i) (?ns ! j) \<longleftrightarrow> ?key (?ns ! i) < ?key (?ns ! j)"
  proof -
    obtain a b where "n_sort_key (hp_node h (?ns ! i)) = Some a" "n_sort_key (hp_node h (?ns ! j)) = Some b"
      using k nth_mem[OF assms(2)] nth_mem[OF assms(3)] by blast
    then show ?thesis by (simp add: node_lt_def)
  qed
  have "a < b \<Longrightarrow> b < length ?ns \<Longrightarrow> ?key (?ns ! a) < ?key (?ns ! b)" for a b
    using s by (auto simp: sorted_wrt_iff_nth_less)
  from this[of i j] this[of j i] show ?thesis unfolding e using assms(2,3) by (cases i j rule: linorder_cases) auto
qed

text \<open>Neighbours.\<close>

lemma node_next_position:
  assumes "heap_ok h" and "i < length (nodes_of h g)"
  shows "node_next h (nodes_of h g ! i) = (if Suc i < length (nodes_of h g) then Some (nodes_of h g ! Suc i) else None)"
    "node_prev h (nodes_of h g ! i) = Inr (if i = 0 then None else Some (nodes_of h g ! (i - 1)))"
proof -
  have gr: "n_graph (hp_node h (nodes_of h g ! i)) = Some g" using heap_ok_graph[OF assms(1)] assms(2) by (metis nth_mem)
  have ix: "g_index (hp_graph h g) (nodes_of h g ! i) = Some i"
    using book_ok_sel(1,2)[OF heap_ok_sel(2)[OF assms(1), of g]] index_of_Some assms(2) by metis
  show "node_next h (nodes_of h g ! i) = (if Suc i < length (nodes_of h g) then Some (nodes_of h g ! Suc i) else None)"
    by (simp add: node_next_def gr ix)
  show "node_prev h (nodes_of h g ! i) = Inr (if i = 0 then None else Some (nodes_of h g ! (i - 1)))"
    using assms(2) by (auto simp: node_prev_def gr ix py_nth_def nat_diff_distrib)
qed

subsection \<open>Replacing all uses\<close>

definition rewrite_uses :: "nid \<Rightarrow> nid \<Rightarrow> nid list \<Rightarrow> heap \<Rightarrow> heap" where
  "rewrite_uses old new us h = fold (\<lambda>u h. snd (replace_input_unchecked u old new h)) us h"

lemma rewrite_uses_sel:
  "hp_graph (rewrite_uses old new us h) = hp_graph h" "hp_next (rewrite_uses old new us h) = hp_next h"
  by (induction us arbitrary: h) (auto simp: rewrite_uses_def replace_input_unchecked_eq heap_simps)

lemma rewrite_uses_args:
  assumes "distinct us"
  shows "n_args (hp_node (rewrite_uses old new us h) m) =
      (if m \<in> set us then map (subst_arg (rename_of old new)) (n_args (hp_node h m)) else n_args (hp_node h m)) \<and>
    n_kwargs (hp_node (rewrite_uses old new us h) m) =
      (if m \<in> set us then map (\<lambda>kv. (fst kv, subst_arg (rename_of old new) (snd kv))) (n_kwargs (hp_node h m)) else n_kwargs (hp_node h m)) \<and>
    same_header (hp_node (rewrite_uses old new us h) m) (hp_node h m)"
  using assms
proof (induction us arbitrary: h)
  case Nil
  then show ?case by (simp add: rewrite_uses_def same_header_def)
next
  case (Cons u us)
  let ?h = "snd (replace_input_unchecked u old new h)"
  have e: "rewrite_uses old new (u # us) h = rewrite_uses old new us ?h" by (simp add: rewrite_uses_def)
  have "n_args (hp_node ?h m) = (if m = u then map (subst_arg (rename_of old new)) (n_args (hp_node h m)) else n_args (hp_node h m))"
    "n_kwargs (hp_node ?h m) = (if m = u then map (\<lambda>kv. (fst kv, subst_arg (rename_of old new) (snd kv))) (n_kwargs (hp_node h m)) else n_kwargs (hp_node h m))"
    by (simp_all add: replace_input_unchecked_eq update_args_kwargs_node Let_def)
  moreover have "same_header (hp_node ?h m) (hp_node h m)" by (simp add: replace_input_unchecked_eq update_args_kwargs_header)
  ultimately show ?case using Cons.IH[of ?h] Cons.prems unfolding e by (auto simp: same_header_def)
qed

lemma rewrite_uses_ok:
  assumes "heap_ok h" and "new < hp_next h" and "\<forall>u \<in> set us. u < hp_next h"
  shows "heap_ok (rewrite_uses old new us h)"
  using assms
proof (induction us arbitrary: h)
  case (Cons u us)
  obtain h1 where h1: "replace_input_unchecked u old new h = (Inr (), h1)" by (simp add: replace_input_unchecked_eq)
  have u: "u < hp_next h" using Cons.prems by simp
  note o = replace_input_unchecked_ok[OF Cons.prems(1,2) u h1]
  show ?case using Cons.IH[OF o(1)] Cons.prems o(2) by (simp add: rewrite_uses_def h1)
qed (simp add: rewrite_uses_def)

lemma replace_uses_eq:
  assumes "\<And>u. u \<in> set us \<Longrightarrow> later u \<longleftrightarrow> \<not> (case positions new of None \<Rightarrow> False | Some p \<Rightarrow> (case positions u of None \<Rightarrow> True | Some q \<Rightarrow> q \<le> p))"
  shows "replace_uses None positions old new us res h =
    (if takeWhile later us = us then Inr (res @ us) else Inl GraphCaptureError, rewrite_uses old new (takeWhile later us) h)"
  using assms
proof (induction us arbitrary: res h)
  case (Cons u us)
  show ?case
  proof (cases "later u")
    case True
    then have "\<not> (case positions new of None \<Rightarrow> False | Some p \<Rightarrow> (case positions u of None \<Rightarrow> True | Some q \<Rightarrow> q \<le> p))" using Cons.prems[of u] by simp
    then show ?thesis using Cons.IH[of "res @ [u]"] Cons.prems True by (simp add: replace_input_unchecked_eq rewrite_uses_def)
  next
    case False
    then have "(case positions new of None \<Rightarrow> False | Some p \<Rightarrow> (case positions u of None \<Rightarrow> True | Some q \<Rightarrow> q \<le> p))" using Cons.prems[of u] by simp
    then show ?thesis using False by (simp add: rewrite_uses_def)
  qed
qed (simp add: rewrite_uses_def)

lemma later_precedes:
  assumes "heap_ok h" and "new \<in> set (nodes_of h g)"
  shows "precedes (nodes_of h g) new u \<longleftrightarrow>
    \<not> (case g_index (hp_graph h g) new of None \<Rightarrow> False | Some p \<Rightarrow> (case g_index (hp_graph h g) u of None \<Rightarrow> True | Some q \<Rightarrow> q \<le> p))"
proof -
  have d: "distinct (nodes_of h g)" and ix: "g_index (hp_graph h g) = index_of (nodes_of h g)" using book_ok_sel(1,2)[OF heap_ok_sel(2)[OF assms(1)]] by auto
  obtain p where p: "p < length (nodes_of h g)" "nodes_of h g ! p = new" using assms(2) by (auto simp: in_set_conv_nth)
  show ?thesis
  proof (cases "u \<in> set (nodes_of h g)")
    case True
    then obtain q where q: "q < length (nodes_of h g)" "nodes_of h g ! q = u" by (auto simp: in_set_conv_nth)
    have "index_of (nodes_of h g) new = Some p" "index_of (nodes_of h g) u = Some q" using p q by (simp_all add: index_of_Some[OF d])
    then show ?thesis using precedes_index[OF d p(1) q(1)] p(2) q(2) by (simp add: ix not_le)
  next
    case False
    have "index_of (nodes_of h g) new = Some p" using p by (simp add: index_of_Some[OF d])
    then show ?thesis using False precedes_in index_of_None[of "nodes_of h g" u] by (auto simp: ix)
  qed
qed

lemma replace_all_uses_with_eq:
  assumes "heap_ok h" and "n_graph (hp_node h n) = Some g" and "n_graph (hp_node h new) = Some g" and "new \<noteq> n"
  shows "replace_all_uses_with n new None False h =
    (let us = n_users (hp_node h n); ok = takeWhile (precedes (nodes_of h g) new) us
     in (if ok = us then Inr us else Inl GraphCaptureError, rewrite_uses n new ok h))"
proof -
  have "new \<in> set (nodes_of h g)" using heap_ok_graph[OF assms(1)] assms(3) by blast
  from replace_uses_eq[of "n_users (hp_node h n)" "precedes (nodes_of h g) new" "g_index (hp_graph h g)" new, OF later_precedes[OF assms(1) this]]
  show ?thesis using assms(2-) by (simp add: replace_all_uses_with_def Let_def)
qed

text \<open>A replacement that succeeds leaves no user behind and keeps the graph checked.\<close>

lemma replace_all_uses_with_done:
  assumes ok: "heap_ok h" and "replace_all_uses_with n new None False h = (Inr us, h')"
  shows "n_users (hp_node h' n) = []" "lint h g = Inr () \<Longrightarrow> lint h' g = Inr ()"
proof -
  obtain g0 where g: "n_graph (hp_node h n) = Some g0" "n_graph (hp_node h new) = Some g0" and ne: "new \<noteq> n"
    using assms(2) by (auto simp: replace_all_uses_with_def split: if_split_asm option.splits)
  let ?us = "n_users (hp_node h n)" let ?f = "rename_of n new"
  note e = replace_all_uses_with_eq[OF ok g ne]
  have all: "takeWhile (precedes (nodes_of h g0) new) ?us = ?us" using assms(2) unfolding e Let_def by (auto split: if_split_asm)
  have h': "h' = rewrite_uses n new ?us h" using assms(2) unfolding e Let_def all by auto
  have prec: "u \<in> set ?us \<Longrightarrow> precedes (nodes_of h g0) new u" for u using all by (metis takeWhile_eq_all_conv)
  have new: "new < hp_next h" by (rule graph_allocated[OF ok g(2)])
  have d: "distinct ?us" and lt: "\<forall>u \<in> set ?us. u < hp_next h"
    using links_distinct_users users_allocated heap_ok_sel(1)[OF ok] by (blast, blast)
  have ok': "heap_ok h'" unfolding h' by (rule rewrite_uses_ok[OF ok new lt])
  note l = heap_ok_sel(1)[OF ok] and l' = heap_ok_sel(1)[OF ok']
  have inp: "set (n_input_nodes (hp_node h' m)) = ?f ` set (n_input_nodes (hp_node h m))" for m
  proof (cases "m \<in> set ?us")
    case True
    then show ?thesis using rewrite_uses_args[OF d, of n new h m, folded h'] by (simp add: links_input[OF l] links_input[OF l'] args_nodes_subst)
  next
    case False
    then have "n \<notin> set (n_input_nodes (hp_node h m))" using links_users[OF l] by blast
    then have "?f ` set (n_input_nodes (hp_node h m)) = set (n_input_nodes (hp_node h m))" by (force simp: rename_of_def)
    then show ?thesis using rewrite_uses_args[OF d, of n new h m, folded h'] False by (simp add: links_input[OF l] links_input[OF l'])
  qed
  have "n \<notin> set (n_input_nodes (hp_node h' m))" for m unfolding inp using ne by (auto simp: rename_of_def split: if_split_asm)
  then show "n_users (hp_node h' n) = []" using links_users[OF l', of _ n] by (metis list.set_intros(1) neq_Nil_conv)
  assume "lint h g = Inr ()"
  then have t: "topological h (nodes_of h g)" and o: "length (outputs h g) \<le> 1" by (simp_all add: lint_eq[OF ok] split: if_split_asm)
  have nodes: "nodes_of h' g = nodes_of h g" by (simp add: h' rewrite_uses_sel)
  have "outputs h' g = outputs h g" unfolding outputs_def nodes
    by (rule filter_cong) (use rewrite_uses_args[OF d, of n new h] in \<open>simp_all add: h' same_header_def\<close>)
  moreover have "topological h' (nodes_of h' g)"
    unfolding topological_def nodes inp
  proof (intro ballI)
    fix m i assume m: "m \<in> set (nodes_of h g)" and "i \<in> ?f ` set (n_input_nodes (hp_node h m))"
    then obtain j where j: "j \<in> set (n_input_nodes (hp_node h m))" "i = ?f j" by blast
    show "precedes (nodes_of h g) i m"
    proof (cases "j = n")
      case True
      then have "m \<in> set ?us" using j(1) links_users[OF l] by blast
      moreover have "g = g0" using t m j(1) True g(1) heap_ok_graph[OF ok] precedes_in unfolding topological_def by (metis option.inject)
      ultimately show ?thesis using prec j(2) True by (simp add: rename_of_def)
    next
      case False
      then show ?thesis using t m j by (simp add: topological_def rename_of_def)
    qed
  qed
  ultimately show "lint h' g = Inr ()" using lint_eq[OF ok', of g] o by simp
qed

lemma erase_succeeds:
  assumes "heap_ok h" and "n_graph (hp_node h n) = Some g" and "n_users (hp_node h n) = []"
  shows "fst (graph_erase_node g n h) = Inr ()"
proof -
  have "n \<in> set (nodes_of h g)" using heap_ok_graph[OF assms(1)] assms(2) by blast
  then show ?thesis using assms(2,3) by (simp add: graph_erase_node_def remove_node_def Let_def fold_upd_node_sel)
qed

lemma replace_all_then_erase_aux:
  assumes "heap_ok h" and "replace_all_uses_with n new None False h = (Inr us, h')" and "n_graph (hp_node h n) = Some g" and "lint h g = Inr ()"
  shows "heap_ok h' \<and> lint h' g = Inr () \<and> n_users (hp_node h' n) = [] \<and> fst (graph_erase_node g n h') = Inr ()"
proof -
  note d = replace_all_uses_with_done[OF assms(1,2)] and o = replace_all_uses_with_ok[OF assms(1,2)]
  have "n \<in> set (nodes_of h' g)" using heap_ok_graph[OF assms(1), of n g] assms(3) o by simp
  then have "n_graph (hp_node h' n) = Some g" using heap_ok_graph[of h' n g] o by simp
  then show ?thesis using erase_succeeds[of h' n g] d o assms(4) by blast
qed

subsection \<open>Positions after a direct removal\<close>

lemma list_remove_sel:
  assumes "heap_ok h" and "n \<in> set (nodes_of h g)"
  shows "fst (list_remove g n h) = Inr ()" "nodes_of (snd (list_remove g n h)) g = remove1 n (nodes_of h g)"
    "m \<noteq> n \<Longrightarrow> g_index (hp_graph (snd (list_remove g n h)) g) m = index_of (nodes_of h g) m"
    "m \<noteq> n \<Longrightarrow> hp_node (snd (list_remove g n h)) m = hp_node h m"
  using assms(2) heap_ok_graph[OF assms(1), of n g] book_ok_sel(2)[OF heap_ok_sel(2)[OF assms(1)], of g]
  by (simp_all add: list_remove_def removed_def removed_one_def set_node_list_def Let_def)

lemma list_remove_stale:
  assumes ok: "heap_ok h" and ns: "nodes_of h g = pre @ n # m # k # rest"
  shows "fst (list_remove g n h) = Inr ()" "nodes_of (snd (list_remove g n h)) g = pre @ m # k # rest"
    "g_index (hp_graph (snd (list_remove g n h)) g) m = Some (Suc (length pre))"
    "node_next (snd (list_remove g n h)) m = (case rest of [] \<Rightarrow> None | r # _ \<Rightarrow> Some r)"
proof -
  let ?h = "snd (list_remove g n h)"
  have d: "distinct (pre @ n # m # k # rest)" using book_ok_sel(1)[OF heap_ok_sel(2)[OF ok, of g]] ns by simp
  have n: "n \<in> set (nodes_of h g)" "m \<noteq> n" "m \<in> set (nodes_of h g)" using ns d by auto
  note s = list_remove_sel[OF ok n(1)]
  show "fst (list_remove g n h) = Inr ()" by (rule s(1))
  show ns': "nodes_of ?h g = pre @ m # k # rest" using s(2) ns d by (auto simp: remove1_append)
  have "(pre @ n # m # k # rest) ! Suc (length pre) = m" by (simp add: nth_append)
  then have "index_of (pre @ n # m # k # rest) m = Some (Suc (length pre))" by (simp add: index_of_Some[OF d])
  then show ix: "g_index (hp_graph ?h g) m = Some (Suc (length pre))" using s(3)[OF n(2)] ns by simp
  have "n_graph (hp_node ?h m) = Some g" using s(4)[OF n(2)] heap_ok_graph[OF ok, of m g] n(3) by simp
  then show "node_next ?h m = (case rest of [] \<Rightarrow> None | r # _ \<Rightarrow> Some r)"
    by (simp add: node_next_def ix ns' nth_append split: list.split)
qed

subsection \<open>An insertion point behind an erased node\<close>

lemma remove_node_insert:
  assumes "remove_node g n h = (Inr u, h')"
  shows "g_insert (hp_graph h' g') = g_insert (hp_graph h g')"
proof -
  from assms obtain h1 h2 where
    h1: "h1 = fold (\<lambda>i. upd_node i (n_users_update (user_discard n))) (n_input_nodes (hp_node h n)) h" and
    h2: "h2 = replace_list g (remove1 n (nodes_of h g)) h1" and
    h': "h' = notify_owner_mutated g (clear_node n (set_namespace g (release_name (g_namespace (hp_graph h2 g)) (n_name (hp_node h2 n))) h2))"
    by (rule remove_node_steps)
  have "hp_graph h1 = hp_graph h" by (simp add: h1 fold_upd_node_sel)
  then show ?thesis by (cases "g' = g") (simp_all add: h' notify_owner_mutated_def heap_simps h2)
qed

lemma list_insert_nodes: "nodes_of (list_insert g p n h) g = take p (nodes_of h g) @ n # drop p (nodes_of h g)"
  by (simp add: list_insert_def heap_simps)

lemma create_node_after:
  assumes "heap_ok h" and "\<forall>i \<in> set (args_nodes args kwargs). i < hp_next h" and "g_insert (hp_graph h g) = InsertAfter anchor p"
    and "p < length (nodes_of h g)" and "create_node g op target args kwargs name ty h = (Inr n, h')"
  shows "nodes_of h' g = take p (nodes_of h g) @ n # drop p (nodes_of h g)"
proof -
  from assms(5) obtain h1 h2 nm ns where
    init: "node_init g nm op target args kwargs ty (set_namespace g (ns_use (g_namespace (hp_graph h g)) nm) h) = (Inr n, h1)" and
    ins: "run_insert g n (bump_sort_key g n h1) = (Inr (), h2)" and h': "h' = set_namespace g ns h2" by (rule create_node_steps)
  let ?h0 = "set_namespace g (ns_use (g_namespace (hp_graph h g)) nm) h"
  have l0: "links_ok ?h0" "\<forall>i \<in> set (args_nodes args kwargs). i < hp_next ?h0"
    using heap_ok_sel(1)[OF assms(1)] assms(2) by (simp_all add: heap_simps)
  note i = node_init_spec[OF l0 init] note q = pending_ok[OF assms(1,2) init]
  have "g_insert (hp_graph (bump_sort_key g n h1) g) = InsertAfter anchor p" by (simp add: bump_sort_key_def i(3) heap_simps assms(3))
  moreover have nb: "nodes_of (bump_sort_key g n h1) g = nodes_of h g" using q(4) by (simp add: heap_simps)
  ultimately have "h2 = upd_graph g (g_insert_update (\<lambda>_. InsertAfter anchor p)) (list_insert g p n (bump_sort_key g n h1))"
    using ins assms(4) by (simp add: run_insert_def after_position_def)
  then show ?thesis by (simp add: h' heap_simps list_insert_nodes q(4))
qed

lemma inserting_after_stale:
  assumes ok: "heap_ok h" and ns: "nodes_of h g = pre @ x # anchor # m # k # rest"
    and 1: "inserting_after g (Some anchor) h = (Inr saved, h1)" and 2: "remove_node g x h1 = (Inr u, h2)"
    and args: "\<forall>i \<in> set (args_nodes args kwargs). i < hp_next h" and 3: "create_node g op target args kwargs name ty h2 = (Inr n, h3)"
  shows "nodes_of h3 g = pre @ anchor # m # n # k # rest"
proof -
  have d: "distinct (pre @ x # anchor # m # k # rest)" using book_ok_sel(1)[OF heap_ok_sel(2)[OF ok, of g]] ns by simp
  have "(pre @ x # anchor # m # k # rest) ! Suc (length pre) = anchor" by (simp add: nth_append)
  then have "index_of (pre @ x # anchor # m # k # rest) anchor = Some (Suc (length pre))" by (simp add: index_of_Some[OF d])
  then have ix: "g_index (hp_graph h g) anchor = Some (Suc (length pre))" using book_ok_sel(2)[OF heap_ok_sel(2)[OF ok, of g]] ns by simp
  have h1: "h1 = upd_graph g (g_insert_update (\<lambda>_. InsertAfter anchor (Suc (Suc (length pre))))) h"
    using 1 ix by (auto simp: inserting_after_def insert_point_def split: if_split_asm)
  then have ok1: "heap_ok h1" using ok by simp
  have n2: "nodes_of h2 g = pre @ anchor # m # k # rest" "hp_next h2 = hp_next h"
    using remove_node_nodes(1,2)[OF ok1 2] ns d by (auto simp: h1 remove1_append)
  have "g_insert (hp_graph h2 g) = InsertAfter anchor (Suc (Suc (length pre)))" using remove_node_insert[OF 2, of g] by (simp add: h1)
  from create_node_after[OF remove_node_ok[OF ok1 2] _ this _ 3] args n2 show ?thesis by simp
qed

subsection \<open>A small graph\<close>

text \<open>Graphs built by appending nodes, as a list of operations, targets and arguments; used for examples.\<close>

definition built_from :: "heap \<Rightarrow> (string \<times> target \<times> arg list) list \<Rightarrow> bool" where
  "built_from h specs \<longleftrightarrow> heap_ok h \<and> g_insert (hp_graph h 0) = AppendNode \<and> g_owner (hp_graph h 0) = None \<and> hp_side_effectful h = [0, 1, 2] \<and>
     hp_next h = length specs \<and> nodes_of h 0 = [0..<length specs] \<and>
     (\<forall>i < length specs. n_op (hp_node h i) = fst (specs ! i) \<and> n_target (hp_node h i) = fst (snd (specs ! i)) \<and>
        n_args (hp_node h i) = snd (snd (specs ! i)) \<and> n_kwargs (hp_node h i) = [] \<and> n_meta (hp_node h i) = [])"

lemma built_empty: "built_from empty_heap []"
  using empty_heap_ok by (simp add: built_from_def) (simp add: empty_heap_def new_graph_def)

lemma built_step:
  assumes b: "built_from h specs" and "\<forall>i \<in> set (args_nodes args []). i < length specs" and op: "op \<in> set legal_ops"
    and tgt: "if op = ''call_function'' then is_callable t else is_str_target t"
  shows "fst (create_node 0 op t args [] name ty h) = Inr (length specs)"
    "built_from (snd (create_node 0 op t args [] name ty h)) (specs @ [(op, t, args)])"
proof -
  have ok: "heap_ok h" and ins: "g_insert (hp_graph h 0) = AppendNode" and nx: "hp_next h = length specs" and ns: "nodes_of h 0 = [0..<length specs]"
    using b by (simp_all add: built_from_def)
  have args: "\<forall>i \<in> set (args_nodes args []). i < hp_next h" using assms(2) nx by simp
  obtain h' where h': "create_node 0 op t args [] name ty h = (Inr (hp_next h), h')" "nodes_of h' 0 = nodes_of h 0 @ [hp_next h]"
    "g_insert (hp_graph h' 0) = AppendNode" using create_node_append[OF ok args op tgt ins] by blast
  note c = create_node_ok[OF ok args h'(1)]
  show "fst (create_node 0 op t args [] name ty h) = Inr (length specs)" by (simp add: h' nx)
  have "\<forall>i < length specs. same_body (hp_node h' i) (hp_node h i)" using c(6) nx by auto
  then show "built_from (snd (create_node 0 op t args [] name ty h)) (specs @ [(op, t, args)])"
    using b c h' by (auto simp: built_from_def nx ns nth_append same_body_def less_Suc_eq)
qed

lemma outputs_built: "built_from h specs \<Longrightarrow> outputs h 0 = filter (\<lambda>i. fst (specs ! i) = ''output'') [0..<length specs]"
  unfolding outputs_def by (auto simp: built_from_def intro!: filter_cong)

lemma inputs_built: "built_from h specs \<Longrightarrow> i < length specs \<Longrightarrow> set (n_input_nodes (hp_node h i)) = set (args_nodes (snd (snd (specs ! i))) [])"
  using links_input[OF heap_ok_sel(1)] by (simp add: built_from_def)

definition fn_relu :: callable where
  "fn_relu = \<lparr>c_id = 10, c_name = ''relu'', c_type = ''function'', c_module = ''tensorplay'', c_effectful = False, c_schema_mutable = False\<rparr>"

definition fn_sin :: callable where
  "fn_sin = \<lparr>c_id = 11, c_name = ''sin'', c_type = ''function'', c_module = ''tensorplay'', c_effectful = False, c_schema_mutable = False\<rparr>"

text \<open>An input, a value nobody uses, two values in a chain, and the output.\<close>

definition demo_specs :: "(string \<times> target \<times> arg list) list" where
  "demo_specs = [(''placeholder'', TStr ''x'', []), (''call_function'', TCallable fn_sin, [ANode 0]), (''call_function'', TCallable fn_relu, [ANode 0]),
     (''call_function'', TCallable fn_sin, [ANode 2]), (''output'', TStr ''output'', [ANode 3])]"

definition demo_heap :: heap where
  "demo_heap =
     (let h1 = snd (create_node 0 ''placeholder'' (TStr ''x'') [] [] (Some ''x'') ANone empty_heap);
          h2 = snd (create_node 0 ''call_function'' (TCallable fn_sin) [ANode 0] [] None ANone h1);
          h3 = snd (create_node 0 ''call_function'' (TCallable fn_relu) [ANode 0] [] None ANone h2);
          h4 = snd (create_node 0 ''call_function'' (TCallable fn_sin) [ANode 2] [] None ANone h3)
      in snd (create_node 0 ''output'' (TStr ''output'') [ANode 3] [] (Some ''output'') ANone h4))"

lemma built_demo: "built_from demo_heap demo_specs"
  unfolding demo_heap_def Let_def demo_specs_def
  by (rule built_step(2)[of _ "[a, b, c, d]" for a b c d, simplified],
      rule built_step(2)[of _ "[a, b, c]" for a b c, simplified],
      rule built_step(2)[of _ "[a, b]" for a b, simplified],
      rule built_step(2)[of _ "[a]" for a, simplified],
      rule built_step(2)[OF built_empty, simplified])
     (simp_all add: legal_ops_def is_callable_def is_str_target_def args_nodes_def)

lemma demo_ok: "heap_ok demo_heap"
  using built_demo by (simp add: built_from_def)

lemma demo_nodes: "nodes_of demo_heap 0 = [0, 1, 2, 3, 4]" "hp_next demo_heap = 5"
  using built_demo by (simp_all add: built_from_def demo_specs_def upt_rec)

lemma all_less_5: "(\<forall>i < (5 :: nat). P i) \<longleftrightarrow> P 0 \<and> P 1 \<and> P 2 \<and> P 3 \<and> P 4"
  by (simp add: eval_nat_numeral All_less_Suc) blast

lemma demo_node:
  "n_op (hp_node demo_heap 0) = ''placeholder''" "n_op (hp_node demo_heap (Suc 0)) = ''call_function''" "n_op (hp_node demo_heap 2) = ''call_function''"
  "n_op (hp_node demo_heap 3) = ''call_function''" "n_op (hp_node demo_heap 4) = ''output''"
  "n_target (hp_node demo_heap 0) = TStr ''x''" "n_target (hp_node demo_heap (Suc 0)) = TCallable fn_sin" "n_target (hp_node demo_heap 2) = TCallable fn_relu"
  "n_target (hp_node demo_heap 3) = TCallable fn_sin" "n_target (hp_node demo_heap 4) = TStr ''output''"
  "n_args (hp_node demo_heap 0) = []" "n_args (hp_node demo_heap (Suc 0)) = [ANode 0]" "n_args (hp_node demo_heap 2) = [ANode 0]"
  "n_args (hp_node demo_heap 3) = [ANode 2]" "n_args (hp_node demo_heap 4) = [ANode 3]"
  using built_demo by (simp_all add: built_from_def demo_specs_def all_less_5)

lemma demo_node_rest: "i < 5 \<Longrightarrow> n_kwargs (hp_node demo_heap i) = [] \<and> n_meta (hp_node demo_heap i) = []"
  using built_demo by (simp add: built_from_def demo_specs_def)

lemma demo_outputs: "outputs demo_heap 0 = [4]"
  by (simp add: outputs_def demo_nodes demo_node)

lemma demo_inputs:
  "set (n_input_nodes (hp_node demo_heap 0)) = {}" "set (n_input_nodes (hp_node demo_heap (Suc 0))) = {0}" "set (n_input_nodes (hp_node demo_heap 2)) = {0}"
  "set (n_input_nodes (hp_node demo_heap 3)) = {2}" "set (n_input_nodes (hp_node demo_heap 4)) = {3}"
  using links_input[OF heap_ok_sel(1)[OF demo_ok]] demo_node_rest by (simp_all add: demo_node args_nodes_def)

lemma demo_graph: "i \<in> {0, 1, 2, 3, 4} \<Longrightarrow> n_graph (hp_node demo_heap i) = Some 0"
  using heap_ok_graph[OF demo_ok, of i 0] by (simp add: demo_nodes)

lemma demo_lint: "lint demo_heap 0 = Inr ()"
proof -
  have d: "distinct [0 :: nat, 1, 2, 3, 4]" by simp
  have p: "p < q \<Longrightarrow> q < 5 \<Longrightarrow> precedes [0, 1, 2, 3, 4] ([0, 1, 2, 3, 4] ! p) ([0, 1, 2, 3, 4] ! q)" for p q
    using precedes_index[OF d, of p q] by simp
  have "topological demo_heap (nodes_of demo_heap 0)"
    unfolding topological_def demo_nodes
    using p[of 0 1] p[of 0 2] p[of 2 3] p[of 3 4] demo_inputs by simp
  then show ?thesis by (simp add: lint_eq[OF demo_ok] demo_outputs)
qed

lemma demo_users: "set (n_users (hp_node demo_heap n)) = set (filter (\<lambda>m. n \<in> set (n_input_nodes (hp_node demo_heap m))) [0, Suc 0, 2, 3, 4])"
proof -
  have "m < 5" if "n \<in> set (n_input_nodes (hp_node demo_heap m))" for m
    using that inputs_allocated(2)[OF heap_ok_sel(1)[OF demo_ok]] links_input[OF heap_ok_sel(1)[OF demo_ok]] demo_nodes(2) by metis
  moreover have "m < (5 :: nat) \<longleftrightarrow> m \<in> set [0, Suc 0, 2, 3, 4]" for m by auto
  ultimately show ?thesis using links_users[OF heap_ok_sel(1)[OF demo_ok]] unfolding set_filter by blast
qed

lemma demo_users_of:
  "set (n_users (hp_node demo_heap 0)) = {Suc 0, 2}" "set (n_users (hp_node demo_heap (Suc 0))) = {}" "set (n_users (hp_node demo_heap 2)) = {3}"
  unfolding demo_users by (simp_all add: demo_inputs)

subsection \<open>Properties\<close>

text \<open>C12: The check of a consistent graph returns exactly when every input of a node stands before it in the list and there is at most
  one output; otherwise it raises GraphCaptureError.\<close>

theorem lint_iff_topological:
  assumes "heap_ok h"
  shows "lint h g = (if topological h (nodes_of h g) \<and> length (outputs h g) \<le> 1 then Inr () else Inl GraphCaptureError)"
  using assms by (rule lint_eq)

theorem lint_iff_topological_witness: "lint demo_heap 0 = Inr () \<and> topological demo_heap [0, 1, 2, 3, 4]"
  using lint_iff_topological[OF demo_ok, of 0] demo_lint demo_nodes by (simp split: if_split_asm)

text \<open>A query through the lookup table returns the nodes that a scan of the list would, in list order.\<close>

theorem find_nodes_eq_scan:
  assumes "heap_ok h"
  shows "find_nodes h g op tgt True = scan_nodes h g op tgt"
  using assms by (rule find_nodes_scan)

theorem find_nodes_eq_scan_witness: "find_nodes demo_heap 0 (Some ''call_function'') (Some (TCallable fn_sin)) True = [1, 3]"
proof -
  have "fn_relu \<noteq> fn_sin" by (simp add: fn_relu_def fn_sin_def)
  then show ?thesis
    using find_nodes_eq_scan[OF demo_ok, of 0 "Some ''call_function''" "Some (TCallable fn_sin)"]
    by (simp add: scan_nodes_def demo_nodes demo_node)
qed

text \<open>C19: Replacing all uses of \<open>n\<close> rewrites its users in order up to the first one that does not come after the replacement. If there is none,
  the users are returned; if there is one, GraphCaptureError is raised and the users before it stay rewritten.\<close>

theorem replace_all_uses_with_result:
  assumes "heap_ok h" and "n_graph (hp_node h n) = Some g" and "n_graph (hp_node h new) = Some g" and "new \<noteq> n"
  shows "replace_all_uses_with n new None False h =
    (let us = n_users (hp_node h n); ok = takeWhile (precedes (nodes_of h g) new) us
     in (if ok = us then Inr us else Inl GraphCaptureError, rewrite_uses n new ok h))"
  using assms by (rule replace_all_uses_with_eq)

theorem replace_all_uses_with_result_witness:
  "replace_all_uses_with 0 3 None False demo_heap = (Inl GraphCaptureError, demo_heap)"
proof -
  have d: "distinct [0 :: nat, 1, 2, 3, 4]" by simp
  have "\<not> precedes [0, 1, 2, 3, 4] 3 1" "\<not> precedes [0, 1, 2, 3, 4] 3 2"
    using precedes_index[OF d, of 3 1] precedes_index[OF d, of 3 2] by simp_all
  then have tw: "takeWhile (precedes [0, 1, 2, 3, 4] 3) (n_users (hp_node demo_heap 0)) = []"
    unfolding takeWhile_eq_Nil_iff using demo_users_of(1) hd_in_set[of "n_users (hp_node demo_heap 0)"] by auto
  have "n_users (hp_node demo_heap 0) \<noteq> []" using demo_users_of(1) by auto
  then show ?thesis
    using replace_all_uses_with_result[OF demo_ok demo_graph[of 0] demo_graph[of 3]] unfolding Let_def demo_nodes tw
    by (auto simp: rewrite_uses_def)
qed

text \<open>C18: After a replacement that succeeds, the replaced node has no users and can be erased, and a graph that passed the check still
  passes it.\<close>

theorem replace_all_then_erase:
  assumes "heap_ok h" and "replace_all_uses_with n new None False h = (Inr us, h')" and "n_graph (hp_node h n) = Some g" and "lint h g = Inr ()"
  shows "heap_ok h' \<and> lint h' g = Inr () \<and> n_users (hp_node h' n) = [] \<and> fst (graph_erase_node g n h') = Inr ()"
  using assms by (rule replace_all_then_erase_aux)

theorem replace_all_then_erase_witness:
  "fst (replace_all_uses_with 2 0 None False demo_heap) = Inr (n_users (hp_node demo_heap 2)) \<and>
   fst (graph_erase_node 0 2 (snd (replace_all_uses_with 2 0 None False demo_heap))) = Inr ()"
proof -
  have d: "distinct [0 :: nat, 1, 2, 3, 4]" by simp
  have "precedes [0, 1, 2, 3, 4] 0 3" using precedes_index[OF d, of 0 3] by simp
  then have tw: "takeWhile (precedes [0, 1, 2, 3, 4] 0) (n_users (hp_node demo_heap 2)) = n_users (hp_node demo_heap 2)"
    using demo_users_of(3) by (simp add: takeWhile_eq_all_conv)
  have r: "replace_all_uses_with 2 0 None False demo_heap = (Inr (n_users (hp_node demo_heap 2)), rewrite_uses 2 0 (n_users (hp_node demo_heap 2)) demo_heap)"
    using replace_all_uses_with_eq[OF demo_ok demo_graph[of 2] demo_graph[of 0]] unfolding Let_def demo_nodes tw by simp
  then show ?thesis using replace_all_then_erase[OF demo_ok r demo_graph[of 2] demo_lint] by simp
qed

text \<open>C36: Removing a node through \<open>graph.nodes.remove\<close> leaves the recorded positions of the nodes behind it one too high: the next node of its
  successor is then reported as the one after the true next.\<close>

theorem list_remove_skips_neighbour:
  assumes "heap_ok h" and "nodes_of h g = pre @ n # m # k # rest"
  shows "fst (list_remove g n h) = Inr () \<and> nodes_of (snd (list_remove g n h)) g = pre @ m # k # rest \<and>
    g_index (hp_graph (snd (list_remove g n h)) g) m = Some (Suc (length pre)) \<and>
    node_next (snd (list_remove g n h)) m = (case rest of [] \<Rightarrow> None | r # _ \<Rightarrow> Some r)"
  using list_remove_stale[OF assms] by blast

theorem list_remove_skips_neighbour_witness:
  "nodes_of (snd (list_remove 0 1 demo_heap)) 0 = [0, 2, 3, 4] \<and> node_next (snd (list_remove 0 1 demo_heap)) 2 = Some 4"
  using list_remove_skips_neighbour[OF demo_ok, of 0 "[0]" 1 2 3 "[4]"] by (simp add: demo_nodes)

text \<open>An insertion point after an anchor does not follow the anchor when a node before it is erased: the next new node lands one place too late.\<close>

theorem inserting_after_misplaces:
  assumes "heap_ok h" and "nodes_of h g = pre @ x # anchor # m # k # rest"
    and "inserting_after g (Some anchor) h = (Inr saved, h1)" and "remove_node g x h1 = (Inr u, h2)"
    and "\<forall>i \<in> set (args_nodes args kwargs). i < hp_next h" and "create_node g op target args kwargs name ty h2 = (Inr n, h3)"
  shows "nodes_of h3 g = pre @ anchor # m # n # k # rest"
  using assms by (rule inserting_after_stale)

theorem inserting_after_misplaces_witness:
  "\<exists>saved h1 u h2 n h3. inserting_after 0 (Some 2) demo_heap = (Inr saved, h1) \<and> remove_node 0 1 h1 = (Inr u, h2) \<and>
     create_node 0 ''call_function'' (TCallable fn_relu) [ANode 2] [] None ANone h2 = (Inr n, h3) \<and> nodes_of h3 0 = [0, 2, 3, n, 4]"
proof -
  have ix: "g_index (hp_graph demo_heap 0) 2 = Some 2"
    using book_ok_sel(1,2)[OF heap_ok_sel(2)[OF demo_ok, of 0]] index_of_Some[of "[0, 1, 2, 3, 4]" 2 2] by (simp add: demo_nodes)
  let ?h1 = "upd_graph 0 (g_insert_update (\<lambda>_. InsertAfter 2 3)) demo_heap"
  have 1: "inserting_after 0 (Some 2) demo_heap = (Inr (g_insert (hp_graph demo_heap 0)), ?h1)"
    by (simp add: inserting_after_def insert_point_def demo_graph ix)
  have ok1: "heap_ok ?h1" using demo_ok by simp
  obtain h2 where 2: "remove_node 0 1 ?h1 = (Inr (), h2)"
    using demo_users_of(2) by (simp add: remove_node_def demo_graph Let_def fold_upd_node_sel demo_nodes)
  note r = remove_node_nodes[OF ok1 2] and ok2 = remove_node_ok[OF ok1 2]
  have n2: "nodes_of h2 0 = [0, 2, 3, 4]" "hp_next h2 = 5" using r(1)[of 0] r(2) by (simp_all add: demo_nodes)
  have i2: "g_insert (hp_graph h2 0) = InsertAfter 2 3" using remove_node_insert[OF 2, of 0] by simp
  have args: "\<forall>i \<in> set (args_nodes [ANode 2] []). i < hp_next h2" by (simp add: args_nodes_def n2)
  obtain h3 where 3: "create_node 0 ''call_function'' (TCallable fn_relu) [ANode 2] [] None ANone h2 = (Inr 5, h3)"
    using create_node_after_succeeds[OF ok2 args _ _ i2, of "''call_function''" "TCallable fn_relu" None ANone] n2
    by (auto simp: legal_ops_def is_callable_def)
  have "nodes_of h3 0 = [0] @ 2 # 3 # 5 # 4 # []"
    by (rule inserting_after_misplaces[OF demo_ok _ 1 2 _ 3]) (simp_all add: demo_nodes args_nodes_def)
  then show ?thesis using 1 2 3 by auto
qed

text \<open>C40: When the node that an insertion point stands before is erased, creating a node there raises GraphCaptureError after the node has
  been linked: it names the graph without being listed and is a user of its arguments, which can then no longer be removed, and the store is
  not consistent any more.\<close>

theorem create_before_erased_breaks:
  assumes "heap_ok h" and "inserting_before g (Some anchor) h = (Inr saved, h1)" and "graph_erase_node g anchor h1 = (Inr u, h2)"
    and "\<forall>i \<in> set (args_nodes args kwargs). i < hp_next h" and "op \<in> set legal_ops"
    and "if op = ''call_function'' then is_callable target else is_str_target target"
  shows "\<exists>h3. create_node g op target args kwargs name ty h2 = (Inl GraphCaptureError, h3) \<and> \<not> heap_ok h3 \<and>
    nodes_of h3 g = nodes_of h2 g \<and> n_graph (hp_node h3 (hp_next h)) = Some g \<and>
    (\<forall>i \<in> set (args_nodes args kwargs). hp_next h \<in> set (n_users (hp_node h3 i)) \<and> fst (remove_node g i h3) = Inl GraphCaptureError)"
proof -
  obtain k where h1: "h1 = upd_graph g (g_insert_update (\<lambda>_. InsertBefore anchor k)) h" and gr: "n_graph (hp_node h anchor) = Some g"
    using assms(2) by (auto simp: inserting_before_def insert_point_def split: if_split_asm option.split_asm)
  have ok1: "heap_ok h1" using assms(1) by (simp add: h1)
  have an: "anchor \<in> set (nodes_of h1 g)" using heap_ok_graph[OF assms(1)] gr by (simp add: h1)
  have "\<not> n_erased (hp_node h1 anchor)" using book_ok_sel(5)[OF heap_ok_sel(2)[OF ok1] an] by simp
  then have rm: "remove_node g anchor h1 = (Inr u, h2)" using assms(3) by (simp add: graph_erase_node_def split: if_split_asm)
  note r = remove_node_nodes[OF ok1 rm] and ok2 = remove_node_ok[OF ok1 rm]
  have gone: "anchor \<notin> set (nodes_of h2 g)" using r(1)[of g] book_ok_sel(1)[OF heap_ok_sel(2)[OF ok1, of g]] by simp
  then have "list_index (nodes_of h2 g) anchor = None" by (simp add: list_index_def map_of_zip_is_None del: map_of_eq_None_iff)
  moreover have "g_insert (hp_graph h2 g) = InsertBefore anchor k" using remove_node_insert[OF rm, of g] by (simp add: h1)
  moreover have "nodes_of h2 g ! k \<noteq> anchor" if "k < length (nodes_of h2 g)" using nth_mem[OF that] gone by auto
  ultimately have unready: "\<not> insert_ready h2 g" by (auto simp: insert_ready_def anchored_position_def)
  have nx: "hp_next h2 = hp_next h" using r(2) by (simp add: h1)
  then have a2: "\<forall>i \<in> set (args_nodes args kwargs). i < hp_next h2" using assms(4) by simp
  obtain h3 where 3: "create_node g op target args kwargs name ty h2 = (Inl GraphCaptureError, h3)" "nodes_of h3 g = nodes_of h2 g"
      "n_graph (hp_node h3 (hp_next h)) = Some g" "\<forall>i \<in> set (args_nodes args kwargs). hp_next h \<in> set (n_users (hp_node h3 i))"
    using create_node_unready[OF ok2 a2 unready assms(5,6), of name ty] unfolding nx by blast
  have "hp_next h \<notin> set (nodes_of h2 g)" using heap_ok_graph[OF ok2, of "hp_next h" g] links_blank[OF heap_ok_sel(1)[OF ok2], of "hp_next h"] nx by simp
  then have "\<not> heap_ok h3" using heap_ok_graph[of h3 "hp_next h" g] 3(2,3) by auto
  moreover have "fst (remove_node g i h3) = Inl GraphCaptureError" if "i \<in> set (args_nodes args kwargs)" for i
    using 3(4) that by (auto simp: remove_node_def)
  ultimately show ?thesis using 3 by blast
qed

theorem create_before_erased_breaks_witness:
  "\<exists>saved h1 h2 h3. inserting_before 0 (Some 1) demo_heap = (Inr saved, h1) \<and> graph_erase_node 0 1 h1 = (Inr (), h2) \<and>
     create_node 0 ''call_function'' (TCallable fn_relu) [ANode 2] [] None ANone h2 = (Inl GraphCaptureError, h3) \<and> \<not> heap_ok h3"
proof -
  have ix: "g_index (hp_graph demo_heap 0) 1 = Some 1"
    using book_ok_sel(1,2)[OF heap_ok_sel(2)[OF demo_ok, of 0]] index_of_Some[of "[0, 1, 2, 3, 4]" 1 1] by (simp add: demo_nodes)
  let ?h1 = "upd_graph 0 (g_insert_update (\<lambda>_. InsertBefore 1 1)) demo_heap"
  have 1: "inserting_before 0 (Some 1) demo_heap = (Inr (g_insert (hp_graph demo_heap 0)), ?h1)"
    using ix by (simp add: inserting_before_def insert_point_def demo_graph)
  have "1 \<in> set (nodes_of demo_heap 0)" by (simp add: demo_nodes)
  then have "\<not> n_erased (hp_node demo_heap 1)" using book_ok_sel(5)[OF heap_ok_sel(2)[OF demo_ok]] by blast
  then obtain h2 where 2: "graph_erase_node 0 1 ?h1 = (Inr (), h2)"
    using demo_users_of(2) by (simp add: graph_erase_node_def remove_node_def demo_graph Let_def fold_upd_node_sel demo_nodes)
  have "\<forall>i \<in> set (args_nodes [ANode 2] []). i < hp_next demo_heap" by (simp add: args_nodes_def demo_nodes)
  from create_before_erased_breaks[OF demo_ok 1 2 this, of "''call_function''" "TCallable fn_relu" None ANone] 1 2
  show ?thesis by (auto simp: legal_ops_def is_callable_def)
qed

end
