(* ===== verification/GraphOrder.thy ===== *)
theory GraphOrder
  imports GraphChecks
begin

text \<open>
  Ordering by counting predecessors down. One loop serves the orders of graph nodes in \<^verbatim>\<open>src/tensorplay/graph/passes/tools_common.py\<close>
  and \<^verbatim>\<open>passes/utils/fuser_utils.py\<close>, and the order of passes in \<^verbatim>\<open>passes/infra/pass_manager.py\<close>; the locale \<open>countdown_order\<close> states what the loop
  needs from its tables and \<open>exact_countdown\<close> what it needs to be complete.
\<close>

subsection \<open>The loop\<close>

text \<open>Counting the successors of a finished entry down; one that reaches zero becomes ready.\<close>

fun count_down :: "('n \<Rightarrow> bool) \<Rightarrow> 'n list \<Rightarrow> ('n \<Rightarrow> int) \<Rightarrow> 'n list \<Rightarrow> ('n \<Rightarrow> int) \<times> 'n list" where
  "count_down counted [] indegree ready = (indegree, ready)"
| "count_down counted (u # us) indegree ready =
     (if \<not> counted u then count_down counted us indegree ready
      else count_down counted us (indegree(u := indegree u - 1)) (if indegree u - 1 = 0 then ready @ [u] else ready))"

partial_function (option) ready_loop ::
    "('n list \<Rightarrow> 'n) \<Rightarrow> ('n \<Rightarrow> 'n list) \<Rightarrow> ('n list \<Rightarrow> 'n \<Rightarrow> bool) \<Rightarrow> ('n \<Rightarrow> int) \<Rightarrow> 'n list \<Rightarrow> 'n list \<Rightarrow> ('n list \<times> ('n \<Rightarrow> int)) option" where
  "ready_loop take_next succs counted indegree ready res =
     (if ready = [] then Some (res, indegree)
      else let n = take_next ready;
               (indegree', ready') = count_down (counted (res @ [n])) (succs n) indegree (remove1 n ready)
           in ready_loop take_next succs counted indegree' ready' (res @ [n]))"

declare ready_loop.simps [code]

lemma count_down_filter: "count_down counted us deg ready = count_down (\<lambda>_. True) (filter counted us) deg ready"
  by (induction us arbitrary: deg ready) auto

lemma count_down_degree: "fst (count_down (\<lambda>_. True) us deg ready) u = deg u - int (count_list us u)"
  by (induction us arbitrary: deg ready) auto

lemma count_down_ready:
  assumes "\<And>u. u \<in> set us \<Longrightarrow> int (count_list us u) \<le> deg u" and "distinct ready" and "set us \<inter> set ready = {}"
  shows "set (snd (count_down (\<lambda>_. True) us deg ready)) = set ready \<union> {u \<in> set us. deg u = int (count_list us u)} \<and>
    distinct (snd (count_down (\<lambda>_. True) us deg ready))"
  using assms
proof (induction us arbitrary: deg ready)
  case (Cons v us)
  let ?d = "deg(v := deg v - 1)" let ?r = "if deg v - 1 = 0 then ready @ [v] else ready"
  have c: "int (count_list us u) \<le> ?d u" if "u \<in> set us" for u using Cons.prems(1)[of u] that by (cases "u = v") auto
  have "deg v = 1 \<Longrightarrow> count_list us v = 0" using Cons.prems(1)[of v] by simp
  then have v: "deg v = 1 \<Longrightarrow> v \<notin> set us" by (simp add: count_list_0_iff)
  have d: "distinct ?r" "set us \<inter> set ?r = {}" using Cons.prems(2,3) v by auto
  note IH = Cons.IH[OF c d]
  have "u \<in> set (v # us) \<and> deg u = int (count_list (v # us) u) \<longleftrightarrow> (u \<in> set us \<and> ?d u = int (count_list us u)) \<or> (u = v \<and> deg v = 1)" for u
  proof (cases "u = v")
    case True
    have "0 < count_list us v \<longleftrightarrow> v \<in> set us" using count_list_0_iff[of us v] by auto
    then show ?thesis using True v by auto
  qed simp
  then have "{u \<in> set (v # us). deg u = int (count_list (v # us) u)} = {u \<in> set us. ?d u = int (count_list us u)} \<union> {u. u = v \<and> deg v = 1}"
    unfolding set_eq_iff mem_Collect_eq Un_iff by blast
  moreover have "set ?r = set ready \<union> {u. u = v \<and> deg v = 1}" by auto
  moreover have "count_down (\<lambda>_. True) (v # us) deg ready = count_down (\<lambda>_. True) us ?d ?r" by simp
  ultimately show ?case using IH by (simp only: Un_assoc Un_commute Un_left_commute) 
qed simp

text \<open>What the loop needs: the entries are distinct, the next one is taken from the ready ones, successors that are counted are entries, entries that
  are not finished are counted, and the initial count is at least the number of edges into an entry.\<close>

definition comes_before :: "'a list \<Rightarrow> 'a \<Rightarrow> 'a \<Rightarrow> bool" where
  "comes_before xs p u \<longleftrightarrow> (\<exists>i j. i < j \<and> j < length xs \<and> xs ! i = p \<and> xs ! j = u)"

lemma comes_before_nil [simp]: "\<not> comes_before [] p u"
  by (simp add: comes_before_def)

lemma comes_before_in: "comes_before xs p u \<Longrightarrow> p \<in> set xs \<and> u \<in> set xs"
  by (force simp: comes_before_def)

lemma comes_before_snoc [simp]: "comes_before (xs @ [x]) p u \<longleftrightarrow> comes_before xs p u \<or> (u = x \<and> p \<in> set xs)"
proof
  assume "comes_before (xs @ [x]) p u"
  then obtain i j where ij: "i < j" "j < Suc (length xs)" "(xs @ [x]) ! i = p" "(xs @ [x]) ! j = u" by (auto simp: comes_before_def)
  then show "comes_before xs p u \<or> (u = x \<and> p \<in> set xs)"
    by (cases "j = length xs") (force simp: comes_before_def nth_append)+
next
  assume "comes_before xs p u \<or> (u = x \<and> p \<in> set xs)"
  then show "comes_before (xs @ [x]) p u"
  proof
    assume "comes_before xs p u"
    then obtain i j where "i < j" "j < length xs" "xs ! i = p" "xs ! j = u" by (auto simp: comes_before_def)
    then show ?thesis unfolding comes_before_def by (intro exI[of _ i] exI[of _ j]) (auto simp: nth_append)
  next
    assume "u = x \<and> p \<in> set xs"
    then obtain i where "i < length xs" "xs ! i = p" "u = x" by (auto simp: in_set_conv_nth)
    then show ?thesis unfolding comes_before_def by (intro exI[of _ i] exI[of _ "length xs"]) (auto simp: nth_append)
  qed
qed

lemma precedes_comes_before: "precedes = comes_before"
  by (simp add: fun_eq_iff precedes_def comes_before_def)

lemma count_list_filter: "count_list (filter P xs) u = (if P u then count_list xs u else 0)"
  by (induction xs) auto

definition edges_from :: "('n \<Rightarrow> 'n list) \<Rightarrow> 'n set \<Rightarrow> 'n \<Rightarrow> int" where
  "edges_from succs P u = (\<Sum>p \<in> P. int (count_list (succs p) u))"

lemma edges_from_insert: "finite P \<Longrightarrow> p \<notin> P \<Longrightarrow> edges_from succs (insert p P) u = edges_from succs P u + int (count_list (succs p) u)"
  by (simp add: edges_from_def)

lemma edges_from_mono: "finite Q \<Longrightarrow> P \<subseteq> Q \<Longrightarrow> edges_from succs P u \<le> edges_from succs Q u"
  unfolding edges_from_def by (rule sum_mono2) auto

lemma edges_from_all:
  assumes "finite Q" and "P \<subseteq> Q" and "edges_from succs Q u \<le> edges_from succs P u" and "p \<in> Q" and "u \<in> set (succs p)"
  shows "p \<in> P"
proof (rule ccontr)
  assume "p \<notin> P"
  then have "edges_from succs P u + int (count_list (succs p) u) \<le> edges_from succs Q u"
    using edges_from_mono[of Q "insert p P" succs u] edges_from_insert[of P p succs u] assms(1,2,4) by (auto dest: finite_subset)
  moreover have "count_list (succs p) u \<noteq> 0" using assms(5) by (simp add: count_list_0_iff)
  ultimately show False using assms(3) by simp
qed

text \<open>No entry comes before one that it succeeds.\<close>

definition in_order :: "'n list \<Rightarrow> ('n \<Rightarrow> 'n list) \<Rightarrow> 'n list \<Rightarrow> bool" where
  "in_order entries succs res \<longleftrightarrow> (\<forall>u \<in> set res. \<forall>p \<in> set entries. u \<in> set (succs p) \<longrightarrow> comes_before res p u)"

definition countdown_inv :: "'n list \<Rightarrow> ('n \<Rightarrow> 'n list) \<Rightarrow> ('n \<Rightarrow> int) \<Rightarrow> ('n \<Rightarrow> int) \<Rightarrow> 'n list \<Rightarrow> 'n list \<Rightarrow> bool" where
  "countdown_inv entries succs indegree deg ready res \<longleftrightarrow> distinct (res @ ready) \<and> set (res @ ready) = {u \<in> set entries. deg u = 0} \<and>
     (\<forall>u \<in> set entries. deg u = indegree u - edges_from succs (set res) u) \<and> in_order entries succs res"

locale countdown_order =
  fixes entries :: "'n list" and succs :: "'n \<Rightarrow> 'n list" and indegree :: "'n \<Rightarrow> int" and counted :: "'n list \<Rightarrow> 'n \<Rightarrow> bool"
    and take_next :: "'n list \<Rightarrow> 'n"
  assumes distinct_entries: "distinct entries"
    and next_ready: "ready \<noteq> [] \<Longrightarrow> take_next ready \<in> set ready"
    and counted_entry: "p \<in> set entries \<Longrightarrow> u \<in> set (succs p) \<Longrightarrow> counted res u \<Longrightarrow> u \<in> set entries"
    and counts_rest: "u \<in> set entries \<Longrightarrow> u \<notin> set res \<Longrightarrow> counted res u"
    and enough: "u \<in> set entries \<Longrightarrow> edges_from succs (set entries) u \<le> indegree u"
begin

lemma inv_preds:
  assumes "countdown_inv entries succs indegree deg ready res" and "u \<in> set (res @ ready)" and "p \<in> set entries" and "u \<in> set (succs p)"
  shows "p \<in> set res"
proof -
  have u: "u \<in> set entries" "deg u = 0" "set res \<subseteq> set entries" using assms(1,2) by (auto simp: countdown_inv_def)
  then have "indegree u = edges_from succs (set res) u" using assms(1) by (auto simp: countdown_inv_def)
  then show ?thesis using edges_from_all[of "set entries" "set res" succs u p] enough[OF u(1)] u(3) assms(3,4) by simp
qed

lemma inv_start: "countdown_inv entries succs indegree indegree (filter (\<lambda>n. indegree n = 0) entries) []"
  using distinct_entries by (auto simp: countdown_inv_def in_order_def edges_from_def)

lemma inv_step:
  assumes inv: "countdown_inv entries succs indegree deg ready res" and r: "ready \<noteq> []"
    and step: "count_down (counted (res @ [take_next ready])) (succs (take_next ready)) deg (remove1 (take_next ready) ready) = (deg', ready')"
  shows "countdown_inv entries succs indegree deg' ready' (res @ [take_next ready])"
proof -
  define n where "n = take_next ready"
  define us where "us = filter (counted (res @ [n])) (succs n)"
  have nr: "n \<in> set ready" using next_ready[OF r] n_def by simp
  have d: "distinct (res @ ready)" and z: "set (res @ ready) = {u \<in> set entries. deg u = 0}"
    and deg: "\<And>u. u \<in> set entries \<Longrightarrow> deg u = indegree u - edges_from succs (set res) u" and f: "in_order entries succs res"
    using inv by (auto simp: countdown_inv_def)
  have n: "n \<in> set entries" "n \<notin> set res" using nr z d by auto
  have cl: "count_list us u = count_list (succs n) u" if "u \<in> set entries" for u
  proof (cases "u \<in> set (res @ ready)")
    case True
    then have "u \<notin> set (succs n)" using inv_preds[OF inv True n(1)] n(2) by auto
    then show ?thesis by (simp add: us_def count_list_0_iff)
  next
    case False
    then have "counted (res @ [n]) u" using counts_rest[OF that, of "res @ [n]"] nr by auto
    then show ?thesis by (simp add: us_def count_list_filter)
  qed
  have us: "u \<in> set entries" if "u \<in> set us" for u using that counted_entry[OF n(1)] by (auto simp: us_def)
  have e': "edges_from succs (set (res @ [n])) u = edges_from succs (set res) u + int (count_list (succs n) u)" for u
    using edges_from_insert[of "set res" n succs u] n(2) by simp
  have le: "int (count_list us u) \<le> deg u" if "u \<in> set us" for u
  proof -
    have "edges_from succs (set (res @ [n])) u \<le> indegree u"
      using edges_from_mono[of "set entries" "set (res @ [n])" succs u] enough[OF us[OF that]] z n(1) by fastforce
    then show ?thesis using deg[OF us[OF that]] cl[OF us[OF that]] e'[of u] by simp
  qed
  have s: "count_down (\<lambda>_. True) us deg (remove1 n ready) = (deg', ready')"
    using step unfolding count_down_filter[of "counted _"] us_def n_def .
  have d': "deg' u = deg u - int (count_list us u)" for u using count_down_degree[of us deg "remove1 n ready" u] s by simp
  have nr': "u \<notin> set (res @ ready)" if "u \<in> set us" for u
  proof
    assume "u \<in> set (res @ ready)"
    then have "n \<in> set res" using inv_preds[OF inv _ n(1)] that by (auto simp: us_def)
    then show False using n(2) by simp
  qed
  have r': "set ready' = set (remove1 n ready) \<union> {u \<in> set us. deg u = int (count_list us u)} \<and> distinct ready'"
    using count_down_ready[of us deg "remove1 n ready", OF le] s d nr' notin_set_remove1 by fastforce
  have "set (res @ [n] @ ready') = {u \<in> set entries. deg' u = 0}"
  proof -
    have "u \<in> set (res @ [n] @ ready') \<longleftrightarrow> u \<in> set (res @ ready) \<or> u \<in> set us \<and> deg u = int (count_list us u)" for u
      using r' nr d by auto
    moreover have "u \<in> set entries \<and> deg' u = 0 \<longleftrightarrow> u \<in> set (res @ ready) \<or> u \<in> set us \<and> deg u = int (count_list us u)" for u
    proof (cases "u \<in> set us")
      case False
      then have "count_list us u = 0" by (simp add: count_list_0_iff)
      then show ?thesis unfolding z using d'[of u] False by simp
    next
      case True
      then show ?thesis using us[OF True] nr'[OF True] d'[of u] by auto
    qed
    ultimately show ?thesis by blast
  qed
  moreover have "distinct (res @ [n] @ ready')" using d r' nr' n(2) nr by (auto dest: notin_set_remove1)
  moreover have "deg' u = indegree u - edges_from succs (set (res @ [n])) u" if "u \<in> set entries" for u
    using deg[OF that] d'[of u] cl[OF that] e'[of u] by simp
  moreover have "in_order entries succs (res @ [n])"
    using f inv_preds[OF inv, of n] nr by (auto simp: in_order_def)
  ultimately show ?thesis unfolding countdown_inv_def n_def[symmetric] by simp
qed
end

context countdown_order
begin

lemma loop_result:
  assumes "countdown_inv entries succs indegree deg ready res"
  shows "\<exists>res' deg'. ready_loop take_next succs counted deg ready res = Some (res', deg') \<and> countdown_inv entries succs indegree deg' [] res'"
  using assms
proof (induction "card (set entries - set res)" arbitrary: deg ready res rule: less_induct)
  case less
  show ?case
  proof (cases "ready = []")
    case True
    then show ?thesis using less.prems by (simp add: ready_loop.simps)
  next
    case False
    let ?n = "take_next ready"
    obtain deg' ready' where s: "count_down (counted (res @ [?n])) (succs ?n) deg (remove1 ?n ready) = (deg', ready')" by fastforce
    note inv = inv_step[OF less.prems False s]
    have "?n \<in> set entries" "?n \<notin> set res" using less.prems next_ready[OF False] by (auto simp: countdown_inv_def)
    then have "card (set entries - set (res @ [?n])) < card (set entries - set res)" by (intro psubset_card_mono) auto
    from less.hyps[OF this inv] show ?thesis using False s by (subst ready_loop.simps) simp
  qed
qed

lemma order_result:
  "\<exists>res deg. ready_loop take_next succs counted indegree (filter (\<lambda>n. indegree n = 0) entries) [] = Some (res, deg) \<and>
     countdown_inv entries succs indegree deg [] res"
  by (rule loop_result[OF inv_start])

end

locale exact_countdown = countdown_order +
  assumes exact: "u \<in> set entries \<Longrightarrow> indegree u = edges_from succs (set entries) u"
begin

lemma stuck:
  assumes "countdown_inv entries succs indegree deg [] res" and "u \<in> set entries" and "u \<notin> set res"
  shows "\<exists>p \<in> set entries - set res. u \<in> set (succs p)"
proof (rule ccontr)
  assume no: "\<not> ?thesis"
  have r: "set res \<subseteq> set entries" using assms(1) by (auto simp: countdown_inv_def)
  have "edges_from succs (set entries) u = edges_from succs (set res) u"
    unfolding edges_from_def by (rule sum.mono_neutral_right) (use no r in \<open>auto simp: count_list_0_iff\<close>)
  then have "deg u = 0" using assms(1,2) exact[OF assms(2)] by (simp add: countdown_inv_def)
  then show False using assms by (auto simp: countdown_inv_def)
qed

lemma order_complete:
  assumes inv: "countdown_inv entries succs indegree deg [] res" and ys: "distinct ys" "set ys = set entries" "in_order entries succs ys"
  shows "set res = set entries"
proof (rule ccontr)
  assume "set res \<noteq> set entries"
  moreover have "set res \<subseteq> set entries" using inv by (auto simp: countdown_inv_def)
  ultimately obtain y where "y \<in> set ys" "y \<notin> set res" using ys(2) by blast
  then have "\<exists>i. i < length ys \<and> ys ! i \<notin> set res" by (metis in_set_conv_nth)
  then obtain i where "i < length ys \<and> ys ! i \<notin> set res" and "\<And>j. j < i \<Longrightarrow> \<not> (j < length ys \<and> ys ! j \<notin> set res)"
    using exists_least_iff[of "\<lambda>i. i < length ys \<and> ys ! i \<notin> set res"] by blast
  then have i: "i < length ys" "ys ! i \<notin> set res" and least: "\<And>j. j < i \<Longrightarrow> ys ! j \<in> set res" using order.strict_trans by blast+
  obtain p where p: "p \<in> set entries" "p \<notin> set res" "ys ! i \<in> set (succs p)" using stuck[OF inv, of "ys ! i"] i ys(2) nth_mem by blast
  then have "comes_before ys p (ys ! i)" using ys(3) nth_mem[OF i(1)] unfolding in_order_def by blast
  then obtain j k where "j < k" "k < length ys" "ys ! j = p" "ys ! k = ys ! i" by (auto simp: comes_before_def)
  moreover from this have "k = i" using ys(1) i(1) by (simp add: nth_eq_iff_index_eq)
  ultimately show False using least p(2) by blast
qed

lemma identity_step:
  assumes inv: "countdown_inv entries succs indegree deg ready (take k entries)" and k: "k < length entries"
    and ord: "in_order entries succs entries"
  shows "entries ! k \<in> set ready"
proof -
  let ?u = "entries ! k"
  have u: "?u \<in> set entries" using k by simp
  have "p \<in> set (take k entries)" if "p \<in> set entries" "?u \<in> set (succs p)" for p
  proof -
    have "comes_before entries p ?u" using ord that u unfolding in_order_def by blast
    then obtain i j where ij: "i < j" "j < length entries" "entries ! i = p" "entries ! j = ?u" unfolding comes_before_def by blast
    then have "j = k" using distinct_entries k by (simp add: nth_eq_iff_index_eq)
    then show ?thesis using ij by (auto simp: in_set_conv_nth intro!: exI[of _ i])
  qed
  then have "edges_from succs (set entries) ?u = edges_from succs (set (take k entries)) ?u"
    unfolding edges_from_def by (intro sum.mono_neutral_right) (auto simp: count_list_0_iff dest: in_set_takeD)
  then have "deg ?u = 0" using inv u exact[OF u] by (simp add: countdown_inv_def)
  moreover have "?u \<notin> set (take k entries)" using distinct_entries k by (auto simp: in_set_conv_nth nth_eq_iff_index_eq)
  ultimately show ?thesis using inv u by (auto simp: countdown_inv_def)
qed

lemma identity_loop:
  assumes ord: "in_order entries succs entries"
    and first: "\<And>k ready. k < length entries \<Longrightarrow> entries ! k \<in> set ready \<Longrightarrow> set ready \<subseteq> set (drop k entries) \<Longrightarrow> take_next ready = entries ! k"
  shows "countdown_inv entries succs indegree deg ready (take k entries) \<Longrightarrow> k \<le> length entries \<Longrightarrow>
    \<exists>deg'. ready_loop take_next succs counted deg ready (take k entries) = Some (entries, deg')"
proof (induction "length entries - k" arbitrary: k deg ready)
  case 0
  then have "k = length entries" by simp
  then have "set ready \<subseteq> set entries" "set entries \<inter> set ready = {}" using 0(2) by (auto simp: countdown_inv_def)
  then have "ready = []" by (cases ready) auto
  then show ?case using \<open>k = length entries\<close> by (simp add: ready_loop.simps)
next
  case (Suc m)
  then have k: "k < length entries" by simp
  note r = identity_step[OF Suc.prems(1) k ord]
  have "set ready \<subseteq> set entries" "set ready \<inter> set (take k entries) = {}" using Suc.prems(1) by (auto simp: countdown_inv_def)
  moreover have "set entries = set (take k entries) \<union> set (drop k entries)" by (metis append_take_drop_id set_append)
  ultimately have "set ready \<subseteq> set (drop k entries)" by blast
  then have n: "take_next ready = entries ! k" by (rule first[OF k r])
  obtain deg' ready' where s: "count_down (counted (take k entries @ [entries ! k])) (succs (entries ! k)) deg (remove1 (entries ! k) ready) = (deg', ready')"
    by fastforce
  have t: "take k entries @ [entries ! k] = take (Suc k) entries" using k by (simp add: take_Suc_conv_app_nth)
  have "ready \<noteq> []" using r by auto
  note inv = inv_step[OF Suc.prems(1) this s[folded n], unfolded n t]
  have "m = length entries - Suc k" "Suc k \<le> length entries" using Suc.hyps(2) k by simp_all
  from Suc.hyps(1)[OF this(1) inv this(2)] obtain d where "ready_loop take_next succs counted deg' ready' (take (Suc k) entries) = Some (entries, d)" by blast
  then show ?case using s \<open>ready \<noteq> []\<close> by (subst ready_loop.simps) (simp add: n t)
qed

end

subsection \<open>Ordering the nodes of a graph\<close>

text \<open>Taking the least position from the heap, or the front of the queue.\<close>

definition heap_least :: "(nid \<Rightarrow> nat option) \<Rightarrow> nid list \<Rightarrow> nid" where
  "heap_least position ready = hd (sort_key (\<lambda>n. case position n of None \<Rightarrow> 0 | Some i \<Rightarrow> i) ready)"

definition reference_count :: "heap \<Rightarrow> nid list \<Rightarrow> nid \<Rightarrow> int" where
  "reference_count h nodes n = int (length (filter (\<lambda>v. v \<in> set nodes) (node_refs h n)))"

definition order_nodes :: "heap \<Rightarrow> nid list \<Rightarrow> bool \<Rightarrow> nid list option" where
  "order_nodes h nodes by_position =
     map_option fst
       (ready_loop (if by_position then heap_least (index_of nodes) else hd) (\<lambda>n. n_users (hp_node h n)) (\<lambda>_ u. u \<in> set nodes)
          (reference_count h nodes) (filter (\<lambda>n. reference_count h nodes n = 0) nodes) [])"

definition collect_order :: "heap \<Rightarrow> gid \<Rightarrow> bool \<Rightarrow> nid list result option" where
  "collect_order h g by_position =
     map_option (\<lambda>res. if length res \<noteq> length (nodes_of h g) then Inl RuntimeError else Inr res) (order_nodes h (nodes_of h g) by_position)"

definition topo_sort :: "heap \<Rightarrow> nid list \<Rightarrow> nid list result option" where
  "topo_sort h nodes = map_option (\<lambda>res. if length res \<noteq> length nodes then Inl AssertionError else Inr res) (order_nodes h nodes True)"

lemma heap_least_in: "ready \<noteq> [] \<Longrightarrow> heap_least position ready \<in> set ready"
  unfolding heap_least_def by (metis hd_in_set set_sort sort_key_simps(1) length_0_conv length_sort)

lemma heap_least_min:
  assumes "n \<in> set ready" and "\<And>m. m \<in> set ready \<Longrightarrow> m \<noteq> n \<Longrightarrow> the (position n) < the (position m)" and "\<And>m. m \<in> set ready \<Longrightarrow> position m \<noteq> None"
  shows "heap_least position ready = n"
proof (rule ccontr)
  let ?k = "\<lambda>n. case position n of None \<Rightarrow> 0 | Some i \<Rightarrow> i"
  assume ne: "heap_least position ready \<noteq> n"
  define x where "x = heap_least position ready"
  have "sort_key ?k ready \<noteq> []" using assms(1) by (metis length_pos_if_in_set length_sort less_numeral_extra(3) list.size(3))
  then obtain rest where r: "sort_key ?k ready = x # rest" by (cases "sort_key ?k ready") (auto simp: x_def heap_least_def)
  have x: "x \<in> set ready" "n \<in> set (x # rest)" using r assms(1) by (metis list.set_intros(1) set_sort)+
  then have "?k x \<le> ?k n" using sorted_sort_key[of ?k ready] ne by (auto simp: r x_def)
  then show False using assms(2)[OF x(1)] assms(3)[OF x(1)] assms(3)[OF assms(1)] ne by (auto simp: x_def)
qed

definition refers_once :: "heap \<Rightarrow> nid list \<Rightarrow> bool" where
  "refers_once h nodes \<longleftrightarrow> (\<forall>n \<in> set nodes. distinct (filter (\<lambda>v. v \<in> set nodes) (node_refs h n)))"

lemma count_list_distinct: "distinct xs \<Longrightarrow> count_list xs u = (if u \<in> set xs then 1 else 0)"
  by (induction xs) auto

lemma users_edges:
  assumes "heap_ok h" and "finite P"
  shows "edges_from (\<lambda>n. n_users (hp_node h n)) P u = int (card (P \<inter> set (node_refs h u)))"
proof -
  have "distinct (n_users (hp_node h p))" for p using heap_ok_sel(1)[OF assms(1)] by (simp add: links_ok_def)
  then have "int (count_list (n_users (hp_node h p)) u) = (if p \<in> set (node_refs h u) then 1 else 0)" for p
    using links_users[OF heap_ok_sel(1)[OF assms(1)], of u p] links_refs[OF heap_ok_sel(1)[OF assms(1)], of u] by (simp add: count_list_distinct)
  then show ?thesis using assms(2) by (simp add: edges_from_def sum.If_cases)
qed

lemma reference_count_card:
  "int (card (set nodes \<inter> set (node_refs h n))) \<le> reference_count h nodes n"
  "reference_count h nodes n = int (card (set nodes \<inter> set (node_refs h n))) \<longleftrightarrow> distinct (filter (\<lambda>v. v \<in> set nodes) (node_refs h n))"
proof -
  have s: "set nodes \<inter> set (node_refs h n) = set (filter (\<lambda>v. v \<in> set nodes) (node_refs h n))" by auto
  show "int (card (set nodes \<inter> set (node_refs h n))) \<le> reference_count h nodes n"
    unfolding s reference_count_def using card_length by (simp only: of_nat_le_iff)
  show "reference_count h nodes n = int (card (set nodes \<inter> set (node_refs h n))) \<longleftrightarrow> distinct (filter (\<lambda>v. v \<in> set nodes) (node_refs h n))"
    unfolding s reference_count_def by (simp only: of_nat_eq_iff) (metis card_distinct distinct_card)
qed

lemma graph_countdown:
  assumes "heap_ok h" and "distinct nodes" and "\<And>r. r \<noteq> [] \<Longrightarrow> pick r \<in> set r"
  shows "countdown_order nodes (\<lambda>n. n_users (hp_node h n)) (reference_count h nodes) (\<lambda>_ u. u \<in> set nodes) pick"
  by unfold_locales (use assms reference_count_card(1) in \<open>simp_all add: users_edges\<close>)

lemma graph_exact:
  assumes "heap_ok h" and "distinct nodes" and "\<And>r. r \<noteq> [] \<Longrightarrow> pick r \<in> set r" and "refers_once h nodes"
  shows "exact_countdown nodes (\<lambda>n. n_users (hp_node h n)) (reference_count h nodes) (\<lambda>_ u. u \<in> set nodes) pick"
  by (intro exact_countdown.intro exact_countdown_axioms.intro graph_countdown[OF assms(1-3)])
    (use assms(1,4) in \<open>simp_all add: refers_once_def users_edges reference_count_card(2)\<close>)

lemma pick_in: "r \<noteq> [] \<Longrightarrow> (if by_position then heap_least pos else hd) r \<in> set r"
  by (simp add: heap_least_in)

lemma order_nodes_inv:
  assumes "heap_ok h" and "distinct nodes"
  obtains res deg where "order_nodes h nodes by_position = Some res"
    and "countdown_inv nodes (\<lambda>n. n_users (hp_node h n)) (reference_count h nodes) deg [] res"
  using countdown_order.order_result[OF graph_countdown[OF assms pick_in]] by (fastforce simp: order_nodes_def)

lemma in_order_topological:
  assumes "heap_ok h" and "\<And>n. n \<in> set nodes \<Longrightarrow> set (n_input_nodes (hp_node h n)) \<subseteq> set nodes" and "set ns \<subseteq> set nodes"
  shows "in_order nodes (\<lambda>n. n_users (hp_node h n)) ns \<longleftrightarrow> topological h ns"
  using assms links_users[OF heap_ok_sel(1)[OF assms(1)]]
  unfolding in_order_def topological_def precedes_comes_before by blast

lemma order_nodes_complete:
  assumes ok: "heap_ok h" "distinct nodes" and once: "refers_once h nodes" and o: "order_nodes h nodes by_position = Some res"
  shows "distinct res \<and> set res \<subseteq> set nodes \<and> in_order nodes (\<lambda>n. n_users (hp_node h n)) res \<and>
    ((\<exists>ns. mset ns = mset nodes \<and> in_order nodes (\<lambda>n. n_users (hp_node h n)) ns) \<longrightarrow> set res = set nodes)"
proof -
  obtain deg where inv: "countdown_inv nodes (\<lambda>n. n_users (hp_node h n)) (reference_count h nodes) deg [] res"
    using order_nodes_inv[OF ok, of by_position] o by force
  have "set res = set nodes" if "mset ns = mset nodes" "in_order nodes (\<lambda>n. n_users (hp_node h n)) ns" for ns
    using exact_countdown.order_complete[OF graph_exact[OF ok pick_in once] inv] that ok(2) mset_eq_imp_distinct_iff mset_eq_setD by metis
  then show ?thesis using inv by (auto simp: countdown_inv_def)
qed

lemma order_nodes_identity:
  assumes ok: "heap_ok h" "distinct nodes" and once: "refers_once h nodes" and ord: "in_order nodes (\<lambda>n. n_users (hp_node h n)) nodes"
  shows "order_nodes h nodes True = Some nodes"
proof -
  let ?us = "\<lambda>n. n_users (hp_node h n)" let ?c = "\<lambda>_ u. u \<in> set nodes"
  have pick: "\<And>r. r \<noteq> [] \<Longrightarrow> heap_least (index_of nodes) r \<in> set r" by (rule heap_least_in)
  have first: "heap_least (index_of nodes) ready = nodes ! k" if k: "k < length nodes" "nodes ! k \<in> set ready" "set ready \<subseteq> set (drop k nodes)" for k ready
  proof (rule heap_least_min[OF k(2)])
    have "index_of nodes (nodes ! k) = Some k" using index_of_Some[OF ok(2)] k(1) by simp
    moreover have "\<exists>i. index_of nodes m = Some i \<and> k \<le> i" if "m \<in> set ready" for m
    proof -
      have "m \<in> set (drop k nodes)" using that k(3) by blast
      then obtain j where "j < length nodes - k" "drop k nodes ! j = m" by (metis in_set_conv_nth length_drop)
      then show ?thesis using index_of_Some[OF ok(2), of m "k + j"] by auto
    qed
    ultimately show "the (index_of nodes (nodes ! k)) < the (index_of nodes m)" if "m \<in> set ready" "m \<noteq> nodes ! k" for m
      using that index_of_Some[OF ok(2)] by (metis le_neq_implies_less option.sel)
    show "index_of nodes m \<noteq> None" if "m \<in> set ready" for m using that k(3) by (auto simp: index_of_None dest: in_set_dropD)
  qed
  note ex = graph_exact[OF ok pick once]
  note inv = countdown_order.inv_start[OF exact_countdown.axioms(1)[OF ex]]
  obtain deg' where "ready_loop (heap_least (index_of nodes)) ?us ?c (reference_count h nodes) (filter (\<lambda>n. reference_count h nodes n = 0) nodes) [] = Some (nodes, deg')"
    using exact_countdown.identity_loop[OF ex ord first, of "reference_count h nodes" _ 0] inv by auto
  then show ?thesis by (simp add: order_nodes_def)
qed

lemma order_nodes_repeat:
  assumes ok: "heap_ok h" "distinct nodes" and rep: "\<not> refers_once h nodes"
  shows "\<exists>res. order_nodes h nodes by_position = Some res \<and> length res < length nodes"
proof -
  obtain res deg where res: "order_nodes h nodes by_position = Some res"
    and inv: "countdown_inv nodes (\<lambda>n. n_users (hp_node h n)) (reference_count h nodes) deg [] res" by (rule order_nodes_inv[OF ok])
  obtain n where n: "n \<in> set nodes" "\<not> distinct (filter (\<lambda>v. v \<in> set nodes) (node_refs h n))" using rep by (auto simp: refers_once_def)
  have s: "set res \<subseteq> set nodes" "distinct res" using inv by (auto simp: countdown_inv_def)
  have "int (card (set res \<inter> set (node_refs h n))) \<le> int (card (set nodes \<inter> set (node_refs h n)))"
    using s(1) by (simp only: of_nat_le_iff) (rule card_mono, auto)
  also have "\<dots> < reference_count h nodes n" using n(2) reference_count_card[where nodes=nodes and h=h and n=n] by linarith
  finally have "n \<notin> set res" using inv n(1) users_edges[OF ok(1), of "set res" n] by (auto simp: countdown_inv_def)
  then have "card (set res) < card (set nodes)" using s(1) n(1) by (intro psubset_card_mono) auto
  then show ?thesis using res s(2) ok(2) by (simp add: distinct_card)
qed

subsection \<open>Properties\<close>

text \<open>C16: On a consistent graph whose nodes take their inputs from the graph and refer to each of them once, ordering returns. The result is a permutation of the nodes in
  which inputs come first; RuntimeError means that there is none. An order that is right already is kept when positions decide.\<close>

theorem collect_order_correct:
  assumes "heap_ok h" and "\<forall>n \<in> set (nodes_of h g). set (n_input_nodes (hp_node h n)) \<subseteq> set (nodes_of h g)" and "refers_once h (nodes_of h g)"
  shows "\<exists>r. collect_order h g by_position = Some r \<and>
    (case r of Inr ns \<Rightarrow> mset ns = mset (nodes_of h g) \<and> topological h ns
     | Inl e \<Rightarrow> e = RuntimeError \<and> \<not> (\<exists>ns. mset ns = mset (nodes_of h g) \<and> topological h ns)) \<and>
    (by_position \<and> topological h (nodes_of h g) \<longrightarrow> r = Inr (nodes_of h g))"
proof -
  let ?N = "nodes_of h g"
  have d: "distinct ?N" by (rule book_ok_sel(1)[OF heap_ok_sel(2)[OF assms(1)]])
  note top = in_order_topological[OF assms(1) assms(2)[rule_format]]
  obtain res where res: "order_nodes h ?N by_position = Some res" using order_nodes_inv[OF assms(1) d] by metis
  note c = order_nodes_complete[OF assms(1) d assms(3) res]
  have l: "length res = length ?N \<longleftrightarrow> set res = set ?N" using c d by (metis card_subset_eq distinct_card finite_set)
  have m: "set res = set ?N \<Longrightarrow> mset res = mset ?N" using c d set_eq_iff_mset_eq_distinct by blast
  have "by_position \<and> topological h ?N \<Longrightarrow> res = ?N" using order_nodes_identity[OF assms(1) d assms(3)] top[of ?N] res by simp
  moreover have "topological h res" using c top[of res] by blast
  moreover have "set res = set ?N" if "mset ns = mset ?N" "topological h ns" for ns using c top[of ns] that mset_eq_setD by (metis subset_refl)
  ultimately show ?thesis using res l m by (auto simp: collect_order_def)
qed

text \<open>C37: A node that refers to one input twice makes the ordering raise RuntimeError, as for a cycle: references are counted twice, but the
  node is a user once.\<close>

theorem collect_order_rejects_repeat:
  assumes "heap_ok h" and "\<not> refers_once h (nodes_of h g)"
  shows "collect_order h g by_position = Some (Inl RuntimeError)"
proof -
  have "distinct (nodes_of h g)" by (rule book_ok_sel(1)[OF heap_ok_sel(2)[OF assms(1)]])
  then obtain res where "order_nodes h (nodes_of h g) by_position = Some res" "length res < length (nodes_of h g)"
    using order_nodes_repeat[OF assms(1) _ assms(2)] by blast
  then show ?thesis by (simp add: collect_order_def)
qed

theorem collect_order_correct_witness: "collect_order demo_heap 0 True = Some (Inr [0, 1, 2, 3, 4])"
proof -
  have t: "topological demo_heap (nodes_of demo_heap 0)" using demo_lint by (simp add: lint_eq[OF demo_ok] split: if_split_asm)
  have inp: "\<forall>n \<in> set (nodes_of demo_heap 0). set (n_input_nodes (hp_node demo_heap n)) \<subseteq> set (nodes_of demo_heap 0)"
    using topological_inputs[OF t] by blast
  have r: "refers_once demo_heap (nodes_of demo_heap 0)"
    using demo_node_rest by (simp add: refers_once_def node_refs_def demo_nodes demo_node)
  obtain r where "collect_order demo_heap 0 True = Some r" "True \<and> topological demo_heap (nodes_of demo_heap 0) \<longrightarrow> r = Inr (nodes_of demo_heap 0)"
    using collect_order_correct[OF demo_ok inp r, of True] by blast
  then show ?thesis using t by (simp add: demo_nodes)
qed

text \<open>A graph that multiplies its input with itself.\<close>

definition square_heap :: heap where
  "square_heap =
     (let h1 = snd (create_node 0 ''placeholder'' (TStr ''x'') [] [] (Some ''x'') ANone empty_heap);
          h2 = snd (create_node 0 ''call_function'' (TCallable fn_relu) [ANode 0, ANode 0] [] None ANone h1)
      in snd (create_node 0 ''output'' (TStr ''output'') [ANode 1] [] (Some ''output'') ANone h2))"

lemma built_square:
  "built_from square_heap [(''placeholder'', TStr ''x'', []), (''call_function'', TCallable fn_relu, [ANode 0, ANode 0]), (''output'', TStr ''output'', [ANode 1])]"
  unfolding square_heap_def Let_def
  by (rule built_step(2)[of _ "[a, b]" for a b, simplified], rule built_step(2)[of _ "[a]" for a, simplified], rule built_step(2)[OF built_empty, simplified])
     (simp_all add: legal_ops_def is_callable_def is_str_target_def args_nodes_def)

lemma square_facts:
  "heap_ok square_heap" "nodes_of square_heap 0 = [0, 1, 2]" "node_refs square_heap 1 = [0, 0]" "lint square_heap 0 = Inr ()"
proof -
  show ok: "heap_ok square_heap" using built_square by (simp add: built_from_def)
  show n: "nodes_of square_heap 0 = [0, 1, 2]" using built_square by (simp add: built_from_def upt_rec)
  show "node_refs square_heap 1 = [0, 0]" using built_square by (auto simp: built_from_def node_refs_def)
  have i: "set (n_input_nodes (hp_node square_heap 0)) = {}" "set (n_input_nodes (hp_node square_heap 1)) = {0}" "set (n_input_nodes (hp_node square_heap 2)) = {1}"
    using inputs_built[OF built_square, of 0] inputs_built[OF built_square, of 1] inputs_built[OF built_square, of 2] by (simp_all add: args_nodes_def)
  have "outputs square_heap 0 = [2]" using outputs_built[OF built_square] by (simp add: upt_rec)
  moreover have "topological square_heap [0, 1, 2]"
    using precedes_index[of "[0, 1, 2]" 0 1] precedes_index[of "[0, 1, 2]" 1 2] i by (simp add: topological_def)
  ultimately show "lint square_heap 0 = Inr ()" by (simp add: lint_eq[OF ok] n)
qed

theorem collect_order_rejects_repeat_witness: "lint square_heap 0 = Inr () \<and> collect_order square_heap 0 True = Some (Inl RuntimeError)"
proof -
  have "\<not> refers_once square_heap (nodes_of square_heap 0)" by (simp add: refers_once_def square_facts del: One_nat_def)
  then show ?thesis using collect_order_rejects_repeat[OF square_facts(1)] square_facts(4) by blast
qed

text \<open>The same for the nodes of a partition.\<close>

lemma topo_sort_rejects_repeat:
  assumes "heap_ok h" and "distinct nodes" and "\<not> refers_once h nodes"
  shows "topo_sort h nodes = Some (Inl AssertionError)"
proof -
  obtain res where "order_nodes h nodes True = Some res" "length res < length nodes" using order_nodes_repeat[OF assms] by blast
  then show ?thesis by (simp add: topo_sort_def)
qed

end
