(* ===== verification/GraphDce.thy ===== *)
theory GraphDce
  imports GraphChecks
begin

text \<open>
  Dead code elimination, \<^verbatim>\<open>dead_code_elimination\<close> of \<^verbatim>\<open>src/tensorplay/graph/graph.py\<close>: a worklist marks what the outputs and the
  impure nodes need; placeholders are kept as well, everything else is taken out of the graph.
\<close>

text \<open>The worklist loop, with the end of the list as the top of the stack; it may only be entered for allocated nodes, and each
  round either drops a marked entry or marks a node.\<close>

partial_function (option) dce_mark :: "heap \<Rightarrow> nid list \<Rightarrow> nid list \<Rightarrow> nid list option" where
  "dce_mark h live worklist =
     (if worklist = [] then Some live
      else let n = last worklist; rest = butlast worklist
           in if n \<in> set live then dce_mark h live rest
              else dce_mark h (n # live) (rest @ node_refs h n))"

declare dce_mark.simps [code]

definition dce_roots :: "heap \<Rightarrow> gid \<Rightarrow> nid list" where
  "dce_roots h g = outputs h g @ filter (is_impure h True) (nodes_of h g)"

definition dce_clear :: "nid \<Rightarrow> heap \<Rightarrow> heap" where
  "dce_clear n = upd_node n (\<lambda>nd. nd\<lparr>n_users := [], n_args := [], n_kwargs := [], n_input_nodes := [], n_graph := None, n_erased := True\<rparr>)"

definition dce_relink :: "nid \<Rightarrow> heap \<Rightarrow> heap" where
  "dce_relink n h = fold (\<lambda>i. upd_node i (n_users_update (user_add n))) (n_input_nodes (hp_node h n)) h"

text \<open>Not returning is the value None.\<close>

definition dead_code_elimination :: "gid \<Rightarrow> heap \<Rightarrow> (nat \<times> heap) option" where
  "dead_code_elimination g h =
     (case dce_mark h [] (dce_roots h g) of
        None \<Rightarrow> None
      | Some live \<Rightarrow>
          (let old_nodes = nodes_of h g;
               kept = filter (\<lambda>n. n \<in> set live \<or> n_op (hp_node h n) = ''placeholder'') old_nodes;
               removed = filter (\<lambda>n. n \<notin> set kept) old_nodes
           in if removed = [] then Some (0, h)
              else let h1 = replace_list g kept h;
                       h2 = fold dce_clear removed h1;
                       h3 = fold (\<lambda>n. upd_node n (n_users_update (\<lambda>_. []))) kept h2
                   in Some (length removed, fold dce_relink kept h3)))"

subsection \<open>Marking\<close>

definition ref_edge :: "heap \<Rightarrow> nid \<Rightarrow> nid \<Rightarrow> bool" where
  "ref_edge h n m \<longleftrightarrow> m \<in> set (node_refs h n)"

definition needed :: "heap \<Rightarrow> nid set \<Rightarrow> nid set" where
  "needed h R = {m. \<exists>r \<in> R. (ref_edge h)\<^sup>*\<^sup>* r m}"

lemma needed_mono_root: "r \<in> R \<Longrightarrow> r \<in> needed h R"
  by (auto simp: needed_def)

lemma needed_step: "n \<in> needed h R \<Longrightarrow> m \<in> set (node_refs h n) \<Longrightarrow> m \<in> needed h R"
  unfolding needed_def mem_Collect_eq by (metis ref_edge_def rtranclp.rtrancl_into_rtrancl)

lemma needed_least:
  assumes "R \<subseteq> S" and "\<And>n m. n \<in> S \<Longrightarrow> m \<in> set (node_refs h n) \<Longrightarrow> m \<in> S"
  shows "needed h R \<subseteq> S"
proof
  fix m assume "m \<in> needed h R"
  then obtain r where "r \<in> S" "(ref_edge h)\<^sup>*\<^sup>* r m" using assms(1) by (auto simp: needed_def)
  from this(2,1) show "m \<in> S" by (induction rule: rtranclp_induct) (auto simp: ref_edge_def intro: assms(2))
qed

text \<open>The loop ends: nodes are marked once, and all of them are allocated.\<close>

lemma dce_mark_result:
  assumes "\<And>n m. m \<in> set (node_refs h n) \<Longrightarrow> m < b" and "\<forall>n \<in> set wl. n < b" and "set live \<subseteq> {..<b}" and "distinct live"
    and "\<And>n m. n \<in> set live \<Longrightarrow> m \<in> set (node_refs h n) \<Longrightarrow> m \<in> set live \<union> set wl" and "R = set live \<union> set wl"
  shows "\<exists>l. dce_mark h live wl = Some l \<and> distinct l \<and> set l = needed h R"
  using assms(2-)
proof (induction "b - length live" arbitrary: live wl R rule: less_induct)
  case less
  note outer = less.hyps
  show ?case using less.prems
  proof (induction wl arbitrary: R rule: rev_induct)
    case Nil
    have "needed h (set live) = set live"
      by (rule antisym[OF needed_least]) (use Nil.prems in \<open>auto intro: needed_mono_root\<close>)
    then show ?case using Nil by (simp add: dce_mark.simps[of h live "[]"])
  next
    case (snoc n rest)
    show ?case
    proof (cases "n \<in> set live")
      case True
      then have "dce_mark h live (rest @ [n]) = dce_mark h live rest"
        by (subst dce_mark.simps) (simp add: Let_def)
      moreover have "R = set live \<union> set rest" using snoc.prems(5) True by auto
      moreover have "m \<in> set live \<union> set rest" if "n' \<in> set live" "m \<in> set (node_refs h n')" for n' m
        using snoc.prems(4)[OF that] True by auto
      ultimately show ?thesis using snoc.IH[of R] snoc.prems(1,2,3) by simp
    next
      case False
      have step: "dce_mark h live (rest @ [n]) = dce_mark h (n # live) (rest @ node_refs h n)"
        using False by (subst dce_mark.simps) (simp add: Let_def)
      have "card (set (n # live)) \<le> card {..<b}" by (rule card_mono) (use snoc.prems in auto)
      then have "length live < b" using snoc.prems(3) False by (simp add: distinct_card)
      then have lt: "b - length (n # live) < b - length live" by simp
      let ?R = "set (n # live) \<union> set (rest @ node_refs h n)"
      have "\<exists>l. dce_mark h (n # live) (rest @ node_refs h n) = Some l \<and> distinct l \<and> set l = needed h ?R"
      proof (rule outer[OF lt])
        show "\<forall>n' \<in> set (rest @ node_refs h n). n' < b" using snoc.prems(1) assms(1) by auto
        show "set (n # live) \<subseteq> {..<b}" "distinct (n # live)" using snoc.prems(1,2,3) False by auto
        show "m \<in> set (n # live) \<union> set (rest @ node_refs h n)" if "n' \<in> set (n # live)" "m \<in> set (node_refs h n')" for n' m
          using that snoc.prems(4)[of n' m] by auto
      qed simp
      moreover have "needed h ?R = needed h R"
      proof
        show "needed h ?R \<subseteq> needed h R"
          by (rule needed_least) (use snoc.prems(5) needed_mono_root[of _ R h] needed_step[of n h R] needed_step in auto)
        show "needed h R \<subseteq> needed h ?R"
          by (rule needed_least) (use snoc.prems(5) needed_mono_root[of _ ?R h] needed_step in auto)
      qed
      ultimately show ?thesis using step by simp
    qed
  qed
qed

subsection \<open>What is left of the graph\<close>

definition self_contained :: "heap \<Rightarrow> gid \<Rightarrow> bool" where
  "self_contained h g \<longleftrightarrow> (\<forall>n \<in> set (nodes_of h g). set (n_input_nodes (hp_node h n)) \<subseteq> set (nodes_of h g) \<and> set (n_users (hp_node h n)) \<subseteq> set (nodes_of h g))"

lemma dce_mark_needed:
  assumes "heap_ok h"
  shows "\<exists>l. dce_mark h [] (dce_roots h g) = Some l \<and> set l = needed h (set (dce_roots h g))"
proof -
  have "m < hp_next h" if "m \<in> set (node_refs h n)" for m n
    using inputs_allocated(1)[OF heap_ok_sel(1)[OF assms]] that by (simp add: node_refs_args_nodes)
  moreover have "\<forall>n \<in> set (dce_roots h g). n < hp_next h"
    using book_ok_sel(4)[OF heap_ok_sel(2)[OF assms], of _ g] by (auto simp: dce_roots_def outputs_def)
  ultimately show ?thesis using dce_mark_result[of h "hp_next h" "dce_roots h g" "[]" "set (dce_roots h g)"] by auto
qed

lemma placeholder_root: "n \<in> set (nodes_of h g) \<Longrightarrow> n_op (hp_node h n) = ''placeholder'' \<Longrightarrow> n \<in> set (dce_roots h g)"
  by (simp add: dce_roots_def is_impure_def Let_def)

lemma fold_dce_clear_sel:
  "hp_graph (fold dce_clear ns h) = hp_graph h" "hp_next (fold dce_clear ns h) = hp_next h"
  "hp_side_effectful (fold dce_clear ns h) = hp_side_effectful h"
  by (induction ns arbitrary: h) (auto simp: dce_clear_def)

lemma fold_dce_clear_node:
  "hp_node (fold dce_clear ns h) m = (if m \<in> set ns
     then (hp_node h m)\<lparr>n_users := [], n_args := [], n_kwargs := [], n_input_nodes := [], n_graph := None, n_erased := True\<rparr> else hp_node h m)"
  unfolding dce_clear_def by (rule fold_upd_node_idem) simp

lemma dce_relink_sel:
  "hp_graph (dce_relink n h) = hp_graph h" "hp_next (dce_relink n h) = hp_next h" "hp_side_effectful (dce_relink n h) = hp_side_effectful h"
  "hp_node (dce_relink n h) m = (if m \<in> set (n_input_nodes (hp_node h n)) then n_users_update (user_add n) (hp_node h m) else hp_node h m)"
  by (simp_all add: dce_relink_def fold_upd_node_sel users_add_fold)

lemma fold_dce_relink_sel:
  "hp_graph (fold dce_relink ns h) = hp_graph h" "hp_next (fold dce_relink ns h) = hp_next h"
  "hp_side_effectful (fold dce_relink ns h) = hp_side_effectful h"
  by (induction ns arbitrary: h) (simp_all add: dce_relink_sel)

lemma fold_dce_relink_node:
  "hp_node (fold dce_relink ns h) m = n_users_update (user_update (filter (\<lambda>u. m \<in> set (n_input_nodes (hp_node h u))) ns)) (hp_node h m)"
proof (induction ns arbitrary: h)
  case (Cons n ns)
  have inp: "n_input_nodes (hp_node (dce_relink n h) u) = n_input_nodes (hp_node h u)" for u by (simp add: dce_relink_sel)
  show ?case unfolding fold_simps Cons.IH inp
    by (simp add: dce_relink_sel(4) user_update_def comp_def)
qed (simp add: user_update_def)

definition dce_heap :: "gid \<Rightarrow> nid list \<Rightarrow> heap \<Rightarrow> heap" where
  "dce_heap g kept h =
     fold dce_relink kept (fold (\<lambda>n. upd_node n (n_users_update (\<lambda>_. []))) kept
       (fold dce_clear (filter (\<lambda>n. n \<notin> set kept) (nodes_of h g)) (replace_list g kept h)))"

lemma dce_eq:
  fixes g :: gid
  assumes "heap_ok h"
  defines "kept \<equiv> filter (\<lambda>n. n \<in> needed h (set (dce_roots h g))) (nodes_of h g)"
  shows "dead_code_elimination g h =
    Some (if kept = nodes_of h g then (0, h) else (length (nodes_of h g) - length kept, dce_heap g kept h))"
proof -
  obtain l where l: "dce_mark h [] (dce_roots h g) = Some l" "set l = needed h (set (dce_roots h g))" using dce_mark_needed[OF assms(1)] by blast
  have k: "filter (\<lambda>n. n \<in> set l \<or> n_op (hp_node h n) = ''placeholder'') (nodes_of h g) = kept"
    unfolding kept_def by (rule filter_cong) (auto simp: l(2) intro: needed_mono_root placeholder_root)
  have mem: "n \<in> set (nodes_of h g) \<Longrightarrow> n \<in> set kept \<longleftrightarrow> n \<in> needed h (set (dce_roots h g))" for n by (simp add: kept_def)
  have r: "filter (\<lambda>n. n \<notin> set kept) (nodes_of h g) = filter (\<lambda>n. n \<notin> needed h (set (dce_roots h g))) (nodes_of h g)"
    by (rule filter_cong) (simp_all add: mem)
  have e: "filter (\<lambda>n. n \<notin> set kept) (nodes_of h g) = [] \<longleftrightarrow> kept = nodes_of h g"
    unfolding r by (auto simp: kept_def filter_empty_conv filter_id_conv)
  have len: "length (filter (\<lambda>n. n \<notin> set kept) (nodes_of h g)) = length (nodes_of h g) - length kept"
    using sum_length_filter_compl[of "\<lambda>n. n \<in> needed h (set (dce_roots h g))" "nodes_of h g", folded kept_def] unfolding r by linarith
  show ?thesis unfolding dead_code_elimination_def l(1) option.case Let_def k e len by (simp add: dce_heap_def)
qed

lemma dce_heap_sel:
  "hp_next (dce_heap g kept h) = hp_next h" "hp_side_effectful (dce_heap g kept h) = hp_side_effectful h"
  "hp_graph (dce_heap g kept h) = hp_graph (replace_list g kept h)"
  by (simp_all add: dce_heap_def fold_dce_relink_sel fold_upd_node_sel fold_dce_clear_sel replace_list_sel)

text \<open>Every node after the elimination: kept ones have only kept users, removed ones are blanked, the rest of the store is untouched.\<close>

lemma dce_heap_node:
  assumes "distinct (nodes_of h g)" and "distinct kept" and "set kept \<subseteq> set (nodes_of h g)" and "\<And>n. n \<in> set kept \<Longrightarrow> set (n_input_nodes (hp_node h n)) \<subseteq> set kept"
  shows "hp_node (dce_heap g kept h) m =
    (if m \<in> set kept then (hp_node (replace_list g kept h) m)\<lparr>n_users := user_update (filter (\<lambda>u. m \<in> set (n_input_nodes (hp_node h u))) kept) []\<rparr>
     else if m \<in> set (nodes_of h g)
     then (hp_node (replace_list g kept h) m)\<lparr>n_users := [], n_args := [], n_kwargs := [], n_input_nodes := [], n_graph := None, n_erased := True\<rparr>
     else hp_node (replace_list g kept h) m)"
proof -
  let ?h1 = "replace_list g kept h"
  let ?h2 = "fold dce_clear (filter (\<lambda>n. n \<notin> set kept) (nodes_of h g)) ?h1"
  let ?h3 = "fold (\<lambda>n. upd_node n (n_users_update (\<lambda>_. []))) kept ?h2"
  have n3: "hp_node ?h3 m = (if m \<in> set kept then n_users_update (\<lambda>_. []) (hp_node ?h2 m) else hp_node ?h2 m)" for m
    by (rule fold_upd_node_idem) simp
  have n2: "m \<in> set kept \<Longrightarrow> hp_node ?h2 m = hp_node ?h1 m" for m by (simp add: fold_dce_clear_node)
  have inp: "u \<in> set kept \<Longrightarrow> n_input_nodes (hp_node ?h3 u) = n_input_nodes (hp_node h u)" for u
    by (simp add: n3 n2 replace_list_fields[OF assms(2)])
  have f: "filter (\<lambda>u. m \<in> set (n_input_nodes (hp_node ?h3 u))) kept = filter (\<lambda>u. m \<in> set (n_input_nodes (hp_node h u))) kept"
    by (rule filter_cong) (simp_all add: inp)
  have out: "m \<notin> set kept \<Longrightarrow> filter (\<lambda>u. m \<in> set (n_input_nodes (hp_node h u))) kept = []"
    using assms(4) by (auto simp: filter_empty_conv)
  show ?thesis unfolding dce_heap_def fold_dce_relink_node f
  proof (cases "m \<in> set kept")
    case True
    then show "n_users_update (user_update (filter (\<lambda>u. m \<in> set (n_input_nodes (hp_node h u))) kept)) (hp_node ?h3 m) =
      (if m \<in> set kept then (hp_node ?h1 m)\<lparr>n_users := user_update (filter (\<lambda>u. m \<in> set (n_input_nodes (hp_node h u))) kept) []\<rparr>
       else if m \<in> set (nodes_of h g) then (hp_node ?h1 m)\<lparr>n_users := [], n_args := [], n_kwargs := [], n_input_nodes := [], n_graph := None, n_erased := True\<rparr>
       else hp_node ?h1 m)" by (simp add: n3 n2)
  next
    case False
    then show "n_users_update (user_update (filter (\<lambda>u. m \<in> set (n_input_nodes (hp_node h u))) kept)) (hp_node ?h3 m) =
      (if m \<in> set kept then (hp_node ?h1 m)\<lparr>n_users := user_update (filter (\<lambda>u. m \<in> set (n_input_nodes (hp_node h u))) kept) []\<rparr>
       else if m \<in> set (nodes_of h g) then (hp_node ?h1 m)\<lparr>n_users := [], n_args := [], n_kwargs := [], n_input_nodes := [], n_graph := None, n_erased := True\<rparr>
       else hp_node ?h1 m)" by (simp add: n3 out[OF False] fold_dce_clear_node)
  qed
qed

lemma dce_heap_ok:
  assumes ok: "heap_ok h" and sc: "self_contained h g" and d: "distinct kept" and sub: "set kept \<subseteq> set (nodes_of h g)"
    and cl: "\<And>n. n \<in> set kept \<Longrightarrow> set (n_input_nodes (hp_node h n)) \<subseteq> set kept"
  shows "heap_ok (dce_heap g kept h)"
proof -
  let ?h1 = "replace_list g kept h" let ?h = "dce_heap g kept h" let ?ns = "set (nodes_of h g)"
  note l = heap_ok_sel(1)[OF ok]
  have dn: "distinct (nodes_of h g)" by (rule book_ok_sel(1)[OF heap_ok_sel(2)[OF ok]])
  note nd = dce_heap_node[OF dn d sub cl] and fl = replace_list_fields[OF d]
  have ok1: "heap_ok ?h1" by (rule replace_list_ok[OF ok d sub])
  have mem: "set (nodes_of ?h1 g') \<inter> ?ns \<subseteq> (if g' = g then set kept else {})" for g'
    using heap_ok_graph[OF ok] by (auto simp: replace_list_sel)
  have hdr: "m \<in> set (nodes_of ?h1 g') \<Longrightarrow> same_header (hp_node ?h m) (hp_node ?h1 m)" for m g'
    using mem[of g'] sub by (auto simp: nd same_header_def split: if_split_asm)
  have gr: "n_graph (hp_node ?h m) = n_graph (hp_node ?h1 m)" for m
    using heap_ok_graph[OF ok, of m g] by (simp add: nd replace_list_graph[OF d])
  have "book_ok {} ?h g'" for g'
    by (rule book_ok_same[OF heap_ok_sel(2)[OF ok1] _ _ _ hdr]) (simp_all add: dce_heap_sel replace_list_sel gr)
  moreover have "names_ok ?h g'" for g'
    by (rule names_ok_other[OF heap_ok_sel(3)[OF ok1]]) (use hdr in \<open>simp_all add: dce_heap_sel replace_list_sel same_header_def\<close>)
  moreover have "links_ok ?h"
    unfolding links_ok_def
  proof (intro conjI allI impI)
    fix m
    show "n_input_nodes (hp_node ?h m) = user_update (args_nodes (n_args (hp_node ?h m)) (n_kwargs (hp_node ?h m))) []"
      using l by (simp add: nd fl links_ok_def) (simp add: args_nodes_def)
    show "distinct (n_users (hp_node ?h m))" using links_distinct_users[OF l] by (simp add: nd fl)
    show "u \<in> set (n_users (hp_node ?h m)) \<longleftrightarrow> m \<in> set (n_input_nodes (hp_node ?h u))" for u
    proof -
      have "m \<in> ?ns \<longleftrightarrow> u \<in> ?ns" if "u \<in> set (n_users (hp_node h m))"
        using that sc links_users[OF l, of u m] unfolding self_contained_def by blast
      then show ?thesis
        using links_users[OF l, of u m] cl[of u] sub by (auto simp: nd fl)
    qed
    assume "hp_next ?h \<le> m"
    then have m: "hp_next h \<le> m" by (simp add: dce_heap_sel)
    then have "m \<notin> ?ns" using book_ok_sel(4)[OF heap_ok_sel(2)[OF ok], of m g] by fastforce
    then show "hp_node ?h m = blank_node" using links_blank[OF l m] sub by (auto simp: nd replace_list_other)
  qed
  ultimately show ?thesis by (simp add: heap_ok_def)
qed

text \<open>The elimination keeps a checked graph checked, and computes the least part that outputs, impure nodes and placeholders need.\<close>

lemma dce_kept_closed:
  assumes "heap_ok h" and "n \<in> needed h R" and "i \<in> set (n_input_nodes (hp_node h n))"
  shows "i \<in> needed h R"
  using needed_step[OF assms(2)] assms(3) links_refs[OF heap_ok_sel(1)[OF assms(1)]] by blast

lemma dce_spec:
  assumes ok: "heap_ok h" and sc: "self_contained h g"
  shows "\<exists>h'. dead_code_elimination g h = Some (length (nodes_of h g) - length (nodes_of h' g), h') \<and> heap_ok h' \<and>
    nodes_of h' g = filter (\<lambda>n. n \<in> needed h (set (dce_roots h g))) (nodes_of h g) \<and>
    hp_side_effectful h' = hp_side_effectful h \<and> g_owner (hp_graph h' g) = g_owner (hp_graph h g) \<and>
    (\<forall>g'. g' \<noteq> g \<longrightarrow> hp_graph h' g' = hp_graph h g') \<and>
    (\<forall>n \<in> set (nodes_of h' g). same_body (hp_node h' n) (hp_node h n) \<and> n_graph (hp_node h' n) = Some g)"
proof -
  let ?kept = "filter (\<lambda>n. n \<in> needed h (set (dce_roots h g))) (nodes_of h g)"
  have dn: "distinct (nodes_of h g)" by (rule book_ok_sel(1)[OF heap_ok_sel(2)[OF ok]])
  show ?thesis
  proof (cases "?kept = nodes_of h g")
    case True
    then show ?thesis using dce_eq[OF ok, of g] ok heap_ok_graph[OF ok] by (intro exI[of _ h]) (simp add: same_body_def)
  next
    case False
    have d: "distinct ?kept" and sub: "set ?kept \<subseteq> set (nodes_of h g)" using dn by auto
    have cl: "set (n_input_nodes (hp_node h n)) \<subseteq> set ?kept" if "n \<in> set ?kept" for n
      using that sc dce_kept_closed[OF ok] unfolding self_contained_def by auto
    let ?h = "dce_heap g ?kept h"
    have body: "same_body (hp_node ?h n) (hp_node h n) \<and> n_graph (hp_node ?h n) = Some g" if "n \<in> set ?kept" for n
      using that by (simp only: dce_heap_node[OF dn d sub cl] if_True) (simp add: same_body_def replace_list_fields[OF d] replace_list_graph[OF d])
    have nodes: "nodes_of ?h g = ?kept" by (simp add: dce_heap_sel replace_list_sel)
    show ?thesis
      by (intro exI[of _ ?h] conjI)
         (use dce_eq[OF ok, of g] False dce_heap_ok[OF ok sc d sub cl] body in \<open>simp_all add: dce_heap_sel replace_list_sel\<close>)
  qed
qed

subsection \<open>Property\<close>

text \<open>C11: On a consistent graph whose nodes use and are used by its own nodes only, the elimination returns; the nodes left are, in their old order,
  exactly those that an output, a placeholder or another impure node reaches through its arguments, with unchanged arguments; the count is the number
  of nodes taken out, and the store is consistent again.\<close>

theorem dce_keeps_exactly_needed:
  assumes "heap_ok h" and "self_contained h g"
  shows "\<exists>h'. dead_code_elimination g h = Some (length (nodes_of h g) - length (nodes_of h' g), h') \<and> heap_ok h' \<and>
    nodes_of h' g = filter (\<lambda>n. n \<in> needed h (set (dce_roots h g))) (nodes_of h g) \<and>
    (\<forall>n \<in> set (nodes_of h' g). same_body (hp_node h' n) (hp_node h n) \<and> n_graph (hp_node h' n) = Some g)"
  using dce_spec[OF assms] by blast

lemma no_random: "\<not> contains_str ''random'' (map to_lower ''sin'')" "\<not> contains_str ''random'' (map to_lower ''relu'')"
  "\<not> contains_str ''random'' (map to_lower ''tensorplay'')"
  by code_simp+

lemma demo_self_contained: "self_contained demo_heap 0"
proof -
  have "set (n_users (hp_node demo_heap n)) \<subseteq> {0, 1, 2, 3, 4}" for n unfolding demo_users by auto
  then show ?thesis unfolding self_contained_def demo_nodes using demo_inputs by auto
qed

lemma demo_impure:
  "is_impure demo_heap True 0" "\<not> is_impure demo_heap True (Suc 0)" "\<not> is_impure demo_heap True 2" "\<not> is_impure demo_heap True 3" "is_impure demo_heap True 4"
  using demo_node_rest built_demo no_random
  by (simp_all add: is_impure_def demo_node Let_def meta_true_def has_side_effect_def fn_sin_def fn_relu_def built_from_def ends_with_def)

lemma demo_needed: "needed demo_heap (set (dce_roots demo_heap 0)) = {0, 2, 3, 4}"
proof
  have r: "set (dce_roots demo_heap 0) = {0, 4}" using demo_impure by (auto simp: dce_roots_def demo_outputs demo_nodes)
  note refs = links_refs[OF heap_ok_sel(1)[OF demo_ok]]
  have cl: "set (node_refs demo_heap n) \<subseteq> {0, 2, 3, 4}" if "n \<in> {0, 2, 3, 4}" for n
    using that unfolding refs by (elim insertE emptyE) (simp_all only: demo_inputs, blast+)
  show "needed demo_heap (set (dce_roots demo_heap 0)) \<subseteq> {0, 2, 3, 4}"
    unfolding r by (rule needed_least, blast, rule subsetD[OF cl])
  have "4 \<in> needed demo_heap {0, 4}" "0 \<in> needed demo_heap {0, 4}" by (simp_all add: needed_mono_root)
  moreover from this(1) have "3 \<in> needed demo_heap {0, 4}" by (rule needed_step) (simp add: refs demo_inputs)
  moreover from this have "2 \<in> needed demo_heap {0, 4}" by (rule needed_step) (simp add: refs demo_inputs)
  ultimately show "{0, 2, 3, 4} \<subseteq> needed demo_heap (set (dce_roots demo_heap 0))" unfolding r by blast
qed

theorem dce_keeps_exactly_needed_witness: "\<exists>h'. dead_code_elimination 0 demo_heap = Some (1, h') \<and> nodes_of h' 0 = [0, 2, 3, 4]"
proof -
  have n: "filter (\<lambda>n. n \<in> needed demo_heap (set (dce_roots demo_heap 0))) (nodes_of demo_heap 0) = [0, 2, 3, 4]"
    by (simp add: demo_needed demo_nodes)
  then show ?thesis using dce_keeps_exactly_needed[OF demo_ok demo_self_contained] unfolding n by (auto simp: demo_nodes)
qed

end
