(* ===== verification/GraphInterp.thy ===== *)
theory GraphInterp
  imports GraphDce
begin

text \<open>
  Execution of a graph, the class \<open>Interpreter\<close> of \<^verbatim>\<open>src/tensorplay/graph/interpreter.py\<close>: nodes are run in list order, their arguments
  read from an environment of earlier values; a value may be dropped after its last use. The objects that are called and their
  attributes are the parameter \<open>runtime\<close>, which also says how a call changes the observable state \<open>'w\<close>. A runtime value is an
  argument structure without node references. The default code generator passes inputs and outputs through unchanged;
  answering calls by a handler is not part of the model.
\<close>

subsection \<open>Definitions\<close>

text \<open>Of a module that is a GraphModule: its graph-owned attributes and the module it was made from.\<close>

record module_attrs =
  ma_graph_attrs :: "string \<Rightarrow> arg option"
  ma_root :: "arg option"

record 'w runtime =
  rt_call :: "callable \<Rightarrow> arg list \<Rightarrow> kwargs \<Rightarrow> 'w \<Rightarrow> arg result \<times> 'w"
  rt_method :: "arg \<Rightarrow> string \<Rightarrow> arg list \<Rightarrow> kwargs \<Rightarrow> 'w \<Rightarrow> arg result \<times> 'w"
  rt_object :: "arg \<Rightarrow> arg list \<Rightarrow> kwargs \<Rightarrow> 'w \<Rightarrow> arg result \<times> 'w"
  rt_getattr :: "arg \<Rightarrow> string \<Rightarrow> 'w \<Rightarrow> arg option"
  rt_module :: arg
  rt_graph_module :: "module_attrs option"

fun split_on_dot :: "string \<Rightarrow> string list" where
  "split_on_dot [] = [[]]"
| "split_on_dot (c # cs) =
     (if c = CHR ''.'' then [] # split_on_dot cs
      else case split_on_dot cs of [] \<Rightarrow> [[c]] | s # ss \<Rightarrow> (c # s) # ss)"

definition all_digits :: "string \<Rightarrow> bool" where
  "all_digits s = (s \<noteq> [] \<and> (\<forall>c \<in> set s. is_digit c))"

definition fetch_atom :: "'w runtime \<Rightarrow> 'w \<Rightarrow> arg \<Rightarrow> string \<Rightarrow> arg result" where
  "fetch_atom rt w value atom =
     (let by_attr = (case rt_getattr rt value atom w of None \<Rightarrow> Inl RuntimeError | Some v \<Rightarrow> Inr v)
      in case value of
           AList xs \<Rightarrow> if all_digits atom then py_nth xs (int (digits_value atom)) else by_attr
         | ATuple xs \<Rightarrow> if all_digits atom then py_nth xs (int (digits_value atom)) else by_attr
         | ADict kvs \<Rightarrow> (case map_of kvs (KStr atom) of Some v \<Rightarrow> Inr v | None \<Rightarrow> by_attr)
         | _ \<Rightarrow> by_attr)"

definition attr_list_step :: "'w runtime \<Rightarrow> 'w \<Rightarrow> arg \<Rightarrow> string \<Rightarrow> arg result" where
  "attr_list_step rt w current part =
     (let by_attr = (case rt_getattr rt current part w of None \<Rightarrow> Inl AttributeError | Some v \<Rightarrow> Inr v)
      in case current of
           ADict kvs \<Rightarrow> (case map_of kvs (KStr part) of Some v \<Rightarrow> Inr v | None \<Rightarrow> by_attr)
         | AList xs \<Rightarrow> if all_digits part then py_nth xs (int (digits_value part)) else by_attr
         | ATuple xs \<Rightarrow> if all_digits part then py_nth xs (int (digits_value part)) else by_attr
         | _ \<Rightarrow> by_attr)"

definition lookup_path :: "'w runtime \<Rightarrow> 'w \<Rightarrow> arg \<Rightarrow> string \<Rightarrow> arg result" where
  "lookup_path rt w value target =
     (case (case value of ADict kvs \<Rightarrow> map_of kvs (KStr target) | _ \<Rightarrow> None) of
        Some v \<Rightarrow> Inr v
      | None \<Rightarrow> if target = [] then Inr value else foldM (attr_list_step rt w) value (split_on_dot target))"

text \<open>All errors of the first lookup are ones that \<open>GraphModule._get_attr\<close> catches.\<close>

definition module_get_attr :: "'w runtime \<Rightarrow> 'w \<Rightarrow> module_attrs \<Rightarrow> string \<Rightarrow> arg result" where
  "module_get_attr rt w gm target =
     (case ma_graph_attrs gm target of
        Some v \<Rightarrow> Inr v
      | None \<Rightarrow>
          (case lookup_path rt w (rt_module rt) target of
             Inr v \<Rightarrow> Inr v
           | Inl e \<Rightarrow> (case ma_root gm of Some root \<Rightarrow> lookup_path rt w root target | None \<Rightarrow> Inl e)))"

definition fetch_attr :: "'w runtime \<Rightarrow> 'w \<Rightarrow> string \<Rightarrow> arg result" where
  "fetch_attr rt w target =
     (case rt_graph_module rt of
        Some gm \<Rightarrow> (case module_get_attr rt w gm target of Inl e \<Rightarrow> Inl (if e = AttributeError then RuntimeError else e) | Inr v \<Rightarrow> Inr v)
      | None \<Rightarrow> foldM (fetch_atom rt w) (rt_module rt) (split_on_dot target))"

record 'w istate =
  i_env :: "nid \<Rightarrow> arg option"
  i_args :: "arg list"
  i_world :: 'w

definition map_nodes_to_values :: "(nid \<Rightarrow> arg option) \<Rightarrow> arg \<Rightarrow> arg result" where
  "map_nodes_to_values env v = map_arg_u (\<lambda>n. case env n of None \<Rightarrow> Inl RuntimeError | Some x \<Rightarrow> Inr x) v"

definition fetch_args_kwargs_from_env :: "heap \<Rightarrow> (nid \<Rightarrow> arg option) \<Rightarrow> nid \<Rightarrow> (arg list \<times> kwargs) result" where
  "fetch_args_kwargs_from_env h env n =
     rbind (traverse (map_nodes_to_values env) (n_args (hp_node h n))) (\<lambda>args.
     rbind (traverse (\<lambda>kv. rbind (map_nodes_to_values env (snd kv)) (\<lambda>y. Inr (fst kv, y))) (n_kwargs (hp_node h n))) (\<lambda>kwargs.
       Inr (args, kwargs)))"

text \<open>The input of a placeholder: the rest for a starred name, else a keyword, else the next positional value, else the default.\<close>

definition run_placeholder :: "(string \<times> arg) list \<Rightarrow> (string \<times> arg) list \<Rightarrow> target \<Rightarrow> arg list \<Rightarrow> arg result \<times> arg list" where
  "run_placeholder keyword_args defaults tgt positional =
     (case tgt of
        TStr target \<Rightarrow>
          if starts_with target ''*'' then (Inr (AList positional), [])
          else (case map_of keyword_args target of
                  Some v \<Rightarrow> (Inr v, positional)
                | None \<Rightarrow>
                    (case positional of
                       v # rest \<Rightarrow> (Inr v, rest)
                     | [] \<Rightarrow> (case map_of defaults target of Some v \<Rightarrow> (Inr v, []) | None \<Rightarrow> (Inl RuntimeError, []))))
      | _ \<Rightarrow> (Inl TypeError, positional))"

text \<open>The operations other than placeholders.\<close>

definition run_op :: "'w runtime \<Rightarrow> graph_node \<Rightarrow> arg list \<Rightarrow> kwargs \<Rightarrow> 'w \<Rightarrow> arg result \<times> 'w" where
  "run_op rt nd args kwargs w =
     (if n_op nd = ''get_attr'' then
        (case n_target nd of TStr target \<Rightarrow> (fetch_attr rt w target, w) | _ \<Rightarrow> (Inl TypeError, w))
      else if n_op nd = ''call_function'' then
        (case n_target nd of TCallable c \<Rightarrow> rt_call rt c args kwargs w | _ \<Rightarrow> (Inl TypeError, w))
      else if n_op nd = ''call_method'' then
        (case n_target nd of
           TStr target \<Rightarrow> (case args of [] \<Rightarrow> (Inl RuntimeError, w) | receiver # tail \<Rightarrow> rt_method rt receiver target tail kwargs w)
         | _ \<Rightarrow> (Inl TypeError, w))
      else if n_op nd = ''call_module'' then
        (case n_target nd of
           TStr target \<Rightarrow> (case fetch_attr rt w target of Inl e \<Rightarrow> (Inl e, w) | Inr f \<Rightarrow> rt_object rt f args kwargs w)
         | _ \<Rightarrow> (Inl TypeError, w))
      else if n_op nd = ''output'' then (if length args \<noteq> 1 then Inl RuntimeError else Inr (hd args), w)
      else (Inl AttributeError, w))"

definition run_node :: "'w runtime \<Rightarrow> heap \<Rightarrow> (string \<times> arg) list \<Rightarrow> (string \<times> arg) list \<Rightarrow> nid \<Rightarrow> 'w istate \<Rightarrow> arg result \<times> 'w istate" where
  "run_node rt h keyword_args defaults n st =
     (case fetch_args_kwargs_from_env h (i_env st) n of
        Inl e \<Rightarrow> (Inl e, st)
      | Inr (args, kwargs) \<Rightarrow>
          if n_op (hp_node h n) = ''placeholder'' then
            (case run_placeholder keyword_args defaults (n_target (hp_node h n)) (i_args st) of (r, rest) \<Rightarrow> (r, st\<lparr>i_args := rest\<rparr>))
          else (case run_op rt (hp_node h n) args kwargs (i_world st) of (r, w) \<Rightarrow> (r, st\<lparr>i_world := w\<rparr>)))"

text \<open>The last user of every value, found from the end of the list.\<close>

definition note_last_use :: "nid \<Rightarrow> nid \<Rightarrow> nid list \<times> (nid \<Rightarrow> nid list) \<Rightarrow> nid list \<times> (nid \<Rightarrow> nid list)" where
  "note_last_use current value acc =
     (case acc of (seen, uses) \<Rightarrow>
        if value \<in> set seen then (seen, uses) else (value # seen, uses(current := uses current @ [value])))"

definition user_to_last_uses :: "heap \<Rightarrow> nid list \<Rightarrow> nid \<Rightarrow> nid list" where
  "user_to_last_uses h ns = snd (fold (\<lambda>current. fold (note_last_use current) (node_refs h current)) (rev ns) ([], \<lambda>_. []))"

definition drop_values :: "nid list \<Rightarrow> (nid \<Rightarrow> arg option) \<Rightarrow> nid \<Rightarrow> arg option" where
  "drop_values vs env = (\<lambda>m. if m \<in> set vs then None else env m)"

definition wrap_error :: "py_error \<Rightarrow> py_error" where
  "wrap_error e = (if e = KeyError then RuntimeError else e)"

fun run_nodes :: "'w runtime \<Rightarrow> heap \<Rightarrow> (nid \<Rightarrow> nid list) \<Rightarrow> (string \<times> arg) list \<Rightarrow> (string \<times> arg) list \<Rightarrow> nid list \<Rightarrow> 'w istate \<Rightarrow>
    arg result \<times> 'w istate" where
  "run_nodes rt h uses kw df [] st = (Inl RuntimeError, st)"
| "run_nodes rt h uses kw df (n # ns) st =
     (case i_env st n of
        Some v \<Rightarrow> if n_op (hp_node h n) = ''output'' then (Inr v, st) else run_nodes rt h uses kw df ns st
      | None \<Rightarrow>
          (case run_node rt h kw df n st of
             (Inl e, st') \<Rightarrow> (Inl (wrap_error e), st')
           | (Inr v, st') \<Rightarrow>
               (let st2 = st'\<lparr>i_env := drop_values (uses n) ((i_env st')(n \<mapsto> v))\<rparr>
                in if n_op (hp_node h n) = ''output''
                   then (case i_env st2 n of None \<Rightarrow> (Inl KeyError, st2) | Some x \<Rightarrow> (Inr x, st2))
                   else run_nodes rt h uses kw df ns st2)))"

definition placeholder_defaults :: "heap \<Rightarrow> gid \<Rightarrow> (string \<times> arg) list" where
  "placeholder_defaults h g =
     concat (map (\<lambda>n. case map_of (n_meta (hp_node h n)) ''default'' of None \<Rightarrow> [] | Some d \<Rightarrow> [(n_name (hp_node h n), d)])
       (rev (placeholders h g)))"

definition run :: "'w runtime \<Rightarrow> bool \<Rightarrow> heap \<Rightarrow> gid \<Rightarrow> (nid \<Rightarrow> arg option) \<Rightarrow> arg list \<Rightarrow> (string \<times> arg) list \<Rightarrow> 'w \<Rightarrow> arg result \<times> 'w" where
  "run rt garbage_collect_values h g initial_env args keyword_args w =
     (let uses = (if garbage_collect_values then user_to_last_uses h (nodes_of h g) else (\<lambda>_. []));
          (r, st) = run_nodes rt h uses keyword_args (placeholder_defaults h g) (nodes_of h g) \<lparr>i_env = initial_env, i_args = args, i_world = w\<rparr>
      in (r, i_world st))"

definition boxed_run :: "'w runtime \<Rightarrow> bool \<Rightarrow> heap \<Rightarrow> gid \<Rightarrow> arg list \<Rightarrow> 'w \<Rightarrow> arg result \<times> 'w" where
  "boxed_run rt gc h g args_list w =
     (if length args_list \<noteq> length (placeholders h g) then (Inl RuntimeError, w)
      else run rt gc h g (map_of (rev (zip (placeholders h g) args_list))) [] [] w)"

subsection \<open>Dropping values after their last use\<close>

lemma fold_note_last_use:
  "\<exists>new. fold (note_last_use n) vs (seen, uses) = (rev new @ seen, uses(n := uses n @ new)) \<and> set new = set vs - set seen"
proof (induction vs arbitrary: seen uses)
  case (Cons v vs)
  show ?case
  proof (cases "v \<in> set seen")
    case True
    then show ?thesis using Cons[of seen uses] by (auto simp: note_last_use_def)
  next
    case False
    from Cons[of "v # seen" "uses(n := uses n @ [v])"] obtain new where
      "fold (note_last_use n) vs (v # seen, uses(n := uses n @ [v])) = (rev new @ v # seen, uses(n := uses n @ v # new))"
      "set new = set vs - set (v # seen)" by (auto simp only: fun_upd_upd fun_upd_same append_assoc append.simps)
    moreover have "note_last_use n v (seen, uses) = (v # seen, uses(n := uses n @ [v]))" using False by (simp add: note_last_use_def)
    moreover have "set (v # new) = set (v # vs) - set seen" using False \<open>set new = _\<close> by auto
    ultimately show ?thesis by (intro exI[of _ "v # new"]) (simp only: fold_simps rev.simps append_assoc append.simps simp_thms)
  qed
qed simp

definition last_use_acc :: "heap \<Rightarrow> nid list \<Rightarrow> nid list \<times> (nid \<Rightarrow> nid list)" where
  "last_use_acc h ns = fold (\<lambda>current. fold (note_last_use current) (node_refs h current)) (rev ns) ([], \<lambda>_. [])"

lemma last_use_acc_Cons:
  "\<exists>new. fst (last_use_acc h (n # ns)) = rev new @ fst (last_use_acc h ns) \<and>
     snd (last_use_acc h (n # ns)) = (snd (last_use_acc h ns))(n := snd (last_use_acc h ns) n @ new) \<and>
     set new = set (node_refs h n) - set (fst (last_use_acc h ns))"
proof -
  have "last_use_acc h (n # ns) = fold (note_last_use n) (node_refs h n) (fst (last_use_acc h ns), snd (last_use_acc h ns))"
    by (simp add: last_use_acc_def)
  then show ?thesis using fold_note_last_use[of n "node_refs h n" "fst (last_use_acc h ns)" "snd (last_use_acc h ns)"] by auto
qed

lemma last_use_acc_seen: "set (fst (last_use_acc h ns)) = (\<Union>n \<in> set ns. set (node_refs h n))"
proof (induction ns)
  case (Cons n ns)
  then show ?case using last_use_acc_Cons[of h n ns] by auto
qed (simp add: last_use_acc_def)

lemma last_use_acc_out: "u \<notin> set ns \<Longrightarrow> snd (last_use_acc h ns) u = []"
proof (induction ns)
  case (Cons n ns)
  then show ?case using last_use_acc_Cons[of h n ns] by auto
qed (simp add: last_use_acc_def)

text \<open>Along a list: inputs do not come later, and what a node may drop is its own and no later input.\<close>

fun gc_safe :: "heap \<Rightarrow> (nid \<Rightarrow> nid list) \<Rightarrow> nid list \<Rightarrow> bool" where
  "gc_safe h uses [] = True"
| "gc_safe h uses (n # ns) =
     ((\<forall>v \<in> set (node_refs h n). v \<noteq> n \<and> v \<notin> set ns) \<and>
      (\<forall>v \<in> set (uses n). v \<in> set (node_refs h n) \<and> (\<forall>m \<in> set ns. v \<notin> set (node_refs h m))) \<and> gc_safe h uses ns)"

lemma gc_safe_cong: "(\<And>n. n \<in> set ns \<Longrightarrow> uses n = uses' n) \<Longrightarrow> gc_safe h uses ns = gc_safe h uses' ns"
  by (induction ns) auto

lemma gc_safe_last_uses:
  assumes "distinct ns" and "\<And>pre n post. ns = pre @ n # post \<Longrightarrow> \<forall>v \<in> set (node_refs h n). v \<noteq> n \<and> v \<notin> set post"
  shows "gc_safe h (snd (last_use_acc h ns)) ns"
  using assms
proof (induction ns)
  case (Cons n ns)
  obtain new where new: "snd (last_use_acc h (n # ns)) = (snd (last_use_acc h ns))(n := snd (last_use_acc h ns) n @ new)"
    "set new = set (node_refs h n) - set (fst (last_use_acc h ns))" using last_use_acc_Cons[of h n ns] by blast
  have n: "n \<notin> set ns" using Cons.prems by simp
  have "gc_safe h (snd (last_use_acc h ns)) ns"
  proof (rule Cons.IH)
    fix pre m post assume "ns = pre @ m # post"
    then show "\<forall>v \<in> set (node_refs h m). v \<noteq> m \<and> v \<notin> set post" using Cons.prems(2)[of "n # pre" m post] by simp
  qed (use Cons.prems in simp)
  then have "gc_safe h (snd (last_use_acc h (n # ns))) ns" using n by (subst gc_safe_cong[of _ _ "snd (last_use_acc h ns)"]) (auto simp: new)
  moreover have "snd (last_use_acc h (n # ns)) n = new" using last_use_acc_out[OF n] by (simp add: new)
  ultimately show ?case using new(2) Cons.prems(2)[of "[]" n ns] by (auto simp: last_use_acc_seen)
qed simp

lemma topological_split:
  assumes "topological h (pre @ n # post)" and "distinct (pre @ n # post)" and "links_ok h"
  shows "\<forall>v \<in> set (node_refs h n). v \<noteq> n \<and> v \<notin> set post"
proof
  fix v assume "v \<in> set (node_refs h n)"
  then have "precedes (pre @ n # post) v n" using assms(1) links_refs[OF assms(3)] by (auto simp: topological_def)
  then obtain p q where pq: "p < q" "q < length (pre @ n # post)" "(pre @ n # post) ! p = v" "(pre @ n # post) ! q = n" by (auto simp: precedes_def)
  have "(pre @ n # post) ! length pre = n" by simp
  then have "q = length pre" using pq(2,4) assms(2) nth_eq_iff_index_eq[of "pre @ n # post" q "length pre"] by simp
  then have "v \<in> set pre" using pq by (auto simp: nth_append)
  then show "v \<noteq> n \<and> v \<notin> set post" using assms(2) by auto
qed

lemma gc_safe_graph:
  assumes "heap_ok h" and "topological h (nodes_of h g)"
  shows "gc_safe h (user_to_last_uses h (nodes_of h g)) (nodes_of h g)"
proof -
  have d: "distinct (nodes_of h g)" by (rule book_ok_sel(1)[OF heap_ok_sel(2)[OF assms(1)]])
  have "gc_safe h (snd (last_use_acc h (nodes_of h g))) (nodes_of h g)"
    by (rule gc_safe_last_uses[OF d]) (metis topological_split assms(2) d heap_ok_sel(1)[OF assms(1)])
  then show ?thesis by (simp add: user_to_last_uses_def last_use_acc_def)
qed

lemma values_cong:
  "(\<And>v. v \<in> set (iter_aggregate x) \<Longrightarrow> env v = env' v) \<Longrightarrow> map_nodes_to_values env x = map_nodes_to_values env' x"
  unfolding map_nodes_to_values_def map_arg_u_map_arg by (rule map_arg_cong_nodes) simp

lemma fetch_cong:
  assumes "\<And>v. v \<in> set (node_refs h n) \<Longrightarrow> env v = env' v"
  shows "fetch_args_kwargs_from_env h env n = fetch_args_kwargs_from_env h env' n"
proof -
  have refs: "set (node_refs h n) = (\<Union>x \<in> set (n_args (hp_node h n)). set (iter_aggregate x)) \<union> (\<Union>kv \<in> set (n_kwargs (hp_node h n)). set (iter_aggregate (snd kv)))"
    by (simp add: node_refs_args_nodes args_nodes_def)
  have "x \<in> set (n_args (hp_node h n)) \<Longrightarrow> map_nodes_to_values env x = map_nodes_to_values env' x" for x
    by (rule values_cong, rule assms) (auto simp: refs)
  moreover have "kv \<in> set (n_kwargs (hp_node h n)) \<Longrightarrow> map_nodes_to_values env (snd kv) = map_nodes_to_values env' (snd kv)" for kv
    by (rule values_cong, rule assms, unfold refs) blast
  ultimately show ?thesis unfolding fetch_args_kwargs_from_env_def by (simp cong: traverse_cong)
qed

lemma run_node_env: "run_node rt h kw df n st = (r, st') \<Longrightarrow> i_env st' = i_env st"
  by (auto simp: run_node_def split: sum.splits prod.splits if_split_asm)

text \<open>Two states that differ only in values nobody reads any more.\<close>

definition agree :: "heap \<Rightarrow> nid list \<Rightarrow> 'w istate \<Rightarrow> 'w istate \<Rightarrow> bool" where
  "agree h ns st st' \<longleftrightarrow> i_args st = i_args st' \<and> i_world st = i_world st' \<and>
     (\<forall>v. v \<in> set ns \<or> (\<exists>m \<in> set ns. v \<in> set (node_refs h m)) \<longrightarrow> i_env st v = i_env st' v)"

lemma run_node_agree:
  assumes "agree h (n # ns) st st'" and "run_node rt h kw df n st = (r, st1)"
  shows "\<exists>st1'. run_node rt h kw df n st' = (r, st1') \<and> i_args st1' = i_args st1 \<and> i_world st1' = i_world st1"
proof -
  have "fetch_args_kwargs_from_env h (i_env st) n = fetch_args_kwargs_from_env h (i_env st') n"
    by (rule fetch_cong) (use assms(1) in \<open>auto simp: agree_def\<close>)
  then show ?thesis using assms by (auto simp: run_node_def agree_def split: sum.splits prod.splits if_split_asm)
qed

lemma run_nodes_gc:
  assumes "gc_safe h uses ns" and "agree h ns st st'" and "distinct ns"
  shows "fst (run_nodes rt h uses kw df ns st) = fst (run_nodes rt h (\<lambda>_. []) kw df ns st') \<and>
    i_world (snd (run_nodes rt h uses kw df ns st)) = i_world (snd (run_nodes rt h (\<lambda>_. []) kw df ns st'))"
  using assms
proof (induction ns arbitrary: st st')
  case Nil
  then show ?case by (simp add: agree_def)
next
  case (Cons n ns)
  have env: "i_env st n = i_env st' n" and w: "i_world st = i_world st'" using Cons.prems(2) by (auto simp: agree_def)
  have tail: "agree h ns st st'" using Cons.prems(2) by (auto simp: agree_def)
  show ?case
  proof (cases "i_env st n")
    case (Some v)
    then show ?thesis using env w Cons.IH[OF _ tail] Cons.prems by simp
  next
    case None
    obtain r st1 where r: "run_node rt h kw df n st = (r, st1)" by fastforce
    then obtain st1' where r': "run_node rt h kw df n st' = (r, st1')" "i_args st1' = i_args st1" "i_world st1' = i_world st1"
      using run_node_agree[OF Cons.prems(2)] by blast
    note e = run_node_env[OF r] run_node_env[OF r'(1)]
    show ?thesis
    proof (cases r)
      case (Inl x)
      then show ?thesis using None env r r' by simp
    next
      case (Inr v)
      let ?s = "st1\<lparr>i_env := drop_values (uses n) ((i_env st1)(n \<mapsto> v))\<rparr>"
      let ?s' = "st1'\<lparr>i_env := drop_values [] ((i_env st1')(n \<mapsto> v))\<rparr>"
      have safe: "\<forall>x \<in> set (uses n). x \<in> set (node_refs h n) \<and> (\<forall>m \<in> set ns. x \<notin> set (node_refs h m))"
        "\<forall>x \<in> set (node_refs h n). x \<noteq> n \<and> x \<notin> set ns" "gc_safe h uses ns" using Cons.prems(1) by auto
      then have nn: "n \<notin> set (uses n)" by blast
      have ag: "agree h ns ?s ?s'" using Cons.prems(2) safe(1,2) r'(2,3) e unfolding agree_def drop_values_def by auto
      show ?thesis using Cons.IH[OF safe(3) ag] Cons.prems(3) None env r r' Inr nn by (simp add: drop_values_def Let_def)
    qed
  qed
qed

theorem run_gc_eq:
  assumes "heap_ok h" and "lint h g = Inr ()"
  shows "run rt True h g env args kw w = run rt False h g env args kw w"
proof -
  have t: "topological h (nodes_of h g)" using assms by (simp add: lint_eq split: if_split_asm)
  have d: "distinct (nodes_of h g)" by (rule book_ok_sel(1)[OF heap_ok_sel(2)[OF assms(1)]])
  let ?st = "\<lparr>i_env = env, i_args = args, i_world = w\<rparr>"
  have "agree h (nodes_of h g) ?st ?st" by (simp add: agree_def)
  note e = run_nodes_gc[OF gc_safe_graph[OF assms(1) t] this d, of rt kw "placeholder_defaults h g"]
  show ?thesis using e unfolding run_def Let_def by (auto split: prod.splits)
qed

subsection \<open>Dead code elimination does not change what a graph computes\<close>

text \<open>What the elimination relies on: a node that the graph takes for pure leaves the observable state as it is.\<close>

definition effects_declared :: "'w runtime \<Rightarrow> heap \<Rightarrow> gid \<Rightarrow> bool" where
  "effects_declared rt h g \<longleftrightarrow>
     (\<forall>n \<in> set (nodes_of h g). \<not> is_impure h True n \<longrightarrow> (\<forall>args kwargs w. snd (run_op rt (hp_node h n) args kwargs w) = w))"

definition users_inside :: "heap \<Rightarrow> gid \<Rightarrow> bool" where
  "users_inside h g \<longleftrightarrow> (\<forall>n \<in> set (nodes_of h g). set (n_users (hp_node h n)) \<subseteq> set (nodes_of h g))"

lemma run_op_cong: "n_op a = n_op b \<Longrightarrow> n_target a = n_target b \<Longrightarrow> run_op rt a = run_op rt b"
  by (simp add: run_op_def fun_eq_iff)

lemma fetch_same_body:
  "same_body (hp_node h' n) (hp_node h n) \<Longrightarrow> fetch_args_kwargs_from_env h' env n = fetch_args_kwargs_from_env h env n"
  by (simp add: fetch_args_kwargs_from_env_def same_body_def)

lemma run_node_same:
  assumes "same_body (hp_node h' n) (hp_node h n)" and "\<And>i. i \<in> set (node_refs h n) \<Longrightarrow> i_env st i = i_env st' i"
    and "i_args st = i_args st'" and "i_world st = i_world st'" and "run_node rt h kw df n st = (r, st1)"
  shows "run_node rt h' kw df n st' = (r, st'\<lparr>i_args := i_args st1, i_world := i_world st1\<rparr>)"
proof -
  have "fetch_args_kwargs_from_env h' (i_env st') n = fetch_args_kwargs_from_env h (i_env st) n"
    using fetch_same_body[OF assms(1)] fetch_cong[of h n "i_env st'" "i_env st"] assms(2) by simp
  moreover have "run_op rt (hp_node h' n) = run_op rt (hp_node h n)" "n_op (hp_node h' n) = n_op (hp_node h n)"
    "n_target (hp_node h' n) = n_target (hp_node h n)"
    using assms(1) run_op_cong[of "hp_node h' n" "hp_node h n"] by (auto simp: same_body_def)
  ultimately show ?thesis using assms(3-5) by (auto simp: run_node_def split: sum.splits prod.splits if_split_asm)
qed

lemma run_node_pure:
  assumes "run_node rt h kw df n st = (r, st1)" and "n_op (hp_node h n) \<noteq> ''placeholder''"
    and "\<And>args kwargs w. snd (run_op rt (hp_node h n) args kwargs w) = w"
  shows "i_args st1 = i_args st \<and> i_world st1 = i_world st"
proof -
  have "run_op rt (hp_node h n) args kwargs w = (a, b) \<Longrightarrow> b = w" for args kwargs w a b using assms(3)[of args kwargs w] by simp
  then show ?thesis using assms(1,2) by (auto simp: run_node_def split: sum.splits prod.splits if_split_asm)
qed

lemma run_nodes_drop:
  assumes "\<And>n. n \<in> set ns \<Longrightarrow> K n \<Longrightarrow> same_body (hp_node h' n) (hp_node h n) \<and> (\<forall>i \<in> set (node_refs h n). K i)"
    and "\<And>n. n \<in> set ns \<Longrightarrow> \<not> K n \<Longrightarrow> n_op (hp_node h n) \<noteq> ''output'' \<and> n_op (hp_node h n) \<noteq> ''placeholder'' \<and>
           (\<forall>args kwargs w. snd (run_op rt (hp_node h n) args kwargs w) = w)"
    and "\<And>v. K v \<Longrightarrow> i_env st v = i_env st' v" and "i_args st = i_args st'" and "i_world st = i_world st'"
    and "run_nodes rt h (\<lambda>_. []) kw df ns st = (Inr v, st1)"
  shows "\<exists>st1'. run_nodes rt h' (\<lambda>_. []) kw df (filter K ns) st' = (Inr v, st1') \<and> i_world st1' = i_world st1"
  using assms
proof (induction ns arbitrary: st st')
  case (Cons n ns)
  let ?upd = "\<lambda>s v. s\<lparr>i_env := drop_values [] ((i_env s)(n \<mapsto> v))\<rparr>"
  note IH = Cons.IH[OF Cons.prems(1,2)]
  have dv: "drop_values [] e = e" for e by (simp add: drop_values_def)
  show ?case
  proof (cases "K n")
    case True
    then have sb: "same_body (hp_node h' n) (hp_node h n)" and refs: "\<And>i. i \<in> set (node_refs h n) \<Longrightarrow> K i" using Cons.prems(1)[of n] by auto
    have op: "n_op (hp_node h' n) = n_op (hp_node h n)" and env: "i_env st n = i_env st' n" using sb Cons.prems(3)[OF True] by (auto simp: same_body_def)
    show ?thesis
    proof (cases "i_env st n")
      case (Some x)
      then show ?thesis using IH[of st st'] Cons.prems(3-6) op env True by (cases "n_op (hp_node h n) = ''output''") auto
    next
      case None
      obtain r s where r: "run_node rt h kw df n st = (r, s)" by fastforce
      have r': "run_node rt h' kw df n st' = (r, st'\<lparr>i_args := i_args s, i_world := i_world s\<rparr>)" (is "_ = (r, ?s')")
        by (rule run_node_same[OF sb _ Cons.prems(4,5) r]) (use refs Cons.prems(3) in blast)
      obtain x where x: "r = Inr x" using Cons.prems(6) None r by (cases r) auto
      note es = run_node_env[OF r]
      have "\<And>v. K v \<Longrightarrow> i_env (?upd s x) v = i_env (?upd ?s' x) v" using Cons.prems(3) by (simp add: dv es)
      then show ?thesis
        using IH[of "?upd s x" "?upd ?s' x"] Cons.prems(6) None env op True r r' x
        by (cases "n_op (hp_node h n) = ''output''") (auto simp: dv Let_def)
    qed
  next
    case False
    then have pure: "n_op (hp_node h n) \<noteq> ''output''" "n_op (hp_node h n) \<noteq> ''placeholder''"
      "\<And>args kwargs w. snd (run_op rt (hp_node h n) args kwargs w) = w" using Cons.prems(2)[of n] by auto
    show ?thesis
    proof (cases "i_env st n")
      case (Some x)
      then show ?thesis using IH[of st st'] Cons.prems(3-6) pure(1) False by auto
    next
      case None
      obtain r s where r: "run_node rt h kw df n st = (r, s)" by fastforce
      note p = run_node_pure[OF r pure(2,3)] and es = run_node_env[OF r]
      obtain x where x: "r = Inr x" using Cons.prems(6) None r by (cases r) auto
      have "\<And>v. K v \<Longrightarrow> i_env (?upd s x) v = i_env st' v" using Cons.prems(3) False by (auto simp: dv es)
      then show ?thesis using IH[of "?upd s x" st'] Cons.prems(4-6) None pure(1) False r x p by (auto simp: dv Let_def)
    qed
  qed
qed simp

lemma placeholders_needed: "heap_ok h \<Longrightarrow> nodes_of h' g = filter (\<lambda>n. n \<in> needed h (set (dce_roots h g))) (nodes_of h g) \<Longrightarrow>
  (\<And>n. n \<in> set (nodes_of h' g) \<Longrightarrow> same_body (hp_node h' n) (hp_node h n)) \<Longrightarrow> placeholder_defaults h' g = placeholder_defaults h g"
proof -
  assume f: "nodes_of h' g = filter (\<lambda>n. n \<in> needed h (set (dce_roots h g))) (nodes_of h g)"
    and b: "\<And>n. n \<in> set (nodes_of h' g) \<Longrightarrow> same_body (hp_node h' n) (hp_node h n)"
  have "placeholders h' g = filter (\<lambda>n. n_op (hp_node h n) = ''placeholder'') (nodes_of h' g)"
    unfolding placeholders_def by (rule filter_cong) (use b in \<open>auto simp: same_body_def\<close>)
  also have "\<dots> = placeholders h g"
    unfolding f filter_filter placeholders_def
    by (rule filter_cong) (auto intro: needed_mono_root placeholder_root)
  finally have p: "placeholders h' g = placeholders h g" .
  have "set (placeholders h' g) \<subseteq> set (nodes_of h' g)" by (auto simp: placeholders_def)
  then have "\<And>n. n \<in> set (placeholders h g) \<Longrightarrow> n_meta (hp_node h' n) = n_meta (hp_node h n) \<and> n_name (hp_node h' n) = n_name (hp_node h n)"
    using b p by (auto simp: same_body_def)
  then show ?thesis unfolding placeholder_defaults_def p by (intro arg_cong[where f=concat] map_cong refl) (auto split: option.split)
qed

lemma dce_lint:
  assumes ok: "heap_ok h" and lint: "lint h g = Inr ()" and ui: "users_inside h g"
  obtains k h' where "dead_code_elimination g h = Some (k, h')" and "heap_ok h'" and "lint h' g = Inr ()"
    and "nodes_of h' g = filter (\<lambda>n. n \<in> needed h (set (dce_roots h g))) (nodes_of h g)"
    and "\<forall>n \<in> set (nodes_of h' g). same_body (hp_node h' n) (hp_node h n)"
proof -
  have t: "topological h (nodes_of h g)" and o: "length (outputs h g) \<le> 1" using lint by (simp_all add: lint_eq[OF ok] split: if_split_asm)
  have d: "distinct (nodes_of h g)" by (rule book_ok_sel(1)[OF heap_ok_sel(2)[OF ok]])
  let ?K = "\<lambda>n. n \<in> needed h (set (dce_roots h g))"
  have sc: "self_contained h g" using ui topological_inputs[OF t] by (auto simp: self_contained_def users_inside_def)
  then obtain h' k where h': "dead_code_elimination g h = Some (k, h')" "heap_ok h'"
    "nodes_of h' g = filter ?K (nodes_of h g)" "\<And>n. n \<in> set (nodes_of h' g) \<Longrightarrow> same_body (hp_node h' n) (hp_node h n)"
    using dce_spec[OF ok sc] by blast
  have "topological h' (filter ?K (nodes_of h g))"
    by (rule topological_filter[OF t d]) (use dce_kept_closed[OF ok] h'(3,4) in \<open>auto simp: same_body_def\<close>)
  moreover have "length (outputs h' g) \<le> length (outputs h g)"
  proof -
    have "outputs h' g = filter (\<lambda>n. n_op (hp_node h n) = ''output'') (nodes_of h' g)"
      unfolding outputs_def by (rule filter_cong) (use h'(4) in \<open>auto simp: same_body_def\<close>)
    then have "outputs h' g = filter ?K (outputs h g)" unfolding h'(3) outputs_def filter_filter by (auto intro: filter_cong)
    then show ?thesis by simp
  qed
  ultimately have "lint h' g = Inr ()" using lint_eq[OF h'(2), of g] h'(3) o by simp
  then show thesis using that h' by blast
qed

lemma dce_run:
  assumes ok: "heap_ok h" and lint: "lint h g = Inr ()" and ui: "users_inside h g" and eff: "effects_declared rt h g"
    and run: "run rt gc h g env args kw w = (Inr v, w')"
  shows "\<exists>k h'. dead_code_elimination g h = Some (k, h') \<and> lint h' g = Inr () \<and> run rt gc' h' g env args kw w = (Inr v, w')"
proof -
  let ?K = "\<lambda>n. n \<in> needed h (set (dce_roots h g))"
  obtain k h' where h1: "dead_code_elimination g h = Some (k, h')" "heap_ok h'" and l': "lint h' g = Inr ()"
    and h2: "nodes_of h' g = filter ?K (nodes_of h g)" and h3: "\<forall>n \<in> set (nodes_of h' g). same_body (hp_node h' n) (hp_node h n)"
    by (rule dce_lint[OF ok lint ui])
  note h' = h1 h2 h3[rule_format]
  let ?st = "\<lparr>i_env = env, i_args = args, i_world = w\<rparr>"
  have "run rt False h g env args kw w = (Inr v, w')" using run run_gc_eq[OF ok lint, of rt env args kw w] by (cases gc) simp_all
  then obtain st1 where st1: "run_nodes rt h (\<lambda>_. []) kw (placeholder_defaults h g) (nodes_of h g) ?st = (Inr v, st1)" "i_world st1 = w'"
    by (auto simp: run_def Let_def split: prod.splits)
  have kept: "same_body (hp_node h' n) (hp_node h n) \<and> (\<forall>i \<in> set (node_refs h n). ?K i)" if "n \<in> set (nodes_of h g)" "?K n" for n
    using that h'(3,4) needed_step by auto
  have dropped: "n_op (hp_node h n) \<noteq> ''output'' \<and> n_op (hp_node h n) \<noteq> ''placeholder'' \<and> (\<forall>args kwargs w. snd (run_op rt (hp_node h n) args kwargs w) = w)"
    if n: "n \<in> set (nodes_of h g)" "\<not> ?K n" for n
  proof -
    have r: "n \<notin> set (dce_roots h g)" using n(2) needed_mono_root by blast
    then have "\<not> is_impure h True n" using n(1) by (simp add: dce_roots_def)
    moreover have "n_op (hp_node h n) \<noteq> ''output''" "n_op (hp_node h n) \<noteq> ''placeholder''" using r n(1) by (auto simp: dce_roots_def outputs_def is_impure_def Let_def)
    ultimately show ?thesis using eff n(1) by (simp add: effects_declared_def)
  qed
  obtain st2 where "run_nodes rt h' (\<lambda>_. []) kw (placeholder_defaults h g) (filter ?K (nodes_of h g)) ?st = (Inr v, st2)" "i_world st2 = w'"
    using run_nodes_drop[OF kept dropped _ _ _ st1(1), of ?st] st1(2) by auto
  then have "run rt False h' g env args kw w = (Inr v, w')"
    using placeholders_needed[OF ok h'(3,4)] h'(3) by (simp add: run_def Let_def)
  then have "run rt gc' h' g env args kw w = (Inr v, w')" using run_gc_eq[OF h'(2) l', of rt env args kw w] by (cases gc') simp_all
  then show ?thesis using h'(1) l' by blast
qed

subsection \<open>Properties\<close>

text \<open>C10: On a graph that passes the check, dropping values after their last use changes neither the result nor the exception of a run, nor the
  state it leaves, whatever values the caller supplies for nodes.\<close>

theorem interpreter_gc_transparent:
  assumes "heap_ok h" and "lint h g = Inr ()"
  shows "run rt True h g env args kw w = run rt False h g env args kw w"
  using assms by (rule run_gc_eq)

text \<open>C9: Dead code elimination returns a graph that passes the check and computes the same: when a run of the graph before returns a value, the run after
  it returns the same value and leaves the same state, with or without dropping values. This relies on nodes taken for pure leaving the state alone.\<close>

theorem dce_preserves_run:
  assumes "heap_ok h" and "lint h g = Inr ()" and "users_inside h g" and "effects_declared rt h g"
    and "run rt gc h g env args kw w = (Inr v, w')"
  shows "\<exists>k h'. dead_code_elimination g h = Some (k, h') \<and> lint h' g = Inr () \<and> run rt gc' h' g env args kw w = (Inr v, w')"
  using assms by (rule dce_run)

text \<open>An example runtime in which every call returns its arguments.\<close>

definition tuple_runtime :: "nat runtime" where
  "tuple_runtime = \<lparr>rt_call = (\<lambda>c args kwargs w. (Inr (ATuple args), w)), rt_method = (\<lambda>r m args kwargs w. (Inr (ATuple args), w)),
     rt_object = (\<lambda>f args kwargs w. (Inr (ATuple args), w)), rt_getattr = (\<lambda>v a w. Some v), rt_module = ANone, rt_graph_module = None\<rparr>"

lemma tuple_runtime_pure: "snd (run_op tuple_runtime nd args kwargs w) = w"
  by (auto simp: run_op_def tuple_runtime_def split: target.splits list.splits sum.splits)

lemma demo_users_inside: "users_inside demo_heap 0"
  using demo_self_contained by (auto simp: users_inside_def self_contained_def)

lemma demo_defaults: "placeholder_defaults demo_heap 0 = []"
proof -
  have "placeholders demo_heap 0 = [0]" by (simp add: placeholders_def demo_nodes demo_node)
  then show ?thesis using demo_node_rest[of 0] by (simp add: placeholder_defaults_def)
qed

lemma demo_fetch:
  "fetch_args_kwargs_from_env demo_heap env 0 = Inr ([], [])"
  "env 0 = Some v \<Longrightarrow> fetch_args_kwargs_from_env demo_heap env (Suc 0) = Inr ([v], [])"
  "env 0 = Some v \<Longrightarrow> fetch_args_kwargs_from_env demo_heap env 2 = Inr ([v], [])"
  "env 2 = Some v \<Longrightarrow> fetch_args_kwargs_from_env demo_heap env 3 = Inr ([v], [])"
  "env 3 = Some v \<Longrightarrow> fetch_args_kwargs_from_env demo_heap env 4 = Inr ([v], [])"
  using demo_node_rest by (simp_all add: fetch_args_kwargs_from_env_def demo_node map_nodes_to_values_def)

lemma run_nodes_step:
  assumes "i_env st n = None" and "run_node rt h kw df n st = (Inr v, st')" and "n_op (hp_node h n) \<noteq> ''output''"
  shows "run_nodes rt h uses kw df (n # ns) st = run_nodes rt h uses kw df ns (st'\<lparr>i_env := drop_values (uses n) ((i_env st')(n \<mapsto> v))\<rparr>)"
  using assms by (simp add: Let_def)

lemma demo_run_node:
  "i_args st = v # vs \<Longrightarrow> run_node tuple_runtime demo_heap [] df 0 st = (Inr v, st\<lparr>i_args := vs\<rparr>)"
  "i_env st 0 = Some v \<Longrightarrow> run_node tuple_runtime demo_heap [] df (Suc 0) st = (Inr (ATuple [v]), st)"
  "i_env st 0 = Some v \<Longrightarrow> run_node tuple_runtime demo_heap [] df 2 st = (Inr (ATuple [v]), st)"
  "i_env st 2 = Some v \<Longrightarrow> run_node tuple_runtime demo_heap [] df 3 st = (Inr (ATuple [v]), st)"
  "i_env st 3 = Some v \<Longrightarrow> run_node tuple_runtime demo_heap [] df 4 st = (Inr v, st)"
  by (simp_all add: run_node_def demo_fetch demo_node run_placeholder_def starts_with_def run_op_def tuple_runtime_def)

lemma demo_run: "run tuple_runtime False demo_heap 0 Map.empty [AInt 7] [] 0 = (Inr (ATuple [ATuple [AInt 7]]), 0)"
  by (simp add: run_def demo_nodes demo_defaults run_nodes_step demo_run_node demo_node drop_values_def Let_def)

theorem interpreter_gc_transparent_witness: "run tuple_runtime True demo_heap 0 Map.empty [AInt 7] [] 0 = (Inr (ATuple [ATuple [AInt 7]]), 0)"
  using interpreter_gc_transparent[OF demo_ok demo_lint, of tuple_runtime Map.empty "[AInt 7]" "[]" 0] demo_run by simp

theorem dce_preserves_run_witness:
  "\<exists>k h'. dead_code_elimination 0 demo_heap = Some (k, h') \<and> run tuple_runtime True h' 0 Map.empty [AInt 7] [] 0 = (Inr (ATuple [ATuple [AInt 7]]), 0)"
proof -
  have "effects_declared tuple_runtime demo_heap 0" by (simp add: effects_declared_def tuple_runtime_pure)
  from dce_preserves_run[OF demo_ok demo_lint demo_users_inside this demo_run, of True] show ?thesis by blast
qed

lemma fresh_name_input: "fresh_name [] ''input'' = ''input_0''"
  by code_simp

lemma empty_heap_sel: "hp_next empty_heap = 0" "nodes_of empty_heap 0 = []" "g_insert (hp_graph empty_heap 0) = AppendNode"
  "ns_used_names (g_namespace (hp_graph empty_heap 0)) = []"
  by (simp_all add: empty_heap_def new_graph_def empty_namespace_def)

text \<open>A graph with one parameter that has a default, and its output.\<close>

lemma default_graph:
  obtains h1 h2 where "placeholder 0 ''input'' ANone (Some (AInt 5)) None empty_heap = (Inr 0, h1)"
    and "graph_output 0 (ANode 0) ANone h1 = (Inr (Suc 0), h2)" and "heap_ok h2" and "nodes_of h2 0 = [0, Suc 0]"
    and "n_op (hp_node h2 0) = ''placeholder''" and "n_target (hp_node h2 0) = TStr ''input''" and "n_args (hp_node h2 0) = [AInt 5]"
    and "n_kwargs (hp_node h2 0) = []" and "n_name (hp_node h2 0) = ''input_0''" and "n_meta (hp_node h2 0) = [(''default'', AInt 5)]"
    and "n_op (hp_node h2 (Suc 0)) = ''output''" and "n_args (hp_node h2 (Suc 0)) = [ANode 0]" and "n_kwargs (hp_node h2 (Suc 0)) = []"
proof -
  have a0: "\<forall>i \<in> set (args_nodes [AInt 5] []). i < hp_next empty_heap" by (simp add: args_nodes_def)
  obtain h0 where c0: "create_node 0 ''placeholder'' (TStr ''input'') [AInt 5] [] (Some ''input'') ANone empty_heap = (Inr 0, h0)"
    and n0: "nodes_of h0 0 = [0]" and i0: "g_insert (hp_graph h0 0) = AppendNode"
    using create_node_append[OF empty_heap_ok a0, of "''placeholder''" "TStr ''input''" 0 "Some ''input''" ANone]
    by (auto simp: empty_heap_sel legal_ops_def is_str_target_def)
  note k0 = create_node_ok[OF empty_heap_ok a0 c0]
  define h1 where "h1 = upd_node 0 (n_meta_update (AList.update ''default'' (AInt 5))) h0"
  have p: "placeholder 0 ''input'' ANone (Some (AInt 5)) None empty_heap = (Inr 0, h1)"
    by (simp add: placeholder_def c0 h1_def hbind_def)
  have ok1: "heap_ok h1" unfolding h1_def by (rule heap_ok_meta[OF k0(1)]) (simp add: k0(3))
  have s1: "hp_next h1 = Suc 0" "nodes_of h1 0 = [0]" "g_insert (hp_graph h1 0) = AppendNode" by (simp_all add: h1_def k0(3) n0 i0)
  have nd: "n_op (hp_node h1 0) = ''placeholder''" "n_target (hp_node h1 0) = TStr ''input''" "n_args (hp_node h1 0) = [AInt 5]"
    "n_kwargs (hp_node h1 0) = []" "n_name (hp_node h1 0) = ''input_0''" "n_meta (hp_node h1 0) = [(''default'', AInt 5)]"
    using k0(5,10) by (simp_all add: h1_def empty_heap_sel fresh_name_input)
  have a1: "\<forall>i \<in> set (args_nodes [ANode 0] []). i < hp_next h1" by (simp add: args_nodes_def s1)
  obtain h2 where c1: "create_node 0 ''output'' (TStr ''output'') [ANode 0] [] (Some ''output'') ANone h1 = (Inr (Suc 0), h2)"
    and n1: "nodes_of h2 0 = [0, Suc 0]"
    using create_node_append[OF ok1 a1, of "''output''" "TStr ''output''" 0 "Some ''output''" ANone]
    by (auto simp: s1 legal_ops_def is_str_target_def)
  note k1 = create_node_ok[OF ok1 a1 c1]
  have "outputs h1 0 = []" by (simp add: outputs_def s1 nd)
  then have o: "graph_output 0 (ANode 0) ANone h1 = (Inr (Suc 0), h2)" by (simp add: graph_output_def hbind_def c1)
  have "same_body (hp_node h2 0) (hp_node h1 0)" using k1(6)[of 0] by simp
  then show ?thesis using that[OF p o k1(1) n1] k1(5) nd by (simp add: same_body_def)
qed

text \<open>The default of a placeholder is recorded under the name of the node but looked up under its target. They differ when the parameter has the name of a
  builtin: with a parameter \<open>input\<close> and a default, a run without arguments raises RuntimeError.\<close>

lemma placeholder_default_lost:
  "\<exists>h1 h2. placeholder 0 ''input'' ANone (Some (AInt 5)) None empty_heap = (Inr 0, h1) \<and> graph_output 0 (ANode 0) ANone h1 = (Inr 1, h2) \<and>
     lint h2 0 = Inr () \<and> (\<forall>rt w. run rt True h2 0 Map.empty [] [] w = (Inl RuntimeError, w))"
proof -
  obtain h1 h2 where b: "placeholder 0 ''input'' ANone (Some (AInt 5)) None empty_heap = (Inr 0, h1)"
    "graph_output 0 (ANode 0) ANone h1 = (Inr (Suc 0), h2)" and ok: "heap_ok h2"
    and nd: "nodes_of h2 0 = [0, Suc 0]" "n_op (hp_node h2 0) = ''placeholder''" "n_target (hp_node h2 0) = TStr ''input''"
      "n_args (hp_node h2 0) = [AInt 5]" "n_kwargs (hp_node h2 0) = []" "n_name (hp_node h2 0) = ''input_0''"
      "n_meta (hp_node h2 0) = [(''default'', AInt 5)]" "n_op (hp_node h2 (Suc 0)) = ''output''" "n_args (hp_node h2 (Suc 0)) = [ANode 0]"
      "n_kwargs (hp_node h2 (Suc 0)) = []" by (rule default_graph)
  have "set (n_input_nodes (hp_node h2 0)) = {}" "set (n_input_nodes (hp_node h2 (Suc 0))) = {0}"
    using links_input[OF heap_ok_sel(1)[OF ok]] by (simp_all add: nd args_nodes_def)
  then have "topological h2 (nodes_of h2 0)"
    unfolding topological_def nd using precedes_index[of "[0, Suc 0]" 0 1] by simp
  then have l: "lint h2 0 = Inr ()" by (simp add: lint_eq[OF ok] outputs_def nd)
  have "run rt True h2 0 Map.empty [] [] w = (Inl RuntimeError, w)" for rt :: "'w runtime" and w
    by (simp add: run_def nd run_node_def fetch_args_kwargs_from_env_def map_nodes_to_values_def run_placeholder_def placeholder_defaults_def
      placeholders_def starts_with_def wrap_error_def)
  with b l show ?thesis by auto
qed

end
