(* ===== verification/PassManager.thy ===== *)
theory PassManager
  imports GraphOrder GraphInterp
begin

text \<open>
  The pass managers of \<^verbatim>\<open>src/tensorplay/graph/passes/infra/pass_manager.py\<close>, which orders its passes by constraints, and of
  \<^verbatim>\<open>passes/pass_manager.py\<close>, which checks the order it is given. A pass is a function on modules; the locale \<open>module_passes\<close> is the
  contract under which a manager keeps what a module means. Dead code elimination satisfies it.
\<close>

subsection \<open>Ordering constraints\<close>

type_synonym 'p constraint = "'p \<Rightarrow> 'p \<Rightarrow> bool"

fun validate_pass_schedule_constraint :: "'p constraint \<Rightarrow> 'p list \<Rightarrow> unit result" where
  "validate_pass_schedule_constraint c [] = Inr ()"
| "validate_pass_schedule_constraint c (a # rest) =
     (if list_all (c a) rest then validate_pass_schedule_constraint c rest else Inl RuntimeError)"

definition this_before_that_pass_constraint :: "'p \<Rightarrow> 'p \<Rightarrow> 'p constraint" where
  "this_before_that_pass_constraint this that = (\<lambda>a b. a \<noteq> that \<or> b \<noteq> this)"

text \<open>The tables of the sort: for each pass the passes that must come after it, and the number of passes that must come before one.\<close>

type_synonym 'p pass_tables = "('p \<Rightarrow> 'p list) \<times> ('p \<Rightarrow> int)"

definition note_constraint :: "'p \<Rightarrow> 'p \<Rightarrow> 'p constraint \<Rightarrow> 'p pass_tables \<Rightarrow> 'p pass_tables" where
  "note_constraint a b c tables =
     (if c a b then tables else ((fst tables)(b := fst tables b @ [a]), (snd tables)(a := snd tables a + 1)))"

definition note_pair :: "'p constraint list \<Rightarrow> 'p \<Rightarrow> 'p \<Rightarrow> 'p pass_tables \<Rightarrow> 'p pass_tables" where
  "note_pair cs a b tables = (if a = b then tables else fold (note_constraint a b) cs tables)"

definition note_pass :: "'p constraint list \<Rightarrow> 'p list \<Rightarrow> 'p \<Rightarrow> 'p pass_tables \<times> 'p list \<Rightarrow> 'p pass_tables \<times> 'p list" where
  "note_pass cs passes a acc =
     (let tables = fold (note_pair cs a) passes (fst acc)
      in (tables, if snd tables a = 0 then snd acc @ [a] else snd acc))"

definition pass_tables :: "'p constraint list \<Rightarrow> 'p list \<Rightarrow> 'p pass_tables \<times> 'p list" where
  "pass_tables cs passes = fold (note_pass cs passes) passes ((\<lambda>_. [], \<lambda>_. 0), [])"

definition topological_sort_passes :: "'p list \<Rightarrow> 'p constraint list \<Rightarrow> 'p list result option" where
  "topological_sort_passes passes cs =
     (if cs = [] then Some (Inr passes)
      else case pass_tables cs passes of
        ((graph, indegree), candidates) \<Rightarrow>
          map_option (\<lambda>(sorted_passes, deg). if list_ex (\<lambda>p. deg p \<noteq> 0) passes then Inl RuntimeError else Inr sorted_passes)
            (ready_loop hd graph (\<lambda>visited n. n \<notin> set visited) indegree candidates []))"

subsection \<open>The tables\<close>

definition violated :: "'p constraint list \<Rightarrow> 'p \<Rightarrow> 'p \<Rightarrow> nat" where
  "violated cs a b = (if a = b then 0 else length (filter (\<lambda>c. \<not> c a b) cs))"

lemma note_constraints:
  "a \<noteq> b \<Longrightarrow> fold (note_constraint a b) cs tables =
    ((fst tables)(b := fst tables b @ replicate (violated cs a b) a), (snd tables)(a := snd tables a + int (violated cs a b)))"
  by (induction cs arbitrary: tables) (auto simp: note_constraint_def violated_def replicate_append_same fun_eq_iff)

lemma note_pair_eq:
  "note_pair cs a b tables = ((fst tables)(b := fst tables b @ replicate (violated cs a b) a), (snd tables)(a := snd tables a + int (violated cs a b)))"
  by (cases "a = b") (auto simp: note_pair_def note_constraints violated_def)

lemma note_row:
  "fold (note_pair cs a) bs tables =
    ((\<lambda>b. fst tables b @ replicate (count_list bs b * violated cs a b) a), (snd tables)(a := snd tables a + (\<Sum>b\<leftarrow>bs. int (violated cs a b))))"
proof (induction bs arbitrary: tables)
  case (Cons b bs)
  have s: "fold (note_pair cs a) (b # bs) tables = fold (note_pair cs a) bs (note_pair cs a b tables)" by simp
  show ?case unfolding s Cons.IH by (auto simp: note_pair_eq fun_eq_iff replicate_add)
qed auto

lemma note_rows:
  assumes "distinct as" and "distinct passes" and "\<And>a. a \<in> set as \<Longrightarrow> snd (fst acc) a = 0"
  shows "fold (note_pass cs passes) as acc =
    ((\<lambda>b. fst (fst acc) b @ (if b \<in> set passes then concat (map (\<lambda>a. replicate (violated cs a b) a) as) else []),
      \<lambda>a. if a \<in> set as then (\<Sum>b\<leftarrow>passes. int (violated cs a b)) else snd (fst acc) a),
     snd acc @ filter (\<lambda>a. (\<Sum>b\<leftarrow>passes. int (violated cs a b)) = 0) as)"
  using assms
proof (induction as arbitrary: acc)
  case (Cons a as)
  have z: "snd (fst acc) a = 0" using Cons.prems(3) by simp
  have n: "note_pass cs passes a acc = ((\<lambda>b. fst (fst acc) b @ (if b \<in> set passes then replicate (violated cs a b) a else []),
      (snd (fst acc))(a := (\<Sum>b\<leftarrow>passes. int (violated cs a b)))),
      if (\<Sum>b\<leftarrow>passes. int (violated cs a b)) = 0 then snd acc @ [a] else snd acc)"
    using z by (simp add: note_pass_def Let_def note_row count_list_distinct[OF Cons.prems(2)] fun_eq_iff)
  have "fold (note_pass cs passes) (a # as) acc = fold (note_pass cs passes) as (note_pass cs passes a acc)" by simp
  also have "\<dots> = ((\<lambda>b. fst (fst (note_pass cs passes a acc)) b @ (if b \<in> set passes then concat (map (\<lambda>a. replicate (violated cs a b) a) as) else []),
      \<lambda>c. if c \<in> set as then (\<Sum>b\<leftarrow>passes. int (violated cs c b)) else snd (fst (note_pass cs passes a acc)) c),
     snd (note_pass cs passes a acc) @ filter (\<lambda>a. (\<Sum>b\<leftarrow>passes. int (violated cs a b)) = 0) as)"
    by (rule Cons.IH) (use Cons.prems n in auto)
  finally show ?case using Cons.prems(1) by (simp add: n fun_eq_iff)
qed auto

lemma pass_tables_eq:
  assumes "distinct passes"
  shows "pass_tables cs passes = ((\<lambda>b. if b \<in> set passes then concat (map (\<lambda>a. replicate (violated cs a b) a) passes) else [],
    \<lambda>a. if a \<in> set passes then (\<Sum>b\<leftarrow>passes. int (violated cs a b)) else 0), filter (\<lambda>a. (\<Sum>b\<leftarrow>passes. int (violated cs a b)) = 0) passes)"
  using note_rows[OF assms assms, of "((\<lambda>_. [], \<lambda>_. 0), [])" cs] by (simp add: pass_tables_def fun_eq_iff)

subsection \<open>The sort\<close>

text \<open>The tables of distinct passes satisfy the contract of the countdown, with the front of the queue taken first.\<close>

definition pass_successors :: "'p constraint list \<Rightarrow> 'p list \<Rightarrow> 'p \<Rightarrow> 'p list" where
  "pass_successors cs passes b = (if b \<in> set passes then concat (map (\<lambda>a. replicate (violated cs a b) a) passes) else [])"

definition pass_predecessors :: "'p constraint list \<Rightarrow> 'p list \<Rightarrow> 'p \<Rightarrow> int" where
  "pass_predecessors cs passes a = (if a \<in> set passes then (\<Sum>b\<leftarrow>passes. int (violated cs a b)) else 0)"

lemma count_list_replicate [simp]: "count_list (replicate k a) u = (if u = a then k else 0)"
  by (induction k) auto

lemma count_list_replicates: "distinct as \<Longrightarrow> count_list (concat (map (\<lambda>a. replicate (f a) a) as)) u = (if u \<in> set as then f u else 0)"
  by (induction as) auto

interpretation pass_sort: exact_countdown "remdups passes" "pass_successors cs (remdups passes)" "pass_predecessors cs (remdups passes)"
    "\<lambda>visited n. n \<notin> set visited" hd for passes :: "'p list" and cs
proof unfold_locales
  fix u :: 'p
  assume u: "u \<in> set (remdups passes)"
  have "edges_from (pass_successors cs (remdups passes)) (set (remdups passes)) u = (\<Sum>b \<in> set (remdups passes). int (violated cs u b))"
    using u unfolding edges_from_def by (intro sum.cong) (simp_all add: pass_successors_def count_list_replicates del: set_remdups)
  also have "\<dots> = pass_predecessors cs (remdups passes) u"
    using u by (simp add: pass_predecessors_def sum_list_distinct_conv_sum_set del: set_remdups)
  finally show "pass_predecessors cs (remdups passes) u = edges_from (pass_successors cs (remdups passes)) (set (remdups passes)) u" ..
  then show "edges_from (pass_successors cs (remdups passes)) (set (remdups passes)) u \<le> pass_predecessors cs (remdups passes) u" by simp
qed (auto simp: pass_successors_def)

lemma topological_sort_passes_eq:
  assumes "distinct passes" and "cs \<noteq> []"
  obtains res deg where "topological_sort_passes passes cs = Some (if list_ex (\<lambda>p. deg p \<noteq> 0) passes then Inl RuntimeError else Inr res)"
    and "countdown_inv passes (pass_successors cs passes) (pass_predecessors cs passes) deg [] res"
proof -
  have r: "remdups passes = passes" using assms(1) by (simp add: distinct_remdups_id)
  have f: "filter (\<lambda>a. (\<Sum>b\<leftarrow>passes. int (violated cs a b)) = 0) passes = filter (\<lambda>n. pass_predecessors cs passes n = 0) passes"
    by (rule filter_cong) (simp_all add: pass_predecessors_def)
  have t: "pass_tables cs passes = ((pass_successors cs passes, pass_predecessors cs passes), filter (\<lambda>n. pass_predecessors cs passes n = 0) passes)"
    unfolding pass_tables_eq[OF assms(1)] f by (simp add: pass_successors_def[abs_def] pass_predecessors_def[abs_def])
  show thesis using pass_sort.order_result[of cs passes] assms(2) that unfolding r by (auto simp: topological_sort_passes_def t)
qed

definition constraints_hold :: "'p constraint list \<Rightarrow> 'p list \<Rightarrow> bool" where
  "constraints_hold cs passes \<longleftrightarrow> list_all (\<lambda>c. validate_pass_schedule_constraint c passes = Inr ()) cs"

lemma validate_iff: "validate_pass_schedule_constraint c ps = Inr () \<longleftrightarrow> (\<forall>i j. i < j \<and> j < length ps \<longrightarrow> c (ps ! i) (ps ! j))"
proof (induction ps)
  case (Cons a ps)
  have "(\<forall>i j. i < j \<and> j < length (a # ps) \<longrightarrow> c ((a # ps) ! i) ((a # ps) ! j)) \<longleftrightarrow>
    (\<forall>j < length ps. c a (ps ! j)) \<and> (\<forall>i j. i < j \<and> j < length ps \<longrightarrow> c (ps ! i) (ps ! j))" (is "?l \<longleftrightarrow> ?r")
  proof
    assume ?l
    then show ?r by (metis Suc_less_eq length_Cons nth_Cons_0 nth_Cons_Suc zero_less_Suc)
  next
    assume ?r
    then show ?l by (auto simp: less_Suc_eq_0_disj nth_Cons split: nat.split)
  qed
  then show ?case using Cons by (simp add: list_all_length)
qed simp

lemma constraints_hold_iff:
  assumes "distinct ps" and "set ps = set passes"
  shows "constraints_hold cs ps \<longleftrightarrow> in_order passes (pass_successors cs passes) ps"
proof -
  have s: "u \<in> set (pass_successors cs passes p) \<longleftrightarrow> u \<in> set ps \<and> p \<in> set ps \<and> u \<noteq> p \<and> (\<exists>c \<in> set cs. \<not> c u p)" for u p
    using assms(2) by (auto simp: pass_successors_def violated_def filter_empty_conv)
  have "constraints_hold cs ps \<longleftrightarrow> (\<forall>c \<in> set cs. \<forall>i j. i < j \<and> j < length ps \<longrightarrow> c (ps ! i) (ps ! j))"
    by (simp add: constraints_hold_def list_all_iff validate_iff)
  also have "\<dots> \<longleftrightarrow> (\<forall>u p. u \<in> set ps \<and> p \<in> set ps \<and> u \<noteq> p \<and> (\<exists>c \<in> set cs. \<not> c u p) \<longrightarrow> comes_before ps p u)" (is "?l \<longleftrightarrow> ?r")
  proof
    assume l: ?l
    show ?r
    proof (intro allI impI)
      fix u p assume a: "u \<in> set ps \<and> p \<in> set ps \<and> u \<noteq> p \<and> (\<exists>c \<in> set cs. \<not> c u p)"
      then obtain i j where "i < length ps" "j < length ps" "ps ! i = u" "ps ! j = p" by (auto simp: in_set_conv_nth)
      then show "comes_before ps p u" using a l unfolding comes_before_def by (metis linorder_neqE_nat)
    qed
  next
    assume r: ?r
    show ?l
    proof (intro ballI allI impI, rule ccontr)
      fix c i j assume a: "c \<in> set cs" "i < j \<and> j < length ps" "\<not> c (ps ! i) (ps ! j)"
      then have "ps ! i \<in> set ps" "ps ! j \<in> set ps" "ps ! i \<noteq> ps ! j" using assms(1) by (auto simp: nth_eq_iff_index_eq)
      then have "comes_before ps (ps ! j) (ps ! i)" using r a by blast
      then obtain k l where "k < l" "l < length ps" "ps ! k = ps ! j" "ps ! l = ps ! i" unfolding comes_before_def by blast
      then have "k = j" "l = i" using assms(1) a by (auto simp: nth_eq_iff_index_eq)
      then show False using \<open>k < l\<close> a by simp
    qed
  qed
  finally show ?thesis using assms(2) by (auto simp: in_order_def s)
qed

lemma sort_passes_result:
  assumes "distinct passes"
  shows "\<exists>r. topological_sort_passes passes cs = Some r \<and>
    (case r of Inr ps \<Rightarrow> mset ps = mset passes \<and> constraints_hold cs ps
     | Inl e \<Rightarrow> e = RuntimeError \<and> \<not> (\<exists>ps. mset ps = mset passes \<and> constraints_hold cs ps))"
proof (cases "cs = []")
  case True
  then show ?thesis by (simp add: topological_sort_passes_def constraints_hold_def)
next
  case False
  let ?s = "pass_successors cs passes"
  obtain res deg where r: "topological_sort_passes passes cs = Some (if list_ex (\<lambda>p. deg p \<noteq> 0) passes then Inl RuntimeError else Inr res)"
    and inv: "countdown_inv passes ?s (pass_predecessors cs passes) deg [] res" by (rule topological_sort_passes_eq[OF assms False])
  have rd: "remdups passes = passes" using assms by (simp add: distinct_remdups_id)
  have d: "distinct res" "set res = {u \<in> set passes. deg u = 0}" "in_order passes ?s res" using inv by (auto simp: countdown_inv_def)
  show ?thesis
  proof (cases "list_ex (\<lambda>p. deg p \<noteq> 0) passes")
    case True
    have "\<not> (mset ps = mset passes \<and> constraints_hold cs ps)" for ps
    proof
      assume a: "mset ps = mset passes \<and> constraints_hold cs ps"
      then have p: "distinct ps" "set ps = set passes" using assms mset_eq_imp_distinct_iff mset_eq_setD by blast+
      then have "set res = set passes"
        using pass_sort.order_complete[of passes cs deg res ps] inv a constraints_hold_iff[OF p, of cs] unfolding rd by blast
      then show False using True d(2) by (auto simp: list_ex_iff)
    qed
    then show ?thesis using r True by auto
  next
    case False
    then have s: "set res = set passes" using d(2) by (auto simp: list_ex_iff)
    then have "mset res = mset passes" using assms d(1) set_eq_iff_mset_eq_distinct by blast
    then show ?thesis using r False constraints_hold_iff[OF d(1) s, of cs] d(3) by auto
  qed
qed

lemma sort_passes_total:
  assumes "distinct passes \<or> cs = []"
  shows "\<exists>r. topological_sort_passes passes cs = Some r \<and>
    (case r of Inr ps \<Rightarrow> mset ps = mset passes \<and> constraints_hold cs ps
     | Inl e \<Rightarrow> e = RuntimeError \<and> \<not> (\<exists>ps. mset ps = mset passes \<and> constraints_hold cs ps))"
proof (cases "cs = []")
  case True
  then show ?thesis by (simp add: topological_sort_passes_def constraints_hold_def)
qed (use assms sort_passes_result in blast)

text \<open>C15: For distinct passes the sort returns: an order of the passes that the validation of every constraint accepts, or RuntimeError when there is no such order.\<close>

theorem topological_sort_passes_correct:
  assumes "distinct passes"
  shows "\<exists>r. topological_sort_passes passes cs = Some r \<and>
    (case r of Inr ps \<Rightarrow> mset ps = mset passes \<and> constraints_hold cs ps
     | Inl e \<Rightarrow> e = RuntimeError \<and> \<not> (\<exists>ps. mset ps = mset passes \<and> constraints_hold cs ps))"
  using assms by (rule sort_passes_result)

text \<open>A pass listed twice breaks the sort: before another it is taken for a cycle, after another it is run once only.\<close>

definition before_constraint :: "nat constraint" where
  "before_constraint = this_before_that_pass_constraint 0 1"

lemma sort_duplicate_first: "topological_sort_passes [0, 0, 1] [before_constraint] = Some (Inl RuntimeError)"
  by code_simp

lemma sort_duplicate_last: "topological_sort_passes [0, 1, 1] [before_constraint] = Some (Inr [0, 1])"
  by code_simp

theorem topological_sort_passes_correct_witness:
  "topological_sort_passes [1, 0] [before_constraint] = Some (Inr [0, 1]) \<and> (\<exists>r. topological_sort_passes [1, 0] [before_constraint] = Some r \<and> r \<noteq> Inl RuntimeError)"
proof -
  have s: "topological_sort_passes [1, 0] [before_constraint] = Some (Inr [0, 1])" by code_simp
  moreover have "distinct [1 :: nat, 0]" by simp
  from topological_sort_passes_correct[OF this, of "[before_constraint]"] have "\<exists>r. topological_sort_passes [1, 0] [before_constraint] = Some r" by blast
  ultimately show ?thesis by auto
qed

subsection \<open>The pass manager\<close>

text \<open>What a pass returns, with the module as it is afterwards: a result, a module (the same object or another), None, or something else.\<close>

datatype 'm pass_outcome = PassResult 'm bool | PassModule 'm bool | PassNone 'm | PassOther 'm

definition pass_result_wrapper :: "('m \<Rightarrow> 'm pass_outcome result) \<Rightarrow> 'm \<Rightarrow> 'm pass_outcome result" where
  "pass_result_wrapper fn m =
     rbind (fn m) (\<lambda>res. Inr (case res of
        PassNone gm \<Rightarrow> PassResult gm True
      | PassResult gm b \<Rightarrow> PassResult gm b
      | PassModule gm same \<Rightarrow> PassResult gm True
      | PassOther gm \<Rightarrow> PassNone gm))"

record 'p pass_manager =
  pm_passes :: "'p list"
  pm_constraints :: "'p constraint list"
  pm_validated :: bool
  pm_steps :: int
  pm_run_checks :: bool

definition pass_manager_init :: "'p list option \<Rightarrow> 'p constraint list option \<Rightarrow> int option \<Rightarrow> bool \<Rightarrow> 'p pass_manager" where
  "pass_manager_init passes constraints steps run_checks =
     \<lparr>pm_passes = (case passes of None \<Rightarrow> [] | Some ps \<Rightarrow> ps), pm_constraints = (case constraints of None \<Rightarrow> [] | Some cs \<Rightarrow> cs), pm_validated = False,
      pm_steps = (case steps of None \<Rightarrow> 1 | Some s \<Rightarrow> if s = 0 then 1 else s), pm_run_checks = run_checks\<rparr>"

definition add_pass :: "'p \<Rightarrow> 'p pass_manager \<Rightarrow> 'p pass_manager" where
  "add_pass p pm = pm\<lparr>pm_passes := pm_passes pm @ [p], pm_validated := False\<rparr>"

definition add_constraint :: "'p constraint \<Rightarrow> 'p pass_manager \<Rightarrow> 'p pass_manager" where
  "add_constraint c pm = pm\<lparr>pm_constraints := pm_constraints pm @ [c], pm_validated := False\<rparr>"

fun validate_all :: "'p constraint list \<Rightarrow> 'p list \<Rightarrow> unit result" where
  "validate_all [] passes = Inr ()"
| "validate_all (c # cs) passes = rbind (validate_pass_schedule_constraint c passes) (\<lambda>_. validate_all cs passes)"

definition validate_constraints :: "'p pass_manager \<Rightarrow> 'p pass_manager result" where
  "validate_constraints pm =
     (if pm_validated pm then Inr pm
      else rbind (validate_all (pm_constraints pm) (pm_passes pm)) (\<lambda>_. Inr (pm\<lparr>pm_validated := True\<rparr>)))"

definition solve_constraints :: "'p pass_manager \<Rightarrow> 'p pass_manager result option" where
  "solve_constraints pm =
     map_option (\<lambda>r. rbind r (\<lambda>ps. Inr (pm\<lparr>pm_passes := ps, pm_validated := True\<rparr>)))
       (topological_sort_passes (pm_passes pm) (pm_constraints pm))"

text \<open>One pass: a result that is not a PassResult raises TypeError, and every exception is raised again as Exception.\<close>

definition run_pass :: "('p \<Rightarrow> 'm \<Rightarrow> 'm pass_outcome result) \<Rightarrow> ('m \<Rightarrow> 'm) \<Rightarrow> ('m \<Rightarrow> unit result) \<Rightarrow> bool \<Rightarrow> 'p \<Rightarrow> 'm \<Rightarrow> ('m \<times> bool) result" where
  "run_pass call recompile check run_checks fn m =
     (case rbind (call fn m) (\<lambda>res.
        case res of
          PassResult gm b \<Rightarrow>
            (let gm' = recompile gm in if run_checks then rbind (check gm') (\<lambda>_. Inr (gm', b)) else Inr (gm', b))
        | _ \<Rightarrow> Inl TypeError)
      of Inl e \<Rightarrow> Inl PyException | Inr r \<Rightarrow> Inr r)"

fun run_passes :: "('p \<Rightarrow> 'm \<Rightarrow> ('m \<times> bool) result) \<Rightarrow> 'p list \<Rightarrow> 'm \<Rightarrow> bool \<Rightarrow> ('m \<times> bool) result" where
  "run_passes run_one [] m modified = Inr (m, modified)"
| "run_passes run_one (fn # fns) m modified = rbind (run_one fn m) (\<lambda>(m', b). run_passes run_one fns m' (modified \<or> b))"

fun run_rounds :: "('p \<Rightarrow> 'm \<Rightarrow> ('m \<times> bool) result) \<Rightarrow> 'p list \<Rightarrow> nat \<Rightarrow> 'm \<Rightarrow> bool \<Rightarrow> ('m \<times> bool) result" where
  "run_rounds run_one fns 0 m overall = Inr (m, overall)"
| "run_rounds run_one fns (Suc k) m overall =
     rbind (run_passes run_one fns m False) (\<lambda>(m', modified). if modified then run_rounds run_one fns k m' True else Inr (m', overall))"

definition pass_manager_call ::
    "('p \<Rightarrow> 'm \<Rightarrow> 'm pass_outcome result) \<Rightarrow> ('m \<Rightarrow> 'm) \<Rightarrow> ('m \<Rightarrow> unit result) \<Rightarrow> 'p pass_manager \<Rightarrow> 'm \<Rightarrow> (('m \<times> bool) result \<times> 'p pass_manager) option" where
  "pass_manager_call call recompile check pm m =
     map_option (\<lambda>solved.
       case solved of
         Inl e \<Rightarrow> (Inl e, pm)
       | Inr pm' \<Rightarrow>
           (rbind (check m) (\<lambda>_.
              run_rounds (run_pass call recompile check (pm_run_checks pm')) (pm_passes pm') (nat (pm_steps pm')) m False), pm'))
       (if pm_validated pm then Some (Inr pm) else solve_constraints pm)"

subsection \<open>The round-based manager\<close>

record 'p round_manager =
  rm_passes :: "'p list"
  rm_constraints :: "'p constraint list"
  rm_validated :: bool
  rm_run_once :: bool
  rm_max_iterations :: int

definition round_manager_init :: "'p list \<Rightarrow> 'p constraint list \<Rightarrow> bool \<Rightarrow> int \<Rightarrow> 'p round_manager" where
  "round_manager_init passes constraints run_passes_once max_iterations =
     \<lparr>rm_passes = passes, rm_constraints = constraints, rm_validated = False, rm_run_once = run_passes_once, rm_max_iterations = max_iterations\<rparr>"

definition rm_add :: "'p \<Rightarrow> 'p round_manager \<Rightarrow> 'p round_manager" where
  "rm_add fn rm = rm\<lparr>rm_passes := rm_passes rm @ [fn], rm_validated := False\<rparr>"

definition rm_add_constraint :: "'p constraint \<Rightarrow> 'p round_manager \<Rightarrow> 'p round_manager" where
  "rm_add_constraint c rm = rm\<lparr>rm_constraints := rm_constraints rm @ [c], rm_validated := False\<rparr>"

text \<open>Passes are removed and replaced by name.\<close>

definition remove_pass :: "('p \<Rightarrow> string) \<Rightarrow> string list \<Rightarrow> 'p round_manager \<Rightarrow> 'p round_manager" where
  "remove_pass name_of wanted rm = rm\<lparr>rm_passes := filter (\<lambda>p. name_of p \<notin> set wanted) (rm_passes rm), rm_validated := False\<rparr>"

definition replace_pass :: "('p \<Rightarrow> string) \<Rightarrow> 'p \<Rightarrow> 'p \<Rightarrow> 'p round_manager \<Rightarrow> 'p round_manager" where
  "replace_pass name_of target replacement rm =
     rm\<lparr>rm_passes := map (\<lambda>p. if name_of p = name_of target then replacement else p) (rm_passes rm), rm_validated := False\<rparr>"

fun schedule_ok :: "'p constraint list \<Rightarrow> 'p list \<Rightarrow> bool" where
  "schedule_ok cs [] = True"
| "schedule_ok cs (first # rest) = (list_all (\<lambda>second. list_all (\<lambda>c. c first second) cs) rest \<and> schedule_ok cs rest)"

definition rm_validate :: "'p round_manager \<Rightarrow> 'p round_manager result" where
  "rm_validate rm = (if schedule_ok (rm_constraints rm) (rm_passes rm) then Inr (rm\<lparr>rm_validated := True\<rparr>) else Inl RuntimeError)"

definition round_pass :: "('p \<Rightarrow> 'm \<Rightarrow> 'm pass_outcome result) \<Rightarrow> 'p \<Rightarrow> 'm \<Rightarrow> ('m \<times> bool) result" where
  "round_pass call fn m =
     rbind (call fn m) (\<lambda>res. Inr (case res of
        PassResult gm b \<Rightarrow> (gm, b)
      | PassModule gm same \<Rightarrow> (gm, \<not> same)
      | PassNone gm \<Rightarrow> (gm, False)
      | PassOther gm \<Rightarrow> (gm, True)))"

fun checked_rounds :: "('p \<Rightarrow> 'm \<Rightarrow> ('m \<times> bool) result) \<Rightarrow> ('m \<Rightarrow> unit result) \<Rightarrow> 'p list \<Rightarrow> nat \<Rightarrow> 'm \<Rightarrow> bool \<Rightarrow> ('m \<times> bool) result" where
  "checked_rounds run_one lint_module fns 0 m any_modified = Inr (m, any_modified)"
| "checked_rounds run_one lint_module fns (Suc k) m any_modified =
     rbind (run_passes run_one fns m False) (\<lambda>(m', modified).
     rbind (lint_module m') (\<lambda>_. if modified then checked_rounds run_one lint_module fns k m' True else Inr (m', any_modified)))"

definition round_manager_call ::
    "('p \<Rightarrow> 'm \<Rightarrow> 'm pass_outcome result) \<Rightarrow> ('m \<Rightarrow> unit result) \<Rightarrow> 'p round_manager \<Rightarrow> 'm \<Rightarrow> ('m \<times> bool) result \<times> 'p round_manager" where
  "round_manager_call call lint_module rm m =
     (case (if rm_validated rm then Inr rm else rm_validate rm) of
        Inl e \<Rightarrow> (Inl e, rm)
      | Inr rm' \<Rightarrow>
          (checked_rounds (round_pass call) lint_module (rm_passes rm') (if rm_run_once rm' then 1 else nat (rm_max_iterations rm')) m False, rm'))"

text \<open>\<open>loop_pass\<close>: a fixed number of times, or while a predicate holds; the second may not return.\<close>

fun repeat_pass :: "('m \<Rightarrow> 'm result) \<Rightarrow> nat \<Rightarrow> 'm \<Rightarrow> 'm result" where
  "repeat_pass base 0 v = Inr v"
| "repeat_pass base (Suc k) v = rbind (base v) (repeat_pass base k)"

partial_function (option) while_pass :: "('m \<Rightarrow> 'm result) \<Rightarrow> ('m \<Rightarrow> bool) \<Rightarrow> 'm \<Rightarrow> 'm result option" where
  "while_pass base predicate v =
     (if predicate v then (case base v of Inl e \<Rightarrow> Some (Inl e) | Inr v' \<Rightarrow> while_pass base predicate v') else Some (Inr v))"

definition loop_pass :: "('m \<Rightarrow> 'm result) \<Rightarrow> int option \<Rightarrow> ('m \<Rightarrow> bool) option \<Rightarrow> 'm \<Rightarrow> 'm result option" where
  "loop_pass base n_iter predicate v =
     (case (n_iter, predicate) of
        (Some n, None) \<Rightarrow> Some (if n < 0 then Inl ValueError else repeat_pass base (nat n) v)
      | (None, Some p) \<Rightarrow> while_pass base p v
      | _ \<Rightarrow> Some (Inl AssertionError))"

subsection \<open>What a manager does\<close>

text \<open>Passes called in this order, each on the recompiled module of the one before, with what they say about changes. With \<open>run_checks\<close> every
  module in between passes the check.\<close>

inductive passes_ran :: "('p \<Rightarrow> 'm \<Rightarrow> 'm pass_outcome result) \<Rightarrow> ('m \<Rightarrow> 'm) \<Rightarrow> ('m \<Rightarrow> unit result) \<Rightarrow> bool \<Rightarrow> 'p list \<Rightarrow> 'm \<Rightarrow> bool list \<Rightarrow> 'm \<Rightarrow> bool"
  for call recompile check run_checks where
  passes_ran_Nil: "passes_ran call recompile check run_checks [] m [] m"
| passes_ran_Cons: "call p m = Inr (PassResult gm b) \<Longrightarrow> (run_checks \<longrightarrow> check (recompile gm) = Inr ()) \<Longrightarrow>
    passes_ran call recompile check run_checks ps (recompile gm) bs m' \<Longrightarrow> passes_ran call recompile check run_checks (p # ps) m (b # bs) m'"

definition pass_fails :: "('p \<Rightarrow> 'm \<Rightarrow> 'm pass_outcome result) \<Rightarrow> ('m \<Rightarrow> 'm) \<Rightarrow> ('m \<Rightarrow> unit result) \<Rightarrow> bool \<Rightarrow> 'p \<Rightarrow> 'm \<Rightarrow> bool" where
  "pass_fails call recompile check run_checks p m \<longleftrightarrow>
     \<not> (\<exists>gm b. call p m = Inr (PassResult gm b) \<and> (run_checks \<longrightarrow> check (recompile gm) = Inr ()))"

text \<open>A run in rounds: at most \<open>steps\<close> of them, each of all passes in order; every round but the last changed something, and the last of fewer than \<open>steps\<close>
  did not.\<close>

definition ran_rounds ::
    "('p \<Rightarrow> 'm \<Rightarrow> 'm pass_outcome result) \<Rightarrow> ('m \<Rightarrow> 'm) \<Rightarrow> ('m \<Rightarrow> unit result) \<Rightarrow> bool \<Rightarrow> nat \<Rightarrow> 'p list \<Rightarrow> 'm \<Rightarrow> 'm \<Rightarrow> bool \<Rightarrow> bool" where
  "ran_rounds call recompile check run_checks steps ps m m' modified \<longleftrightarrow>
     (\<exists>bss. length bss \<le> steps \<and> (\<forall>bs \<in> set bss. length bs = length ps) \<and>
        passes_ran call recompile check run_checks (concat (replicate (length bss) ps)) m (concat bss) m' \<and>
        (\<forall>j. Suc j < length bss \<longrightarrow> True \<in> set (bss ! j)) \<and> (length bss < steps \<longrightarrow> bss \<noteq> [] \<and> True \<notin> set (last bss)) \<and>
        modified = (True \<in> set (concat bss)))"

text \<open>A run that ends with the first pass that fails.\<close>

definition stopped_at_failure ::
    "('p \<Rightarrow> 'm \<Rightarrow> 'm pass_outcome result) \<Rightarrow> ('m \<Rightarrow> 'm) \<Rightarrow> ('m \<Rightarrow> unit result) \<Rightarrow> bool \<Rightarrow> nat \<Rightarrow> 'p list \<Rightarrow> 'm \<Rightarrow> bool" where
  "stopped_at_failure call recompile check run_checks steps ps m \<longleftrightarrow>
     (\<exists>j qs p rest bs m1. j < steps \<and> ps = qs @ p # rest \<and> passes_ran call recompile check run_checks (concat (replicate j ps) @ qs) m bs m1 \<and>
        pass_fails call recompile check run_checks p m1)"

lemma run_pass_cases:
  "run_pass call recompile check rc p m = Inr (m1, b) \<longleftrightarrow> (\<exists>gm. call p m = Inr (PassResult gm b) \<and> m1 = recompile gm \<and> (rc \<longrightarrow> check m1 = Inr ()))"
  "run_pass call recompile check rc p m = Inl e \<longleftrightarrow> e = PyException \<and> pass_fails call recompile check rc p m"
  by (auto simp: run_pass_def pass_fails_def Let_def rbind_def split: sum.splits pass_outcome.splits)

lemma passes_ran_append:
  "passes_ran call recompile check rc ps m bs m1 \<Longrightarrow> passes_ran call recompile check rc qs m1 cs m' \<Longrightarrow> passes_ran call recompile check rc (ps @ qs) m (bs @ cs) m'"
  by (induction rule: passes_ran.induct) (auto intro: passes_ran_Cons)

lemma run_passes_ran:
  "run_passes (run_pass call recompile check rc) ps m modified = Inr (m', b) \<Longrightarrow>
    \<exists>bs. length bs = length ps \<and> passes_ran call recompile check rc ps m bs m' \<and> b = (modified \<or> True \<in> set bs)"
proof (induction ps arbitrary: m modified)
  case (Cons p ps)
  then obtain m1 c where 1: "run_pass call recompile check rc p m = Inr (m1, c)" "run_passes (run_pass call recompile check rc) ps m1 (modified \<or> c) = Inr (m', b)"
    by (auto simp: rbind_eq_Inr)
  then obtain gm where c: "call p m = Inr (PassResult gm c)" "m1 = recompile gm" "rc \<longrightarrow> check m1 = Inr ()" unfolding run_pass_cases(1) by blast
  obtain bs where "length bs = length ps" "passes_ran call recompile check rc ps m1 bs m'" "b = ((modified \<or> c) \<or> True \<in> set bs)"
    using Cons.IH[OF 1(2)] by blast
  then show ?case using c by (intro exI[of _ "c # bs"]) (auto intro: passes_ran_Cons)
qed (auto intro: passes_ran_Nil)

lemma run_passes_fail:
  "run_passes (run_pass call recompile check rc) ps m modified = Inl e \<Longrightarrow>
    e = PyException \<and> (\<exists>qs p rest bs m1. ps = qs @ p # rest \<and> passes_ran call recompile check rc qs m bs m1 \<and> pass_fails call recompile check rc p m1)"
proof (induction ps arbitrary: m modified)
  case (Cons p ps)
  show ?case
  proof (cases "run_pass call recompile check rc p m")
    case (Inl e')
    then have "run_pass call recompile check rc p m = Inl e" using Cons.prems by simp
    then have "e = PyException" "pass_fails call recompile check rc p m" unfolding run_pass_cases(2) by blast+
    then show ?thesis by (blast intro: passes_ran_Nil)
  next
    case (Inr r)
    then obtain m1 c where r: "run_pass call recompile check rc p m = Inr (m1, c)" by (cases r) auto
    obtain gm where c: "call p m = Inr (PassResult gm c)" "m1 = recompile gm" "rc \<longrightarrow> check m1 = Inr ()" using r unfolding run_pass_cases(1) by blast
    obtain qs q rest bs m2 where i: "e = PyException" "ps = qs @ q # rest" "passes_ran call recompile check rc qs m1 bs m2" "pass_fails call recompile check rc q m2"
      using Cons.IH[of m1 "modified \<or> c"] Cons.prems r by auto
    then have "passes_ran call recompile check rc (p # qs) m (c # bs) m2" using c by (auto intro: passes_ran_Cons)
    moreover have "p # ps = (p # qs) @ q # rest" using i(2) by simp
    ultimately show ?thesis using i(1,4) by blast
  qed
qed simp

lemma run_rounds_ran:
  "run_rounds (run_pass call recompile check rc) ps k m overall = Inr (m', b) \<Longrightarrow>
    \<exists>c. ran_rounds call recompile check rc k ps m m' c \<and> b = (overall \<or> c)"
proof (induction k arbitrary: m overall)
  case 0
  then show ?case by (auto simp: ran_rounds_def intro: passes_ran_Nil)
next
  case (Suc k)
  then obtain m1 c where 1: "run_passes (run_pass call recompile check rc) ps m False = Inr (m1, c)"
    and 2: "(if c then run_rounds (run_pass call recompile check rc) ps k m1 True else Inr (m1, overall)) = Inr (m', b)" by (auto simp: rbind_eq_Inr)
  obtain bs where bs: "length bs = length ps" "passes_ran call recompile check rc ps m bs m1" "c = (True \<in> set bs)" using run_passes_ran[OF 1] by auto
  show ?case
  proof (cases c)
    case False
    then show ?thesis using 2 bs unfolding ran_rounds_def by (intro exI[of _ False] conjI exI[of _ "[bs]"]) auto
  next
    case True
    then obtain bss where r: "length bss \<le> k" "\<forall>bs \<in> set bss. length bs = length ps" "b"
      "passes_ran call recompile check rc (concat (replicate (length bss) ps)) m1 (concat bss) m'" "\<forall>j. Suc j < length bss \<longrightarrow> True \<in> set (bss ! j)"
      "length bss < k \<longrightarrow> bss \<noteq> [] \<and> True \<notin> set (last bss)"
      using 2 Suc.IH[of m1 True] unfolding ran_rounds_def by auto
    have "passes_ran call recompile check rc (concat (replicate (length (bs # bss)) ps)) m (concat (bs # bss)) m'" using passes_ran_append[OF bs(2) r(4)] by simp
    moreover have "True \<in> set ((bs # bss) ! j)" if "Suc j < length (bs # bss)" for j using r(5) bs(3) True that by (cases j) auto
    moreover have "length (bs # bss) < Suc k \<longrightarrow> True \<notin> set (last (bs # bss))" using r(6) by auto
    ultimately show ?thesis using r(1-3) bs True unfolding ran_rounds_def by (intro exI[of _ True] conjI exI[of _ "bs # bss"]) auto
  qed
qed

lemma run_rounds_fail:
  "run_rounds (run_pass call recompile check rc) ps k m overall = Inl e \<Longrightarrow> e = PyException \<and> stopped_at_failure call recompile check rc k ps m"
proof (induction k arbitrary: m overall)
  case (Suc k)
  show ?case
  proof (cases "run_passes (run_pass call recompile check rc) ps m False")
    case (Inl e')
    then have "e = e'" using Suc.prems by simp
    then show ?thesis using run_passes_fail[OF Inl] unfolding stopped_at_failure_def
      by (metis append_Nil concat.simps(1) replicate_0 zero_less_Suc)
  next
    case (Inr r)
    then obtain m1 c where 1: "run_passes (run_pass call recompile check rc) ps m False = Inr (m1, c)" by (cases r) auto
    obtain bs where bs: "passes_ran call recompile check rc ps m bs m1" using run_passes_ran[OF 1] by blast
    have "e = PyException \<and> stopped_at_failure call recompile check rc k ps m1" using Suc.IH[of m1 True] Suc.prems 1 by (simp split: if_splits)
    then obtain j qs p rest cs m2 where f: "e = PyException" "j < k" "ps = qs @ p # rest"
      "passes_ran call recompile check rc (concat (replicate j ps) @ qs) m1 cs m2" "pass_fails call recompile check rc p m2"
      unfolding stopped_at_failure_def by blast
    have "passes_ran call recompile check rc (concat (replicate (Suc j) ps) @ qs) m (bs @ cs) m2" using passes_ran_append[OF bs f(4)] by simp
    then show ?thesis using f(1,2,3,5) unfolding stopped_at_failure_def by (intro conjI exI[of _ "Suc j"]) blast+
  qed
qed simp

text \<open>C14: A pass manager that has not been validated yet, with distinct passes or without constraints, orders its passes so that all constraints hold, checks the module, and calls all passes in this order, each on the recompiled result of the
  one before, in rounds that end with the first one that changes nothing or with the number of steps; it says truly whether anything was
  changed. An error means that no order satisfies the constraints, that the first check failed, or that a pass failed, after
  which no other is called.\<close>

theorem pass_manager_runs_rounds:
  assumes "distinct (pm_passes pm) \<or> pm_constraints pm = []" and "\<not> pm_validated pm"
  shows "\<exists>r pm'. pass_manager_call call recompile check pm m = Some (r, pm') \<and>
    (case r of
       Inr (m', modified) \<Rightarrow> mset (pm_passes pm') = mset (pm_passes pm) \<and> constraints_hold (pm_constraints pm) (pm_passes pm') \<and> check m = Inr () \<and>
         ran_rounds call recompile check (pm_run_checks pm) (nat (pm_steps pm)) (pm_passes pm') m m' modified
     | Inl e \<Rightarrow> (e = RuntimeError \<and> \<not> (\<exists>ps. mset ps = mset (pm_passes pm) \<and> constraints_hold (pm_constraints pm) ps)) \<or> check m = Inl e \<or>
         (e = PyException \<and> stopped_at_failure call recompile check (pm_run_checks pm) (nat (pm_steps pm)) (pm_passes pm') m))"
proof -
  obtain s where s: "topological_sort_passes (pm_passes pm) (pm_constraints pm) = Some s"
    "case s of Inr ps \<Rightarrow> mset ps = mset (pm_passes pm) \<and> constraints_hold (pm_constraints pm) ps
     | Inl e \<Rightarrow> e = RuntimeError \<and> \<not> (\<exists>ps. mset ps = mset (pm_passes pm) \<and> constraints_hold (pm_constraints pm) ps)"
    using assms(1) sort_passes_total by blast
  show ?thesis
  proof (cases s)
    case (Inl e)
    then show ?thesis using s assms(2) by (simp add: pass_manager_call_def solve_constraints_def)
  next
    case (Inr ps)
    let ?pm = "pm\<lparr>pm_passes := ps, pm_validated := True\<rparr>"
    let ?run = "run_rounds (run_pass call recompile check (pm_run_checks pm)) ps (nat (pm_steps pm)) m False"
    have c: "pass_manager_call call recompile check pm m = Some (rbind (check m) (\<lambda>_. ?run), ?pm)"
      using s(1) Inr assms(2) by (simp add: pass_manager_call_def solve_constraints_def)
    show ?thesis
    proof (cases "check m")
      case ok: (Inr u)
      show ?thesis
      proof (cases ?run)
        case (Inl e)
        then show ?thesis using c ok run_rounds_fail[OF Inl] by simp
      next
        case (Inr r)
        then obtain m' b where "?run = Inr (m', b)" by (cases r) auto
        with run_rounds_ran[OF this] show ?thesis using c ok s(2) \<open>s = Inr ps\<close> by simp
      qed
    qed (use c in simp)
  qed
qed

lemma schedule_ok_iff: "schedule_ok cs ps \<longleftrightarrow> constraints_hold cs ps"
proof -
  have "schedule_ok cs ps \<longleftrightarrow> list_all (\<lambda>c. validate_pass_schedule_constraint c ps = Inr ()) cs"
    by (induction ps) (auto simp: list_all_iff)
  then show ?thesis by (simp add: constraints_hold_def)
qed

subsection \<open>The contract of passes\<close>

text \<open>Passes that return, keep a property of modules and refine what a module means; checks accept modules with the property, and recompiling
  keeps it.\<close>

locale module_passes =
  fixes call :: "'p \<Rightarrow> 'm \<Rightarrow> 'm pass_outcome result" and good :: "'m \<Rightarrow> bool" and refines :: "'m \<Rightarrow> 'm \<Rightarrow> bool"
    and check :: "'m \<Rightarrow> unit result" and recompile :: "'m \<Rightarrow> 'm"
  assumes refines_refl: "refines m m"
    and refines_trans: "refines a b \<Longrightarrow> refines b c \<Longrightarrow> refines a c"
    and pass_returns: "good m \<Longrightarrow> \<exists>gm b. call p m = Inr (PassResult gm b) \<and> good gm \<and> refines m gm"
    and check_good: "good m \<Longrightarrow> check m = Inr ()"
    and recompile_good: "good m \<Longrightarrow> good (recompile m) \<and> refines m (recompile m)"
begin

lemma run_pass_good: "\<forall>p m. good m \<longrightarrow> (\<exists>gm b. run_pass call recompile check rc p m = Inr (gm, b) \<and> good gm \<and> refines m gm)"
proof (intro allI impI)
  fix p m assume "good m"
  then obtain gm b where "call p m = Inr (PassResult gm b)" "good gm" "refines m gm" using pass_returns by blast
  then show "\<exists>gm b. run_pass call recompile check rc p m = Inr (gm, b) \<and> good gm \<and> refines m gm"
    using recompile_good[of gm] check_good[of "recompile gm"] refines_trans[of m gm "recompile gm"] by (simp add: run_pass_def Let_def)
qed

lemma round_pass_good: "\<forall>p m. good m \<longrightarrow> (\<exists>gm b. round_pass call p m = Inr (gm, b) \<and> good gm \<and> refines m gm)"
proof (intro allI impI)
  fix p m assume "good m"
  then obtain gm b where "call p m = Inr (PassResult gm b)" "good gm" "refines m gm" using pass_returns by blast
  then show "\<exists>gm b. round_pass call p m = Inr (gm, b) \<and> good gm \<and> refines m gm" by (simp add: round_pass_def)
qed

lemma run_passes_good:
  assumes "\<forall>p m. good m \<longrightarrow> (\<exists>gm b. run_one p m = Inr (gm, b) \<and> good gm \<and> refines m gm)" and "good m"
  shows "\<exists>gm b. run_passes run_one ps m modified = Inr (gm, b) \<and> good gm \<and> refines m gm"
  using assms(2)
proof (induction ps arbitrary: m modified)
  case (Cons p ps)
  obtain gm b where 1: "run_one p m = Inr (gm, b)" "good gm" "refines m gm" using assms(1) Cons.prems by blast
  obtain gm' b' where "run_passes run_one ps gm (modified \<or> b) = Inr (gm', b')" "good gm'" "refines gm gm'" using Cons.IH[OF 1(2)] by blast
  then show ?case using 1 refines_trans by auto
qed (simp add: refines_refl)

lemma run_rounds_good:
  assumes "\<forall>p m. good m \<longrightarrow> (\<exists>gm b. run_one p m = Inr (gm, b) \<and> good gm \<and> refines m gm)" and "good m"
  shows "\<exists>gm b. run_rounds run_one ps k m overall = Inr (gm, b) \<and> good gm \<and> refines m gm"
  using assms(2)
proof (induction k arbitrary: m overall)
  case (Suc k)
  obtain gm b where 1: "run_passes run_one ps m False = Inr (gm, b)" "good gm" "refines m gm" using run_passes_good[OF assms(1) Suc.prems] by blast
  obtain gm' b' where "run_rounds run_one ps k gm True = Inr (gm', b')" "good gm'" "refines gm gm'" using Suc.IH[OF 1(2)] by blast
  then show ?case using 1 refines_trans by (cases b) auto
qed (simp add: refines_refl)

lemma checked_rounds_eq:
  assumes "\<forall>p m. good m \<longrightarrow> (\<exists>gm b. run_one p m = Inr (gm, b) \<and> good gm \<and> refines m gm)" and "good m"
  shows "checked_rounds run_one check ps k m overall = run_rounds run_one ps k m overall"
  using assms(2)
proof (induction k arbitrary: m overall)
  case (Suc k)
  obtain gm b where "run_passes run_one ps m False = Inr (gm, b)" "good gm" using run_passes_good[OF assms(1) Suc.prems] by blast
  then show ?case using Suc.IH check_good by simp
qed simp

lemma manager_sound:
  assumes "good m" and "pm_validated pm \<or> distinct (pm_passes pm) \<or> pm_constraints pm = []"
  shows "\<exists>r pm'. pass_manager_call call recompile check pm m = Some (r, pm') \<and>
    (case r of Inr (m', _) \<Rightarrow> good m' \<and> refines m m'
     | Inl e \<Rightarrow> e = RuntimeError \<and> \<not> (\<exists>ps. mset ps = mset (pm_passes pm) \<and> constraints_hold (pm_constraints pm) ps))"
proof -
  have run: "\<exists>gm b. run_rounds (run_pass call recompile check rc) ps k m False = Inr (gm, b) \<and> good gm \<and> refines m gm" for rc ps k
    by (rule run_rounds_good[OF run_pass_good assms(1)])
  show ?thesis
  proof (cases "pm_validated pm")
    case True
    obtain gm b where "run_rounds (run_pass call recompile check (pm_run_checks pm)) (pm_passes pm) (nat (pm_steps pm)) m False = Inr (gm, b)"
      "good gm" "refines m gm" using run by blast
    then show ?thesis using True check_good[OF assms(1)] by (simp add: pass_manager_call_def)
  next
    case False
    then obtain r where r: "topological_sort_passes (pm_passes pm) (pm_constraints pm) = Some r"
      "case r of Inr ps \<Rightarrow> mset ps = mset (pm_passes pm) \<and> constraints_hold (pm_constraints pm) ps
       | Inl e \<Rightarrow> e = RuntimeError \<and> \<not> (\<exists>ps. mset ps = mset (pm_passes pm) \<and> constraints_hold (pm_constraints pm) ps)"
      using assms(2) sort_passes_total by blast
    show ?thesis
    proof (cases r)
      case (Inr ps)
      obtain gm b where "run_rounds (run_pass call recompile check (pm_run_checks pm)) ps (nat (pm_steps pm)) m False = Inr (gm, b)"
        "good gm" "refines m gm" using run by blast
      then show ?thesis using False Inr r check_good[OF assms(1)] by (simp add: pass_manager_call_def solve_constraints_def)
    qed (use False r in \<open>simp add: pass_manager_call_def solve_constraints_def\<close>)
  qed
qed

lemma round_manager_sound:
  assumes "good m"
  shows "\<exists>r rm'. round_manager_call call check rm m = (r, rm') \<and>
    (case r of Inr (m', _) \<Rightarrow> good m' \<and> refines m m'
     | Inl e \<Rightarrow> e = RuntimeError \<and> \<not> rm_validated rm \<and> \<not> constraints_hold (rm_constraints rm) (rm_passes rm))"
proof -
  have run: "\<exists>gm b. checked_rounds (round_pass call) check ps k m False = Inr (gm, b) \<and> good gm \<and> refines m gm" for ps k
    using run_rounds_good[OF round_pass_good assms] checked_rounds_eq[OF round_pass_good assms] by simp
  obtain gm b where "checked_rounds (round_pass call) check (rm_passes rm) (if rm_run_once rm then 1 else nat (rm_max_iterations rm)) m False = Inr (gm, b)"
    "good gm" "refines m gm" using run by blast
  then show ?thesis by (cases "rm_validated rm"; cases "schedule_ok (rm_constraints rm) (rm_passes rm)")
    (auto simp: round_manager_call_def rm_validate_def schedule_ok_iff)
qed

end

subsection \<open>Dead code elimination as a pass\<close>

text \<open>The module is the store with the graph \<open>g\<close>. Passes are objects, compared by identity: the number tells the instances of the class apart.
  On a consistent store the elimination returns.\<close>

datatype module_pass = DeadCodeElimination nat

fun module_pass_call :: "gid \<Rightarrow> module_pass \<Rightarrow> heap \<Rightarrow> heap pass_outcome result" where
  "module_pass_call g (DeadCodeElimination i) h =
     (case dead_code_elimination g h of Some (k, h') \<Rightarrow> Inr (PassResult h' (0 < k)) | None \<Rightarrow> Inl RecursionError)"

text \<open>Recompiling makes the executor of the module that of the current graph again.\<close>

definition recompile :: "gid \<Rightarrow> heap \<Rightarrow> heap" where
  "recompile g = upd_graph g (\<lambda>gr. gr\<lparr>g_owner := map_option (\<lambda>w. w\<lparr>o_executor := True\<rparr>) (g_owner gr)\<rparr>)"

definition lint_module :: "gid \<Rightarrow> heap \<Rightarrow> unit result" where
  "lint_module g h = lint h g"

definition sound_module :: "'w runtime \<Rightarrow> gid \<Rightarrow> heap \<Rightarrow> bool" where
  "sound_module rt g h \<longleftrightarrow> heap_ok h \<and> lint h g = Inr () \<and> users_inside h g \<and> effects_declared rt h g"

definition run_refines :: "'w runtime \<Rightarrow> gid \<Rightarrow> heap \<Rightarrow> heap \<Rightarrow> bool" where
  "run_refines rt g h h' \<longleftrightarrow> (\<forall>gc env args kw w v w'. run rt gc h g env args kw w = (Inr v, w') \<longrightarrow> run rt gc h' g env args kw w = (Inr v, w'))"

lemma dce_users_inside:
  assumes ok: "heap_ok h" and sc: "self_contained h g" and run: "dead_code_elimination g h = Some (k, h')"
  shows "users_inside h' g"
proof -
  let ?kept = "filter (\<lambda>n. n \<in> needed h (set (dce_roots h g))) (nodes_of h g)"
  have dn: "distinct (nodes_of h g)" by (rule book_ok_sel(1)[OF heap_ok_sel(2)[OF ok]])
  show ?thesis
  proof (cases "?kept = nodes_of h g")
    case True
    then show ?thesis using dce_eq[OF ok, of g] run sc by (auto simp: users_inside_def self_contained_def)
  next
    case False
    have d: "distinct ?kept" and sub: "set ?kept \<subseteq> set (nodes_of h g)" using dn by auto
    have cl: "set (n_input_nodes (hp_node h n)) \<subseteq> set ?kept" if "n \<in> set ?kept" for n
      using that sc dce_kept_closed[OF ok] unfolding self_contained_def by auto
    have h': "h' = dce_heap g ?kept h" using dce_eq[OF ok, of g] run False by simp
    have nodes: "nodes_of h' g = ?kept" by (simp add: h' dce_heap_sel replace_list_sel)
    show ?thesis unfolding users_inside_def nodes unfolding h'
      by (intro ballI) (simp only: dce_heap_node[OF dn d sub cl] if_True, auto)
  qed
qed

lemma is_impure_same_body:
  assumes "same_body (hp_node h' n) (hp_node h n)" and "n_graph (hp_node h' n) = n_graph (hp_node h n)"
    and "hp_side_effectful h' = hp_side_effectful h" and "\<And>g. map_option o_submodules (g_owner (hp_graph h' g)) = map_option o_submodules (g_owner (hp_graph h g))"
  shows "is_impure h' r n = is_impure h r n"
proof -
  have "Option.bind (n_graph (hp_node h n)) (\<lambda>g. map_option o_submodules (g_owner (hp_graph h' g))) =
    Option.bind (n_graph (hp_node h n)) (\<lambda>g. map_option o_submodules (g_owner (hp_graph h g)))" by (simp add: assms(4))
  then show ?thesis
    using assms(1-3) by (auto simp: is_impure_def Let_def same_body_def meta_true_def has_side_effect_def split: option.splits target.splits bind_splits)
qed

lemma dce_sound_module:
  assumes "sound_module rt g h"
  shows "\<exists>k h'. dead_code_elimination g h = Some (k, h') \<and> sound_module rt g h' \<and> run_refines rt g h h'"
proof -
  have ok: "heap_ok h" and l: "lint h g = Inr ()" and ui: "users_inside h g" and eff: "effects_declared rt h g"
    using assms by (auto simp: sound_module_def)
  have t: "topological h (nodes_of h g)" using l by (simp add: lint_eq[OF ok] split: if_split_asm)
  have sc: "self_contained h g" using ui topological_inputs[OF t] by (auto simp: self_contained_def users_inside_def)
  obtain k h' where d: "dead_code_elimination g h = Some (k, h')" and ok': "heap_ok h'" and sub: "set (nodes_of h' g) \<subseteq> set (nodes_of h g)"
    and se: "hp_side_effectful h' = hp_side_effectful h" and ow: "\<And>g'. g_owner (hp_graph h' g') = g_owner (hp_graph h g')"
    and b: "\<And>n. n \<in> set (nodes_of h' g) \<Longrightarrow> same_body (hp_node h' n) (hp_node h n) \<and> n_graph (hp_node h' n) = Some g"
    using dce_spec[OF ok sc] by (metis filter_is_subset)
  have "is_impure h' True n = is_impure h True n" if "n \<in> set (nodes_of h' g)" for n
    by (rule is_impure_same_body) (use b[OF that] heap_ok_graph[OF ok, of n g] sub that se ow in auto)
  moreover have "run_op rt (hp_node h' n) = run_op rt (hp_node h n)" if "n \<in> set (nodes_of h' g)" for n
    using b[OF that] run_op_cong by (auto simp: same_body_def)
  ultimately have eff': "effects_declared rt h' g" using eff sub unfolding effects_declared_def by (metis subsetD)
  have "lint h' g = Inr ()" using dce_lint[OF ok l ui] d by (metis option.inject prod.inject)
  moreover have "run_refines rt g h h'" unfolding run_refines_def using dce_run[OF ok l ui eff] d by (metis option.inject prod.inject)
  ultimately show ?thesis using d ok' eff' dce_users_inside[OF ok sc d] by (auto simp: sound_module_def)
qed

lemma recompile_sel [simp]:
  "hp_node (recompile g h) = hp_node h" "hp_next (recompile g h) = hp_next h" "hp_side_effectful (recompile g h) = hp_side_effectful h"
  "nodes_of (recompile g h) g' = nodes_of h g'" "g_index (hp_graph (recompile g h) g') = g_index (hp_graph h g')"
  "g_live_names (hp_graph (recompile g h) g') = g_live_names (hp_graph h g')" "g_next_sort_key (hp_graph (recompile g h) g') = g_next_sort_key (hp_graph h g')"
  "g_namespace (hp_graph (recompile g h) g') = g_namespace (hp_graph h g')" "g_lookup (hp_graph (recompile g h) g') = g_lookup (hp_graph h g')"
  "g_insert (hp_graph (recompile g h) g') = g_insert (hp_graph h g')"
  "map_option o_submodules (g_owner (hp_graph (recompile g h) g')) = map_option o_submodules (g_owner (hp_graph h g'))"
  by (auto simp: recompile_def upd_graph_def option.map_comp o_def)

lemma recompile_ok: "heap_ok h \<Longrightarrow> heap_ok (recompile g h)"
  by (simp add: heap_ok_def links_ok_def book_ok_def names_ok_def Let_def)

lemma recompile_lint: "lint (recompile g h) g' = lint h g'"
proof -
  have "lint_inputs (recompile g h) g' n is = lint_inputs h g' n is" for n "is" by (induction "is") (simp_all split: option.split)
  then have "lint_nodes (recompile g h) g' ns = lint_nodes h g' ns" for ns by (induction ns) simp_all
  then show ?thesis by (simp add: lint_def outputs_def)
qed

lemma recompile_run: "run rt gc (recompile g h) g' env args kw w = run rt gc h g' env args kw w"
proof -
  have "run_node rt (recompile g h) kw df n st = run_node rt h kw df n st" for kw df n st
    unfolding run_node_def fetch_args_kwargs_from_env_def recompile_sel ..
  then have "run_nodes rt (recompile g h) uses kw df ns st = run_nodes rt h uses kw df ns st" for uses kw df ns st
    by (induction rt h uses kw df ns st rule: run_nodes.induct) (simp_all add: Let_def split: option.split sum.split prod.split)
  moreover have "placeholder_defaults (recompile g h) g' = placeholder_defaults h g'" unfolding placeholder_defaults_def placeholders_def recompile_sel ..
  moreover have "user_to_last_uses (recompile g h) ns = user_to_last_uses h ns" for ns by (simp add: user_to_last_uses_def node_refs_def)
  ultimately show ?thesis by (simp add: run_def)
qed

lemma recompile_sound: "sound_module rt g h \<Longrightarrow> sound_module rt g (recompile g h) \<and> run_refines rt g h (recompile g h)"
proof -
  have "is_impure (recompile g h) True n = is_impure h True n" for n by (rule is_impure_same_body) (simp_all add: same_body_def)
  then show "sound_module rt g h \<Longrightarrow> ?thesis"
    by (simp add: sound_module_def run_refines_def recompile_ok recompile_lint recompile_run users_inside_def effects_declared_def)
qed

interpretation dce_passes: module_passes "module_pass_call g" "sound_module rt g" "run_refines rt g" "lint_module g" "recompile g" for rt :: "'w runtime" and g
proof unfold_locales
  show "run_refines rt g m m" for m by (simp add: run_refines_def)
  show "run_refines rt g a b \<Longrightarrow> run_refines rt g b c \<Longrightarrow> run_refines rt g a c" for a b c unfolding run_refines_def by blast
  show "\<exists>gm b. module_pass_call g p m = Inr (PassResult gm b) \<and> sound_module rt g gm \<and> run_refines rt g m gm" if "sound_module rt g m" for p m
    using dce_sound_module[OF that] by (cases p) auto
  show "sound_module rt g m \<Longrightarrow> lint_module g m = Inr ()" for m by (simp add: sound_module_def lint_module_def)
  show "sound_module rt g m \<Longrightarrow> sound_module rt g (recompile g m) \<and> run_refines rt g m (recompile g m)" for m by (rule recompile_sound)
qed

text \<open>So a manager over such passes, with any schedule, number of steps and checks, keeps what the graph computes.\<close>

lemma pass_manager_preserves_runs:
  assumes "sound_module rt g h" and "pm_validated pm \<or> distinct (pm_passes pm) \<or> pm_constraints pm = []"
  shows "\<exists>r pm'. pass_manager_call (module_pass_call g) (recompile g) (lint_module g) pm h = Some (r, pm') \<and>
    (case r of
       Inr (h', _) \<Rightarrow> sound_module rt g h' \<and> run_refines rt g h h'
     | Inl e \<Rightarrow> e = RuntimeError \<and> \<not> (\<exists>ps. mset ps = mset (pm_passes pm) \<and> constraints_hold (pm_constraints pm) ps))"
  using assms by (rule dce_passes.manager_sound)

text \<open>The same for the manager that checks the graph after every round.\<close>

lemma round_manager_preserves_runs:
  assumes "sound_module rt g h"
  shows "\<exists>r rm'. round_manager_call (module_pass_call g) (lint_module g) rm h = (r, rm') \<and>
    (case r of Inr (h', _) \<Rightarrow> sound_module rt g h' \<and> run_refines rt g h h'
     | Inl e \<Rightarrow> e = RuntimeError \<and> \<not> rm_validated rm \<and> \<not> constraints_hold (rm_constraints rm) (rm_passes rm))"
  using assms by (rule dce_passes.round_manager_sound)

lemma demo_sound: "sound_module tuple_runtime 0 demo_heap"
  by (simp add: sound_module_def demo_ok demo_lint demo_users_inside effects_declared_def tuple_runtime_pure)

definition demo_manager :: "module_pass pass_manager" where
  "demo_manager = pass_manager_init (Some [DeadCodeElimination 1, DeadCodeElimination 0])
     (Some [this_before_that_pass_constraint (DeadCodeElimination 0) (DeadCodeElimination 1)]) (Some 3) True"

lemma demo_order:
  assumes "mset ps = mset (pm_passes demo_manager)" and "constraints_hold (pm_constraints demo_manager) ps"
  shows "ps = [DeadCodeElimination 0, DeadCodeElimination 1]"
proof -
  have m: "mset ps = {#DeadCodeElimination 1, DeadCodeElimination 0#}" using assms(1) by (simp add: demo_manager_def pass_manager_init_def)
  then have "length ps = 2" using mset_eq_length[of ps "[DeadCodeElimination 1, DeadCodeElimination 0]"] by simp
  then obtain p q where ps: "ps = [p, q]" by (auto simp: numeral_2_eq_2 length_Suc_conv)
  then show ?thesis using m assms(2)
    by (auto simp: add_eq_conv_ex demo_manager_def pass_manager_init_def constraints_hold_def this_before_that_pass_constraint_def split: if_split_asm)
qed

theorem pass_manager_runs_rounds_witness:
  "\<exists>h' b pm'. pass_manager_call (module_pass_call 0) (recompile 0) (lint_module 0) demo_manager demo_heap = Some (Inr (h', b), pm') \<and>
     pm_passes pm' = [DeadCodeElimination 0, DeadCodeElimination 1] \<and>
     ran_rounds (module_pass_call 0) (recompile 0) (lint_module 0) True 3 [DeadCodeElimination 0, DeadCodeElimination 1] demo_heap h' b \<and>
     run tuple_runtime True h' 0 Map.empty [AInt 7] [] 0 = (Inr (ATuple [ATuple [AInt 7]]), 0)"
proof -
  have d: "distinct (pm_passes demo_manager)" "\<not> pm_validated demo_manager" "pm_run_checks demo_manager" "nat (pm_steps demo_manager) = 3"
    by (simp_all add: demo_manager_def pass_manager_init_def)
  have r0: "run tuple_runtime True demo_heap 0 Map.empty [AInt 7] [] 0 = (Inr (ATuple [ATuple [AInt 7]]), 0)"
    using demo_run run_gc_eq[OF demo_ok demo_lint, of tuple_runtime Map.empty "[AInt 7]" "[]" 0] by simp
  let ?ps = "[DeadCodeElimination 0, DeadCodeElimination 1]"
  have "mset ?ps = mset (pm_passes demo_manager) \<and> constraints_hold (pm_constraints demo_manager) ?ps"
    by (simp add: demo_manager_def pass_manager_init_def constraints_hold_def this_before_that_pass_constraint_def)
  then obtain h' b pm' where
    r: "pass_manager_call (module_pass_call 0) (recompile 0) (lint_module 0) demo_manager demo_heap = Some (Inr (h', b), pm')"
    and f: "run_refines tuple_runtime 0 demo_heap h'"
    using pass_manager_preserves_runs[OF demo_sound, of demo_manager] d(1) by (fastforce split: sum.split_asm)
  have "mset (pm_passes pm') = mset (pm_passes demo_manager) \<and> constraints_hold (pm_constraints demo_manager) (pm_passes pm') \<and>
    ran_rounds (module_pass_call 0) (recompile 0) (lint_module 0) True 3 (pm_passes pm') demo_heap h' b"
    using pass_manager_runs_rounds[of demo_manager "module_pass_call 0" "recompile 0" "lint_module 0" demo_heap] d r by auto
  then show ?thesis using demo_order[of "pm_passes pm'"] r r0 f unfolding run_refines_def by auto
qed

end
