(* ===== verification/GraphPartition.thy ===== *)
theory GraphPartition
  imports GraphOrder GraphInterp "HOL-Library.AList"
begin

text \<open>
  The partitioner of \<^verbatim>\<open>src/tensorplay/graph/passes/infra/partitioner.py\<close>: it groups supported nodes so that each group can be fused into one
  node. The model takes the node list, the users of every node and the support predicate; \<open>propose_partitions\<close> reads the first two from a graph.
\<close>

subsection \<open>Dependencies\<close>

definition note_downstream :: "(nid \<Rightarrow> nid list) \<Rightarrow> nid \<Rightarrow> (nid \<Rightarrow> nid set) \<Rightarrow> nid \<Rightarrow> nid set" where
  "note_downstream users n down = fold (\<lambda>u d. d(n := insert u (d n \<union> d u))) (users n) down"

definition dependency_viewer :: "(nid \<Rightarrow> nid list) \<Rightarrow> nid list \<Rightarrow> nid \<Rightarrow> nid set" where
  "dependency_viewer users nodes = fold (note_downstream users) (rev nodes) (\<lambda>_. {})"

subsection \<open>The state\<close>

text \<open>A partition is a dictionary from nodes to their order, given when the node starts a partition of its own.\<close>

type_synonym partition_nodes = "(nid \<times> nat option) list"

record partition_state =
  ps_map :: "nat \<Rightarrow> nat set"
  ps_assignment :: "nid \<Rightarrow> nat option"
  ps_parts :: "(nat \<times> partition_nodes) list"
  ps_order :: "(nat \<times> nat) list"
  ps_users :: "nat \<Rightarrow> nid set"
  ps_next :: nat

definition empty_partition_state :: partition_state where
  "empty_partition_state = \<lparr>ps_map = (\<lambda>_. {}), ps_assignment = Map.empty, ps_parts = [], ps_order = [], ps_users = (\<lambda>_. {}), ps_next = 0\<rparr>"

definition downstream_partitions :: "(nid \<Rightarrow> nid set) \<Rightarrow> partition_state \<Rightarrow> nid set \<Rightarrow> nat set \<Rightarrow> nat set" where
  "downstream_partitions down st user_nodes source_ids =
     (\<Union>u \<in> user_nodes. \<Union>x \<in> insert u (down u). case ps_assignment st x of None \<Rightarrow> {} | Some t \<Rightarrow> insert t (ps_map st t)) - source_ids"

text \<open>Whether a user of the two partitions leads back to them, directly or through a partition that is known to reach them. The partitions
  already seen, which the code skips, have been tested before.\<close>

definition finds_cycle :: "(nid \<Rightarrow> nid set) \<Rightarrow> partition_state \<Rightarrow> nat \<Rightarrow> nat \<Rightarrow> nid set \<Rightarrow> nid set \<Rightarrow> bool" where
  "finds_cycle down st self_id other_id merged user_nodes =
     (\<exists>u \<in> user_nodes. \<exists>x \<in> insert u (down u).
        x \<in> merged \<or> (case ps_assignment st x of None \<Rightarrow> False | Some p \<Rightarrow> self_id \<in> ps_map st p \<or> other_id \<in> ps_map st p))"

definition order_of :: "partition_state \<Rightarrow> nat \<Rightarrow> nat" where
  "order_of st p = (case map_of (ps_order st) p of None \<Rightarrow> 0 | Some k \<Rightarrow> k)"

text \<open>The merge itself: the nodes of \<open>removed_id\<close> go to \<open>merge_id\<close>.\<close>

definition merge_into :: "(nid \<Rightarrow> nid set) \<Rightarrow> nat \<Rightarrow> nat \<Rightarrow> partition_nodes \<Rightarrow> partition_nodes \<Rightarrow> nid set \<Rightarrow> partition_state \<Rightarrow> partition_state" where
  "merge_into down merge_id removed_id merge_nodes removed_nodes user_nodes st =
     (let st1 = st\<lparr>ps_parts := AList.delete removed_id (AList.update merge_id (fold (\<lambda>nk. AList.update (fst nk) (snd nk)) removed_nodes merge_nodes) (ps_parts st)),
                   ps_assignment := fold (\<lambda>nk a. a(fst nk \<mapsto> merge_id)) removed_nodes (ps_assignment st),
                   ps_order := AList.delete removed_id (AList.update merge_id (min (order_of st merge_id) (order_of st removed_id)) (ps_order st)),
                   ps_map := (ps_map st)(merge_id := ps_map st merge_id \<union> ps_map st removed_id, removed_id := {}),
                   ps_users := (ps_users st)(merge_id := user_nodes, removed_id := {})\<rparr>
      in st1\<lparr>ps_map := (ps_map st1)(merge_id :=
               (ps_map st1 merge_id \<union> downstream_partitions down st1 user_nodes {merge_id, removed_id}) - {merge_id, removed_id})\<rparr>)"

definition maybe_merge_partition :: "(nid \<Rightarrow> nid set) \<Rightarrow> nat \<Rightarrow> nat \<Rightarrow> partition_state \<Rightarrow> (nat \<times> partition_state) result" where
  "maybe_merge_partition down self_id other_id st =
     (case (map_of (ps_parts st) self_id, map_of (ps_parts st) other_id) of
        (Some self_nodes, Some other_nodes) \<Rightarrow>
          (let merged = fst ` set self_nodes \<union> fst ` set other_nodes;
               all_user_nodes = (ps_users st self_id \<union> ps_users st other_id) - merged
           in if finds_cycle down st self_id other_id merged all_user_nodes then Inr (self_id, st)
              else if length self_nodes < length other_nodes
              then Inr (other_id, merge_into down other_id self_id other_nodes self_nodes all_user_nodes st)
              else Inr (self_id, merge_into down self_id other_id self_nodes other_nodes all_user_nodes st))
      | _ \<Rightarrow> Inl KeyError)"

text \<open>Moving one node to a partition, a new or an existing one, or out of all partitions.\<close>

definition drop_from_partition :: "nid \<Rightarrow> partition_state \<Rightarrow> partition_state result" where
  "drop_from_partition n st =
     (case ps_assignment st n of
        None \<Rightarrow> Inr st
      | Some p \<Rightarrow>
          (case map_of (ps_parts st) p of
             None \<Rightarrow> Inl KeyError
           | Some nodes \<Rightarrow> if n \<in> fst ` set nodes then Inr (st\<lparr>ps_parts := AList.update p (AList.delete n nodes) (ps_parts st)\<rparr>) else Inl KeyError))"

definition merge_single_node ::
    "(nid \<Rightarrow> nid list) \<Rightarrow> (nid \<Rightarrow> nid set) \<Rightarrow> nid \<Rightarrow> nat option \<Rightarrow> nat option \<Rightarrow> partition_state \<Rightarrow> partition_state result" where
  "merge_single_node users down n node_order pid st =
     rbind (drop_from_partition n st) (\<lambda>st1.
       case pid of
         None \<Rightarrow> if ps_assignment st1 n = None then Inl KeyError else Inr (st1\<lparr>ps_assignment := (ps_assignment st1)(n := None)\<rparr>)
       | Some p \<Rightarrow>
           (let st2 = st1\<lparr>ps_assignment := (ps_assignment st1)(n \<mapsto> p)\<rparr>
            in case map_of (ps_parts st2) p of
                 None \<Rightarrow>
                   if node_order = None then Inl AssertionError
                   else let st3 = st2\<lparr>ps_parts := AList.update p [(n, node_order)] (ps_parts st2), ps_users := (ps_users st2)(p := set (users n))\<rparr>
                        in Inr (st3\<lparr>ps_map := (ps_map st3)(p := ps_map st3 p \<union> downstream_partitions down st3 (set (users n)) {p})\<rparr>)
               | Some nodes \<Rightarrow> Inr (st2\<lparr>ps_parts := AList.update p (AList.update n node_order nodes) (ps_parts st2)\<rparr>)))"

subsection \<open>Proposing partitions\<close>

definition add_key :: "nat \<Rightarrow> nat list \<Rightarrow> nat list" where
  "add_key k ks = (if k \<in> set ks then ks else ks @ [k])"

definition start_partition :: "(nid \<Rightarrow> nid list) \<Rightarrow> (nid \<Rightarrow> nid set) \<Rightarrow> (nid \<Rightarrow> bool) \<Rightarrow> nat \<Rightarrow> nid \<Rightarrow> partition_state \<Rightarrow> (nat list \<times> partition_state) result" where
  "start_partition users down supported node_order n st =
     (if supported n \<and> ps_assignment st n = None
      then let p = ps_next st; st1 = st\<lparr>ps_next := Suc p, ps_order := AList.update p p (ps_order st)\<rparr>
           in rbind (merge_single_node users down n (Some node_order) (Some p) st1) (\<lambda>st2. Inr ([p], st2))
      else Inr ([], st))"

definition merge_candidates :: "(nid \<Rightarrow> nid list) \<Rightarrow> bool \<Rightarrow> nid \<Rightarrow> nat list \<Rightarrow> partition_state \<Rightarrow> nat list" where
  "merge_candidates users skip_horizontal_fusion n created st =
     (if skip_horizontal_fusion
      then if created = [] then []
           else fold (\<lambda>u ks. case ps_assignment st u of None \<Rightarrow> ks | Some p \<Rightarrow> add_key p ks) (users n) created
      else fold (\<lambda>po. add_key (fst po)) (sort_key snd (ps_order st)) created)"

fun merge_all :: "(nid \<Rightarrow> nid set) \<Rightarrow> nat \<Rightarrow> nat list \<Rightarrow> partition_state \<Rightarrow> partition_state result" where
  "merge_all down self_id [] st = Inr st"
| "merge_all down self_id (other_id # rest) st =
     rbind (maybe_merge_partition down self_id other_id st) (\<lambda>(self_id', st'). merge_all down self_id' rest st')"

definition partition_step ::
    "(nid \<Rightarrow> nid list) \<Rightarrow> (nid \<Rightarrow> nid set) \<Rightarrow> (nid \<Rightarrow> bool) \<Rightarrow> bool \<Rightarrow> nat \<times> nid \<Rightarrow> partition_state \<Rightarrow> partition_state result" where
  "partition_step users down supported skip_horizontal_fusion on st =
     rbind (start_partition users down supported (fst on) (snd on) st) (\<lambda>(created, st1).
       case merge_candidates users skip_horizontal_fusion (snd on) created st1 of
         [] \<Rightarrow> Inr st1
       | self_id # others \<Rightarrow> merge_all down self_id others st1)"

definition propose_merges :: "(nid \<Rightarrow> nid list) \<Rightarrow> nid list \<Rightarrow> (nid \<Rightarrow> bool) \<Rightarrow> bool \<Rightarrow> partition_state result" where
  "propose_merges users nodes supported skip_horizontal_fusion =
     foldM (\<lambda>st on. partition_step users (dependency_viewer users nodes) supported skip_horizontal_fusion on st) empty_partition_state
       (enumerate 0 (rev nodes))"

text \<open>Nodes of a partition by descending order.\<close>

definition order_key :: "nid \<times> nat option \<Rightarrow> int" where
  "order_key nk = - (case snd nk of None \<Rightarrow> 0 | Some k \<Rightarrow> int k)"

definition sort_partitions :: "partition_state \<Rightarrow> partition_state" where
  "sort_partitions st = st\<lparr>ps_parts := map (\<lambda>pn. (fst pn, sort_key order_key (snd pn))) (ps_parts st)\<rparr>"

text \<open>Reassigning the users of a node that are all \<open>getitem\<close> calls to the partition of the node, until nothing changes.\<close>

definition reassignments :: "(nid \<Rightarrow> nid list) \<Rightarrow> (nid \<Rightarrow> bool) \<Rightarrow> nid list \<Rightarrow> partition_state \<Rightarrow> (nid \<times> nat option) list" where
  "reassignments users is_getitem nodes st =
     fold (\<lambda>n acc. if list_all is_getitem (users n)
                    then fold (\<lambda>u acc. if ps_assignment st u \<noteq> ps_assignment st n then AList.update u (ps_assignment st n) acc else acc) (users n) acc
                    else acc) nodes []"

partial_function (option) reassign_getitems ::
    "(nid \<Rightarrow> nid list) \<Rightarrow> (nid \<Rightarrow> nid set) \<Rightarrow> (nid \<Rightarrow> bool) \<Rightarrow> nid list \<Rightarrow> partition_state \<Rightarrow> partition_state result option" where
  "reassign_getitems users down is_getitem nodes st =
     (let moves = reassignments users is_getitem nodes st
      in if moves = [] then Some (Inr st)
         else case foldM (\<lambda>s up. merge_single_node users down (fst up) None (snd up) s) st moves of
                Inl e \<Rightarrow> Some (Inl e)
              | Inr st' \<Rightarrow> reassign_getitems users down is_getitem nodes st')"

declare reassign_getitems.simps [code]

definition compute_count :: "heap \<Rightarrow> (target \<Rightarrow> string) \<Rightarrow> string list \<Rightarrow> string list \<Rightarrow> partition_nodes \<Rightarrow> nat" where
  "compute_count h qualified_name non_compute_ops allowed_single nodes =
     sum_list (map (\<lambda>nk.
       (let nd = hp_node h (fst nk)
        in if n_op nd = ''call_function''
           then (if qualified_name (n_target nd) \<notin> set non_compute_ops then 1 else 0) + (if qualified_name (n_target nd) \<in> set allowed_single then 1 else 0)
           else 0)) nodes)"

definition default_non_compute_ops :: "string list" where
  "default_non_compute_ops = [''view'', ''operator.getitem'', ''_operator.getitem'']"

definition is_getitem_node :: "heap \<Rightarrow> (target \<Rightarrow> string) \<Rightarrow> nid \<Rightarrow> bool" where
  "is_getitem_node h qualified_name u \<longleftrightarrow> n_op (hp_node h u) = ''call_function'' \<and> qualified_name (n_target (hp_node h u)) = ''_operator.getitem''"

definition propose_partitions ::
    "heap \<Rightarrow> gid \<Rightarrow> (target \<Rightarrow> string) \<Rightarrow> (nid \<Rightarrow> bool) \<Rightarrow> bool \<Rightarrow> string list \<Rightarrow> string list \<Rightarrow> bool \<Rightarrow> partition_nodes list result option" where
  "propose_partitions h g qualified_name supported allows_single non_compute_ops allowed_single skip_horizontal_fusion =
     (let users = (\<lambda>n. n_users (hp_node h n)); nodes = nodes_of h g
      in case propose_merges users nodes supported skip_horizontal_fusion of
           Inl e \<Rightarrow> Some (Inl e)
         | Inr st \<Rightarrow>
             map_option (\<lambda>r. rbind r (\<lambda>st'.
               let parts = (if allows_single then map snd (ps_parts st')
                            else filter (\<lambda>ns. 1 < compute_count h qualified_name (default_non_compute_ops @ non_compute_ops) allowed_single ns) (map snd (ps_parts st')))
               in Inr (filter (\<lambda>ns. ns \<noteq> []) parts)))
               (reassign_getitems users (dependency_viewer users nodes) (is_getitem_node h qualified_name) nodes (sort_partitions st)))"

end
