(* ===== verification/GraphFusing.thy ===== *)
theory GraphFusing
  imports GraphPartition
begin

text \<open>
  Graphs in which groups of nodes are fused: what the dependency viewer of the partitioner computes, when fusing makes no cycle, and what
  happens when a node joins a partition. These are facts about graphs and assignments; the states of the partitioner come in \<open>PartitionProposal\<close>.
\<close>

subsection \<open>Reachability\<close>

definition reaches :: "(nid \<Rightarrow> nid list) \<Rightarrow> nid \<Rightarrow> nid \<Rightarrow> bool" where
  "reaches users = (\<lambda>a b. b \<in> set (users a))\<^sup>+\<^sup>+"

text \<open>The users of a node come after it in the list.\<close>

fun dag_order :: "(nid \<Rightarrow> nid list) \<Rightarrow> nid list \<Rightarrow> bool" where
  "dag_order users [] = True"
| "dag_order users (n # ns) \<longleftrightarrow> n \<notin> set ns \<and> set (users n) \<subseteq> set ns \<and> dag_order users ns"

lemma dag_order_append: "dag_order users (xs @ ys) \<Longrightarrow> dag_order users ys"
  by (induction xs) auto

lemma dag_closed: "dag_order users ns \<Longrightarrow> a \<in> set ns \<Longrightarrow> b \<in> set (users a) \<Longrightarrow> b \<in> set ns"
  by (induction ns) auto

lemma reaches_edge: "b \<in> set (users a) \<Longrightarrow> reaches users a b"
  by (auto simp: reaches_def)

lemma reaches_step: "b \<in> set (users a) \<Longrightarrow> reaches users b c \<Longrightarrow> reaches users a c"
  unfolding reaches_def by (rule tranclp_into_tranclp2)

lemma reaches_trans: "reaches users a b \<Longrightarrow> reaches users b c \<Longrightarrow> reaches users a c"
  unfolding reaches_def by (rule tranclp_trans)

lemma reaches_iff: "reaches users a c \<longleftrightarrow> (\<exists>b \<in> set (users a). b = c \<or> reaches users b c)"
  unfolding reaches_def by (metis (no_types, lifting) tranclp.r_into_trancl tranclp_into_tranclp2 tranclpD rtranclpD)

lemma reaches_closed:
  assumes "dag_order users ns" and "reaches users a b" and "a \<in> set ns"
  shows "b \<in> set ns"
  using assms(2,3) unfolding reaches_def by (induction rule: tranclp_induct) (auto dest: dag_closed[OF assms(1)])

lemma reaches_later: "dag_order users (n # ns) \<Longrightarrow> reaches users n b \<Longrightarrow> b \<in> set ns"
  using reaches_closed[of users ns] reaches_iff[of users n b] by auto

lemma note_downstream_eq:
  assumes "n \<notin> set (users n)"
  shows "note_downstream users n down = down(n := down n \<union> (\<Union>u \<in> set (users n). insert u (down u)))"
proof -
  have "n \<notin> set us \<Longrightarrow> fold (\<lambda>u d. d(n := insert u (d n \<union> d u))) us down = down(n := down n \<union> (\<Union>u \<in> set us. insert u (down u)))" for us down
  proof (induction us arbitrary: down)
    case (Cons a us)
    let ?d = "down(n := insert a (down n \<union> down a))"
    have "(\<Union>u \<in> set us. insert u (?d u)) = (\<Union>u \<in> set us. insert u (down u))" using Cons.prems by (intro SUP_cong) auto
    then show ?case using Cons.IH[of ?d] Cons.prems by (simp add: fun_eq_iff) blast
  qed simp
  then show ?thesis using assms by (simp add: note_downstream_def)
qed

lemma dependency_viewer_reaches:
  assumes "dag_order users ns"
  shows "dependency_viewer users ns n = (if n \<in> set ns then {m. reaches users n m} else {})"
  using assms
proof (induction ns arbitrary: n)
  case (Cons k ns)
  have k: "k \<notin> set (users k)" "set (users k) \<subseteq> set ns" using Cons.prems by auto
  have s: "dependency_viewer users (k # ns) = note_downstream users k (dependency_viewer users ns)" by (simp add: dependency_viewer_def)
  have IH: "dependency_viewer users ns m = (if m \<in> set ns then {x. reaches users m x} else {})" for m using Cons by simp
  have "(\<Union>u \<in> set (users k). insert u {x. reaches users u x}) = {x. reaches users k x}" by (auto simp: reaches_iff[of users k])
  moreover have "(\<Union>u \<in> set (users k). insert u (dependency_viewer users ns u)) = (\<Union>u \<in> set (users k). insert u {x. reaches users u x})"
    using k(2) by (intro SUP_cong) (auto simp: IH)
  ultimately have "(\<Union>u \<in> set (users k). insert u (dependency_viewer users ns u)) = {x. reaches users k x}" by simp
  then show ?case using Cons.prems unfolding s note_downstream_eq[of k users, OF k(1)] by (auto simp: IH)
qed (simp add: dependency_viewer_def)

subsection \<open>Fusing partitions\<close>

definition part :: "partition_state \<Rightarrow> nat \<Rightarrow> nid set" where
  "part st p = {n. ps_assignment st n = Some p}"

text \<open>One step in the graph in which every partition is a single node.\<close>

definition same_part :: "(nid \<Rightarrow> nat option) \<Rightarrow> nid \<Rightarrow> nid \<Rightarrow> bool" where
  "same_part assignment a b \<longleftrightarrow> assignment a = assignment b \<and> assignment a \<noteq> None"

definition fused_step :: "(nid \<Rightarrow> nid list) \<Rightarrow> (nid \<Rightarrow> nat option) \<Rightarrow> nid \<Rightarrow> nid \<Rightarrow> bool" where
  "fused_step users assignment a b \<longleftrightarrow> b \<in> set (users a) \<or> same_part assignment a b"

text \<open>No edge lies on a cycle after fusing, except within one partition.\<close>

definition fusible :: "(nid \<Rightarrow> nid list) \<Rightarrow> nid list \<Rightarrow> (nid \<Rightarrow> nat option) \<Rightarrow> bool" where
  "fusible users ns assignment \<longleftrightarrow>
     (\<forall>a \<in> set ns. \<forall>b \<in> set (users a). (fused_step users assignment)\<^sup>*\<^sup>* b a \<longrightarrow> same_part assignment a b)"

lemma reaches_fused: "reaches users a b \<Longrightarrow> (fused_step users A)\<^sup>*\<^sup>* a b"
  unfolding reaches_def by (induction rule: tranclp_induct) (auto simp: fused_step_def intro: rtranclp.rtrancl_into_rtrancl)

lemma fused_closed:
  assumes "dag_order users ns" and "dom A \<subseteq> set ns" and "(fused_step users A)\<^sup>*\<^sup>* a b" and "a \<in> set ns"
  shows "b \<in> set ns"
  using assms(3,4)
proof (induction rule: rtranclp_induct)
  case (step y z)
  then have "y \<in> set ns" by blast
  moreover have "same_part A y z \<Longrightarrow> z \<in> dom A" by (cases "A z") (auto simp: same_part_def dom_def)
  ultimately show ?case using step.hyps(2) dag_closed[OF assms(1), of y z] assms(2) by (auto simp: fused_step_def)
qed

lemma fused_scc:
  assumes f: "fusible users ns A" and d: "dag_order users ns" "dom A \<subseteq> set ns" and ab: "(fused_step users A)\<^sup>*\<^sup>* a b" and a: "a \<in> set ns"
    and ba: "(fused_step users A)\<^sup>*\<^sup>* b a"
  shows "a = b \<or> same_part A a b"
  using ab ba
proof (induction rule: rtranclp_induct)
  case (step y z)
  have y: "y \<in> set ns" by (rule fused_closed[OF d step.hyps(1) a])
  have "(fused_step users A)\<^sup>*\<^sup>* y a" using step.hyps(2) step.prems by (rule converse_rtranclp_into_rtranclp)
  then have ay: "a = y \<or> same_part A a y" by (rule step.IH)
  have "same_part A y z"
  proof (cases "z \<in> set (users y)")
    case True
    have "(fused_step users A)\<^sup>*\<^sup>* z y" using step.prems step.hyps(1) by (rule rtranclp_trans)
    then show ?thesis using f y True by (auto simp: fusible_def)
  qed (use step.hyps(2) in \<open>simp add: fused_step_def\<close>)
  then show ?case using ay by (auto simp: same_part_def)
qed simp

subsection \<open>Partitions that stand in order\<close>

abbreviation fused_reach :: "(nid \<Rightarrow> nid list) \<Rightarrow> (nid \<Rightarrow> nat option) \<Rightarrow> nid \<Rightarrow> nid \<Rightarrow> bool" where
  "fused_reach users A \<equiv> (fused_step users A)\<^sup>*\<^sup>*"

definition into :: "(nid \<Rightarrow> nid list) \<Rightarrow> (nid \<Rightarrow> nat option) \<Rightarrow> nat \<Rightarrow> nid \<Rightarrow> bool" where
  "into users A q x \<longleftrightarrow> (\<exists>b. A b = Some q \<and> reaches users x b)"

text \<open>Every node of \<open>p\<close> reaches \<open>q\<close>, some path from \<open>p\<close> to \<open>q\<close> passes through a node outside of both, and \<open>q\<close> is tried first.\<close>

definition leads :: "(nid \<Rightarrow> nid list) \<Rightarrow> (nid \<Rightarrow> nat option) \<Rightarrow> (nat \<Rightarrow> nat) \<Rightarrow> nat \<Rightarrow> nat \<Rightarrow> bool" where
  "leads users A rank p q \<longleftrightarrow>
     (\<forall>a. A a = Some p \<longrightarrow> into users A q a) \<and>
     (\<exists>a x. A a = Some p \<and> x \<in> set (users a) \<and> A x \<noteq> Some p \<and> A x \<noteq> Some q \<and> into users A q x) \<and> rank q < rank p"

definition in_line :: "(nid \<Rightarrow> nid list) \<Rightarrow> (nid \<Rightarrow> nat option) \<Rightarrow> (nat \<Rightarrow> nat) \<Rightarrow> bool" where
  "in_line users A rank \<longleftrightarrow> (\<forall>p \<in> ran A. \<forall>q \<in> ran A. p \<noteq> q \<longrightarrow> leads users A rank p q \<or> leads users A rank q p)"

lemma into_step: "y \<in> set (users x) \<Longrightarrow> A y = Some q \<or> into users A q y \<Longrightarrow> into users A q x"
  unfolding into_def by (blast intro: reaches_edge reaches_step)

lemma into_reach: "reaches users x y \<Longrightarrow> A y = Some q \<or> into users A q y \<Longrightarrow> into users A q x"
  unfolding into_def by (blast intro: reaches_trans)

text \<open>Reaching a partition after fusing is reaching it in the graph.\<close>

lemma fused_reach_into:
  assumes f: "fusible users ns A" and d: "dag_order users ns" "dom A \<subseteq> set ns" and l: "in_line users A rank"
    and r: "fused_reach users A x y" and q: "A y = Some q" and x: "x \<in> set ns"
  shows "A x = Some q \<or> into users A q x"
  using r q x
proof (induction rule: converse_rtranclp_induct)
  case (step x x')
  have x': "x' \<in> set ns" by (rule fused_closed[OF d r_into_rtranclp[of "fused_step users A", OF step.hyps(1)] step.prems(2)])
  have IH: "A x' = Some q \<or> into users A q x'" by (rule step.IH[OF step.prems(1) x'])
  show ?case
  proof (cases "x' \<in> set (users x) \<or> A x' = Some q")
    case True
    then show ?thesis using IH step.hyps(1) into_step[of x' users x A q] by (auto simp: fused_step_def same_part_def)
  next
    case False
    then have s: "same_part A x x'" using step.hyps(1) by (simp add: fused_step_def)
    then obtain t where t: "A x = Some t" "A x' = Some t" "t \<noteq> q" using False by (cases "A x'") (auto simp: same_part_def)
    have rn: "t \<in> ran A" "q \<in> ran A" using t(1) step.prems(1) by (auto simp: ran_def)
    obtain b where b: "A b = Some q" "reaches users x' b" using IH False by (auto simp: into_def)
    have "\<not> leads users A rank q t"
    proof
      assume "leads users A rank q t"
      then obtain a where a: "A a = Some t" "reaches users b a" using b(1) by (auto simp: leads_def into_def)
      have "same_part A a x'" using a(1) t(2) by (simp add: same_part_def)
      then have "fused_reach users A a x'" by (simp add: fused_step_def r_into_rtranclp)
      with reaches_fused[OF a(2)] have "fused_reach users A b x'" by (rule rtranclp_trans)
      from fused_scc[OF f d reaches_fused[OF b(2)] x' this] show False using t b(1) by (auto simp: same_part_def)
    qed
    then have "leads users A rank t q" using l rn t(3) unfolding in_line_def by blast
    then show ?thesis using t(1) by (simp add: leads_def)
  qed
qed simp

subsection \<open>Adding a node\<close>

text \<open>The next node \<open>c\<close> joins the partition \<open>p\<close>, which is new when it has no nodes, and both are called \<open>m\<close>.\<close>

definition joined :: "(nid \<Rightarrow> nat option) \<Rightarrow> nid \<Rightarrow> nat \<Rightarrow> nat \<Rightarrow> nid \<Rightarrow> nat option" where
  "joined A c p m n = (if n = c \<or> A n = Some p then Some m else A n)"

lemma joined_same_part:
  assumes "m = p \<or> m \<notin> ran A"
  shows "same_part (joined A c p m) a b \<longleftrightarrow>
    (a = c \<or> A a = Some p) \<and> (b = c \<or> A b = Some p) \<or> (a \<noteq> c \<and> b \<noteq> c \<and> A a \<noteq> Some p \<and> A b \<noteq> Some p \<and> same_part A a b)"
proof -
  have "A x = Some m \<Longrightarrow> A x = Some p" for x using assms by (auto simp: ran_def)
  then show ?thesis by (auto simp: same_part_def joined_def)
qed

lemma fusible_join:
  assumes f: "fusible users ns A" and d: "dag_order users (c # ns)" and A: "dom A \<subseteq> set ns" and m: "m = p \<or> m \<notin> ran A"
    and N: "\<And>a u b. a = c \<or> A a = Some p \<Longrightarrow> u \<in> set (users a) \<Longrightarrow> A u \<noteq> Some p \<Longrightarrow> A b = Some p \<Longrightarrow> \<not> fused_reach users A u b"
  shows "fusible users (c # ns) (joined A c p m)"
proof -
  let ?A = "joined A c p m" and ?M = "insert c {n. A n = Some p}"
  define E where "E = {y. \<exists>a u. a \<in> ?M \<and> u \<in> set (users a) \<and> u \<notin> ?M \<and> fused_reach users A u y}"
  have dn: "dag_order users ns" and c: "c \<notin> set ns" and cu: "set (users c) \<subseteq> set ns" using d by auto
  have us: "u \<in> set ns" if "a \<in> insert c (set ns)" "u \<in> set (users a)" for a u using that cu dag_closed[OF dn] by auto
  have Q: "{n. A n = Some p} \<subseteq> set ns" using A by auto
  have En: "E \<subseteq> set ns" using us fused_closed[OF dn A] Q unfolding E_def by blast
  have EM: "y \<notin> ?M" if "y \<in> E" for y using that N En c unfolding E_def by blast
  note sp = joined_same_part[OF m]
  have Estep: "z \<in> E \<and> fused_step users A y z" if "y \<in> E" "fused_step users ?A y z" for y z
  proof -
    have "fused_step users A y z" using that(2) EM[OF that(1)] by (auto simp: fused_step_def sp)
    then show ?thesis using that(1) unfolding E_def by (blast intro: rtranclp.rtrancl_into_rtrancl)
  qed
  have Eclosed: "z \<in> E \<and> fused_reach users A y z" if "fused_reach users ?A y z" "y \<in> E" for y z
    using that by (induction rule: rtranclp_induct) (auto dest: Estep intro: rtranclp.rtrancl_into_rtrancl)
  have MEstep: "z \<in> ?M \<union> E" if "y \<in> ?M \<union> E" "fused_step users ?A y z" for y z
    using that Estep by (auto simp: fused_step_def sp E_def)
  have MEclosed: "z \<in> ?M \<union> E" if "fused_reach users ?A y z" "y \<in> ?M \<union> E" for y z
    using that by (induction rule: rtranclp_induct) (use MEstep in blast)+
  have out: "z \<in> ?M \<union> E \<or> fused_reach users A y z" if "fused_reach users ?A y z" "y \<notin> ?M" for y z
    using that
  proof (induction rule: rtranclp_induct)
    case (step z w)
    then show ?case using MEstep[of z w] by (auto simp: fused_step_def sp intro: rtranclp.rtrancl_into_rtrancl)
  qed simp
  show ?thesis unfolding fusible_def
  proof (intro ballI impI)
    fix a b assume a: "a \<in> set (c # ns)" and b: "b \<in> set (users a)" and ba: "fused_reach users ?A b a"
    have bn: "b \<in> set ns" using us a b by auto
    have ab: "fused_step users ?A a b" using b by (simp add: fused_step_def)
    show "same_part ?A a b"
    proof (cases "a \<in> ?M")
      case True
      then show ?thesis using b Eclosed[OF ba] EM[of a] by (cases "b \<in> ?M") (auto simp: sp E_def)
    next
      case False
      have bM: "b \<notin> ?M" using MEclosed[OF ba] Estep[OF _ ab] EM[of b] False by blast
      have "fused_reach users A b a" using out[OF ba bM] False Eclosed[OF ba] Estep[OF _ ab] by blast
      then have "same_part A a b" using f a b False by (auto simp: fusible_def)
      then show ?thesis using False bM by (simp add: sp)
    qed
  qed
qed

definition blocked :: "(nid \<Rightarrow> nid list) \<Rightarrow> (nid \<Rightarrow> nat option) \<Rightarrow> nid \<Rightarrow> nat \<Rightarrow> bool" where
  "blocked users A c q \<longleftrightarrow> (\<exists>x \<in> set (users c). A x \<noteq> Some q \<and> into users A q x)"

lemma joined_other:
  assumes "A c = None" and "q \<noteq> m" and "q \<noteq> p"
  shows "joined A c p m n = Some q \<longleftrightarrow> A n = Some q" and "into users (joined A c p m) q x \<longleftrightarrow> into users A q x"
proof -
  show e: "joined A c p m n = Some q \<longleftrightarrow> A n = Some q" for n using assms by (auto simp: joined_def)
  show "into users (joined A c p m) q x \<longleftrightarrow> into users A q x" by (simp add: into_def e)
qed

lemma joined_self: "m = p \<or> m \<notin> ran A \<Longrightarrow> joined A c p m n = Some m \<longleftrightarrow> n = c \<or> A n = Some p"
  by (auto simp: joined_def ran_def)

lemma ran_joined: "A c = None \<Longrightarrow> ran (joined A c p m) = insert m (ran A - {p})"
  by (fastforce simp: joined_def ran_def split: if_split_asm)

lemma into_ns: "dag_order users ns \<Longrightarrow> x \<in> set ns \<Longrightarrow> reaches users x b \<Longrightarrow> b \<in> set ns"
  by (rule reaches_closed)

lemma in_line_join:
  assumes l: "in_line users A rank" and c: "A c = None" and m: "m = p \<or> m \<notin> ran A"
    and R: "\<And>q. q \<in> ran A \<Longrightarrow> q \<noteq> m \<Longrightarrow> q \<noteq> p \<Longrightarrow>
      rank' q = rank q \<and> (leads users (joined A c p m) rank' m q \<or> leads users (joined A c p m) rank' q m)"
  shows "in_line users (joined A c p m) rank'"
proof -
  let ?A = "joined A c p m"
  have old: "leads users ?A rank' q r" if "leads users A rank q r" "q \<in> ran A" "r \<in> ran A" "q \<noteq> m" "q \<noteq> p" "r \<noteq> m" "r \<noteq> p" for q r
    using that R[of q] R[of r] joined_other[of A c q m p, OF c] joined_other[of A c r m p, OF c] by (simp add: leads_def)
  show ?thesis
    unfolding in_line_def ran_joined[of A c, OF c]
    using old R l unfolding in_line_def by (metis DiffE insertE singletonI)
qed

text \<open>A new partition of one node, blocked by all others.\<close>

lemma in_line_new:
  assumes l: "in_line users A rank" and d: "dag_order users (c # ns)" "dom A \<subseteq> set ns" and p: "p \<notin> ran A"
    and r: "\<And>q. q \<in> ran A \<Longrightarrow> rank' q = rank q \<and> rank q < rank' p" and b: "\<And>q. q \<in> ran A \<Longrightarrow> blocked users A c q"
  shows "in_line users (joined A c p p) rank'"
proof -
  have c: "A c = None" using d by (auto simp: dom_def)
  have cu: "c \<notin> set (users c)" using d(1) by auto
  have n: "A n \<noteq> Some p" for n using p by (auto simp: ran_def)
  have "leads users (joined A c p p) rank' p q" if q: "q \<in> ran A" "q \<noteq> p" for q
  proof -
    note o = joined_other[of A c q p p, OF c q(2) q(2)]
    note s = joined_self[of p p A c]
    obtain x where x: "x \<in> set (users c)" "A x \<noteq> Some q" "into users A q x" using b[OF q(1)] by (auto simp: blocked_def)
    then show ?thesis using r[OF q(1)] cu n into_step[of x users c A q] by (auto simp: leads_def o s)
  qed
  then show ?thesis using in_line_join[OF l c, of p p rank'] r by blast
qed

text \<open>Joining the first partition that does not block.\<close>

lemma in_line_merge:
  assumes l: "in_line users A rank" and d: "dag_order users (c # ns)" "dom A \<subseteq> set ns" and p: "p \<in> ran A" and m: "m = p \<or> m \<notin> ran A"
    and r: "\<And>q. q \<in> ran A \<Longrightarrow> q \<noteq> p \<Longrightarrow> rank' q = rank q" "rank' m = rank p"
    and b: "\<And>q. q \<in> ran A \<Longrightarrow> rank q < rank p \<Longrightarrow> blocked users A c q"
  shows "in_line users (joined A c p m) rank'"
proof -
  let ?A = "joined A c p m"
  have c: "A c = None" using d by (auto simp: dom_def)
  have cn: "c \<notin> set ns" and dn: "dag_order users ns" using d(1) by auto
  have cu: "c \<notin> set (users a)" if "a = c \<or> A a = Some p \<or> A a = Some q" for a q
  proof -
    have "a = c \<or> a \<in> set ns" using that d(2) by auto
    then show ?thesis using cn dag_closed[OF dn, of a c] d(1) by auto
  qed
  note s = joined_self[OF m]
  have "leads users ?A rank' m q \<or> leads users ?A rank' q m" if q: "q \<in> ran A" "q \<noteq> m" "q \<noteq> p" for q
  proof -
    note o = joined_other[of A c q m p, OF c q(2,3)]
    consider "leads users A rank p q" | "leads users A rank q p" using l p q by (auto simp: in_line_def)
    then show ?thesis
    proof cases
      case 1
      then have bq: "blocked users A c q" using b[OF q(1)] by (simp add: leads_def)
      obtain a x where a: "A a = Some p" "x \<in> set (users a)" "A x \<noteq> Some p" "A x \<noteq> Some q" "into users A q x" using 1 by (auto simp: leads_def)
      have "x \<noteq> c" using cu a by blast
      moreover have "into users A q c" using bq by (auto simp: blocked_def intro: into_step)
      ultimately have c1: "into users A q n" if "n = c \<or> A n = Some p" for n using that 1 by (auto simp: leads_def)
      have "rank' q < rank' m" using 1 r(1)[OF q(1,3)] r(2) by (simp add: leads_def)
      then have "leads users ?A rank' m q" unfolding leads_def o s using c1 a \<open>x \<noteq> c\<close> by (intro conjI allI impI exI[of _ a] exI[of _ x]) auto
      then show ?thesis ..
    next
      case 2
      obtain a x where a: "A a = Some q" "x \<in> set (users a)" "A x \<noteq> Some p" "A x \<noteq> Some q" "into users A p x" using 2 by (auto simp: leads_def)
      have "x \<noteq> c" using cu a by blast
      moreover have "into users ?A m y" if "into users A p y" for y using that s by (auto simp: into_def)
      moreover have "rank' m < rank' q" using 2 r(1)[OF q(1,3)] r(2) by (simp add: leads_def)
      ultimately have "leads users ?A rank' q m" unfolding leads_def o s using 2 a by (intro conjI allI impI exI[of _ a] exI[of _ x]) (auto simp: leads_def)
      then show ?thesis ..
    qed
  qed
  then show ?thesis using in_line_join[OF l c m] r(1) by blast
qed

end
