(* ===== verification/PartitionProposal.thy ===== *)
theory PartitionProposal
  imports GraphFusing
begin

text \<open>
  What the partitioner of \<open>GraphPartition\<close> proposes. An invariant of its state is kept by every merge and every step; under it, two partitions that stay apart lead to each other
  through another node, so that a new node joins at most one partition and fusing makes no cycle. Then the mode without horizontal fusion and the reassignment of getitem calls.
\<close>

subsection \<open>States that agree with their assignment\<close>

definition state_ok :: "(nid \<Rightarrow> nid list) \<Rightarrow> (nid \<Rightarrow> bool) \<Rightarrow> nid list \<Rightarrow> partition_state \<Rightarrow> bool" where
  "state_ok users supported ns st \<longleftrightarrow>
     dom (ps_assignment st) = {n \<in> set ns. supported n} \<and>
     (\<forall>p. map_of (ps_parts st) p = None \<longleftrightarrow> p \<notin> ran (ps_assignment st)) \<and>
     (\<forall>p nodes. map_of (ps_parts st) p = Some nodes \<longrightarrow> fst ` set nodes = part st p) \<and>
     dom (map_of (ps_order st)) = ran (ps_assignment st) \<and> distinct (map fst (ps_order st)) \<and> distinct (map fst (ps_parts st)) \<and>
     (\<forall>p \<in> ran (ps_assignment st). p < ps_next st \<and> order_of st p < ps_next st \<and> ps_users st p = (\<Union>a \<in> part st p. set (users a)) - part st p) \<and>
     (\<forall>t. ps_map st t \<subseteq> {..<ps_next st} \<and> (ps_next st \<le> t \<longrightarrow> ps_map st t = {})) \<and>
     (\<forall>a b t. ps_assignment st a = Some t \<longrightarrow> (\<exists>q \<in> ps_map st t. ps_assignment st b = Some q) \<longrightarrow> fused_reach users (ps_assignment st) a b)"

lemma state_okD:
  assumes "state_ok users supported ns st"
  shows "dom (ps_assignment st) = {n \<in> set ns. supported n}"
    and "map_of (ps_parts st) p = None \<longleftrightarrow> p \<notin> ran (ps_assignment st)"
    and "map_of (ps_parts st) p = Some nodes \<Longrightarrow> fst ` set nodes = part st p"
    and "dom (map_of (ps_order st)) = ran (ps_assignment st)" and "distinct (map fst (ps_order st))"
    and "p \<in> ran (ps_assignment st) \<Longrightarrow> p < ps_next st \<and> order_of st p < ps_next st"
    and "p \<in> ran (ps_assignment st) \<Longrightarrow> ps_users st p = (\<Union>a \<in> part st p. set (users a)) - part st p"
    and "ps_map st t \<subseteq> {..<ps_next st}" and "ps_next st \<le> t \<Longrightarrow> ps_map st t = {}"
    and "ps_assignment st a = Some t \<Longrightarrow> q \<in> ps_map st t \<Longrightarrow> ps_assignment st b = Some q \<Longrightarrow> fused_reach users (ps_assignment st) a b"
    and "distinct (map fst (ps_parts st))"
  using assms unfolding state_ok_def by blast+

lemma state_okI:
  assumes "dom (ps_assignment st) = {n \<in> set ns. supported n}"
    and "\<And>p. map_of (ps_parts st) p = None \<longleftrightarrow> p \<notin> ran (ps_assignment st)"
    and "\<And>p nodes. map_of (ps_parts st) p = Some nodes \<Longrightarrow> fst ` set nodes = part st p"
    and "dom (map_of (ps_order st)) = ran (ps_assignment st)" and "distinct (map fst (ps_order st))"
    and "\<And>p. p \<in> ran (ps_assignment st) \<Longrightarrow> p < ps_next st \<and> order_of st p < ps_next st"
    and "\<And>p. p \<in> ran (ps_assignment st) \<Longrightarrow> ps_users st p = (\<Union>a \<in> part st p. set (users a)) - part st p"
    and "\<And>t. ps_map st t \<subseteq> {..<ps_next st}" and "\<And>t. ps_next st \<le> t \<Longrightarrow> ps_map st t = {}"
    and "\<And>a b t q. ps_assignment st a = Some t \<Longrightarrow> q \<in> ps_map st t \<Longrightarrow> ps_assignment st b = Some q \<Longrightarrow> fused_reach users (ps_assignment st) a b"
    and "distinct (map fst (ps_parts st))"
  shows "state_ok users supported ns st"
  unfolding state_ok_def
  by (intro conjI allI impI ballI; (elim bexE)?; (fact assms | rule assms(2-9) assms(6)[THEN conjunct1] assms(6)[THEN conjunct2] assms(10); assumption))

lemma fused_reach_mono:
  assumes "\<And>a b. same_part A a b \<Longrightarrow> same_part B a b" and "fused_reach users A x y"
  shows "fused_reach users B x y"
  using assms(2) by (induction rule: rtranclp_induct) (auto simp: fused_step_def intro: assms(1) rtranclp.rtrancl_into_rtrancl)

lemma fused_reach_part: "A a = Some t \<Longrightarrow> A b = Some t \<Longrightarrow> fused_reach users A a b"
  by (rule r_into_rtranclp) (simp add: fused_step_def same_part_def)

lemma assign_all: "fold (\<lambda>nk a. a(fst nk \<mapsto> m)) nodes A = (\<lambda>n. if n \<in> fst ` set nodes then Some m else A n)"
  by (induction nodes arbitrary: A) auto

lemma update_all_keys: "fst ` set (fold (\<lambda>nk. AList.update (fst nk) (snd nk)) xs ys) = fst ` set ys \<union> fst ` set xs"
proof (induction xs arbitrary: ys)
  case (Cons x xs)
  show ?case by (simp add: Cons.IH dom_update)
qed simp

lemma merge_into_ok:
  assumes ok: "state_ok users supported ns st" and i: "map_of (ps_parts st) i = Some ni" and j: "map_of (ps_parts st) j = Some nj" and ij: "i \<noteq> j"
    and us: "us = (ps_users st i \<union> ps_users st j) - (fst ` set ni \<union> fst ` set nj)"
    and down: "\<forall>u \<in> us. down u = {x. reaches users u x}"
  shows "state_ok users supported ns (merge_into down i j ni nj us st)"
    and "ps_assignment (merge_into down i j ni nj us st) = (\<lambda>n. if ps_assignment st n = Some j then Some i else ps_assignment st n)"
    and "order_of (merge_into down i j ni nj us st) i = min (order_of st i) (order_of st j)"
    and "q \<noteq> i \<Longrightarrow> q \<noteq> j \<Longrightarrow> order_of (merge_into down i j ni nj us st) q = order_of st q"
    and "ps_next (merge_into down i j ni nj us st) = ps_next st"
proof -
  note D = state_okD[OF ok]
  let ?st = "merge_into down i j ni nj us st" and ?A = "ps_assignment st"
  have ir: "i \<in> ran ?A" and jr: "j \<in> ran ?A" using D(2)[of i] D(2)[of j] i j by auto
  have parts: "fst ` set ni = part st i" "fst ` set nj = part st j" using D(3)[OF i] D(3)[OF j] by auto
  show A: "ps_assignment ?st = (\<lambda>n. if ?A n = Some j then Some i else ?A n)"
    using parts by (simp add: merge_into_def Let_def assign_all part_def)
  have P: "part ?st i = part st i \<union> part st j" "part ?st j = {}" "q \<noteq> i \<Longrightarrow> q \<noteq> j \<Longrightarrow> part ?st q = part st q" for q
    using ij by (auto simp: part_def A)
  have R: "ran (ps_assignment ?st) = ran ?A - {j}" 
  proof (intro set_eqI iffI)
    fix x assume "x \<in> ran ?A - {j}"
    then obtain a where "?A a = Some x" "x \<noteq> j" by (auto simp: ran_def)
    then show "x \<in> ran (ps_assignment ?st)" by (intro ranI[of _ a]) (simp add: A)
  qed (use ir ij in \<open>auto simp: A ran_def split: if_split_asm\<close>)
  have ord: "map_of (ps_order ?st) = (map_of (ps_order st))(i \<mapsto> min (order_of st i) (order_of st j), j := None)"
    by (simp add: merge_into_def Let_def delete_conv' update_conv')
  show oi: "order_of ?st i = min (order_of st i) (order_of st j)" using ij by (simp add: order_of_def[of ?st] ord)
  show oq: "q \<noteq> i \<Longrightarrow> q \<noteq> j \<Longrightarrow> order_of ?st q = order_of st q" for q by (simp add: order_of_def[of ?st] ord order_of_def)
  show nx: "ps_next ?st = ps_next st" by (simp add: merge_into_def Let_def)
  have pm: "map_of (ps_parts ?st) = (map_of (ps_parts st))(i \<mapsto> fold (\<lambda>nk. AList.update (fst nk) (snd nk)) nj ni, j := None)"
    by (simp add: merge_into_def Let_def delete_conv' update_conv')
  have usr: "ps_users ?st i = us" "q \<noteq> i \<Longrightarrow> q \<noteq> j \<Longrightarrow> ps_users ?st q = ps_users st q" for q
    using ij by (auto simp: merge_into_def Let_def)
  have us_eq: "us = (\<Union>a \<in> part st i \<union> part st j. set (users a)) - (part st i \<union> part st j)"
    unfolding us parts D(7)[OF ir] D(7)[OF jr] by blast
  have sp: "same_part ?A a b \<Longrightarrow> same_part (ps_assignment ?st) a b" for a b by (cases "?A b") (auto simp: same_part_def A)
  have mono: "fused_reach users (ps_assignment ?st) x y" if "fused_reach users ?A x y" for x y using sp that by (rule fused_reach_mono)
  define f where "f = (\<lambda>x. case ps_assignment ?st x of None \<Rightarrow> {} | Some t \<Rightarrow> insert t (((ps_map st)(i := ps_map st i \<union> ps_map st j, j := {})) t))"
  have mi: "ps_map ?st i = (ps_map st i \<union> ps_map st j \<union> (\<Union>u \<in> us. \<Union>x \<in> insert u (down u). f x)) - {i, j}"
  proof -
    have "fold (\<lambda>nk a. a(fst nk \<mapsto> i)) nj ?A = ps_assignment ?st" using parts by (simp add: A assign_all part_def)
    then have "ps_map ?st i = (ps_map st i \<union> ps_map st j \<union> ((\<Union>u \<in> us. \<Union>x \<in> insert u (down u). f x) - {i, j})) - {i, j}"
      using ij by (simp add: merge_into_def Let_def downstream_partitions_def f_def cong: option.case_cong)
    then show ?thesis by blast
  qed
  have mq: "ps_map ?st q = ((ps_map st)(j := {})) q" if "q \<noteq> i" for q
    using that by (simp add: merge_into_def Let_def)
  have R0: "fused_reach users (ps_assignment ?st) x b"
    if x: "ps_assignment ?st x = Some t" and q: "q \<in> ((ps_map st)(i := ps_map st i \<union> ps_map st j, j := {})) t" and b: "ps_assignment ?st b = Some q" for x t q b
  proof -
    obtain t0 where t0: "q \<in> ps_map st t0" "t0 \<in> ran ?A" "\<And>x0. ?A x0 = Some t0 \<Longrightarrow> ps_assignment ?st x0 = Some t"
    proof (cases "t = i")
      case True
      then show ?thesis using q that[of i] that[of j] ir jr ij by (auto simp: A)
    next
      case False
      have "t \<in> ran ?A - {j}" using x R by (auto simp: ran_def)
      then show ?thesis using q that[of t] False by (auto simp: A)
    qed
    obtain x0 where x0: "?A x0 = Some t0" using t0(2) by (auto simp: ran_def)
    have "q \<in> ran ?A - {j}" using b R by (auto simp: ran_def)
    then obtain b0 where b0: "?A b0 = Some q" "ps_assignment ?st b0 = Some q" by (auto simp: ran_def A)
    have "fused_reach users (ps_assignment ?st) x0 b0" by (rule mono[OF D(10)[OF x0 t0(1) b0(1)]])
    then show ?thesis
      using fused_reach_part[OF x t0(3)[OF x0], of users] fused_reach_part[OF b0(2) b, of users] by (meson rtranclp_trans)
  qed
  have reach: "fused_reach users (ps_assignment ?st) a b"
    if a: "ps_assignment ?st a = Some t" and q: "q \<in> ps_map ?st t" and b: "ps_assignment ?st b = Some q" for a b t q
  proof (cases "t = i")
    case True
    show ?thesis
    proof (cases "q \<in> ps_map st i \<union> ps_map st j")
      case True
      then show ?thesis using R0[OF a _ b] \<open>t = i\<close> ij by simp
    next
      case False
      have "q \<in> ps_map ?st i" using q \<open>t = i\<close> by simp
      then obtain u x where u: "u \<in> us" "x \<in> insert u (down u)" "q \<in> f x" using False unfolding mi by blast
      obtain a0 where a0: "a0 \<in> part st i \<union> part st j" "u \<in> set (users a0)" using u(1) unfolding us_eq by blast
      obtain s where s: "ps_assignment ?st x = Some s" "q = s \<or> q \<in> ((ps_map st)(i := ps_map st i \<union> ps_map st j, j := {})) s"
        using u(3) by (auto simp: f_def split: option.splits)
      have "ps_assignment ?st a0 = Some i" using a0(1) by (auto simp: A part_def)
      then have 1: "fused_reach users (ps_assignment ?st) a a0" using a \<open>t = i\<close> by (intro fused_reach_part) auto
      have 2: "fused_reach users (ps_assignment ?st) a0 u" by (rule r_into_rtranclp) (simp add: fused_step_def a0(2))
      have 3: "fused_reach users (ps_assignment ?st) u x" using u(2) down[rule_format, OF u(1)] reaches_fused by auto
      have 4: "fused_reach users (ps_assignment ?st) x b" using s(2)
      proof
        assume "q = s" then show ?thesis using s(1) b by (intro fused_reach_part) auto
      qed (rule R0[OF s(1) _ b])
      show ?thesis by (rule rtranclp_trans[OF 1 rtranclp_trans[OF 2 rtranclp_trans[OF 3 4]]])
    qed
  next
    case False
    have "t \<in> ran ?A - {j}" using a R by (auto simp: ran_def)
    then show ?thesis using R0[OF a _ b] q False unfolding mq[OF False] by simp
  qed
  have dj: "distinct (map fst (ps_order ?st))" using D(5) by (simp add: merge_into_def Let_def distinct_delete distinct_update)
  have dp: "distinct (map fst (ps_parts ?st))" using D(11) by (simp add: merge_into_def Let_def distinct_delete distinct_update)
  have dm: "dom (ps_assignment ?st) = {n \<in> set ns. supported n}" unfolding D(1)[symmetric] A by (auto simp: dom_def)
  have lt: "p \<in> ran ?A \<Longrightarrow> p < ps_next st \<and> order_of st p < ps_next st" for p by (rule D(6))
  have f_lt: "f x \<subseteq> {..<ps_next st}" for x
  proof -
    have "t < ps_next st" if "ps_assignment ?st x = Some t" for t using that lt[of t] R by (auto simp: ran_def)
    then show ?thesis using D(8)[of i] D(8)[of j] D(8) by (auto simp: f_def split: option.splits if_split_asm)
  qed
  have map_lt: "ps_map ?st t \<subseteq> {..<ps_next st}" for t
  proof (cases "t = i")
    case True
    show ?thesis unfolding True mi using f_lt D(8)[of i] D(8)[of j] by blast
  qed (use D(8)[of t] mq[of t] in auto)
  have fresh_map: "ps_next st \<le> t \<Longrightarrow> ps_map ?st t = {}" for t using lt[OF ir] D(9)[of t] mq[of t] by (cases "t = i") auto
  have pn: "map_of (ps_parts ?st) p = None \<longleftrightarrow> p \<notin> ran (ps_assignment ?st)" for p using D(2)[of p] ir ij by (simp add: pm R)
  have ps: "fst ` set nodes = part ?st p" if "map_of (ps_parts ?st) p = Some nodes" for p nodes
  proof (cases "p = i")
    case True
    then have "nodes = fold (\<lambda>nk. AList.update (fst nk) (snd nk)) nj ni" using that ij by (simp add: pm)
    then show ?thesis using True by (simp only: P(1) update_all_keys parts)
  next
    case False
    then have "p \<noteq> j" "map_of (ps_parts st) p = Some nodes" using that by (auto simp: pm split: if_split_asm)
    then show ?thesis using D(3)[of p nodes] P(3)[of p] False by simp
  qed
  have od: "dom (map_of (ps_order ?st)) = ran (ps_assignment ?st)" using D(4) ir ij by (auto simp: ord R)
  have lt': "p < ps_next st \<and> order_of ?st p < ps_next st" if "p \<in> ran (ps_assignment ?st)" for p
    using that lt[of p] lt[OF ir] oi oq[of p] by (cases "p = i") (auto simp: R)
  have us': "ps_users ?st p = (\<Union>a \<in> part ?st p. set (users a)) - part ?st p" if "p \<in> ran (ps_assignment ?st)" for p
  proof (cases "p = i")
    case True
    show ?thesis unfolding True usr(1) P(1) by (rule us_eq)
  next
    case False
    then have "p \<noteq> j" "p \<in> ran ?A" using that by (auto simp: R)
    then show ?thesis using D(7)[of p] usr(2)[of p] P(3)[of p] False by simp
  qed
  show "state_ok users supported ns ?st"
    by (rule state_okI; (unfold nx)?; fact dm pn ps od dj lt' us' map_lt fresh_map reach dp)
qed

subsection \<open>Steps of the proposal\<close>

definition partition_inv :: "(nid \<Rightarrow> nid list) \<Rightarrow> (nid \<Rightarrow> bool) \<Rightarrow> nid list \<Rightarrow> partition_state \<Rightarrow> bool" where
  "partition_inv users supported ns st \<longleftrightarrow>
     state_ok users supported ns st \<and> fusible users ns (ps_assignment st) \<and> in_line users (ps_assignment st) (order_of st)"

definition opened :: "(nid \<Rightarrow> nid list) \<Rightarrow> (nid \<Rightarrow> nid set) \<Rightarrow> nat \<Rightarrow> nid \<Rightarrow> partition_state \<Rightarrow> partition_state" where
  "opened users down k c st =
     (let p = ps_next st;
          st1 = st\<lparr>ps_assignment := (ps_assignment st)(c \<mapsto> p), ps_parts := AList.update p [(c, Some k)] (ps_parts st),
                   ps_order := AList.update p p (ps_order st), ps_users := (ps_users st)(p := set (users c)), ps_next := Suc p\<rparr>
      in st1\<lparr>ps_map := (ps_map st)(p := ps_map st p \<union> downstream_partitions down st1 (set (users c)) {p})\<rparr>)"

lemma start_partition_new:
  assumes ok: "state_ok users supported ns st" and c: "c \<notin> set ns" "supported c"
  shows "start_partition users down supported k c st = Inr ([ps_next st], opened users down k c st)"
proof -
  note D = state_okD[OF ok]
  have n: "ps_assignment st c = None" using D(1) c(1) by (auto simp: dom_def)
  have "ps_next st \<notin> ran (ps_assignment st)" using D(6)[of "ps_next st"] by auto
  then have m: "map_of (ps_parts st) (ps_next st) = None" using D(2) by blast
  have "downstream_partitions down (st\<lparr>ps_next := x1, ps_order := x2, ps_assignment := a, ps_parts := x3, ps_users := x4\<rparr>) us ids =
      downstream_partitions down (st\<lparr>ps_assignment := a, ps_parts := x3, ps_order := x2, ps_users := x4, ps_next := x1\<rparr>) us ids" for x1 x2 a x3 x4 us ids
    by (simp add: downstream_partitions_def cong: option.case_cong)
  then show ?thesis using c(2) n m by (simp add: start_partition_def merge_single_node_def drop_from_partition_def opened_def Let_def)
qed

lemma opened_ok:
  assumes ok: "state_ok users supported ns st" and d: "dag_order users (c # ns)" and c: "supported c"
    and down: "\<forall>u \<in> set ns. down u = {x. reaches users u x}"
  shows "state_ok users supported (c # ns) (opened users down k c st)"
    and "ps_assignment (opened users down k c st) = joined (ps_assignment st) c (ps_next st) (ps_next st)"
    and "order_of (opened users down k c st) q = (if q = ps_next st then q else order_of st q)"
    and "t \<noteq> ps_next st \<Longrightarrow> ps_map (opened users down k c st) t = ps_map st t"
    and "map_of (ps_parts (opened users down k c st)) q = (if q = ps_next st then Some [(c, Some k)] else map_of (ps_parts st) q)"
    and "q \<noteq> ps_next st \<Longrightarrow> ps_users (opened users down k c st) q = ps_users st q"
    and "ps_users (opened users down k c st) (ps_next st) = set (users c)"
proof -
  note D = state_okD[OF ok]
  let ?st = "opened users down k c st" and ?A = "ps_assignment st" and ?p = "ps_next st"
  have n: "?A c = None" using D(1) d by (auto simp: dom_def)
  have pr: "?p \<notin> ran ?A" using D(6)[of ?p] by auto
  have A: "ps_assignment ?st = ?A(c \<mapsto> ?p)" by (simp add: opened_def Let_def)
  show "ps_assignment ?st = joined ?A c ?p ?p" using pr by (auto simp: A joined_def ran_def fun_eq_iff)
  have R: "ran (ps_assignment ?st) = insert ?p (ran ?A)" using n by (simp add: A)
  have P: "part ?st ?p = {c}" "q \<noteq> ?p \<Longrightarrow> part ?st q = part st q" for q using pr n by (auto simp: part_def A ran_def)
  show "t \<noteq> ?p \<Longrightarrow> ps_map ?st t = ps_map st t" for t by (simp add: opened_def Let_def)
  show o: "order_of ?st q = (if q = ?p then q else order_of st q)" for q by (simp add: order_of_def opened_def Let_def update_conv')
  show pm: "map_of (ps_parts ?st) q = (if q = ?p then Some [(c, Some k)] else map_of (ps_parts st) q)" for q
    by (simp add: opened_def Let_def update_conv')
  show us: "q \<noteq> ?p \<Longrightarrow> ps_users ?st q = ps_users st q" "ps_users ?st ?p = set (users c)" for q by (simp_all add: opened_def Let_def)
  have nx: "ps_next ?st = Suc ?p" by (simp add: opened_def Let_def)
  have cu: "c \<notin> set (users c)" and cn: "set (users c) \<subseteq> set ns" using d by auto
  define f where "f = (\<lambda>x. case ps_assignment ?st x of None \<Rightarrow> {} | Some t \<Rightarrow> insert t (ps_map st t))"
  have mp: "ps_map ?st ?p = (\<Union>u \<in> set (users c). \<Union>x \<in> insert u (down u). f x) - {?p}"
    using D(9)[of ?p] by (simp add: opened_def Let_def downstream_partitions_def f_def cong: option.case_cong)
  have mono: "fused_reach users (ps_assignment ?st) x y" if "fused_reach users ?A x y" for x y
    using _ that
  proof (rule fused_reach_mono)
    show "same_part ?A a b \<Longrightarrow> same_part (ps_assignment ?st) a b" for a b using n by (cases "?A b") (auto simp: same_part_def A)
  qed
  have R0: "fused_reach users (ps_assignment ?st) x b" if "ps_assignment ?st x = Some t" "t \<noteq> ?p" "q \<in> ps_map st t" "ps_assignment ?st b = Some q" for x t q b
  proof -
    have "q \<noteq> ?p" using D(8)[of t] that(3) by auto
    then have "?A x = Some t" "?A b = Some q" using that by (auto simp: A split: if_split_asm)
    then show ?thesis using D(10)[of x t q b] that(3) mono by blast
  qed
  have reach: "fused_reach users (ps_assignment ?st) a b"
    if a: "ps_assignment ?st a = Some t" and q: "q \<in> ps_map ?st t" and b: "ps_assignment ?st b = Some q" for a b t q
  proof (cases "t = ?p")
    case True
    then have ac: "a = c" using a pr by (auto simp: A ran_def split: if_split_asm)
    have "q \<in> ps_map ?st ?p" using q True by simp
    then obtain u x where u: "u \<in> set (users c)" "x \<in> insert u (down u)" "q \<in> f x" "q \<noteq> ?p" unfolding mp by blast
    obtain s where s: "ps_assignment ?st x = Some s" "q = s \<or> q \<in> ps_map st s" using u(3) by (auto simp: f_def split: option.splits)
    have xn: "x \<in> set ns" using u(1,2) cn down[rule_format, of u] reaches_closed[of users ns u x] d by auto
    then have "s \<noteq> ?p" using s(1) d pr by (auto simp: A ran_def split: if_split_asm)
    then have 4: "fused_reach users (ps_assignment ?st) x b" using s R0[OF s(1) _ _ b] fused_reach_part[of "ps_assignment ?st" x s b users] b by blast
    have 2: "fused_reach users (ps_assignment ?st) c u" by (rule r_into_rtranclp) (simp add: fused_step_def u(1))
    have 3: "fused_reach users (ps_assignment ?st) u x" using u(1,2) cn down[rule_format, of u] reaches_fused by auto
    show ?thesis unfolding ac by (rule rtranclp_trans[OF 2 rtranclp_trans[OF 3 4]])
  next
    case False
    then show ?thesis using R0[OF a False _ b] q by (simp add: opened_def Let_def)
  qed
  have f_lt: "f x \<subseteq> {..<Suc ?p}" for x
  proof -
    have "t < Suc ?p" if "ps_assignment ?st x = Some t" for t 
    proof -
      have "t \<in> insert ?p (ran ?A)" using that unfolding R[symmetric] by (rule ranI)
      then show ?thesis using D(6)[of t] by auto
    qed
    then show ?thesis using D(8) by (fastforce simp: f_def split: option.splits)
  qed
  show "state_ok users supported (c # ns) ?st"
  proof (rule state_okI; (unfold nx)?)
    show "dom (ps_assignment ?st) = {n \<in> set (c # ns). supported n}" using D(1) c by (auto simp: A)
    show "map_of (ps_parts ?st) q = None \<longleftrightarrow> q \<notin> ran (ps_assignment ?st)" for q using D(2)[of q] by (simp add: pm R)
    show "fst ` set nodes = part ?st q" if "map_of (ps_parts ?st) q = Some nodes" for q nodes
      using that D(3)[of q nodes] P(2)[of q] by (cases "q = ?p") (auto simp: pm P(1))
    show "dom (map_of (ps_order ?st)) = ran (ps_assignment ?st)" using D(4) by (simp add: R) (simp add: opened_def Let_def update_conv')
    show "distinct (map fst (ps_order ?st))" using D(5) by (simp add: opened_def Let_def distinct_update)
    show "q < Suc ?p \<and> order_of ?st q < Suc ?p" if "q \<in> ran (ps_assignment ?st)" for q using that D(6)[of q] by (auto simp: R o)
    show "ps_users ?st q = (\<Union>a \<in> part ?st q. set (users a)) - part ?st q" if "q \<in> ran (ps_assignment ?st)" for q
      using that D(7)[of q] us P(2)[of q] pr cu by (cases "q = ?p") (auto simp: R P(1))
    show "ps_map ?st t \<subseteq> {..<Suc ?p}" for t
    proof (cases "t = ?p")
      case True
      show ?thesis unfolding True mp using f_lt by blast
    next
      case False
      then have "ps_map ?st t = ps_map st t" by (simp add: opened_def Let_def)
      then show ?thesis using D(8)[of t] by auto
    qed
    show "ps_map ?st t = {}" if "Suc ?p \<le> t" for t using that D(9)[of t] by (simp add: opened_def Let_def)
    show "fused_reach users (ps_assignment ?st) a b" if "ps_assignment ?st a = Some t" "q \<in> ps_map ?st t" "ps_assignment ?st b = Some q" for a b t q
      using that by (rule reach)
    show "distinct (map fst (ps_parts ?st))" using D(11) by (simp add: opened_def Let_def distinct_update)
  qed
qed

lemma leads_keeps_apart:
  assumes ok: "state_ok users supported ns st" and d: "dag_order users ns" and down: "\<forall>u \<in> set ns. down u = {x. reaches users u x}"
    and ij: "i \<in> ran (ps_assignment st)" "j \<in> ran (ps_assignment st)"
    and l: "leads users (ps_assignment st) rank i j \<or> leads users (ps_assignment st) rank j i"
  shows "maybe_merge_partition down i j st = Inr (i, st)"
proof -
  note D = state_okD[OF ok]
  let ?A = "ps_assignment st"
  obtain ni nj where n: "map_of (ps_parts st) i = Some ni" "map_of (ps_parts st) j = Some nj" using D(2)[of i] D(2)[of j] ij by fastforce
  note parts = D(3)[OF n(1)] D(3)[OF n(2)]
  have "finds_cycle down st i j (part st i \<union> part st j) ((ps_users st i \<union> ps_users st j) - (part st i \<union> part st j))"
  proof -
    obtain a x b where a: "a \<in> part st i \<union> part st j" "x \<in> set (users a)" "x \<notin> part st i \<union> part st j" "b \<in> part st i \<union> part st j" "reaches users x b"
      using l by (fastforce simp: leads_def into_def part_def)
    have "a \<in> set ns" using a(1) D(1) by (auto simp: part_def)
    then have "b \<in> down x" using down[rule_format, of x] dag_closed[OF d _ a(2)] a(5) by simp
    moreover have "x \<in> (ps_users st i \<union> ps_users st j) - (part st i \<union> part st j)" using a D(7)[OF ij(1)] D(7)[OF ij(2)] by auto
    ultimately show ?thesis using a(4) unfolding finds_cycle_def by blast
  qed
  then show ?thesis by (simp add: maybe_merge_partition_def n parts Let_def)
qed

lemma merge_all_apart:
  assumes ok: "state_ok users supported ns st" and d: "dag_order users ns" and down: "\<forall>u \<in> set ns. down u = {x. reaches users u x}"
    and l: "in_line users (ps_assignment st) rank" and i: "i \<in> ran (ps_assignment st)" and qs: "set qs \<subseteq> ran (ps_assignment st) - {i}"
  shows "merge_all down i qs st = Inr st"
  using qs
proof (induction qs)
  case (Cons q qs)
  then have "maybe_merge_partition down i q st = Inr (i, st)"
    using l i by (intro leads_keeps_apart[where rank = rank, OF ok d down]) (auto simp: in_line_def)
  then show ?case using Cons by simp
qed simp

lemma new_finds_cycle:
  assumes inv: "partition_inv users supported ns st" and d: "dag_order users (c # ns)" and c: "supported c"
    and down: "\<forall>u \<in> set ns. down u = {x. reaches users u x}" and q: "q \<in> ran (ps_assignment st)"
    and us: "us = (set (users c) \<union> ps_users st q) - insert c (part st q)"
  shows "finds_cycle down (opened users down k c st) (ps_next st) q (insert c (part st q)) us \<Longrightarrow> blocked users (ps_assignment st) c q"
    and "\<not> finds_cycle down (opened users down k c st) (ps_next st) q (insert c (part st q)) us \<Longrightarrow> a = c \<or> ps_assignment st a = Some q \<Longrightarrow>
      u \<in> set (users a) \<Longrightarrow> ps_assignment st u \<noteq> Some q \<Longrightarrow> ps_assignment st b = Some q \<Longrightarrow> \<not> fused_reach users (ps_assignment st) u b"
proof -
  have ok: "state_ok users supported ns st" and f: "fusible users ns (ps_assignment st)" and l: "in_line users (ps_assignment st) (order_of st)"
    using inv by (auto simp: partition_inv_def)
  note D = state_okD[OF ok]
  note O = opened_ok[where k = k, OF ok d c down]
  let ?A = "ps_assignment st" and ?p = "ps_next st" and ?st = "opened users down k c st"
  have pr: "?p \<notin> ran ?A" using D(6)[of ?p] by auto
  have dn: "dag_order users ns" and cn: "c \<notin> set ns" and cu: "set (users c) \<subseteq> set ns" using d by auto
  have A: "dom ?A \<subseteq> set ns" using D(1) by auto
  have pq: "part st q \<subseteq> set ns" using A by (auto simp: part_def)
  have us_ns: "x \<in> set ns" if "a = c \<or> ?A a = Some q" "x \<in> set (users a)" for a x
    using that cu dag_closed[OF dn, of a x] A by (auto simp: dom_def)
  note F = fused_reach_into[OF f dn A l]
  { assume "finds_cycle down ?st ?p q (insert c (part st q)) us"
    then obtain u x where u: "u \<in> us" "x \<in> insert u (down u)"
      and x: "x \<in> insert c (part st q) \<or> (case ps_assignment ?st x of None \<Rightarrow> False | Some t \<Rightarrow> ?p \<in> ps_map ?st t \<or> q \<in> ps_map ?st t)"
      unfolding finds_cycle_def by blast
    obtain a where a: "a = c \<or> ?A a = Some q" "u \<in> set (users a)" using u(1) D(7)[OF q] us by (auto simp: part_def)
    have un: "u \<in> set ns" by (rule us_ns[OF a])
    have uq: "?A u \<noteq> Some q" using u(1) us by (auto simp: part_def)
    have xr: "x = u \<or> reaches users u x" using u(2) down[rule_format, OF un] by auto
    have xn: "x \<in> set ns" using xr un reaches_closed[OF dn] by blast
    have "?A x = Some q \<or> into users ?A q x"
      using x
    proof
      assume "x \<in> insert c (part st q)"
      then show ?thesis using xn cn by (auto simp: part_def)
    next
      assume y: "case ps_assignment ?st x of None \<Rightarrow> False | Some t \<Rightarrow> ?p \<in> ps_map ?st t \<or> q \<in> ps_map ?st t"
      have "ps_assignment ?st x = ?A x" using xn cn pr by (auto simp: O(2) joined_def ran_def)
      then obtain t where t: "?A x = Some t" "?p \<in> ps_map ?st t \<or> q \<in> ps_map ?st t" using y by (auto split: option.splits)
      have "t \<noteq> ?p" using t(1) pr by (auto simp: ran_def)
      then have "q \<in> ps_map st t" using t(2) O(4)[of t] D(8)[of t] by auto
      moreover obtain b where b: "?A b = Some q" using q by (auto simp: ran_def)
      ultimately show ?thesis using F[OF D(10)[OF t(1) _ b] b xn] by blast
    qed
    then have r: "into users ?A q u" using xr uq into_reach by blast
    show "blocked users ?A c q"
    proof (cases "a = c")
      case True
      then show ?thesis using a(2) r uq by (auto simp: blocked_def)
    next
      case False
      then have aq: "?A a = Some q" using a(1) by blast
      obtain b where b: "?A b = Some q" "reaches users u b" using r by (auto simp: into_def)
      have "fused_reach users ?A u a" using reaches_fused[OF b(2)] fused_reach_part[of ?A b q a users] b(1) aq by (meson rtranclp_trans)
      moreover have "a \<in> set ns" using aq A by auto
      ultimately have "same_part ?A a u" using f a(2) by (auto simp: fusible_def)
      then show ?thesis using aq uq by (simp add: same_part_def)
    qed }
  { assume nf: "\<not> finds_cycle down ?st ?p q (insert c (part st q)) us" and a: "a = c \<or> ?A a = Some q" and u: "u \<in> set (users a)" "?A u \<noteq> Some q" and b: "?A b = Some q"
    have un: "u \<in> set ns" by (rule us_ns[OF a u(1)])
    have "u \<in> us" using a u un cn D(7)[OF q] us by (auto simp: part_def)
    moreover have "x \<in> part st q \<Longrightarrow> x \<notin> down u" for x using nf calculation unfolding finds_cycle_def by blast
    ultimately have "\<not> into users ?A q u" using down[rule_format, OF un] by (auto simp: into_def part_def)
    then show "\<not> fused_reach users ?A u b" using F[OF _ b un] u(2) by blast }
qed

lemma merge_new:
  assumes inv: "partition_inv users supported ns st" and d: "dag_order users (c # ns)" and c: "supported c"
    and down: "\<forall>u \<in> set ns. down u = {x. reaches users u x}" and q: "q \<in> ran (ps_assignment st)"
    and b: "\<forall>q' \<in> ran (ps_assignment st). order_of st q' < order_of st q \<longrightarrow> blocked users (ps_assignment st) c q'"
  shows "(blocked users (ps_assignment st) c q \<and> maybe_merge_partition down (ps_next st) q (opened users down k c st) = Inr (ps_next st, opened users down k c st)) \<or>
    (\<exists>m st'. maybe_merge_partition down (ps_next st) q (opened users down k c st) = Inr (m, st') \<and> partition_inv users supported (c # ns) st' \<and>
       m \<in> {ps_next st, q} \<and> ran (ps_assignment st') = insert m (ran (ps_assignment st) - {q}))"
proof -
  have ok: "state_ok users supported ns st" and f: "fusible users ns (ps_assignment st)" and l: "in_line users (ps_assignment st) (order_of st)"
    using inv by (auto simp: partition_inv_def)
  note D = state_okD[OF ok]
  note O = opened_ok[where k = k, OF ok d c down]
  let ?A = "ps_assignment st" and ?p = "ps_next st" and ?st = "opened users down k c st"
  have pr: "?p \<notin> ran ?A" using D(6)[of ?p] by auto
  have n: "?A c = None" and A: "dom ?A \<subseteq> set ns" using D(1) d by (auto simp: dom_def)
  have pq: "?p \<noteq> q" using q pr by auto
  obtain nq where nq: "map_of (ps_parts st) q = Some nq" using D(2)[of q] q by fastforce
  have parts: "fst ` set nq = part st q" by (rule D(3)[OF nq])
  define us where "us = (set (users c) \<union> ps_users st q) - insert c (part st q)"
  note N = new_finds_cycle[where k = k, OF inv d c down q us_def]
  have eq: "maybe_merge_partition down ?p q ?st =
      (if finds_cycle down ?st ?p q (insert c (part st q)) us then Inr (?p, ?st)
       else if length [(c, Some k)] < length nq then Inr (q, merge_into down q ?p nq [(c, Some k)] us ?st)
       else Inr (?p, merge_into down ?p q [(c, Some k)] nq us ?st))"
    using pq parts by (simp add: maybe_merge_partition_def O(5,6,7) nq us_def)
  show ?thesis
  proof (cases "finds_cycle down ?st ?p q (insert c (part st q)) us")
    case True
    then show ?thesis using eq N(1) by auto
  next
    case False
    have us_ns: "u \<in> set ns" if "u \<in> us" for u
    proof -
      have "u \<in> set (users c) \<or> (\<exists>a \<in> set ns. u \<in> set (users a))" using that D(7)[OF q] A by (auto simp: us_def part_def)
      then show ?thesis using d dag_closed[of users ns] by auto
    qed
    then have dus: "\<forall>u \<in> us. down u = {x. reaches users u x}" using down by blast
    have fine: "partition_inv users supported (c # ns) st'"
      if s: "state_ok users supported (c # ns) st'" and m: "m = q \<or> m \<notin> ran ?A" and a: "ps_assignment st' = joined ?A c q m"
        and r: "\<And>q'. q' \<in> ran ?A \<Longrightarrow> q' \<noteq> q \<Longrightarrow> order_of st' q' = order_of st q'" "order_of st' m = order_of st q" for st' m
    proof -
      have "fusible users (c # ns) (joined ?A c q m)" using f d A m by (rule fusible_join) (rule N(2)[OF False])
      moreover have "in_line users (joined ?A c q m) (order_of st')" using l d A q m by (rule in_line_merge) (fact r b[rule_format])+
      ultimately show ?thesis using s by (simp add: partition_inv_def a)
    qed
    have ord: "order_of ?st ?p = ?p" "order_of ?st q = order_of st q" "order_of st q < ?p" using O(3) pq D(6)[OF q] by auto
    have ne: "q' \<noteq> ?p" if "q' \<in> ran ?A" for q' using that pr by auto
    have ro: "order_of ?st q' = order_of st q'" if "q' \<in> ran ?A" for q' using O(3) that pr by auto
    show ?thesis
    proof (cases "length [(c, Some k)] < length nq")
      case True
      have us1: "us = (ps_users ?st q \<union> ps_users ?st ?p) - (fst ` set nq \<union> fst ` set [(c, Some k)])" using pq by (auto simp: us_def O(6,7) parts)
      have mq: "map_of (ps_parts ?st) q = Some nq" "map_of (ps_parts ?st) ?p = Some [(c, Some k)]" using pq by (simp_all add: O(5) nq)
      note M = merge_into_ok[OF O(1) mq pq[symmetric] us1 dus]
      have a: "ps_assignment (merge_into down q ?p nq [(c, Some k)] us ?st) = joined ?A c q q"
        unfolding M(2) O(2) using pr pq by (auto simp: joined_def fun_eq_iff ran_def)
      have "partition_inv users supported (c # ns) (merge_into down q ?p nq [(c, Some k)] us ?st)"
        by (rule fine[OF M(1) _ a]) (use M(3) M(4) ord ro ne in auto)
      then show ?thesis using eq False True ran_joined[of ?A c q q, OF n] by (auto simp: a)
    next
      case short: False
      have us1: "us = (ps_users ?st ?p \<union> ps_users ?st q) - (fst ` set [(c, Some k)] \<union> fst ` set nq)" using pq by (auto simp: us_def O(6,7) parts)
      have mq: "map_of (ps_parts ?st) ?p = Some [(c, Some k)]" "map_of (ps_parts ?st) q = Some nq" using pq by (simp_all add: O(5) nq)
      note M = merge_into_ok[OF O(1) mq pq us1 dus]
      have a: "ps_assignment (merge_into down ?p q [(c, Some k)] nq us ?st) = joined ?A c q ?p"
        unfolding M(2) O(2) using pr pq by (auto simp: joined_def fun_eq_iff ran_def)
      have "partition_inv users supported (c # ns) (merge_into down ?p q [(c, Some k)] nq us ?st)"
        by (rule fine[OF M(1) _ a]) (use M(3) M(4) ord ro ne in auto)
      then show ?thesis using eq False short ran_joined[of ?A c q ?p, OF n] by (auto simp: a)
    qed
  qed
qed

lemma merge_all_new:
  assumes inv: "partition_inv users supported ns st" and d: "dag_order users (c # ns)" and c: "supported c"
    and down: "\<forall>u \<in> set (c # ns). down u = {x. reaches users u x}"
    and qs: "set qs \<subseteq> ran (ps_assignment st)" "distinct qs" "sorted_wrt (\<lambda>p q. order_of st p \<le> order_of st q) qs"
    and b: "\<And>q. q \<in> ran (ps_assignment st) \<Longrightarrow> q \<notin> set qs \<Longrightarrow> blocked users (ps_assignment st) c q"
  shows "\<exists>st'. merge_all down (ps_next st) qs (opened users down k c st) = Inr st' \<and> partition_inv users supported (c # ns) st'"
  using qs b
proof (induction qs)
  case Nil
  have ok: "state_ok users supported ns st" and f: "fusible users ns (ps_assignment st)" and l: "in_line users (ps_assignment st) (order_of st)"
    using inv by (auto simp: partition_inv_def)
  note D = state_okD[OF ok]
  have dn: "\<forall>u \<in> set ns. down u = {x. reaches users u x}" using down by simp
  note O = opened_ok[where k = k, OF ok d c dn]
  let ?p = "ps_next st"
  have pr: "?p \<notin> ran (ps_assignment st)" using D(6)[of ?p] by auto
  have A: "dom (ps_assignment st) \<subseteq> set ns" using D(1) by auto
  have "fusible users (c # ns) (joined (ps_assignment st) c ?p ?p)"
    using f d A by (rule fusible_join) (use pr in \<open>auto simp: ran_def\<close>)
  moreover have "in_line users (joined (ps_assignment st) c ?p ?p) (order_of (opened users down k c st))"
    using l d A pr by (rule in_line_new) (use Nil.prems(4) D(6) pr in \<open>auto simp: O(3)\<close>)
  ultimately show ?case using O(1) by (simp add: partition_inv_def O(2))
next
  case (Cons q qs)
  have dn: "\<forall>u \<in> set ns. down u = {x. reaches users u x}" using down by simp
  have q: "q \<in> ran (ps_assignment st)" using Cons.prems(1) by simp
  have bq: "\<forall>q' \<in> ran (ps_assignment st). order_of st q' < order_of st q \<longrightarrow> blocked users (ps_assignment st) c q'"
    using Cons.prems(3,4) by fastforce
  from merge_new[where k = k, OF inv d c dn q bq] show ?case
  proof (elim disjE exE conjE)
    assume "blocked users (ps_assignment st) c q" and m: "maybe_merge_partition down (ps_next st) q (opened users down k c st) = Inr (ps_next st, opened users down k c st)"
    then show ?case using Cons.IH Cons.prems by (auto simp: m)
  next
    fix m st'
    assume m: "maybe_merge_partition down (ps_next st) q (opened users down k c st) = Inr (m, st')" and inv': "partition_inv users supported (c # ns) st'"
      and mm: "m \<in> {ps_next st, q}" and r: "ran (ps_assignment st') = insert m (ran (ps_assignment st) - {q})"
    have "ps_next st \<notin> ran (ps_assignment st)" using inv state_okD(6)[of users supported ns st "ps_next st"] by (auto simp: partition_inv_def)
    then have "m \<notin> set qs" using mm Cons.prems(1,2) by auto
    then have qs: "set qs \<subseteq> ran (ps_assignment st') - {m}" using Cons.prems(1,2) by (auto simp: r)
    have "merge_all down m qs st' = Inr st'"
      by (rule merge_all_apart[OF _ d down _ _ qs]) (use inv' in \<open>auto simp: partition_inv_def r\<close>)
    then show ?case using m inv' by auto
  qed
qed

lemma add_keys: "distinct ks \<Longrightarrow> fold add_key ks acc = acc @ filter (\<lambda>k. k \<notin> set acc) ks"
proof (induction ks arbitrary: acc)
  case (Cons k ks)
  have "filter (\<lambda>x. x \<notin> set (acc @ [k])) ks = filter (\<lambda>x. x \<notin> set acc) ks" using Cons.prems by (intro filter_cong) auto
  then show ?case using Cons by (simp add: add_key_def)
qed simp

lemma partition_order_keys:
  assumes "state_ok users supported ns st"
  defines "ks \<equiv> map fst (sort_key snd (ps_order st))"
  shows "set ks = ran (ps_assignment st)" and "distinct ks" and "sorted_wrt (\<lambda>p q. order_of st p \<le> order_of st q) ks"
proof -
  note D = state_okD[OF assms(1)]
  show "set ks = ran (ps_assignment st)" using D(4) by (simp add: ks_def dom_map_of_conv_image_fst)
  have "mset ks = mset (map fst (ps_order st))" by (simp add: ks_def)
  then show "distinct ks" using D(5) mset_eq_imp_distinct_iff by blast
  have "order_of st (fst po) = snd po" if "po \<in> set (ps_order st)" for po 
  proof -
    have "map_of (ps_order st) (fst po) = Some (snd po)" using that D(5) by (intro map_of_is_SomeI) simp_all
    then show ?thesis by (simp add: order_of_def)
  qed
  moreover have "sorted_wrt (\<lambda>x y. snd x \<le> snd y) (sort_key snd (ps_order st))" using sorted_sort_key[of snd "ps_order st"] by (simp add: sorted_map)
  ultimately show "sorted_wrt (\<lambda>p q. order_of st p \<le> order_of st q) ks"
    unfolding ks_def sorted_wrt_map by (rule_tac sorted_wrt_mono_rel[rotated]) auto
qed

lemma partition_step_inv:
  assumes inv: "partition_inv users supported ns st" and d: "dag_order users (c # ns)" and down: "\<forall>u \<in> set (c # ns). down u = {x. reaches users u x}"
  shows "\<exists>st'. partition_step users down supported False (k, c) st = Inr st' \<and> partition_inv users supported (c # ns) st'"
proof (cases "supported c")
  case True
  have ok: "state_ok users supported ns st" using inv by (simp add: partition_inv_def)
  have cn: "c \<notin> set ns" and dn: "\<forall>u \<in> set ns. down u = {x. reaches users u x}" using d down by auto
  note O = opened_ok[where k = k, OF ok d True dn]
  note K = partition_order_keys[OF O(1)]
  let ?p = "ps_next st" and ?A = "ps_assignment st" and ?st = "opened users down k c st"
  let ?ks = "map fst (sort_key snd (ps_order ?st))"
  define qs where "qs = filter (\<lambda>q. q \<noteq> ?p) ?ks"
  have n: "?A c = None" using state_okD(1)[OF ok] cn by (auto simp: dom_def)
  have pr: "?p \<notin> ran ?A" using state_okD(6)[OF ok, of ?p] by auto
  have R: "ran (ps_assignment ?st) = insert ?p (ran ?A)" using pr by (simp add: O(2) ran_joined[of ?A c, OF n])
  have m: "merge_candidates users False c [?p] ?st = ?p # qs"
    using add_keys[OF K(2), of "[?p]"] by (simp add: merge_candidates_def qs_def fold_map comp_def)
  have "set qs = ran ?A" using K(1) R pr by (auto simp: qs_def)
  moreover have "distinct qs" using K(2) by (simp add: qs_def)
  moreover have "sorted_wrt (\<lambda>p q. order_of st p \<le> order_of st q) qs"
  proof (rule sorted_wrt_mono_rel[rotated])
    show "sorted_wrt (\<lambda>p q. order_of ?st p \<le> order_of ?st q) qs" unfolding qs_def by (rule sorted_wrt_filter[OF K(3)])
  qed (auto simp: qs_def O(3))
  ultimately obtain st' where "merge_all down ?p qs ?st = Inr st'" "partition_inv users supported (c # ns) st'"
    using merge_all_new[where k = k, OF inv d True down, of qs] by auto
  then show ?thesis by (simp add: partition_step_def start_partition_new[OF ok cn True] m)
next
  case False
  have ok: "state_ok users supported ns st" and f: "fusible users ns (ps_assignment st)" and l: "in_line users (ps_assignment st) (order_of st)"
    using inv by (auto simp: partition_inv_def)
  have cn: "c \<notin> set ns" and dag: "dag_order users ns" and cu: "set (users c) \<subseteq> set ns" and dn: "\<forall>u \<in> set ns. down u = {x. reaches users u x}" using d down by auto
  note K = partition_order_keys[OF ok]
  let ?ks = "map fst (sort_key snd (ps_order st))"
  have A: "dom (ps_assignment st) \<subseteq> set ns" using state_okD(1)[OF ok] by auto
  have s: "start_partition users down supported k c st = Inr ([], st)" using False by (simp add: start_partition_def)
  have m: "merge_candidates users False c [] st = ?ks"
    using add_keys[OF K(2), of "[]"] by (simp add: merge_candidates_def fold_map comp_def)
  have "partition_step users down supported False (k, c) st = Inr st"
  proof (cases ?ks)
    case Nil
    then show ?thesis by (simp add: partition_step_def s m)
  next
    case (Cons i qs)
    have "merge_all down i qs st = Inr st"
      using K(1,2) unfolding Cons by (intro merge_all_apart[OF ok dag dn l]) auto
    then show ?thesis by (simp add: partition_step_def s m Cons)
  qed
  moreover have "state_ok users supported (c # ns) st" using ok False unfolding state_ok_def by (simp add: conj_disj_distribR) blast
  moreover have "fusible users (c # ns) (ps_assignment st)"
    using f cu cn fused_closed[OF dag A] by (auto simp: fusible_def)
  ultimately show ?thesis using l by (simp add: partition_inv_def)
qed

lemma propose_merges_inv:
  assumes d: "dag_order users nodes"
  shows "\<exists>st. propose_merges users nodes supported False = Inr st \<and> partition_inv users supported nodes st"
proof -
  let ?down = "dependency_viewer users nodes"
  have "\<exists>st. foldM (\<lambda>st on. partition_step users ?down supported False on st) empty_partition_state (enumerate 0 (rev ns)) = Inr st \<and>
      partition_inv users supported ns st" if "nodes = xs @ ns" for xs ns
    using that
  proof (induction ns arbitrary: xs)
    case Nil
    show ?case by (auto simp: partition_inv_def state_ok_def empty_partition_state_def fusible_def in_line_def part_def)
  next
    case (Cons c ns)
    then obtain st where st: "foldM (\<lambda>st on. partition_step users ?down supported False on st) empty_partition_state (enumerate 0 (rev ns)) = Inr st"
      "partition_inv users supported ns st" using Cons.IH[of "xs @ [c]"] by auto
    have dc: "dag_order users (c # ns)" using d Cons.prems dag_order_append by blast
    have dn: "\<forall>u \<in> set (c # ns). ?down u = {x. reaches users u x}" 
    proof -
      have "set (c # ns) \<subseteq> set nodes" using Cons.prems by auto
      then show ?thesis by (auto simp: dependency_viewer_reaches[OF d])
    qed
    show ?case using partition_step_inv[OF st(2) dc dn, of "length ns"] st(1) by (auto simp: enumerate_append_eq foldM_append)
  qed
  from this[of "[]" nodes] show ?thesis by (simp add: propose_merges_def)
qed

subsection \<open>The proposal for a graph\<close>

definition fuses :: "partition_nodes list \<Rightarrow> nid \<Rightarrow> nid \<Rightarrow> bool" where
  "fuses ps a b \<longleftrightarrow> (\<exists>p \<in> set ps. a \<in> fst ` set p \<and> b \<in> fst ` set p)"

text \<open>After every partition has become one node, no edge between different nodes lies on a cycle.\<close>

definition fusion_acyclic :: "heap \<Rightarrow> gid \<Rightarrow> partition_nodes list \<Rightarrow> bool" where
  "fusion_acyclic h g ps \<longleftrightarrow>
     (\<forall>a \<in> set (nodes_of h g). \<forall>b \<in> set (n_users (hp_node h a)).
        (\<lambda>x y. y \<in> set (n_users (hp_node h x)) \<or> fuses ps x y)\<^sup>*\<^sup>* b a \<longrightarrow> fuses ps a b)"

definition partitions_disjoint :: "partition_nodes list \<Rightarrow> bool" where
  "partitions_disjoint ps \<longleftrightarrow> sorted_wrt (\<lambda>p q. fst ` set p \<inter> fst ` set q = {}) ps"

lemma dag_acyclic: "dag_order users ns \<Longrightarrow> a \<in> set ns \<Longrightarrow> \<not> reaches users a a"
proof (induction ns)
  case (Cons n ns)
  then show ?case using reaches_later[of users n ns a] by auto
qed simp

lemma lint_dag_order:
  assumes ok: "heap_ok h" and lint: "lint h g = Inr ()" and ui: "users_inside h g"
  shows "dag_order (\<lambda>n. n_users (hp_node h n)) (nodes_of h g)"
proof -
  have t: "topological h (nodes_of h g)" using lint by (simp add: lint_eq[OF ok] split: if_split_asm)
  have d: "distinct (nodes_of h g)" by (rule book_ok_sel(1)[OF heap_ok_sel(2)[OF ok]])
  have "dag_order (\<lambda>n. n_users (hp_node h n)) ns" if "nodes_of h g = xs @ ns" for xs ns
    using that
  proof (induction ns arbitrary: xs)
    case (Cons n ns)
    have "u \<in> set ns" if u: "u \<in> set (n_users (hp_node h n))" for u
    proof -
      have un: "u \<in> set (nodes_of h g)" using ui u Cons.prems by (auto simp: users_inside_def)
      have "n \<in> set (n_input_nodes (hp_node h u))" using u links_users[OF heap_ok_sel(1)[OF ok]] by blast
      then have "precedes (xs @ n # ns) n u" using t un Cons.prems by (auto simp: topological_def)
      then obtain p q where pq: "p < q" "q < length (xs @ n # ns)" "(xs @ n # ns) ! p = n" "(xs @ n # ns) ! q = u" by (auto simp: precedes_def)
      have "p = length xs" using pq d Cons.prems nth_eq_iff_index_eq[of "xs @ n # ns" p "length xs"] by auto
      then have "u = ns ! (q - length xs - 1)" "q - length xs - 1 < length ns" using pq by (auto simp: nth_append nth_Cons')
      then show ?thesis by auto
    qed
    then show ?case using Cons.IH[of "xs @ [n]"] Cons.prems d by auto
  qed simp
  from this[of "[]"] show ?thesis by simp
qed

lemma same_part_sym: "same_part A a b \<Longrightarrow> same_part A b a"
  unfolding same_part_def by metis

lemma fusible_sub:
  assumes f: "fusible users ns A" and d: "dag_order users ns" "dom A \<subseteq> set ns"
    and R: "\<And>a b. R a b \<Longrightarrow> same_part A a b" "\<And>a b c. R a b \<Longrightarrow> same_part A b c \<Longrightarrow> R b c" "\<And>a b. R a b \<Longrightarrow> R b a"
    and a: "a \<in> set ns" and b: "b \<in> set (users a)" and ba: "(\<lambda>x y. y \<in> set (users x) \<or> R x y)\<^sup>*\<^sup>* b a"
  shows "R a b"
proof (rule ccontr)
  assume n: "\<not> R a b"
  have fu: "fused_reach users A x y" if "(\<lambda>x y. y \<in> set (users x) \<or> R x y)\<^sup>*\<^sup>* x y" for x y
    using that by (induction rule: rtranclp_induct) (auto simp: fused_step_def intro: R(1) rtranclp.rtrancl_into_rtrancl)
  have ab: "same_part A a b" using f a b fu[OF ba] by (auto simp: fusible_def)
  have na: "\<not> R a x \<and> \<not> R x a" for x using R(2)[of x a b] R(3) ab n by blast
  have "x = a \<or> reaches users x a" if "(\<lambda>x y. y \<in> set (users x) \<or> R x y)\<^sup>*\<^sup>* x a" "fused_reach users A a x" for x
    using that
  proof (induction rule: converse_rtranclp_induct)
    case (step x y)
    have xy: "fused_reach users A x y" by (rule fu) (use step.hyps(1) in auto)
    have IH: "y = a \<or> reaches users y a" by (rule step.IH[OF rtranclp_trans[OF step.prems xy]])
    have "\<not> R x y"
    proof
      assume r: "R x y"
      have "a = x \<or> same_part A a x" using step.hyps(2) by (intro fused_scc[OF f d step.prems a] rtranclp_trans[OF xy fu])
      then show False using na r R(2)[OF R(3)[OF r], of a] same_part_sym by blast
    qed
    then show ?case using step.hyps(1) IH by (auto intro: reaches_edge reaches_step)
  qed simp
  from this[OF ba r_into_rtranclp] have "b = a \<or> reaches users b a" using b by (auto simp: fused_step_def)
  then have "reaches users a a" using b by (auto intro: reaches_edge reaches_step)
  then show False using dag_acyclic[OF d(1) a] by blast
qed

lemma no_reassignments:
  assumes "\<forall>n \<in> set nodes. \<forall>u \<in> set (users n). \<not> is_getitem u"
  shows "reassignments users is_getitem nodes st = []"
proof -
  have "(\<forall>n \<in> set xs. \<forall>u \<in> set (users n). \<not> is_getitem u) \<Longrightarrow> reassignments users is_getitem xs st = []" for xs
  proof (induction xs)
    case (Cons n xs)
    have "users n = [] \<or> \<not> list_all is_getitem (users n)" using Cons.prems by (cases "users n") auto
    then show ?case using Cons by (auto simp: reassignments_def)
  qed (simp add: reassignments_def)
  then show ?thesis using assms by blast
qed

lemma disjoint_parts:
  assumes "distinct (map fst ps)" and "\<And>p nodes. (p, nodes) \<in> set ps \<Longrightarrow> fst ` set nodes = {n. A n = Some p}"
  shows "partitions_disjoint (map snd ps)"
  using assms
proof (induction ps)
  case (Cons pn ps)
  have "fst ` set (snd pn) \<inter> fst ` set (snd qn) = {}" if q: "qn \<in> set ps" for qn
  proof -
    have "fst qn \<in> fst ` set ps" using q by (rule imageI)
    then have "fst qn \<noteq> fst pn" using Cons.prems(1) by (metis distinct.simps(2) list.simps(9) set_map)
    moreover have "fst ` set (snd pn) = {n. A n = Some (fst pn)}" "fst ` set (snd qn) = {n. A n = Some (fst qn)}"
      using Cons.prems(2)[of "fst pn" "snd pn"] Cons.prems(2)[of "fst qn" "snd qn"] q by simp_all
    ultimately show ?thesis by auto
  qed
  then show ?case using Cons by (simp add: partitions_disjoint_def)
qed (simp add: partitions_disjoint_def)

text \<open>On a graph that passes the check and has no \<open>getitem\<close> calls.\<close>

lemma propose_partitions_result:
  assumes ok: "heap_ok h" and lint: "lint h g = Inr ()" and ui: "users_inside h g"
    and gi: "\<forall>n \<in> set (nodes_of h g). \<not> is_getitem_node h qualified_name n"
  obtains ps where "propose_partitions h g qualified_name supported allows_single non_compute allowed False = Some (Inr ps)"
    and "partitions_disjoint ps" and "fusion_acyclic h g ps"
    and "\<Union>((\<lambda>p. fst ` set p) ` set ps) \<subseteq> {n \<in> set (nodes_of h g). supported n}"
    and "allows_single \<longrightarrow> \<Union>((\<lambda>p. fst ` set p) ` set ps) = {n \<in> set (nodes_of h g). supported n}"
proof -
  let ?users = "\<lambda>n. n_users (hp_node h n)" and ?nodes = "nodes_of h g"
  have d: "dag_order ?users ?nodes" by (rule lint_dag_order[OF ok lint ui])
  obtain st where st: "propose_merges ?users ?nodes supported False = Inr st" "partition_inv ?users supported ?nodes st"
    using propose_merges_inv[OF d] by blast
  let ?A = "ps_assignment st"
  have s: "state_ok ?users supported ?nodes st" and f: "fusible ?users ?nodes ?A" using st(2) by (auto simp: partition_inv_def)
  note D = state_okD[OF s]
  have A: "dom ?A \<subseteq> set ?nodes" using D(1) by auto
  define parts where "parts = ps_parts (sort_partitions st)"
  have mem: "fst ` set nodes = {n. ?A n = Some p}" if m: "(p, nodes) \<in> set parts" for p nodes
  proof -
    obtain ns where ns: "(p, ns) \<in> set (ps_parts st)" "nodes = sort_key order_key ns" using m by (auto simp: parts_def sort_partitions_def)
    have "map_of (ps_parts st) p = Some ns" using ns(1) D(11) by (rule_tac map_of_is_SomeI)
    then show ?thesis using D(3)[of p ns] ns(2) by (simp add: part_def)
  qed
  have all: "\<exists>p nodes. (p, nodes) \<in> set parts \<and> n \<in> fst ` set nodes" if m: "n \<in> dom ?A" for n
  proof -
    obtain p where p: "?A n = Some p" using m by auto
    then obtain ns where ns: "map_of (ps_parts st) p = Some ns" using D(2)[of p] by (fastforce simp: ran_def)
    then have "(p, sort_key order_key ns) \<in> set parts" using map_of_SomeD[OF ns] by (force simp: parts_def sort_partitions_def)
    then show ?thesis using mem[of p "sort_key order_key ns"] p by blast
  qed
  have keys: "distinct (map fst parts)" using D(11) by (simp add: parts_def sort_partitions_def comp_def)
  have re: "reassign_getitems ?users (dependency_viewer ?users ?nodes) (is_getitem_node h qualified_name) ?nodes (sort_partitions st) = Some (Inr (sort_partitions st))"
  proof -
    have "\<forall>n \<in> set ?nodes. \<forall>u \<in> set (?users n). \<not> is_getitem_node h qualified_name u" using gi ui by (auto simp: users_inside_def)
    then show ?thesis by (subst reassign_getitems.simps) (simp add: no_reassignments)
  qed
  define F where "F = (\<lambda>ns. ns \<noteq> [] \<and> (allows_single \<or> 1 < compute_count h qualified_name (default_non_compute_ops @ non_compute) allowed ns))"
  define ps where "ps = filter F (map snd parts)"
  have run: "propose_partitions h g qualified_name supported allows_single non_compute allowed False = Some (Inr ps)"
    by (simp add: propose_partitions_def st(1) re ps_def F_def parts_def conj_commute)
  have psm: "nodes \<in> set ps \<longleftrightarrow> F nodes \<and> (\<exists>p. (p, nodes) \<in> set parts)" for nodes by (force simp: ps_def)
  have fu: "same_part ?A a b" if m: "fuses ps a b" for a b
  proof -
    obtain nodes where n: "nodes \<in> set ps" "a \<in> fst ` set nodes" "b \<in> fst ` set nodes" using m unfolding fuses_def by blast
    then obtain p where p: "(p, nodes) \<in> set parts" using psm by blast
    then show ?thesis using n unfolding mem[OF p] by (simp add: same_part_def)
  qed
  have cl: "fuses ps b c" if m: "fuses ps a b" "same_part ?A b c" for a b c
  proof -
    obtain nodes where n: "nodes \<in> set ps" "b \<in> fst ` set nodes" using m(1) unfolding fuses_def by blast
    then obtain p where p: "(p, nodes) \<in> set parts" using psm by blast
    have "c \<in> fst ` set nodes" using n(2) m(2) unfolding mem[OF p] by (simp add: same_part_def)
    then show ?thesis using n unfolding fuses_def by blast
  qed
  have sy: "fuses ps a b \<Longrightarrow> fuses ps b a" for a b unfolding fuses_def by blast
  have ac: "fusion_acyclic h g ps"
    unfolding fusion_acyclic_def
  proof (intro ballI impI)
    fix a b assume "a \<in> set ?nodes" "b \<in> set (?users a)" "(\<lambda>x y. y \<in> set (?users x) \<or> fuses ps x y)\<^sup>*\<^sup>* b a"
    then show "fuses ps a b" by (rule fusible_sub[OF f d A, rotated 3]) (fact fu cl sy)+
  qed
  have dj: "partitions_disjoint ps"
    unfolding ps_def partitions_disjoint_def
    by (rule sorted_wrt_filter, fold partitions_disjoint_def) (rule disjoint_parts[OF keys], rule mem)
  have sub: "\<Union>((\<lambda>p. fst ` set p) ` set ps) \<subseteq> {n \<in> set ?nodes. supported n}"
  proof
    fix n assume "n \<in> \<Union>((\<lambda>p. fst ` set p) ` set ps)"
    then have "fuses ps n n" by (auto simp: fuses_def)
    from fu[OF this] show "n \<in> {n \<in> set ?nodes. supported n}" unfolding D(1)[symmetric] by (auto simp: same_part_def)
  qed
  have "\<Union>((\<lambda>p. fst ` set p) ` set ps) = {n \<in> set ?nodes. supported n}" if single: "allows_single"
  proof (rule subset_antisym[OF sub], rule subsetI)
    fix n assume "n \<in> {n \<in> set ?nodes. supported n}"
    then obtain p nodes where p: "(p, nodes) \<in> set parts" "n \<in> fst ` set nodes" using all unfolding D(1)[symmetric] by blast
    then have "nodes \<in> set ps" using single by (force simp: ps_def F_def)
    then show "n \<in> \<Union>((\<lambda>p. fst ` set p) ` set ps)" using p(2) by blast
  qed
  then have "allows_single \<longrightarrow> \<Union>((\<lambda>p. fst ` set p) ` set ps) = {n \<in> set ?nodes. supported n}" by blast
  then show ?thesis by (rule that[OF run dj ac sub])
qed

subsection \<open>Properties\<close>

text \<open>C13: For a graph that passes the check and has no getitem calls, the proposal of partitions in its default mode, with horizontal fusion, returns. The partitions are disjoint, consist of supported nodes, contain all
  of them when single nodes are allowed, and fusing each of them into one node makes no cycle.\<close>

theorem propose_partitions_fusible:
  assumes "heap_ok h" and "lint h g = Inr ()" and "users_inside h g" and "\<forall>n \<in> set (nodes_of h g). \<not> is_getitem_node h qualified_name n"
  shows "\<exists>ps. propose_partitions h g qualified_name supported allows_single non_compute allowed False = Some (Inr ps) \<and>
    partitions_disjoint ps \<and> fusion_acyclic h g ps \<and> \<Union>((\<lambda>p. fst ` set p) ` set ps) \<subseteq> {n \<in> set (nodes_of h g). supported n} \<and>
    (allows_single \<longrightarrow> \<Union>((\<lambda>p. fst ` set p) ` set ps) = {n \<in> set (nodes_of h g). supported n})"
proof -
  obtain ps where "propose_partitions h g qualified_name supported allows_single non_compute allowed False = Some (Inr ps)"
    and "partitions_disjoint ps" and "fusion_acyclic h g ps" and "\<Union>((\<lambda>p. fst ` set p) ` set ps) \<subseteq> {n \<in> set (nodes_of h g). supported n}"
    and "allows_single \<longrightarrow> \<Union>((\<lambda>p. fst ` set p) ` set ps) = {n \<in> set (nodes_of h g). supported n}"
    by (rule propose_partitions_result[OF assms])
  then show ?thesis by (intro exI[of _ ps]) simp
qed

theorem propose_partitions_fusible_witness:
  "\<exists>ps. propose_partitions demo_heap 0 (\<lambda>_. ''relu'') (\<lambda>n. n = 2 \<or> n = 3) True [] [] False = Some (Inr ps) \<and>
     partitions_disjoint ps \<and> fusion_acyclic demo_heap 0 ps \<and> \<Union>((\<lambda>p. fst ` set p) ` set ps) = {2, 3}"
proof -
  have "\<forall>n \<in> set (nodes_of demo_heap 0). \<not> is_getitem_node demo_heap (\<lambda>_. ''relu'') n" by (simp add: is_getitem_node_def)
  moreover have "{n \<in> set (nodes_of demo_heap 0). n = 2 \<or> n = 3} = {2, 3}" by (auto simp: demo_nodes)
  ultimately show ?thesis
    using propose_partitions_fusible[OF demo_ok demo_lint demo_users_inside, of "\<lambda>_. ''relu''" "\<lambda>n. n = 2 \<or> n = 3" True "[]" "[]"] by auto
qed

text \<open>A graph in which two chains cross, each through a node that is not supported.\<close>

definition crossing_users :: "nid \<Rightarrow> nid list" where
  "crossing_users n = (case map_of [(0, [1, 2]), (1, [3]), (2, [6]), (3, [7]), (4, [5, 7]), (5, [6])] n of None \<Rightarrow> [] | Some us \<Rightarrow> us)"

definition crossing_assignment :: "(nid \<Rightarrow> nat option) result" where
  "crossing_assignment =
     rbind (propose_merges crossing_users [0, 1, 2, 3, 4, 5, 6, 7] (\<lambda>n. n \<noteq> 1 \<and> n \<noteq> 5) True) (\<lambda>st. Inr (ps_assignment st))"

lemma crossing_assigned:
  "(case crossing_assignment of Inl e \<Rightarrow> None | Inr A \<Rightarrow> Some (map A [0, 1, 2, 3, 4, 5, 6, 7])) =
    Some [Some 4, None, Some 4, Some 2, Some 2, None, Some 4, Some 2]"
  by code_simp

text \<open>C38: Without horizontal fusion the proposal puts the nodes 3, 4, 7 and 0, 2, 6 of this graph into two partitions, each of which needs the
  other: fusing them makes a cycle.\<close>

theorem skip_horizontal_fusion_cycle:
  "\<exists>st. propose_merges crossing_users [0, 1, 2, 3, 4, 5, 6, 7] (\<lambda>n. n \<noteq> 1 \<and> n \<noteq> 5) True = Inr st \<and>
     map (ps_assignment st) [0, 1, 2, 3, 4, 5, 6, 7] = [Some 4, None, Some 4, Some 2, Some 2, None, Some 4, Some 2] \<and>
     dag_order crossing_users [4, 5, 0, 1, 2, 3, 6, 7] \<and> \<not> fusible crossing_users [0, 1, 2, 3, 4, 5, 6, 7] (ps_assignment st)"
proof -
  obtain st where st: "propose_merges crossing_users [0, 1, 2, 3, 4, 5, 6, 7] (\<lambda>n. n \<noteq> 1 \<and> n \<noteq> 5) True = Inr st"
    and A: "map (ps_assignment st) [0, 1, 2, 3, 4, 5, 6, 7] = [Some 4, None, Some 4, Some 2, Some 2, None, Some 4, Some 2]"
    using crossing_assigned by (auto simp: crossing_assignment_def rbind_eq_Inr split: sum.splits)
  let ?S = "fused_step crossing_users (ps_assignment st)"
  have s: "?S 1 3" "?S 3 4" "?S 4 5" "?S 5 6" "?S 6 0" using A by (simp_all add: fused_step_def same_part_def crossing_users_def)
  have "?S\<^sup>*\<^sup>* 1 0" by (rule converse_rtranclp_into_rtranclp[of ?S], rule s)+ (rule rtranclp.rtrancl_refl)
  moreover have "1 \<in> set (crossing_users 0)" "\<not> same_part (ps_assignment st) 0 1" using A by (simp_all add: crossing_users_def same_part_def)
  ultimately have "\<not> fusible crossing_users [0, 1, 2, 3, 4, 5, 6, 7] (ps_assignment st)" by (auto simp: fusible_def)
  moreover have "dag_order crossing_users [4, 5, 0, 1, 2, 3, 6, 7]" by code_simp
  ultimately show ?thesis using st A by (intro exI[of _ st] conjI)
qed

text \<open>Moving getitem calls changes their own assignment only.\<close>

lemma merge_single_node_assignment:
  assumes "merge_single_node users down n k pid st = Inr st'" and "m \<noteq> n"
  shows "ps_assignment st' m = ps_assignment st m"
proof -
  have d: "ps_assignment st1 = ps_assignment st" if "drop_from_partition n st = Inr st1" for st1
    using that by (auto simp: drop_from_partition_def split: option.splits if_split_asm)
  obtain st1 where st1: "drop_from_partition n st = Inr st1" using assms(1) by (auto simp: merge_single_node_def rbind_eq_Inr)
  note eq = assms(1)[unfolded merge_single_node_def st1 rbind_Inr]
  show ?thesis
  proof (cases pid)
    case None
    then show ?thesis using eq d[OF st1] assms(2) by (auto split: if_split_asm)
  next
    case (Some p)
    then show ?thesis using eq d[OF st1] assms(2) by (cases "map_of (ps_parts st1) p"; auto simp: Let_def split: if_split_asm)
  qed
qed

lemma moves_assignment:
  assumes "foldM (\<lambda>s up. merge_single_node users down (fst up) None (snd up) s) st moves = Inr st'" and "m \<notin> fst ` set moves"
  shows "ps_assignment st' m = ps_assignment st m"
  using assms
proof (induction moves arbitrary: st)
  case (Cons up moves)
  then show ?case by (auto simp: rbind_eq_Inr dest!: merge_single_node_assignment[where m = m])
qed simp

lemma reassignments_keys:
  "fst ` set (reassignments users is_getitem nodes st) =
    {u. \<exists>n \<in> set nodes. list_all is_getitem (users n) \<and> u \<in> set (users n) \<and> ps_assignment st u \<noteq> ps_assignment st n}"
proof -
  have inner: "fst ` set (fold (\<lambda>u acc. if ps_assignment st u \<noteq> x then AList.update u x acc else acc) us acc) =
      fst ` set acc \<union> {u \<in> set us. ps_assignment st u \<noteq> x}" for us x and acc :: "(nid \<times> nat option) list"
    by (induction us arbitrary: acc) (auto simp: dom_update)
  have "fst ` set (fold (\<lambda>n acc. if list_all is_getitem (users n)
                    then fold (\<lambda>u acc. if ps_assignment st u \<noteq> ps_assignment st n then AList.update u (ps_assignment st n) acc else acc) (users n) acc
                    else acc) ns acc) =
      fst ` set acc \<union> {u. \<exists>n \<in> set ns. list_all is_getitem (users n) \<and> u \<in> set (users n) \<and> ps_assignment st u \<noteq> ps_assignment st n}" for ns acc
    by (induction ns arbitrary: acc) (auto simp: inner)
  then show ?thesis by (simp add: reassignments_def)
qed

lemma reassign_getitems_apart:
  assumes "reassign_getitems users down is_getitem nodes st = Some r"
  shows "a \<in> set nodes \<longrightarrow> b \<in> set nodes \<longrightarrow> \<not> is_getitem a \<longrightarrow> \<not> is_getitem b \<longrightarrow> list_all is_getitem (users a) \<longrightarrow> list_all is_getitem (users b) \<longrightarrow>
    u \<in> set (users a) \<longrightarrow> u \<in> set (users b) \<longrightarrow> ps_assignment st a \<noteq> ps_assignment st b \<longrightarrow> (\<forall>st'. r \<noteq> Inr st')"
proof (rule reassign_getitems.raw_induct[OF _ assms], intro impI)
  fix loop users down is_getitem nodes st r
  assume IH: "\<And>users down is_getitem nodes st r. loop users down is_getitem nodes st = Some r \<Longrightarrow>
      a \<in> set nodes \<longrightarrow> b \<in> set nodes \<longrightarrow> \<not> is_getitem a \<longrightarrow> \<not> is_getitem b \<longrightarrow> list_all is_getitem (users a) \<longrightarrow> list_all is_getitem (users b) \<longrightarrow>
      u \<in> set (users a) \<longrightarrow> u \<in> set (users b) \<longrightarrow> ps_assignment st a \<noteq> ps_assignment st b \<longrightarrow> (\<forall>st'. r \<noteq> Inr st')"
    and body: "(let moves = reassignments users is_getitem nodes st
      in if moves = [] then Some (Inr st)
         else case foldM (\<lambda>s up. merge_single_node users down (fst up) None (snd up) s) st moves of
                Inl e \<Rightarrow> Some (Inl e) | Inr st' \<Rightarrow> loop users down is_getitem nodes st') = Some r"
    and a: "a \<in> set nodes" "\<not> is_getitem a" "list_all is_getitem (users a)" "u \<in> set (users a)"
    and b: "b \<in> set nodes" "\<not> is_getitem b" "list_all is_getitem (users b)" "u \<in> set (users b)"
    and apart: "ps_assignment st a \<noteq> ps_assignment st b"
  let ?moves = "reassignments users is_getitem nodes st"
  have "ps_assignment st u \<noteq> ps_assignment st a \<or> ps_assignment st u \<noteq> ps_assignment st b" using apart by auto
  then have "u \<in> fst ` set ?moves" using a b unfolding reassignments_keys by blast
  then have ne: "?moves \<noteq> []" by auto
  have ab: "a \<notin> fst ` set ?moves" "b \<notin> fst ` set ?moves" using a(2) b(2) unfolding reassignments_keys by (auto simp: list_all_iff)
  show "\<forall>st'. r \<noteq> Inr st'"
  proof (cases "foldM (\<lambda>s up. merge_single_node users down (fst up) None (snd up) s) st ?moves")
    case (Inr st2)
    have "ps_assignment st2 a \<noteq> ps_assignment st2 b" using moves_assignment[OF Inr] ab apart by simp
    moreover have "loop users down is_getitem nodes st2 = Some r" using body ne Inr by simp
    ultimately show ?thesis using IH[of users down is_getitem nodes st2 r] a b by blast
  qed (use body ne in auto)
qed

text \<open>C39: When two nodes that are not getitem calls have only getitem calls as users, one of them in common, and stand in different partitions, the
  reassignment of getitem calls never ends with a result.\<close>

theorem reassign_getitems_never_settles:
  assumes "a \<in> set nodes" and "b \<in> set nodes" and "\<not> is_getitem a" and "\<not> is_getitem b"
    and "list_all is_getitem (users a)" and "list_all is_getitem (users b)" and "u \<in> set (users a)" and "u \<in> set (users b)"
    and "ps_assignment st a \<noteq> ps_assignment st b"
  shows "reassign_getitems users down is_getitem nodes st \<noteq> Some (Inr st')"
  using reassign_getitems_apart[of users down is_getitem nodes st "Inr st'" a b u] assms by blast

text \<open>The call \<open>x[i]\<close> with an unsupported index: the input \<open>i\<close> (node 1) and the supported \<open>x\<close> (node 2) are used by a getitem call (node 3) only.\<close>

definition indexing_users :: "nid \<Rightarrow> nid list" where
  "indexing_users n = (case map_of [(0, [2]), (1, [3]), (2, [3]), (3, [4])] n of None \<Rightarrow> [] | Some us \<Rightarrow> us)"

definition indexing_state :: partition_state where
  "indexing_state = (case propose_merges indexing_users [0, 1, 2, 3, 4] (\<lambda>n. n = 2) False of Inl e \<Rightarrow> empty_partition_state | Inr st \<Rightarrow> st)"

lemma indexing_assigned: "map (ps_assignment indexing_state) [0, 1, 2, 3, 4] = [None, None, Some 0, None, None]"
  by code_simp

theorem reassign_getitems_never_settles_witness:
  "\<forall>down st'. reassign_getitems indexing_users down (\<lambda>n. n = 3) [0, 1, 2, 3, 4] indexing_state \<noteq> Some (Inr st')"
  using indexing_assigned
  by (intro allI reassign_getitems_never_settles[where a = 1 and b = 2 and u = 3]) (simp_all add: indexing_users_def)

end
