(* ===== verification/MemoryPlan.thy ===== *)
theory MemoryPlan
  imports Prelude "HOL-Library.Word" "HOL-Library.Product_Lexorder"
begin

text \<open>
  The memory planner of the compiler backend, \<^verbatim>\<open>src/tensorplay/compiler/backends/stax/codegen/memory_planning.py\<close>. It rewrites the lines of a
  generated program that allocate and free buffers into lines that take memory from pools. Buffers that reuse one another form a group; a
  group is live from its first line to its last; groups are placed in trees whose nodes split memory in time or in space. Sizes are integers:
  a buffer has the size used for planning and the size at run time, both of \<open>plan_env\<close>, since symbolic expressions come from another package. Times
  are integers; the infinite bounds of the source are options. A group is identified by its number and a pool by its position.
\<close>

unbundle bit_operations_syntax

subsection \<open>Live ranges\<close>

text \<open>From \<open>lr_begin\<close>, inclusive, to \<open>lr_end\<close>, exclusive, in steps of the program.\<close>

record live_range =
  lr_begin :: int
  lr_end :: int

definition range_contains :: "live_range \<Rightarrow> live_range \<Rightarrow> bool" where
  "range_contains self other \<longleftrightarrow> lr_begin self \<le> lr_begin other \<and> lr_end other \<le> lr_end self"

definition range_join :: "live_range \<Rightarrow> live_range \<Rightarrow> live_range" where
  "range_join self other = \<lparr>lr_begin = min (lr_begin self) (lr_begin other), lr_end = max (lr_end self) (lr_end other)\<rparr>"

definition range_len :: "live_range \<Rightarrow> int" where
  "range_len r = lr_end r - lr_begin r"

text \<open>\<open>LiveRanges\<close>: sorted, with ranges that touch joined. Its assertion that the ranges are sorted cannot fail.\<close>

fun merge_ranges :: "live_range \<Rightarrow> live_range list \<Rightarrow> live_range list" where
  "merge_ranges cur [] = [cur]"
| "merge_ranges cur (r # rs) = (if lr_begin r \<le> lr_end cur then merge_ranges (range_join cur r) rs else cur # merge_ranges r rs)"

definition live_ranges :: "live_range list \<Rightarrow> live_range list" where
  "live_ranges rs = (case sort_key lr_begin rs of [] \<Rightarrow> [] | r # rest \<Rightarrow> merge_ranges r rest)"

function (sequential) live_overlap_loop :: "live_range list \<Rightarrow> live_range list \<Rightarrow> bool" where
  "live_overlap_loop (l # left) (r # right) =
     (if lr_begin r < lr_begin l
      then lr_begin l < lr_end r \<or> live_overlap_loop right (l # left)
      else lr_begin r < lr_end l \<or> live_overlap_loop left (r # right))"
| "live_overlap_loop left right = False"
  by pat_completeness auto
termination by (relation "measure (\<lambda>(l, r). length l + length r)") auto

definition live_ranges_overlap :: "live_range list \<Rightarrow> live_range list \<Rightarrow> bool" where
  "live_ranges_overlap self other = live_overlap_loop self other"

definition ranges_begin :: "live_range list \<Rightarrow> int result" where
  "ranges_begin rs = (case rs of [] \<Rightarrow> Inl IndexError | r # _ \<Rightarrow> Inr (lr_begin r))"

definition ranges_end :: "live_range list \<Rightarrow> int result" where
  "ranges_end rs = (if rs = [] then Inl IndexError else Inr (lr_end (last rs)))"

subsection \<open>The allocation tree\<close>

text \<open>A block with its live range, the size used for planning, the size at run time, and whether its shape depends on values that are known late.\<close>

record block =
  b_id :: nat
  b_device :: string
  b_live :: live_range
  b_hint :: int
  b_size :: int
  b_unbacked :: bool
  b_allocated :: bool

datatype alloc_node =
    Allocation block
  | EmptySpace int
  | TemporalSplit "alloc_node list"
  | SpatialSplit alloc_node alloc_node

definition align_bytes :: "int \<Rightarrow> int" where
  "align_bytes nbytes = (nbytes + 64 - 1) AND (- 64)"

fun node_ranges :: "alloc_node \<Rightarrow> live_range list" where
  "node_ranges (Allocation b) = live_ranges [b_live b]"
| "node_ranges (EmptySpace n) = live_ranges []"
| "node_ranges (TemporalSplit ns) = live_ranges (concat (map node_ranges ns))"
| "node_ranges (SpatialSplit left right) = live_ranges (node_ranges left @ node_ranges right)"

fun size_hint :: "alloc_node \<Rightarrow> int" where
  "size_hint (Allocation b) = b_hint b"
| "size_hint (EmptySpace n) = n"
| "size_hint (TemporalSplit ns) = (if ns = [] then 0 else Max (set (map size_hint ns)))"
| "size_hint (SpatialSplit left right) = align_bytes (size_hint left) + size_hint right"

fun runtime_size :: "alloc_node \<Rightarrow> int" where
  "runtime_size (Allocation b) = b_size b"
| "runtime_size (EmptySpace n) = 0"
| "runtime_size (TemporalSplit ns) = (if ns = [] then 0 else Max (set (map runtime_size ns)))"
| "runtime_size (SpatialSplit left right) = align_bytes (runtime_size left) + runtime_size right"

fun node_is_empty :: "alloc_node \<Rightarrow> bool" where
  "node_is_empty (Allocation b) = False"
| "node_is_empty (EmptySpace n) = True"
| "node_is_empty (TemporalSplit ns) = (case ns of [n] \<Rightarrow> node_is_empty n | _ \<Rightarrow> False)"
| "node_is_empty (SpatialSplit left right) = False"

definition mark_allocated :: "block \<Rightarrow> block result" where
  "mark_allocated b = (if b_allocated b then Inl AssertionError else Inr (b\<lparr>b_allocated := True\<rparr>))"

definition spatial_create :: "alloc_node \<Rightarrow> int \<Rightarrow> alloc_node result" where
  "spatial_create left extra_space =
     (if 1 \<le> extra_space then Inr (SpatialSplit (TemporalSplit [left]) (TemporalSplit [EmptySpace extra_space])) else Inl AssertionError)"

text \<open>A block that overlaps nothing in a split: next to the others when it fits, and otherwise the split grows.\<close>

definition place_in_slot :: "block \<Rightarrow> bool \<Rightarrow> alloc_node list \<Rightarrow> alloc_node list result" where
  "place_in_slot block is_last ns =
     (let slot_size = size_hint (TemporalSplit ns); block_size = b_hint block
      in rbind (mark_allocated block) (\<lambda>block'.
         let kept = (case ns of [EmptySpace _] \<Rightarrow> [] | _ \<Rightarrow> ns)
         in if slot_size = block_size then Inr (kept @ [Allocation block'])
            else if block_size < slot_size then rbind (spatial_create (Allocation block') (slot_size - block_size)) (\<lambda>s. Inr (kept @ [s]))
            else if \<not> is_last then Inl AssertionError
            else rbind (traverse (\<lambda>a. spatial_create a (block_size - slot_size)) kept) (\<lambda>as. Inr (as @ [Allocation block']))))"

text \<open>The result is the changed node, or None when no place is found.\<close>

function (sequential) allocate :: "block \<Rightarrow> bool \<Rightarrow> alloc_node \<Rightarrow> alloc_node option result" where
  "allocate block is_last (Allocation b) = Inr None"
| "allocate block is_last (EmptySpace n) = Inr None"
| "allocate block is_last (TemporalSplit ns) =
     (if \<not> is_last \<and> size_hint (TemporalSplit ns) < b_hint block then Inr None
      else case filter (\<lambda>s. live_ranges_overlap (node_ranges s) (live_ranges [b_live block])) ns of
          [] \<Rightarrow> rbind (place_in_slot block is_last ns) (\<lambda>ns'. Inr (Some (TemporalSplit ns')))
        | [s] \<Rightarrow> rbind (allocate block is_last s) (\<lambda>r. Inr (map_option (\<lambda>s'.
              TemporalSplit (map (\<lambda>x. if live_ranges_overlap (node_ranges x) (live_ranges [b_live block]) then s' else x) ns)) r))
        | _ \<Rightarrow> Inr None)"
| "allocate block is_last (SpatialSplit left right) =
     rbind (allocate block False left) (\<lambda>r.
       case r of
         Some left' \<Rightarrow> Inr (Some (SpatialSplit left' right))
       | None \<Rightarrow> rbind (allocate block is_last right) (\<lambda>r. Inr (map_option (SpatialSplit left) r)))"
  by pat_completeness auto
termination
proof (relation "measure (\<lambda>(b, l, n). size n)", goal_cases)
  case (2 block is_last ns x rest)
  have "x \<in> set (filter (\<lambda>s. live_ranges_overlap (node_ranges s) (live_ranges [b_live block])) ns)" unfolding 2(2) by simp
  then have "x \<in> set ns" by simp
  then show ?case using size_list_estimation'[of x ns "size x" size] by simp
qed auto

text \<open>Offsets are given once all blocks have their place. A split of which only one part is used is replaced by that part.\<close>

type_synonym memory_places = "nat \<Rightarrow> (nat \<times> int) option"

function (sequential) finalize :: "nat \<Rightarrow> int \<Rightarrow> alloc_node \<Rightarrow> memory_places \<Rightarrow> (alloc_node \<times> memory_places) result"
  and finalize_all :: "nat \<Rightarrow> int \<Rightarrow> alloc_node list \<Rightarrow> memory_places \<Rightarrow> (alloc_node list \<times> memory_places) result" where
  "finalize pool offset (Allocation b) m = (if m (b_id b) \<noteq> None then Inl AssertionError else Inr (Allocation b, m(b_id b \<mapsto> (pool, offset))))"
| "finalize pool offset (EmptySpace n) m = Inr (EmptySpace n, m)"
| "finalize pool offset (TemporalSplit ns) m =
     rbind (finalize_all pool offset ns m) (\<lambda>(ns', m'). Inr (case ns' of [n] \<Rightarrow> n | _ \<Rightarrow> TemporalSplit ns', m'))"
| "finalize pool offset (SpatialSplit left right) m =
     rbind (finalize pool offset left m) (\<lambda>(left', m1).
     rbind (finalize pool (offset + align_bytes (runtime_size left')) right m1) (\<lambda>(right', m2).
       Inr (if node_is_empty right' then left' else SpatialSplit left' right', m2)))"
| "finalize_all pool offset [] m = Inr ([], m)"
| "finalize_all pool offset (n # ns) m =
     rbind (finalize pool offset n m) (\<lambda>(n', m1). rbind (finalize_all pool offset ns m1) (\<lambda>(ns', m2). Inr (n' # ns', m2)))"
  by pat_completeness auto
termination
  by (relation "measure (case_sum (\<lambda>(p, o', n, m). size n) (\<lambda>(p, o', ns, m). size_list size ns))") auto

subsection \<open>Pools\<close>

text \<open>A pool with late blocks only takes blocks that begin no earlier; its restriction ends at infinity.\<close>

record pool =
  p_device :: string
  p_root :: alloc_node
  p_can_expand :: bool
  p_restrict :: "int option"
  p_name :: "nat option"

definition earliest_available :: "block \<Rightarrow> int option" where
  "earliest_available b = (if b_unbacked b then Some (lr_begin (b_live b)) else None)"

definition update_restrict :: "block \<Rightarrow> int option \<Rightarrow> int option" where
  "update_restrict b restrict =
     (case earliest_available b of
        None \<Rightarrow> restrict
      | Some e \<Rightarrow> if e = 0 then restrict else Some (case restrict of None \<Rightarrow> e | Some r \<Rightarrow> min r e))"

definition new_pool :: "string \<Rightarrow> block \<Rightarrow> bool \<Rightarrow> pool" where
  "new_pool device b can_expand =
     \<lparr>p_device = device, p_root = TemporalSplit [Allocation b], p_can_expand = can_expand, p_restrict = update_restrict b None, p_name = None\<rparr>"

definition allocate_at_end :: "block \<Rightarrow> pool \<Rightarrow> pool result" where
  "allocate_at_end b p =
     rbind (mark_allocated b) (\<lambda>b'.
       Inr (p\<lparr>p_root := TemporalSplit [SpatialSplit (p_root p) (TemporalSplit [Allocation b'])], p_restrict := update_restrict b' (p_restrict p)\<rparr>))"

definition pool_allocate :: "block \<Rightarrow> bool \<Rightarrow> pool \<Rightarrow> pool option result" where
  "pool_allocate b is_last p =
     (if (case p_restrict p of None \<Rightarrow> False | Some r \<Rightarrow> lr_begin (b_live b) < r) then Inr None
      else rbind (ranges_begin (node_ranges (p_root p))) (\<lambda>pool_begin.
        if (case earliest_available b of None \<Rightarrow> False | Some e \<Rightarrow> e \<noteq> 0 \<and> pool_begin < e) then Inr None
        else let last' = (p_can_expand p \<and> is_last)
             in rbind (allocate b last' (p_root p)) (\<lambda>r.
                  case r of
                    Some root \<Rightarrow> Inr (Some (p\<lparr>p_root := root, p_restrict := update_restrict b (p_restrict p)\<rparr>))
                  | None \<Rightarrow> if last' then rbind (allocate_at_end b p) (\<lambda>p'. Inr (Some p')) else Inr None)))"

text \<open>Pools by device, in the order in which they were made.\<close>

type_synonym pools = "(string \<times> pool list) list"

definition get_pools :: "string \<Rightarrow> pools \<Rightarrow> pool list" where
  "get_pools device ps = (case map_of ps device of None \<Rightarrow> [] | Some xs \<Rightarrow> xs)"

definition set_pools :: "string \<Rightarrow> pool list \<Rightarrow> pools \<Rightarrow> pools" where
  "set_pools device xs ps =
     (if map_of ps device = None then ps @ [(device, xs)] else map (\<lambda>(d, ys). if d = device then (d, xs) else (d, ys)) ps)"

fun try_pools :: "block \<Rightarrow> pool list \<Rightarrow> pool list option result" where
  "try_pools b [] = Inr None"
| "try_pools b (p # ps) =
     rbind (pool_allocate b (ps = []) p) (\<lambda>r.
       case r of
         Some p' \<Rightarrow> Inr (Some (p' # ps))
       | None \<Rightarrow> rbind (try_pools b ps) (\<lambda>r. Inr (map_option (Cons p) r)))"

definition pools_allocate :: "string \<Rightarrow> pools \<Rightarrow> block \<Rightarrow> pools result" where
  "pools_allocate memory_pool ps b =
     (let xs = get_pools (b_device b) ps
      in rbind (try_pools b xs) (\<lambda>r.
           case r of
             Some xs' \<Rightarrow> Inr (set_pools (b_device b) xs' ps)
           | None \<Rightarrow> rbind (mark_allocated b) (\<lambda>b'.
               Inr (set_pools (b_device b) (xs @ [new_pool (b_device b) b' (memory_pool \<noteq> ''none'')]) ps))))"

definition allocate_output :: "string \<Rightarrow> pools \<Rightarrow> block \<Rightarrow> pools result" where
  "allocate_output memory_pool ps b =
     (let xs = get_pools (b_device b) ps
      in if xs \<noteq> [] \<and> (memory_pool = ''outputs'' \<or> memory_pool = ''combined'')
         then rbind (allocate_at_end b (last xs)) (\<lambda>p. Inr (set_pools (b_device b) (butlast xs @ [p]) ps))
         else rbind (mark_allocated b) (\<lambda>b'.
                Inr (set_pools (b_device b) (xs @ [new_pool (b_device b) b' (memory_pool = ''combined'')]) ps)))"

definition pool_finalize :: "nat \<Rightarrow> pool \<Rightarrow> memory_places \<Rightarrow> (pool \<times> memory_places) result" where
  "pool_finalize name p m =
     (if p_name p \<noteq> None then Inl AssertionError
      else case p_root p of
          TemporalSplit ns \<Rightarrow> rbind (finalize_all name 0 ns m) (\<lambda>(ns', m'). Inr (p\<lparr>p_name := Some name, p_root := TemporalSplit ns'\<rparr>, m'))
        | root \<Rightarrow> rbind (finalize name 0 root m) (\<lambda>(root', m'). Inr (p\<lparr>p_name := Some name, p_root := root'\<rparr>, m')))"

fun finalize_pools :: "nat \<Rightarrow> pool list \<Rightarrow> memory_places \<Rightarrow> (pool list \<times> memory_places) result" where
  "finalize_pools i [] m = Inr ([], m)"
| "finalize_pools i (p # ps) m =
     rbind (pool_finalize i p m) (\<lambda>(p', m1). rbind (finalize_pools (Suc i) ps m1) (\<lambda>(ps', m2). Inr (p' # ps', m2)))"

definition pools_finalize :: "pools \<Rightarrow> (pool list \<times> memory_places) result" where
  "pools_finalize ps = finalize_pools 0 (concat (map snd ps)) Map.empty"

subsection \<open>The lines of a program\<close>

datatype plan_line =
    AllocateLine string
  | FreeIfNotReusedLine string bool
  | ReuseLine string string
  | ReinterpretLine string string
  | NullLine
  | AllocFromPoolLine nat int bool
  | DeallocFromPoolLine nat int bool
  | ProgramLine

fun is_planning_line :: "plan_line \<Rightarrow> bool" where
  "is_planning_line ProgramLine = False"
| "is_planning_line _ = True"

record buffer_group =
  bg_node :: string
  bg_names :: "string list"
  bg_output :: bool
  bg_live :: "live_range option"

text \<open>What the planner reads of the program: removed buffers, outputs, and of every buffer its device and sizes.\<close>

record plan_env =
  pe_removed :: "string \<Rightarrow> bool"
  pe_output :: "string \<Rightarrow> bool"
  pe_device :: "string \<Rightarrow> string"
  pe_nbytes :: "string \<Rightarrow> int"
  pe_hint :: "string \<Rightarrow> int"
  pe_unbacked :: "string \<Rightarrow> bool"
  pe_memory_pool :: string

fun line_node :: "plan_line \<Rightarrow> string option" where
  "line_node (AllocateLine n) = Some n"
| "line_node (FreeIfNotReusedLine n r) = Some n"
| "line_node (ReuseLine n n') = Some n"
| "line_node _ = None"

definition drop_removed_buffers :: "plan_env \<Rightarrow> plan_line list \<Rightarrow> plan_line list" where
  "drop_removed_buffers env = map (\<lambda>l. case line_node l of None \<Rightarrow> l | Some n \<Rightarrow> if pe_removed env n then NullLine else l)"

type_synonym name_groups = "(string \<Rightarrow> nat option) \<times> buffer_group list"

definition note_line :: "name_groups \<Rightarrow> plan_line \<Rightarrow> name_groups result" where
  "note_line ng l =
     (case l of
        AllocateLine n \<Rightarrow>
          if fst ng n \<noteq> None then Inl AssertionError
          else Inr ((fst ng)(n \<mapsto> length (snd ng)), snd ng @ [\<lparr>bg_node = n, bg_names = [n], bg_output = False, bg_live = None\<rparr>])
      | ReuseLine old new \<Rightarrow>
          if fst ng new \<noteq> None then Inl AssertionError
          else (case fst ng old of
                  None \<Rightarrow> Inr ng
                | Some i \<Rightarrow> Inr ((fst ng)(new \<mapsto> i), (snd ng)[i := (snd ng ! i)\<lparr>bg_names := bg_names (snd ng ! i) @ [new]\<rparr>]))
      | _ \<Rightarrow> Inr ng)"

definition compute_buffer_groups :: "plan_env \<Rightarrow> plan_line list \<Rightarrow> name_groups result" where
  "compute_buffer_groups env lines =
     rbind (foldM note_line (Map.empty, []) lines) (\<lambda>(names, groups).
       Inr (names, map (\<lambda>g. g\<lparr>bg_output := list_ex (pe_output env) (bg_names g)\<rparr>) groups))"

text \<open>Lines of buffers that no group knows are left as they are. The step is filled in later.\<close>

definition convert_line :: "(string \<Rightarrow> nat option) \<Rightarrow> plan_line \<Rightarrow> plan_line result" where
  "convert_line names l =
     (case l of
        AllocateLine n \<Rightarrow> Inr (case names n of None \<Rightarrow> l | Some i \<Rightarrow> AllocFromPoolLine i 0 False)
      | FreeIfNotReusedLine n is_reused \<Rightarrow>
          if is_reused then Inl AssertionError else Inr (case names n of None \<Rightarrow> l | Some i \<Rightarrow> DeallocFromPoolLine i 0 False)
      | _ \<Rightarrow> Inr l)"

definition convert_to_pool_lines :: "plan_env \<Rightarrow> plan_line list \<Rightarrow> (plan_line list \<times> buffer_group list) result" where
  "convert_to_pool_lines env lines =
     rbind (compute_buffer_groups env lines) (\<lambda>(names, groups).
     rbind (traverse (convert_line names) lines) (\<lambda>lines'. Inr (lines', groups)))"

definition update_usage :: "int \<Rightarrow> buffer_group \<Rightarrow> buffer_group" where
  "update_usage t g =
     g\<lparr>bg_live := Some (case bg_live g of None \<Rightarrow> \<lparr>lr_begin = t, lr_end = t\<rparr>
                       | Some r \<Rightarrow> \<lparr>lr_begin = min t (lr_begin r), lr_end = max t (lr_end r)\<rparr>)\<rparr>"

text \<open>Planning lines that follow each other are one step; \<open>in_run\<close> says that the line before was one.\<close>

definition stamp_line :: "int \<Rightarrow> plan_line \<Rightarrow> buffer_group list \<Rightarrow> plan_line \<times> buffer_group list" where
  "stamp_line t l gs =
     (case l of
        AllocFromPoolLine i _ b \<Rightarrow> (AllocFromPoolLine i t b, gs[i := update_usage t (gs ! i)])
      | DeallocFromPoolLine i _ b \<Rightarrow> (DeallocFromPoolLine i t b, gs[i := update_usage t (gs ! i)])
      | _ \<Rightarrow> (l, gs))"

fun stamp_lines :: "int \<Rightarrow> bool \<Rightarrow> plan_line list \<Rightarrow> buffer_group list \<Rightarrow> int \<times> plan_line list \<times> buffer_group list" where
  "stamp_lines t in_run [] gs = (t, [], gs)"
| "stamp_lines t in_run (l # ls) gs =
     (if \<not> is_planning_line l
      then let (t', ls', gs') = stamp_lines t False ls gs in (t', l # ls', gs')
      else let now = (if in_run then t else t + 1);
               (l', gs1) = stamp_line now l gs;
               (t', ls', gs') = stamp_lines now True ls gs1
           in (t', l' # ls', gs'))"

definition compute_live_ranges :: "plan_line list \<Rightarrow> buffer_group list \<Rightarrow> plan_line list \<times> buffer_group list" where
  "compute_live_ranges lines groups =
     (let (t, lines', gs) = stamp_lines 0 False lines groups
      in (lines', map (\<lambda>g. if bg_output g then update_usage (t + 1) g else g) gs))"

definition make_allocation :: "plan_env \<Rightarrow> nat \<times> buffer_group \<Rightarrow> block result" where
  "make_allocation env ig =
     (let n = bg_node (snd ig)
      in case bg_live (snd ig) of
           None \<Rightarrow> Inl AssertionError
         | Some r \<Rightarrow> Inr \<lparr>b_id = fst ig, b_device = pe_device env n, b_live = r, b_hint = pe_hint env n, b_size = pe_nbytes env n,
                           b_unbacked = pe_unbacked env n, b_allocated = False\<rparr>)"

definition split_outputs :: "plan_env \<Rightarrow> buffer_group list \<Rightarrow> block list \<Rightarrow> block list \<times> block list" where
  "split_outputs env groups blocks =
     (let sep = (\<lambda>b. bg_output (groups ! b_id b) \<and> pe_memory_pool env \<noteq> ''combined'')
      in (filter sep blocks, filter (\<lambda>b. \<not> sep b) blocks))"

definition allocate_groups :: "plan_env \<Rightarrow> buffer_group list \<Rightarrow> (pool list \<times> memory_places) result" where
  "allocate_groups env groups =
     (if pe_memory_pool env \<notin> {''none'', ''intermediates'', ''outputs'', ''combined''} then Inl AssertionError
      else rbind (traverse (make_allocation env) (enumerate 0 groups)) (\<lambda>blocks.
           let (outputs, intermediates) = split_outputs env groups blocks
           in rbind (foldM (allocate_output (pe_memory_pool env)) [] (sort_key (\<lambda>b. (b_hint b, - range_len (b_live b))) outputs)) (\<lambda>ps.
              rbind (foldM (pools_allocate (pe_memory_pool env)) ps (sort_key (\<lambda>b. (- b_hint b, - range_len (b_live b))) intermediates)) (\<lambda>ps'.
              pools_finalize ps'))))"

definition pool_of :: "memory_places \<Rightarrow> nat \<Rightarrow> nat result" where
  "pool_of m i = (case m i of None \<Rightarrow> Inl AssertionError | Some po \<Rightarrow> Inr (fst po))"

fun mark_first :: "memory_places \<Rightarrow> nat list \<Rightarrow> plan_line list \<Rightarrow> plan_line list result" where
  "mark_first m seen [] = Inr []"
| "mark_first m seen (AllocFromPoolLine i t b # ls) =
     rbind (pool_of m i) (\<lambda>p.
       if p \<in> set seen then rbind (mark_first m seen ls) (\<lambda>ls'. Inr (AllocFromPoolLine i t b # ls'))
       else rbind (mark_first m (p # seen) ls) (\<lambda>ls'. Inr (AllocFromPoolLine i t True # ls')))"
| "mark_first m seen (l # ls) = rbind (mark_first m seen ls) (\<lambda>ls'. Inr (l # ls'))"

text \<open>The lines from the end, in reverse order.\<close>

fun mark_last :: "pool list \<Rightarrow> memory_places \<Rightarrow> nat list \<Rightarrow> plan_line list \<Rightarrow> plan_line list result" where
  "mark_last ps m seen [] = Inr []"
| "mark_last ps m seen (DeallocFromPoolLine i t b # ls) =
     rbind (pool_of m i) (\<lambda>p.
       if p \<in> set seen then rbind (mark_last ps m seen ls) (\<lambda>ls'. Inr (DeallocFromPoolLine i t b # ls'))
       else rbind (ranges_end (node_ranges (p_root (ps ! p)))) (\<lambda>e.
            rbind (mark_last ps m (p # seen) ls) (\<lambda>ls'. Inr (DeallocFromPoolLine i t (e \<le> t) # ls'))))"
| "mark_last ps m seen (l # ls) = rbind (mark_last ps m seen ls) (\<lambda>ls'. Inr (l # ls'))"

definition mark_first_last_usage :: "pool list \<Rightarrow> memory_places \<Rightarrow> plan_line list \<Rightarrow> plan_line list result" where
  "mark_first_last_usage ps m lines =
     rbind (mark_first m [] lines) (\<lambda>ls1. rbind (mark_last ps m [] (rev ls1)) (\<lambda>ls2. Inr (rev ls2)))"

text \<open>All passes: the lines, the groups, the pools and where each group lies.\<close>

record memory_plan =
  mp_lines :: "plan_line list"
  mp_groups :: "buffer_group list"
  mp_pools :: "pool list"
  mp_place :: memory_places

definition plan_memory :: "plan_env \<Rightarrow> plan_line list \<Rightarrow> memory_plan result" where
  "plan_memory env lines =
     rbind (convert_to_pool_lines env (drop_removed_buffers env lines)) (\<lambda>(lines1, groups).
       let (lines2, groups') = compute_live_ranges lines1 groups
       in rbind (allocate_groups env groups') (\<lambda>(ps, m).
          rbind (mark_first_last_usage ps m lines2) (\<lambda>lines3.
            Inr \<lparr>mp_lines = lines3, mp_groups = groups', mp_pools = ps, mp_place = m\<rparr>)))"

end
