(* ===== verification/MemoryPools.thy ===== *)
theory MemoryPools
  imports MemoryPlan
begin

text \<open>
  What the trees and pools of the memory planner promise. The live ranges of a tree are those of its blocks; an allocation adds its block and keeps blocks that
  are live at the same time in different places; the final offsets put all blocks inside the pool. The locale \<open>block_allocator\<close> is the
  contract that the two ways of allocating share.
\<close>

subsection \<open>Points of live ranges\<close>

definition points :: "live_range list \<Rightarrow> int set" where
  "points rs = {t. \<exists>r \<in> set rs. lr_begin r \<le> t \<and> t < lr_end r}"

definition range_ok :: "live_range \<Rightarrow> bool" where
  "range_ok r \<longleftrightarrow> lr_begin r \<le> lr_end r"

text \<open>Sorted, with a gap between neighbours.\<close>

definition separated :: "live_range list \<Rightarrow> bool" where
  "separated rs \<longleftrightarrow> sorted_wrt (\<lambda>a b. lr_end a < lr_begin b) rs \<and> (\<forall>r \<in> set rs. range_ok r)"

lemma points_simps [simp]:
  "points [] = {}" "points (r # rs) = {lr_begin r..<lr_end r} \<union> points rs" "points (rs @ rs') = points rs \<union> points rs'"
  by (auto simp: points_def)

lemma points_set: "set rs = set rs' \<Longrightarrow> points rs = points rs'"
  by (simp add: points_def)

lemma merge_ranges_points:
  assumes "range_ok cur" and "\<forall>r \<in> set rs. range_ok r" and "sorted (map lr_begin (cur # rs))"
  shows "points (merge_ranges cur rs) = points (cur # rs) \<and> separated (merge_ranges cur rs) \<and> (\<forall>r \<in> set (merge_ranges cur rs). lr_begin cur \<le> lr_begin r)"
  using assms
proof (induction cur rs rule: merge_ranges.induct)
  case (1 cur)
  then show ?case by (simp add: separated_def)
next
  case (2 cur r rs)
  show ?case
  proof (cases "lr_begin r \<le> lr_end cur")
    case True
    have ok: "range_ok (range_join cur r)" "\<forall>r \<in> set rs. range_ok r" "sorted (map lr_begin (range_join cur r # rs))"
      using 2 by (auto simp: range_ok_def range_join_def)
    have "points [range_join cur r] = points [cur, r]" using True 2 by (auto simp: range_join_def range_ok_def)
    then have p: "points (range_join cur r # rs) = points (cur # r # rs)" by (simp add: Un_assoc)
    show ?thesis using 2(1)[OF True ok] True 2(5) p by (auto simp: range_join_def)
  next
    case False
    have ok: "range_ok r" "\<forall>r \<in> set rs. range_ok r" "sorted (map lr_begin (r # rs))" using 2 by auto
    note IH = 2(2)[OF False ok]
    have "\<forall>x \<in> set (merge_ranges r rs). lr_end cur < lr_begin x" using IH False by auto
    then show ?thesis using IH False 2(3,5) by (auto simp: separated_def range_ok_def)
  qed
qed

lemma live_ranges_points:
  assumes "\<forall>r \<in> set rs. range_ok r"
  shows "points (live_ranges rs) = points rs" and "separated (live_ranges rs)"
proof -
  have s: "set (sort_key lr_begin rs) = set rs" "sorted (map lr_begin (sort_key lr_begin rs))" by simp_all
  have "points (live_ranges rs) = points (sort_key lr_begin rs) \<and> separated (live_ranges rs)"
  proof (cases "sort_key lr_begin rs")
    case Nil
    then show ?thesis by (simp add: live_ranges_def separated_def)
  next
    case (Cons r rest)
    then have "range_ok r" "\<forall>x \<in> set rest. range_ok x" using s(1) assms by auto
    then show ?thesis using merge_ranges_points[of r rest] s(2) by (simp add: live_ranges_def Cons)
  qed
  then show "points (live_ranges rs) = points rs" "separated (live_ranges rs)" using points_set[OF s(1)] by auto
qed

lemma live_ranges_Nil: "live_ranges rs = [] \<longleftrightarrow> rs = []"
proof -
  have m: "merge_ranges r rest \<noteq> []" for r rest by (induction r rest rule: merge_ranges.induct) auto
  have "length (sort_key lr_begin rs) = length rs" by simp
  then show ?thesis using m by (cases "sort_key lr_begin rs") (auto simp: live_ranges_def)
qed

lemma separated_later: "separated (r # rs) \<Longrightarrow> t \<in> points rs \<Longrightarrow> lr_end r < t"
  by (fastforce simp: separated_def points_def)

text \<open>Ranges that share a point are found to overlap.\<close>

lemma overlap_sound:
  assumes "separated left" and "separated right" and "t \<in> points left" and "t \<in> points right"
  shows "live_overlap_loop left right"
  using assms
proof (induction left right rule: live_overlap_loop.induct)
  case (1 l left r right)
  have s: "separated left" "separated right" using 1(3,4) by (auto simp: separated_def)
  show ?case
  proof (cases "lr_begin r < lr_begin l")
    case True
    show ?thesis
    proof (rule ccontr)
      assume n: "\<not> ?thesis"
      then have e: "lr_end r \<le> lr_begin l" "\<not> live_overlap_loop right (l # left)" using True by auto
      have "lr_begin l \<le> t" using 1(5) separated_later[OF 1(3), of t] 1(3) by (auto simp: separated_def range_ok_def)
      then have "t \<in> points right" using 1(6) e(1) by auto
      then show False using 1(1)[OF True s(2) 1(3) _ 1(5)] e by auto
    qed
  next
    case False
    show ?thesis
    proof (rule ccontr)
      assume n: "\<not> ?thesis"
      then have e: "lr_end l \<le> lr_begin r" "\<not> live_overlap_loop left (r # right)" using False by auto
      have "lr_begin r \<le> t" using 1(6) separated_later[OF 1(4), of t] 1(4) by (auto simp: separated_def range_ok_def)
      then have "t \<in> points left" using 1(5) e(1) by auto
      then show False using 1(2)[OF False s(1) 1(4) _ 1(6)] e by auto
    qed
  qed
qed auto

lemma align_bytes_eq: "align_bytes n = 64 * ((n + 63) div 64)"
proof -
  have "(- 64 :: int) = NOT (mask 6)" using minus_exp_eq_not_mask[of 6, where 'a = int] by simp
  moreover have "a AND NOT (mask 6) = push_bit 6 (drop_bit 6 a)" for a :: int by (rule bit_eqI) (auto simp: bit_simps)
  ultimately show ?thesis by (simp add: align_bytes_def push_bit_eq_mult drop_bit_eq_div)
qed

lemma align_bytes_ge: "n \<le> align_bytes n" "0 \<le> n \<Longrightarrow> 0 \<le> align_bytes n"
  by (simp_all add: align_bytes_eq)

subsection \<open>Splits keep live blocks apart\<close>

fun node_blocks :: "alloc_node \<Rightarrow> block list" where
  "node_blocks (Allocation b) = [b]"
| "node_blocks (EmptySpace n) = []"
| "node_blocks (TemporalSplit ns) = concat (map node_blocks ns)"
| "node_blocks (SpatialSplit left right) = node_blocks left @ node_blocks right"

text \<open>The blocks below different members of a temporal split are never live together.\<close>

fun kept_apart :: "alloc_node \<Rightarrow> bool" where
  "kept_apart (TemporalSplit ns) \<longleftrightarrow>
     (\<forall>n \<in> set ns. kept_apart n) \<and> sorted_wrt (\<lambda>a b. points (map b_live (node_blocks a)) \<inter> points (map b_live (node_blocks b)) = {}) ns"
| "kept_apart (SpatialSplit left right) \<longleftrightarrow> kept_apart left \<and> kept_apart right"
| "kept_apart _ = True"

definition blocks_ok :: "block list \<Rightarrow> bool" where
  "blocks_ok bs \<longleftrightarrow> (\<forall>b \<in> set bs. range_ok (b_live b))"

lemma separated_ok: "separated rs \<Longrightarrow> r \<in> set rs \<Longrightarrow> range_ok r"
  by (simp add: separated_def)

lemma points_concat: "points (concat xs) = (\<Union>x \<in> set xs. points x)"
  by (induction xs) auto

lemma node_ranges_points:
  assumes "blocks_ok (node_blocks n)"
  shows "points (node_ranges n) = points (map b_live (node_blocks n)) \<and> separated (node_ranges n)"
  using assms
proof (induction n)
  case (Allocation b)
  then show ?case using live_ranges_points[of "[b_live b]"] by (simp add: blocks_ok_def)
next
  case (EmptySpace n)
  then show ?case using live_ranges_points[of "[]"] by simp
next
  case (TemporalSplit ns)
  have IH: "points (node_ranges n) = points (map b_live (node_blocks n))" "separated (node_ranges n)" if "n \<in> set ns" for n
    using that TemporalSplit.IH[OF that] TemporalSplit.prems by (auto simp: blocks_ok_def)
  have ok: "\<forall>r \<in> set (concat (map node_ranges ns)). range_ok r" using IH(2) separated_ok by fastforce
  have "points (concat (map node_ranges ns)) = points (map b_live (concat (map node_blocks ns)))"
    using IH(1) by (simp add: points_concat map_concat)
  then show ?case using live_ranges_points[OF ok] by simp
next
  case (SpatialSplit l r)
  then have IH: "points (node_ranges l) = points (map b_live (node_blocks l))" "separated (node_ranges l)"
    "points (node_ranges r) = points (map b_live (node_blocks r))" "separated (node_ranges r)" by (auto simp: blocks_ok_def)
  have ok: "\<forall>x \<in> set (node_ranges l @ node_ranges r). range_ok x" using IH(2,4) separated_ok by auto
  then show ?case using live_ranges_points[OF ok] IH by simp
qed

lemma no_overlap_points:
  assumes "blocks_ok (node_blocks n)" and "range_ok (b_live b)" and "\<not> live_ranges_overlap (node_ranges n) (live_ranges [b_live b])"
  shows "points (map b_live (node_blocks n)) \<inter> points [b_live b] = {}"
proof -
  have b: "points (live_ranges [b_live b]) = points [b_live b]" "separated (live_ranges [b_live b])" using live_ranges_points[of "[b_live b]"] assms(2) by auto
  note n = node_ranges_points[OF assms(1)]
  have "t \<in> points (node_ranges n) \<Longrightarrow> t \<notin> points (live_ranges [b_live b])" for t
    using overlap_sound[of "node_ranges n" "live_ranges [b_live b]" t] n b(2) assms(3) by (auto simp: live_ranges_overlap_def)
  then show ?thesis using n b(1) by blast
qed

text \<open>What \<open>allocate\<close> does to a node: it adds the block, and the blocks stay apart.\<close>

abbreviation marked :: "block \<Rightarrow> block" where "marked b \<equiv> b\<lparr>b_allocated := True\<rparr>"

lemma spatial_create_leaves:
  "1 \<le> k \<Longrightarrow> spatial_create n k = Inr (SpatialSplit (TemporalSplit [n]) (TemporalSplit [EmptySpace k]))"
  by (simp add: spatial_create_def)

lemma place_in_slot_ok:
  assumes "\<not> b_allocated b" and fits: "is_last \<or> b_hint b \<le> size_hint (TemporalSplit ns)" and apart: "kept_apart (TemporalSplit ns)"
    and ok: "blocks_ok (node_blocks (TemporalSplit ns))" "range_ok (b_live b)"
    and none: "\<And>n. n \<in> set ns \<Longrightarrow> \<not> live_ranges_overlap (node_ranges n) (live_ranges [b_live b])"
  shows "\<exists>ns'. place_in_slot b is_last ns = Inr ns' \<and> kept_apart (TemporalSplit ns') \<and> mset (node_blocks (TemporalSplit ns')) = add_mset (marked b) (mset (node_blocks (TemporalSplit ns)))"
proof -
  define kept where "kept = (case ns of [EmptySpace _] \<Rightarrow> [] | _ \<Rightarrow> ns)"
  have "kept = ns \<or> (\<exists>k. ns = [EmptySpace k] \<and> kept = [])" by (auto simp: kept_def split: list.splits alloc_node.splits)
  then have k: "kept_apart (TemporalSplit kept)" "concat (map node_blocks kept) = concat (map node_blocks ns)" "set kept \<subseteq> set ns"
    using apart by auto
  have dis: "points (map b_live (node_blocks n)) \<inter> points [b_live b] = {}" if "n \<in> set ns" for n
    using no_overlap_points[OF _ ok(2) none[OF that]] ok(1) that by (auto simp: blocks_ok_def)
  have add: "kept_apart (TemporalSplit (map f kept @ [m]))"
    if "kept_apart m" "map b_live (node_blocks m) = [b_live b]" "\<And>n. kept_apart (f n) = kept_apart n" "\<And>n. node_blocks (f n) = node_blocks n" for m f
    using k(1,3) dis that by (auto simp: sorted_wrt_append sorted_wrt_map)
  have lv: "mset (node_blocks (TemporalSplit (map f kept @ [m]))) = add_mset (marked b) (mset (node_blocks (TemporalSplit ns)))"
    if "node_blocks m = [marked b]" "\<And>n. node_blocks (f n) = node_blocks n" for m f
    using k(2) that by (simp add: comp_def)
  let ?slot = "size_hint (TemporalSplit ns)"
  consider "?slot = b_hint b" | "b_hint b < ?slot" | "?slot < b_hint b" "is_last" using fits by linarith
  then show ?thesis
  proof cases
    case 1
    then have "place_in_slot b is_last ns = Inr (kept @ [Allocation (marked b)])"
      using assms(1) by (simp add: place_in_slot_def mark_allocated_def kept_def Let_def)
    then show ?thesis using add[of "Allocation (marked b)" id] lv[of "Allocation (marked b)" id] by simp
  next
    case 2
    let ?m = "SpatialSplit (TemporalSplit [Allocation (marked b)]) (TemporalSplit [EmptySpace (?slot - b_hint b)])"
    have "place_in_slot b is_last ns = Inr (kept @ [?m])"
      using assms(1) 2 by (simp add: place_in_slot_def mark_allocated_def spatial_create_leaves kept_def Let_def del: size_hint.simps)
    then show ?thesis using add[of ?m id] lv[of ?m id] by simp
  next
    case 3
    let ?f = "\<lambda>a. SpatialSplit (TemporalSplit [a]) (TemporalSplit [EmptySpace (b_hint b - ?slot)])"
    have "traverse (\<lambda>a. spatial_create a (b_hint b - ?slot)) kept = Inr (map ?f kept)"
      using 3 by (intro traverse_total) (simp add: spatial_create_leaves)
    then have "place_in_slot b is_last ns = Inr (map ?f kept @ [Allocation (marked b)])"
      using assms(1) 3 by (simp add: place_in_slot_def mark_allocated_def kept_def Let_def del: size_hint.simps)
    then show ?thesis using add[of "Allocation (marked b)" ?f] lv[of "Allocation (marked b)" ?f] by simp
  qed
qed

lemma allocate_ok:
  assumes "\<not> b_allocated b" and "kept_apart n" and "blocks_ok (node_blocks n)" and "range_ok (b_live b)"
  shows "\<exists>r. allocate b is_last n = Inr r \<and> (case r of None \<Rightarrow> True | Some n' \<Rightarrow> kept_apart n' \<and> mset (node_blocks n') = add_mset (marked b) (mset (node_blocks n)))"
  using assms
proof (induction b is_last n rule: allocate.induct)
  case (3 b is_last ns)
  let ?P = "\<lambda>s. live_ranges_overlap (node_ranges s) (live_ranges [b_live b])"
  show ?case
  proof (cases "\<not> is_last \<and> size_hint (TemporalSplit ns) < b_hint b")
    case True
    then show ?thesis by (simp del: size_hint.simps)
  next
    case fits: False
    consider "filter ?P ns = []" | s where "filter ?P ns = [s]" | s s' rest where "filter ?P ns = s # s' # rest"
      by (metis list.exhaust)
    then show ?thesis
    proof cases
      case 1
      then have "\<And>n. n \<in> set ns \<Longrightarrow> \<not> ?P n" by (simp add: filter_empty_conv)
      then obtain ns' where "place_in_slot b is_last ns = Inr ns'" "kept_apart (TemporalSplit ns')"
        "mset (node_blocks (TemporalSplit ns')) = add_mset (marked b) (mset (node_blocks (TemporalSplit ns)))"
        using place_in_slot_ok[of b is_last ns] 3(2-5) fits by fastforce
      then show ?thesis using 1 fits by (simp del: size_hint.simps)
    next
      case (2 s)
      have s: "s \<in> set ns" using arg_cong[OF 2, of set] by auto
      obtain r where r: "allocate b is_last s = Inr r" and rs: "case r of None \<Rightarrow> True | Some n' \<Rightarrow> kept_apart n' \<and> mset (node_blocks n') = add_mset (marked b) (mset (node_blocks s))"
        using 3(1)[OF fits 2] 3(2-5) s by (auto simp: blocks_ok_def)
      show ?thesis
      proof (cases r)
        case None
        then show ?thesis using 2 fits r by (simp del: size_hint.simps)
      next
        case (Some s')
        obtain xs ys where ns: "ns = xs @ s # ys" and nP: "\<forall>x \<in> set xs. \<not> ?P x" "\<forall>y \<in> set ys. \<not> ?P y" "?P s"
          using filter_eq_ConsD[OF 2] by (auto simp: filter_empty_conv eq_commute[of "[]"])
        have m: "map (\<lambda>x. if ?P x then s' else x) ns = xs @ s' # ys" using nP by (simp add: ns map_idI)
        have dis: "points (map b_live (node_blocks x)) \<inter> points [b_live b] = {}" if "x \<in> set xs \<union> set ys" for x
        proof (rule no_overlap_points)
          show "blocks_ok (node_blocks x)" using 3(4) that by (auto simp: blocks_ok_def ns)
          show "\<not> ?P x" using nP that by blast
        qed (rule 3(5))
        have ls: "points (map b_live (node_blocks s')) = points (map b_live (node_blocks s)) \<union> points [b_live b]"
        proof -
          have "mset (node_blocks s') = add_mset (marked b) (mset (node_blocks s))" using rs Some by simp
          from arg_cong[OF this, of set_mset] have "set (node_blocks s') = insert (marked b) (set (node_blocks s))" by simp
          then have "set (map b_live (node_blocks s')) = set (map b_live (node_blocks s) @ [b_live b])" by auto
          from points_set[OF this] show ?thesis by simp
        qed
        have "kept_apart (TemporalSplit (xs @ s' # ys))" using 3(3) dis rs by (auto simp: ns Some sorted_wrt_append ls)
        moreover have "mset (node_blocks (TemporalSplit (xs @ s' # ys))) = add_mset (marked b) (mset (node_blocks (TemporalSplit ns)))"
          using rs by (simp add: ns Some)
        ultimately show ?thesis using 2 fits r m Some by (simp del: size_hint.simps)
      qed
    next
      case (3 s s' rest)
      then show ?thesis using fits by (simp del: size_hint.simps)
    qed
  qed
next
  case (4 b is_last left right)
  have pre: "kept_apart left" "kept_apart right" "blocks_ok (node_blocks left)" "blocks_ok (node_blocks right)" using 4(4,5) by (auto simp: blocks_ok_def)
  obtain r where r: "allocate b False left = Inr r" "case r of None \<Rightarrow> True | Some n' \<Rightarrow> kept_apart n' \<and> mset (node_blocks n') = add_mset (marked b) (mset (node_blocks left))"
    using 4(1)[OF 4(3) pre(1,3) 4(6)] by blast
  show ?case
  proof (cases r)
    case None
    then obtain q where "allocate b is_last right = Inr q" "case q of None \<Rightarrow> True | Some n' \<Rightarrow> kept_apart n' \<and> mset (node_blocks n') = add_mset (marked b) (mset (node_blocks right))"
      using 4(2)[OF r(1) None 4(3) pre(2,4) 4(6)] by blast
    then show ?thesis using r None pre by (cases q) auto
  qed (use r pre in auto)
qed auto

subsection \<open>Offsets\<close>

definition live_together :: "block \<Rightarrow> block \<Rightarrow> bool" where
  "live_together b c \<longleftrightarrow> points [b_live b] \<inter> points [b_live c] \<noteq> {}"

text \<open>Every block lies between \<open>offset\<close> and \<open>offset + sz\<close> of the pool.\<close>

definition placed_in :: "nat \<Rightarrow> int \<Rightarrow> int \<Rightarrow> block list \<Rightarrow> memory_places \<Rightarrow> bool" where
  "placed_in pool offset sz bs m \<longleftrightarrow>
     (\<forall>b \<in> set bs. \<exists>ofs. m (b_id b) = Some (pool, ofs) \<and> offset \<le> ofs \<and> ofs + b_size b \<le> offset + sz)"

text \<open>Blocks that are live together do not share memory.\<close>

definition memory_apart :: "block list \<Rightarrow> memory_places \<Rightarrow> bool" where
  "memory_apart bs m \<longleftrightarrow>
     (\<forall>b \<in> set bs. \<forall>c \<in> set bs. b_id b \<noteq> b_id c \<longrightarrow> live_together b c \<longrightarrow>
        (\<forall>p ob oc. m (b_id b) = Some (p, ob) \<longrightarrow> m (b_id c) = Some (p, oc) \<longrightarrow> ob + b_size b \<le> oc \<or> oc + b_size c \<le> ob))"

definition fresh_blocks :: "block list \<Rightarrow> memory_places \<Rightarrow> bool" where
  "fresh_blocks bs m \<longleftrightarrow> distinct (map b_id bs) \<and> (\<forall>b \<in> set bs. m (b_id b) = None \<and> 0 \<le> b_size b)"

definition finalized :: "nat \<Rightarrow> int \<Rightarrow> block list \<Rightarrow> memory_places \<Rightarrow> alloc_node \<Rightarrow> memory_places \<Rightarrow> bool" where
  "finalized pool offset bs m n' m' \<longleftrightarrow>
     node_blocks n' = bs \<and> 0 \<le> runtime_size n' \<and> (\<forall>i. i \<notin> b_id ` set bs \<longrightarrow> m' i = m i) \<and>
     placed_in pool offset (runtime_size n') bs m' \<and> memory_apart bs m'"

lemma empty_no_leaves: "node_is_empty n \<Longrightarrow> node_blocks n = []"
  by (induction n rule: node_is_empty.induct) (auto split: list.splits)

lemma fresh_append:
  "fresh_blocks (xs @ ys) m \<longleftrightarrow> fresh_blocks xs m \<and> fresh_blocks ys m \<and> b_id ` set xs \<inter> b_id ` set ys = {}"
  by (auto simp: fresh_blocks_def)

lemma fresh_after: "fresh_blocks ys m \<Longrightarrow> b_id ` set xs \<inter> b_id ` set ys = {} \<Longrightarrow> \<forall>i. i \<notin> b_id ` set xs \<longrightarrow> m' i = m i \<Longrightarrow> fresh_blocks ys m'"
  unfolding fresh_blocks_def by (metis disjoint_iff image_eqI)

lemma placed_after: "placed_in pool offset sz xs m \<Longrightarrow> \<forall>i. i \<notin> b_id ` set ys \<longrightarrow> m' i = m i \<Longrightarrow> b_id ` set xs \<inter> b_id ` set ys = {} \<Longrightarrow> placed_in pool offset sz xs m'"
  unfolding placed_in_def by (metis disjoint_iff image_eqI)

lemma apart_after: "memory_apart xs m \<Longrightarrow> \<forall>i. i \<notin> b_id ` set ys \<longrightarrow> m' i = m i \<Longrightarrow> b_id ` set xs \<inter> b_id ` set ys = {} \<Longrightarrow> memory_apart xs m'"
  unfolding memory_apart_def by (metis disjoint_iff image_eqI)

lemma placed_mono: "placed_in pool offset sz bs m \<Longrightarrow> sz \<le> sz' \<Longrightarrow> placed_in pool offset sz' bs m"
  unfolding placed_in_def by force

lemma placed_later:
  "placed_in pool (offset + d) sz bs m \<Longrightarrow> 0 \<le> d \<Longrightarrow> d + sz \<le> sz' \<Longrightarrow> placed_in pool offset sz' bs m"
  unfolding placed_in_def by force

lemma placed_append: "placed_in pool offset sz (xs @ ys) m \<longleftrightarrow> placed_in pool offset sz xs m \<and> placed_in pool offset sz ys m"
  by (auto simp: placed_in_def)

lemma apart_append:
  assumes "memory_apart xs m" and "memory_apart ys m"
    and "\<And>b c p ob oc. b \<in> set xs \<Longrightarrow> c \<in> set ys \<Longrightarrow> live_together b c \<Longrightarrow> m (b_id b) = Some (p, ob) \<Longrightarrow> m (b_id c) = Some (p, oc) \<Longrightarrow>
      ob + b_size b \<le> oc \<or> oc + b_size c \<le> ob"
  shows "memory_apart (xs @ ys) m"
proof -
  have "live_together c b \<longleftrightarrow> live_together b c" for b c by (auto simp: live_together_def)
  then show ?thesis using assms unfolding memory_apart_def by (metis Un_iff set_append)
qed

lemma runtime_size_Cons:
  assumes "0 \<le> runtime_size n" and "0 \<le> runtime_size (TemporalSplit ns)"
  shows "runtime_size (TemporalSplit (n # ns)) = max (runtime_size n) (runtime_size (TemporalSplit ns))"
  using assms by (cases "ns = []") auto

lemma finalize_ok:
  "\<lbrakk>kept_apart n; fresh_blocks (node_blocks n) m\<rbrakk> \<Longrightarrow> \<exists>n' m'. finalize pool offset n m = Inr (n', m') \<and> finalized pool offset (node_blocks n) m n' m'"
  "\<lbrakk>kept_apart (TemporalSplit ns); fresh_blocks (concat (map node_blocks ns)) m\<rbrakk> \<Longrightarrow>
    \<exists>ns' m'. finalize_all pool offset ns m = Inr (ns', m') \<and> finalized pool offset (concat (map node_blocks ns)) m (TemporalSplit ns') m'"
proof (induction pool offset n m and pool offset ns m rule: finalize_finalize_all.induct)
  case (1 pool offset b m)
  then show ?case by (auto simp: fresh_blocks_def finalized_def placed_in_def memory_apart_def)
next
  case (2 pool offset n m)
  then show ?case by (auto simp: finalized_def placed_in_def memory_apart_def)
next
  case (3 pool offset ns m)
  then obtain ns' m' where r: "finalize_all pool offset ns m = Inr (ns', m')" "finalized pool offset (concat (map node_blocks ns)) m (TemporalSplit ns') m'" by auto
  then show ?case by (auto simp: finalized_def split: list.splits)
next
  case (4 pool offset left right m)
  let ?L = "node_blocks left" and ?R = "node_blocks right"
  have pre: "kept_apart left" "kept_apart right" "fresh_blocks ?L m" "fresh_blocks ?R m" "b_id ` set ?L \<inter> b_id ` set ?R = {}"
    using 4(3,4) by (auto simp: fresh_append)
  obtain left' m1 where l: "finalize pool offset left m = Inr (left', m1)" "finalized pool offset ?L m left' m1" using 4(1)[OF pre(1,3)] by blast
  let ?d = "align_bytes (runtime_size left')"
  have fr: "fresh_blocks ?R m1" by (rule fresh_after[OF pre(4,5)]) (use l(2) in \<open>simp add: finalized_def\<close>)
  obtain right' m2 where r: "finalize pool (offset + ?d) right m1 = Inr (right', m2)" "finalized pool (offset + ?d) ?R m1 right' m2"
    using 4(2)[OF l(1) refl pre(2) fr] by blast
  have keep: "\<forall>i. i \<notin> b_id ` set ?R \<longrightarrow> m2 i = m1 i" and d0: "0 \<le> runtime_size left'" "0 \<le> runtime_size right'" "runtime_size left' \<le> ?d"
    using l(2) r(2) align_bytes_ge by (auto simp: finalized_def)
  have pl: "placed_in pool offset (runtime_size left') ?L m2" by (rule placed_after[OF _ keep pre(5)]) (use l(2) in \<open>simp add: finalized_def\<close>)
  have pr: "placed_in pool (offset + ?d) (runtime_size right') ?R m2" using r(2) by (simp add: finalized_def)
  have ap: "memory_apart (?L @ ?R) m2"
  proof (rule apart_append)
    show "memory_apart ?L m2" by (rule apart_after[OF _ keep pre(5)]) (use l(2) in \<open>simp add: finalized_def\<close>)
    show "memory_apart ?R m2" using r(2) by (simp add: finalized_def)
    fix b c p ob oc assume "b \<in> set ?L" "c \<in> set ?R" "m2 (b_id b) = Some (p, ob)" "m2 (b_id c) = Some (p, oc)"
    then show "ob + b_size b \<le> oc \<or> oc + b_size c \<le> ob" using pl pr d0 by (fastforce simp: placed_in_def)
  qed
  have other: "\<forall>i. i \<notin> b_id ` set (?L @ ?R) \<longrightarrow> m2 i = m i" using keep l(2) by (simp add: finalized_def image_Un)
  have lv: "node_blocks left' = ?L" "node_blocks right' = ?R" using l(2) r(2) by (simp_all add: finalized_def)
  show ?case
  proof (cases "node_is_empty right'")
    case True
    then have "?R = []" using empty_no_leaves lv by metis
    then have "finalized pool offset (node_blocks (SpatialSplit left right)) m left' m2" using pl ap other d0 lv by (simp add: finalized_def)
    then show ?thesis using l(1) r(1) True by simp
  next
    case False
    have "placed_in pool offset (?d + runtime_size right') (?L @ ?R) m2"
      using placed_mono[OF pl, of "?d + runtime_size right'"] placed_later[OF pr, of "?d + runtime_size right'"] d0 by (simp add: placed_append)
    then have "finalized pool offset (node_blocks (SpatialSplit left right)) m (SpatialSplit left' right') m2" using ap other d0 lv by (simp add: finalized_def)
    then show ?thesis using l(1) r(1) False by simp
  qed
next
  case (5 pool offset m)
  then show ?case by (simp add: finalized_def placed_in_def memory_apart_def)
next
  case (6 pool offset n ns m)
  let ?L = "node_blocks n" and ?R = "concat (map node_blocks ns)"
  have pre: "kept_apart n" "kept_apart (TemporalSplit ns)" "fresh_blocks ?L m" "fresh_blocks ?R m" "b_id ` set ?L \<inter> b_id ` set ?R = {}"
    using 6(3,4) by (auto simp: fresh_append)
  obtain n' m1 where l: "finalize pool offset n m = Inr (n', m1)" "finalized pool offset ?L m n' m1" using 6(1)[OF pre(1,3)] by blast
  have fr: "fresh_blocks ?R m1" by (rule fresh_after[OF pre(4,5)]) (use l(2) in \<open>simp add: finalized_def\<close>)
  obtain ns' m2 where r: "finalize_all pool offset ns m1 = Inr (ns', m2)" "finalized pool offset ?R m1 (TemporalSplit ns') m2"
    using 6(2)[OF l(1) refl pre(2) fr] by blast
  have keep: "\<forall>i. i \<notin> b_id ` set ?R \<longrightarrow> m2 i = m1 i" using r(2) by (simp add: finalized_def)
  have z: "0 \<le> runtime_size n'" "0 \<le> runtime_size (TemporalSplit ns')" using l(2) r(2) by (simp_all add: finalized_def del: runtime_size.simps)
  note mx = runtime_size_Cons[OF z]
  have pl: "placed_in pool offset (runtime_size n') ?L m2" by (rule placed_after[OF _ keep pre(5)]) (use l(2) in \<open>simp add: finalized_def\<close>)
  have pr: "placed_in pool offset (runtime_size (TemporalSplit ns')) ?R m2" using r(2) by (simp add: finalized_def del: runtime_size.simps)
  have "placed_in pool offset (runtime_size (TemporalSplit (n' # ns'))) (?L @ ?R) m2"
    unfolding placed_append mx using placed_mono[OF pl] placed_mono[OF pr] by simp
  moreover have "memory_apart (?L @ ?R) m2"
  proof (rule apart_append)
    show "memory_apart ?L m2" by (rule apart_after[OF _ keep pre(5)]) (use l(2) in \<open>simp add: finalized_def\<close>)
    show "memory_apart ?R m2" using r(2) by (simp add: finalized_def)
    fix b c assume b: "b \<in> set ?L" and c: "c \<in> set ?R" and lt: "live_together b c"
    obtain k where k: "k \<in> set ns" "c \<in> set (node_blocks k)" using c by auto
    have "points (map b_live ?L) \<inter> points (map b_live (node_blocks k)) = {}" using 6(3) k(1) by simp
    moreover have "points [b_live b] \<subseteq> points (map b_live ?L)" "points [b_live c] \<subseteq> points (map b_live (node_blocks k))" using b k(2) by (auto simp: points_def)
    ultimately have False using lt unfolding live_together_def by blast
    then show "ob + b_size b \<le> oc \<or> oc + b_size c \<le> ob" for ob oc ..
  qed
  moreover have "\<forall>i. i \<notin> b_id ` set (?L @ ?R) \<longrightarrow> m2 i = m i" using keep l(2) by (simp add: finalized_def image_Un)
  moreover have "node_blocks n' = ?L" "node_blocks (TemporalSplit ns') = ?R" using l(2) r(2) by (simp_all add: finalized_def del: node_blocks.simps)
  ultimately have "finalized pool offset (concat (map node_blocks (n # ns))) m (TemporalSplit (n' # ns')) m2"
    using z unfolding finalized_def mx by (auto simp: max_def)
  then show ?case using l(1) r(1) by auto
qed

subsection \<open>Pools take every block\<close>

definition pool_ok :: "pool \<Rightarrow> bool" where
  "pool_ok p \<longleftrightarrow> kept_apart (p_root p) \<and> blocks_ok (node_blocks (p_root p)) \<and> node_blocks (p_root p) \<noteq> [] \<and> p_name p = None"

abbreviation blocks_in :: "pool list \<Rightarrow> block list" where
  "blocks_in xs \<equiv> concat (map (\<lambda>p. node_blocks (p_root p)) xs)"

definition pools_ok :: "pools \<Rightarrow> bool" where
  "pools_ok ps \<longleftrightarrow> distinct (map fst ps) \<and> (\<forall>p \<in> set (concat (map snd ps)). pool_ok p)"

abbreviation all_blocks :: "pools \<Rightarrow> block list" where
  "all_blocks ps \<equiv> blocks_in (concat (map snd ps))"

lemma node_ranges_nonempty: "node_blocks n \<noteq> [] \<Longrightarrow> node_ranges n \<noteq> []"
proof (induction n)
  case (TemporalSplit ns)
  then obtain k where "k \<in> set ns" "node_blocks k \<noteq> []" by auto
  then have "concat (map node_ranges ns) \<noteq> []" using TemporalSplit.IH by auto
  then show ?case by (simp only: node_ranges.simps live_ranges_Nil) simp
qed (auto simp: live_ranges_Nil)

lemma mset_not_empty: "mset xs = add_mset b M \<Longrightarrow> xs \<noteq> []"
  by auto

lemma blocks_ok_add: "mset bs' = add_mset (marked b) (mset bs) \<Longrightarrow> blocks_ok bs \<Longrightarrow> range_ok (b_live b) \<Longrightarrow> blocks_ok bs'"
  by (drule arg_cong[of _ _ set_mset]) (auto simp: blocks_ok_def)

lemma allocate_at_end_ok:
  assumes "pool_ok p" and "\<not> b_allocated b" and "range_ok (b_live b)"
  shows "\<exists>p'. allocate_at_end b p = Inr p' \<and> pool_ok p' \<and> mset (node_blocks (p_root p')) = add_mset (marked b) (mset (node_blocks (p_root p)))"
  using assms by (auto simp: allocate_at_end_def mark_allocated_def pool_ok_def blocks_ok_def)

lemma pool_allocate_ok:
  assumes p: "pool_ok p" and b: "\<not> b_allocated b" "range_ok (b_live b)"
  shows "\<exists>r. pool_allocate b is_last p = Inr r \<and>
    (case r of None \<Rightarrow> True | Some p' \<Rightarrow> pool_ok p' \<and> mset (node_blocks (p_root p')) = add_mset (marked b) (mset (node_blocks (p_root p))))"
proof -
  have s: "ranges_begin (node_ranges (p_root p)) = Inr (lr_begin (hd (node_ranges (p_root p))))"
    using node_ranges_nonempty[of "p_root p"] p by (cases "node_ranges (p_root p)") (auto simp: ranges_begin_def pool_ok_def)
  let ?last = "p_can_expand p \<and> is_last"
  obtain r where r: "allocate b ?last (p_root p) = Inr r"
    and rs: "case r of None \<Rightarrow> True | Some n' \<Rightarrow> kept_apart n' \<and> mset (node_blocks n') = add_mset (marked b) (mset (node_blocks (p_root p)))"
    using allocate_ok[OF b(1) _ _ b(2)] p unfolding pool_ok_def by blast
  have some: "pool_ok (p\<lparr>p_root := n', p_restrict := x\<rparr>)" if "r = Some n'" for n' x
    using rs p that blocks_ok_add[OF _ _ b(2), of "node_blocks n'" "node_blocks (p_root p)"] mset_not_empty[of "node_blocks n'"] by (auto simp: pool_ok_def)
  obtain p' where e: "allocate_at_end b p = Inr p'" "pool_ok p'" "mset (node_blocks (p_root p')) = add_mset (marked b) (mset (node_blocks (p_root p)))"
    using allocate_at_end_ok[OF p b] by blast
  show ?thesis using r rs some e by (auto simp: pool_allocate_def s Let_def split: option.split)
qed

lemma try_pools_ok:
  assumes "\<forall>p \<in> set xs. pool_ok p" and "\<not> b_allocated b" and "range_ok (b_live b)"
  shows "\<exists>r. try_pools b xs = Inr r \<and>
    (case r of None \<Rightarrow> True | Some xs' \<Rightarrow> (\<forall>p \<in> set xs'. pool_ok p) \<and> mset (blocks_in xs') = add_mset (marked b) (mset (blocks_in xs)))"
  using assms
proof (induction xs)
  case (Cons p xs)
  obtain r where r: "pool_allocate b (xs = []) p = Inr r"
    "case r of None \<Rightarrow> True | Some p' \<Rightarrow> pool_ok p' \<and> mset (node_blocks (p_root p')) = add_mset (marked b) (mset (node_blocks (p_root p)))"
    using pool_allocate_ok[of p b] Cons.prems by auto
  obtain q where q: "try_pools b xs = Inr q"
    "case q of None \<Rightarrow> True | Some xs' \<Rightarrow> (\<forall>p \<in> set xs'. pool_ok p) \<and> mset (blocks_in xs') = add_mset (marked b) (mset (blocks_in xs))"
    using Cons by auto
  show ?case using r q Cons.prems by (cases r; cases q) auto
qed simp

lemma set_pools_ok:
  assumes ps: "pools_ok ps" and xs: "\<forall>p \<in> set xs'. pool_ok p" and m: "mset (blocks_in xs') = M + mset (blocks_in (get_pools d ps))"
  shows "pools_ok (set_pools d xs' ps) \<and> mset (all_blocks (set_pools d xs' ps)) = M + mset (all_blocks ps)"
proof (cases "map_of ps d")
  case None
  then have "d \<notin> fst ` set ps" by (simp add: map_of_eq_None_iff)
  then show ?thesis using None assms by (auto simp: set_pools_def get_pools_def pools_ok_def)
next
  case (Some ys)
  have dis: "distinct (map fst ps)" using ps by (simp add: pools_ok_def)
  obtain l r where split: "ps = l @ (d, ys) # r" using map_of_SomeD[OF Some] by (metis split_list)
  have nd: "d \<notin> fst ` set l" "d \<notin> fst ` set r" using dis split by auto
  have same: "map (\<lambda>(e, zs). if e = d then (e, xs') else (e, zs)) l = l" "map (\<lambda>(e, zs). if e = d then (e, xs') else (e, zs)) r = r"
    using nd by (intro map_idI; force)+
  have s: "set_pools d xs' ps = l @ (d, xs') # r" using Some same by (simp add: set_pools_def split)
  have g: "get_pools d ps = ys" using Some by (simp add: get_pools_def)
  show ?thesis using ps xs m unfolding s g by (auto simp: pools_ok_def split)
qed

lemma get_pools_ok: "pools_ok ps \<Longrightarrow> p \<in> set (get_pools d ps) \<Longrightarrow> pool_ok p"
  unfolding pools_ok_def get_pools_def by (auto split: option.splits dest!: map_of_SomeD)

lemma new_pool_ok: "range_ok (b_live b) \<Longrightarrow> pool_ok (new_pool d b e) \<and> node_blocks (p_root (new_pool d b e)) = [b]"
  by (simp add: pool_ok_def new_pool_def blocks_ok_def)

lemma pools_allocate_ok:
  assumes ps: "pools_ok ps" and b: "\<not> b_allocated b" "range_ok (b_live b)"
  shows "\<exists>ps'. pools_allocate cfg ps b = Inr ps' \<and> pools_ok ps' \<and> mset (all_blocks ps') = add_mset (marked b) (mset (all_blocks ps))"
proof -
  let ?xs = "get_pools (b_device b) ps"
  have xs: "\<forall>p \<in> set ?xs. pool_ok p" using get_pools_ok[OF ps] by blast
  obtain r where r: "try_pools b ?xs = Inr r"
    "case r of None \<Rightarrow> True | Some xs' \<Rightarrow> (\<forall>p \<in> set xs'. pool_ok p) \<and> mset (blocks_in xs') = add_mset (marked b) (mset (blocks_in ?xs))"
    using try_pools_ok[OF xs b] by blast
  show ?thesis
  proof (cases r)
    case None
    let ?n = "new_pool (b_device b) (marked b) (cfg \<noteq> ''none'')"
    have "\<forall>p \<in> set (?xs @ [?n]). pool_ok p" "mset (blocks_in (?xs @ [?n])) = {#marked b#} + mset (blocks_in ?xs)"
      using xs new_pool_ok[of "marked b"] b(2) by auto
    from set_pools_ok[OF ps this] show ?thesis using r(1) None b(1) by (simp add: pools_allocate_def mark_allocated_def)
  next
    case (Some xs')
    then have "\<forall>p \<in> set xs'. pool_ok p" "mset (blocks_in xs') = {#marked b#} + mset (blocks_in ?xs)" using r(2) by auto
    from set_pools_ok[OF ps this] show ?thesis using r(1) Some by (simp add: pools_allocate_def)
  qed
qed

lemma allocate_output_ok:
  assumes ps: "pools_ok ps" and b: "\<not> b_allocated b" "range_ok (b_live b)"
  shows "\<exists>ps'. allocate_output cfg ps b = Inr ps' \<and> pools_ok ps' \<and> mset (all_blocks ps') = add_mset (marked b) (mset (all_blocks ps))"
proof -
  let ?xs = "get_pools (b_device b) ps"
  have xs: "\<forall>p \<in> set ?xs. pool_ok p" using get_pools_ok[OF ps] by blast
  show ?thesis
  proof (cases "?xs \<noteq> [] \<and> (cfg = ''outputs'' \<or> cfg = ''combined'')")
    case True
    then have l: "?xs = butlast ?xs @ [last ?xs]" by simp
    obtain p where p: "allocate_at_end b (last ?xs) = Inr p" "pool_ok p" "mset (node_blocks (p_root p)) = add_mset (marked b) (mset (node_blocks (p_root (last ?xs))))"
      using allocate_at_end_ok[OF _ b, of "last ?xs"] xs True by auto
    have "blocks_in ?xs = blocks_in (butlast ?xs) @ node_blocks (p_root (last ?xs))" by (subst l) (simp only: map_append concat_append, simp)
    then have m: "mset (blocks_in (butlast ?xs @ [p])) = {#marked b#} + mset (blocks_in ?xs)" using p(3) by simp
    have "\<forall>q \<in> set (butlast ?xs @ [p]). pool_ok q" using xs p(2) by (auto dest: in_set_butlastD)
    from set_pools_ok[OF ps this m] show ?thesis using p(1) True by (simp add: allocate_output_def Let_def)
  next
    case False
    let ?n = "new_pool (b_device b) (marked b) (cfg = ''combined'')"
    have "\<forall>p \<in> set (?xs @ [?n]). pool_ok p" "mset (blocks_in (?xs @ [?n])) = {#marked b#} + mset (blocks_in ?xs)"
      using xs new_pool_ok[of "marked b"] b(2) by auto
    from set_pools_ok[OF ps this] show ?thesis using False b(1) by (auto simp: allocate_output_def mark_allocated_def Let_def)
  qed
qed

subsection \<open>Allocators\<close>

text \<open>What the planner relies on: a block that is not allocated yet and has a proper live range finds a place, and the pools stay in order.\<close>

locale block_allocator =
  fixes alloc :: "pools \<Rightarrow> block \<Rightarrow> pools result"
  assumes alloc_ok: "pools_ok ps \<Longrightarrow> \<not> b_allocated b \<Longrightarrow> range_ok (b_live b) \<Longrightarrow>
    \<exists>ps'. alloc ps b = Inr ps' \<and> pools_ok ps' \<and> mset (all_blocks ps') = add_mset (marked b) (mset (all_blocks ps))"
begin

lemma allocate_list:
  "pools_ok ps \<Longrightarrow> \<forall>b \<in> set bs. \<not> b_allocated b \<and> range_ok (b_live b) \<Longrightarrow>
    \<exists>ps'. foldM alloc ps bs = Inr ps' \<and> pools_ok ps' \<and> mset (all_blocks ps') = mset (map marked bs) + mset (all_blocks ps)"
proof (induction bs arbitrary: ps)
  case (Cons b bs)
  obtain ps1 where 1: "alloc ps b = Inr ps1" "pools_ok ps1" "mset (all_blocks ps1) = add_mset (marked b) (mset (all_blocks ps))"
    using alloc_ok[OF Cons.prems(1)] Cons.prems(2) by auto
  obtain ps2 where "foldM alloc ps1 bs = Inr ps2" "pools_ok ps2" "mset (all_blocks ps2) = mset (map marked bs) + mset (all_blocks ps1)"
    using Cons.IH[OF 1(2)] Cons.prems(2) by auto
  then show ?case using 1 by auto
qed simp

end

interpretation outputs: block_allocator "allocate_output cfg" for cfg
  by unfold_locales (rule allocate_output_ok)

interpretation intermediates: block_allocator "pools_allocate cfg" for cfg
  by unfold_locales (rule pools_allocate_ok)

subsection \<open>Offsets in pools\<close>

lemma fresh_blocks_in: "fresh_blocks (blocks_in (p # ps)) m \<longleftrightarrow>
    fresh_blocks (node_blocks (p_root p)) m \<and> fresh_blocks (blocks_in ps) m \<and> b_id ` set (node_blocks (p_root p)) \<inter> b_id ` set (blocks_in ps) = {}"
  by (simp only: list.map concat.simps fresh_append)

lemma pool_finalize_ok:
  assumes p: "pool_ok p" and f: "fresh_blocks (node_blocks (p_root p)) m"
  shows "\<exists>p' m'. pool_finalize i p m = Inr (p', m') \<and> finalized i 0 (node_blocks (p_root p)) m (p_root p') m'"
proof (cases "p_root p")
  case (TemporalSplit ns)
  have "kept_apart (TemporalSplit ns)" "fresh_blocks (concat (map node_blocks ns)) m" using assms by (simp_all add: pool_ok_def TemporalSplit)
  from finalize_ok(2)[OF this, of i 0] obtain ns' m' where "finalize_all i 0 ns m = Inr (ns', m')" "finalized i 0 (concat (map node_blocks ns)) m (TemporalSplit ns') m'" by blast
  then show ?thesis using p by (simp add: pool_finalize_def pool_ok_def TemporalSplit)
qed (use finalize_ok(1)[of "p_root p" m i 0] assms in \<open>auto simp: pool_finalize_def pool_ok_def\<close>)

definition pools_placed :: "nat \<Rightarrow> pool list \<Rightarrow> pool list \<Rightarrow> memory_places \<Rightarrow> bool" where
  "pools_placed i ps ps' m \<longleftrightarrow> length ps' = length ps \<and>
     (\<forall>k < length ps. node_blocks (p_root (ps' ! k)) = node_blocks (p_root (ps ! k)) \<and>
        placed_in (i + k) 0 (runtime_size (p_root (ps' ! k))) (node_blocks (p_root (ps ! k))) m \<and> memory_apart (node_blocks (p_root (ps ! k))) m)"

lemma finalize_pools_ok:
  assumes "\<forall>p \<in> set ps. pool_ok p" and "fresh_blocks (blocks_in ps) m"
  shows "\<exists>ps' m'. finalize_pools i ps m = Inr (ps', m') \<and> pools_placed i ps ps' m' \<and> (\<forall>j. j \<notin> b_id ` set (blocks_in ps) \<longrightarrow> m' j = m j)"
  using assms
proof (induction ps arbitrary: i m)
  case Nil
  then show ?case by (simp add: pools_placed_def)
next
  case (Cons p ps)
  have pre: "fresh_blocks (node_blocks (p_root p)) m" "fresh_blocks (blocks_in ps) m" "b_id ` set (node_blocks (p_root p)) \<inter> b_id ` set (blocks_in ps) = {}"
    using Cons.prems(2) unfolding fresh_blocks_in by blast+
  obtain p' m1 where p': "pool_finalize i p m = Inr (p', m1)" "finalized i 0 (node_blocks (p_root p)) m (p_root p') m1"
    using pool_finalize_ok[OF _ pre(1)] Cons.prems(1) by fastforce
  have "fresh_blocks (blocks_in ps) m1" by (rule fresh_after[OF pre(2,3)]) (use p'(2) in \<open>simp add: finalized_def\<close>)
  then obtain ps' m2 where ps': "finalize_pools (Suc i) ps m1 = Inr (ps', m2)" "pools_placed (Suc i) ps ps' m2"
    and keep: "\<forall>j. j \<notin> b_id ` set (blocks_in ps) \<longrightarrow> m2 j = m1 j"
    using Cons.IH[of m1 "Suc i"] Cons.prems(1) by auto
  have "placed_in i 0 (runtime_size (p_root p')) (node_blocks (p_root p)) m2" "memory_apart (node_blocks (p_root p)) m2"
    using placed_after[OF _ keep pre(3)] apart_after[OF _ keep pre(3)] p'(2) by (auto simp: finalized_def)
  then have "pools_placed i (p # ps) (p' # ps') m2"
    using ps'(2) p'(2) by (auto simp: pools_placed_def finalized_def nth_Cons' less_Suc_eq_0_disj)
  moreover have "\<forall>j. j \<notin> b_id ` set (blocks_in (p # ps)) \<longrightarrow> m2 j = m j" using keep p'(2) by (simp add: finalized_def image_Un)
  ultimately show ?case using p'(1) ps'(1) by auto
qed

end
