(* ===== verification/MemoryPlanSafe.thy ===== *)
theory MemoryPlanSafe
  imports MemoryPools
begin

text \<open>
  The memory planner as a whole: every group gets its memory, steps agree with the order of the lines, and so groups that are in use at the same line of the
  program do not share memory. A buffer that is allocated and never freed escapes this: its live range is empty.
\<close>

subsection \<open>Groups get their memory\<close>

definition group_block :: "plan_env \<Rightarrow> buffer_group list \<Rightarrow> nat \<Rightarrow> block" where
  "group_block env groups i =
     \<lparr>b_id = i, b_device = pe_device env (bg_node (groups ! i)), b_live = the (bg_live (groups ! i)), b_hint = pe_hint env (bg_node (groups ! i)),
      b_size = pe_nbytes env (bg_node (groups ! i)), b_unbacked = pe_unbacked env (bg_node (groups ! i)), b_allocated = False\<rparr>"

definition groups_ready :: "buffer_group list \<Rightarrow> bool" where
  "groups_ready groups \<longleftrightarrow> (\<forall>g \<in> set groups. \<exists>r. bg_live g = Some r \<and> range_ok r)"

text \<open>The result of allocation: every group lies in a pool, and groups that are live together do not share memory.\<close>

definition groups_placed :: "plan_env \<Rightarrow> buffer_group list \<Rightarrow> pool list \<Rightarrow> memory_places \<Rightarrow> bool" where
  "groups_placed env groups ps m \<longleftrightarrow>
     (\<forall>i < length groups. \<exists>k ofs. m i = Some (k, ofs) \<and> k < length ps \<and> 0 \<le> ofs \<and> ofs + b_size (group_block env groups i) \<le> runtime_size (p_root (ps ! k)) \<and>
        marked (group_block env groups i) \<in> set (node_blocks (p_root (ps ! k)))) \<and>
     (\<forall>i < length groups. \<forall>j < length groups. i \<noteq> j \<longrightarrow> live_together (group_block env groups i) (group_block env groups j) \<longrightarrow>
        (\<forall>k oi oj. m i = Some (k, oi) \<longrightarrow> m j = Some (k, oj) \<longrightarrow>
           oi + b_size (group_block env groups i) \<le> oj \<or> oj + b_size (group_block env groups j) \<le> oi)) \<and>
     (\<forall>k < length ps. node_blocks (p_root (ps ! k)) \<noteq> [] \<and> blocks_ok (node_blocks (p_root (ps ! k))))"

lemma make_allocations:
  assumes "groups_ready groups"
  shows "traverse (make_allocation env) (enumerate 0 groups) = Inr (map (group_block env groups) [0..<length groups])"
proof -
  have "traverse (make_allocation env) (enumerate 0 groups) = Inr (map (\<lambda>ig. group_block env groups (fst ig)) (enumerate 0 groups))"
  proof (rule traverse_total)
    fix ig assume "ig \<in> set (enumerate 0 groups)"
    then have i: "fst ig < length groups" "snd ig = groups ! fst ig" by (auto simp: in_set_enumerate_eq)
    then obtain r where "bg_live (groups ! fst ig) = Some r" using assms nth_mem[OF i(1)] unfolding groups_ready_def by blast
    then show "make_allocation env ig = Inr (group_block env groups (fst ig))" using i by (simp add: make_allocation_def group_block_def Let_def)
  qed
  also have "map (\<lambda>ig. group_block env groups (fst ig)) (enumerate 0 groups) = map (group_block env groups) [0..<length groups]"
  proof -
    have "map (\<lambda>ig. group_block env groups (fst ig)) (enumerate 0 groups) = map (group_block env groups) (map fst (enumerate 0 groups))" by (simp only: map_map comp_def)
    then show ?thesis by (rule trans) (simp only: map_fst_enumerate add_0)
  qed
  finally show ?thesis .
qed

lemma allocate_groups_ok:
  assumes r: "groups_ready groups" and cfg: "pe_memory_pool env \<in> {''none'', ''intermediates'', ''outputs'', ''combined''}"
    and sz: "\<forall>n. 0 \<le> pe_nbytes env n"
  shows "\<exists>ps m. allocate_groups env groups = Inr (ps, m) \<and> groups_placed env groups ps m"
proof -
  let ?B = "map (group_block env groups) [0..<length groups]"
  let ?out = "fst (split_outputs env groups ?B)" and ?int = "snd (split_outputs env groups ?B)"
  have B: "\<not> b_allocated b \<and> range_ok (b_live b) \<and> 0 \<le> b_size b" if b: "b \<in> set ?B" for b
  proof -
    obtain i where i: "i < length groups" "b = group_block env groups i" using b by auto
    obtain l where "bg_live (groups ! i) = Some l" "range_ok l" using r nth_mem[OF i(1)] unfolding groups_ready_def by blast
    then show ?thesis using sz i(2) by (simp add: group_block_def)
  qed
  have part: "mset ?out + mset ?int = mset ?B" unfolding split_outputs_def Let_def fst_conv snd_conv mset_filter by (rule multiset_partition[symmetric])
  have sub: "set ?out \<subseteq> set ?B" "set ?int \<subseteq> set ?B" by (auto simp: split_outputs_def Let_def)
  let ?outs = "sort_key (\<lambda>b. (b_hint b, - range_len (b_live b))) ?out" and ?ints = "sort_key (\<lambda>b. (- b_hint b, - range_len (b_live b))) ?int"
  have fresh: "\<forall>b \<in> set ?outs. \<not> b_allocated b \<and> range_ok (b_live b)" "\<forall>b \<in> set ?ints. \<not> b_allocated b \<and> range_ok (b_live b)"
    using B sub by (simp_all only: set_sort) blast+
  obtain ps1 where 1: "foldM (allocate_output (pe_memory_pool env)) [] ?outs = Inr ps1" "pools_ok ps1"
    "mset (all_blocks ps1) = mset (map marked ?outs) + mset (all_blocks [])"
    using outputs.allocate_list[OF _ fresh(1), of "[]" "pe_memory_pool env"] by (auto simp only: pools_ok_def list.map concat.simps distinct.simps empty_iff list.set)
  obtain ps2 where 2: "foldM (pools_allocate (pe_memory_pool env)) ps1 ?ints = Inr ps2" "pools_ok ps2"
    "mset (all_blocks ps2) = mset (map marked ?ints) + mset (all_blocks ps1)"
    using intermediates.allocate_list[OF 1(2) fresh(2), of "pe_memory_pool env"] by blast
  have all: "mset (all_blocks ps2) = mset (map marked ?B)" using 1(3) 2(3) arg_cong[OF part, of "image_mset marked"] by (simp add: add.commute multiset.map_comp)
  let ?ps = "concat (map snd ps2)"
  have ids: "mset (map b_id (blocks_in ?ps)) = mset [0..<length groups]"
  proof -
    have "map b_id (map marked ?B) = [0..<length groups]" by (simp add: group_block_def comp_def)
    then show ?thesis using arg_cong[OF all, of "image_mset b_id"] by (simp only: mset_map[symmetric])
  qed
  have sall: "set (blocks_in ?ps) = marked ` set ?B" using arg_cong[OF all, of set_mset] unfolding set_mset_mset by (simp only: set_map)
  have "fresh_blocks (blocks_in ?ps) Map.empty"
    using mset_eq_imp_distinct_iff[OF ids] B unfolding fresh_blocks_def sall by auto
  moreover have pok: "\<forall>p \<in> set ?ps. pool_ok p" using 2(2) by (simp add: pools_ok_def)
  ultimately obtain ps m where f: "finalize_pools 0 ?ps Map.empty = Inr (ps, m)" "pools_placed 0 ?ps ps m"
    using finalize_pools_ok[of ?ps Map.empty 0] by blast
  have run: "allocate_groups env groups = Inr (ps, m)"
    using cfg 1(1) 2(1) f(1) by (simp add: allocate_groups_def make_allocations[OF r] pools_finalize_def case_prod_unfold)
  have len: "length ps = length ?ps" and lv: "k < length ?ps \<Longrightarrow> node_blocks (p_root (ps ! k)) = node_blocks (p_root (?ps ! k))"
    and pl: "k < length ?ps \<Longrightarrow> placed_in k 0 (runtime_size (p_root (ps ! k))) (node_blocks (p_root (?ps ! k))) m"
    and ap: "k < length ?ps \<Longrightarrow> memory_apart (node_blocks (p_root (?ps ! k))) m" for k
    using f(2) by (auto simp: pools_placed_def)
  have place: "\<exists>k ofs. m i = Some (k, ofs) \<and> k < length ps \<and> 0 \<le> ofs \<and> ofs + b_size (group_block env groups i) \<le> runtime_size (p_root (ps ! k)) \<and>
      marked (group_block env groups i) \<in> set (node_blocks (p_root (ps ! k)))" if i: "i < length groups" for i
  proof -
    have "marked (group_block env groups i) \<in> set (blocks_in ?ps)" unfolding sall using i by auto
    then obtain p where "p \<in> set ?ps" "marked (group_block env groups i) \<in> set (node_blocks (p_root p))" by fastforce
    then obtain k where k: "k < length ?ps" "marked (group_block env groups i) \<in> set (node_blocks (p_root (?ps ! k)))" by (metis in_set_conv_nth)
    then show ?thesis using pl[OF k(1)] lv[OF k(1)] len by (auto simp: placed_in_def group_block_def)
  qed
  have disj: "oi + b_size (group_block env groups i) \<le> oj \<or> oj + b_size (group_block env groups j) \<le> oi"
    if "i < length groups" "j < length groups" "i \<noteq> j" "live_together (group_block env groups i) (group_block env groups j)" "m i = Some (k, oi)" "m j = Some (k, oj)" for i j k oi oj
  proof -
    have "k < length ?ps" "marked (group_block env groups i) \<in> set (node_blocks (p_root (?ps ! k)))" "marked (group_block env groups j) \<in> set (node_blocks (p_root (?ps ! k)))"
      using place[OF that(1)] place[OF that(2)] that(5,6) lv len by auto
    then show ?thesis using ap[of k] that(3-6) unfolding memory_apart_def live_together_def by (fastforce simp: group_block_def)
  qed
  have "node_blocks (p_root (ps ! k)) \<noteq> [] \<and> blocks_ok (node_blocks (p_root (ps ! k)))" if "k < length ps" for k
    using that pok lv[of k] len nth_mem[of k ?ps] by (auto simp: pool_ok_def)
  then show ?thesis using run place disj unfolding groups_placed_def by blast
qed

subsection \<open>Steps and lines\<close>

fun line_use :: "plan_line \<Rightarrow> (nat \<times> int) option" where
  "line_use (AllocFromPoolLine i t b) = Some (i, t)"
| "line_use (DeallocFromPoolLine i t b) = Some (i, t)"
| "line_use _ = None"

definition line_group :: "plan_line \<Rightarrow> nat option" where
  "line_group l = map_option fst (line_use l)"

definition covers :: "live_range option \<Rightarrow> int \<Rightarrow> bool" where
  "covers r t \<longleftrightarrow> (\<exists>l. r = Some l \<and> lr_begin l \<le> t \<and> t \<le> lr_end l)"

definition live_ok :: "buffer_group list \<Rightarrow> bool" where
  "live_ok gs \<longleftrightarrow> (\<forall>g \<in> set gs. case bg_live g of None \<Rightarrow> True | Some r \<Rightarrow> range_ok r)"

lemma update_usage_covers: "covers (bg_live (update_usage t g)) t" "covers (bg_live g) s \<Longrightarrow> covers (bg_live (update_usage t g)) s"
  by (auto simp: covers_def update_usage_def split: option.splits)

lemma update_usage_ok: "case bg_live g of None \<Rightarrow> True | Some r \<Rightarrow> range_ok r \<Longrightarrow> case bg_live (update_usage t g) of None \<Rightarrow> True | Some r \<Rightarrow> range_ok r"
  by (auto simp: update_usage_def range_ok_def split: option.splits)

lemma update_usage_rest: "update_usage t g = g\<lparr>bg_live := bg_live (update_usage t g)\<rparr>"
  by (simp add: update_usage_def)

lemma program_line_iff: "\<not> is_planning_line l \<longleftrightarrow> l = ProgramLine"
  by (cases l) auto

lemma stamp_line_facts:
  assumes "stamp_line t l gs = (l', gs')"
  shows "length gs' = length gs" and "line_group l' = line_group l" and "is_planning_line l' \<longleftrightarrow> is_planning_line l"
    and "line_use l' = Some (i, s) \<Longrightarrow> s = t \<and> (i < length gs \<longrightarrow> covers (bg_live (gs' ! i)) t)"
    and "i < length gs \<Longrightarrow> covers (bg_live (gs ! i)) s \<Longrightarrow> covers (bg_live (gs' ! i)) s"
    and "i < length gs \<Longrightarrow> gs' ! i = (gs ! i)\<lparr>bg_live := bg_live (gs' ! i)\<rparr>"
    and "live_ok gs \<Longrightarrow> live_ok gs'"
proof -
  have u: "(gs[j := update_usage t (gs ! j)]) ! i = (if i = j then update_usage t (gs ! i) else gs ! i)" if "i < length gs" for i j
    using that by (simp add: nth_list_update)
  have ok: "live_ok (gs[j := update_usage t (gs ! j)])" if a: "live_ok gs" for j
  proof (cases "j < length gs")
    case True
    have "case bg_live (update_usage t (gs ! j)) of None \<Rightarrow> True | Some r \<Rightarrow> range_ok r"
      using a True by (intro update_usage_ok) (simp add: live_ok_def)
    then show ?thesis using a set_update_subset_insert[of gs j] by (auto simp: live_ok_def)
  next
    case False
    then have "gs[j := update_usage t (gs ! j)] = gs" by (simp add: list_update_beyond)
    then show ?thesis using a by simp
  qed
  show "length gs' = length gs" "line_group l' = line_group l" "is_planning_line l' \<longleftrightarrow> is_planning_line l"
    "line_use l' = Some (i, s) \<Longrightarrow> s = t \<and> (i < length gs \<longrightarrow> covers (bg_live (gs' ! i)) t)"
    "i < length gs \<Longrightarrow> covers (bg_live (gs ! i)) s \<Longrightarrow> covers (bg_live (gs' ! i)) s"
    "i < length gs \<Longrightarrow> gs' ! i = (gs ! i)\<lparr>bg_live := bg_live (gs' ! i)\<rparr>"
    "live_ok gs \<Longrightarrow> live_ok gs'"
    using assms ok update_usage_covers update_usage_rest[of t "gs ! i"]
    by (auto simp: stamp_line_def line_group_def u split: plan_line.splits if_split_asm)
qed

lemma stamp_lines_Cons:
  assumes "stamp_lines t in_run (l # ls) gs = (t', ls', gs')"
  obtains (program) ls1 where "l = ProgramLine" and "stamp_lines t False ls gs = (t', ls1, gs')" and "ls' = l # ls1"
    | (planning) l1 gs1 ls1 where "is_planning_line l" and "stamp_line (if in_run then t else t + 1) l gs = (l1, gs1)"
      and "stamp_lines (if in_run then t else t + 1) True ls gs1 = (t', ls1, gs')" and "ls' = l1 # ls1"
  using assms by (cases "is_planning_line l") (auto simp: program_line_iff Let_def split: prod.splits)

lemma stamp_lines_shape:
  assumes "stamp_lines t in_run ls gs = (t', ls', gs')"
  shows "length gs' = length gs \<and> t \<le> t' \<and> (live_ok gs \<longrightarrow> live_ok gs') \<and>
    list_all2 (\<lambda>l l'. line_group l' = line_group l \<and> (is_planning_line l' \<longleftrightarrow> is_planning_line l)) ls ls' \<and>
    (\<forall>i < length gs. gs' ! i = (gs ! i)\<lparr>bg_live := bg_live (gs' ! i)\<rparr>)"
  using assms
proof (induction ls arbitrary: t in_run gs ls')
  case (Cons l ls)
  from Cons.prems show ?case
  proof (cases rule: stamp_lines_Cons)
    case (program ls1)
    then show ?thesis using Cons.IH[OF program(2)] by simp
  next
    case (planning l1 gs1 ls1)
    note f = stamp_line_facts[OF planning(2)]
    have "gs' ! i = (gs ! i)\<lparr>bg_live := bg_live (gs' ! i)\<rparr>" if "i < length gs" for i
    proof -
      have "gs' ! i = (gs1 ! i)\<lparr>bg_live := bg_live (gs' ! i)\<rparr>" using Cons.IH[OF planning(3)] that f(1) by simp
      also have "gs1 ! i = (gs ! i)\<lparr>bg_live := bg_live (gs1 ! i)\<rparr>" by (rule f(6)[OF that])
      finally show ?thesis by (simp add: buffer_group.splits)
    qed
    then show ?thesis using Cons.IH[OF planning(3)] f(1,2,3,7) planning(1,4) by (auto split: if_split_asm)
  qed
qed simp

lemma stamp_lines_covers:
  assumes "stamp_lines t in_run ls gs = (t', ls', gs')" and "\<forall>l \<in> set ls. \<forall>i. line_group l = Some i \<longrightarrow> i < length gs"
  shows "(\<forall>i < length gs. \<forall>s. covers (bg_live (gs ! i)) s \<longrightarrow> covers (bg_live (gs' ! i)) s) \<and>
    (\<forall>l \<in> set ls'. \<forall>i s. line_use l = Some (i, s) \<longrightarrow> covers (bg_live (gs' ! i)) s \<and> (if in_run then t else t + 1) \<le> s \<and> s \<le> t')"
  using assms
proof (induction ls arbitrary: t in_run gs ls')
  case (Cons l ls)
  from Cons.prems(1) show ?case
  proof (cases rule: stamp_lines_Cons)
    case (program ls1)
    then show ?thesis using Cons.IH[OF program(2)] Cons.prems(2) by fastforce
  next
    case (planning l1 gs1 ls1)
    let ?now = "if in_run then t else t + 1"
    note f = stamp_line_facts[OF planning(2)]
    have idx: "\<forall>l \<in> set ls. \<forall>i. line_group l = Some i \<longrightarrow> i < length gs1" using Cons.prems(2) f(1) by simp
    note IH = Cons.IH[OF planning(3) idx]
    have "?now \<le> t'" using stamp_lines_shape[OF planning(3)] by blast
    moreover have "i < length gs" if "line_use l1 = Some (i, s)" for i s
    proof -
      have "line_group l1 = Some i" using that by (simp add: line_group_def)
      then show ?thesis using f(2) Cons.prems(2) by simp
    qed
    ultimately have "covers (bg_live (gs' ! i)) s \<and> ?now \<le> s \<and> s \<le> t'" if "line_use l1 = Some (i, s)" for i s
      using that f(4)[OF that] IH f(1) by auto
    moreover have "covers (bg_live (gs ! i)) s \<Longrightarrow> covers (bg_live (gs' ! i)) s" if "i < length gs" for i s using f(1) f(5)[OF that] IH that by simp
    ultimately show ?thesis using IH planning(4) by auto
  qed
qed simp

text \<open>The steps before and after a line of the program.\<close>

lemma stamp_lines_cut:
  assumes "stamp_lines t in_run ls gs = (t', ls', gs')" and "\<forall>l \<in> set ls. \<forall>i. line_group l = Some i \<longrightarrow> i < length gs"
    and "p < length ls'" and "ls' ! p = ProgramLine"
  shows "\<exists>T. t \<le> T \<and> T \<le> t' \<and> (\<forall>q < p. \<forall>i s. line_use (ls' ! q) = Some (i, s) \<longrightarrow> s \<le> T) \<and>
    (\<forall>q < length ls'. p < q \<longrightarrow> (\<forall>i s. line_use (ls' ! q) = Some (i, s) \<longrightarrow> T < s))"
  using assms
proof (induction ls arbitrary: t in_run gs ls' p)
  case (Cons l ls)
  from Cons.prems(1) show ?case
  proof (cases rule: stamp_lines_Cons)
    case (program ls1)
    show ?thesis
    proof (cases p)
      case 0
      have "\<forall>l \<in> set ls1. \<forall>i s. line_use l = Some (i, s) \<longrightarrow> t + 1 \<le> s"
        using stamp_lines_covers[OF program(2)] Cons.prems(2) by fastforce
      then show ?thesis using stamp_lines_shape[OF program(2)] by (intro exI[of _ t]) (fastforce simp: 0 program(3) nth_Cons')
    next
      case (Suc p')
      have "\<exists>T. t \<le> T \<and> T \<le> t' \<and> (\<forall>q < p'. \<forall>i s. line_use (ls1 ! q) = Some (i, s) \<longrightarrow> s \<le> T) \<and>
          (\<forall>q < length ls1. p' < q \<longrightarrow> (\<forall>i s. line_use (ls1 ! q) = Some (i, s) \<longrightarrow> T < s))"
        using Cons.IH[OF program(2), of p'] Cons.prems Suc program(3) by simp
      then show ?thesis using program(1) by (elim exE, rule_tac x = T in exI) (auto simp: Suc program(3) nth_Cons' less_Suc_eq_0_disj)
    qed
  next
    case (planning l1 gs1 ls1)
    let ?now = "if in_run then t else t + 1"
    note f = stamp_line_facts[OF planning(2)]
    obtain p' where p': "p = Suc p'" using Cons.prems(4) planning(1,4) f(3) by (cases p) auto
    have idx: "\<forall>l \<in> set ls. \<forall>i. line_group l = Some i \<longrightarrow> i < length gs1" using Cons.prems(2) f(1) by simp
    obtain T where T: "?now \<le> T" "T \<le> t'" "\<forall>q < p'. \<forall>i s. line_use (ls1 ! q) = Some (i, s) \<longrightarrow> s \<le> T"
        "\<forall>q < length ls1. p' < q \<longrightarrow> (\<forall>i s. line_use (ls1 ! q) = Some (i, s) \<longrightarrow> T < s)"
      using Cons.IH[OF planning(3) idx, of p'] Cons.prems(3,4) by (auto simp: p' planning(4))
    have "line_use l1 = Some (i, s) \<Longrightarrow> s \<le> T" for i s using f(4)[of i s] T(1) by auto
    then show ?thesis using T by (intro exI[of _ T]) (auto simp: p' planning(4) nth_Cons' less_Suc_eq_0_disj split: if_split_asm)
  qed
qed simp

subsection \<open>Names and groups\<close>

fun new_name :: "plan_line \<Rightarrow> string list" where
  "new_name (AllocateLine n) = [n]"
| "new_name (ReuseLine n n') = [n']"
| "new_name _ = []"

definition new_names :: "plan_line list \<Rightarrow> string list" where
  "new_names lines = concat (map new_name lines)"

definition group_names_ok :: "(string \<Rightarrow> nat option) \<Rightarrow> buffer_group list \<Rightarrow> plan_line set \<Rightarrow> bool" where
  "group_names_ok names groups lines \<longleftrightarrow>
     (\<forall>n i. names n = Some i \<longrightarrow> i < length groups) \<and>
     (\<forall>i < length groups. bg_live (groups ! i) = None \<and> AllocateLine (bg_node (groups ! i)) \<in> lines \<and> names (bg_node (groups ! i)) = Some i)"

lemma note_line_ok:
  assumes ok: "group_names_ok names groups A" and new: "\<forall>n \<in> set (new_name l). names n = None"
  shows "\<exists>names' groups'. note_line (names, groups) l = Inr (names', groups') \<and> group_names_ok names' groups' (insert l A) \<and>
    (\<forall>n. n \<notin> set (new_name l) \<longrightarrow> names' n = names n)"
proof (cases l)
  case (AllocateLine n)
  let ?g = "\<lparr>bg_node = n, bg_names = [n], bg_output = False, bg_live = None\<rparr>"
  have idx: "i < length groups" if "names k = Some i" for k i using ok that by (simp add: group_names_ok_def)
  have old: "bg_live (groups ! i) = None \<and> AllocateLine (bg_node (groups ! i)) \<in> A \<and> names (bg_node (groups ! i)) = Some i"
    if "i < length groups" for i using ok that by (simp add: group_names_ok_def)
  have n: "names n = None" using new by (simp add: AllocateLine)
  have 1: "i < length (groups @ [?g])" if "(names(n \<mapsto> length groups)) k = Some i" for k i
    using that idx[of k i] by (auto split: if_splits)
  have 2: "bg_live ((groups @ [?g]) ! i) = None \<and> AllocateLine (bg_node ((groups @ [?g]) ! i)) \<in> insert l A \<and>
      (names(n \<mapsto> length groups)) (bg_node ((groups @ [?g]) ! i)) = Some i" if i: "i < length (groups @ [?g])" for i
  proof -
    consider "i < length groups" | "i = length groups" using i by fastforce
    then show "bg_live ((groups @ [?g]) ! i) = None \<and> AllocateLine (bg_node ((groups @ [?g]) ! i)) \<in> insert l A \<and>
        (names(n \<mapsto> length groups)) (bg_node ((groups @ [?g]) ! i)) = Some i"
    proof cases
      case 1
      then have "bg_node (groups ! i) \<noteq> n" using old[OF 1] n by auto
      then show ?thesis using old[OF 1] 1 by (simp add: nth_append)
    qed (simp add: AllocateLine)
  qed
  have "group_names_ok (names(n \<mapsto> length groups)) (groups @ [?g]) (insert l A)" using 1 2 unfolding group_names_ok_def by blast
  then show ?thesis using n by (simp add: note_line_def AllocateLine)
next
  case (ReuseLine old n)
  show ?thesis
  proof (cases "names old")
    case None
    then show ?thesis using ok new by (fastforce simp: note_line_def ReuseLine group_names_ok_def)
  next
    case (Some i)
    let ?gs = "groups[i := (groups ! i)\<lparr>bg_names := bg_names (groups ! i) @ [n]\<rparr>]"
    have i: "i < length groups" using ok Some by (auto simp: group_names_ok_def)
    have g: "bg_node (?gs ! k) = bg_node (groups ! k)" "bg_live (?gs ! k) = bg_live (groups ! k)" for k using i by (cases "k = i"; simp)+
    have old: "bg_live (groups ! k) = None \<and> AllocateLine (bg_node (groups ! k)) \<in> A \<and> names (bg_node (groups ! k)) = Some k"
      if "k < length groups" for k using ok that by (simp add: group_names_ok_def)
    have idx: "k < length groups" if "names m = Some k" for k m using ok that by (simp add: group_names_ok_def)
    have n: "names n = None" using new by (simp add: ReuseLine)
    have ne: "bg_node (groups ! k) \<noteq> n" if "k < length groups" for k using old[OF that] n by auto
    have "group_names_ok (names(n \<mapsto> i)) ?gs (insert l A)"
      unfolding group_names_ok_def g length_list_update using old idx i ne by (auto split: if_split_asm)
    then show ?thesis using new Some by (simp add: note_line_def ReuseLine)
  qed
qed (use ok in \<open>auto simp: note_line_def group_names_ok_def\<close>)

lemma note_lines_ok:
  assumes "group_names_ok names groups A" and "distinct (new_names ls)" and "\<forall>n \<in> set (new_names ls). names n = None"
  shows "\<exists>names' groups'. foldM note_line (names, groups) ls = Inr (names', groups') \<and> group_names_ok names' groups' (A \<union> set ls)"
  using assms
proof (induction ls arbitrary: names groups A)
  case (Cons l ls)
  then obtain names1 groups1 where 1: "note_line (names, groups) l = Inr (names1, groups1)" "group_names_ok names1 groups1 (insert l A)"
      "\<forall>n. n \<notin> set (new_name l) \<longrightarrow> names1 n = names n"
    using note_line_ok[of names groups A l] by (fastforce simp: new_names_def)
  have dis: "distinct (new_names ls)" "set (new_name l) \<inter> set (new_names ls) = {}" using Cons.prems(2) by (auto simp: new_names_def)
  moreover have "\<forall>n \<in> set (new_names ls). names n = None" using Cons.prems(3) by (simp add: new_names_def)
  ultimately have "\<forall>n \<in> set (new_names ls). names1 n = None" using 1(3) by (metis disjoint_iff)
  from Cons.IH[OF 1(2) dis(1) this] 1(1) show ?case by auto
qed simp

definition frees_unused :: "plan_line list \<Rightarrow> bool" where
  "frees_unused lines \<longleftrightarrow> (\<forall>n. FreeIfNotReusedLine n True \<notin> set lines)"

fun is_program :: "plan_line \<Rightarrow> bool" where
  "is_program ProgramLine = True"
| "is_program _ = False"

definition pool_line_free :: "plan_line list \<Rightarrow> bool" where
  "pool_line_free lines \<longleftrightarrow> (\<forall>l \<in> set lines. line_use l = None)"

lemma convert_lines_ok:
  assumes "group_names_ok names groups A" and "frees_unused lines" and free: "pool_line_free lines"
  shows "\<exists>lines'. traverse (convert_line names) lines = Inr lines' \<and> length lines' = length lines \<and>
    (\<forall>p < length lines. lines' ! p = ProgramLine \<longleftrightarrow> lines ! p = ProgramLine) \<and>
    (\<forall>l \<in> set lines'. \<forall>i. line_group l = Some i \<longrightarrow> i < length groups) \<and>
    (\<forall>n i. AllocateLine n \<in> set lines \<longrightarrow> names n = Some i \<longrightarrow> AllocFromPoolLine i 0 False \<in> set lines')"
proof -
  define f where "f l = (case convert_line names l of Inl e \<Rightarrow> l | Inr l' \<Rightarrow> l')" for l
  have c: "convert_line names l = Inr (f l)" if "l \<in> set lines" for l
    using that assms(2) by (auto simp: f_def convert_line_def frees_unused_def split: plan_line.splits if_splits)
  then have t: "traverse (convert_line names) lines = Inr (map f lines)" by (rule traverse_total)
  have prog: "f l = ProgramLine \<longleftrightarrow> l = ProgramLine" for l
    by (cases l) (auto simp: f_def convert_line_def split: option.splits)
  have idx: "i < length groups" if l: "l \<in> set lines" and lg: "line_group (f l) = Some i" for l i
  proof -
    have "line_use l = None" using free l by (simp add: pool_line_free_def)
    then have "line_group l = None" by (simp add: line_group_def)
    then obtain n where "names n = Some i" using lg
      by (cases l) (auto simp: f_def convert_line_def line_group_def split: option.splits if_splits)
    then show ?thesis using assms(1) by (simp add: group_names_ok_def)
  qed
  have al: "AllocFromPoolLine i 0 False \<in> set (map f lines)" if n: "AllocateLine n \<in> set lines" "names n = Some i" for n i
  proof -
    have "f (AllocateLine n) = AllocFromPoolLine i 0 False" using n(2) by (simp add: f_def convert_line_def)
    then show ?thesis using imageI[OF n(1), of f] by simp
  qed
  show ?thesis using t prog idx al by (intro exI[of _ "map f lines"]) auto
qed

subsection \<open>Groups in use\<close>

definition group_in :: "plan_line list \<Rightarrow> nat \<Rightarrow> bool" where
  "group_in ls i \<longleftrightarrow> (\<exists>l \<in> set ls. line_group l = Some i)"

text \<open>In use at line \<open>p\<close>: allocated or freed before it, and either again after it or needed at the end.\<close>

definition used_at :: "plan_line list \<Rightarrow> buffer_group list \<Rightarrow> nat \<Rightarrow> nat \<Rightarrow> bool" where
  "used_at ls gs p i \<longleftrightarrow> i < length gs \<and> group_in (take p ls) i \<and> (bg_output (gs ! i) \<or> group_in (drop (Suc p) ls) i)"

definition same_lines :: "plan_line list \<Rightarrow> plan_line list \<Rightarrow> bool" where
  "same_lines ls ls' \<longleftrightarrow> list_all2 (\<lambda>l l'. line_group l' = line_group l \<and> (is_planning_line l' \<longleftrightarrow> is_planning_line l)) ls ls'"

lemma same_lines_group_in: "same_lines ls ls' \<Longrightarrow> group_in ls' i \<longleftrightarrow> group_in ls i"
  unfolding same_lines_def group_in_def by (induction rule: list_all2_induct) auto

lemma group_in_nth: "group_in (take p ls) i \<Longrightarrow> p < length ls \<Longrightarrow> \<exists>q s. q < p \<and> line_use (ls ! q) = Some (i, s)"
  "group_in (drop (Suc p) ls) i \<Longrightarrow> \<exists>q s. q < length ls \<and> p < q \<and> line_use (ls ! q) = Some (i, s)"
proof -
  show "group_in (take p ls) i \<Longrightarrow> p < length ls \<Longrightarrow> \<exists>q s. q < p \<and> line_use (ls ! q) = Some (i, s)"
    by (auto simp: group_in_def line_group_def in_set_conv_nth) blast
  assume "group_in (drop (Suc p) ls) i"
  then obtain k s where "k < length ls - Suc p" "line_use (ls ! Suc (p + k)) = Some (i, s)"
    by (auto simp: group_in_def line_group_def in_set_conv_nth)
  then show "\<exists>q s. q < length ls \<and> p < q \<and> line_use (ls ! q) = Some (i, s)" by (intro exI[of _ "Suc (p + k)"] exI[of _ s]) simp
qed

lemma live_ranges_computed:
  assumes c: "compute_live_ranges lines gs = (lines', gs')"
    and idx: "\<forall>l \<in> set lines. \<forall>i. line_group l = Some i \<longrightarrow> i < length gs"
    and gs: "\<forall>i < length gs. bg_live (gs ! i) = None \<and> group_in lines i"
  shows "length gs' = length gs" and "same_lines lines lines'" and "groups_ready gs'"
    and "p < length lines' \<Longrightarrow> lines' ! p = ProgramLine \<Longrightarrow> \<exists>t. (\<forall>i. used_at lines' gs' p i \<longrightarrow> t \<in> points [the (bg_live (gs' ! i))]) \<and> (\<forall>q < p. \<forall>i s. line_use (lines' ! q) = Some (i, s) \<longrightarrow> s \<le> t)"
    and "\<forall>l \<in> set lines'. \<forall>i s. line_use l = Some (i, s) \<longrightarrow> i < length gs' \<and> covers (bg_live (gs' ! i)) s"
proof -
  obtain t gs1 where st: "stamp_lines 0 False lines gs = (t, lines', gs1)"
    and gs': "gs' = map (\<lambda>g. if bg_output g then update_usage (t + 1) g else g) gs1"
    using c by (auto simp: compute_live_ranges_def split: prod.splits)
  note shape = stamp_lines_shape[OF st] and cov = stamp_lines_covers[OF st idx]
  have same: "same_lines lines lines'" using shape unfolding same_lines_def by blast
  have len: "length gs1 = length gs" using shape by blast
  then have len': "length gs' = length gs" by (simp add: gs')
  then show "length gs' = length gs" "same_lines lines lines'" using same by simp_all
  have nth: "gs' ! i = (if bg_output (gs1 ! i) then update_usage (t + 1) (gs1 ! i) else gs1 ! i)" if "i < length gs" for i
    using that len by (simp add: gs')
  have keep: "covers (bg_live (gs' ! i)) s" if "i < length gs" "covers (bg_live (gs1 ! i)) s" for i s
    using that nth update_usage_covers(2) by simp
  have outp: "bg_output (gs' ! i) = bg_output (gs1 ! i)" if "i < length gs" for i using nth[OF that] by (simp add: update_usage_def)
  have use: "covers (bg_live (gs' ! i)) s \<and> s \<le> t \<and> i < length gs" if l: "l \<in> set lines'" "line_use l = Some (i, s)" for l i s
  proof -
    have "group_in lines' i" using l by (auto simp: group_in_def line_group_def)
    then have "i < length gs" using idx same_lines_group_in[OF same] by (auto simp: group_in_def)
    moreover have "covers (bg_live (gs1 ! i)) s \<and> s \<le> t" using cov l by blast
    ultimately show ?thesis using keep by blast
  qed
  then show "\<forall>l \<in> set lines'. \<forall>i s. line_use l = Some (i, s) \<longrightarrow> i < length gs' \<and> covers (bg_live (gs' ! i)) s"
    using len' by metis
  have "live_ok gs" using gs unfolding live_ok_def by (auto simp: in_set_conv_nth)
  then have "live_ok gs1" using shape by blast
  then have ok: "case bg_live (gs' ! i) of None \<Rightarrow> True | Some r \<Rightarrow> range_ok r" if "i < length gs" for i
    using that len nth[OF that] update_usage_ok[of "gs1 ! i" "t + 1"] nth_mem[of i gs1] unfolding live_ok_def by (auto split: if_splits)
  have ready: "\<exists>r. bg_live (gs' ! i) = Some r \<and> range_ok r" if i: "i < length gs" for i
  proof -
    have "group_in lines' i" using gs i same_lines_group_in[OF same] by blast
    then obtain l s where "l \<in> set lines'" "line_use l = Some (i, s)" by (auto simp: group_in_def line_group_def)
    then show ?thesis using use ok[OF i] by (fastforce simp: covers_def)
  qed
  then show "groups_ready gs'" using len' unfolding groups_ready_def by (auto simp only: in_set_conv_nth)
  assume p: "p < length lines'" "lines' ! p = ProgramLine"
  obtain T where T: "T \<le> t" "\<forall>q < p. \<forall>i s. line_use (lines' ! q) = Some (i, s) \<longrightarrow> s \<le> T"
      "\<forall>q < length lines'. p < q \<longrightarrow> (\<forall>i s. line_use (lines' ! q) = Some (i, s) \<longrightarrow> T < s)"
    using stamp_lines_cut[OF st idx p] by blast
  have "T \<in> points [the (bg_live (gs' ! i))]" if u: "used_at lines' gs' p i" for i
  proof -
    have i: "i < length gs" using u len by (simp add: used_at_def gs')
    obtain r where r: "bg_live (gs' ! i) = Some r" using ready[OF i] by blast
    obtain q s where q: "q < p" "line_use (lines' ! q) = Some (i, s)" using group_in_nth(1) u p(1) unfolding used_at_def by blast
    then have b: "lr_begin r \<le> T" using use[of "lines' ! q" i s] T(2) r p(1) by (fastforce simp: covers_def)
    have "T < lr_end r"
    proof (cases "bg_output (gs' ! i)")
      case True
      then have "covers (bg_live (gs' ! i)) (t + 1)" using nth[OF i] outp[OF i] update_usage_covers(1) by simp
      then show ?thesis using T(1) r by (simp add: covers_def)
    next
      case False
      then obtain q s where "q < length lines'" "p < q" "line_use (lines' ! q) = Some (i, s)" using group_in_nth(2) u unfolding used_at_def by blast
      then show ?thesis using use[of "lines' ! q" i s] T(3) r by (fastforce simp: covers_def)
    qed
    then show ?thesis using b r by simp
  qed
  then show "\<exists>t. (\<forall>i. used_at lines' gs' p i \<longrightarrow> t \<in> points [the (bg_live (gs' ! i))]) \<and> (\<forall>q < p. \<forall>i s. line_use (lines' ! q) = Some (i, s) \<longrightarrow> s \<le> t)"
    using T(2) by blast
qed

subsection \<open>First and last use of pools\<close>

definition same_use :: "plan_line list \<Rightarrow> plan_line list \<Rightarrow> bool" where
  "same_use ls ls' \<longleftrightarrow> list_all2 (\<lambda>l l'. line_use l' = line_use l \<and> (l' = ProgramLine \<longleftrightarrow> l = ProgramLine)) ls ls'"

definition pool_known :: "pool list \<Rightarrow> memory_places \<Rightarrow> plan_line list \<Rightarrow> bool" where
  "pool_known ps m ls \<longleftrightarrow> (\<forall>l \<in> set ls. \<forall>i. line_group l = Some i \<longrightarrow> (\<exists>k ofs. m i = Some (k, ofs) \<and> node_ranges (p_root (ps ! k)) \<noteq> []))"

definition last_flags :: "plan_line list \<Rightarrow> (nat \<times> int) set" where
  "last_flags ls = {(i, t). DeallocFromPoolLine i t True \<in> set ls}"

lemma pool_known_Cons [simp]: "pool_known ps m (l # ls) \<longleftrightarrow> (\<forall>i. line_group l = Some i \<longrightarrow> (\<exists>k ofs. m i = Some (k, ofs) \<and> node_ranges (p_root (ps ! k)) \<noteq> [])) \<and> pool_known ps m ls"
  by (simp add: pool_known_def)

lemma same_use_Cons [simp]: "same_use (l # ls) (l' # ls') \<longleftrightarrow> line_use l' = line_use l \<and> (l' = ProgramLine \<longleftrightarrow> l = ProgramLine) \<and> same_use ls ls'"
  by (simp add: same_use_def)

lemma same_use_simps [simp]: "same_use [] []" "same_use (rev ls) (rev ls') = same_use ls ls'"
  by (simp_all add: same_use_def list_all2_rev)

lemma last_flags_simps [simp]: "last_flags [] = {}" "last_flags (rev ls) = last_flags ls"
  "last_flags (DeallocFromPoolLine i t b # ls) = (if b then insert (i, t) (last_flags ls) else last_flags ls)"
  by (auto simp: last_flags_def)

lemma last_flags_other: "(\<And>i t b. l \<noteq> DeallocFromPoolLine i t b) \<Longrightarrow> last_flags (l # ls) = last_flags ls"
  by (auto simp: last_flags_def)

lemma mark_first_ok:
  "pool_known ps m ls \<Longrightarrow> \<exists>ls'. mark_first m seen ls = Inr ls' \<and> same_use ls ls' \<and> last_flags ls' = last_flags ls"
proof (induction m seen ls rule: mark_first.induct)
  case (2 m seen i t b ls)
  then obtain k o' where k: "m i = Some (k, o')" by (auto simp: line_group_def)
  have "\<exists>ls'. mark_first m (if k \<in> set seen then seen else k # seen) ls = Inr ls' \<and> same_use ls ls' \<and> last_flags ls' = last_flags ls"
    using 2(1)[of k] 2(2)[of k] 2(3) k by (auto simp: pool_of_def)
  then show ?case using k by (auto simp: pool_of_def last_flags_other)
qed (force simp: last_flags_other)+

lemma mark_last_ok:
  "pool_known ps m ls \<Longrightarrow> \<exists>ls'. mark_last ps m seen ls = Inr ls' \<and> same_use ls ls' \<and>
    (\<forall>(i, t) \<in> last_flags ls'. (i, t) \<in> last_flags ls \<or> (\<exists>k ofs e. m i = Some (k, ofs) \<and> ranges_end (node_ranges (p_root (ps ! k))) = Inr e \<and> e \<le> t))"
proof (induction ps m seen ls rule: mark_last.induct)
  case (2 ps m seen i t b ls)
  then obtain k o' where k: "m i = Some (k, o')" "node_ranges (p_root (ps ! k)) \<noteq> []" by (auto simp: line_group_def)
  obtain e where e: "ranges_end (node_ranges (p_root (ps ! k))) = Inr e" using k by (simp add: ranges_end_def)
  have p: "pool_of m i = Inr k" using k by (simp add: pool_of_def)
  show ?case
  proof (cases "k \<in> set seen")
    case True
    then show ?thesis using 2(1)[OF p True] 2(3) by (auto simp: p split: if_splits)
  next
    case False
    then show ?thesis using 2(2)[OF p False e] 2(3) k e by (auto simp: p split: if_splits)
  qed
qed (force simp: last_flags_other)+

lemma mark_first_last_usage_ok:
  assumes "pool_known ps m ls" and "last_flags ls = {}"
  shows "\<exists>ls'. mark_first_last_usage ps m ls = Inr ls' \<and> same_use ls ls' \<and>
    (\<forall>(i, t) \<in> last_flags ls'. \<exists>k ofs e. m i = Some (k, ofs) \<and> ranges_end (node_ranges (p_root (ps ! k))) = Inr e \<and> e \<le> t)"
proof -
  obtain ls1 where 1: "mark_first m [] ls = Inr ls1" "same_use ls ls1" "last_flags ls1 = {}" using mark_first_ok[OF assms(1)] assms(2) by metis
  have "pool_known ps m ls1" using 1(2) assms(1) unfolding pool_known_def same_use_def line_group_def
    by (fastforce simp: list_all2_conv_all_nth in_set_conv_nth)
  then have "pool_known ps m (rev ls1)" by (simp add: pool_known_def)
  from mark_last_ok[of ps m "rev ls1" "[]", OF this] obtain ls2 where 2: "mark_last ps m [] (rev ls1) = Inr ls2" "same_use (rev ls1) ls2"
    "\<forall>(i, t) \<in> last_flags ls2. (i, t) \<in> last_flags (rev ls1) \<or> (\<exists>k ofs e. m i = Some (k, ofs) \<and> ranges_end (node_ranges (p_root (ps ! k))) = Inr e \<and> e \<le> t)"
    by blast
  have "same_use ls1 (rev ls2)" using 2(2) same_use_simps(2)[of ls1 "rev ls2"] by simp
  then have "same_use ls (rev ls2)" using 1(2) unfolding same_use_def by (auto simp: list_all2_conv_all_nth)
  then show ?thesis using 1 2 by (simp add: mark_first_last_usage_def)
qed

lemma separated_end: "separated rs \<Longrightarrow> t \<in> points rs \<Longrightarrow> t < lr_end (last rs)"
proof (induction rs)
  case (Cons r rs)
  then show ?case
  proof (cases "rs = []")
    case False
    have s: "separated rs" "lr_end r < lr_begin (last rs)" "range_ok (last rs)" using Cons.prems(1) False by (auto simp: separated_def)
    then show ?thesis using Cons False by (auto simp: range_ok_def)
  qed simp
qed simp

subsection \<open>The plan is safe\<close>

definition plannable :: "plan_env \<Rightarrow> plan_line list \<Rightarrow> bool" where
  "plannable env lines \<longleftrightarrow>
     pe_memory_pool env \<in> {''none'', ''intermediates'', ''outputs'', ''combined''} \<and> (\<forall>n. 0 \<le> pe_nbytes env n) \<and> pool_line_free lines \<and>
     frees_unused (drop_removed_buffers env lines) \<and> distinct (new_names (drop_removed_buffers env lines))"

definition group_bytes :: "plan_env \<Rightarrow> memory_plan \<Rightarrow> nat \<Rightarrow> int" where
  "group_bytes env mp i = pe_nbytes env (bg_node (mp_groups mp ! i))"

text \<open>The lines that are not for planning stay where they are.\<close>

definition program_kept :: "plan_line list \<Rightarrow> memory_plan \<Rightarrow> bool" where
  "program_kept lines mp \<longleftrightarrow> length (mp_lines mp) = length lines \<and> (\<forall>p < length lines. mp_lines mp ! p = ProgramLine \<longleftrightarrow> lines ! p = ProgramLine)"

definition group_inside :: "plan_env \<Rightarrow> memory_plan \<Rightarrow> nat \<Rightarrow> bool" where
  "group_inside env mp i \<longleftrightarrow>
     (\<exists>k ofs. mp_place mp i = Some (k, ofs) \<and> k < length (mp_pools mp) \<and> 0 \<le> ofs \<and>
        ofs + group_bytes env mp i \<le> runtime_size (p_root (mp_pools mp ! k)))"

definition groups_disjoint :: "plan_env \<Rightarrow> memory_plan \<Rightarrow> nat \<Rightarrow> nat \<Rightarrow> bool" where
  "groups_disjoint env mp i j \<longleftrightarrow>
     (\<forall>k oi oj. mp_place mp i = Some (k, oi) \<longrightarrow> mp_place mp j = Some (k, oj) \<longrightarrow> oi + group_bytes env mp i \<le> oj \<or> oj + group_bytes env mp j \<le> oi)"

definition plan_safe :: "plan_env \<Rightarrow> memory_plan \<Rightarrow> bool" where
  "plan_safe env mp \<longleftrightarrow>
     (\<forall>i < length (mp_groups mp). group_inside env mp i) \<and>
     (\<forall>p < length (mp_lines mp). mp_lines mp ! p = ProgramLine \<longrightarrow>
        (\<forall>i j. i \<noteq> j \<longrightarrow> used_at (mp_lines mp) (mp_groups mp) p i \<longrightarrow> used_at (mp_lines mp) (mp_groups mp) p j \<longrightarrow> groups_disjoint env mp i j))"

text \<open>A line that destroys a pool comes after all uses of the groups of the pool.\<close>

definition destroyed_late :: "memory_plan \<Rightarrow> bool" where
  "destroyed_late mp \<longleftrightarrow>
     (\<forall>p < length (mp_lines mp). mp_lines mp ! p = ProgramLine \<longrightarrow>
        (\<forall>q < p. \<forall>i t. mp_lines mp ! q = DeallocFromPoolLine i t True \<longrightarrow>
           (\<forall>j. used_at (mp_lines mp) (mp_groups mp) p j \<longrightarrow> map_option fst (mp_place mp j) \<noteq> map_option fst (mp_place mp i))))"

lemma converted:
  assumes "plannable env lines"
  shows "\<exists>lines1 gs. convert_to_pool_lines env (drop_removed_buffers env lines) = Inr (lines1, gs) \<and> length lines1 = length lines \<and>
    (\<forall>p < length lines. lines1 ! p = ProgramLine \<longleftrightarrow> lines ! p = ProgramLine) \<and>
    (\<forall>l \<in> set lines1. \<forall>i. line_group l = Some i \<longrightarrow> i < length gs) \<and>
    (\<forall>i < length gs. bg_live (gs ! i) = None \<and> group_in lines1 i) \<and> last_flags lines1 = {}"
proof -
  let ?ls = "drop_removed_buffers env lines"
  have d: "frees_unused ?ls" "distinct (new_names ?ls)" "pool_line_free lines" using assms by (simp_all add: plannable_def)
  have line: "?ls ! p = ProgramLine \<longleftrightarrow> lines ! p = ProgramLine" if "p < length lines" for p
    using that by (cases "lines ! p") (simp_all add: drop_removed_buffers_def)
  have free: "pool_line_free ?ls" using d(3) unfolding pool_line_free_def drop_removed_buffers_def
    by (auto split: option.splits)
  have "group_names_ok Map.empty [] {}" by (simp add: group_names_ok_def)
  from note_lines_ok[OF this d(2)] obtain names gs where n: "foldM note_line (Map.empty, []) ?ls = Inr (names, gs)" "group_names_ok names gs (set ?ls)"
    by auto
  obtain lines1 where l: "traverse (convert_line names) ?ls = Inr lines1" "length lines1 = length ?ls"
      "\<forall>p < length ?ls. lines1 ! p = ProgramLine \<longleftrightarrow> ?ls ! p = ProgramLine" "\<forall>l \<in> set lines1. \<forall>i. line_group l = Some i \<longrightarrow> i < length gs"
      "\<forall>n i. AllocateLine n \<in> set ?ls \<longrightarrow> names n = Some i \<longrightarrow> AllocFromPoolLine i 0 False \<in> set lines1"
    using convert_lines_ok[OF n(2) d(1) free] by blast
  have len: "length ?ls = length lines" by (simp add: drop_removed_buffers_def)
  have "group_in lines1 i" if "i < length gs" for i
  proof -
    have "AllocFromPoolLine i 0 False \<in> set lines1" using that n(2) l(5) by (auto simp: group_names_ok_def)
    then show ?thesis by (force simp: group_in_def line_group_def)
  qed
  moreover have "last_flags lines1 = {}"
  proof -
    have "l \<noteq> DeallocFromPoolLine i t True" if "l \<in> set lines1" for l i t
    proof -
      have all: "list_all2 (\<lambda>x y. convert_line names x = Inr y) ?ls lines1" using l(1) by (simp only: traverse_Inr)
      obtain k where k: "k < length lines1" "lines1 ! k = l" using \<open>l \<in> set lines1\<close> unfolding in_set_conv_nth by blast
      have "?ls ! k \<in> set ?ls" "convert_line names (?ls ! k) = Inr l" using list_all2_nthD2[OF all k(1)] k l(2) by simp_all
      then obtain l0 where l0: "line_use l0 = None" "convert_line names l0 = Inr l" using free unfolding pool_line_free_def by blast
      then show ?thesis by (cases l0) (auto simp: convert_line_def pool_line_free_def split: option.splits if_split_asm)
    qed
    then show ?thesis unfolding last_flags_def by blast
  qed
  moreover have "convert_to_pool_lines env ?ls = Inr (lines1, map (\<lambda>g. g\<lparr>bg_output := list_ex (pe_output env) (bg_names g)\<rparr>) gs)"
    using n(1) l(1) by (simp add: convert_to_pool_lines_def compute_buffer_groups_def)
  ultimately show ?thesis using l(2,3,4) line len n(2)
    by (intro exI[of _ lines1] exI[of _ "map (\<lambda>g. g\<lparr>bg_output := list_ex (pe_output env) (bg_names g)\<rparr>) gs"]) (simp add: group_names_ok_def)
qed

lemma stamp_lines_flags: "stamp_lines t r ls gs = (t', ls', gs') \<Longrightarrow> last_flags ls = {} \<Longrightarrow> last_flags ls' = {}"
proof (induction ls arbitrary: t r gs ls')
  case (Cons l ls)
  from Cons.prems(1) show ?case
  proof (cases rule: stamp_lines_Cons)
    case (program ls1)
    then show ?thesis using Cons.IH[OF program(2)] Cons.prems(2) by (simp add: last_flags_other)
  next
    case (planning l1 gs1 ls1)
    have "last_flags ls = {}" using Cons.prems(2) by (auto simp: last_flags_def)
    then show ?thesis using Cons.IH[OF planning(3)] Cons.prems(2) planning(2,4)
      by (cases l) (auto simp: stamp_line_def last_flags_other split: if_split_asm)
  qed
qed simp

lemma same_use_facts:
  assumes "same_use ls ls'"
  shows "length ls' = length ls" and "p < length ls \<Longrightarrow> ls' ! p = ProgramLine \<longleftrightarrow> ls ! p = ProgramLine"
    and "p < length ls \<Longrightarrow> line_use (ls' ! p) = line_use (ls ! p)" and "used_at ls' gs p i = used_at ls gs p i"
proof -
  show len: "length ls' = length ls" using assms by (simp add: same_use_def list_all2_lengthD)
  show "p < length ls \<Longrightarrow> ls' ! p = ProgramLine \<longleftrightarrow> ls ! p = ProgramLine" "p < length ls \<Longrightarrow> line_use (ls' ! p) = line_use (ls ! p)"
    using assms by (simp_all add: same_use_def list_all2_conv_all_nth)
  have g: "group_in ls' j = group_in ls j" if "same_use ls ls'" for ls ls' j
    using that unfolding same_use_def group_in_def line_group_def by (induction rule: list_all2_induct) auto
  have "same_use (take p ls) (take p ls')" "same_use (drop (Suc p) ls) (drop (Suc p) ls')"
    using assms unfolding same_use_def by (simp_all add: list_all2_takeI list_all2_dropI)
  then show "used_at ls' gs p i = used_at ls gs p i" unfolding used_at_def using g by blast
qed

lemma same_lines_facts:
  assumes "same_lines ls ls'"
  shows "length ls' = length ls" and "p < length ls \<Longrightarrow> ls' ! p = ProgramLine \<longleftrightarrow> ls ! p = ProgramLine"
proof -
  show "length ls' = length ls" using assms by (simp add: same_lines_def list_all2_lengthD)
  assume "p < length ls"
  then have "is_planning_line (ls' ! p) \<longleftrightarrow> is_planning_line (ls ! p)" using assms by (simp add: same_lines_def list_all2_conv_all_nth)
  then show "ls' ! p = ProgramLine \<longleftrightarrow> ls ! p = ProgramLine" using program_line_iff by blast
qed

lemma dealloc_flag: "q < length ls \<Longrightarrow> ls ! q = DeallocFromPoolLine i t True \<Longrightarrow> (i, t) \<in> last_flags ls"
  unfolding last_flags_def using nth_mem by fastforce

lemma plan_memory_facts:
  assumes plan: "plannable env lines"
  shows "\<exists>mp. plan_memory env lines = Inr mp \<and> program_kept lines mp \<and> plan_safe env mp \<and> destroyed_late mp"
proof -
  obtain lines1 gs where 1: "convert_to_pool_lines env (drop_removed_buffers env lines) = Inr (lines1, gs)" "length lines1 = length lines"
      "\<forall>p < length lines. lines1 ! p = ProgramLine \<longleftrightarrow> lines ! p = ProgramLine"
      "\<forall>l \<in> set lines1. \<forall>i. line_group l = Some i \<longrightarrow> i < length gs"
      "\<forall>i < length gs. bg_live (gs ! i) = None \<and> group_in lines1 i" "last_flags lines1 = {}"
    using converted[OF plan] by blast
  obtain lines2 groups where 2: "compute_live_ranges lines1 gs = (lines2, groups)" by (cases "compute_live_ranges lines1 gs") blast
  note live = live_ranges_computed[OF 2 1(4,5)]
  have flags2: "last_flags lines2 = {}" using 2 1(6) stamp_lines_flags by (auto simp: compute_live_ranges_def split: prod.splits)
  have cfg: "pe_memory_pool env \<in> {''none'', ''intermediates'', ''outputs'', ''combined''}" "\<forall>n. 0 \<le> pe_nbytes env n"
    using plan unfolding plannable_def by blast+
  obtain ps m where 3: "allocate_groups env groups = Inr (ps, m)" "groups_placed env groups ps m"
    using allocate_groups_ok[OF live(3) cfg] by blast
  have place: "\<exists>k ofs. m i = Some (k, ofs) \<and> k < length ps \<and> 0 \<le> ofs \<and> ofs + b_size (group_block env groups i) \<le> runtime_size (p_root (ps ! k)) \<and>
      marked (group_block env groups i) \<in> set (node_blocks (p_root (ps ! k)))" if "i < length groups" for i
    using 3(2) that unfolding groups_placed_def by blast
  have apart: "oi + b_size (group_block env groups i) \<le> oj \<or> oj + b_size (group_block env groups j) \<le> oi"
    if "i < length groups" "j < length groups" "i \<noteq> j" "live_together (group_block env groups i) (group_block env groups j)"
      "m i = Some (k, oi)" "m j = Some (k, oj)" for i j k oi oj
    using 3(2) that unfolding groups_placed_def by blast
  have roots: "blocks_ok (node_blocks (p_root (ps ! k)))" "node_ranges (p_root (ps ! k)) \<noteq> []" if "k < length ps" for k
    using 3(2) that node_ranges_nonempty unfolding groups_placed_def by blast+
  have known: "pool_known ps m lines2" using live(5) place roots(2) unfolding pool_known_def line_group_def by fastforce
  obtain lines3 where 4: "mark_first_last_usage ps m lines2 = Inr lines3" "same_use lines2 lines3"
      "\<forall>(i, t) \<in> last_flags lines3. \<exists>k ofs e. m i = Some (k, ofs) \<and> ranges_end (node_ranges (p_root (ps ! k))) = Inr e \<and> e \<le> t"
    using mark_first_last_usage_ok[OF known flags2] by blast
  note use = same_use_facts[OF 4(2)] and same = same_lines_facts[OF live(2)]
  define mp where "mp = \<lparr>mp_lines = lines3, mp_groups = groups, mp_pools = ps, mp_place = m\<rparr>"
  have run: "plan_memory env lines = Inr mp" using 1(1) 2 3(1) 4(1) by (simp add: plan_memory_def mp_def)
  have bytes: "group_bytes env mp i = b_size (group_block env groups i)" for i by (simp add: group_bytes_def mp_def group_block_def)
  have kept: "program_kept lines mp" using use(1,2) same 1(2,3) by (simp add: program_kept_def mp_def)
  have cut: "\<exists>t. (\<forall>i. used_at lines3 groups p i \<longrightarrow> t \<in> points [b_live (group_block env groups i)]) \<and> (\<forall>q < p. \<forall>i s. line_use (lines3 ! q) = Some (i, s) \<longrightarrow> s \<le> t)"
    if p: "p < length lines3" "lines3 ! p = ProgramLine" for p
  proof -
    have p2: "p < length lines2" "lines2 ! p = ProgramLine" using p use(1) use(2)[of p] by simp_all
    from live(4)[OF p2] obtain t where t: "\<forall>i. used_at lines2 groups p i \<longrightarrow> t \<in> points [the (bg_live (groups ! i))]"
      "\<forall>q < p. \<forall>i s. line_use (lines2 ! q) = Some (i, s) \<longrightarrow> s \<le> t" by blast
    show ?thesis
    proof (intro exI[of _ t] conjI allI impI)
      fix i assume "used_at lines3 groups p i"
      then show "t \<in> points [b_live (group_block env groups i)]" using t(1) use(4) by (simp add: group_block_def)
    next
      fix q i s assume "q < p" "line_use (lines3 ! q) = Some (i, s)"
      then show "s \<le> t" using t(2) use(3)[of q] p2(1) by simp
    qed
  qed
  have safe: "plan_safe env mp" unfolding plan_safe_def
  proof (intro conjI allI impI)
    fix i assume "i < length (mp_groups mp)"
    then show "group_inside env mp i" using place[of i] unfolding group_inside_def bytes by (auto simp: mp_def)
  next
    fix p i j assume p: "p < length (mp_lines mp)" "mp_lines mp ! p = ProgramLine" and ij: "i \<noteq> j"
      and u: "used_at (mp_lines mp) (mp_groups mp) p i" "used_at (mp_lines mp) (mp_groups mp) p j"
    from p cut[of p] obtain t where "t \<in> points [b_live (group_block env groups i)]" "t \<in> points [b_live (group_block env groups j)]"
      using u unfolding mp_def by fastforce
    then have lt: "live_together (group_block env groups i) (group_block env groups j)" unfolding live_together_def by blast
    have "i < length groups" "j < length groups" using u by (simp_all add: used_at_def mp_def)
    from apart[OF this ij lt] show "groups_disjoint env mp i j" unfolding groups_disjoint_def bytes by (auto simp: mp_def)
  qed
  have late: "destroyed_late mp" unfolding destroyed_late_def
  proof (intro allI impI notI)
    fix p q i s j assume p: "p < length (mp_lines mp)" "mp_lines mp ! p = ProgramLine" and q: "q < p" "mp_lines mp ! q = DeallocFromPoolLine i s True"
      and u: "used_at (mp_lines mp) (mp_groups mp) p j" and eq: "map_option fst (mp_place mp j) = map_option fst (mp_place mp i)"
    from p cut[of p] obtain t where t: "t \<in> points [b_live (group_block env groups j)]" "\<forall>q < p. \<forall>i s. line_use (lines3 ! q) = Some (i, s) \<longrightarrow> s \<le> t"
      using u unfolding mp_def by fastforce
    have "(i, s) \<in> last_flags lines3" using dealloc_flag[of q lines3] p q by (simp add: mp_def)
    then obtain k ofs e where k: "m i = Some (k, ofs)" "ranges_end (node_ranges (p_root (ps ! k))) = Inr e" "e \<le> s" using 4(3) by blast
    obtain ofs' where j: "k < length ps" "marked (group_block env groups j) \<in> set (node_blocks (p_root (ps ! k)))"
      using place[of j] u eq k(1) by (auto simp: used_at_def mp_def)
    have "t \<in> points (map b_live (node_blocks (p_root (ps ! k))))" using imageI[OF j(2), of b_live] t(1) by (auto simp: points_def)
    then have "t \<in> points (node_ranges (p_root (ps ! k)))" using node_ranges_points[OF roots(1)[OF j(1)]] by simp
    then have "t < lr_end (last (node_ranges (p_root (ps ! k))))" using separated_end node_ranges_points[OF roots(1)[OF j(1)]] by blast
    moreover have "e = lr_end (last (node_ranges (p_root (ps ! k))))" using k(2) by (simp add: ranges_end_def split: if_splits)
    moreover have "s \<le> t" using t(2) q by (simp add: mp_def)
    ultimately show False using k(3) by simp
  qed
  show ?thesis using run kept safe late by blast
qed

text \<open>C8: For a valid setting of \<open>memory_pool\<close>, sizes that are not negative and lines in which every buffer is allocated or named by a reuse once and no free
  line is marked as reused, the planner returns. The lines of the program itself stay where they are; every group of buffers lies inside
  its pool; two groups that are in use at a line of the program, each with a pool line before it and one after it or an output among its names, do not share
  memory; and a line that destroys a pool comes after all uses of the groups in the pool.\<close>

theorem plan_memory_safe:
  assumes "plannable env lines"
  shows "\<exists>mp. plan_memory env lines = Inr mp \<and> program_kept lines mp \<and> plan_safe env mp \<and> destroyed_late mp"
  using assms by (rule plan_memory_facts)

definition cpu_env :: "string set \<Rightarrow> plan_env" where
  "cpu_env outs = \<lparr>pe_removed = (\<lambda>n. False), pe_output = (\<lambda>n. n \<in> outs), pe_device = (\<lambda>n. ''cpu''), pe_nbytes = (\<lambda>n. 64), pe_hint = (\<lambda>n. 64),
     pe_unbacked = (\<lambda>n. False), pe_memory_pool = ''intermediates''\<rparr>"

definition demo_lines :: "plan_line list" where
  "demo_lines = [AllocateLine ''a'', ProgramLine, AllocateLine ''b'', ProgramLine, FreeIfNotReusedLine ''a'' False, AllocateLine ''c'', ProgramLine,
     FreeIfNotReusedLine ''b'' False]"

lemma plan_safeD:
  "plan_safe env mp \<Longrightarrow> p < length (mp_lines mp) \<Longrightarrow> mp_lines mp ! p = ProgramLine \<Longrightarrow> i \<noteq> j \<Longrightarrow>
    used_at (mp_lines mp) (mp_groups mp) p i \<Longrightarrow> used_at (mp_lines mp) (mp_groups mp) p j \<Longrightarrow> groups_disjoint env mp i j"
  unfolding plan_safe_def by blast

theorem plan_memory_safe_witness:
  "\<exists>mp. plan_memory (cpu_env {''c''}) demo_lines = Inr mp \<and> used_at (mp_lines mp) (mp_groups mp) 3 0 \<and> used_at (mp_lines mp) (mp_groups mp) 3 1 \<and>
     mp_lines mp ! 3 = ProgramLine \<and> groups_disjoint (cpu_env {''c''}) mp 0 1"
proof -
  let ?env = "cpu_env {''c''}"
  have "plannable ?env demo_lines"
    by (auto simp: plannable_def cpu_env_def demo_lines_def pool_line_free_def frees_unused_def drop_removed_buffers_def new_names_def)
  from plan_memory_safe[OF this] obtain mp where mp: "plan_memory ?env demo_lines = Inr mp" "plan_safe ?env mp" by blast
  have "case plan_memory ?env demo_lines of Inl e \<Rightarrow> False
    | Inr mp \<Rightarrow> length (mp_lines mp) = 8 \<and> used_at (mp_lines mp) (mp_groups mp) 3 0 \<and> used_at (mp_lines mp) (mp_groups mp) 3 1 \<and> mp_lines mp ! 3 = ProgramLine"
    by code_simp
  then have u: "length (mp_lines mp) = 8" "used_at (mp_lines mp) (mp_groups mp) 3 0" "used_at (mp_lines mp) (mp_groups mp) 3 1" "mp_lines mp ! 3 = ProgramLine"
    using mp(1) by simp_all
  have "groups_disjoint ?env mp 0 1" by (rule plan_safeD[OF mp(2), of 3]) (use u in simp_all)
  then show ?thesis using mp(1) u by blast
qed

text \<open>A buffer that is allocated and never freed is live for no step at all: here \<open>a\<close> and \<open>b\<close> get the same memory, although the last line of the program may still read \<open>a\<close>. The
  wrapper code generator writes no free line for buffers that must not be reused.\<close>

lemma never_freed_shares:
  "\<exists>mp. plan_memory (cpu_env {}) [AllocateLine ''a'', ProgramLine, AllocateLine ''b'', ProgramLine, FreeIfNotReusedLine ''b'' False] = Inr mp \<and>
     mp_place mp 0 = Some (0, 0) \<and> mp_place mp 1 = Some (0, 0)"
proof -
  have "case plan_memory (cpu_env {}) [AllocateLine ''a'', ProgramLine, AllocateLine ''b'', ProgramLine, FreeIfNotReusedLine ''b'' False] of
      Inl e \<Rightarrow> False | Inr mp \<Rightarrow> mp_place mp 0 = Some (0, 0) \<and> mp_place mp 1 = Some (0, 0)"
    by code_simp
  then show ?thesis by (auto split: sum.splits)
qed

end
