(* ===== verification/Spec2Isabelle.thy ===== *)
theory Spec2Isabelle
  imports Shapes MeshLayout Pytree Rendezvous ScheduleGenerators Sharding PlanCache StateDict Digraph PassManager PartitionProposal MemoryPlanSafe
begin

text \<open>
  \<^bold>\<open>A verification of the TensorPlay Python core.\<close>

  TensorPlay is a tensor library. Below the Python package are native storage and kernels; the Python code
  decides shapes, strides and dtypes, takes nested containers apart, lays device meshes out, lets the processes of
  a job find each other, orders the work of a pipeline, plans how sharded tensors are written to
  and read from checkpoints, keeps captured programs as graphs that it rewrites and runs, and plans the memory of compiled programs. This development models the Python code of these parts, file by file, and proves
  what makes each of them correct.

  \<^bold>\<open>Conventions.\<close> A function that may raise returns \<open>py_error + 'a\<close>: every \<open>raise\<close>, failed assertion, bad index and missing key
  is a value \<open>Inl\<close>; messages are left out. Python integers are \<open>int\<close>. Stateful code passes a record; where an exception
  leaves earlier assignments in place (the plan cache, graphs) the state is returned beside the result. Dictionaries are
  association lists in insertion order where the order is visible and maps where it is not. Objects that the code gets
  from native code or the environment are parameters: the dtype objects' identity, element sizes, the default dtype,
  clocks, the order in which Python iterates a set.

  \<^bold>\<open>The theories.\<close>

  \<^item> \<^emph>\<open>Prelude\<close>: results and their sequencing, Python indexing and ranges, collections of rewrite rules, list lemmas.

  \<^item> \<^emph>\<open>Strided\<close>, \<^emph>\<open>Dtypes\<close>, \<^emph>\<open>Shapes\<close> (\<^verbatim>\<open>primitives/common/__init__.py\<close>): strided addressing and the locale \<open>dense_geometry\<close>;
    dtype classes, tiers and \<open>elementwise_dtypes\<close> for every promotion kind; validation of dimensions and permutations,
    contiguous and channels-last strides, density checks, broadcasting, size inference, storage bounds and the layout of
    elementwise results. Shown: broadcasting is the least common expansion; row-major strides enumerate a storage in order; a
    geometry that the density check accepts visits each address once (both through \<open>dense_geometry\<close>); storage bounds
    are tight; the category and the maximality of promoted dtypes; permutations invert.

  \<^item> \<^emph>\<open>IntTuple\<close>, \<^emph>\<open>CuteLayout\<close>, \<^emph>\<open>MeshLayout\<close> (\<^verbatim>\<open>distributed/_pycute\<close>, \<^verbatim>\<open>distributed/_mesh_layout.py\<close>): nested tuples and
    coordinates, layouts and their algebra, device-mesh layouts. Shown: index and coordinate are inverse; coalescing keeps the
    function of a layout; composing with a run of coordinates at one step computes the composed function when no extent was
    rounded down; the rank groups of a mesh axis partition the world (through \<open>dense_geometry\<close> again).

  \<^item> \<^emph>\<open>Pytree\<close> (\<^verbatim>\<open>utils/_pytree.py\<close>): registry, flatten, unflatten, maps, prefix broadcast, key paths. The locales \<open>lawful_nodes\<close> and
    \<open>keyed_nodes\<close> state what a registered container promises; the built-in containers interpret them. Shown: the round
    trip, that maps keep the structure, that key paths resolve. The recursive functions take the remaining recursion
    depth of the interpreter and raise RecursionError at zero; the theorems hold for every depth above the size of the tree.

  \<^item> \<^emph>\<open>Rendezvous\<close> (\<^verbatim>\<open>distributed/elastic/rendezvous\<close>): the shared state document, the operations of a node, the executor loop and the
    store with compare-and-swap, as a step relation of any number of nodes with arbitrary interleaving and clocks. The locale
    \<open>versioned_store\<close> is the contract of the store. Shown: an invariant of every reachable state, that the document never goes
    back, the numbering of ranks, and that a node alone finishes. The executor takes a step budget; the liveness
    theorem gives a budget that is enough.

  \<^item> \<^emph>\<open>Schedules\<close>, \<^emph>\<open>SchedulePasses\<close>, \<^emph>\<open>ScheduleValidation\<close>, \<^emph>\<open>ScheduleGenerators\<close> (\<^verbatim>\<open>distributed/pipelining/schedules.py\<close>): actions, the
    generators GPipe, 1F1B, looped BFS, interleaved 1F1B and zero bubble, the passes over the actions of a rank, and the
    validator. The locale \<open>stage_per_rank\<close> has what GPipe and 1F1B share. Shown: what an accepted schedule guarantees, that
    both generators are accepted with their bound of microbatches in flight, and that the passes keep the work.

  \<^item> \<^emph>\<open>Boxes\<close>, \<^emph>\<open>Sharding\<close> (\<^verbatim>\<open>distributed/_shard\<close>): boxes of a tensor, the locale \<open>tiling_check\<close>, sharding specifications and their
    validation. Shown: shards that are accepted tile the tensor, chunk specifications do, and the search for
    overlaps is exact.

  \<^item> \<^emph>\<open>CheckpointPlan\<close>, \<^emph>\<open>CheckpointSave\<close>, \<^emph>\<open>PlanCache\<close> (\<^verbatim>\<open>distributed/checkpoint\<close>): read items of a load, deduplication, the global save
    plan and its validation, the plan cache, and one save of all ranks. Shown: the sweep over chunks finds all
    overlapping pairs; validation accepts exactly the tilings (\<open>tiling_check\<close> again); a checkpoint whose plan was
    accepted can be loaded with any other sharding, every element once; every item is written by one rank; a save through
    the cache is one without it, up to what the comparison of plans sees (the locale \<open>global_planner\<close>).

  \<^item> \<^emph>\<open>StateDict\<close> (\<^verbatim>\<open>distributed/checkpoint/_traverse.py\<close>, \<^verbatim>\<open>_nested_dict.py\<close>): traversal of nested state dicts, flattening and
    rebuilding. Shown: the round trip for state dicts with string keys and no empty dictionaries inside, and that lookup
    finds what the traversal visits.

  \<^item> \<^emph>\<open>Digraph\<close> (\<^verbatim>\<open>package/_digraph.py\<close>): the dependency graph of the packager. Its loops are partial functions, so that returning is
    part of each claim. Shown: the dictionaries stay consistent, the closures are exact for names of one
    character, \<open>first_path\<close> returns a path when predecessors are added first.

  \<^item> \<^emph>\<open>GraphNames\<close>, \<^emph>\<open>GraphNode\<close>, \<^emph>\<open>GraphIR\<close> (\<^verbatim>\<open>graph/graph.py\<close>, \<^verbatim>\<open>graph/node.py\<close>): names, nodes and graphs of the intermediate representation, in
    a store with addresses, because nodes refer to each other and are changed in place. \<^emph>\<open>GraphInvariant\<close> has the invariant of the store and a step relation
    of the calls that keep it, returning or raising: creation, erasure, argument and user updates, moves, renames, retargeting and insertion points. Direct removal
    from the node list and creation at an insertion point whose anchor was erased are not steps, since they break the invariant (\<open>list_remove_skips_neighbour\<close>,
    \<open>create_before_erased_breaks\<close> of \<^emph>\<open>GraphChecks\<close>); \<^emph>\<open>GraphChecks\<close> what queries, the check \<open>lint\<close> and rewriting do; \<^emph>\<open>GraphDce\<close> dead code elimination;
    \<^emph>\<open>GraphInterp\<close> (\<^verbatim>\<open>graph/interpreter.py\<close>) the interpreter, over a runtime that stands for the objects a graph calls. Shown: every store that
    these steps reach is consistent; \<open>lint\<close> accepts exactly the topological orders; a replaced node can be erased; the elimination returns, keeps exactly what is needed, and does
    not change what a run computes; neither does dropping values after their last use. Only the marking loop is partial, and it is shown to return.

  \<^item> \<^emph>\<open>GraphOrder\<close> (\<^verbatim>\<open>graph/passes/tools_common.py\<close>, \<^verbatim>\<open>graph/passes/utils/fuser_utils.py\<close>), \<^emph>\<open>PassManager\<close> (\<^verbatim>\<open>graph/passes/pass_manager.py\<close>,
    \<^verbatim>\<open>graph/passes/infra/pass_manager.py\<close>): the loop that counts predecessors down, which orders nodes and passes (the locales \<open>countdown_order\<close> and
    \<open>exact_countdown\<close>), and the two pass managers. The locale \<open>module_passes\<close> is the contract of passes; dead code elimination satisfies it. Shown: the
    orders are right and found when they exist; a pass manager calls all passes in a right order, in rounds, until one changes nothing, and stops at the first that
    fails; over dead code elimination it keeps what the graph computes.

  \<^item> \<^emph>\<open>GraphPartition\<close>, \<^emph>\<open>GraphFusing\<close>, \<^emph>\<open>PartitionProposal\<close> (\<^verbatim>\<open>graph/passes/infra/partitioner.py\<close>): the partitioner's state and operations; graphs in which
    groups of nodes are fused; the invariant of the proposal. Shown: fusing the proposed partitions makes no cycle, and two cases in which the code goes
    wrong. The loop that reassigns getitem calls is partial.

  \<^item> \<^emph>\<open>MemoryPlan\<close>, \<^emph>\<open>MemoryPools\<close>, \<^emph>\<open>MemoryPlanSafe\<close> (\<^verbatim>\<open>compiler/backends/stax/codegen/memory_planning.py\<close>): the planner that puts the buffers of a compiled program
    into pools: live ranges, the tree of splits in time and space, pools, and the passes over the lines of the program. The locale \<open>block_allocator\<close> is the contract of the two ways to
    allocate. Shown: the planner returns, every buffer lies inside its pool, buffers in use at the same line share no memory, a pool is destroyed after its last use.

  \<^bold>\<open>Behaviour that is not what the code means.\<close> Several theorems state such behaviour on concrete inputs: a validator that
  accepts a microbatch without backward, ranks outside the world size after a node is lost, shards that a specification
  builds and its own check rejects, a deduplication that drops items, a plan cache that ignores dtypes and keeps rejected plans, a flattening that turns integer
  keys into strings and loses empty dictionaries, graph queries that take node names apart or never return on cycles,
  removal of a graph node that leaves wrong positions, an insertion point that loses its anchor, a creation that fails after the node is linked, a replacement that stops half way, parameter defaults that are lost,
  orders that take a repeated input or a repeated pass for a cycle, partitions that need each other, a reassignment that never ends, a buffer that is never freed and shares its memory.

  \<^bold>\<open>Not modelled.\<close> Native code (\<^verbatim>\<open>p10\<close>, \<^verbatim>\<open>tpx\<close>, \<^verbatim>\<open>stax\<close>) and bindings; numerical functions, modules and optimizers, which are
  expressions over native kernels; the tracer, which runs live Python code, the other graph passes, and the compiler apart from its memory planner; process management, collectives and storage I/O;
  pickling; floating-point arithmetic. Of the modelled files: pretty printers, functions that allocate or read
  tensor data, heartbeat threads, the schedule runtime that executes actions, the schedule formats read from files, how the
  values of a state dict become write items, and of graphs the hooks of the owning module, pickling, printing, code generation and symbolic sizes.

  \<^bold>\<open>What could come next.\<close> The remaining schedule generators and the insertion of sends and receives, the write items of
  state dicts and the local load plan, fusing graph partitions into submodules, and the storage layouts of distributed tensors.
\<close>

end
